(* ===== verification/Prelude.thy ===== *)
theory Prelude
  imports Main "HOL-Library.List_Lexorder" "HOL-Library.Sublist"
begin

text \<open>
  Shared vocabulary of the development: Rust characters and strings, the part of
  \<open>core::str\<close> and \<open>core::char\<close> the modelled modules call, and the generic lemmas
  the component theories share.

  A Rust \<open>char\<close> is a Unicode scalar value and is modelled by its code point, a
  natural number (\<open>uchar\<close>); a \<open>&str\<close>, a \<open>String\<close> and a \<open>Vec<char>\<close> are lists of
  code points (\<open>rstr\<close>). Where the source counts UTF-8 bytes the model does too, through
  \<open>utf8_len\<close>. The order of \<open>rstr\<close> is lexicographic, which is the order of the UTF-8
  bytes of the strings. Literals are written \<open>ascii ''text''\<close>.
\<close>

section \<open>Characters and strings\<close>

type_synonym uchar = nat
type_synonym rstr = "uchar list"

named_theorems char_defs
named_theorems str_simps

definition ascii :: "string \<Rightarrow> rstr" where
  "ascii s = map of_char s"

lemma ascii_Nil [simp]: "ascii [] = []"
  by (simp add: ascii_def)

lemma ascii_Cons [simp]: "ascii (c # s) = of_char c # ascii s"
  by (simp add: ascii_def)

abbreviation (input) c_tab :: uchar where "c_tab \<equiv> 9"
abbreviation (input) c_nl :: uchar where "c_nl \<equiv> 10"
abbreviation (input) c_cr :: uchar where "c_cr \<equiv> 13"
abbreviation (input) c_space :: uchar where "c_space \<equiv> 32"
abbreviation (input) c_bang :: uchar where "c_bang \<equiv> 33"
abbreviation (input) c_dquote :: uchar where "c_dquote \<equiv> 34"
abbreviation (input) c_dollar :: uchar where "c_dollar \<equiv> 36"
abbreviation (input) c_squote :: uchar where "c_squote \<equiv> 39"
abbreviation (input) c_lparen :: uchar where "c_lparen \<equiv> 40"
abbreviation (input) c_rparen :: uchar where "c_rparen \<equiv> 41"
abbreviation (input) c_star :: uchar where "c_star \<equiv> 42"
abbreviation (input) c_plus :: uchar where "c_plus \<equiv> 43"
abbreviation (input) c_comma :: uchar where "c_comma \<equiv> 44"
abbreviation (input) c_minus :: uchar where "c_minus \<equiv> 45"
abbreviation (input) c_dot :: uchar where "c_dot \<equiv> 46"
abbreviation (input) c_slash :: uchar where "c_slash \<equiv> 47"
abbreviation (input) c_zero :: uchar where "c_zero \<equiv> 48"
abbreviation (input) c_colon :: uchar where "c_colon \<equiv> 58"
abbreviation (input) c_semi :: uchar where "c_semi \<equiv> 59"
abbreviation (input) c_equals :: uchar where "c_equals \<equiv> 61"
abbreviation (input) c_quest :: uchar where "c_quest \<equiv> 63"
abbreviation (input) c_at :: uchar where "c_at \<equiv> 64"
abbreviation (input) c_lbracket :: uchar where "c_lbracket \<equiv> 91"
abbreviation (input) c_backslash :: uchar where "c_backslash \<equiv> 92"
abbreviation (input) c_rbracket :: uchar where "c_rbracket \<equiv> 93"
abbreviation (input) c_caret :: uchar where "c_caret \<equiv> 94"
abbreviation (input) c_under :: uchar where "c_under \<equiv> 95"
abbreviation (input) c_backtick :: uchar where "c_backtick \<equiv> 96"
abbreviation (input) c_lbrace :: uchar where "c_lbrace \<equiv> 123"
abbreviation (input) c_rbrace :: uchar where "c_rbrace \<equiv> 125"
abbreviation (input) c_tilde :: uchar where "c_tilde \<equiv> 126"

section \<open>Character classes\<close>

text \<open>\<open>char::is_ascii\<close>, \<open>is_ascii_digit\<close> and so on.\<close>

definition is_ascii :: "uchar \<Rightarrow> bool" where [char_defs]:
  "is_ascii c \<longleftrightarrow> c < 128"

definition is_ascii_digit :: "uchar \<Rightarrow> bool" where [char_defs]:
  "is_ascii_digit c \<longleftrightarrow> 48 \<le> c \<and> c \<le> 57"

definition is_ascii_uppercase :: "uchar \<Rightarrow> bool" where [char_defs]:
  "is_ascii_uppercase c \<longleftrightarrow> 65 \<le> c \<and> c \<le> 90"

definition is_ascii_lowercase :: "uchar \<Rightarrow> bool" where [char_defs]:
  "is_ascii_lowercase c \<longleftrightarrow> 97 \<le> c \<and> c \<le> 122"

definition is_ascii_alphabetic :: "uchar \<Rightarrow> bool" where [char_defs]:
  "is_ascii_alphabetic c \<longleftrightarrow> is_ascii_uppercase c \<or> is_ascii_lowercase c"

definition is_ascii_hexdigit :: "uchar \<Rightarrow> bool" where [char_defs]:
  "is_ascii_hexdigit c \<longleftrightarrow> is_ascii_digit c \<or> (65 \<le> c \<and> c \<le> 70) \<or> (97 \<le> c \<and> c \<le> 102)"

text \<open>\<open>is_ascii_whitespace\<close> is space, tab, line feed, form feed and carriage return.\<close>

definition is_ascii_whitespace :: "uchar \<Rightarrow> bool" where [char_defs]:
  "is_ascii_whitespace c \<longleftrightarrow> c = 32 \<or> c = 9 \<or> c = 10 \<or> c = 12 \<or> c = 13"

text \<open>\<open>char::is_whitespace\<close>: the Unicode property \<open>White_Space\<close>.\<close>

definition is_whitespace :: "uchar \<Rightarrow> bool" where [char_defs]:
  "is_whitespace c \<longleftrightarrow>
     (9 \<le> c \<and> c \<le> 13) \<or> c = 32 \<or> c = 133 \<or> c = 160 \<or> c = 5760 \<or>
     (8192 \<le> c \<and> c \<le> 8202) \<or> c = 8232 \<or> c = 8233 \<or> c = 8239 \<or> c = 8287 \<or> c = 12288"

definition to_ascii_lowercase :: "uchar \<Rightarrow> uchar" where [char_defs]:
  "to_ascii_lowercase c = (if is_ascii_uppercase c then c + 32 else c)"

definition to_ascii_uppercase :: "uchar \<Rightarrow> uchar" where [char_defs]:
  "to_ascii_uppercase c = (if is_ascii_lowercase c then c - 32 else c)"

text \<open>\<open>char::from_u32\<close> refuses surrogates and anything past U+10FFFF.\<close>

definition is_scalar :: "nat \<Rightarrow> bool" where [char_defs]:
  "is_scalar n \<longleftrightarrow> n < 55296 \<or> (57344 \<le> n \<and> n \<le> 1114111)"

definition char_from_u32 :: "nat \<Rightarrow> uchar option" where
  "char_from_u32 n = (if is_scalar n then Some n else None)"

text \<open>\<open>char::len_utf8\<close> and \<open>str::len\<close>.\<close>

definition utf8_len :: "uchar \<Rightarrow> nat" where
  "utf8_len c = (if c < 128 then 1 else if c < 2048 then 2 else if c < 65536 then 3 else 4)"

definition byte_len :: "rstr \<Rightarrow> nat" where
  "byte_len s = sum_list (map utf8_len s)"

lemma utf8_len_pos [simp]: "0 < utf8_len c"
  by (simp add: utf8_len_def)

lemma byte_len_simps [simp]:
  "byte_len [] = 0" "byte_len (c # s) = utf8_len c + byte_len s"
  "byte_len (s @ t) = byte_len s + byte_len t"
  by (simp_all add: byte_len_def)

lemma byte_len_0_iff [simp]: "byte_len s = 0 \<longleftrightarrow> s = []"
  by (cases s) auto

section \<open>Slices and searching\<close>

text \<open>\<open>slice::get\<close>: \<open>None\<close> out of range.\<close>

definition get :: "'a list \<Rightarrow> nat \<Rightarrow> 'a option" where
  "get xs i = (if i < length xs then Some (xs ! i) else None)"

lemma get_simps [simp]:
  "get [] i = None" "get (x # xs) 0 = Some x" "get (x # xs) (Suc i) = get xs i"
  by (simp_all add: get_def)

lemma get_None_iff [simp]: "get xs i = None \<longleftrightarrow> length xs \<le> i"
  by (simp add: get_def)

lemma get_SomeD: "get xs i = Some x \<Longrightarrow> i < length xs \<and> xs ! i = x"
  by (simp add: get_def split: if_splits)

definition strip_prefix :: "'a list \<Rightarrow> 'a list \<Rightarrow> 'a list option" where
  "strip_prefix p s = (if prefix p s then Some (drop (length p) s) else None)"

lemma strip_prefix_Some_iff: "strip_prefix p s = Some r \<longleftrightarrow> s = p @ r"
  by (auto simp: strip_prefix_def prefix_def)

lemma strip_prefix_Nil [simp]: "strip_prefix [] s = Some s"
  by (simp add: strip_prefix_def)

lemma strip_prefix_None_iff: "strip_prefix p s = None \<longleftrightarrow> \<not> prefix p s"
  by (simp add: strip_prefix_def)

text \<open>The first index satisfying a predicate, \<open>Iterator::position\<close>.\<close>

fun position :: "('a \<Rightarrow> bool) \<Rightarrow> 'a list \<Rightarrow> nat option" where
  "position P [] = None"
| "position P (x # xs) = (if P x then Some 0 else map_option Suc (position P xs))"

lemma position_None_iff: "position P xs = None \<longleftrightarrow> (\<forall>x\<in>set xs. \<not> P x)"
  by (induction xs) auto

lemma position_SomeD:
  "position P xs = Some i \<Longrightarrow> i < length xs \<and> P (xs ! i) \<and> (\<forall>j<i. \<not> P (xs ! j))"
proof (induction xs arbitrary: i)
  case (Cons x xs)
  then show ?case
    by (auto simp: less_Suc_eq_0_disj split: if_splits)
qed simp

text \<open>\<open>str::split\<close> on a character always yields at least one part.\<close>

fun split_on :: "'a \<Rightarrow> 'a list \<Rightarrow> 'a list list" where
  "split_on c [] = [[]]"
| "split_on c (x # xs) =
     (if x = c then [] # split_on c xs
      else (case split_on c xs of [] \<Rightarrow> [[x]] | p # ps \<Rightarrow> (x # p) # ps))"

fun join :: "'a list \<Rightarrow> 'a list list \<Rightarrow> 'a list" where
  "join sep [] = []"
| "join sep [p] = p"
| "join sep (p # q # ps) = p @ sep @ join sep (q # ps)"

lemma split_on_not_Nil [simp]: "split_on c s \<noteq> []"
  by (induction s) (auto split: list.splits)

lemma join_Cons: "ps \<noteq> [] \<Longrightarrow> join sep (p # ps) = p @ sep @ join sep ps"
  by (cases ps) auto

lemma join_split_on [simp]: "join [c] (split_on c s) = s"
proof (induction s)
  case (Cons x xs)
  obtain p ps where ps: "split_on c xs = p # ps"
    by (cases "split_on c xs") auto
  with Cons show ?case
    by (cases ps) auto
qed simp

lemma split_on_free: "\<forall>p\<in>set (split_on c s). c \<notin> set p"
proof (induction s)
  case (Cons x xs)
  then show ?case by (cases "split_on c xs") auto
qed simp

lemma split_on_id: "c \<notin> set s \<Longrightarrow> split_on c s = [s]"
  by (induction s) auto

lemma split_on_append: "c \<notin> set p \<Longrightarrow> split_on c (p @ c # s) = p # split_on c s"
  by (induction p) auto

lemma split_on_join:
  "ps \<noteq> [] \<Longrightarrow> \<forall>p\<in>set ps. c \<notin> set p \<Longrightarrow> split_on c (join [c] ps) = ps"
  by (induction "[c]" ps rule: join.induct) (auto simp: split_on_id split_on_append)

text \<open>\<open>str::split_once\<close>.\<close>

fun split_once :: "'a list \<Rightarrow> 'a list \<Rightarrow> ('a list \<times> 'a list) option" where
  "split_once p [] = (if p = [] then Some ([], []) else None)"
| "split_once p (x # xs) =
     (case strip_prefix p (x # xs) of
        Some r \<Rightarrow> Some ([], r)
      | None \<Rightarrow> map_option (\<lambda>(a, b). (x # a, b)) (split_once p xs))"

lemma split_once_SomeD: "split_once p s = Some (a, b) \<Longrightarrow> s = a @ p @ b"
  by (induction p s arbitrary: a b rule: split_once.induct)
     (auto simp: strip_prefix_Some_iff split: if_splits option.splits)

text \<open>\<open>str::replace\<close> of one character by a string.\<close>

definition replace_char :: "'a \<Rightarrow> 'a list \<Rightarrow> 'a list \<Rightarrow> 'a list" where
  "replace_char c r s = concat (map (\<lambda>x. if x = c then r else [x]) s)"

lemma replace_char_simps [simp]:
  "replace_char c r [] = []"
  "replace_char c r (x # s) = (if x = c then r else [x]) @ replace_char c r s"
  by (simp_all add: replace_char_def)

lemma replace_char_append [simp]:
  "replace_char c r (s @ t) = replace_char c r s @ replace_char c r t"
  by (simp add: replace_char_def)

text \<open>\<open>str::trim_start\<close>, \<open>trim_end\<close> and \<open>trim\<close>.\<close>

definition trim_start :: "rstr \<Rightarrow> rstr" where
  "trim_start s = dropWhile is_whitespace s"

definition trim_end :: "rstr \<Rightarrow> rstr" where
  "trim_end s = rev (dropWhile is_whitespace (rev s))"

definition trim :: "rstr \<Rightarrow> rstr" where
  "trim s = trim_end (trim_start s)"

lemma trim_start_ascii: "s \<noteq> [] \<Longrightarrow> \<not> is_whitespace (hd s) \<Longrightarrow> trim_start s = s"
  by (cases s) (auto simp: trim_start_def)

lemma trim_end_id: "s \<noteq> [] \<Longrightarrow> \<not> is_whitespace (last s) \<Longrightarrow> trim_end s = s"
  by (cases s rule: rev_cases) (auto simp: trim_end_def)

lemma trim_id:
  "s \<noteq> [] \<Longrightarrow> \<not> is_whitespace (hd s) \<Longrightarrow> \<not> is_whitespace (last s) \<Longrightarrow> trim s = s"
  by (simp add: trim_def trim_start_ascii trim_end_id)

text \<open>
  \<open>str::lines\<close>: the pieces between line feeds, each without a trailing carriage return,
  and no final empty piece.
\<close>

definition strip_cr :: "rstr \<Rightarrow> rstr" where
  "strip_cr l = (if l \<noteq> [] \<and> last l = c_cr then butlast l else l)"

definition str_lines :: "rstr \<Rightarrow> rstr list" where
  "str_lines s =
     (let ps = split_on c_nl s in
      map strip_cr (butlast ps) @ (if last ps = [] then [] else [last ps]))"

definition eq_ignore_ascii_case :: "rstr \<Rightarrow> rstr \<Rightarrow> bool" where
  "eq_ignore_ascii_case a b \<longleftrightarrow> map to_ascii_lowercase a = map to_ascii_lowercase b"

lemma sort_key_Nil_iff [simp]: "sort_key f xs = [] \<longleftrightarrow> xs = []"
  by (metis set_empty set_sort)

section \<open>Numbers as text\<close>

text \<open>Decimal digits, as \<open>Display\<close> prints an unsigned and a signed integer.\<close>

fun show_nat :: "nat \<Rightarrow> rstr" where
  "show_nat n = (if n < 10 then [48 + n] else show_nat (n div 10) @ [48 + n mod 10])"

declare show_nat.simps [simp del]

definition show_int :: "int \<Rightarrow> rstr" where
  "show_int i = (if i < 0 then c_minus # show_nat (nat (- i)) else show_nat (nat i))"

text \<open>\<open>format!("{n:0width$}")\<close>: zeros between the sign and the digits.\<close>

definition show_int_padded :: "nat \<Rightarrow> int \<Rightarrow> rstr" where
  "show_int_padded width i =
     (let sign = (if i < 0 then [c_minus] else []); ds = show_nat (nat \<bar>i\<bar>)
      in sign @ replicate (width - length sign - length ds) c_zero @ ds)"

definition digits_value :: "rstr \<Rightarrow> nat" where
  "digits_value ds = foldl (\<lambda>n d. 10 * n + (d - 48)) 0 ds"

text \<open>
  \<open>str::parse::<i64>\<close>: an optional sign and at least one decimal digit, in range.
\<close>

definition i64_in_range :: "int \<Rightarrow> bool" where
  "i64_in_range i \<longleftrightarrow> - (2 ^ 63) \<le> i \<and> i < 2 ^ 63"

definition parse_i64 :: "rstr \<Rightarrow> int option" where
  "parse_i64 s =
     (let neg = (s \<noteq> [] \<and> hd s = c_minus);
          ds = (if s \<noteq> [] \<and> (hd s = c_minus \<or> hd s = c_plus) then tl s else s);
          n = (if neg then - int (digits_value ds) else int (digits_value ds))
      in if ds \<noteq> [] \<and> list_all is_ascii_digit ds \<and> i64_in_range n then Some n else None)"

lemma show_nat_digits: "\<forall>c\<in>set (show_nat n). is_ascii_digit c"
proof (induction n rule: show_nat.induct)
  case (1 n)
  then show ?case
    by (subst show_nat.simps) (auto simp: is_ascii_digit_def)
qed

lemma takeWhile_digits_show_nat [simp]: "takeWhile is_ascii_digit (show_nat n) = show_nat n"
  using show_nat_digits by (simp add: takeWhile_eq_all_conv)

lemma not_digit_show_nat: "\<not> is_ascii_digit c \<Longrightarrow> c \<notin> set (show_nat n)"
  using show_nat_digits by blast

lemma show_nat_not_Nil [simp]: "show_nat n \<noteq> []"
  by (subst show_nat.simps) simp

lemma digits_value_snoc [simp]: "digits_value (ds @ [d]) = 10 * digits_value ds + (d - 48)"
  by (simp add: digits_value_def)

lemma digits_value_show_nat [simp]: "digits_value (show_nat n) = n"
proof (induction n rule: show_nat.induct)
  case (1 n)
  show ?case
  proof (cases "n < 10")
    case True
    then show ?thesis by (subst show_nat.simps) (simp add: digits_value_def)
  next
    case False
    with "1.IH" have "digits_value (show_nat (n div 10)) = n div 10" by simp
    with False show ?thesis by (subst show_nat.simps) simp
  qed
qed

lemma digits_value_zeros [simp]: "digits_value (replicate k 48 @ ds) = digits_value ds"
  by (induction k) (simp_all add: digits_value_def)

lemma parse_show_int: "i64_in_range i \<Longrightarrow> parse_i64 (show_int i) = Some i"
proof -
  assume r: "i64_in_range i"
  let ?n = "nat \<bar>i\<bar>"
  have h: "is_ascii_digit (hd (show_nat ?n))"
    using show_nat_digits [of ?n] by (cases "show_nat ?n") auto
  have all: "list_all is_ascii_digit (show_nat ?n)"
    using show_nat_digits [of ?n] by (simp add: list_all_iff)
  show ?thesis
    using r h all by (auto simp: parse_i64_def show_int_def Let_def is_ascii_digit_def)
qed

section \<open>The \<open>?\<close> operator\<close>

lemma case_sum_InrE:
  assumes "(case r of Inl e \<Rightarrow> Inl e | Inr x \<Rightarrow> f x) = Inr y"
  obtains x where "r = Inr x" "f x = Inr y"
  using assms by (cases r) auto

end
