(* ===== verification/Sql_Literal.thy ===== *)
theory Sql_Literal
  imports Prelude
begin

text \<open>
  \<open>packages/rust/src/sql_literal.rs\<close>: the one encoding a path-table's arguments travel
  through. \<open>quote_literal\<close> and \<open>quote_identifier\<close> write a value into a statement,
  \<open>unquote\<close> reads a virtual-table argument back. The locale \<open>codec\<close> is what the callers
  rely on: decoding an encoded value gives the value back, so lists of arguments survive
  the trip and two values never share a spelling.
\<close>

section \<open>The operations\<close>

definition quote_literal :: "rstr \<Rightarrow> rstr" where
  "quote_literal s = [c_squote] @ replace_char c_squote [c_squote, c_squote] s @ [c_squote]"

definition quote_identifier :: "rstr \<Rightarrow> rstr" where
  "quote_identifier s = [c_dquote] @ replace_char c_dquote [c_dquote, c_dquote] s @ [c_dquote]"

text \<open>\<open>inner.replace("qq", "q")\<close>: left to right, never overlapping.\<close>

fun undouble :: "'a \<Rightarrow> 'a list \<Rightarrow> 'a list" where
  "undouble q (a # b # s) =
     (if a = q \<and> b = q then q # undouble q s else a # undouble q (b # s))"
| "undouble q s = s"

definition unquote_by :: "uchar \<Rightarrow> rstr \<Rightarrow> rstr option" where
  "unquote_by q t =
     (if 2 \<le> byte_len t \<and> t \<noteq> [] \<and> hd t = q \<and> last t = q
      then (let inner = butlast (tl t) in
            Some (if split_once [q, q] inner \<noteq> None then undouble q inner else inner))
      else None)"

definition unquote :: "rstr \<Rightarrow> rstr" where
  "unquote arg =
     (let trimmed = trim arg in
      case unquote_by c_squote trimmed of
        Some s \<Rightarrow> s
      | None \<Rightarrow> (case unquote_by c_dquote trimmed of Some s \<Rightarrow> s | None \<Rightarrow> trimmed))"

section \<open>Lemmas\<close>

lemma undouble_Cons_neq: "a \<noteq> q \<Longrightarrow> undouble q (a # s) = a # undouble q s"
  by (cases s) auto

lemma undouble_double: "undouble q (replace_char q [q, q] s) = s"
  by (induction s) (auto simp: undouble_Cons_neq)

lemma split_once_None_undouble: "split_once [q, q] s = None \<Longrightarrow> undouble q s = s"
  by (induction q s rule: undouble.induct)
     (auto simp: strip_prefix_def split: option.splits if_splits)

lemma unquote_by_quoted: "unquote_by q ([q] @ inner @ [q]) = Some (undouble q inner)"
proof -
  have "2 \<le> byte_len ([q] @ inner @ [q])"
    using utf8_len_pos [of q] by (simp del: utf8_len_pos)
  then show ?thesis
    by (cases "split_once [q, q] inner")
       (simp_all add: unquote_by_def butlast_append split_once_None_undouble)
qed

lemma unquote_by_other: "p \<noteq> q \<Longrightarrow> unquote_by q (p # s) = None"
  by (simp add: unquote_by_def)

lemma trim_quoted: "\<not> is_whitespace q \<Longrightarrow> trim ([q] @ s @ [q]) = [q] @ s @ [q]"
  by (rule trim_id) auto

section \<open>The interface the callers use\<close>

locale codec =
  fixes enc :: "'a \<Rightarrow> rstr" and dec :: "rstr \<Rightarrow> 'a"
  assumes dec_enc: "dec (enc x) = x"
begin

lemma enc_eq_iff: "enc x = enc y \<longleftrightarrow> x = y"
  by (metis dec_enc)

lemma dec_enc_list: "map dec (map enc xs) = xs"
  by (simp add: dec_enc o_def)

lemma enc_list_eq_iff: "map enc xs = map enc ys \<longleftrightarrow> xs = ys"
  by (metis dec_enc_list)

end

lemma unquote_quote_literal: "unquote (quote_literal s) = s"
proof -
  have ws: "\<not> is_whitespace c_squote" by (simp add: char_defs)
  show ?thesis
    by (simp only: unquote_def quote_literal_def trim_quoted [OF ws] unquote_by_quoted
          undouble_double Let_def option.case)
qed

lemma unquote_quote_identifier: "unquote (quote_identifier s) = s"
proof -
  have ws: "\<not> is_whitespace c_dquote" by (simp add: char_defs)
  have "unquote_by c_squote ([c_dquote] @ t) = None" for t
    by (simp add: unquote_by_other)
  then show ?thesis
    by (simp only: unquote_def quote_identifier_def trim_quoted [OF ws] unquote_by_quoted
          undouble_double Let_def option.case)
qed

interpretation literal: codec quote_literal unquote
  by unfold_locales (rule unquote_quote_literal)

interpretation ident: codec quote_identifier unquote
  by unfold_locales (rule unquote_quote_identifier)

end
