(* ===== verification/Table_Refs.thy ===== *)
theory Table_Refs
  imports Sql_Literal
begin

text \<open>
  \<open>packages/rust/src/table_refs.rs\<close>: the quoted names a statement reads as tables. The
  tokenizer runs over the remaining characters; a byte offset is the length of the whole
  statement less what remains, which is what \<open>CharIndices\<close> reports. The loop of
  \<open>table_refs\<close> keeps one flag per nesting depth; its stack is kept innermost first, and
  the \<open>expect\<close> on its last element is the \<open>None\<close> branch of \<open>refs_from\<close>.
\<close>

section \<open>Tokens\<close>

datatype token = Quoted rstr | Word rstr | Open | Close | Comma | Dot | End | Other

type_synonym span = "nat \<times> nat"

record table_ref =
  tr_span :: span
  tr_name :: rstr

definition is_word_char :: "uchar \<Rightarrow> bool" where
  "is_word_char c \<longleftrightarrow>
     is_ascii_alphabetic c \<or> is_ascii_digit c \<or> c = c_under \<or> c = c_dollar \<or> \<not> is_ascii c"

text \<open>\<open>quoted\<close>: the text of a token whose opening quote has been read, and what remains.\<close>

fun quoted :: "uchar \<Rightarrow> rstr \<Rightarrow> rstr \<times> rstr" where
  "quoted q [] = ([], [])"
| "quoted q (c # cs) =
     (if c \<noteq> q then (case quoted q cs of (t, r) \<Rightarrow> (c # t, r))
      else (case cs of
              d # ds \<Rightarrow> if d = q then (case quoted q ds of (t, r) \<Rightarrow> (q # t, r)) else ([], cs)
            | [] \<Rightarrow> ([], [])))"

fun bracketed :: "rstr \<Rightarrow> rstr \<times> rstr" where
  "bracketed [] = ([], [])"
| "bracketed (c # cs) =
     (if c = c_rbracket then ([], cs) else (case bracketed cs of (t, r) \<Rightarrow> (c # t, r)))"

fun block_comment :: "bool \<Rightarrow> rstr \<Rightarrow> rstr" where
  "block_comment star [] = []"
| "block_comment star (c # cs) =
     (if star \<and> c = c_slash then cs else block_comment (c = c_star) cs)"

text \<open>One turn of the tokenizer's loop: \<open>None\<close> is a \<open>continue\<close>.\<close>

definition next_token :: "uchar \<Rightarrow> rstr \<Rightarrow> token option \<times> rstr" where
  "next_token c cs =
     (if is_whitespace c then (None, cs)
      else if c = c_minus \<and> prefix [c_minus] cs then
        (None, dropWhile (\<lambda>d. d \<noteq> c_nl) (tl cs))
      else if c = c_slash \<and> prefix [c_star] cs then (None, block_comment False (tl cs))
      else if c = c_squote \<or> c = c_dquote \<or> c = c_backtick then
        (case quoted c cs of (t, r) \<Rightarrow> (Some (Quoted t), r))
      else if c = c_lbracket then (case bracketed cs of (t, r) \<Rightarrow> (Some (Quoted t), r))
      else if (c = 120 \<or> c = 88) \<and> prefix [c_squote] cs then
        (Some Other, snd (quoted c_squote (tl cs)))
      else if c = c_lparen then (Some Open, cs)
      else if c = c_rparen then (Some Close, cs)
      else if c = c_comma then (Some Comma, cs)
      else if c = c_dot then (Some Dot, cs)
      else if c = c_semi then (Some End, cs)
      else if is_ascii_digit c \<or> c = c_quest \<or> c = c_colon \<or> c = c_at \<or> c = c_dollar then
        (Some Other, dropWhile is_word_char cs)
      else if is_word_char c then
        (Some (Word (c # takeWhile is_word_char cs)), dropWhile is_word_char cs)
      else (Some Other, cs))"

lemma suffix_quoted: "suffix (snd (quoted q cs)) cs"
  by (induction q cs rule: quoted.induct)
     (simp_all add: suffix_Cons case_prod_beta split: list.split)

lemma suffix_bracketed: "suffix (snd (bracketed cs)) cs"
  by (induction cs rule: bracketed.induct) (simp_all add: suffix_Cons case_prod_beta)

lemma suffix_block_comment: "suffix (block_comment star cs) cs"
  by (induction star cs rule: block_comment.induct) (simp_all add: suffix_Cons)

lemma suffix_tl_trans: "suffix r (tl cs) \<Longrightarrow> suffix r cs"
  by (meson suffix_order.trans suffix_tl)

lemma suffix_next_token: "suffix (snd (next_token c cs)) cs"
proof -
  have "suffix (dropWhile P (tl cs)) cs" "suffix (block_comment False (tl cs)) cs"
    "suffix (snd (quoted c_squote (tl cs))) cs" for P
    by (rule suffix_tl_trans, simp add: suffix_dropWhile suffix_block_comment suffix_quoted)+
  then show ?thesis
    by (simp add: next_token_def suffix_dropWhile suffix_quoted suffix_bracketed case_prod_beta)
qed

lemma next_token_shorter: "length (snd (next_token c cs)) < Suc (length cs)"
  using suffix_length_le [OF suffix_next_token [of c cs]] by simp

lemma next_token_rest: "(t, rest) = next_token c cs \<Longrightarrow> length rest < Suc (length cs)"
  using next_token_shorter [of c cs] by (cases "next_token c cs") simp

function tokens_from :: "nat \<Rightarrow> rstr \<Rightarrow> (span \<times> token) list" where
  "tokens_from n [] = []"
| "tokens_from n (c # cs) =
     (case next_token c cs of (t, rest) \<Rightarrow>
        (case t of
           None \<Rightarrow> tokens_from n rest
         | Some tok \<Rightarrow>
             ((n - byte_len (c # cs), n - byte_len rest), tok) # tokens_from n rest))"
  by pat_completeness auto
termination
  by (relation "measure (\<lambda>(n, cs). length cs)") (auto dest: next_token_rest)

definition tokens :: "rstr \<Rightarrow> (span \<times> token) list" where
  "tokens sql = tokens_from (byte_len sql) sql"

section \<open>Table positions\<close>

definition ends_from :: "rstr list" where
  "ends_from = map ascii
     [''WHERE'', ''GROUP'', ''HAVING'', ''ORDER'', ''LIMIT'', ''WINDOW'', ''SELECT'',
      ''VALUES'', ''UNION'', ''EXCEPT'', ''INTERSECT'', ''RETURNING'']"

fun followed_by_dot :: "(span \<times> token) list \<Rightarrow> bool" where
  "followed_by_dot ((_, Dot) # _) = True"
| "followed_by_dot _ = False"

fun refs_from :: "bool list \<Rightarrow> bool \<Rightarrow> (span \<times> token) list \<Rightarrow> table_ref list option" where
  "refs_from in_from expect [] = Some []"
| "refs_from [] expect (t # ts) = None"
| "refs_from (from # outer) expect ((sp, tok) # ts) =
     (case tok of
        Quoted name \<Rightarrow>
          map_option
            (\<lambda>rs. if expect \<or> followed_by_dot ts
                   then \<lparr>tr_span = sp, tr_name = name\<rparr> # rs else rs)
            (refs_from (from # outer) False ts)
      | Word w \<Rightarrow>
          if eq_ignore_ascii_case w (ascii ''FROM'') then refs_from (True # outer) True ts
          else if eq_ignore_ascii_case w (ascii ''JOIN'') then refs_from (from # outer) True ts
          else if list_ex (eq_ignore_ascii_case w) ends_from
               then refs_from (False # outer) False ts
          else refs_from (from # outer) False ts
      | Comma \<Rightarrow> refs_from (from # outer) from ts
      | Open \<Rightarrow> refs_from (False # from # outer) False ts
      | Close \<Rightarrow> refs_from (if outer = [] then from # outer else outer) False ts
      | End \<Rightarrow> refs_from [False] False ts
      | Dot \<Rightarrow> refs_from (from # outer) False ts
      | Other \<Rightarrow> refs_from (from # outer) False ts)"

definition table_refs :: "rstr \<Rightarrow> table_ref list option" where
  "table_refs sql = refs_from [False] False (tokens sql)"

text \<open>\<open>case_alias\<close>: the name a case variant is minted under.\<close>

fun case_alias_body :: "rstr \<Rightarrow> rstr" where
  "case_alias_body [] = []"
| "case_alias_body (c # cs) =
     (if c = c_caret then [c_caret, c_caret] @ case_alias_body cs
      else if is_ascii_uppercase c
           then [c_caret, to_ascii_lowercase c] @ case_alias_body cs
      else c # case_alias_body cs)"

definition case_alias :: "rstr \<Rightarrow> rstr" where
  "case_alias name = 1 # case_alias_body name"

section \<open>Spans\<close>

text \<open>Two spans in order, neither overlapping the next.\<close>

definition before :: "span \<Rightarrow> span \<Rightarrow> bool" where
  "before a b \<longleftrightarrow> snd a \<le> fst b"

definition within :: "nat \<Rightarrow> nat \<Rightarrow> span \<Rightarrow> bool" where
  "within lo hi sp \<longleftrightarrow> lo \<le> fst sp \<and> fst sp < snd sp \<and> snd sp \<le> hi"

lemma byte_len_suffix: "suffix r s \<Longrightarrow> byte_len r \<le> byte_len s"
  by (auto simp: suffix_def)

lemma tokens_from_spans:
  "byte_len cs \<le> n \<Longrightarrow>
     sorted_wrt before (map fst (tokens_from n cs)) \<and>
     (\<forall>t\<in>set (tokens_from n cs). within (n - byte_len cs) n (fst t))"
proof (induction n cs rule: tokens_from.induct)
  case (2 n c cs)
  obtain t rest where nt: "next_token c cs = (t, rest)"
    by (cases "next_token c cs")
  have le: "byte_len rest \<le> byte_len cs"
    using byte_len_suffix [OF suffix_next_token [of c cs]] nt by simp
  have pos: "byte_len rest < byte_len (c # cs)"
    using le utf8_len_pos [of c] by (simp del: utf8_len_pos)
  from le "2.prems" have "byte_len rest \<le> n" by simp
  with "2.IH" [OF nt [symmetric]]
  have IH: "sorted_wrt before (map fst (tokens_from n rest))"
      "\<forall>t\<in>set (tokens_from n rest). within (n - byte_len rest) n (fst t)"
    by (cases t; simp)+
  have wide: "within (n - byte_len (c # cs)) n sp" if "within (n - byte_len rest) n sp" for sp
    using that pos "2.prems" by (auto simp: within_def simp del: byte_len_simps)
  show ?case
  proof (cases t)
    case None
    then show ?thesis using nt IH wide by simp
  next
    case (Some tok)
    have head: "within (n - byte_len (c # cs)) n (n - byte_len (c # cs), n - byte_len rest)"
      using pos "2.prems" by (simp add: within_def del: byte_len_simps)
    have "before (n - byte_len (c # cs), n - byte_len rest) (fst u)"
      if "u \<in> set (tokens_from n rest)" for u
      using IH(2) that by (auto simp: within_def before_def)
    with Some nt IH wide head show ?thesis by (simp del: byte_len_simps)
  qed
qed simp

lemma tokens_spans:
  "sorted_wrt before (map fst (tokens sql))"
  "t \<in> set (tokens sql) \<Longrightarrow> within 0 (byte_len sql) (fst t)"
  using tokens_from_spans [of sql "byte_len sql"] by (auto simp: tokens_def)

definition ref_token :: "table_ref \<Rightarrow> span \<times> token" where
  "ref_token r = (tr_span r, Quoted (tr_name r))"

text \<open>The stack of depths never empties, so the loop never panics; it keeps a subsequence.\<close>

lemma refs_from_subseq:
  "in_from \<noteq> [] \<Longrightarrow>
     \<exists>rs. refs_from in_from expect ts = Some rs \<and> subseq (map ref_token rs) ts"
proof (induction in_from expect ts rule: refs_from.induct)
  case (3 d outer expect sp tok ts)
  show ?case
  proof (cases tok)
    case (Quoted name)
    with "3.IH"(1) obtain rs where rs: "refs_from (d # outer) False ts = Some rs"
      "subseq (map ref_token rs) ts" by auto
    have "subseq (map ref_token (if b then \<lparr>tr_span = sp, tr_name = name\<rparr> # rs else rs))
        ((sp, tok) # ts)" for b
      using rs(2) Quoted by (auto simp: ref_token_def)
    with rs(1) Quoted show ?thesis by (simp split del: if_split)
  next
    case (Word w)
    with "3.IH"(2-5) show ?thesis by (auto intro: list_emb_Cons)
  next
    case Open
    with "3.IH"(6) show ?thesis by (auto intro: list_emb_Cons)
  next
    case Close
    with "3.IH"(7) show ?thesis by (cases "outer = []") (auto intro: list_emb_Cons)
  next
    case Comma
    with "3.IH"(8) show ?thesis by (auto intro: list_emb_Cons)
  next
    case Dot
    with "3.IH"(9) show ?thesis by (auto intro: list_emb_Cons)
  next
    case End
    with "3.IH"(10) show ?thesis by (auto intro: list_emb_Cons)
  next
    case Other
    with "3.IH"(11) show ?thesis by (auto intro: list_emb_Cons)
  qed
qed auto

lemma sorted_wrt_subseq: "subseq xs ys \<Longrightarrow> sorted_wrt P ys \<Longrightarrow> sorted_wrt P xs"
  by (induction rule: list_emb.induct) (auto dest: list_emb_set)

lemma table_refs_Some: "\<exists>rs. table_refs sql = Some rs"
  using refs_from_subseq [of "[False]" False "tokens sql"] by (auto simp: table_refs_def)

lemma table_refs_spans:
  assumes "table_refs sql = Some rs"
  shows "sorted_wrt before (map tr_span rs)"
    and "r \<in> set rs \<Longrightarrow> within 0 (byte_len sql) (tr_span r)"
proof -
  have sub: "subseq (map ref_token rs) (tokens sql)"
    using refs_from_subseq [of "[False]" False "tokens sql"] assms by (auto simp: table_refs_def)
  have "subseq (map fst (map ref_token rs)) (map fst (tokens sql))"
    by (rule subseq_map [OF sub])
  then show "sorted_wrt before (map tr_span rs)"
    using tokens_spans(1) [of sql] sorted_wrt_subseq by (fastforce simp: ref_token_def o_def)
  show "within 0 (byte_len sql) (tr_span r)" if "r \<in> set rs"
  proof -
    from that have "ref_token r \<in> set (map ref_token rs)" by simp
    with sub have "ref_token r \<in> set (tokens sql)" by (blast elim: list_emb_set)
    from tokens_spans(2) [OF this] show ?thesis by (simp add: ref_token_def)
  qed
qed

section \<open>Quoting survives the tokenizer\<close>

lemma quoted_double:
  "\<not> prefix [q] r \<Longrightarrow> quoted q (replace_char q [q, q] s @ q # r) = (s, r)"
  by (induction s) (auto split: list.splits)

section \<open>Aliases\<close>

fun case_unalias :: "rstr \<Rightarrow> rstr" where
  "case_unalias (c # d # cs) =
     (if c = c_caret then to_ascii_uppercase d # case_unalias cs else c # case_unalias (d # cs))"
| "case_unalias cs = cs"

lemma case_unalias_Cons: "c \<noteq> c_caret \<Longrightarrow> case_unalias (c # cs) = c # case_unalias cs"
  by (cases cs) auto

lemma upper_lower: "is_ascii_uppercase c \<Longrightarrow> to_ascii_uppercase (to_ascii_lowercase c) = c"
  by (simp add: char_defs)

lemma case_unalias_alias: "case_unalias (case_alias_body s) = s"
  by (induction s) (auto simp: case_unalias_Cons upper_lower, simp add: char_defs)

lemma case_alias_lower: "map to_ascii_lowercase (case_alias s) = case_alias s"
proof -
  have "map to_ascii_lowercase (case_alias_body s) = case_alias_body s"
    by (induction s) (auto simp: char_defs)
  then show ?thesis by (simp add: case_alias_def char_defs)
qed

lemma case_alias_fold_eq:
  "eq_ignore_ascii_case (case_alias a) (case_alias b) \<longleftrightarrow> a = b"
proof
  assume "eq_ignore_ascii_case (case_alias a) (case_alias b)"
  then have "case_alias_body a = case_alias_body b"
    by (simp add: eq_ignore_ascii_case_def case_alias_lower) (simp add: case_alias_def)
  then show "a = b" by (metis case_unalias_alias)
qed (simp add: eq_ignore_ascii_case_def)

end
