(* ===== verification/Case_Variants.thy ===== *)
theory Case_Variants
  imports Table_Refs
begin

text \<open>
  \<open>Db::disambiguate_case\<close> of \<open>packages/rust/src/db.rs\<close>: SQLite folds the case of
  identifiers, so a path-table spelled in a second letter case is renamed, in the text of
  the statement, to a table of its own. The replacement goes from the last reference to the
  first, each by \<open>String::replace_range\<close> on byte offsets of the original text; the model
  keeps its panic (an offset past the end or inside a character) as \<open>None\<close>.

  Parameters: \<open>is_table\<close> says whether a written name resolves to a path-table
  (\<open>path_table::resolve\<close> against the file system), \<open>create\<close> and \<open>drop_table\<close> are the two
  SQL statements run on the connection, which fail with an error of SQLite or succeed.
\<close>

section \<open>Replacing byte ranges\<close>

fun split_at_byte :: "nat \<Rightarrow> rstr \<Rightarrow> (rstr \<times> rstr) option" where
  "split_at_byte n s =
     (if n = 0 then Some ([], s)
      else (case s of
              [] \<Rightarrow> None
            | c # cs \<Rightarrow>
                if utf8_len c \<le> n
                then map_option (\<lambda>(a, b). (c # a, b)) (split_at_byte (n - utf8_len c) cs)
                else None))"

declare split_at_byte.simps [simp del]

definition replace_range :: "span \<Rightarrow> rstr \<Rightarrow> rstr \<Rightarrow> rstr option" where
  "replace_range sp new s =
     (case split_at_byte (fst sp) s of
        None \<Rightarrow> None
      | Some (a, r) \<Rightarrow>
          (case split_at_byte (snd sp - fst sp) r of
             None \<Rightarrow> None
           | Some (_, b) \<Rightarrow> Some (a @ new @ b)))"

text \<open>The specification: all ranges replaced at once, read left to right.\<close>

fun splice :: "nat \<Rightarrow> (span \<times> rstr) list \<Rightarrow> rstr \<Rightarrow> rstr option" where
  "splice pos [] s = Some s"
| "splice pos (((a, b), new) # reps) s =
     (case split_at_byte (a - pos) s of
        None \<Rightarrow> None
      | Some (pre, r) \<Rightarrow>
          (case split_at_byte (b - a) r of
             None \<Rightarrow> None
           | Some (_, post) \<Rightarrow> map_option (\<lambda>t. pre @ new @ t) (splice b reps post)))"

section \<open>The statement's variants\<close>

definition fold_case :: "rstr \<Rightarrow> rstr" where
  "fold_case s = map to_ascii_lowercase s"

text \<open>
  The loop over the references: \<open>written\<close> maps a folded name to its first spelling, and a
  reference in another spelling is a variant.
\<close>

fun collect_variants ::
  "(rstr \<rightharpoonup> rstr) \<Rightarrow> table_ref list \<Rightarrow> (rstr \<rightharpoonup> rstr) \<times> table_ref list" where
  "collect_variants written [] = (written, [])"
| "collect_variants written (r # rs) =
     (case written (fold_case (tr_name r)) of
        None \<Rightarrow> collect_variants (written(fold_case (tr_name r) \<mapsto> tr_name r)) rs
      | Some w \<Rightarrow>
          if w = tr_name r then collect_variants written rs
          else apsnd (Cons r) (collect_variants written rs))"

definition stale_minted :: "(rstr \<rightharpoonup> rstr) \<Rightarrow> rstr list \<Rightarrow> rstr list" where
  "stale_minted written minted =
     filter (\<lambda>m. case written (fold_case m) of None \<Rightarrow> False | Some n \<Rightarrow> n \<noteq> m) minted"

text \<open>The statement text so far and the tables dropped and created, in order.\<close>

record rename_state =
  rs_sql :: rstr
  rs_dropped :: "rstr list"
  rs_created :: "(rstr \<times> rstr) list"

fun drop_stale ::
  "(rstr \<Rightarrow> 'e option) \<Rightarrow> rstr list \<Rightarrow> rename_state \<Rightarrow> 'e + rename_state" where
  "drop_stale drop_table [] st = Inr st"
| "drop_stale drop_table (m # ms) st =
     (case drop_table m of
        Some e \<Rightarrow> Inl e
      | None \<Rightarrow> drop_stale drop_table ms (st\<lparr>rs_dropped := rs_dropped st @ [m]\<rparr>))"

text \<open>\<open>variants.into_iter().rev()\<close>: the list is passed reversed.\<close>

fun rename_variants ::
  "(rstr \<Rightarrow> bool) \<Rightarrow> (rstr \<Rightarrow> rstr \<Rightarrow> 'e option) \<Rightarrow> table_ref list \<Rightarrow> rename_state \<Rightarrow>
   ('e + rename_state) option" where
  "rename_variants is_table create [] st = Some (Inr st)"
| "rename_variants is_table create (v # vs) st =
     (if \<not> is_table (tr_name v) then rename_variants is_table create vs st
      else (let alias = case_alias (tr_name v) in
        case create alias (tr_name v) of
          Some e \<Rightarrow> Some (Inl e)
        | None \<Rightarrow>
            (case replace_range (tr_span v) (quote_identifier alias) (rs_sql st) of
               None \<Rightarrow> None
             | Some sql' \<Rightarrow>
                 rename_variants is_table create vs
                   (st\<lparr>rs_sql := sql', rs_created := rs_created st @ [(alias, tr_name v)]\<rparr>))))"

definition disambiguate_case ::
  "(rstr \<Rightarrow> bool) \<Rightarrow> (rstr \<Rightarrow> rstr \<Rightarrow> 'e option) \<Rightarrow> (rstr \<Rightarrow> 'e option) \<Rightarrow> bool \<Rightarrow>
   rstr list \<Rightarrow> rstr \<Rightarrow> ('e + rename_state) option" where
  "disambiguate_case is_table create drop_table has_root minted sql =
     (let st = \<lparr>rs_sql = sql, rs_dropped = [], rs_created = []\<rparr> in
      if \<not> has_root then Some (Inr st)
      else case table_refs sql of
        None \<Rightarrow> None
      | Some refs \<Rightarrow>
          if refs = [] then Some (Inr st)
          else (case collect_variants Map.empty refs of (written, variants) \<Rightarrow>
            case drop_stale drop_table (stale_minted written minted) st of
              Inl e \<Rightarrow> Some (Inl e)
            | Inr st' \<Rightarrow> rename_variants is_table create (rev variants) st'))"

section \<open>Byte boundaries\<close>

lemma split_at_byte_append: "split_at_byte (byte_len a) (a @ b) = Some (a, b)"
proof (induction a)
  case Nil
  then show ?case by (subst split_at_byte.simps) simp
next
  case (Cons c a)
  then show ?case
    using utf8_len_pos [of c] by (subst split_at_byte.simps) (simp del: utf8_len_pos)
qed

lemma split_at_byte_SomeD:
  "split_at_byte n s = Some (a, b) \<Longrightarrow> s = a @ b \<and> byte_len a = n"
proof (induction n s arbitrary: a b rule: split_at_byte.induct)
  case (1 n s)
  show ?case
  proof (cases "n = 0")
    case True
    with "1.prems" show ?thesis by (subst (asm) split_at_byte.simps) simp
  next
    case False
    with "1.prems" obtain c cs a' where s: "s = c # cs" "utf8_len c \<le> n" "a = c # a'"
      and rec: "split_at_byte (n - utf8_len c) cs = Some (a', b)"
      by (subst (asm) split_at_byte.simps) (auto split: list.splits if_splits)
    from "1.IH" [OF False s(1,2) rec] s show ?thesis by simp
  qed
qed

definition boundary :: "rstr \<Rightarrow> nat \<Rightarrow> bool" where
  "boundary s n \<longleftrightarrow> (\<exists>a b. s = a @ b \<and> byte_len a = n)"

lemma boundary_split: "boundary s n \<Longrightarrow> \<exists>a b. s = a @ b \<and> byte_len a = n \<and> split_at_byte n s = Some (a, b)"
  by (auto simp: boundary_def split_at_byte_append)

lemma boundary_after:
  assumes "boundary (a @ b) n" "byte_len a \<le> n"
  shows "boundary b (n - byte_len a)"
proof -
  obtain u v where uv: "a @ b = u @ v" "byte_len u = n"
    using assms(1) by (auto simp: boundary_def)
  then consider w where "u = a @ w" "b = w @ v" | w where "a = u @ w" "w @ b = v"
    by (auto simp: append_eq_append_conv2)
  then show ?thesis
  proof cases
    case 1
    with uv(2) show ?thesis by (auto simp: boundary_def)
  next
    case 2
    with uv(2) assms(2) have "byte_len w = 0" by simp
    with 2 uv(2) show ?thesis by (force simp: boundary_def)
  qed
qed

lemma boundary_suffix: "suffix r s \<Longrightarrow> boundary s (byte_len s - byte_len r)"
  by (auto simp: suffix_def boundary_def)

lemma tokens_from_boundary:
  "suffix cs s \<Longrightarrow> t \<in> set (tokens_from (byte_len s) cs) \<Longrightarrow>
     boundary s (fst (fst t)) \<and> boundary s (snd (fst t))"
proof (induction "byte_len s" cs rule: tokens_from.induct)
  case (2 c cs)
  obtain u rest where nt: "next_token c cs = (u, rest)" by (cases "next_token c cs")
  have "suffix rest cs" using suffix_next_token [of c cs] nt by simp
  then have suf: "suffix rest s"
    using "2.prems"(1) by (meson suffix_ConsD suffix_order.trans)
  show ?case
    using "2.prems" "2.hyps" [OF nt [symmetric]] suf nt
      boundary_suffix [OF suf] boundary_suffix [OF "2.prems"(1)]
    by (cases u) (auto simp del: byte_len_simps)
qed simp

section \<open>Replacing from the right is replacing at once\<close>

lemma replace_range_append:
  "replace_range (byte_len a, byte_len a + byte_len m) new (a @ m @ b) = Some (a @ new @ b)"
  by (simp add: replace_range_def split_at_byte_append)

definition reps_ok :: "nat \<Rightarrow> rstr \<Rightarrow> (span \<times> rstr) list \<Rightarrow> bool" where
  "reps_ok lo s reps \<longleftrightarrow>
     sorted_wrt before (map fst reps) \<and>
     (\<forall>r\<in>set reps. lo \<le> fst (fst r) \<and> fst (fst r) \<le> snd (fst r) \<and>
        boundary s (fst (fst r)) \<and> boundary s (snd (fst r)))"

lemma splice_right_to_left:
  "reps_ok (byte_len p) (p @ q) reps \<Longrightarrow>
     \<exists>q'. splice (byte_len p) reps q = Some q' \<and>
       foldr (\<lambda>(sp, new) acc. Option.bind acc (replace_range sp new)) reps (Some (p @ q))
         = Some (p @ q')"
proof (induction reps arbitrary: p q)
  case (Cons r reps)
  obtain a b new where r: "r = ((a, b), new)" by (metis prod.collapse)
  from Cons.prems r have ab: "byte_len p \<le> a" "a \<le> b" "boundary (p @ q) a" "boundary (p @ q) b"
    by (auto simp: reps_ok_def)
  obtain p1 q1 where q: "q = p1 @ q1" "byte_len p1 = a - byte_len p"
    using boundary_after [OF ab(3,1)] by (auto simp: boundary_def)
  have "boundary ((p @ p1) @ q1) b" using ab(4) q(1) by simp
  from boundary_after [OF this] obtain m q2 where q1: "q1 = m @ q2" "byte_len m = b - a"
    using ab q(2) by (auto simp: boundary_def)
  have lens: "byte_len (p @ p1) = a" "byte_len (p @ p1 @ m) = b" using ab q q1 by simp_all
  have "reps_ok (byte_len (p @ p1 @ m)) ((p @ p1 @ m) @ q2) reps"
    using Cons.prems r q(1) q1(1) lens(2) by (auto simp: reps_ok_def before_def)
  from Cons.IH [OF this] obtain q' where q':
    "splice b reps q2 = Some q'"
    "foldr (\<lambda>(sp, new) acc. Option.bind acc (replace_range sp new)) reps (Some (p @ q))
       = Some ((p @ p1) @ m @ q')"
    using lens(2) q(1) q1(1) by auto
  have "replace_range (a, b) new ((p @ p1) @ m @ q') = Some (p @ p1 @ new @ q')"
  proof -
    have "b = byte_len (p @ p1) + byte_len m" using lens(2) by simp
    with lens(1) show ?thesis
      using replace_range_append [of "p @ p1" m new q'] by (simp only: append.assoc)
  qed
  moreover have "splice (byte_len p) (r # reps) q = Some (p1 @ new @ q')"
    using q'(1) r q q1 split_at_byte_append [of p1 q1] split_at_byte_append [of m q2] by simp
  ultimately show ?case using q'(2) r by simp
qed simp

section \<open>The renaming loop\<close>

definition renames :: "(rstr \<Rightarrow> bool) \<Rightarrow> table_ref list \<Rightarrow> (span \<times> rstr) list" where
  "renames is_table vs =
     map (\<lambda>v. (tr_span v, quote_identifier (case_alias (tr_name v))))
       (filter (\<lambda>v. is_table (tr_name v)) vs)"

lemma rename_variants_foldl:
  "rename_variants is_table create vs st = Some (Inr st') \<Longrightarrow>
     foldl (\<lambda>acc (sp, new). Option.bind acc (replace_range sp new)) (Some (rs_sql st))
       (renames is_table vs) = Some (rs_sql st') \<and>
     rs_created st' = rs_created st @
       map (\<lambda>v. (case_alias (tr_name v), tr_name v)) (filter (\<lambda>v. is_table (tr_name v)) vs)"
proof (induction vs arbitrary: st)
  case (Cons v vs)
  show ?case
  proof (cases "is_table (tr_name v)")
    case False
    with Cons show ?thesis by (simp add: renames_def)
  next
    case True
    with Cons.prems obtain sql' where sql':
      "replace_range (tr_span v) (quote_identifier (case_alias (tr_name v))) (rs_sql st)
         = Some sql'"
      "rename_variants is_table create vs
         (st\<lparr>rs_sql := sql',
            rs_created := rs_created st @ [(case_alias (tr_name v), tr_name v)]\<rparr>)
         = Some (Inr st')"
      by (auto simp: Let_def split: option.splits)
    from Cons.IH [OF sql'(2)] sql'(1) True show ?thesis by (simp add: renames_def)
  qed
qed (simp add: renames_def)

lemma foldl_bind_None: "foldl (\<lambda>acc (sp, new). Option.bind acc (f sp new)) None xs = None"
  by (induction xs) auto

lemma rename_variants_no_panic:
  "foldl (\<lambda>acc (sp, new). Option.bind acc (replace_range sp new)) (Some (rs_sql st))
     (renames is_table vs) \<noteq> None \<Longrightarrow>
   rename_variants is_table create vs st \<noteq> None"
proof (induction vs arbitrary: st)
  case (Cons v vs)
  then show ?case
    by (auto simp: renames_def Let_def foldl_bind_None split: option.splits bind_splits)
qed simp

lemma renames_rev: "renames is_table (rev vs) = rev (renames is_table vs)"
  by (simp add: renames_def rev_filter rev_map)

section \<open>Variants and the names they end up with\<close>

lemma collect_variants_subseq: "subseq (snd (collect_variants w rs)) rs"
proof (induction w rs rule: collect_variants.induct)
  case (2 w r rs)
  then show ?case
    by (cases "w (fold_case (tr_name r))") (auto intro: list_emb_Cons simp del: fun_upd_apply)
qed simp

lemma collect_variants_written:
  "w k = Some n \<Longrightarrow> fst (collect_variants w rs) k = Some n"
proof (induction w rs rule: collect_variants.induct)
  case (2 w r rs)
  show ?case
  proof (cases "w (fold_case (tr_name r))")
    case None
    with "2.prems" have "(w(fold_case (tr_name r) \<mapsto> tr_name r)) k = Some n" by auto
    with "2.IH"(1) [OF None] None show ?thesis by (simp del: fun_upd_apply)
  next
    case (Some m)
    with "2.prems" "2.IH"(2,3) show ?thesis by auto
  qed
qed simp

text \<open>Every reference's folded name is written; the reference is a variant unless it is
  spelled as written.\<close>

lemma collect_variants_covers:
  "\<forall>r\<in>set rs. \<exists>n. fst (collect_variants w rs) (fold_case (tr_name r)) = Some n \<and>
     (tr_name r \<noteq> n \<longrightarrow> r \<in> set (snd (collect_variants w rs)))"
proof (induction w rs rule: collect_variants.induct)
  case (2 w r rs)
  let ?k = "fold_case (tr_name r)"
  show ?case
  proof (cases "w ?k")
    case None
    have "fst (collect_variants (w(?k \<mapsto> tr_name r)) rs) ?k = Some (tr_name r)"
      by (rule collect_variants_written) simp
    with "2.IH"(1) [OF None] None show ?thesis by (simp del: fun_upd_apply)
  next
    case (Some n)
    have "fst (collect_variants w rs) ?k = Some n"
      by (rule collect_variants_written) (rule Some)
    with "2.IH"(2,3) Some show ?thesis by (cases "n = tr_name r") fastforce+
  qed
qed simp

lemma collect_variants_other_spelling:
  "\<forall>v\<in>set (snd (collect_variants w rs)).
     fst (collect_variants w rs) (fold_case (tr_name v)) \<noteq> Some (tr_name v)"
proof (induction w rs rule: collect_variants.induct)
  case (2 w r rs)
  show ?case
  proof (cases "w (fold_case (tr_name r))")
    case None
    with "2.IH"(1) [OF None] show ?thesis by (simp del: fun_upd_apply)
  next
    case (Some n)
    have "fst (collect_variants w rs) (fold_case (tr_name r)) = Some n"
      by (rule collect_variants_written) (rule Some)
    with "2.IH"(2,3) Some show ?thesis by (cases "n = tr_name r") auto
  qed
qed simp

section \<open>Properties\<close>

text \<open>The name a reference reads once the statement has been rewritten.\<close>

definition final_name :: "(rstr \<Rightarrow> bool) \<Rightarrow> table_ref list \<Rightarrow> table_ref \<Rightarrow> rstr" where
  "final_name is_table variants r =
     (if r \<in> set variants \<and> is_table (tr_name r) then case_alias (tr_name r) else tr_name r)"

lemma reps_ok_renames:
  assumes "table_refs sql = Some refs" "subseq vs refs"
  shows "reps_ok 0 sql (renames is_table vs)"
proof -
  let ?vs = "filter (\<lambda>v. is_table (tr_name v)) vs"
  have "subseq ?vs refs"
    using assms(2) subseq_filter_left subseq_order.trans by blast
  then have "sorted_wrt before (map tr_span ?vs)" "set ?vs \<subseteq> set refs"
    using table_refs_spans(1) [OF assms(1)] sorted_wrt_subseq subseq_map
    by (blast, blast elim: list_emb_set)
  moreover have "boundary sql (fst (tr_span r)) \<and> boundary sql (snd (tr_span r)) \<and>
      fst (tr_span r) \<le> snd (tr_span r)" if "r \<in> set refs" for r
  proof -
    have "subseq (map ref_token refs) (tokens sql)"
      using refs_from_subseq [of "[False]" False "tokens sql"] assms(1)
      by (auto simp: table_refs_def)
    moreover have "ref_token r \<in> set (map ref_token refs)" using that by simp
    ultimately have "ref_token r \<in> set (tokens_from (byte_len sql) sql)"
      unfolding tokens_def by (blast elim: list_emb_set)
    from tokens_from_boundary [OF suffix_order.refl this] show ?thesis
      using table_refs_spans(2) [OF assms(1) that] by (simp add: ref_token_def within_def)
  qed
  ultimately show ?thesis
    by (auto simp: reps_ok_def renames_def o_def)
qed

text \<open>C14: renaming the case variants of a statement never panics on a byte offset, and
  the text it returns is the original with the span of every variant that resolves to a
  path-table replaced by its quoted alias, all at once.\<close>

theorem disambiguate_case_splices:
  "\<exists>refs out. table_refs sql = Some refs \<and>
     disambiguate_case is_table create drop_table True minted sql = Some out \<and>
     (case out of
        Inl e \<Rightarrow> True
      | Inr st \<Rightarrow>
          splice 0 (renames is_table (snd (collect_variants Map.empty refs))) sql
            = Some (rs_sql st))"
proof -
  obtain refs where refs: "table_refs sql = Some refs" using table_refs_Some by blast
  obtain written vs where cv: "collect_variants Map.empty refs = (written, vs)"
    by (cases "collect_variants Map.empty refs")
  let ?reps = "renames is_table vs"
  have "subseq vs refs" using collect_variants_subseq [of Map.empty refs] cv by simp
  then have "reps_ok (byte_len []) ([] @ sql) ?reps"
    using reps_ok_renames [OF refs, of vs is_table] by simp
  from splice_right_to_left [OF this]
  obtain sql' where sql': "splice 0 ?reps sql = Some sql'"
    "foldl (\<lambda>acc (sp, new). Option.bind acc (replace_range sp new)) (Some sql)
       (renames is_table (rev vs)) = Some sql'"
    by (auto simp: renames_rev foldl_conv_foldr split_def)
  show ?thesis
  proof (cases "refs = []")
    case True
    then show ?thesis using refs by (simp add: disambiguate_case_def Let_def renames_def)
  next
    case False
    have keep: "rs_sql st' = sql" if "drop_stale drop_table ms st = Inr st'" "rs_sql st = sql"
      for ms st st'
      using that by (induction drop_table ms st rule: drop_stale.induct)
        (auto split: option.splits)
    show ?thesis
    proof (cases "drop_stale drop_table (stale_minted written minted)
        \<lparr>rs_sql = sql, rs_dropped = [], rs_created = []\<rparr>")
      case (Inl e)
      with False refs cv show ?thesis by (simp add: disambiguate_case_def Let_def)
    next
      case (Inr st)
      with keep have st: "rs_sql st = sql" by fastforce
      with sql'(2) have "rename_variants is_table create (rev vs) st \<noteq> None"
        by (intro rename_variants_no_panic) simp
      moreover have "rs_sql st' = sql'"
        if "rename_variants is_table create (rev vs) st = Some (Inr st')" for st'
        using rename_variants_foldl [OF that] st sql'(2) by simp
      ultimately show ?thesis
        using False refs cv Inr sql'(1)
        by (auto simp: disambiguate_case_def Let_def split: sum.splits)
    qed
  qed
qed

text \<open>After renaming, two references to path-tables are one SQLite table exactly when
  they spell the same path, for names no user can start with the alias's control
  character.\<close>

theorem disambiguate_case_keeps_apart:
  assumes "collect_variants Map.empty refs = (written, variants)"
    and "r1 \<in> set refs" "r2 \<in> set refs"
    and "is_table (tr_name r1)" "is_table (tr_name r2)"
    and "\<not> prefix [1] (tr_name r1)" "\<not> prefix [1] (tr_name r2)"
  shows "fold_case (final_name is_table variants r1) = fold_case (final_name is_table variants r2)
    \<longleftrightarrow> tr_name r1 = tr_name r2"
proof -
  have status: "r \<in> set variants \<longleftrightarrow> written (fold_case (tr_name r)) \<noteq> Some (tr_name r)"
    if "r \<in> set refs" for r
    using collect_variants_covers [of refs Map.empty]
      collect_variants_other_spelling [of Map.empty refs] assms(1) that by fastforce
  have known: "\<exists>n. written (fold_case (tr_name r)) = Some n" if "r \<in> set refs" for r
    using collect_variants_covers [of refs Map.empty] assms(1) that by fastforce
  have alias_fold: "fold_case (case_alias n) = case_alias n" for n
    by (simp add: fold_case_def case_alias_lower)
  have ctl: "fold_case n \<noteq> case_alias m" if "\<not> prefix [1] n" for n m
    using that by (cases n) (auto simp: fold_case_def case_alias_def char_defs split: if_splits)
  have inj: "case_alias a = case_alias b \<longleftrightarrow> a = b" for a b
    by (metis case_alias_fold_eq)
  show ?thesis
    using status [OF assms(2)] status [OF assms(3)] known [OF assms(2)] known [OF assms(3)]
      assms(4-7) ctl [OF assms(6)] ctl [OF assms(7)]
    by (auto simp: final_name_def alias_fold inj dest: sym)
qed

end
