(* ===== verification/Brace.thy ===== *)
theory Brace
  imports Prelude
begin

text \<open>
  \<open>packages/rust/src/brace.rs\<close> and \<open>glob_unescape.rs\<close>: bash's brace expansion of a glob
  and the escaping that keeps the remaining braces literal for globset. Indices are those of
  the code's \<open>Vec<char>\<close>. The range arithmetic of \<open>steps\<close> is done by the code in \<open>i128\<close>,
  which holds every intermediate value of two \<open>i64\<close> ends and an \<open>i64\<close> step, so \<open>int\<close>
  models it exactly.
\<close>

section \<open>glob\_unescape.rs\<close>

fun unescape_from :: "bool \<Rightarrow> rstr \<Rightarrow> rstr" where
  "unescape_from escaped [] = (if escaped then [c_backslash] else [])"
| "unescape_from escaped (c # cs) =
     (if escaped \<or> c \<noteq> c_backslash then c # unescape_from False cs else unescape_from True cs)"

definition unescape :: "rstr \<Rightarrow> rstr" where
  "unescape tx = unescape_from False tx"

section \<open>Scanning for groups\<close>

fun unescaped_from :: "nat \<Rightarrow> bool \<Rightarrow> rstr \<Rightarrow> (nat \<times> uchar) list" where
  "unescaped_from i escaped [] = []"
| "unescaped_from i escaped (c # cs) =
     (if \<not> escaped \<and> c \<noteq> c_backslash
      then (i, c) # unescaped_from (Suc i) False cs
      else unescaped_from (Suc i) (\<not> escaped \<and> c = c_backslash) cs)"

definition unescaped :: "rstr \<Rightarrow> nat \<Rightarrow> (nat \<times> uchar) list" where
  "unescaped tx start = unescaped_from start False (drop start tx)"

datatype stop = Stop_Close | Stop_Comma

definition stop_char :: "stop \<Rightarrow> uchar" where
  "stop_char s = (case s of Stop_Close \<Rightarrow> c_rbrace | Stop_Comma \<Rightarrow> c_comma)"

definition opens_range :: "rstr \<Rightarrow> nat \<Rightarrow> bool" where
  "opens_range tx i \<longleftrightarrow>
     prefix [c_dot, c_dot] (drop i tx) \<and> get tx (i + 2) \<noteq> Some c_rbrace"

fun gobble_loop :: "rstr \<Rightarrow> uchar \<Rightarrow> nat \<Rightarrow> bool \<Rightarrow> (nat \<times> uchar) list \<Rightarrow> nat" where
  "gobble_loop tx target level closable [] = length tx"
| "gobble_loop tx target level closable ((i, c) # rest) =
     (if c = target \<and> level = 0 \<and> closable then i
      else if c = c_lbrace then gobble_loop tx target (level + 1) closable rest
      else if c = c_rbrace \<and> 0 < level then gobble_loop tx target (level - 1) closable rest
      else if level = 0 \<and> (c = c_comma \<or> opens_range tx i)
        then gobble_loop tx target level True rest
      else gobble_loop tx target level closable rest)"

definition gobble :: "rstr \<Rightarrow> nat \<Rightarrow> stop \<Rightarrow> nat" where
  "gobble tx start s =
     gobble_loop tx (stop_char s) 0 (s \<noteq> Stop_Close) (unescaped tx start)"

definition is_shell_brace :: "rstr \<Rightarrow> nat \<Rightarrow> bool" where
  "is_shell_brace tx i \<longleftrightarrow>
     (i = 0 \<or> is_ascii_whitespace (tx ! (i - 1))) \<and>
     (case get tx (i + 1) of
        None \<Rightarrow> False
      | Some c \<Rightarrow> is_ascii_whitespace c \<or> c = c_rbrace)"

text \<open>The first group of a word: its opening brace and the close \<open>gobble\<close> finds for it.\<close>

fun first_group :: "rstr \<Rightarrow> (nat \<times> uchar) list \<Rightarrow> (nat \<times> nat) option" where
  "first_group tx [] = None"
| "first_group tx ((i, c) # rest) =
     (if c = c_lbrace \<and> \<not> is_shell_brace tx i \<and> gobble tx (i + 1) Stop_Close < length tx
      then Some (i, gobble tx (i + 1) Stop_Close)
      else first_group tx rest)"

definition find_group :: "rstr \<Rightarrow> (nat \<times> nat) option" where
  "find_group tx = first_group tx (unescaped tx 0)"

section \<open>Ranges\<close>

datatype range_term = Term_Int int | Term_Char uchar

definition number_prefix_len :: "rstr \<Rightarrow> nat" where
  "number_prefix_len s =
     (let sign = (if s \<noteq> [] \<and> (hd s = c_plus \<or> hd s = c_minus) then 1 else 0)
      in sign + length (takeWhile is_ascii_digit (drop sign s)))"

definition padded :: "rstr \<Rightarrow> bool" where
  "padded s \<longleftrightarrow> (1 < length s \<and> prefix [c_zero] s) \<or> (2 < length s \<and> prefix [c_minus, c_zero] s)"

definition pad_width :: "rstr \<Rightarrow> rstr \<Rightarrow> nat" where
  "pad_width lhs rhs = (if padded lhs \<or> padded rhs then max (length lhs) (length rhs) else 0)"

text \<open>\<open>i32::MAX - 3\<close>\<close>

definition max_steps :: int where
  "max_steps = 2147483647 - 3"

definition steps :: "int \<Rightarrow> int \<Rightarrow> int \<Rightarrow> int list option" where
  "steps lo hi step =
     (let stride = max \<bar>step\<bar> 1; distance = hi - lo in
      if max_steps < \<bar>distance\<bar> div stride then None
      else (let count = \<bar>distance\<bar> div stride + 1; signed = stride * sgn distance
            in Some (map (\<lambda>k. lo + int k * signed) [0..<nat count])))"

definition range_end :: "rstr \<Rightarrow> (range_term \<times> nat) option" where
  "range_end rhs =
     (let digits = number_prefix_len rhs in
      case parse_i64 (take digits rhs) of
        Some n \<Rightarrow> Some (Term_Int n, digits)
      | None \<Rightarrow>
          (case rhs of
             [] \<Rightarrow> None
           | c # tail \<Rightarrow>
               if \<not> is_ascii_alphabetic c \<or> \<not> (tail = [] \<or> hd tail = c_dot) then None
               else Some (Term_Char c, 1)))"

definition range_step :: "rstr \<Rightarrow> int option" where
  "range_step tail =
     (if tail = [] then Some 1
      else case strip_prefix [c_dot, c_dot] tail of
             None \<Rightarrow> None
           | Some s \<Rightarrow> if s = [] then None else parse_i64 s)"

definition range_start :: "rstr \<Rightarrow> range_term option" where
  "range_start lhs =
     (case parse_i64 lhs of
        Some n \<Rightarrow> Some (Term_Int n)
      | None \<Rightarrow>
          if length lhs = 1 \<and> is_ascii_alphabetic (hd lhs) then Some (Term_Char (hd lhs)) else None)"

definition range_terms :: "rstr \<Rightarrow> rstr \<Rightarrow> range_term \<Rightarrow> range_term \<Rightarrow> int \<Rightarrow> rstr list option" where
  "range_terms lhs rhs_text start end_term step =
     (case (start, end_term) of
        (Term_Int lo, Term_Int hi) \<Rightarrow>
          map_option (map (show_int_padded (pad_width lhs rhs_text))) (steps lo hi step)
      | (Term_Char lo, Term_Char hi) \<Rightarrow>
          map_option (\<lambda>ns. map (\<lambda>n. [nat n]) (filter (\<lambda>n. 0 \<le> n \<and> n < 256) ns))
            (steps (int lo) (int hi) step)
      | _ \<Rightarrow> None)"

definition sequence :: "rstr \<Rightarrow> rstr list option" where
  "sequence amble =
     (case split_once [c_dot, c_dot] amble of
        None \<Rightarrow> None
      | Some (lhs, rhs) \<Rightarrow>
          if lhs = [] \<or> rhs = [] then None
          else (case range_end rhs of
            None \<Rightarrow> None
          | Some (end_term, rhs_len) \<Rightarrow>
              (case range_step (drop rhs_len rhs) of
                 None \<Rightarrow> None
               | Some step \<Rightarrow>
                   (case range_start lhs of
                      None \<Rightarrow> None
                    | Some start \<Rightarrow> range_terms lhs (take rhs_len rhs) start end_term step))))"

section \<open>Expansion\<close>

lemma unescaped_from_index: "(i, c) \<in> set (unescaped_from n e cs) \<Longrightarrow> n \<le> i \<and> i < n + length cs"
  by (induction n e cs rule: unescaped_from.induct) (fastforce split: if_splits)+

lemma unescaped_index: "(i, c) \<in> set (unescaped tx n) \<Longrightarrow> n \<le> i \<and> i < length tx"
  using unescaped_from_index [of i c n False "drop n tx"] by (auto simp: unescaped_def)

lemma gobble_loop_cases:
  "gobble_loop tx target level closable cs = length tx \<or>
     (gobble_loop tx target level closable cs, target) \<in> set cs"
  by (induction tx target level closable cs rule: gobble_loop.induct) auto

lemma gobble_bounds: "gobble tx n s < length tx \<Longrightarrow> n \<le> gobble tx n s"
  using gobble_loop_cases [of tx "stop_char s" 0 "s \<noteq> Stop_Close" "unescaped tx n"]
  by (auto simp: gobble_def dest: unescaped_index)

lemma gobble_le: "gobble tx n s \<le> length tx"
  using gobble_loop_cases [of tx "stop_char s" 0 "s \<noteq> Stop_Close" "unescaped tx n"]
  by (auto simp: gobble_def dest: unescaped_index)

lemma first_group_bounds:
  "first_group tx us = Some (i, j) \<Longrightarrow> i < j \<and> j < length tx"
  by (induction tx us rule: first_group.induct)
     (auto split: if_splits dest!: gobble_bounds)

lemma find_group_bounds: "find_group tx = Some (i, j) \<Longrightarrow> i < j \<and> j < length tx"
  by (auto simp: find_group_def dest: first_group_bounds)

function expand_word :: "rstr \<Rightarrow> rstr list"
  and expand_alternatives :: "rstr \<Rightarrow> rstr list" where
  "expand_word tx =
     (case find_group tx of
        None \<Rightarrow> [tx]
      | Some (open_at, close_at) \<Rightarrow>
          (let preamble = take open_at tx;
               amble = drop (open_at + 1) (take close_at tx);
               middle =
                 (if \<exists>u\<in>set (unescaped amble 0). snd u = c_comma then expand_alternatives amble
                  else (case sequence amble of
                          Some words \<Rightarrow> words
                        | None \<Rightarrow> [[c_lbrace] @ amble @ [c_rbrace]]));
               rest = expand_word (drop (close_at + 1) tx)
           in concat (map (\<lambda>m. map (\<lambda>r. preamble @ m @ r) rest) middle)))"
| "expand_alternatives amble =
     (let stop_at = gobble amble 0 Stop_Comma in
      expand_word (take stop_at amble) @
      (if stop_at < length amble then expand_alternatives (drop (stop_at + 1) amble) else []))"
  by pat_completeness auto
termination
  by (relation "measures [\<lambda>x. case x of Inl t \<Rightarrow> length t | Inr t \<Rightarrow> length t,
        \<lambda>x. case x of Inl t \<Rightarrow> 0 | Inr t \<Rightarrow> 1]")
     (auto dest: find_group_bounds simp: gobble_le le_neq_implies_less)

declare expand_word.simps [simp del] expand_alternatives.simps [simp del]

section \<open>Escaping the literal braces\<close>

text \<open>\<open>class_end\<close>, relative to the opening bracket that heads the list.\<close>

definition class_start :: "rstr \<Rightarrow> nat" where
  "class_start chars =
     (let i = (if get chars 1 = Some c_bang \<or> get chars 1 = Some c_caret then 2 else 1)
      in if get chars i = Some c_rbracket then i + 1 else i)"

definition class_end :: "rstr \<Rightarrow> nat option" where
  "class_end chars =
     map_option (\<lambda>k. class_start chars + k)
       (position (\<lambda>c. c = c_rbracket) (drop (class_start chars) chars))"

definition closed_class :: "rstr \<Rightarrow> nat option" where
  "closed_class chars =
     (case class_end chars of
        None \<Rightarrow> None
      | Some n \<Rightarrow> if c_slash \<in> set (take n chars) then None else Some n)"

function escape_braces :: "rstr \<Rightarrow> rstr" where
  "escape_braces [] = []"
| "escape_braces (c # cs) =
     (if c = c_backslash \<and> cs \<noteq> [] then
        (if hd cs = c_lbrace then ascii ''[{]''
         else if hd cs = c_rbrace then ascii ''[}]''
         else if hd cs = c_comma then [c_comma]
         else [c_backslash, hd cs]) @ escape_braces (tl cs)
      else if c = c_lbracket then
        (case closed_class (c # cs) of
           Some n \<Rightarrow> take (n + 1) (c # cs) @ escape_braces (drop n cs)
         | None \<Rightarrow> ascii ''[[]'' @ escape_braces cs)
      else if c = c_lbrace then ascii ''[{]'' @ escape_braces cs
      else if c = c_rbrace then ascii ''[}]'' @ escape_braces cs
      else c # escape_braces cs)"
  by pat_completeness auto
termination
  by (relation "measure length") (auto simp: less_Suc_eq_le)

definition expand :: "rstr \<Rightarrow> rstr list" where
  "expand pattern = map escape_braces (expand_word pattern)"

section \<open>What globset is handed\<close>

text \<open>
  How globset reads a word: a backslash quotes the next character, an open bracket starts a
  class that must close (and here must not span a separator), and a brace anywhere else
  would open or close an alternation.
\<close>

function globset_plain :: "rstr \<Rightarrow> bool" where
  "globset_plain [] = True"
| "globset_plain (c # cs) =
     (if c = c_backslash \<and> cs \<noteq> [] then globset_plain (tl cs)
      else if c = c_lbracket then
        (case closed_class (c # cs) of Some n \<Rightarrow> globset_plain (drop n cs) | None \<Rightarrow> False)
      else c \<noteq> c_lbrace \<and> c \<noteq> c_rbrace \<and> globset_plain cs)"
  by pat_completeness auto
termination
  by (relation "measure length") (auto simp: less_Suc_eq_le)

lemma get_take_append: "i < n \<Longrightarrow> n \<le> length xs \<Longrightarrow> get (take n xs @ s) i = get xs i"
  by (auto simp: get_def nth_append)

lemma position_take_append: "position P xs = Some i \<Longrightarrow> position P (take (Suc i) xs @ s) = Some i"
  by (induction xs arbitrary: i) (auto split: if_splits)

lemma class_end_bounds: "class_end xs = Some n \<Longrightarrow> class_start xs \<le> n \<and> n < length xs"
  by (auto simp: class_end_def dest!: position_SomeD)

lemma class_end_copied:
  assumes "class_end xs = Some n"
  shows "class_end (take (Suc n) xs @ s) = Some n"
proof -
  let ?k = "class_start xs" and ?ys = "take (Suc n) xs @ s"
  note b = class_end_bounds [OF assms]
  have get: "get ?ys i = get xs i" if "i \<le> n" for i
    using get_take_append [of i "Suc n" xs s] that b by simp
  have "1 \<le> ?k" by (simp add: class_start_def Let_def)
  then have one: "get ?ys 1 = get xs 1" using b by (intro get) simp
  have k: "class_start ?ys = ?k"
  proof -
    let ?i = "if get xs 1 = Some c_bang \<or> get xs 1 = Some c_caret then 2 else 1"
    have "?i \<le> ?k" by (simp add: class_start_def Let_def)
    then have "get ?ys ?i = get xs ?i" using b by (intro get) simp
    then show ?thesis using one by (simp add: class_start_def Let_def)
  qed
  obtain j where j: "position (\<lambda>c. c = c_rbracket) (drop ?k xs) = Some j" "n = ?k + j"
    using assms by (auto simp: class_end_def)
  have "drop ?k ?ys = take (Suc j) (drop ?k xs) @ s"
    using b j(2) by (simp add: drop_take)
  with position_take_append [OF j(1)] k j(2) show ?thesis by (simp add: class_end_def)
qed

lemma closed_class_copied:
  "closed_class xs = Some n \<Longrightarrow> closed_class (take (Suc n) xs @ s) = Some n"
  using class_end_copied [of xs n s] class_end_bounds [of xs n]
  by (auto simp: closed_class_def split: option.splits if_splits)

lemma closed_class_single:
  "c \<noteq> c_bang \<Longrightarrow> c \<noteq> c_caret \<Longrightarrow> c \<noteq> c_rbracket \<Longrightarrow> c \<noteq> c_slash \<Longrightarrow>
     closed_class (c_lbracket # c # c_rbracket # s) = Some 2"
  by (simp add: closed_class_def class_end_def class_start_def Let_def numeral_2_eq_2)

lemma closed_class_pos: "closed_class (c # cs) = Some n \<Longrightarrow> 0 < n \<and> n \<le> length cs"
  using class_end_bounds [of "c # cs" n]
  by (auto simp: closed_class_def class_start_def Let_def split: option.splits if_splits)

lemma globset_plain_escape: "globset_plain (escape_braces w)"
proof (induction w rule: escape_braces.induct)
  case (2 c cs)
  consider (quote) "c = c_backslash" "cs \<noteq> []" | (bracket) "c = c_lbracket"
    | (other) "\<not> (c = c_backslash \<and> cs \<noteq> [])" "c \<noteq> c_lbracket" by blast
  then show ?case
  proof cases
    case quote
    with "2.IH"(1-4) show ?thesis by (simp add: closed_class_single)
  next
    case bracket
    show ?thesis
    proof (cases "closed_class (c # cs)")
      case None
      with bracket "2.IH" show ?thesis by (simp add: closed_class_single)
    next
      case (Some n)
      have n: "0 < n" "n \<le> length cs" using closed_class_pos [OF Some] by auto
      have "closed_class (c # take n cs @ escape_braces (drop n cs)) = Some n"
        using closed_class_copied [OF Some, of "escape_braces (drop n cs)"] by simp
      moreover have "globset_plain (escape_braces (drop n cs))"
        using "2.IH" bracket Some by simp
      ultimately show ?thesis using bracket Some n by simp
    qed
  next
    case other
    then show ?thesis
      using "2.IH" by (cases cs) (auto simp: closed_class_single)
  qed
qed simp

section \<open>Every pattern expands to at least one word\<close>

lemma steps_Cons: "steps lo hi step = Some ns \<Longrightarrow> \<exists>ms. ns = lo # ms"
proof -
  assume a: "steps lo hi step = Some ns"
  let ?n = "nat (\<bar>hi - lo\<bar> div max \<bar>step\<bar> 1 + 1)"
  have "0 \<le> \<bar>hi - lo\<bar> div max \<bar>step\<bar> 1" by (intro div_int_pos_iff [THEN iffD2]) auto
  then have "0 < ?n" by linarith
  then have "[0..<?n] = 0 # [1..<?n]" by (simp add: upt_conv_Cons)
  with a show ?thesis by (auto simp: steps_def Let_def split: if_splits)
qed

lemma range_start_char: "range_start lhs = Some (Term_Char c) \<Longrightarrow> is_ascii_alphabetic c"
  by (auto simp: range_start_def split: option.splits if_splits)

lemma sequence_nonempty: "sequence amble = Some words \<Longrightarrow> words \<noteq> []"
  by (auto simp: sequence_def range_terms_def char_defs
      split: option.splits if_splits prod.splits range_term.splits
      dest!: steps_Cons range_start_char)

text \<open>The words a group contributes, and the unfolding of a word with a group.\<close>

definition group_words :: "rstr \<Rightarrow> rstr list" where
  "group_words amble =
     (if \<exists>u\<in>set (unescaped amble 0). snd u = c_comma then expand_alternatives amble
      else (case sequence amble of
              Some words \<Rightarrow> words | None \<Rightarrow> [[c_lbrace] @ amble @ [c_rbrace]]))"

lemma expand_word_no_group: "find_group w = None \<Longrightarrow> expand_word w = [w]"
  by (simp add: expand_word.simps)

lemma expand_word_group:
  "find_group w = Some (i, j) \<Longrightarrow>
     expand_word w =
       concat (map (\<lambda>m. map (\<lambda>r. take i w @ m @ r) (expand_word (drop (j + 1) w)))
         (group_words (drop (i + 1) (take j w))))"
  unfolding group_words_def by (subst expand_word.simps) (simp only: option.case prod.case Let_def)

lemma product_nonempty:
  "ms \<noteq> [] \<Longrightarrow> rs \<noteq> [] \<Longrightarrow> concat (map (\<lambda>m. map (f m) rs) ms) \<noteq> []"
  by (cases ms) auto

lemma expand_nonempty:
  "expand_word w \<noteq> []" "expand_alternatives a \<noteq> []"
proof (induction w and a rule: expand_word_expand_alternatives.induct)
  case (1 w)
  show ?case
  proof (cases "find_group w")
    case None
    then show ?thesis by (simp add: expand_word.simps)
  next
    case (Some g)
    obtain i j where g: "g = (i, j)" by (cases g)
    have "group_words (drop (i + 1) (take j w)) \<noteq> []"
      using "1.IH"(1) [OF Some g [symmetric] refl refl]
      by (auto simp: group_words_def split: option.splits dest: sequence_nonempty)
    moreover have "expand_word (drop (j + 1) w) \<noteq> []"
      using "1.IH"(2) Some g by simp
    ultimately show ?thesis
      using Some g by (simp only: expand_word_group product_nonempty not_False_eq_True)
  qed
next
  case (2 a)
  then show ?case by (subst expand_alternatives.simps) (simp add: Let_def)
qed

section \<open>Alternations\<close>

text \<open>Text no part of the scanner treats specially.\<close>

definition plain_text :: "rstr \<Rightarrow> bool" where
  "plain_text p \<longleftrightarrow> set p \<inter> {c_backslash, c_lbrace, c_rbrace, c_comma} = {}"

lemma unescaped_from_append:
  "c_backslash \<notin> set p \<Longrightarrow>
     unescaped_from n False (p @ s) =
       enumerate n p @ unescaped_from (n + length p) False s"
  by (induction p arbitrary: n) simp_all

lemma gobble_loop_flat:
  "c_lbrace \<notin> set p \<Longrightarrow> c_rbrace \<notin> set p \<Longrightarrow> target = c_rbrace \<Longrightarrow>
     \<exists>b. gobble_loop tx target 0 closable (enumerate n p @ us) =
           gobble_loop tx target 0 b us \<and> (closable \<or> c_comma \<in> set p \<longrightarrow> b)"
proof (induction p arbitrary: n closable)
  case (Cons c p)
  let ?b = "closable \<or> c = c_comma \<or> opens_range tx n"
  have "gobble_loop tx target 0 closable (enumerate n (c # p) @ us) =
      gobble_loop tx target 0 ?b (enumerate (Suc n) p @ us)"
    using Cons.prems by simp
  with Cons.IH [where n = "Suc n" and closable = ?b] Cons.prems show ?case by auto
qed auto

lemma gobble_loop_comma:
  "set p \<inter> {c_lbrace, c_rbrace, c_comma} = {} \<Longrightarrow>
     gobble_loop tx c_comma 0 True (enumerate n p @ us) =
       gobble_loop tx c_comma 0 True us"
  by (induction p arbitrary: n) auto

lemma first_group_flat:
  "c_lbrace \<notin> set p \<Longrightarrow>
     first_group tx (enumerate n p @ us) = first_group tx us"
  by (induction p arbitrary: n) auto

lemma expand_word_plain: "plain_text p \<Longrightarrow> expand_word p = [p]"
  using unescaped_from_append [of p 0 "[]"] first_group_flat [of p p 0 "[]"]
  by (subst expand_word.simps) (auto simp: find_group_def unescaped_def plain_text_def)

lemma expand_alternatives_join:
  "alts \<noteq> [] \<Longrightarrow> \<forall>a\<in>set alts. plain_text a \<Longrightarrow>
     expand_alternatives (join [c_comma] alts) = alts"
proof (induction "[c_comma]" alts rule: join.induct)
  case (2 p)
  then have p: "plain_text p" by simp
  have "gobble p 0 Stop_Comma = length p"
    using unescaped_from_append [of p 0 "[]"] gobble_loop_comma [of p p 0 "[]"] p
    by (auto simp: gobble_def stop_char_def unescaped_def plain_text_def)
  with p show ?case by (subst expand_alternatives.simps) (simp add: Let_def expand_word_plain)
next
  case (3 p q ps)
  let ?s = "join [c_comma] (q # ps)"
  let ?w = "p @ c_comma # ?s"
  have p: "plain_text p" using "3.prems" by simp
  have "unescaped ?w 0 = enumerate 0 p @ (length p, c_comma) #
      unescaped_from (Suc (length p)) False ?s"
    using unescaped_from_append [of p 0 "c_comma # ?s"] p
    by (auto simp: unescaped_def plain_text_def)
  then have "gobble ?w 0 Stop_Comma = length p"
    using gobble_loop_comma [of p ?w 0 "(length p, c_comma) # unescaped_from (Suc (length p)) False ?s"] p
    by (auto simp: gobble_def stop_char_def plain_text_def)
  with 3 p show ?case by (subst expand_alternatives.simps) (simp add: Let_def expand_word_plain)
qed simp

lemma set_join: "set (join sep ps) \<subseteq> set sep \<union> \<Union> (set ` set ps)"
  by (induction sep ps rule: join.induct) auto

lemma comma_in_join: "2 \<le> length ps \<Longrightarrow> c_comma \<in> set (join [c_comma] ps)"
  by (cases ps; cases "tl ps") auto

lemma join_plain:
  "\<forall>a\<in>set alts. plain_text a \<Longrightarrow>
     set (join [c_comma] alts) \<inter> {c_backslash, c_lbrace, c_rbrace} = {}"
  using set_join [of "[c_comma]" alts] by (fastforce simp: plain_text_def)

text \<open>A brace group of two or more comma-separated plain alternatives, in plain
  surroundings, expands to every alternative, in order, each combined with every expansion
  of what follows the group.\<close>

theorem expand_word_alternation:
  assumes "plain_text pre" "\<forall>a\<in>set alts. plain_text a" "2 \<le> length alts"
    and "\<not> is_ascii_whitespace (hd (join [c_comma] alts))"
  shows "expand_word (pre @ [c_lbrace] @ join [c_comma] alts @ [c_rbrace] @ post) =
    concat (map (\<lambda>a. map (\<lambda>r. pre @ a @ r) (expand_word post)) alts)"
proof -
  let ?am = "join [c_comma] alts"
  let ?w = "pre @ [c_lbrace] @ ?am @ [c_rbrace] @ post"
  let ?i = "length pre" and ?j = "length pre + 1 + length ?am"
  have am: "c_backslash \<notin> set ?am" "c_lbrace \<notin> set ?am" "c_rbrace \<notin> set ?am" "c_comma \<in> set ?am"
    using join_plain [OF assms(2)] comma_in_join [OF assms(3)] by auto
  then have ne: "?am \<noteq> []" by auto
  have pre: "c_backslash \<notin> set pre" "c_lbrace \<notin> set pre"
    using assms(1) by (auto simp: plain_text_def)
  let ?tail = "unescaped_from (Suc ?j) False post"
  have u1: "unescaped ?w (?i + 1) = enumerate (?i + 1) ?am @ (?j, c_rbrace) # ?tail"
    using unescaped_from_append [OF am(1), of "?i + 1" "c_rbrace # post"] by (simp add: unescaped_def)
  have close: "gobble ?w (?i + 1) Stop_Close = ?j"
    using gobble_loop_flat [OF am(2,3) refl, of ?w False "?i + 1" "(?j, c_rbrace) # ?tail"] am(4) u1
    by (auto simp: gobble_def stop_char_def)
  have "hd ?am \<noteq> c_rbrace" using am(3) ne by (metis hd_in_set)
  then have "\<not> is_shell_brace ?w ?i"
    using assms(4) ne by (cases ?am) (auto simp: is_shell_brace_def get_def nth_append)
  moreover have "unescaped ?w 0 = enumerate 0 pre @ (?i, c_lbrace) #
      unescaped_from (Suc ?i) False (?am @ [c_rbrace] @ post)"
    using unescaped_from_append [OF pre(1), of 0 "[c_lbrace] @ ?am @ [c_rbrace] @ post"]
    by (simp add: unescaped_def)
  ultimately have group: "find_group ?w = Some (?i, ?j)"
    using close by (simp only: find_group_def first_group_flat [OF pre(2)]) simp
  have "\<exists>u\<in>set (unescaped ?am 0). snd u = c_comma"
    using unescaped_from_append [OF am(1), of 0 "[]"] am(4)
    by (force simp: unescaped_def in_set_conv_nth nth_enumerate_eq)
  moreover have "expand_alternatives ?am = alts"
    by (rule expand_alternatives_join) (use assms(2,3) in auto)
  ultimately have "group_words ?am = alts" by (simp only: group_words_def if_True)
  moreover have "drop (?i + 1) (take ?j ?w) = ?am" "drop (?j + 1) ?w = post" "take ?i ?w = pre"
    by simp_all
  ultimately show ?thesis by (simp only: expand_word_group [OF group])
qed

theorem expand_word_alternation_witness:
  "expand_word (ascii ''src/{a,bc}.rs'') = [ascii ''src/a.rs'', ascii ''src/bc.rs'']"
proof -
  have "expand_word (ascii ''src/'' @ [c_lbrace] @ join [c_comma] [ascii ''a'', ascii ''bc''] @
      [c_rbrace] @ ascii ''.rs'') =
    concat (map (\<lambda>a. map (\<lambda>r. ascii ''src/'' @ a @ r) (expand_word (ascii ''.rs'')))
      [ascii ''a'', ascii ''bc''])"
    by (rule expand_word_alternation) (simp_all add: plain_text_def is_ascii_whitespace_def)
  moreover have "expand_word (ascii ''.rs'') = [ascii ''.rs'']"
    by (rule expand_word_plain) (simp add: plain_text_def)
  ultimately show ?thesis by simp
qed

section \<open>Numeric ranges\<close>

lemma show_nat_Cons: "0 < n \<Longrightarrow> \<exists>d ds. show_nat n = d # ds \<and> d \<noteq> c_zero"
proof (induction n rule: show_nat.induct)
  case (1 n)
  show ?case
  proof (cases "n < 10")
    case True
    with "1.prems" show ?thesis by (subst show_nat.simps) simp
  next
    case False
    then have "0 < n div 10" by auto
    from "1.IH" [OF False this] False show ?thesis by (subst show_nat.simps) auto
  qed
qed

lemma show_nat_zero: "show_nat 0 = [c_zero]"
  by (subst show_nat.simps) simp

lemma show_int_not_padded: "\<not> padded (show_int i)"
proof (cases "i = 0")
  case True
  then show ?thesis by (simp add: show_int_def padded_def show_nat_zero)
next
  case False
  then obtain d ds where "show_nat (nat \<bar>i\<bar>) = d # ds" "d \<noteq> c_zero"
    using show_nat_Cons [of "nat \<bar>i\<bar>"] by auto
  moreover have "\<forall>c\<in>set (show_nat (nat \<bar>i\<bar>)). c \<noteq> c_minus"
    using show_nat_digits by (fastforce simp: is_ascii_digit_def)
  ultimately show ?thesis by (auto simp: show_int_def padded_def)
qed

lemma show_int_padded_0 [simp]: "show_int_padded 0 = show_int"
  by (rule ext) (auto simp: show_int_padded_def show_int_def)

lemma number_prefix_digits:
  "\<forall>d\<in>set ds. is_ascii_digit d \<Longrightarrow> ds \<noteq> [] \<Longrightarrow> number_prefix_len ds = length ds"
proof -
  assume ds: "\<forall>d\<in>set ds. is_ascii_digit d" "ds \<noteq> []"
  then have "length (takeWhile is_ascii_digit ds) = length ds"
    by (metis takeWhile_eq_all_conv)
  moreover have "is_ascii_digit (hd ds)" using ds by simp
  then have "hd ds \<noteq> c_plus" "hd ds \<noteq> c_minus" by (simp_all add: is_ascii_digit_def)
  ultimately show ?thesis by (simp add: number_prefix_len_def)
qed

lemma number_prefix_show_int: "number_prefix_len (show_int i) = length (show_int i)"
proof -
  have "number_prefix_len (show_nat n) = length (show_nat n)" for n
    using show_nat_digits by (simp add: number_prefix_digits)
  then show ?thesis by (auto simp: show_int_def number_prefix_len_def [of "c_minus # ds" for ds])
qed

lemma show_int_no_dot: "c_dot \<notin> set (show_int i)"
  by (simp add: show_int_def not_digit_show_nat is_ascii_digit_def)

lemma split_once_first:
  "c \<notin> set a \<Longrightarrow> split_once (c # p) (a @ (c # p) @ b) = Some (a, b)"
proof (induction a)
  case Nil
  have "strip_prefix (c # p) (c # p @ b) = Some b" by (simp add: strip_prefix_Some_iff)
  then show ?case by simp
next
  case (Cons d a)
  then have "strip_prefix (c # p) (d # a @ (c # p) @ b) = None"
    by (simp add: strip_prefix_None_iff)
  with Cons show ?case by simp
qed

lemma steps_up:
  "lo \<le> hi \<Longrightarrow> hi - lo \<le> max_steps \<Longrightarrow> steps lo hi 1 = Some [lo..hi]"
proof -
  assume a: "lo \<le> hi" "hi - lo \<le> max_steps"
  have "map (\<lambda>k. lo + int k * (1 * sgn (hi - lo))) [0..<nat (hi - lo + 1)] = [lo..hi]"
  proof (cases "lo = hi")
    case False
    with a(1) have "sgn (hi - lo) = 1" by simp
    then show ?thesis using a(1) by (intro nth_equalityI) (auto simp: nth_upto)
  qed simp
  with a show ?thesis by (simp add: steps_def Let_def)
qed

text \<open>An ascending numeric range written without padding expands to every integer from
  the first end to the last, in order and in decimal, while the ends are 64-bit integers no
  further apart than bash allows.\<close>

theorem sequence_numeric_range:
  assumes "i64_in_range lo" "i64_in_range hi" "lo \<le> hi" "hi - lo \<le> max_steps"
  shows "sequence (show_int lo @ [c_dot, c_dot] @ show_int hi) = Some (map show_int [lo..hi])"
proof -
  have ne: "show_int i \<noteq> []" for i by (simp add: show_int_def)
  have "range_end (show_int hi) = Some (Term_Int hi, length (show_int hi))"
    by (simp add: range_end_def Let_def number_prefix_show_int parse_show_int [OF assms(2)])
  moreover have "range_start (show_int lo) = Some (Term_Int lo)"
    by (simp add: range_start_def parse_show_int [OF assms(1)])
  moreover have "range_terms (show_int lo) (show_int hi) (Term_Int lo) (Term_Int hi) 1 =
      Some (map show_int [lo..hi])"
    using show_int_not_padded
    by (simp add: range_terms_def pad_width_def steps_up [OF assms(3,4)])
  moreover have "split_once [c_dot, c_dot] (show_int lo @ [c_dot, c_dot] @ show_int hi) =
      Some (show_int lo, show_int hi)"
    by (rule split_once_first) (rule show_int_no_dot)
  ultimately show ?thesis by (simp add: sequence_def ne range_step_def)
qed

theorem sequence_numeric_range_witness:
  "sequence (show_int (-1) @ [c_dot, c_dot] @ show_int 2) =
     Some [show_int (-1), show_int 0, show_int 1, show_int 2]"
proof -
  have "sequence (show_int (-1) @ [c_dot, c_dot] @ show_int 2) = Some (map show_int [-1..2])"
    by (rule sequence_numeric_range) (simp_all add: i64_in_range_def max_steps_def)
  moreover have "[-1..2] = [-1, 0, 1, 2::int]" by (simp add: upto_rec1)
  ultimately show ?thesis by simp
qed

text \<open>Every pattern expands to at least one word, and no word handed to globset has a
  brace that globset would read as an alternation, an unclosed class, or a class spanning a
  separator.\<close>

theorem expand_words_globset_safe:
  "expand pattern \<noteq> [] \<and> list_all globset_plain (expand pattern)"
  by (simp add: expand_def expand_nonempty globset_plain_escape list_all_iff)

section \<open>Unescaping\<close>

lemma unescape_plain: "c_backslash \<notin> set s \<Longrightarrow> unescape s = s"
  unfolding unescape_def by (induction s) auto

lemma unescape_quoted: "unescape (concat (map (\<lambda>c. [c_backslash, c]) s)) = s"
  unfolding unescape_def by (induction s) auto

lemma unescape_append:
  "c_backslash \<notin> set p \<Longrightarrow> unescape (p @ s) = p @ unescape s"
  unfolding unescape_def by (induction p) auto

end
