(* ===== verification/Posix_Class.thy ===== *)
theory Posix_Class
  imports Prelude "HOL-Library.Product_Lexorder"
begin

text \<open>
  \<open>packages/rust/src/posix_class.rs\<close> and \<open>collating_symbol.rs\<close>: POSIX classes,
  collating symbols and equivalence classes rewritten into brackets of plain ranges. The
  code walks a \<open>Vec<char>\<close> by index; the model walks the remaining characters, so "the
  index past it" is what remains. The \<open>BTreeSet\<close> of ranges is a strictly sorted list.
\<close>

section \<open>Collating symbols\<close>

definition collating_names :: "(rstr \<times> uchar) list" where
  "collating_names = map (\<lambda>(n, c). (ascii n, c))
    [
     (''NUL'', 0), (''SOH'', 1), (''STX'', 2), (''ETX'', 3), (''EOT'', 4), (''ENQ'', 5),
     (''ACK'', 6), (''alert'', 7), (''BS'', 8), (''backspace'', 8), (''HT'', 9), (''tab'', 9),
     (''LF'', 10), (''newline'', 10), (''VT'', 11), (''vertical-tab'', 11), (''FF'', 12),
     (''form-feed'', 12), (''CR'', 13), (''carriage-return'', 13), (''SO'', 14), (''SI'', 15),
     (''DLE'', 16), (''DC1'', 17), (''DC2'', 18), (''DC3'', 19), (''DC4'', 20), (''NAK'', 21),
     (''SYN'', 22), (''ETB'', 23), (''CAN'', 24), (''EM'', 25), (''SUB'', 26), (''ESC'', 27),
     (''IS4'', 28), (''FS'', 28), (''IS3'', 29), (''GS'', 29), (''IS2'', 30), (''RS'', 30),
     (''IS1'', 31), (''US'', 31), (''space'', 32), (''exclamation-mark'', 33),
     (''quotation-mark'', 34), (''number-sign'', 35), (''dollar-sign'', 36),
     (''percent-sign'', 37), (''ampersand'', 38), (''apostrophe'', 39),
     (''left-parenthesis'', 40), (''right-parenthesis'', 41), (''asterisk'', 42),
     (''plus-sign'', 43), (''comma'', 44), (''hyphen'', 45), (''hyphen-minus'', 45),
     (''minus'', 45), (''dash'', 45), (''period'', 46), (''full-stop'', 46), (''slash'', 47),
     (''solidus'', 47), (''zero'', 48), (''one'', 49), (''two'', 50), (''three'', 51),
     (''four'', 52), (''five'', 53), (''six'', 54), (''seven'', 55), (''eight'', 56),
     (''nine'', 57), (''colon'', 58), (''semicolon'', 59), (''less-than-sign'', 60),
     (''equals-sign'', 61), (''greater-than-sign'', 62), (''question-mark'', 63),
     (''commercial-at'', 64), (''left-square-bracket'', 91), (''backslash'', 92),
     (''reverse-solidus'', 92), (''right-square-bracket'', 93), (''circumflex'', 94),
     (''circumflex-accent'', 94), (''underscore'', 95), (''grave-accent'', 96),
     (''left-brace'', 123), (''left-curly-bracket'', 123), (''vertical-line'', 124),
     (''right-brace'', 125), (''right-curly-bracket'', 125), (''tilde'', 126), (''DEL'', 127)]"

definition collating_symbol :: "rstr \<Rightarrow> uchar option" where
  "collating_symbol name =
     (case map_of collating_names name of
        Some c \<Rightarrow> Some c
      | None \<Rightarrow> (case name of [c] \<Rightarrow> Some c | _ \<Rightarrow> None))"

section \<open>The elements of a bracket\<close>

text \<open>The text up to \<open>:]\<close>; a \<open>]\<close> before it ends the search.\<close>

fun class_name :: "rstr \<Rightarrow> (rstr \<times> rstr) option" where
  "class_name [] = None"
| "class_name (c # cs) =
     (if c = c_colon \<and> prefix [c_rbracket] cs then Some ([], tl cs)
      else if c = c_rbracket then None
      else map_option (apfst (Cons c)) (class_name cs))"

definition class_at :: "rstr \<Rightarrow> (rstr \<times> rstr) option" where
  "class_at s =
     (case strip_prefix [c_lbracket, c_colon] s of None \<Rightarrow> None | Some t \<Rightarrow> class_name t)"

definition equivalence_at :: "rstr \<Rightarrow> (uchar \<times> rstr) option" where
  "equivalence_at s =
     (if 5 \<le> length s \<and> s ! 0 = c_lbracket \<and> s ! 1 = c_equals \<and> s ! 3 = c_equals \<and>
         s ! 4 = c_rbracket
      then Some (s ! 2, drop 5 s) else None)"

text \<open>A symbol with no \<open>.]\<close> runs to the end of the pattern.\<close>

definition symbol_at :: "rstr \<Rightarrow> (uchar option \<times> rstr) option" where
  "symbol_at s =
     (case strip_prefix [c_lbracket, c_dot] s of
        None \<Rightarrow> None
      | Some t \<Rightarrow>
          (case split_once [c_dot, c_rbracket] t of
             Some (name, after) \<Rightarrow> Some (collating_symbol name, after)
           | None \<Rightarrow> Some (None, [])))"

text \<open>The regexes of the Unicode classes; \<open>rx\<close> writes a backslash for each tilde.\<close>

definition rx :: "string \<Rightarrow> rstr" where
  "rx s = replace_char c_tilde [c_backslash] (ascii s)"

definition unicode_classes :: "(rstr \<times> rstr) list" where
  "unicode_classes = map (\<lambda>(n, r). (ascii n, rx r))
    [(''alnum'', ''[~p{Alphabetic}~p{Nd}]''),
     (''alpha'', ''[~p{Alphabetic}~p{Nd}--0-9]''),
     (''blank'', ''[~p{Zs}~t--~u{a0}~u{2007}~u{202f}]''),
     (''cntrl'', ''[~p{Cc}~u{2028}~u{2029}]''),
     (''graph'', ''[[^~p{White_Space}~p{Cc}~p{Unassigned}]~u{a0}~u{2007}~u{202f}]''),
     (''lower'', ''[~p{Lowercase}~u{1c5}~u{1c8}~u{1cb}~u{1f2}]''),
     (''print'', ''[^~p{Cc}~p{Unassigned}~u{2028}~u{2029}]''),
     (''punct'',
      ''[[[^~p{White_Space}~p{Cc}~p{Unassigned}]~u{a0}~u{2007}~u{202f}]--[~p{Alphabetic}~p{Nd}]]''),
     (''space'', ''[~p{White_Space}--~u{a0}~u{2007}~u{202f}~u{85}]''),
     (''upper'', ''[~p{Uppercase}~p{Lt}]''),
     (''word'', ''[~p{Alphabetic}~p{Nd}_]'')]"

text \<open>\<open>MARKER_BASE\<close> is U+FDD0.\<close>

definition marker :: "nat \<Rightarrow> uchar" where
  "marker index = 64976 + index"

definition class_regex :: "uchar \<Rightarrow> rstr option" where
  "class_regex c =
     map_option (\<lambda>(i, n, regex). [c_lbracket] @ regex @ ascii ''--/]'')
       (find (\<lambda>(i, n, regex). marker i = c) (enumerate 0 unicode_classes))"

definition class_ranges :: "rstr \<Rightarrow> (uchar \<times> uchar) list" where
  "class_ranges name =
     (if name = ascii ''ascii'' then [(0, 127)]
      else if name = ascii ''digit'' then [(48, 57)]
      else if name = ascii ''xdigit'' then [(48, 57), (65, 70), (97, 102)]
      else (case position (\<lambda>e. fst e = name) unicode_classes of
              Some i \<Rightarrow> [(marker i, marker i)]
            | None \<Rightarrow> []))"

section \<open>Rendering\<close>

type_synonym ranges = "(uchar \<times> uchar) list"

definition positional :: "uchar list" where
  "positional = [c_rbracket, c_minus, c_bang, c_caret]"

definition without_char :: "ranges \<Rightarrow> uchar \<Rightarrow> ranges" where
  "without_char rs c =
     filter (\<lambda>(a, b). a \<le> b)
       (concat (map (\<lambda>(a, b). [(a, min b (c - 1)), (max a (c + 1), b)]) rs))"

definition covers :: "ranges \<Rightarrow> uchar \<Rightarrow> bool" where
  "covers rs c \<longleftrightarrow> (\<exists>(a, b)\<in>set rs. a \<le> c \<and> c \<le> b)"

definition push_char :: "uchar \<Rightarrow> rstr" where
  "push_char n = (case char_from_u32 n of Some c \<Rightarrow> [c] | None \<Rightarrow> [])"

definition render_range :: "uchar \<times> uchar \<Rightarrow> rstr" where
  "render_range r =
     push_char (fst r) @ (if fst r \<noteq> snd r then c_minus # push_char (snd r) else [])"

definition render_set :: "bool \<Rightarrow> ranges \<Rightarrow> ranges" where
  "render_set negated rs =
     without_char rs c_slash @ (if negated then [(c_slash, c_slash)] else [])"

definition render_plain :: "ranges \<Rightarrow> ranges" where
  "render_plain rs =
     (let specials = filter (covers rs) positional;
          plain = sort (foldl without_char rs positional)
      in if plain = [] \<and> c_rbracket \<notin> set specials then [(0, 0)] else plain)"

definition render :: "bool \<Rightarrow> ranges \<Rightarrow> rstr" where
  "render negated rs =
     (let st = render_set negated rs; specials = filter (covers st) positional in
      [c_lbracket] @ (if negated then [c_bang] else []) @
      (if c_rbracket \<in> set specials then [c_rbracket] else []) @
      concat (map render_range (render_plain st)) @
      filter (\<lambda>c. c \<in> set specials) [c_bang, c_caret, c_minus] @ [c_rbracket])"

section \<open>Parsing a bracket\<close>

lemma class_name_shorter: "class_name s = Some (n, t) \<Longrightarrow> length t < length s"
  by (induction s arbitrary: n) (auto split: if_splits simp: prefix_def)

lemma class_at_shorter: "class_at s = Some (n, t) \<Longrightarrow> length t < length s"
  by (auto simp: class_at_def strip_prefix_Some_iff dest!: class_name_shorter split: option.splits)

lemma equivalence_at_shorter: "equivalence_at s = Some (c, t) \<Longrightarrow> length t < length s"
  by (auto simp: equivalence_at_def split: if_splits)

lemma symbol_at_shorter: "symbol_at s = Some (c, t) \<Longrightarrow> length t < length s"
  by (auto simp: symbol_at_def strip_prefix_Some_iff dest!: split_once_SomeD split: option.splits)

text \<open>
  The loop of \<open>bracket\<close>: the ranges so far, whether an element globset lacks was seen, and
  whether a range ends in a class.
\<close>

record bracket_state =
  bs_ranges :: ranges
  bs_rewrite :: bool
  bs_into_class :: bool

definition add_ranges :: "ranges \<Rightarrow> bracket_state \<Rightarrow> bracket_state" where
  "add_ranges rs st = st\<lparr>bs_ranges := fold insort_insert rs (bs_ranges st)\<rparr>"

definition set_rewrite :: "bracket_state \<Rightarrow> bracket_state" where
  "set_rewrite st = st\<lparr>bs_rewrite := True\<rparr>"

text \<open>A collating symbol, or the character itself.\<close>

definition char_or_symbol ::
  "rstr \<Rightarrow> bracket_state \<Rightarrow> uchar option \<times> rstr \<times> bracket_state" where
  "char_or_symbol s st =
     (case symbol_at s of
        Some (sy, t) \<Rightarrow> (sy, t, set_rewrite st)
      | None \<Rightarrow> (Some (hd s), tl s, st))"

lemma char_or_symbol_shorter:
  "char_or_symbol s st = (c, t, st') \<Longrightarrow> s \<noteq> [] \<Longrightarrow> length t < length s"
  by (auto simp: char_or_symbol_def dest: symbol_at_shorter split: option.splits prod.splits)

definition add_range :: "uchar option \<Rightarrow> uchar option \<Rightarrow> bracket_state \<Rightarrow> bracket_state" where
  "add_range lo hi st =
     (case (lo, hi) of
        (Some a, Some b) \<Rightarrow> if a \<le> b then add_ranges [(a, b)] st else st
      | _ \<Rightarrow> st)"

text \<open>One member that is neither a class nor an equivalence class: a character, a symbol, or
  a range. The result is the new state and what remains.\<close>

definition range_from :: "uchar option \<Rightarrow> rstr \<Rightarrow> bracket_state \<Rightarrow> bracket_state \<times> rstr" where
  "range_from start s st =
     (case class_at s of
        Some (_, next) \<Rightarrow> ((set_rewrite st)\<lparr>bs_into_class := True\<rparr>, next)
      | None \<Rightarrow> (case char_or_symbol s st of (stop, next, st') \<Rightarrow> (add_range start stop st', next)))"

definition member_at :: "rstr \<Rightarrow> bracket_state \<Rightarrow> bracket_state \<times> rstr" where
  "member_at s st =
     (case char_or_symbol s st of
        (start, after, st') \<Rightarrow>
          if get after 0 = Some c_minus \<and> get after 1 \<noteq> None \<and> get after 1 \<noteq> Some c_rbracket
          then range_from start (tl after) st'
          else (add_range start start st', after))"

lemma range_from_shorter: "s \<noteq> [] \<Longrightarrow> length (snd (range_from c s st)) < length s"
  by (auto simp: range_from_def dest: class_at_shorter char_or_symbol_shorter
      split: option.split prod.split)

lemma member_at_shorter: "s \<noteq> [] \<Longrightarrow> length (snd (member_at s st)) < length s"
proof -
  assume ne: "s \<noteq> []"
  obtain c t st' where t: "char_or_symbol s st = (c, t, st')" by (cases "char_or_symbol s st")
  note lt = char_or_symbol_shorter [OF t ne]
  show ?thesis
  proof (cases "tl t = []")
    case True
    then have "get t 1 = None" by (cases t) auto
    with t lt show ?thesis by (simp add: member_at_def)
  next
    case False
    with lt range_from_shorter [OF False, of c st'] have "length (snd (range_from c (tl t) st')) < length s"
      by simp
    with t lt show ?thesis by (simp add: member_at_def)
  qed
qed

lemma member_at_shorter_Cons: "length (snd (member_at (c # cs) st)) < Suc (length cs)"
  using member_at_shorter [of "c # cs" st] by simp

function bracket_loop :: "bool \<Rightarrow> rstr \<Rightarrow> bracket_state \<Rightarrow> (bracket_state \<times> rstr) option" where
  "bracket_loop first [] st = None"
| "bracket_loop first (c # cs) st =
     (if c = c_rbracket \<and> \<not> first then Some (st, cs)
      else case class_at (c # cs) of
        Some (name, next) \<Rightarrow>
          bracket_loop False next (set_rewrite (add_ranges (class_ranges name) st))
      | None \<Rightarrow>
          (case equivalence_at (c # cs) of
             Some (m, next) \<Rightarrow> bracket_loop False next (set_rewrite (add_ranges [(m, m)] st))
           | None \<Rightarrow>
               bracket_loop False (snd (member_at (c # cs) st)) (fst (member_at (c # cs) st))))"
  by pat_completeness auto
termination
  by (relation "measure (\<lambda>(f, s, st). length s)")
     (auto dest!: class_at_shorter equivalence_at_shorter simp: member_at_shorter_Cons)

text \<open>\<open>bracket\<close>, given what follows the opening bracket.\<close>

definition bracket :: "rstr \<Rightarrow> (rstr option \<times> rstr) option" where
  "bracket s =
     (let negated = (s \<noteq> [] \<and> (hd s = c_bang \<or> hd s = c_caret));
          body = (if negated then tl s else s)
      in map_option
           (\<lambda>(st, rest).
              (if \<not> bs_rewrite st then None
               else if bs_into_class st then Some [c_lbracket, 0, c_rbracket]
               else Some (render negated (bs_ranges st)), rest))
           (bracket_loop True body \<lparr>bs_ranges = [], bs_rewrite = False, bs_into_class = False\<rparr>))"

lemma bracket_loop_shorter:
  "bracket_loop first s st = Some (st', rest) \<Longrightarrow> length rest < length s"
proof (induction first s st rule: bracket_loop.induct)
  case (2 first c cs st)
  show ?case
  proof (cases "c = c_rbracket \<and> \<not> first")
    case True
    with "2.prems" show ?thesis by simp
  next
    case False
    note step = "2.prems" [unfolded bracket_loop.simps if_not_P [OF False]]
    show ?thesis
    proof (cases "class_at (c # cs)")
      case (Some p)
      obtain n t where p: "p = (n, t)" by (cases p)
      from Some p step have "length rest < length t"
        by (intro "2.IH"(3) [OF False Some p [symmetric]]) simp
      with class_at_shorter [of "c # cs" n t] Some p show ?thesis by simp
    next
      case None
      show ?thesis
      proof (cases "equivalence_at (c # cs)")
        case (Some p)
        obtain n t where p: "p = (n, t)" by (cases p)
        from Some p None step have "length rest < length t"
          by (intro "2.IH"(2) [OF False None Some p [symmetric]]) simp
        with equivalence_at_shorter [of "c # cs" n t] Some p show ?thesis by simp
      next
        case eq: None
        have "length rest < length (snd (member_at (c # cs) st))"
          using None eq step by (intro "2.IH"(1) [OF False]) simp_all
        then show ?thesis using member_at_shorter_Cons [of c cs st] by simp
      qed
    qed
  qed
qed simp

lemma bracket_shorter: "bracket s = Some (r, rest) \<Longrightarrow> length rest < length s"
  by (auto simp: bracket_def Let_def neq_Nil_conv dest!: bracket_loop_shorter split: if_splits)

section \<open>Rewriting a pattern\<close>

function expand_posix_classes :: "rstr \<Rightarrow> rstr" where
  "expand_posix_classes [] = []"
| "expand_posix_classes (c # cs) =
     (if c = c_backslash then take 2 (c # cs) @ expand_posix_classes (drop 1 cs)
      else if c = c_lbracket then
        (case bracket cs of
           Some (Some rewritten, rest) \<Rightarrow> rewritten @ expand_posix_classes rest
         | Some (None, rest) \<Rightarrow>
             take (length (c # cs) - length rest) (c # cs) @ expand_posix_classes rest
         | None \<Rightarrow> c # expand_posix_classes cs)
      else c # expand_posix_classes cs)"
  by pat_completeness auto
termination
  by (relation "measure length") (auto dest!: bracket_shorter)

section \<open>What a rendered bracket matches\<close>

text \<open>
  How a bracket of plain ranges is read: a \<open>!\<close> or \<open>^\<close> right after the opening negates it,
  a \<open>]\<close> in first place is a member, a \<open>-\<close> between two characters the second of which is
  not \<open>]\<close> makes a range, and a bracket never matches the separator.
\<close>

function read_members :: "bool \<Rightarrow> rstr \<Rightarrow> (ranges \<times> rstr) option" where
  "read_members first [] = None"
| "read_members first (c # cs) =
     (if c = c_rbracket \<and> \<not> first then Some ([], cs)
      else (case cs of
              d # e # t \<Rightarrow>
                if d = c_minus \<and> e \<noteq> c_rbracket
                then map_option (apfst (Cons (c, e))) (read_members False t)
                else map_option (apfst (Cons (c, c))) (read_members False cs)
            | _ \<Rightarrow> map_option (apfst (Cons (c, c))) (read_members False cs)))"
  by pat_completeness auto
termination by (relation "measure (\<lambda>(f, s). length s)") auto

definition read_bracket :: "rstr \<Rightarrow> (bool \<times> ranges \<times> rstr) option" where
  "read_bracket s =
     (case strip_prefix [c_lbracket] s of
        None \<Rightarrow> None
      | Some t \<Rightarrow>
          (let negated = (t \<noteq> [] \<and> (hd t = c_bang \<or> hd t = c_caret)) in
           map_option (\<lambda>(rs, rest). (negated, rs, rest))
             (read_members True (if negated then tl t else t))))"

lemma covers_simps [simp]:
  "\<not> covers [] c" "covers (r # rs) c \<longleftrightarrow> (fst r \<le> c \<and> c \<le> snd r) \<or> covers rs c"
  "covers (rs @ qs) c \<longleftrightarrow> covers rs c \<or> covers qs c"
  by (auto simp: covers_def)

lemma covers_without: "0 < d \<Longrightarrow> covers (without_char rs d) c \<longleftrightarrow> covers rs c \<and> c \<noteq> d"
proof (induction rs)
  case (Cons r rs)
  have "covers (without_char [r] d) c \<longleftrightarrow> covers [r] c \<and> c \<noteq> d" if "0 < d"
    using that by (cases r) (auto simp: without_char_def covers_def)
  moreover have "without_char (r # rs) d = without_char [r] d @ without_char rs d"
    by (simp add: without_char_def)
  ultimately show ?case using Cons by auto
qed (simp add: without_char_def)

lemma covers_sort [simp]: "covers (sort rs) c = covers rs c"
  by (simp add: covers_def)

lemma covers_render_set:
  "covers (render_set negated rs) c \<longleftrightarrow> (covers rs c \<and> c \<noteq> c_slash) \<or> (negated \<and> c = c_slash)"
  by (auto simp: render_set_def covers_without)

definition range_ok :: "uchar \<times> uchar \<Rightarrow> bool" where
  "range_ok r \<longleftrightarrow> is_scalar (fst r) \<and> is_scalar (snd r)"

definition clean :: "uchar \<times> uchar \<Rightarrow> bool" where
  "clean r \<longleftrightarrow> range_ok r \<and> fst r \<le> snd r \<and> fst r \<notin> set positional \<and> snd r \<notin> set positional"

lemma without_cases:
  assumes "r \<in> set (without_char rs d)"
  shows "\<exists>q\<in>set rs. fst r \<le> snd r \<and>
    (fst r = fst q \<and> (snd r = snd q \<or> snd r = d - 1) \<and> snd r \<le> snd q \<and> snd r \<le> d - 1 \<or>
     snd r = snd q \<and> (fst r = fst q \<or> fst r = d + 1) \<and> fst q \<le> fst r \<and> d + 1 \<le> fst r)"
proof -
  obtain q where q: "q \<in> set rs" "fst r \<le> snd r"
      "r = (fst q, min (snd q) (d - 1)) \<or> r = (max (fst q) (d + 1), snd q)"
    using assms by (auto simp: without_char_def)
  from q(3) show ?thesis
  proof
    assume "r = (fst q, min (snd q) (d - 1))"
    then show ?thesis using q(1,2) by (intro bexI [OF _ q(1)]) (simp add: min_def)
  next
    assume "r = (max (fst q) (d + 1), snd q)"
    then show ?thesis using q(1,2) by (intro bexI [OF _ q(1)]) (simp add: max_def)
  qed
qed

lemma range_ok_without:
  assumes "d \<in> set positional \<union> {c_slash}" "\<forall>r\<in>set rs. range_ok r"
  shows "\<forall>r\<in>set (without_char rs d). range_ok r \<and> fst r \<le> snd r"
proof
  fix r assume r: "r \<in> set (without_char rs d)"
  have "is_scalar (d - 1)" "is_scalar (d + 1)"
    using assms(1) by (auto simp: positional_def is_scalar_def)
  then show "range_ok r \<and> fst r \<le> snd r"
    using without_cases [OF r] assms(2) by (auto simp: range_ok_def)
qed

lemma without_avoids:
  assumes "r \<in> set (without_char rs d)"
  shows "\<exists>q\<in>set rs. fst q \<le> fst r \<and> snd r \<le> snd q \<and> fst r \<le> snd r \<and>
    (0 < d \<longrightarrow> \<not> (fst r \<le> d \<and> d \<le> snd r))"
proof -
  obtain q where q: "q \<in> set rs" "fst r \<le> snd r"
    "(snd r \<le> snd q \<and> snd r \<le> d - 1 \<and> fst r = fst q) \<or>
     (fst q \<le> fst r \<and> d + 1 \<le> fst r \<and> snd r = snd q)"
    using without_cases [OF assms] by blast
  from q(2,3) show ?thesis by (intro bexI [OF _ q(1)]) linarith
qed

lemma foldl_without_avoids:
  assumes "r \<in> set (foldl without_char rs ds)" "\<forall>d\<in>set ds. 0 < d"
  shows "(\<exists>q\<in>set rs. fst q \<le> fst r \<and> snd r \<le> snd q) \<and>
    (\<forall>d\<in>set ds. \<not> (fst r \<le> d \<and> d \<le> snd r))"
  using assms
proof (induction ds arbitrary: rs)
  case (Cons d ds)
  then have ih: "\<exists>q\<in>set (without_char rs d). fst q \<le> fst r \<and> snd r \<le> snd q"
    "\<forall>e\<in>set ds. \<not> (fst r \<le> e \<and> e \<le> snd r)" by simp_all
  then obtain q where q: "q \<in> set (without_char rs d)" "fst q \<le> fst r" "snd r \<le> snd q" by blast
  have "0 < d" using Cons.prems by simp
  with without_avoids [OF q(1)] q ih(2) show ?case by (auto intro: order.trans)
qed auto

lemma foldl_without_ok:
  "set ds \<subseteq> set positional \<Longrightarrow> \<forall>r\<in>set rs. range_ok r \<and> fst r \<le> snd r \<Longrightarrow>
     \<forall>r\<in>set (foldl without_char rs ds). range_ok r \<and> fst r \<le> snd r"
proof (induction ds arbitrary: rs)
  case (Cons d ds)
  have d: "d \<in> set positional \<union> {c_slash}" using Cons.prems(1) by simp
  have "\<forall>r\<in>set rs. range_ok r" using Cons.prems(2) by blast
  from Cons.IH [OF _ range_ok_without [OF d this]] Cons.prems(1) show ?case by simp
qed simp

lemma covers_foldl_without:
  "\<forall>d\<in>set ds. 0 < d \<Longrightarrow> covers (foldl without_char rs ds) c \<longleftrightarrow> covers rs c \<and> c \<notin> set ds"
  by (induction ds arbitrary: rs) (auto simp: covers_without)

lemma positional_pos: "\<forall>d\<in>set positional. 0 < d"
  by (simp add: positional_def)

lemma clean_render_plain:
  assumes "\<forall>r\<in>set rs. range_ok r \<and> fst r \<le> snd r"
  shows "\<forall>r\<in>set (render_plain rs). clean r"
proof -
  have "clean r" if "r \<in> set (foldl without_char rs positional)" for r
    using foldl_without_ok [OF subset_refl assms] foldl_without_avoids [OF that positional_pos] that
    by (auto simp: clean_def)
  moreover have "clean (0, 0)" by (simp add: clean_def range_ok_def is_scalar_def positional_def)
  ultimately show ?thesis by (auto simp: render_plain_def Let_def)
qed

lemma covers_render_plain:
  "c \<noteq> 0 \<Longrightarrow> covers (render_plain rs) c \<longleftrightarrow> covers rs c \<and> c \<notin> set positional"
proof -
  assume "c \<noteq> 0"
  moreover have "covers (sort (foldl without_char rs positional)) c
      \<longleftrightarrow> covers rs c \<and> c \<notin> set positional"
    using covers_foldl_without [OF positional_pos] by simp
  ultimately show ?thesis
    by (cases "foldl without_char rs positional = []") (auto simp: render_plain_def Let_def)
qed

section \<open>Reading a rendered bracket back\<close>

text \<open>Text that cannot turn the character before it into the start of a range.\<close>

definition no_range :: "rstr \<Rightarrow> bool" where
  "no_range s \<longleftrightarrow> (\<forall>e t. s = c_minus # e # t \<longrightarrow> e = c_rbracket)"

lemma read_single:
  "c \<noteq> c_rbracket \<or> first \<Longrightarrow> no_range s \<Longrightarrow>
     read_members first (c # s) = map_option (apfst (Cons (c, c))) (read_members False s)"
  by (cases s; cases "tl s") (auto simp: no_range_def)

lemma read_range:
  assumes "clean r" "no_range s"
  shows "read_members first (render_range r @ s) =
    map_option (apfst (Cons r)) (read_members False s)"
proof (cases "fst r = snd r")
  case True
  with assms show ?thesis
    using read_single [of "fst r" first s]
    by (cases r) (auto simp: render_range_def clean_def range_ok_def push_char_def char_from_u32_def
        positional_def)
next
  case False
  with assms show ?thesis
    by (cases r) (auto simp: render_range_def clean_def range_ok_def push_char_def
        char_from_u32_def positional_def)
qed

lemma no_range_render:
  "clean r \<Longrightarrow> no_range (render_range r @ s)"
  by (cases r) (auto simp: no_range_def render_range_def clean_def range_ok_def push_char_def
      char_from_u32_def positional_def)

lemma no_range_ranges:
  "\<forall>r\<in>set rs. clean r \<Longrightarrow> no_range s \<Longrightarrow> no_range (concat (map render_range rs) @ s)"
  by (cases rs) (auto simp: no_range_render)

lemma read_ranges:
  "\<forall>r\<in>set rs. clean r \<Longrightarrow> no_range s \<Longrightarrow> rs \<noteq> [] \<or> \<not> first \<Longrightarrow>
     read_members first (concat (map render_range rs) @ s) =
       map_option (apfst ((@) rs)) (read_members False s)"
proof (induction rs arbitrary: first)
  case Nil
  then show ?case by (cases "read_members False s") auto
next
  case (Cons r rs)
  then have "read_members first (concat (map render_range (r # rs)) @ s) =
      map_option (apfst (Cons r)) (read_members False (concat (map render_range rs) @ s))"
    using read_range [of r "concat (map render_range rs) @ s" first] no_range_ranges [of rs s]
    by simp
  also have "\<dots> = map_option (apfst ((@) (r # rs))) (read_members False s)"
    using Cons by (cases "read_members False s") auto
  finally show ?case .
qed

definition tail_specials :: "uchar set \<Rightarrow> rstr" where
  "tail_specials sp = filter (\<lambda>c. c \<in> sp) [c_bang, c_caret, c_minus]"

lemma no_range_tail: "no_range (tail_specials sp @ c_rbracket # s)"
  by (auto simp: tail_specials_def no_range_def)

lemma read_tail:
  "read_members False (tail_specials sp @ c_rbracket # s) =
     Some (map (\<lambda>c. (c, c)) (tail_specials sp), s)"
  by (auto simp: tail_specials_def split: list.split)

lemma covers_singles [simp]: "covers (map (\<lambda>c. (c, c)) cs) c \<longleftrightarrow> c \<in> set cs"
  by (auto simp: covers_def)

lemma specials_split:
  "sp \<subseteq> set positional \<Longrightarrow>
     c \<in> set (if c_rbracket \<in> sp then [c_rbracket] else []) \<or> c \<in> set (tail_specials sp) \<longleftrightarrow> c \<in> sp"
  by (auto simp: tail_specials_def positional_def)

lemma read_bracket_body:
  assumes "\<not> negated \<longrightarrow> t \<noteq> [] \<and> hd t \<noteq> c_bang \<and> hd t \<noteq> c_caret"
    and "read_members True t = Some (ms, rest)"
  shows "read_bracket ([c_lbracket] @ (if negated then [c_bang] else []) @ t) =
    Some (negated, ms, rest)"
  using assms by (simp add: read_bracket_def strip_prefix_def)

lemma hd_render_range: "clean r \<Longrightarrow> hd (render_range r @ s) = fst r"
  by (simp add: render_range_def clean_def range_ok_def push_char_def char_from_u32_def)

text \<open>A rendered bracket reads back as its ranges with the characters that keep their place apart.\<close>

definition read_back :: "bool \<Rightarrow> ranges \<Rightarrow> ranges" where
  "read_back negated rs =
     (let st = render_set negated rs; sp = set (filter (covers st) positional) in
      map (\<lambda>c. (c, c)) (if c_rbracket \<in> sp then [c_rbracket] else []) @ render_plain st @ map (\<lambda>c. (c, c)) (tail_specials sp))"

lemma read_render:
  assumes "\<forall>r\<in>set rs. range_ok r"
  shows "read_bracket (render negated rs @ rest) = Some (negated, read_back negated rs, rest)"
proof -
  let ?st = "render_set negated rs"
  define sp where "sp = set (filter (covers ?st) positional)"
  define lead where "lead = (if c_rbracket \<in> sp then [c_rbracket] else [])"
  define plain where "plain = render_plain ?st"
  define tail where "tail = tail_specials sp @ c_rbracket # rest"
  have "\<forall>r\<in>set (without_char rs c_slash). range_ok r \<and> fst r \<le> snd r"
    by (rule range_ok_without [OF _ assms]) simp
  moreover have "range_ok (c_slash, c_slash)" by (simp add: range_ok_def is_scalar_def)
  ultimately have ok: "\<forall>r\<in>set ?st. range_ok r \<and> fst r \<le> snd r"
    by (simp add: render_set_def ball_Un)
  have clean: "\<forall>r\<in>set plain. clean r" unfolding plain_def by (rule clean_render_plain [OF ok])
  have r: "render negated rs @ rest = [c_lbracket] @ (if negated then [c_bang] else []) @ lead @
      concat (map render_range plain) @ tail"
    by (simp add: render_def Let_def tail_specials_def sp_def lead_def plain_def tail_def)
  have ne: "plain \<noteq> []" if "c_rbracket \<notin> sp"
    using that by (auto simp: render_plain_def Let_def plain_def sp_def)
  have no_range: "no_range (concat (map render_range plain) @ tail)"
    unfolding tail_def by (rule no_range_ranges [OF clean no_range_tail])
  have rest: "read_members f (concat (map render_range plain) @ tail) =
      Some (plain @ map (\<lambda>c. (c, c)) (tail_specials sp), rest)" if "plain \<noteq> [] \<or> \<not> f" for f
    unfolding tail_def by (subst read_ranges [OF clean no_range_tail that]) (simp add: read_tail)
  have ms: "read_back negated rs = map (\<lambda>c. (c, c)) lead @ plain @ map (\<lambda>c. (c, c)) (tail_specials sp)"
    by (simp add: read_back_def Let_def sp_def lead_def plain_def)
  have body: "read_members True (lead @ concat (map render_range plain) @ tail) = Some (read_back negated rs, rest)"
    using read_single [of c_rbracket True, OF _ no_range] rest ne by (cases "c_rbracket \<in> sp") (simp_all add: lead_def ms)
  have "hd (lead @ concat (map render_range plain) @ tail) \<notin> {c_bang, c_caret}"
  proof (cases "c_rbracket \<in> sp")
    case False
    then obtain q qs where q: "plain = q # qs" using ne by (cases plain) auto
    then show ?thesis
      using hd_render_range [of q "concat (map render_range qs) @ tail"] False clean
      by (simp add: clean_def positional_def lead_def)
  qed (simp add: lead_def)
  moreover have "lead @ concat (map render_range plain) @ tail \<noteq> []" by (simp add: tail_def)
  ultimately show ?thesis unfolding r by (intro read_bracket_body [OF _ body]) blast
qed

lemma covers_read_back:
  assumes "c \<noteq> 0"
  shows "covers (read_back negated rs) c \<longleftrightarrow> covers (render_set negated rs) c"
proof -
  let ?st = "render_set negated rs"
  let ?sp = "set (filter (covers ?st) positional)"
  have "c \<in> ?sp \<longleftrightarrow> covers ?st c \<and> c \<in> set positional" "?sp \<subseteq> set positional" by auto
  then show ?thesis
    using covers_render_plain [OF assms, of ?st] specials_split [of ?sp c]
    unfolding read_back_def Let_def covers_simps(3) covers_singles by blast
qed

text \<open>C18: a rendered bracket reads back as exactly the set it was built from: for every
  character but NUL it matches the members of a positive bracket and the others of a negated
  one, and never the separator.\<close>

theorem render_matches:
  assumes "\<forall>r\<in>set rs. range_ok r" and "c \<noteq> 0"
  shows "\<exists>members. read_bracket (render negated rs @ rest) = Some (negated, members, rest) \<and>
    (covers members c \<noteq> negated \<longleftrightarrow> c \<noteq> c_slash \<and> (covers rs c \<noteq> negated))"
  using read_render [OF assms(1)] covers_read_back [OF assms(2), of negated rs]
  by (intro exI [of _ "read_back negated rs"]) (cases negated; simp only: covers_render_set; blast)


theorem render_matches_witness:
  "\<exists>members. read_bracket (render True [(48, 57)] @ []) = Some (True, members, []) \<and>
    (covers members 97 \<noteq> True \<longleftrightarrow> (97::nat) \<noteq> c_slash \<and> (covers [(48, 57)] 97 \<noteq> True))"
  by (rule render_matches) (simp_all add: range_ok_def is_scalar_def)

section \<open>Patterns with no POSIX element\<close>

fun plain_brackets :: "rstr \<Rightarrow> bool" where
  "plain_brackets (c # d # cs) =
     (\<not> (c = c_lbracket \<and> (d = c_colon \<or> d = c_dot \<or> d = c_equals)) \<and> plain_brackets (d # cs))"
| "plain_brackets _ = True"

lemma plain_brackets_tl: "plain_brackets (c # cs) \<Longrightarrow> plain_brackets cs"
  by (cases cs) auto

lemma plain_brackets_suffix: "suffix t s \<Longrightarrow> plain_brackets s \<Longrightarrow> plain_brackets t"
  by (induction s) (auto simp: suffix_Cons dest: plain_brackets_tl)

lemma plain_no_element:
  assumes "plain_brackets s"
  shows "class_at s = None" "symbol_at s = None" "equivalence_at s = None"
  using assms
  by (cases s rule: plain_brackets.cases;
      auto simp: class_at_def symbol_at_def equivalence_at_def strip_prefix_def)+

lemma member_at_plain:
  assumes "plain_brackets (c # cs)"
  shows "suffix (snd (member_at (c # cs) st)) cs"
    and "bs_rewrite (fst (member_at (c # cs) st)) = bs_rewrite st"
proof -
  have cs: "char_or_symbol (c # cs) st = (Some c, cs, st)"
    by (simp add: char_or_symbol_def plain_no_element [OF assms])
  have keep: "bs_rewrite (add_range a b st) = bs_rewrite st" for a b st
    by (auto simp: add_range_def add_ranges_def split: option.split)
  have "suffix (snd (range_from a (tl cs) st)) cs \<and> bs_rewrite (fst (range_from a (tl cs) st)) = bs_rewrite st"
    if "tl cs \<noteq> []" for a
  proof -
    have suf: "suffix (tl cs) cs" by simp
    then have "plain_brackets (tl cs)"
      using plain_brackets_suffix plain_brackets_tl [OF assms] by blast
    then show ?thesis
      using that suf suffix_order.trans [OF suffix_tl suf]
      by (simp add: range_from_def char_or_symbol_def plain_no_element keep)
  qed
  moreover have "tl cs \<noteq> []" if "get cs 1 \<noteq> None"
    using that by (cases cs) auto
  ultimately show "suffix (snd (member_at (c # cs) st)) cs"
    and "bs_rewrite (fst (member_at (c # cs) st)) = bs_rewrite st"
    by (simp_all add: member_at_def cs keep)
qed

lemma bracket_loop_plain:
  "plain_brackets s \<Longrightarrow> bracket_loop first s st = Some (st', rest) \<Longrightarrow>
     suffix rest s \<and> bs_rewrite st' = bs_rewrite st"
proof (induction first s st rule: bracket_loop.induct)
  case (2 first c cs st)
  show ?case
  proof (cases "c = c_rbracket \<and> \<not> first")
    case True
    with "2.prems" show ?thesis by (auto intro: suffix_ConsI)
  next
    case False
    note plain = plain_no_element [OF "2.prems"(1)] member_at_plain [OF "2.prems"(1), of st]
    have "plain_brackets (snd (member_at (c # cs) st))"
      using plain_brackets_suffix [OF plain(4)] plain_brackets_tl [OF "2.prems"(1)] by blast
    then have "suffix rest (snd (member_at (c # cs) st)) \<and> bs_rewrite st' = bs_rewrite st"
      using "2.IH"(1) [OF False plain(1,3)] "2.prems"(2) plain
      by (simp add: if_not_P [OF False])
    then show ?thesis using suffix_order.trans [OF _ plain(4)] by (auto intro: suffix_ConsI)
  qed
qed simp

lemma bracket_plain:
  assumes "plain_brackets s" "bracket s = Some (r, rest)"
  shows "r = None \<and> suffix rest s"
proof -
  have "plain_brackets (tl s)" using assms(1) plain_brackets_suffix [OF suffix_tl] by blast
  then show ?thesis
    using assms suffix_order.trans [OF _ suffix_tl]
    by (auto simp: bracket_def Let_def dest!: bracket_loop_plain split: if_splits)
qed

text \<open>A pattern holding no \<open>[:\<close>, \<open>[.\<close> or \<open>[=\<close> comes out exactly as it was written.\<close>

theorem expand_posix_classes_plain:
  "plain_brackets pattern \<Longrightarrow> expand_posix_classes pattern = pattern"
proof (induction pattern rule: expand_posix_classes.induct)
  case (2 c cs)
  have tl: "plain_brackets cs" by (rule plain_brackets_tl [OF "2.prems"])
  show ?case
  proof (cases "c = c_lbracket")
    case True
    show ?thesis
    proof (cases "bracket cs")
      case None
      with True "2.IH" tl show ?thesis by simp
    next
      case (Some p)
      obtain r rest where p: "p = (r, rest)" by (cases p)
      with bracket_plain [OF tl] Some have r: "r = None" and suf: "suffix rest cs" by auto
      then obtain u where u: "cs = u @ rest" by (auto simp: suffix_def)
      have "expand_posix_classes rest = rest"
        using "2.IH"(3) True Some p r plain_brackets_suffix [OF suf tl] by simp
      with True Some p r u show ?thesis by simp
    qed
  next
    case False
    have "plain_brackets (drop 1 cs)"
      using plain_brackets_suffix [OF suffix_drop tl] .
    with False "2.IH" tl show ?thesis by (cases cs) (auto simp: take_Cons')
  qed
qed simp

theorem expand_posix_classes_plain_witness:
  "expand_posix_classes (ascii ''a[!b-d]*'') = ascii ''a[!b-d]*''"
  by (rule expand_posix_classes_plain) simp

end
