(* ===== verification/Row_Value.thy ===== *)
theory Row_Value
  imports Prelude "HOL-Library.Word"
begin

unbundle bit_operations_syntax

text \<open>
  The values a row holds: \<open>Value\<close> of \<open>packages/rust/src/db.rs\<close>, the JSON values a parser
  prints and \<open>json_to_value\<close> of \<open>lib.rs\<close>.

  An \<open>f64\<close> is its 64 bits, with the equality Rust's \<open>PartialEq\<close> gives it: NaN equals
  nothing and the two zeros are equal. A row is a \<open>HashMap<String, Value>\<close>, modelled by its
  entries in column order, which none of the modelled code can tell from another order. An
  \<open>i64\<close> is an \<open>int\<close>; nothing here computes with it.
\<close>

section \<open>Floating point as bits\<close>

type_synonym f64 = "64 word"

definition f64_magnitude :: "f64 \<Rightarrow> f64" where
  "f64_magnitude x = x AND 0x7FFFFFFFFFFFFFFF"

definition f64_is_nan :: "f64 \<Rightarrow> bool" where
  "f64_is_nan x \<longleftrightarrow> 0x7FF0000000000000 < f64_magnitude x"

definition f64_is_zero :: "f64 \<Rightarrow> bool" where
  "f64_is_zero x \<longleftrightarrow> f64_magnitude x = 0"

definition f64_eq :: "f64 \<Rightarrow> f64 \<Rightarrow> bool" where
  "f64_eq x y \<longleftrightarrow>
     \<not> f64_is_nan x \<and> \<not> f64_is_nan y \<and> (x = y \<or> (f64_is_zero x \<and> f64_is_zero y))"

definition f64_nan :: f64 where
  "f64_nan = 0x7FF8000000000000"

lemma f64_is_nan_nan [simp]: "f64_is_nan f64_nan"
  by (simp add: f64_is_nan_def f64_magnitude_def f64_nan_def)

lemma f64_zero_not_nan: "f64_is_zero x \<Longrightarrow> \<not> f64_is_nan x"
  by (simp add: f64_is_zero_def f64_is_nan_def)

lemma f64_eq_sym: "f64_eq x y \<Longrightarrow> f64_eq y x"
  by (auto simp: f64_eq_def)

section \<open>Values and rows\<close>

datatype sql_value = Null | Integer int | Real f64 | Text rstr | Blob "8 word list"

type_synonym row = "(rstr \<times> sql_value) list"

fun value_eq :: "sql_value \<Rightarrow> sql_value \<Rightarrow> bool" where
  "value_eq Null Null = True"
| "value_eq (Integer i) (Integer j) = (i = j)"
| "value_eq (Real x) (Real y) = f64_eq x y"
| "value_eq (Text s) (Text t) = (s = t)"
| "value_eq (Blob a) (Blob b) = (a = b)"
| "value_eq _ _ = False"

definition row_eq :: "row \<Rightarrow> row \<Rightarrow> bool" where
  "row_eq r s \<longleftrightarrow> list_all2 (\<lambda>a b. fst a = fst b \<and> value_eq (snd a) (snd b)) r s"

section \<open>JSON\<close>

text \<open>
  A JSON value as the code tells it apart: a number \<open>as_i64\<close> accepts, any other number as
  the \<open>f64\<close> that \<open>as_f64\<close> gives, and a nested array or object as its JSON text.
\<close>

datatype json =
  JNull | JBool bool | JInt int | JFloat f64 | JString rstr | JNested rstr

fun json_to_value :: "json \<Rightarrow> sql_value" where
  "json_to_value JNull = Null"
| "json_to_value (JBool b) = Integer (if b then 1 else 0)"
| "json_to_value (JInt i) = Integer i"
| "json_to_value (JFloat x) = Real x"
| "json_to_value (JString s) = Text s"
| "json_to_value (JNested s) = Text s"

section \<open>Values up to the sign of zero\<close>

text \<open>
  What a value says once the two zeros are identified and the payload of a NaN dropped: rows
  that compare equal say the same.
\<close>

fun norm_value :: "sql_value \<Rightarrow> sql_value" where
  "norm_value (Real x) =
     Real (if f64_is_nan x then f64_nan else if f64_is_zero x then 0 else x)"
| "norm_value v = v"

definition norm_row :: "row \<Rightarrow> row" where
  "norm_row r = map (apsnd norm_value) r"

lemma value_eq_norm: "value_eq v w \<Longrightarrow> norm_value v = norm_value w"
  by (induction v w rule: value_eq.induct) (auto simp: f64_eq_def)

lemma row_eq_norm: "row_eq r s \<Longrightarrow> norm_row r = norm_row s"
  unfolding row_eq_def norm_row_def
  by (induction rule: list_all2_induct) (auto simp: value_eq_norm intro: prod_eqI)

end
