(* ===== verification/Differ.thy ===== *)
theory Differ
  imports Row_Value "HOL-Library.Multiset"
begin

text \<open>
  \<open>packages/rust/src/differ.rs\<close>: the row events that turn the old rows of a file or a table
  into the new ones. The locale \<open>row_differ\<close> is what a subscriber of the event stream relies
  on: replaying the events on the bag of old rows gives the bag of new rows, whatever the
  sequence of snapshots. Bags are taken up to the sign of a zero and the payload of a NaN
  (\<open>norm_row\<close>), since rows differing in those alone compare equal and produce no event.
\<close>

section \<open>Events and the operations\<close>

datatype row_event =
  Insert rstr row rstr
| Update rstr row row rstr
| Delete rstr row rstr
| Error "rstr option" rstr rstr

definition full_replace :: "rstr \<Rightarrow> row list \<Rightarrow> row list \<Rightarrow> rstr \<Rightarrow> row_event list" where
  "full_replace table old_rows new_rows path =
     map (\<lambda>r. Delete table r path) old_rows @ map (\<lambda>r. Insert table r path) new_rows"

text \<open>The comparison loops over the overlap, row by row.\<close>

definition changed_rows :: "row list \<Rightarrow> row list \<Rightarrow> nat" where
  "changed_rows old_rows new_rows =
     length (filter (\<lambda>(r, s). \<not> row_eq r s) (zip old_rows new_rows))"

definition row_updates :: "rstr \<Rightarrow> rstr \<Rightarrow> (row \<times> row) list \<Rightarrow> row_event list" where
  "row_updates table path pairs =
     map (\<lambda>(r, s). Update table r s path) (filter (\<lambda>(r, s). \<not> row_eq r s) pairs)"

definition diff_rows :: "rstr \<Rightarrow> row list \<Rightarrow> row list \<Rightarrow> rstr \<Rightarrow> row_event list" where
  "diff_rows table old_rows new_rows path =
     (if length new_rows < length old_rows then full_replace table old_rows new_rows path
      else (let overlap = length old_rows; changed = changed_rows old_rows new_rows in
        if 1 < overlap \<and> overlap < changed * 2 then full_replace table old_rows new_rows path
        else row_updates table path (zip old_rows new_rows) @
          map (\<lambda>r. Insert table r path) (drop overlap new_rows)))"

definition diff ::
  "rstr \<Rightarrow> row list option \<Rightarrow> row list option \<Rightarrow> rstr \<Rightarrow> row_event list" where
  "diff table old new path =
     (case (old, new) of
        (None, None) \<Rightarrow> []
      | (None, Some new_rows) \<Rightarrow> map (\<lambda>r. Insert table r path) new_rows
      | (Some old_rows, None) \<Rightarrow> map (\<lambda>r. Delete table r path) old_rows
      | (Some old_rows, Some new_rows) \<Rightarrow> diff_rows table old_rows new_rows path)"

text \<open>
  \<open>row_key\<close> prints the columns in name order with \<open>Debug\<close>, which spells every value apart
  from every other except that each NaN prints as \<open>NaN\<close>. The key is the row with its NaNs
  made one.
\<close>

fun debug_value :: "sql_value \<Rightarrow> sql_value" where
  "debug_value (Real x) = Real (if f64_is_nan x then f64_nan else x)"
| "debug_value v = v"

definition row_key :: "row \<Rightarrow> row" where
  "row_key r = map (apsnd debug_value) r"

type_synonym pool = "row \<rightharpoonup> nat"

fun fill_pool :: "row list \<Rightarrow> pool \<Rightarrow> pool" where
  "fill_pool [] pool = pool"
| "fill_pool (r # rs) pool =
     fill_pool rs (pool(row_key r \<mapsto>
       (case pool (row_key r) of None \<Rightarrow> 0 | Some n \<Rightarrow> n) + 1))"

fun match_new :: "row list \<Rightarrow> pool \<Rightarrow> row list \<times> pool" where
  "match_new [] pool = ([], pool)"
| "match_new (r # rs) pool =
     (case pool (row_key r) of
        Some n \<Rightarrow>
          if 0 < n then match_new rs (pool(row_key r \<mapsto> n - 1))
          else apfst (Cons r) (match_new rs pool)
      | None \<Rightarrow> apfst (Cons r) (match_new rs pool))"

text \<open>\<open>None\<close> is the panic of \<open>expect("every old row was keyed")\<close>.\<close>

fun left_old :: "row list \<Rightarrow> pool \<Rightarrow> row list option" where
  "left_old [] pool = Some []"
| "left_old (r # rs) pool =
     (case pool (row_key r) of
        None \<Rightarrow> None
      | Some left \<Rightarrow>
          if 0 < left then map_option (Cons r) (left_old rs (pool(row_key r \<mapsto> left - 1)))
          else left_old rs pool)"

definition diff_unordered ::
  "rstr \<Rightarrow> row list \<Rightarrow> row list \<Rightarrow> rstr \<Rightarrow> row_event list option" where
  "diff_unordered table old new path =
     (case match_new new (fill_pool old Map.empty) of (unmatched_new, pool) \<Rightarrow>
        map_option
          (\<lambda>unmatched_old.
             let paired = min (length unmatched_old) (length unmatched_new) in
             map (\<lambda>r. Delete table r path) (drop paired unmatched_old) @
             map (\<lambda>(r, s). Update table r s path) (zip unmatched_old unmatched_new) @
             map (\<lambda>r. Insert table r path) (drop paired unmatched_new))
          (left_old old pool))"

definition diff_keyed ::
  "rstr \<Rightarrow> row list \<Rightarrow> (row \<times> row) list \<Rightarrow> row list \<Rightarrow> rstr \<Rightarrow> row_event list" where
  "diff_keyed table removed updated added path =
     map (\<lambda>r. Delete table r path) removed @
     map (\<lambda>(r, s). Update table r s path) updated @
     map (\<lambda>r. Insert table r path) added"

section \<open>Replaying events\<close>

text \<open>
  A bag holds the rows as \<open>say\<close> reads them: \<open>norm_row\<close> for rows told apart by
  \<open>PartialEq\<close>, \<open>row_key\<close> for rows told apart by their key.
\<close>

type_synonym bag = "row multiset"

definition bag :: "(row \<Rightarrow> row) \<Rightarrow> row list \<Rightarrow> bag" where
  "bag say rows = mset (map say rows)"

fun replay1 :: "(row \<Rightarrow> row) \<Rightarrow> row_event \<Rightarrow> bag \<Rightarrow> bag option" where
  "replay1 say (Insert t r p) M = Some (add_mset (say r) M)"
| "replay1 say (Delete t r p) M = (if say r \<in># M then Some (M - {#say r#}) else None)"
| "replay1 say (Update t r s p) M =
     (if say r \<in># M then Some (add_mset (say s) (M - {#say r#})) else None)"
| "replay1 say (Error t p e) M = Some M"

fun replay :: "(row \<Rightarrow> row) \<Rightarrow> row_event list \<Rightarrow> bag \<Rightarrow> bag option" where
  "replay say [] M = Some M"
| "replay say (e # es) M = Option.bind (replay1 say e M) (replay say es)"

lemma bag_simps [simp]:
  "bag say [] = {#}" "bag say (r # rs) = add_mset (say r) (bag say rs)"
  "bag say (rs @ ss) = bag say rs + bag say ss"
  by (simp_all add: bag_def)

lemma size_bag [simp]: "size (bag say rs) = length rs"
  by (simp add: bag_def)

lemma replay_append: "replay say (es @ fs) M = Option.bind (replay say es M) (replay say fs)"
  by (induction es arbitrary: M) (auto split: bind_splits)

lemma replay_inserts: "replay say (map (\<lambda>r. Insert t r p) rs) M = Some (M + bag say rs)"
  by (induction rs arbitrary: M) auto

lemma replay_deletes: "replay say (map (\<lambda>r. Delete t r p) rs) (M + bag say rs) = Some M"
  by (induction rs arbitrary: M) auto

lemma replay_updates:
  "replay say (map (\<lambda>(r, s). Update t r s p) ps) (M + bag say (map fst ps)) =
     Some (M + bag say (map snd ps))"
proof (induction ps arbitrary: M)
  case (Cons q ps)
  from Cons [of "add_mset (say (snd q)) M"] show ?case by (cases q) simp
qed simp

lemmas replay_simps = replay_append replay_inserts replay_deletes replay_updates

text \<open>No shorter list of events does the work: each one removes and adds one row at most.\<close>

lemma replay1_distance:
  "replay1 say e M = Some M' \<Longrightarrow> size (M - N) \<le> Suc (size (M' - N)) \<and> size (N - M) \<le> Suc (size (N - M'))"
proof -
  have step: "size (M - N) \<le> Suc (size (M - {#a#} - N))"
    "size (N - (M - {#a#})) \<le> Suc (size (N - M))"
    "size (add_mset a M - N) \<le> Suc (size (M - N))" "size (M - N) \<le> size (add_mset a M - N)"
    "size (N - M) \<le> Suc (size (N - add_mset a M))" "size (N - M) \<le> size (N - (M - {#a#}))"
    for a :: row and M N
  proof -
    have "M - N \<subseteq># add_mset a (M - {#a#} - N)" by (auto simp: subseteq_mset_def)
    from size_mset_mono [OF this] show "size (M - N) \<le> Suc (size (M - {#a#} - N))" by simp
    have "N - (M - {#a#}) \<subseteq># add_mset a (N - M)" by (auto simp: subseteq_mset_def)
    from size_mset_mono [OF this] show "size (N - (M - {#a#})) \<le> Suc (size (N - M))" by simp
    have "add_mset a M - N \<subseteq># add_mset a (M - N)" by (auto simp: subseteq_mset_def)
    from size_mset_mono [OF this] show "size (add_mset a M - N) \<le> Suc (size (M - N))" by simp
    have "M - N \<subseteq># add_mset a M - N" by (auto simp: subseteq_mset_def)
    from size_mset_mono [OF this] show "size (M - N) \<le> size (add_mset a M - N)" .
    have "N - M \<subseteq># add_mset a (N - add_mset a M)" by (auto simp: subseteq_mset_def)
    from size_mset_mono [OF this] show "size (N - M) \<le> Suc (size (N - add_mset a M))" by simp
    have "N - M \<subseteq># N - (M - {#a#})" by (auto simp: subseteq_mset_def)
    from size_mset_mono [OF this] show "size (N - M) \<le> size (N - (M - {#a#}))" .
  qed
  assume r: "replay1 say e M = Some M'"
  show ?thesis
  proof (cases e)
    case (Insert t r p)
    then show ?thesis using r step(4) [of M N "say r"] step(5) [of N M "say r"] by auto
  next
    case (Delete t r p)
    then show ?thesis using r step(1) [of M N "say r"] step(6) [of N M "say r"]
      by (auto split: if_splits)
  next
    case (Update t r s p)
    let ?M = "M - {#say r#}"
    have "M' = add_mset (say s) ?M" using r Update by (simp split: if_splits)
    then show ?thesis
      using step(1) [of M N "say r"] step(6) [of N M "say r"] step(4) [of ?M N "say s"]
        step(5) [of N ?M "say s"] by simp
  qed (use r in auto)
qed

lemma replay_distance:
  "replay say es M = Some N \<Longrightarrow> size (M - N) \<le> length es \<and> size (N - M) \<le> length es"
proof (induction es arbitrary: M)
  case (Cons e es)
  then obtain M' where m: "replay1 say e M = Some M'" "replay say es M' = Some N"
    by (auto split: bind_splits)
  from Cons.IH [OF m(2)] replay1_distance [OF m(1), of N] show ?case by simp
qed simp

text \<open>The events a watcher emits as a table goes through a sequence of snapshots.\<close>

fun stream ::
  "(row list \<Rightarrow> row list \<Rightarrow> row_event list) \<Rightarrow> row list \<Rightarrow> row list list \<Rightarrow> row_event list"
where
  "stream delta s [] = []"
| "stream delta s (t # ts) = delta s t @ stream delta t ts"

locale row_differ =
  fixes say :: "row \<Rightarrow> row" and delta :: "row list \<Rightarrow> row list \<Rightarrow> row_event list"
  assumes replay_delta: "replay say (delta old new) (bag say old) = Some (bag say new)"
begin

lemma replay_stream: "replay say (stream delta s ts) (bag say s) = Some (bag say (last (s # ts)))"
  by (induction ts arbitrary: s) (simp_all add: replay_append replay_delta)

lemma delta_lower_bound:
  "size (bag say old - bag say new) \<le> length (delta old new)"
  "size (bag say new - bag say old) \<le> length (delta old new)"
  using replay_distance [OF replay_delta] by auto

lemma no_events_same_bag: "delta old new = [] \<Longrightarrow> bag say old = bag say new"
  using replay_delta [of old new] by simp

end

section \<open>Positional diff\<close>

lemma replay_row_updates:
  "replay norm_row (row_updates t p ps) (M + bag norm_row (map fst ps)) =
     Some (M + bag norm_row (map snd ps))"
proof (induction ps arbitrary: M)
  case (Cons q ps)
  obtain a b where q: "q = (a, b)" by (cases q)
  from Cons [of "add_mset (norm_row b) M"] row_eq_norm [of a b] show ?case
    by (cases "row_eq a b") (simp_all add: q row_updates_def)
qed (simp add: row_updates_def)

lemma replay_full_replace: "replay say (full_replace t old new p) (bag say old) = Some (bag say new)"
  using replay_deletes [of say t p old "{#}"] by (simp add: full_replace_def replay_simps)

lemma replay_diff_rows:
  "replay norm_row (diff_rows t old new p) (bag norm_row old) = Some (bag norm_row new)"
proof (cases "length new < length old")
  case True
  then show ?thesis by (simp add: diff_rows_def replay_full_replace)
next
  case False
  have "replay norm_row (row_updates t p (zip old new)) (bag norm_row old) =
      Some (bag norm_row (take (length old) new))"
    using replay_row_updates [of t p "zip old new" "{#}"] False
    by (simp add: map_fst_zip_take map_snd_zip_take)
  moreover have "bag norm_row (take (length old) new) + bag norm_row (drop (length old) new) =
      bag norm_row new"
    by (metis append_take_drop_id bag_simps(3))
  ultimately show ?thesis
    using False by (simp add: diff_rows_def Let_def replay_full_replace replay_simps)
qed

interpretation positional: row_differ norm_row "\<lambda>old new. diff t (Some old) (Some new) p" for t p
  by unfold_locales (simp add: diff_def replay_diff_rows)

lemma row_updates_Nil_iff: "row_updates t p ps = [] \<longleftrightarrow> list_all (\<lambda>(r, s). row_eq r s) ps"
  by (auto simp: row_updates_def filter_empty_conv list_all_iff)

lemma changed_rows_pos: "0 < changed_rows old new \<longleftrightarrow> \<not> list_all (\<lambda>(r, s). row_eq r s) (zip old new)"
  by (auto simp: changed_rows_def filter_empty_conv list_all_iff)

lemma list_all2_via_zip: "list_all2 P xs ys \<longleftrightarrow> length xs = length ys \<and> list_all (\<lambda>(x, y). P x y) (zip xs ys)"
  by (simp add: list_all2_iff list_all_iff)

lemma diff_rows_Nil_iff: "diff_rows t old new p = [] \<longleftrightarrow> list_all2 row_eq old new"
proof (cases "length new < length old \<or> (1 < length old \<and> length old < changed_rows old new * 2)")
  case True
  then have "diff_rows t old new p \<noteq> []" by (auto simp: diff_rows_def full_replace_def Let_def)
  moreover have "\<not> list_all2 row_eq old new"
    using True changed_rows_pos [of old new] by (auto simp: list_all2_via_zip)
  ultimately show ?thesis by simp
next
  case False
  then show ?thesis
    by (auto simp: diff_rows_def Let_def row_updates_Nil_iff list_all2_via_zip)
qed

section \<open>Unordered diff\<close>

abbreviation "keys \<equiv> bag row_key"

text \<open>A pool stands for the multiset of keys it still holds.\<close>

definition pool_holds :: "pool \<Rightarrow> row multiset \<Rightarrow> bool" where
  "pool_holds pool M \<longleftrightarrow> (\<forall>k. count M k = (case pool k of None \<Rightarrow> 0 | Some n \<Rightarrow> n))"

lemma pool_holds_fill: "pool_holds pool M \<Longrightarrow> pool_holds (fill_pool rs pool) (M + keys rs)"
proof (induction rs arbitrary: pool M)
  case (Cons r rs)
  have "pool_holds (pool(row_key r \<mapsto> (case pool (row_key r) of None \<Rightarrow> 0 | Some n \<Rightarrow> n) + 1))
      (add_mset (row_key r) M)"
    using Cons.prems by (auto simp: pool_holds_def)
  from Cons.IH [OF this] show ?case by (simp del: fun_upd_apply)
qed simp

lemma dom_fill: "dom (fill_pool rs pool) = dom pool \<union> row_key ` set rs"
  by (induction rs arbitrary: pool) auto

lemma match_new_spec:
  "pool_holds pool M \<Longrightarrow> match_new rs pool = (un, pool') \<Longrightarrow>
     keys un = keys rs - M \<and> pool_holds pool' (M - keys rs) \<and> dom pool' = dom pool"
proof (induction rs arbitrary: pool M un)
  case (Cons r rs)
  let ?k = "row_key r"
  show ?case
  proof (cases "?k \<in># M")
    case True
    then have "0 < count M ?k" by simp
    then obtain n where n: "pool ?k = Some n" "0 < n" "count M ?k = n"
      using Cons.prems(1) by (auto simp: pool_holds_def simp del: count_greater_zero_iff
          split: option.splits)
    have holds: "pool_holds (pool(?k \<mapsto> n - 1)) (M - {#?k#})"
      using Cons.prems(1) n by (auto simp: pool_holds_def)
    have "match_new rs (pool(?k \<mapsto> n - 1)) = (un, pool')" using Cons.prems(2) n by simp
    note ih = Cons.IH [OF holds this]
    have "dom (pool(?k \<mapsto> n - 1)) = dom pool" using n(1) by auto
    moreover obtain M' where "M = add_mset ?k M'" using True by (rule mset_add)
    ultimately show ?thesis using ih by (simp del: dom_fun_upd fun_upd_apply)
  next
    case False
    then have "pool ?k = None \<or> pool ?k = Some 0"
      using Cons.prems(1) by (auto simp: pool_holds_def not_in_iff split: option.splits)
    then obtain un' where m: "match_new rs pool = (un', pool')" "un = r # un'"
      using Cons.prems(2) by (cases "match_new rs pool") auto
    have "M - add_mset ?k (keys rs) = M - keys rs"
      using False by (intro multiset_eqI) (auto simp: not_in_iff)
    moreover have "add_mset ?k (keys rs) - M = add_mset ?k (keys rs - M)"
      using False by (simp add: add_mset_diff_bothsides)
    ultimately show ?thesis
      using Cons.IH [OF Cons.prems(1) m(1)] m(2) by simp
  qed
qed auto

lemma left_old_spec:
  assumes "pool_holds pool M" "row_key ` set rs \<subseteq> dom pool"
  shows "\<exists>un. left_old rs pool = Some un \<and> keys un = keys rs \<inter># M"
  using assms
proof (induction rs arbitrary: pool M)
  case (Cons r rs)
  let ?k = "row_key r"
  obtain n where n: "pool ?k = Some n" "count M ?k = n"
    using Cons.prems by (auto simp: pool_holds_def split: option.splits)
  show ?case
  proof (cases "0 < n")
    case True
    have "pool_holds (pool(?k \<mapsto> n - 1)) (M - {#?k#})"
      using Cons.prems(1) n by (auto simp: pool_holds_def)
    moreover have "row_key ` set rs \<subseteq> dom (pool(?k \<mapsto> n - 1))" using Cons.prems(2) by auto
    ultimately obtain un where un: "left_old rs (pool(?k \<mapsto> n - 1)) = Some un"
      "keys un = keys rs \<inter># (M - {#?k#})" using Cons.IH by blast
    have "?k \<in># M" using True n(2) by (metis count_greater_zero_iff)
    then obtain M' where "M = add_mset ?k M'" by (rule mset_add)
    then have "keys (r # un) = keys (r # rs) \<inter># M"
      using un(2) by simp
    with un(1) n(1) True show ?thesis by auto
  next
    case False
    obtain un where "left_old rs pool = Some un" "keys un = keys rs \<inter># M"
      using Cons.IH [OF Cons.prems(1)] Cons.prems(2) by auto
    moreover have "?k \<notin># M" using False n(2) by (simp add: not_in_iff)
    ultimately show ?thesis using n(1) False by (simp add: inter_add_left1)
  qed
qed simp

definition unordered_events ::
  "rstr \<Rightarrow> rstr \<Rightarrow> row list \<Rightarrow> row list \<Rightarrow> row_event list" where
  "unordered_events t p un_old un_new =
     (let paired = min (length un_old) (length un_new) in
      map (\<lambda>r. Delete t r p) (drop paired un_old) @
      map (\<lambda>(r, s). Update t r s p) (zip un_old un_new) @
      map (\<lambda>r. Insert t r p) (drop paired un_new))"

text \<open>
  The two lists the function leaves unmatched are exactly the keys the other side lacks, and
  the lookup the source unwraps always succeeds.
\<close>

lemma diff_unordered_split:
  "\<exists>un_old un_new. diff_unordered t old new p = Some (unordered_events t p un_old un_new) \<and>
     keys un_old = keys old - keys new \<and> keys un_new = keys new - keys old"
proof -
  obtain un_new pool where m: "match_new new (fill_pool old Map.empty) = (un_new, pool)"
    by fastforce
  have "pool_holds Map.empty {#}" by (simp add: pool_holds_def)
  from pool_holds_fill [OF this, of old] have "pool_holds (fill_pool old Map.empty) (keys old)"
    by simp
  note new = match_new_spec [OF this m]
  have "row_key ` set old \<subseteq> dom pool" using new dom_fill [of old Map.empty] by simp
  then obtain un_old where old: "left_old old pool = Some un_old"
    "keys un_old = keys old \<inter># (keys old - keys new)"
    using left_old_spec new by metis
  have "keys old \<inter># (keys old - keys new) = keys old - keys new"
    by (simp add: subset_mset.inf_absorb2)
  then show ?thesis
    using m old new by (auto simp: diff_unordered_def unordered_events_def Let_def)
qed

lemma replay_unordered_events:
  "replay say (unordered_events t p un_old un_new) (M + bag say un_old) = Some (M + bag say un_new)"
proof -
  let ?k = "min (length un_old) (length un_new)"
  have old: "bag say un_old = bag say (take ?k un_old) + bag say (drop ?k un_old)"
    and new: "bag say un_new = bag say (take ?k un_new) + bag say (drop ?k un_new)"
    by (metis append_take_drop_id bag_simps(3))+
  have "map fst (zip un_old un_new) = take ?k un_old" "map snd (zip un_old un_new) = take ?k un_new"
    by (simp_all add: map_fst_zip_take map_snd_zip_take min.commute)
  then show ?thesis
    using replay_deletes [of say t p "drop ?k un_old" "M + bag say (take ?k un_old)"]
      replay_updates [of say t p "zip un_old un_new" M]
      replay_inserts [of say t p "drop ?k un_new" "M + bag say (take ?k un_new)"]
    unfolding unordered_events_def Let_def replay_append old new
    by (simp add: ac_simps)
qed

lemma replay_diff_unordered:
  "replay row_key (the (diff_unordered t old new p)) (keys old) = Some (keys new)"
proof -
  obtain un_old un_new where u:
    "diff_unordered t old new p = Some (unordered_events t p un_old un_new)"
    "keys un_old = keys old - keys new" "keys un_new = keys new - keys old"
    using diff_unordered_split by blast
  have "keys old = keys old \<inter># keys new + keys un_old" "keys new = keys old \<inter># keys new + keys un_new"
    unfolding u by (auto simp: multiset_eq_iff min_def)
  with replay_unordered_events [of row_key t p un_old un_new "keys old \<inter># keys new"] u(1)
  show ?thesis by simp
qed

interpretation unordered: row_differ row_key "\<lambda>old new. the (diff_unordered t old new p)" for t p
  by unfold_locales (rule replay_diff_unordered)

lemma diff_unordered_length:
  "length (the (diff_unordered t old new p)) = max (size (keys old - keys new)) (size (keys new - keys old))"
proof -
  obtain un_old un_new where u:
    "diff_unordered t old new p = Some (unordered_events t p un_old un_new)"
    "keys un_old = keys old - keys new" "keys un_new = keys new - keys old"
    using diff_unordered_split by blast
  have "length (unordered_events t p un_old un_new) = max (length un_old) (length un_new)"
    by (auto simp: unordered_events_def Let_def)
  then show ?thesis using u(1) u(2,3) [symmetric] by simp
qed

text \<open>How many rows a consumer holds after a number of events.\<close>

fun grows :: "row_event \<Rightarrow> int" where
  "grows (Insert t r p) = 1"
| "grows (Delete t r p) = -1"
| "grows (Update t r s p) = 0"
| "grows (Error t p e) = 0"

lemma replay1_size: "replay1 say e M = Some M' \<Longrightarrow> int (size M') = int (size M) + grows e"
  by (cases e) (auto simp: size_Suc_Diff1 split: if_splits dest!: multi_member_split)

lemma replay_size: "replay say es M = Some N \<Longrightarrow> int (size N) = int (size M) + sum_list (map grows es)"
  by (induction es arbitrary: M) (auto dest!: replay1_size split: bind_splits)

lemma grows_deletes_first:
  assumes "\<forall>e\<in>set ds. grows e = -1" "\<forall>e\<in>set us. grows e = 0" "\<forall>e\<in>set ins. grows e = 1"
  shows "sum_list (map grows (take k (ds @ us @ ins))) \<le>
     max 0 (sum_list (map grows (ds @ us @ ins)))"
proof -
  have sd: "sum_list (map grows (take j ds)) = - int (min j (length ds))" for j
    using assms(1)
  proof (induction ds arbitrary: j)
    case (Cons d ds) then show ?case by (cases j) auto
  qed simp
  have su: "sum_list (map grows (take j us)) = 0" for j
    using assms(2)
  proof (induction us arbitrary: j)
    case (Cons d ds) then show ?case by (cases j) auto
  qed simp
  have si: "sum_list (map grows (take j ins)) = int (min j (length ins))" for j
    using assms(3)
  proof (induction ins arbitrary: j)
    case (Cons d ds) then show ?case by (cases j) auto
  qed simp
  show ?thesis
    using sd [of k] sd [of "length ds"] su [of "k - length ds"] su [of "length us"]
      si [of "k - length ds - length us"] si [of "length ins"]
    by simp
qed

lemma replay_prefix: "replay say es M = Some N \<Longrightarrow> \<exists>N'. replay say (take k es) M = Some N'"
  by (metis append_take_drop_id bind_eq_None_conv option.distinct(1) option.exhaust replay_append)

section \<open>What the events promise\<close>

text \<open>C8: a subscriber that replays the events \<open>diff\<close> emits as a file goes through any
  sequence of contents holds, at the end, the rows of the last content (as a bag, rows that
  compare equal being the same row), whether the diff replaced the file's rows, updated them in
  place or appended; every delete and update finds its row.\<close>

theorem diff_stream_replays:
  "replay norm_row (stream (\<lambda>old new. diff table (Some old) (Some new) path) s ts) (bag norm_row s) =
     Some (bag norm_row (last (s # ts)))"
  by (rule positional.replay_stream)

text \<open>\<open>diff\<close> of two contents is silent exactly when the contents have the same number of
  rows and agree row by row: no change is lost, and an unchanged file emits nothing, on the
  full-replace path too.\<close>

theorem diff_silent_iff_unchanged:
  "diff table (Some old) (Some new) path = [] \<longleftrightarrow> list_all2 row_eq old new"
  by (simp add: diff_def diff_rows_Nil_iff)

text \<open>C7: \<open>diff_unordered\<close> never reaches the panic of its second pool lookup, its events turn
  the old bag of rows into the new one, and no list of events that does so is shorter; a
  reordering of the same rows is no event.\<close>

theorem diff_unordered_shortest:
  "\<exists>es. diff_unordered table old new path = Some es \<and>
     replay row_key es (bag row_key old) = Some (bag row_key new) \<and>
     (\<nexists>fs. length fs < length es \<and>
        replay row_key fs (bag row_key old) = Some (bag row_key new))"
proof -
  obtain es where es: "diff_unordered table old new path = Some es"
    using diff_unordered_split by blast
  have "length es = max (size (bag row_key old - bag row_key new)) (size (bag row_key new - bag row_key old))"
    using diff_unordered_length [of table old new path] es by simp
  then show ?thesis
    using es replay_diff_unordered [of table old new path] replay_distance by fastforce
qed

text \<open>Deletes come first: at every point of the event list of \<open>diff_unordered\<close> a replaying
  consumer holds no more rows than the larger of the two snapshots.\<close>

theorem diff_unordered_bounded:
  "\<exists>es. diff_unordered table old new path = Some es \<and>
     (\<forall>k. \<exists>M. replay row_key (take k es) (bag row_key old) = Some M \<and>
        size M \<le> max (length old) (length new))"
proof -
  obtain un_old un_new where es:
    "diff_unordered table old new path = Some (unordered_events table path un_old un_new)"
    using diff_unordered_split by blast
  let ?es = "unordered_events table path un_old un_new"
  have r: "replay row_key ?es (bag row_key old) = Some (bag row_key new)"
    using replay_diff_unordered [of table old new path] es by simp
  have "\<exists>M. replay row_key (take k ?es) (bag row_key old) = Some M \<and>
      size M \<le> max (length old) (length new)" for k
  proof -
    obtain M where M: "replay row_key (take k ?es) (bag row_key old) = Some M"
      using replay_prefix [OF r] by blast
    have "sum_list (map grows (take k ?es)) \<le> max 0 (sum_list (map grows ?es))"
      unfolding unordered_events_def Let_def by (rule grows_deletes_first) auto
    then show ?thesis using M replay_size [OF M] replay_size [OF r] by auto
  qed
  then show ?thesis using es by blast
qed

text \<open>The two diffs disagree on the sign of a zero: rows that compare equal, as 0.0 and
  -0.0 do, have different keys, so \<open>diff_unordered\<close> emits an update where \<open>diff\<close> is silent.\<close>

theorem row_key_splits_zeros:
  "let old = [(ascii ''x'', Real 0)]; new = [(ascii ''x'', Real 0x8000000000000000)] in
     row_eq old new \<and>
     diff table (Some [old]) (Some [new]) path = [] \<and>
     diff_unordered table [old] [new] path = Some [Update table old new path]"
  by (simp add: row_eq_def row_key_def f64_eq_def f64_is_nan_def f64_is_zero_def f64_magnitude_def
      diff_def diff_rows_def changed_rows_def row_updates_def diff_unordered_def Let_def)

end
