(* ===== verification/Freshness.thy ===== *)
theory Freshness
  imports Prelude "HOL-Library.Word"
begin

text \<open>
  \<open>packages/rust/src/freshness.rs\<close>: whether a query must read a file again. The second half
  is the protocol one entry of the index goes through (\<open>DirSQL::reconcile\<close> and \<open>seed\<close> of
  \<open>lib.rs\<close>) while other processes write, replace, remove and relink the file, as a step
  relation. Hooks may fail at a query, and a build may take rows from the cache on disk. The
  kernel's clock enters through the guard of the steps only: a write stamps a change time that
  lags the clock by at most \<open>settle_ns\<close>.

  Times are nanoseconds in an \<open>i64\<close>, modelled by \<open>int\<close> with the saturation written out.
\<close>

section \<open>The functions\<close>

definition i64_min :: int where "i64_min = - (2 ^ 63)"
definition i64_max :: int where "i64_max = 2 ^ 63 - 1"

definition saturate :: "int \<Rightarrow> int" where
  "saturate i = max i64_min (min i64_max i)"

definition settle_ns :: int where
  "settle_ns = 2000000000"

record fingerprint =
  fp_dev :: "64 word"
  fp_ino :: "64 word"
  fp_size :: "64 word"
  fp_mtime_ns :: int
  fp_ctime_ns :: "int option"

datatype known = Built | Read "fingerprint option" bool

definition changed_before :: "fingerprint \<Rightarrow> int \<Rightarrow> bool" where
  "changed_before fp start_ns =
     (case fp_ctime_ns fp of None \<Rightarrow> False | Some ctime \<Rightarrow> ctime < saturate (start_ns - settle_ns))"

fun must_read :: "known option \<Rightarrow> fingerprint option \<Rightarrow> int \<Rightarrow> bool" where
  "must_read None now built_ns = True"
| "must_read (Some k) None built_ns = True"
| "must_read (Some Built) (Some now) built_ns = (\<not> changed_before now built_ns)"
| "must_read (Some (Read fp settled)) (Some now) built_ns = (\<not> settled \<or> fp \<noteq> Some now)"

definition after_read :: "fingerprint option \<Rightarrow> int \<Rightarrow> known" where
  "after_read fp start_ns =
     Read fp (case fp of None \<Rightarrow> False | Some f \<Rightarrow> changed_before f start_ns)"

definition adopted :: "known option \<Rightarrow> fingerprint option \<Rightarrow> int \<Rightarrow> known option" where
  "adopted k now built_ns = (if k = Some Built then Some (after_read now built_ns) else None)"

text \<open>\<open>fingerprint\<close> on Unix: the stat of the file, its times as nanoseconds.\<close>

definition unix_ns :: "int \<Rightarrow> int \<Rightarrow> int" where
  "unix_ns secs nanos = saturate (saturate (secs * 1000000000) + nanos)"

record unix_stat =
  st_dev :: "64 word"
  st_ino :: "64 word"
  st_size :: "64 word"
  st_mtime :: int
  st_mtime_nsec :: int
  st_ctime :: int
  st_ctime_nsec :: int

definition fingerprint_unix :: "unix_stat \<Rightarrow> fingerprint" where
  "fingerprint_unix meta =
     \<lparr>fp_dev = st_dev meta, fp_ino = st_ino meta, fp_size = st_size meta,
      fp_mtime_ns = unix_ns (st_mtime meta) (st_mtime_nsec meta),
      fp_ctime_ns = Some (unix_ns (st_ctime meta) (st_ctime_nsec meta))\<rparr>"

text \<open>
  On Windows the handle's information supplies the same fields, its times being ticks of
  100 ns since 1601 and a zero \<open>ChangeTime\<close> meaning that none is kept.
\<close>

definition windows_ns :: "int \<Rightarrow> int" where
  "windows_ns ticks = saturate (saturate (ticks - 116444736000000000) * 100)"

record windows_info =
  wi_volume_serial :: "32 word"
  wi_index_high :: "32 word"
  wi_index_low :: "32 word"
  wi_size_high :: "32 word"
  wi_size_low :: "32 word"
  wi_last_write :: int
  wi_change_time :: int

definition join_words :: "32 word \<Rightarrow> 32 word \<Rightarrow> 64 word" where
  "join_words hi lo = or (push_bit 32 (ucast hi)) (ucast lo)"

definition fingerprint_windows :: "windows_info \<Rightarrow> fingerprint" where
  "fingerprint_windows info =
     \<lparr>fp_dev = ucast (wi_volume_serial info),
      fp_ino = join_words (wi_index_high info) (wi_index_low info),
      fp_size = join_words (wi_size_high info) (wi_size_low info),
      fp_mtime_ns = windows_ns (wi_last_write info),
      fp_ctime_ns =
        (if wi_change_time info \<noteq> 0 then Some (windows_ns (wi_change_time info)) else None)\<rparr>"

definition fingerprint_other :: "64 word \<Rightarrow> fingerprint" where
  "fingerprint_other len =
     \<lparr>fp_dev = 0, fp_ino = 0, fp_size = len, fp_mtime_ns = 0, fp_ctime_ns = None\<rparr>"

section \<open>One entry of the index over time\<close>

text \<open>
  \<open>files\<close> are the files on disk by device and inode; \<open>target\<close> is the one the indexed path
  reaches. \<open>written\<close> is a ghost: when a file last changed. A query (or the build) that began
  at \<open>start\<close> and has read content \<open>c\<close> is \<open>reading = Some (start, Some c)\<close>. \<open>index\<close> is the
  entry's \<open>Known\<close> and the content its rows came from, \<open>None\<close> when it has no rows.

  Two ghosts record what the protocol cannot see. \<open>moved\<close>: since the file was read, the path was
  moved to a file that was already there (a symbolic link, or a directory above it). \<open>unsure\<close>: the
  rows of the entry are not those of a read it records, for one of three reasons: the path was moved
  while they were read or before the first query adopted them; a per-table hook failed at a query,
  which keeps the old rows but records the read; a build took rows from the cache that were not the
  file's.
\<close>

datatype ident = Ident (ident_dev: "64 word") (ident_ino: "64 word")

record disk_file =
  df_content :: rstr
  df_size :: "64 word"
  df_mtime :: int
  df_ctime :: "int option"

definition stat_of :: "ident \<Rightarrow> disk_file \<Rightarrow> fingerprint" where
  "stat_of i f =
     \<lparr>fp_dev = ident_dev i, fp_ino = ident_ino i, fp_size = df_size f, fp_mtime_ns = df_mtime f,
      fp_ctime_ns = df_ctime f\<rparr>"

record world =
  clock :: int
  files :: "ident \<rightharpoonup> disk_file"
  target :: "ident option"
  written :: "ident \<Rightarrow> int"
  built :: int
  reading :: "(int \<times> rstr option) option"
  index :: "(known \<times> rstr option) option"
  moved :: bool
  unsure :: bool

definition target_file :: "world \<Rightarrow> (ident \<times> disk_file) option" where
  "target_file w =
     (case target w of None \<Rightarrow> None | Some i \<Rightarrow> map_option (Pair i) (files w i))"

definition target_stat :: "world \<Rightarrow> fingerprint option" where
  "target_stat w = map_option (\<lambda>(i, f). stat_of i f) (target_file w)"

definition awaits_adoption :: "world \<Rightarrow> bool" where
  "awaits_adoption w \<longleftrightarrow> (case index w of Some (Built, c) \<Rightarrow> True | _ \<Rightarrow> False)"

definition rows_of :: "world \<Rightarrow> rstr option" where
  "rows_of w = (case index w of None \<Rightarrow> None | Some (k, c) \<Rightarrow> c)"

text \<open>
  \<open>reconcile\<close> after a per-table hook failed: \<open>refresh_table\<close> kept the rows, and every file of the
  table is recorded as read by the loop over \<open>rerun\<close>.
\<close>

definition table_failed :: "world \<Rightarrow> int \<Rightarrow> world" where
  "table_failed w start =
     w\<lparr>reading := None, index := Some (after_read (target_stat w) start, rows_of w), unsure := True\<rparr>"

text \<open>A change time the kernel may stamp on a write.\<close>

definition stamped :: "int \<Rightarrow> disk_file \<Rightarrow> bool" where
  "stamped time f =
     (case df_ctime f of None \<Rightarrow> True | Some t \<Rightarrow> time - settle_ns \<le> t \<and> i64_min \<le> t)"

text \<open>
  The build: \<open>finish_build\<close> stores the rows it read, \<open>trust_cache\<close> keeps the cached ones, which are
  the file's unless \<open>is_trusted\<close> erred (the subject of \<open>Cache_Trust\<close>). A query: \<open>adopt\<close> skips the
  read; \<open>finish_read\<close> stores the rows; \<open>fail_file\<close> is a per-file hook that fails, which rolls the
  query back; \<open>fail_table\<close> is a per-table hook that fails, which keeps the rows and records the read
  of every file of the table all the same; \<open>forget\<close> drops the entry of a file that is gone.
\<close>

inductive step :: "world \<Rightarrow> world \<Rightarrow> bool" where
  tick: "clock w \<le> t \<Longrightarrow> step w (w\<lparr>clock := t\<rparr>)"
| overwrite: "stamped (clock w) f \<Longrightarrow>
    step w (w\<lparr>files := (files w)(i \<mapsto> f), written := (written w)(i := clock w)\<rparr>)"
| replace: "stamped (clock w) f \<Longrightarrow>
    step w (w\<lparr>files := (files w)(i \<mapsto> f), written := (written w)(i := clock w), target := Some i\<rparr>)"
| unlink: "step w (w\<lparr>target := None\<rparr>)"
| relink: "step w (w\<lparr>target := i, moved := True, unsure := unsure w \<or> awaits_adoption w\<rparr>)"
| begin_query: "reading w = None \<Longrightarrow> step w (w\<lparr>reading := Some (clock w, None), moved := False\<rparr>)"
| scan: "reading w = Some (start, seen) \<Longrightarrow> target_file w = Some (i, f) \<Longrightarrow>
    step w (w\<lparr>reading := Some (start, Some (df_content f)), moved := False\<rparr>)"
| finish_build: "reading w = Some (start, Some c) \<Longrightarrow> index w = None \<Longrightarrow> start = built w \<Longrightarrow>
    step w (w\<lparr>reading := None, index := Some (Built, Some c), unsure := moved w\<rparr>)"
| trust_cache: "reading w = Some (start, seen) \<Longrightarrow> index w = None \<Longrightarrow> start = built w \<Longrightarrow>
    step w (w\<lparr>reading := None, index := Some (Built, Some c),
      unsure := map_option (df_content \<circ> snd) (target_file w) \<noteq> Some c\<rparr>)"
| finish_read: "reading w = Some (start, Some c) \<Longrightarrow>
    step w (w\<lparr>reading := None, index := Some (after_read (target_stat w) start, Some c), unsure := moved w\<rparr>)"
| fail_file: "reading w = Some (start, seen) \<Longrightarrow> step w (w\<lparr>reading := None\<rparr>)"
| fail_table: "reading w = Some (start, seen) \<Longrightarrow> step w (table_failed w start)"
| adopt: "reading w = Some (start, seen) \<Longrightarrow> index w = Some (k, c) \<Longrightarrow>
    \<not> must_read (Some k) (target_stat w) (built w) \<Longrightarrow>
    step w (w\<lparr>reading := None,
      index := Some (case adopted (Some k) (target_stat w) (built w) of None \<Rightarrow> k | Some k' \<Rightarrow> k', c)\<rparr>)"
| forget: "target w = None \<Longrightarrow> step w (w\<lparr>reading := None, index := None\<rparr>)"

inductive reachable :: "world \<Rightarrow> bool" where
  start: "files w = Map.empty \<Longrightarrow> index w = None \<Longrightarrow> reading w = None \<Longrightarrow> reachable w"
| more: "reachable w \<Longrightarrow> step w w' \<Longrightarrow> reachable w'"

text \<open>
  What every state keeps. A settled entry's stat is so old that any later write shows; the
  content read since \<open>start\<close> is the file's own unless the file changed since \<open>start\<close>.
\<close>

definition stamps_ok :: "world \<Rightarrow> bool" where
  "stamps_ok w \<longleftrightarrow> (\<forall>i f. files w i = Some f \<longrightarrow>
     written w i \<le> clock w \<and> stamped (written w i) f)"

definition fresh_since :: "world \<Rightarrow> int \<Rightarrow> rstr option \<Rightarrow> bool" where
  "fresh_since w start c \<longleftrightarrow> start \<le> clock w \<and>
     (\<forall>i f. target_file w = Some (i, f) \<longrightarrow> written w i < start \<longrightarrow> Some (df_content f) = c)"

definition settled_ok :: "world \<Rightarrow> fingerprint \<Rightarrow> rstr option \<Rightarrow> bool" where
  "settled_ok w fp c \<longleftrightarrow>
     (\<exists>t. fp_ctime_ns fp = Some t \<and> t < saturate (clock w - settle_ns)) \<and>
     (\<forall>i f. files w i = Some f \<longrightarrow> stat_of i f = fp \<longrightarrow> Some (df_content f) = c)"

fun entry_ok :: "world \<Rightarrow> known \<Rightarrow> rstr option \<Rightarrow> bool" where
  "entry_ok w Built c = fresh_since w (built w) c"
| "entry_ok w (Read fp settled) c = (settled \<longrightarrow> (\<exists>f. fp = Some f \<and> settled_ok w f c))"

definition reading_ok :: "world \<Rightarrow> bool" where
  "reading_ok w \<longleftrightarrow> (\<forall>start seen. reading w = Some (start, seen) \<longrightarrow> start \<le> clock w \<and>
     (\<not> moved w \<longrightarrow> (\<forall>c. seen = Some c \<longrightarrow> fresh_since w start (Some c))))"

definition world_ok :: "world \<Rightarrow> bool" where
  "world_ok w \<longleftrightarrow> stamps_ok w \<and> reading_ok w \<and>
     (\<not> unsure w \<longrightarrow> (\<forall>k c. index w = Some (k, c) \<longrightarrow> entry_ok w k c))"

lemmas world_defs = world_ok_def reading_ok_def stamps_ok_def

lemma target_file_Some [simp]:
  "target_file w = Some (i, f) \<longleftrightarrow> target w = Some i \<and> files w i = Some f"
  by (auto simp: target_file_def split: option.splits)

lemma target_stat_eq: "target w = Some i \<Longrightarrow> files w i = Some f \<Longrightarrow> target_stat w = Some (stat_of i f)"
  by (simp add: target_stat_def target_file_def)


lemma fresh_sinceI:
  "start \<le> clock w \<Longrightarrow>
   (\<And>i f. target w = Some i \<Longrightarrow> files w i = Some f \<Longrightarrow> written w i < start \<Longrightarrow> Some (df_content f) = c) \<Longrightarrow>
   fresh_since w start c"
  by (simp add: fresh_since_def)

lemma fresh_sinceD:
  "fresh_since w start c \<Longrightarrow> start \<le> clock w"
  "fresh_since w start c \<Longrightarrow> target w = Some i \<Longrightarrow> files w i = Some f \<Longrightarrow> written w i < start \<Longrightarrow>
   Some (df_content f) = c"
  by (simp_all add: fresh_since_def)

lemma stamps_okD:
  "stamps_ok w \<Longrightarrow> files w i = Some f \<Longrightarrow> stamped (written w i) f"
  "stamps_ok w \<Longrightarrow> files w i = Some f \<Longrightarrow> written w i \<le> clock w"
  by (simp_all add: stamps_ok_def)

lemma saturate_mono: "i \<le> j \<Longrightarrow> saturate i \<le> saturate j"
  by (auto simp: saturate_def)

lemma saturate_less: "t < saturate i \<Longrightarrow> i64_min \<le> t \<Longrightarrow> t < i"
  by (auto simp: saturate_def)

text \<open>A file whose change time is settled before \<open>start\<close> was not written since.\<close>

lemma changed_before_written:
  assumes "changed_before (stat_of i f) start" "stamped time f"
  shows "time < start"
  using assms saturate_less [of _ "start - settle_ns"]
  by (fastforce simp: changed_before_def stat_of_def stamped_def split: option.splits)

lemma changed_before_later:
  "changed_before fp start \<Longrightarrow> start \<le> now \<Longrightarrow> changed_before fp now"
  using saturate_mono [of "start - settle_ns" "now - settle_ns"]
  by (auto simp: changed_before_def split: option.splits)

lemma settled_ok_iff:
  "settled_ok w fp c \<longleftrightarrow> changed_before fp (clock w) \<and>
     (\<forall>i f. files w i = Some f \<longrightarrow> stat_of i f = fp \<longrightarrow> Some (df_content f) = c)"
  by (auto simp: settled_ok_def changed_before_def split: option.splits)

text \<open>A read that ends with a settled stat saw the file's final content.\<close>

lemma settled_after_read:
  assumes "fresh_since w start c" "stamps_ok w" "target_stat w = Some fp" "changed_before fp start"
  shows "settled_ok w fp c"
proof -
  obtain i f where t: "target_file w = Some (i, f)" and fp: "fp = stat_of i f"
    using assms(3) by (auto simp: target_stat_def)
  then have f: "files w i = Some f" by simp
  have "written w i < start"
    using changed_before_written [OF _ stamps_okD(1)] assms(2,4) f fp by blast
  then have c: "Some (df_content f) = c" using fresh_sinceD(2) [OF assms(1)] t by simp
  have "Some (df_content g) = c" if "files w j = Some g" "stat_of j g = fp" for j g
  proof -
    have "j = i" using that(2) by (auto simp: fp stat_of_def intro: ident.expand)
    with that(1) f c show ?thesis by simp
  qed
  then show ?thesis
    using assms(1,4) by (auto simp: settled_ok_iff intro: changed_before_later fresh_sinceD)
qed

lemma written_settled_ok:
  assumes "settled_ok w fp c" "stamped (clock w) f" "files w' = (files w)(i \<mapsto> f)" "clock w' = clock w"
  shows "settled_ok w' fp c"
proof -
  have "stat_of i f \<noteq> fp"
    using assms(1,2) changed_before_written [of i f "clock w" "clock w"]
    by (auto simp: settled_ok_iff)
  then show ?thesis using assms by (auto simp: settled_ok_iff)
qed

lemma entry_ok_written:
  assumes "entry_ok w k c" "stamped (clock w) f" "files w' = (files w)(i \<mapsto> f)"
    "clock w' = clock w" "built w' = built w" "\<And>s c. fresh_since w s c \<Longrightarrow> fresh_since w' s c"
  shows "entry_ok w' k c"
proof (cases k)
  case Built
  then show ?thesis using assms(1) assms(5) assms(6) [of "built w" c] by simp
next
  case (Read fp s)
  then show ?thesis using assms(1) written_settled_ok [OF _ assms(2-4)] by auto
qed

lemma fresh_since_written:
  assumes "fresh_since w s c" "files w' = (files w)(i \<mapsto> f)"
    "written w' = (written w)(i := clock w)" "clock w' = clock w" "target w' = target w \<or> target w' = Some i"
  shows "fresh_since w' s c"
proof (rule fresh_sinceI)
  show "s \<le> clock w'" using assms(4) fresh_sinceD(1) [OF assms(1)] by simp
  fix j g
  assume g: "target w' = Some j" "files w' j = Some g" "written w' j < s"
  have "j \<noteq> i" using g(3) assms(3,4) fresh_sinceD(1) [OF assms(1)] by auto
  then show "Some (df_content g) = c"
    using fresh_sinceD(2) [OF assms(1), of j g] g assms(2,3,5) by auto
qed

lemma world_ok_written:
  assumes "world_ok w" "stamped (clock w) f" "files w' = (files w)(i \<mapsto> f)"
    "written w' = (written w)(i := clock w)" "clock w' = clock w" "built w' = built w"
    "reading w' = reading w" "index w' = index w" "target w' = target w \<or> target w' = Some i"
    "moved w' = moved w" "unsure w' = unsure w"
  shows "world_ok w'"
proof -
  have ok: "stamps_ok w" "reading_ok w" "\<And>k c. \<not> unsure w \<Longrightarrow> index w = Some (k, c) \<Longrightarrow> entry_ok w k c"
    using assms(1) by (auto simp: world_ok_def)
  note fresh = fresh_since_written [OF _ assms(3-5,9)]
  have "stamps_ok w'" using ok(1) assms(2-5) by (simp add: stamps_ok_def)
  moreover have "reading_ok w'"
    using ok(2) fresh unfolding reading_ok_def assms(5,7,10) by blast
  moreover have "entry_ok w' k c" if "\<not> unsure w'" "index w' = Some (k, c)" for k c
    using entry_ok_written [OF ok(3) assms(2,3,5,6) fresh] that assms(8,11) by simp
  ultimately show ?thesis by (simp add: world_ok_def)
qed

text \<open>Steps that leave the files alone.\<close>

lemma entry_ok_same_files:
  assumes "entry_ok w k c" "files w' = files w" "written w' = written w" "built w' = built w"
    "clock w \<le> clock w'" "target w' = target w \<or> target w' = None \<or> k \<noteq> Built"
  shows "entry_ok w' k c"
proof (cases k)
  case Built
  then show ?thesis
    using assms(1,5,6) fresh_sinceD [of w "built w" c]
    by (auto simp: assms(2,3,4) intro!: fresh_sinceI)
next
  case (Read fp s)
  then show ?thesis
    using assms(1,5) by (auto simp: settled_ok_iff assms(2) intro: changed_before_later)
qed

text \<open>Ending a reading one way or another: only the entry is left to check.\<close>

lemma world_ok_ended:
  assumes "stamps_ok w" "reading w' = None" "files w' = files w" "written w' = written w" "clock w' = clock w"
    "\<And>k c. \<not> unsure w' \<Longrightarrow> index w' = Some (k, c) \<Longrightarrow> entry_ok w' k c"
  shows "world_ok w'"
  using assms by (simp add: world_ok_def reading_ok_def stamps_ok_def)

lemma world_ok_step: "step w w' \<Longrightarrow> world_ok w \<Longrightarrow> world_ok w'"
proof (induction rule: step.induct)
  case (tick w t)
  have "entry_ok (w\<lparr>clock := t\<rparr>) k c" if "entry_ok w k c" for k c
    by (rule entry_ok_same_files [OF that]) (use tick.hyps in auto)
  with tick show ?case
    by (simp add: world_defs fresh_since_def) force
next
  case (overwrite w f i)
  show ?case by (rule world_ok_written [OF overwrite.prems overwrite.hyps, where i = i]) simp_all
next
  case (replace w f i)
  show ?case by (rule world_ok_written [OF replace.prems replace.hyps, where i = i]) simp_all
next
  case (unlink w)
  have "entry_ok (w\<lparr>target := None\<rparr>) k c" if "entry_ok w k c" for k c
    by (rule entry_ok_same_files [OF that]) auto
  with unlink show ?case by (auto simp: world_defs fresh_since_def)
next
  case (relink w i)
  have "entry_ok (w\<lparr>target := i, moved := True, unsure := unsure w\<rparr>) k c"
    if "\<not> awaits_adoption w" "index w = Some (k, c)" "entry_ok w k c" for k c
    by (rule entry_ok_same_files [OF that(3)]) (use that in \<open>auto simp: awaits_adoption_def\<close>)
  with relink show ?case by (cases "awaits_adoption w") (auto simp: world_defs)
next
  case (begin_query w)
  have "entry_ok (w\<lparr>reading := r, moved := m\<rparr>) k c" if "entry_ok w k c" for k c r m
    by (rule entry_ok_same_files [OF that]) auto
  with begin_query show ?case by (auto simp: world_defs)
next
  case (scan w start seen i f)
  have "entry_ok (w\<lparr>reading := r, moved := m\<rparr>) k c" if "entry_ok w k c" for k c r m
    by (rule entry_ok_same_files [OF that]) auto
  with scan show ?case by (auto simp: world_defs fresh_since_def)
next
  case (finish_build w start c)
  then have "\<not> moved w \<Longrightarrow> fresh_since w (built w) (Some c)" "stamps_ok w" by (auto simp: world_ok_def reading_ok_def)
  then show ?case by (auto simp: world_defs fresh_since_def)
next
  case (trust_cache w start seen c)
  then have "stamps_ok w" "built w \<le> clock w" by (auto simp: world_ok_def reading_ok_def)
  then show ?case by (auto simp: world_defs fresh_since_def)
next
  case (finish_read w start c)
  let ?k = "after_read (target_stat w) start" and ?w' = "w\<lparr>reading := None, index := Some (after_read (target_stat w) start, Some c),
    unsure := moved w\<rparr>"
  have ok: "\<not> moved w \<Longrightarrow> fresh_since w start (Some c)" "stamps_ok w"
    using finish_read by (auto simp: world_ok_def reading_ok_def)
  have "entry_ok w ?k (Some c)" if "\<not> moved w"
    using settled_after_read [OF ok(1)] ok(2) that by (auto simp: after_read_def split: option.splits)
  then have "entry_ok ?w' ?k (Some c)" if "\<not> moved w"
    using that by (intro entry_ok_same_files [of w ?k "Some c" ?w']) simp_all
  then show ?case by (intro world_ok_ended [OF ok(2)]) auto
next
  case (fail_file w start seen)
  have ok: "stamps_ok w" "\<And>k c. \<not> unsure w \<Longrightarrow> index w = Some (k, c) \<Longrightarrow> entry_ok w k c"
    using fail_file by (auto simp: world_ok_def)
  have "entry_ok (w\<lparr>reading := None\<rparr>) k c" if "entry_ok w k c" for k c
    by (rule entry_ok_same_files [OF that]) auto
  then show ?case by (intro world_ok_ended [OF ok(1)]) (auto intro: ok(2))
next
  case (fail_table w start seen)
  then show ?case by (intro world_ok_ended [of w]) (auto simp: world_ok_def table_failed_def)
next
  case (adopt w start seen k c)
  let ?k = "case adopted (Some k) (target_stat w) (built w) of None \<Rightarrow> k | Some k' \<Rightarrow> k'"
  let ?w' = "w\<lparr>reading := None, index := Some (?k, c)\<rparr>"
  have ok: "\<not> unsure w \<Longrightarrow> entry_ok w k c" "stamps_ok w"
    using adopt by (auto simp: world_ok_def)
  obtain fp where fp: "target_stat w = Some fp" using adopt.hyps(3) by (cases "target_stat w") auto
  have "entry_ok w ?k c" if "\<not> unsure w"
  proof (cases k)
    case Built
    then have "fresh_since w (built w) c" "changed_before fp (built w)"
      using ok(1) that adopt.hyps(3) fp by auto
    with settled_after_read [OF _ ok(2) fp] show ?thesis
      using Built fp by (simp add: adopted_def after_read_def)
  next
    case (Read f s)
    then show ?thesis using ok that by (simp add: adopted_def)
  qed
  then have "entry_ok ?w' ?k c" if "\<not> unsure w"
    using that by (intro entry_ok_same_files [of w ?k c ?w']) simp_all
  then show ?case by (intro world_ok_ended [OF ok(2)]) auto
next
  case (forget w)
  then show ?case by (simp add: world_defs)
qed

lemma reachable_ok: "reachable w \<Longrightarrow> world_ok w"
proof (induction rule: reachable.induct)
  case (start w)
  then show ?case by (simp add: world_defs)
next
  case (more w w')
  then show ?case by (blast intro: world_ok_step)
qed

section \<open>Properties\<close>

text \<open>C1: the freshness protocol never serves stale rows. In every state reached by any
  interleaving of writes, replacements, removals, relinkings and clock ticks with the build, the
  queries and their failures, if \<open>must_read\<close> says the file at the path need not be read, the rows
  the index holds came from the content the file has now. The rows must be those of a read the entry
  records (\<open>unsure\<close> is false): no per-table hook failed since (\<open>failed_hook_not_retried\<close> says what
  happens then), the path was not moved to another file that was already there while it was read or
  before the first query adopted the build's rows (\<open>relink_after_build_is_missed\<close>), and rows a build
  took from the cache were the file's. A write's change time lags the clock by at most
  \<open>settle_ns\<close>.\<close>

theorem skipped_read_is_current:
  assumes "reachable w" "\<not> unsure w" "target_file w = Some (i, f)" "index w = Some (k, c)"
    "\<not> must_read (Some k) (Some (stat_of i f)) (built w)"
  shows "c = Some (df_content f)"
proof -
  have ok: "stamps_ok w" "entry_ok w k c"
    using reachable_ok [OF assms(1)] assms(2,4) by (auto simp: world_ok_def)
  have f: "files w i = Some f" using assms(3) by simp
  show ?thesis
  proof (cases k)
    case Built
    have "written w i < built w"
      using assms(5) Built stamps_okD(1) [OF ok(1) f] by (intro changed_before_written [of i f]) auto
    then show ?thesis using ok(2) assms(3) Built by (auto simp: fresh_since_def)
  next
    case (Read fp settled)
    then show ?thesis using assms(5) ok(2) f by (auto simp: settled_ok_iff)
  qed
qed

text \<open>A quiet file stops being read: once a read began with the file's change time more
  than \<open>settle_ns\<close> in the past, an identical stat is never a reason to read it again, and a
  stat that differs in any field always is.\<close>

theorem settled_read_once:
  "fp_ctime_ns fp = Some t \<Longrightarrow> t < start - settle_ns \<Longrightarrow> i64_min \<le> t \<Longrightarrow> start \<le> i64_max \<Longrightarrow>
   must_read (Some (after_read (Some fp) start)) (Some now) built_ns \<longleftrightarrow> now \<noteq> fp"
  by (auto simp: after_read_def changed_before_def saturate_def settle_ns_def i64_min_def i64_max_def)

text \<open>Two files written at time 0; a build three seconds later indexes the first.\<close>

definition quiet_file :: disk_file where
  "quiet_file = \<lparr>df_content = [97], df_size = 1, df_mtime = 0, df_ctime = Some 0\<rparr>"

definition other_file :: disk_file where
  "other_file = \<lparr>df_content = [98], df_size = 1, df_mtime = 0, df_ctime = Some 0\<rparr>"

definition linked_world :: world where
  "linked_world =
     \<lparr>clock = 3000000000, files = [Ident 1 1 \<mapsto> quiet_file, Ident 1 2 \<mapsto> other_file],
      target = Some (Ident 1 1), written = (\<lambda>_. 0), built = 3000000000, reading = None,
      index = Some (Built, Some [97]), moved = False, unsure = False\<rparr>"

lemma stamped_demo: "stamped 0 other_file" "stamped 0 quiet_file"
  by (simp_all add: stamped_def other_file_def quiet_file_def settle_ns_def i64_min_def)

lemma settled_demo:
  "changed_before (stat_of (Ident 1 1) quiet_file) 3000000000"
  "changed_before (stat_of (Ident 1 2) other_file) 3000000000"
  by (simp_all add: stat_of_def other_file_def quiet_file_def changed_before_def saturate_def
      settle_ns_def i64_min_def i64_max_def)

lemma reachable_linked: "reachable linked_world"
proof -
  let ?start = "\<lparr>clock = 0, files = Map.empty, target = None, written = (\<lambda>_. 0),
    built = 3000000000, reading = None, index = None, moved = False, unsure = False\<rparr>"
  let ?files = "[Ident 1 1 \<mapsto> quiet_file, Ident 1 2 \<mapsto> other_file]"
  have 0: "reachable ?start" by (rule reachable.start) simp_all
  have 1: "reachable (?start\<lparr>files := [Ident 1 2 \<mapsto> other_file]\<rparr>)"
    using more [OF 0 step.overwrite [of ?start other_file "Ident 1 2"]] stamped_demo
    by (simp add: fun_upd_idem)
  have 2: "reachable (?start\<lparr>files := ?files, target := Some (Ident 1 1)\<rparr>)"
    using more [OF 1 step.replace [of _ quiet_file "Ident 1 1"]] stamped_demo
    by (simp add: fun_upd_idem fun_upd_twist)
  have 3: "reachable (linked_world\<lparr>index := None\<rparr>)"
    using more [OF 2 step.tick [of _ 3000000000]] by (simp add: linked_world_def)
  have 4: "reachable (linked_world\<lparr>index := None, reading := Some (3000000000, None)\<rparr>)"
    using more [OF 3 step.begin_query] by (simp add: linked_world_def)
  have 5: "reachable (linked_world\<lparr>index := None, reading := Some (3000000000, Some [97])\<rparr>)"
    using more [OF 4 step.scan [of _ 3000000000 None "Ident 1 1" quiet_file]]
    by (simp add: linked_world_def quiet_file_def)
  show ?thesis
    using more [OF 5 step.finish_build [of _ 3000000000 "[97]"]] by (simp add: linked_world_def)
qed

theorem skipped_read_is_current_witness: "Some [97] = Some (df_content quiet_file)"
  by (rule skipped_read_is_current [OF reachable_linked, of "Ident 1 1" _ Built])
     (simp_all add: linked_world_def settled_demo)

text \<open>A symbolic link moved to another, older file between the build and the first query goes
  unnoticed: a step from a reachable state leads to an entry \<open>must_read\<close> does not read again although
  its rows came from the other file.\<close>

theorem relink_after_build_is_missed:
  "\<exists>w i f c. reachable w \<and> index w = Some (Built, Some c) \<and> target_file w = Some (i, f) \<and>
     \<not> must_read (Some Built) (target_stat w) (built w) \<and> c \<noteq> df_content f"
proof (intro exI conjI)
  let ?w = "linked_world\<lparr>target := Some (Ident 1 2), moved := True, unsure := True\<rparr>"
  show "reachable ?w"
    using more [OF reachable_linked step.relink [of _ "Some (Ident 1 2)"]]
    by (simp add: linked_world_def awaits_adoption_def)
  show "index ?w = Some (Built, Some [97])" by (simp add: linked_world_def)
  show "target_file ?w = Some (Ident 1 2, other_file)" by (simp add: linked_world_def)
  then show "\<not> must_read (Some Built) (target_stat ?w) (built ?w)"
    using settled_demo(2) by (simp add: target_stat_eq linked_world_def)
  show "[97] \<noteq> df_content other_file" by (simp add: other_file_def)
qed









end
