(* ===== verification/Infer.thy ===== *)
theory Infer
  imports Row_Value Sql_Literal
begin

text \<open>
  \<open>packages/rust/src/infer.rs\<close>: the rows a command prints and the column list inferred from
  them. A \<open>JsonRow\<close> is its pairs in the order the parser printed them; sharing the keys
  (\<open>Keys::intern\<close>) does not change what a row holds and is left out. Parsing one line is
  serde_json's and is the parameter \<open>parse_row\<close>.
\<close>

section \<open>Types of values\<close>

datatype sql_type = Ty_Text | Ty_Integer | Ty_Real

fun as_str :: "sql_type \<Rightarrow> rstr" where
  "as_str Ty_Text = ascii ''TEXT''"
| "as_str Ty_Integer = ascii ''INTEGER''"
| "as_str Ty_Real = ascii ''REAL''"

record column =
  col_name :: rstr
  col_type :: sql_type

type_synonym json_row = "(rstr \<times> json) list"

definition json_row_get :: "json_row \<Rightarrow> rstr \<Rightarrow> json option" where
  "json_row_get row key = map_option snd (find (\<lambda>(k, v). k = key) row)"

datatype observed = Untyped | Typed sql_type | Conflict

fun value_type :: "json \<Rightarrow> sql_type option" where
  "value_type JNull = None"
| "value_type (JBool b) = Some Ty_Integer"
| "value_type (JInt i) = Some Ty_Integer"
| "value_type (JFloat x) = Some Ty_Real"
| "value_type (JString s) = Some Ty_Text"
| "value_type (JNested s) = Some Ty_Text"

definition observe :: "observed \<Rightarrow> json \<Rightarrow> observed" where
  "observe obs v =
     (case value_type v of
        None \<Rightarrow> obs
      | Some ty \<Rightarrow>
          (case obs of
             Untyped \<Rightarrow> Typed ty
           | Typed seen \<Rightarrow> if seen = ty then obs else Conflict
           | Conflict \<Rightarrow> Conflict))"

fun resolve :: "observed \<Rightarrow> sql_type" where
  "resolve (Typed ty) = ty"
| "resolve Untyped = Ty_Text"
| "resolve Conflict = Ty_Text"

section \<open>The column list\<close>

definition fold_key :: "rstr \<Rightarrow> rstr" where
  "fold_key k = map to_ascii_lowercase k"

text \<open>\<open>None\<close> is the panic of an index out of bounds.\<close>

record infer_state =
  is_columns :: "(rstr \<times> observed) list"
  is_by_spelling :: "rstr \<rightharpoonup> nat"
  is_by_folded :: "rstr \<rightharpoonup> nat"

definition column_index :: "rstr \<Rightarrow> infer_state \<Rightarrow> nat \<times> infer_state" where
  "column_index key st =
     (case is_by_spelling st key of
        Some i \<Rightarrow> (i, st)
      | None \<Rightarrow>
          (case is_by_folded st (fold_key key) of
             Some i \<Rightarrow> (i, st\<lparr>is_by_spelling := (is_by_spelling st)(key \<mapsto> i)\<rparr>)
           | None \<Rightarrow>
               (let i = length (is_columns st) in
                (i, st\<lparr>is_columns := is_columns st @ [(key, Untyped)],
                       is_by_folded := (is_by_folded st)(fold_key key \<mapsto> i),
                       is_by_spelling := (is_by_spelling st)(key \<mapsto> i)\<rparr>))))"

definition infer_pair :: "rstr \<times> json \<Rightarrow> infer_state \<Rightarrow> infer_state option" where
  "infer_pair p st =
     (case column_index (fst p) st of (i, st') \<Rightarrow>
        if i < length (is_columns st')
        then Some (st'\<lparr>is_columns :=
          (is_columns st')[i := apsnd (\<lambda>obs. observe obs (snd p)) (is_columns st' ! i)]\<rparr>)
        else None)"

fun infer_pairs :: "(rstr \<times> json) list \<Rightarrow> infer_state \<Rightarrow> infer_state option" where
  "infer_pairs [] st = Some st"
| "infer_pairs (p # ps) st = Option.bind (infer_pair p st) (infer_pairs ps)"

fun infer_rows :: "json_row list \<Rightarrow> infer_state \<Rightarrow> infer_state option" where
  "infer_rows [] st = Some st"
| "infer_rows (row # rows) st = Option.bind (infer_pairs row st) (infer_rows rows)"

definition infer_schema :: "json_row list \<Rightarrow> column list option" where
  "infer_schema rows =
     map_option
       (\<lambda>st. map (\<lambda>(name, obs). \<lparr>col_name = name, col_type = resolve obs\<rparr>) (is_columns st))
       (infer_rows rows \<lparr>is_columns = [], is_by_spelling = Map.empty, is_by_folded = Map.empty\<rparr>)"

definition cell :: "json_row \<Rightarrow> rstr \<Rightarrow> sql_value" where
  "cell row column =
     (case find (\<lambda>(key, v). eq_ignore_ascii_case key column) row of
        Some (key, v) \<Rightarrow> json_to_value v
      | None \<Rightarrow> Null)"

definition declared_schema :: "column list \<Rightarrow> rstr" where
  "declared_schema columns =
     ascii ''CREATE TABLE x('' @
     join (ascii '', '')
       (map (\<lambda>c. quote_identifier (col_name c) @ [c_space] @ as_str (col_type c)) columns) @
     ascii '')''"

section \<open>Parsing a command's output\<close>

text \<open>The code point unit a six-character escape at the head of the line names.\<close>

definition hex_digit_value :: "uchar \<Rightarrow> nat" where
  "hex_digit_value c = (if c < 58 then c - 48 else if c < 71 then c - 55 else c - 87)"

definition hex_value :: "rstr \<Rightarrow> nat" where
  "hex_value ds = foldl (\<lambda>n d. 16 * n + hex_digit_value d) 0 ds"

definition escape_unit :: "rstr \<Rightarrow> nat option" where
  "escape_unit s =
     (if 6 \<le> length s \<and> prefix [c_backslash, 117] s \<and>
         list_all is_ascii_hexdigit (take 4 (drop 2 s))
      then Some (hex_value (take 4 (drop 2 s))) else None)"

definition is_high :: "nat \<Rightarrow> bool" where "is_high u \<longleftrightarrow> 0xD800 \<le> u \<and> u \<le> 0xDBFF"
definition is_low :: "nat \<Rightarrow> bool" where "is_low u \<longleftrightarrow> 0xDC00 \<le> u \<and> u \<le> 0xDFFF"

definition paired :: "rstr \<Rightarrow> bool" where
  "paired s = (case escape_unit s of None \<Rightarrow> False | Some u \<Rightarrow> is_low u)"

function lone_surrogate :: "rstr \<Rightarrow> rstr option" where
  "lone_surrogate [] = None"
| "lone_surrogate (c # s) =
     (if c \<noteq> c_backslash then lone_surrogate s
      else case escape_unit (c # s) of
        None \<Rightarrow> lone_surrogate (drop 1 s)
      | Some u \<Rightarrow>
          if is_high u \<and> paired (drop 5 s) then lone_surrogate (drop 11 s)
          else if is_high u \<or> is_low u then Some (take 6 (c # s))
          else lone_surrogate (drop 5 s))"
  by pat_completeness auto
termination by (relation "measure length") auto

definition line_error :: "nat \<Rightarrow> rstr \<Rightarrow> rstr" where
  "line_error number text_after = ascii ''line '' @ show_nat number @ text_after"

text \<open>The loop over the lines, the first of which is line \<open>number\<close>.\<close>

fun parse_lines ::
  "(rstr \<Rightarrow> rstr + json_row) \<Rightarrow> nat \<Rightarrow> rstr list \<Rightarrow> rstr + json_row list"
where
  "parse_lines parse_row number [] = Inr []"
| "parse_lines parse_row number (l # ls) =
     (let line = trim l in
      if line = [] then parse_lines parse_row (Suc number) ls
      else if hd line = c_lbracket then
        Inl (line_error number (ascii '' is a JSON array; print one JSON object per line instead''))
      else (case parse_row line of
        Inl e \<Rightarrow>
          Inl (case lone_surrogate line of
                 Some escape \<Rightarrow> line_error number
                   (ascii '': lone surrogate '' @ escape @ ascii '' is not valid Unicode'')
               | None \<Rightarrow> line_error number (ascii '' is not a JSON object: '' @ e))
      | Inr row \<Rightarrow> map_sum id (Cons row) (parse_lines parse_row (Suc number) ls)))"

definition parse_rows_at ::
  "(rstr \<Rightarrow> rstr + json_row) \<Rightarrow> rstr \<Rightarrow> nat \<Rightarrow> rstr + json_row list"
where
  "parse_rows_at parse_row output skipped = parse_lines parse_row (skipped + 1) (str_lines output)"

definition parse_rows :: "(rstr \<Rightarrow> rstr + json_row) \<Rightarrow> rstr \<Rightarrow> rstr + json_row list" where
  "parse_rows parse_row output = parse_rows_at parse_row output 0"

section \<open>Reading the schema off all the pairs at once\<close>

text \<open>What the columns should be: the first spelling of each key up to case, in the order
  they appear, typed by all the values under it.\<close>

fun first_spellings :: "rstr list \<Rightarrow> rstr list \<Rightarrow> rstr list" where
  "first_spellings seen [] = []"
| "first_spellings seen (k # ks) =
     (if fold_key k \<in> set seen then first_spellings seen ks
      else k # first_spellings (fold_key k # seen) ks)"

definition values_under :: "rstr \<Rightarrow> (rstr \<times> json) list \<Rightarrow> json list" where
  "values_under k ps = map snd (filter (\<lambda>p. fold_key (fst p) = fold_key k) ps)"

definition types_under :: "rstr \<Rightarrow> (rstr \<times> json) list \<Rightarrow> sql_type list" where
  "types_under k ps = List.map_filter value_type (values_under k ps)"

definition agreed_type :: "sql_type list \<Rightarrow> sql_type" where
  "agreed_type tys = (case remdups tys of [ty] \<Rightarrow> ty | _ \<Rightarrow> Ty_Text)"

definition schema_of :: "(rstr \<times> json) list \<Rightarrow> column list" where
  "schema_of ps =
     map (\<lambda>k. \<lparr>col_name = k,
                col_type = agreed_type (types_under k ps)\<rparr>)
       (first_spellings [] (map fst ps))"

fun observed_of :: "sql_type list \<Rightarrow> observed" where
  "observed_of [] = Untyped"
| "observed_of (ty # tys) = (if list_all ((=) ty) tys then Typed ty else Conflict)"

lemma resolve_observed_of: "resolve (observed_of tys) = agreed_type tys"
proof (cases tys)
  case (Cons ty tys')
  show ?thesis
  proof (cases "list_all ((=) ty) tys'")
    case True
    then have "remdups (ty # tys') = [ty]"
    proof (induction tys')
      case (Cons u us) then show ?case by (cases us) (auto split: if_splits)
    qed simp
    with True Cons show ?thesis by (simp add: agreed_type_def)
  next
    case False
    have "remdups tys \<noteq> [u]" for u
    proof
      assume "remdups tys = [u]"
      then have "set tys = {u}" by (metis list.set(1,2) set_remdups)
      with False Cons show False by (auto simp: list_all_iff)
    qed
    then have "agreed_type tys = Ty_Text"
      unfolding agreed_type_def by (cases "remdups tys" rule: remdups_adj.cases) auto
    with False Cons show ?thesis by simp
  qed
qed (simp add: agreed_type_def)

lemma observe_observed_of:
  "observe (observed_of tys) v = observed_of (tys @ List.map_filter value_type [v])"
  by (cases tys; cases "value_type v")
     (auto simp: observe_def List.map_filter_def list_all_iff)

text \<open>What the loop's state holds after the pairs \<open>ps\<close>.\<close>

definition infer_inv :: "(rstr \<times> json) list \<Rightarrow> infer_state \<Rightarrow> bool" where
  "infer_inv ps st \<longleftrightarrow>
     is_columns st =
       map (\<lambda>k. (k, observed_of (types_under k ps)))
         (first_spellings [] (map fst ps)) \<and>
     (\<forall>f. is_by_folded st f =
        position (\<lambda>k. fold_key k = f) (first_spellings [] (map fst ps))) \<and>
     (\<forall>k i. is_by_spelling st k = Some i \<longrightarrow> is_by_folded st (fold_key k) = Some i)"

lemma first_spellings_append:
  "first_spellings seen (ks @ [k]) = first_spellings seen ks @
     (if fold_key k \<in> set seen \<union> fold_key ` set ks then [] else [k])"
  by (induction seen ks rule: first_spellings.induct) auto

lemma first_spellings_folds:
  "fold_key ` set (first_spellings seen ks) = fold_key ` set ks - set seen"
  by (induction seen ks rule: first_spellings.induct) auto

lemma first_spellings_distinct: "distinct (map fold_key (first_spellings seen ks))"
proof (induction seen ks rule: first_spellings.induct)
  case (2 seen k ks)
  then show ?case using first_spellings_folds [of "fold_key k # seen" ks] by auto
qed simp

lemma first_spellings_subset: "set (first_spellings seen ks) \<subseteq> set ks"
  by (induction seen ks rule: first_spellings.induct) auto

lemma position_append:
  "position P (xs @ ys) =
     (case position P xs of Some i \<Rightarrow> Some i | None \<Rightarrow> map_option ((+) (length xs)) (position P ys))"
  by (induction xs) (auto split: option.splits, (cases "position P ys"; simp)+)

lemma position_map: "position P (map f xs) = position (\<lambda>x. P (f x)) xs"
  by (induction xs) auto

lemma distinct_position:
  "distinct (map f xs) \<Longrightarrow> i < length xs \<Longrightarrow> position (\<lambda>x. f x = f (xs ! i)) xs = Some i"
proof (induction xs arbitrary: i)
  case (Cons x xs)
  then show ?case by (cases i) auto
qed simp

lemma types_under_snoc:
  "types_under k (ps @ [p]) =
     types_under k ps @
     (if fold_key (fst p) = fold_key k then List.map_filter value_type [snd p] else [])"
  by (simp add: types_under_def values_under_def List.map_filter_def)

text \<open>The observation of the column a pair belongs to moves on; the others stay.\<close>

lemma observe_update:
  fixes ps :: "(rstr \<times> json) list"
  defines "col \<equiv> \<lambda>ps k. (k, observed_of (types_under k ps))"
  assumes d: "distinct (map fold_key ks)" and i: "i < length ks" "fold_key (ks ! i) = fold_key (fst p)"
  shows "(map (col ps) ks)[i := apsnd (\<lambda>obs. observe obs (snd p)) (map (col ps) ks ! i)] =
    map (col (ps @ [p])) ks" (is "?l = ?r")
proof (rule nth_equalityI)
  show "length ?l = length ?r" by simp
  fix j assume "j < length ?l"
  then have j: "j < length ks" by simp
  have eq: "fold_key (ks ! j) = fold_key (fst p) \<longleftrightarrow> j = i"
    using d i j by (metis distinct_conv_nth length_map nth_map)
  show "?l ! j = ?r ! j"
  proof (cases "j = i")
    case True
    then show ?thesis
      using i by (simp add: col_def types_under_snoc observe_observed_of)
  next
    case False
    then have "fold_key (fst p) \<noteq> fold_key (ks ! j)" using eq by auto
    with False j show ?thesis by (simp add: col_def types_under_snoc)
  qed
qed

lemma types_under_fresh:
  "fold_key k \<notin> fold_key ` set (map fst ps) \<Longrightarrow> types_under k ps = []"
proof -
  assume "fold_key k \<notin> fold_key ` set (map fst ps)"
  then have "filter (\<lambda>p. fold_key (fst p) = fold_key k) ps = []"
    by (auto simp: filter_empty_conv image_iff)
  then show ?thesis by (simp add: types_under_def values_under_def)
qed

text \<open>The index the two maps agree on is the column of the key's first spelling.\<close>

lemma column_index_inv:
  assumes inv: "infer_inv ps st" and c: "column_index (fst p) st = (i, st')"
  defines "ks \<equiv> first_spellings [] (map fst (ps @ [p]))"
  shows "i < length ks" "fold_key (ks ! i) = fold_key (fst p)"
    "is_columns st' = map (\<lambda>k. (k, observed_of (types_under k ps))) ks"
    "\<And>f. is_by_folded st' f = position (\<lambda>k. fold_key k = f) ks"
    "\<And>k j. is_by_spelling st' k = Some j \<Longrightarrow> is_by_folded st' (fold_key k) = Some j"
proof -
  let ?ks = "first_spellings [] (map fst ps)"
  let ?f = "fold_key (fst p)"
  have ks: "ks = ?ks @ (if ?f \<in> fold_key ` set (map fst ps) then [] else [fst p])"
    by (simp add: ks_def first_spellings_append)
  have folds: "fold_key ` set ?ks = fold_key ` set (map fst ps)"
    by (simp add: first_spellings_folds)
  have inv': "is_columns st = map (\<lambda>k. (k, observed_of (types_under k ps))) ?ks"
    "\<And>f. is_by_folded st f = position (\<lambda>k. fold_key k = f) ?ks"
    "\<And>k j. is_by_spelling st k = Some j \<Longrightarrow> is_by_folded st (fold_key k) = Some j"
    using inv by (auto simp: infer_inv_def)
  have "i < length ks \<and> fold_key (ks ! i) = ?f \<and>
    is_columns st' = map (\<lambda>k. (k, observed_of (types_under k ps))) ks \<and>
    (\<forall>f. is_by_folded st' f = position (\<lambda>k. fold_key k = f) ks) \<and>
    (\<forall>k j. is_by_spelling st' k = Some j \<longrightarrow> is_by_folded st' (fold_key k) = Some j)"
  proof (cases "is_by_folded st ?f")
    case (Some j)
    have j: "j < length ?ks" "fold_key (?ks ! j) = ?f"
      using Some inv'(2) position_SomeD by fastforce+
    then have "?f \<in> fold_key ` set ?ks" by (metis image_eqI nth_mem)
    then have "ks = ?ks" by (simp add: ks folds)
    moreover have "i = j" "is_columns st' = is_columns st" "is_by_folded st' = is_by_folded st"
      "\<And>k j. is_by_spelling st' k = Some j \<Longrightarrow> is_by_folded st (fold_key k) = Some j"
      using c Some inv'(3) by (auto simp: column_index_def split: option.splits if_splits)
    ultimately show ?thesis using j inv'(1,2) by simp
  next
    case None
    have "?f \<notin> fold_key ` set ?ks" using None inv'(2) by (auto simp: position_None_iff)
    then have new: "?f \<notin> fold_key ` set (map fst ps)" unfolding folds .
    then have ks': "ks = ?ks @ [fst p]" using new by (simp only: ks if_False simp_thms)
    have unspelt: "is_by_spelling st k = None" if "fold_key k = ?f" for k
      using None inv'(3) [of k] that by (cases "is_by_spelling st k") auto
    then have st': "i = length ?ks"
      "st' = st\<lparr>is_columns := is_columns st @ [(fst p, Untyped)],
         is_by_folded := (is_by_folded st)(?f \<mapsto> i), is_by_spelling := (is_by_spelling st)(fst p \<mapsto> i)\<rparr>"
      using None c inv'(1) unspelt [OF refl] by (auto simp: column_index_def Let_def)
    have "position (\<lambda>k. fold_key k = f) ks = (if f = ?f then Some i else is_by_folded st f)" for f
      using None inv'(2) by (auto simp: ks' position_append st'(1) split: option.splits)
    then show ?thesis
      using inv'(1,3) None unspelt by (auto simp: st' ks' nth_append types_under_fresh [OF new])
  qed
  then show "i < length ks" "fold_key (ks ! i) = fold_key (fst p)"
    "is_columns st' = map (\<lambda>k. (k, observed_of (types_under k ps))) ks"
    "\<And>f. is_by_folded st' f = position (\<lambda>k. fold_key k = f) ks"
    "\<And>k j. is_by_spelling st' k = Some j \<Longrightarrow> is_by_folded st' (fold_key k) = Some j"
    by blast+
qed

lemma infer_pair_inv:
  assumes "infer_inv ps st"
  shows "\<exists>st'. infer_pair p st = Some st' \<and> infer_inv (ps @ [p]) st'"
proof -
  obtain i st1 where c: "column_index (fst p) st = (i, st1)" by fastforce
  note ci = column_index_inv [OF assms c]
  have "(is_columns st1)[i := apsnd (\<lambda>obs. observe obs (snd p)) (is_columns st1 ! i)] =
    map (\<lambda>k. (k, observed_of (types_under k (ps @ [p])))) (first_spellings [] (map fst (ps @ [p])))"
    unfolding ci(3) by (rule observe_update [OF first_spellings_distinct ci(1,2)])
  then show ?thesis
    using c ci(1) ci(4,5) by (simp add: infer_pair_def infer_inv_def ci(3))
qed

lemma infer_pairs_inv:
  "infer_inv ps st \<Longrightarrow> \<exists>st'. infer_pairs qs st = Some st' \<and> infer_inv (ps @ qs) st'"
proof (induction qs arbitrary: ps st)
  case (Cons q qs)
  obtain st1 where st1: "infer_pair q st = Some st1" "infer_inv (ps @ [q]) st1"
    using infer_pair_inv [OF Cons.prems] by blast
  from Cons.IH [OF st1(2)] st1(1) show ?case by simp
qed simp

lemma infer_rows_inv:
  "infer_inv ps st \<Longrightarrow> \<exists>st'. infer_rows rows st = Some st' \<and> infer_inv (ps @ concat rows) st'"
proof (induction rows arbitrary: ps st)
  case (Cons r rows)
  obtain st1 where st1: "infer_pairs r st = Some st1" "infer_inv (ps @ r) st1"
    using infer_pairs_inv [OF Cons.prems] by blast
  from Cons.IH [OF st1(2)] st1(1) show ?case by simp
qed simp

section \<open>Rows against the schema\<close>

text \<open>The storage class a value has under a declared type.\<close>

fun fits :: "sql_type \<Rightarrow> sql_value \<Rightarrow> bool" where
  "fits Ty_Text v = True"
| "fits Ty_Integer v = (case v of Null \<Rightarrow> True | Integer i \<Rightarrow> True | _ \<Rightarrow> False)"
| "fits Ty_Real v = (case v of Null \<Rightarrow> True | Real x \<Rightarrow> True | _ \<Rightarrow> False)"

lemma fits_Null [simp]: "fits ty Null"
  by (cases ty) auto

lemma value_type_fits: "value_type v = None \<or> value_type v = Some ty \<Longrightarrow> fits ty (json_to_value v)"
  by (cases v) auto

lemma agreed_type_member: "agreed_type tys \<noteq> Ty_Text \<Longrightarrow> ty \<in> set tys \<Longrightarrow> ty = agreed_type tys"
proof -
  assume a: "agreed_type tys \<noteq> Ty_Text" and ty: "ty \<in> set tys"
  obtain u where u: "remdups tys = [u]"
    using a unfolding agreed_type_def by (cases "remdups tys" rule: remdups_adj.cases) auto
  then have "set tys = {u}" by (metis list.set(1,2) set_remdups)
  with ty u show ?thesis by (simp add: agreed_type_def)
qed

lemma cell_fits:
  assumes "row \<in> set rows" "c \<in> set (schema_of (concat rows))"
  shows "fits (col_type c) (cell row (col_name c))"
proof (cases "find (\<lambda>(key, v). eq_ignore_ascii_case key (col_name c)) row")
  case (Some kv)
  obtain k v where kv: "kv = (k, v)" by (cases kv)
  have f: "fold_key k = fold_key (col_name c)" "(k, v) \<in> set row"
    using Some kv nth_mem by (fastforce simp: find_Some_iff eq_ignore_ascii_case_def fold_key_def)+
  then have v: "v \<in> set (values_under (col_name c) (concat rows))"
    using assms(1) by (force simp: values_under_def)
  have ty: "col_type c = agreed_type (types_under (col_name c) (concat rows))"
    using assms(2) by (auto simp: schema_of_def)
  show ?thesis
  proof (cases "value_type v")
    case (Some t)
    then have "t \<in> set (types_under (col_name c) (concat rows))"
      using v by (force simp: types_under_def List.map_filter_def)
    then have "col_type c = Ty_Text \<or> t = col_type c" using agreed_type_member ty by metis
    then show ?thesis
      using Some \<open>find _ _ = _\<close> kv value_type_fits [of v] by (auto simp: cell_def)
  next
    case None
    then show ?thesis using Some kv value_type_fits [of v] by (simp add: cell_def)
  qed
qed (simp add: cell_def)

lemma schema_names: "map col_name (schema_of ps) = first_spellings [] (map fst ps)"
  by (simp add: schema_of_def comp_def)

lemma every_key_has_a_column:
  "row \<in> set rows \<Longrightarrow> p \<in> set row \<Longrightarrow>
     fold_key (fst p) \<in> fold_key ` set (map col_name (schema_of (concat rows)))"
  by (force simp: schema_names first_spellings_folds)

section \<open>Blocks of output\<close>

lemma split_on_sep: "split_on c (a @ c # b) = split_on c a @ split_on c b"
proof (induction a)
  case (Cons x a)
  then show ?case by (cases "split_on c a") auto
qed simp

lemma str_lines_block:
  "str_lines (a @ c_nl # b) = str_lines (a @ [c_nl]) @ str_lines b"
proof -
  show ?thesis by (simp add: str_lines_def Let_def butlast_append split_on_sep)
qed

lemma parse_lines_append:
  "parse_lines f n (xs @ ys) =
     (case parse_lines f n xs of
        Inl e \<Rightarrow> Inl e
      | Inr rs \<Rightarrow> map_sum id ((@) rs) (parse_lines f (n + length xs) ys))"
proof (induction xs arbitrary: n)
  case (Cons x xs)
  then show ?case
    by (auto simp: Let_def sum.map_comp comp_def id_def split: sum.splits)
       (auto simp: map_sum_def split: sum.splits)
qed (auto simp: sum.map_id0 id_def map_sum_def split: sum.splits)

lemma parse_rows_split:
  "parse_rows_at parse_row (a @ c_nl # b) skipped =
     (case parse_rows_at parse_row (a @ [c_nl]) skipped of
        Inl e \<Rightarrow> Inl e
      | Inr rows \<Rightarrow> map_sum id ((@) rows)
          (parse_rows_at parse_row b (skipped + length (str_lines (a @ [c_nl])))))"
  by (simp only: parse_rows_at_def str_lines_block [of a b] parse_lines_append add.assoc add.commute
      [of 1])

lemma length_str_lines_nl: "length (str_lines (a @ [c_nl])) = length (filter ((=) c_nl) (a @ [c_nl]))"
proof -
  have "length (split_on c_nl s) = Suc (length (filter ((=) c_nl) s))" for s
  proof (induction s)
    case (Cons x s)
    then show ?case by (cases "split_on c_nl s") auto
  qed simp
  moreover have "last (split_on c_nl (a @ [c_nl])) = []" by (simp add: split_on_sep)
  ultimately show ?thesis by (simp add: str_lines_def Let_def)
qed

section \<open>Escapes that pair up\<close>

text \<open>A character as JSON may spell it: itself, or escaped as its UTF-16 units.\<close>

definition hex_digit :: "nat \<Rightarrow> uchar" where
  "hex_digit n = (if n < 10 then 48 + n else 87 + n)"

definition unit_escape :: "nat \<Rightarrow> rstr" where
  "unit_escape u = [c_backslash, 117, hex_digit (u div 4096 mod 16), hex_digit (u div 256 mod 16),
     hex_digit (u div 16 mod 16), hex_digit (u mod 16)]"

definition utf16 :: "uchar \<Rightarrow> nat list" where
  "utf16 c = (if c < 0x10000 then [c] else [0xD800 + (c - 0x10000) div 1024, 0xDC00 + (c - 0x10000) mod 1024])"

definition json_escape :: "uchar \<Rightarrow> rstr" where
  "json_escape c = concat (map unit_escape (utf16 c))"

lemma hex_digit_value_digit: "n < 16 \<Longrightarrow> hex_digit_value (hex_digit n) = n"
  by (simp add: hex_digit_value_def hex_digit_def)

lemma is_hex_digit: "n < 16 \<Longrightarrow> is_ascii_hexdigit (hex_digit n)"
  by (simp add: hex_digit_def char_defs)

lemma escape_unit_escape: "u < 65536 \<Longrightarrow> escape_unit (unit_escape u @ s) = Some u"
proof -
  assume u: "u < 65536"
  have "4096 * (u div 4096) + 256 * (u div 256 mod 16) + 16 * (u div 16 mod 16) + u mod 16 = u"
  proof -
    have d: "u div 256 = u div 16 div 16" "u div 4096 = u div 16 div 16 div 16"
      by (simp_all add: div_mult2_eq [symmetric])
    define q1 q2 q3 where q: "q1 = u div 16" "q2 = q1 div 16" "q3 = q2 div 16"
    have "u = 16 * q1 + u mod 16" "q1 = 16 * q2 + q1 mod 16" "q2 = 16 * q3 + q2 mod 16"
      by (simp_all add: q)
    then show ?thesis unfolding d q [symmetric] by linarith
  qed
  moreover have "u div 4096 mod 16 = u div 4096" "u div 4096 < 16" using u by simp_all
  ultimately show ?thesis
    by (simp add: escape_unit_def unit_escape_def is_hex_digit hex_value_def hex_digit_value_digit)
qed

lemma lone_surrogate_json_escape:
  assumes "is_scalar c"
  shows "lone_surrogate (json_escape c @ s) = lone_surrogate s"
proof (cases "c < 0x10000")
  case True
  have e: "json_escape c @ s = c_backslash # drop 1 (unit_escape c) @ s"
    using True by (simp add: json_escape_def utf16_def unit_escape_def)
  have "escape_unit (c_backslash # drop 1 (unit_escape c) @ s) = Some c"
    using True escape_unit_escape [of c s] by (simp add: unit_escape_def)
  moreover have "\<not> is_high c" "\<not> is_low c"
    using True assms by (auto simp: is_scalar_def is_high_def is_low_def)
  moreover have "drop 5 (drop 1 (unit_escape c) @ s) = s" by (simp add: unit_escape_def)
  ultimately show ?thesis unfolding e lone_surrogate.simps by simp
next
  case False
  let ?h = "0xD800 + (c - 0x10000) div 1024" and ?l = "0xDC00 + (c - 0x10000) mod 1024"
  have h: "is_high ?h" "?h < 65536" and l: "is_low ?l" "?l < 65536"
    using False assms by (auto simp: is_scalar_def is_high_def is_low_def)
  have e: "json_escape c @ s = c_backslash # drop 1 (unit_escape ?h) @ unit_escape ?l @ s"
    using False by (simp add: json_escape_def utf16_def unit_escape_def)
  have "escape_unit (c_backslash # drop 1 (unit_escape ?h) @ unit_escape ?l @ s) = Some ?h"
    using escape_unit_escape [OF h(2), of "unit_escape ?l @ s"] by (simp add: unit_escape_def)
  moreover have "drop 5 (drop 1 (unit_escape ?h) @ unit_escape ?l @ s) = unit_escape ?l @ s"
    "drop 11 (drop 1 (unit_escape ?h) @ unit_escape ?l @ s) = s"
    by (simp_all add: unit_escape_def)
  moreover have "paired (unit_escape ?l @ s)" using l escape_unit_escape by (simp add: paired_def)
  ultimately show ?thesis using h(1) unfolding e lone_surrogate.simps by simp
qed

lemma lone_surrogate_json_escapes:
  "list_all is_scalar t \<Longrightarrow> lone_surrogate (concat (map json_escape t) @ s) = lone_surrogate s"
  by (induction t) (simp_all add: lone_surrogate_json_escape)

section \<open>Properties\<close>

text \<open>C15: \<open>infer_schema\<close> never indexes out of bounds, and the columns it finds through its two
  maps are the keys' first spellings in the order they appear, each with the one type all its
  non-null values share, or TEXT.\<close>

theorem infer_schema_reads_all_pairs:
  "infer_schema rows = Some (schema_of (concat rows))"
proof -
  have "infer_inv [] \<lparr>is_columns = [], is_by_spelling = Map.empty, is_by_folded = Map.empty\<rparr>"
    by (simp add: infer_inv_def)
  from infer_rows_inv [OF this, of rows] show ?thesis
    by (auto simp: infer_schema_def infer_inv_def schema_of_def resolve_observed_of)
qed

text \<open>C17: the inferred table is rectangular and well typed over ragged rows: its column names
  differ even when case is ignored, every key of every row has a column, and the cell a row has
  under a column is NULL or of the column's declared type, unless that is TEXT.\<close>

theorem infer_schema_rectangular:
  "\<exists>columns. infer_schema rows = Some columns \<and>
     distinct (map fold_key (map col_name columns)) \<and>
     list_all (list_all (\<lambda>p. fold_key (fst p) \<in> fold_key ` set (map col_name columns))) rows \<and>
     list_all (\<lambda>row. list_all (\<lambda>c. fits (col_type c) (cell row (col_name c))) columns) rows"
proof -
  have "infer_schema rows = Some (schema_of (concat rows))"
    using infer_rows_inv [of "[]" "\<lparr>is_columns = [], is_by_spelling = Map.empty, is_by_folded = Map.empty\<rparr>" rows]
    by (auto simp: infer_schema_def infer_inv_def schema_of_def resolve_observed_of)
  moreover have "distinct (map fold_key (map col_name (schema_of (concat rows))))"
    unfolding schema_names by (rule first_spellings_distinct)
  moreover have "list_all (list_all (\<lambda>p. fold_key (fst p) \<in>
      fold_key ` set (map col_name (schema_of (concat rows))))) rows"
    using every_key_has_a_column by (auto simp only: list_all_iff)
  moreover have "list_all (\<lambda>row. list_all (\<lambda>c. fits (col_type c) (cell row (col_name c)))
      (schema_of (concat rows))) rows"
    using cell_fits by (auto simp only: list_all_iff)
  ultimately show ?thesis by blast
qed

text \<open>Reading a command's output block by block, each block ending with a line feed and
  told how many lines went before, gives the rows, or the error naming the same line, that
  reading it whole does.\<close>

theorem parse_rows_blocks:
  "parse_rows_at parse_row (a @ c_nl # b) skipped =
     (case parse_rows_at parse_row (a @ [c_nl]) skipped of
        Inl e \<Rightarrow> Inl e
      | Inr rows \<Rightarrow> map_sum id ((@) rows)
          (parse_rows_at parse_row b (skipped + length (str_lines (a @ [c_nl])))))"
  by (rule parse_rows_split)

text \<open>No false alarm and no miss: escapes of well-formed text, characters outside the basic
  plane as two units included, are never reported, and the first unit after them that is a
  low surrogate or a high one without a low one after it is.\<close>

theorem lone_surrogate_first:
  "list_all is_scalar t \<Longrightarrow> is_high u \<and> \<not> paired s \<or> is_low u \<Longrightarrow>
   lone_surrogate (concat (map json_escape t)) = None \<and>
   lone_surrogate (concat (map json_escape t) @ unit_escape u @ s) = Some (unit_escape u)"
proof
  assume t: "list_all is_scalar t" and u: "is_high u \<and> \<not> paired s \<or> is_low u"
  show "lone_surrogate (concat (map json_escape t)) = None"
    using lone_surrogate_json_escapes [OF t, of "[]"] by simp
  have lt: "u < 65536" using u by (auto simp: is_high_def is_low_def)
  have e: "unit_escape u @ s = c_backslash # drop 1 (unit_escape u) @ s"
    by (simp add: unit_escape_def)
  have "lone_surrogate (unit_escape u @ s) = Some (unit_escape u)"
    using u escape_unit_escape [OF lt, of s]
    unfolding e lone_surrogate.simps by (auto simp: unit_escape_def is_high_def is_low_def)
  then show "lone_surrogate (concat (map json_escape t) @ unit_escape u @ s) = Some (unit_escape u)"
    using lone_surrogate_json_escapes [OF t] by simp
qed

theorem lone_surrogate_first_witness:
  "lone_surrogate (concat (map json_escape [97, 0x1F600])) = None \<and>
   lone_surrogate (concat (map json_escape [97, 0x1F600]) @ unit_escape 0xD83D @ [97]) =
     Some (unit_escape 0xD83D)"
  by (rule lone_surrogate_first)
     (simp_all add: is_scalar_def is_high_def paired_def escape_unit_def)

end
