(* ===== verification/Utf8.thy ===== *)
theory Utf8
  imports Prelude
begin

text \<open>
  The part of the standard library that turns a child's output into text:
  \<open>String::from_utf8_lossy\<close> and the blocks of whole lines a stream is cut into. A byte is a
  natural number below 256.

  The decoder follows \<open>Utf8Chunks\<close>: a sequence that stops being valid is replaced, up to the
  byte that broke it, by one U+FFFD. Cutting the bytes after a line feed never changes the text,
  which is what lets a block be decoded before the next one arrives.
\<close>

type_synonym bytes = "nat list"

definition replacement :: uchar where
  "replacement = 0xFFFD"

definition cont :: "nat option \<Rightarrow> bool" where
  "cont b = (case b of None \<Rightarrow> False | Some x \<Rightarrow> 0x80 \<le> x \<and> x \<le> 0xBF)"

definition between :: "nat \<Rightarrow> nat \<Rightarrow> nat option \<Rightarrow> bool" where
  "between lo hi b = (case b of None \<Rightarrow> False | Some x \<Rightarrow> lo \<le> x \<and> x \<le> hi)"

text \<open>The second byte a three- or four-byte sequence admits after its first.\<close>

definition second_ok :: "nat \<Rightarrow> nat option \<Rightarrow> bool" where
  "second_ok b second =
     (if b = 0xE0 then between 0xA0 0xBF second
      else if b = 0xED then between 0x80 0x9F second
      else if b = 0xF0 then between 0x90 0xBF second
      else if b = 0xF4 then between 0x80 0x8F second
      else cont second)"

definition bits :: "nat option \<Rightarrow> nat" where
  "bits b = (case b of None \<Rightarrow> 0 | Some x \<Rightarrow> x mod 64)"

text \<open>The character at the head and the bytes it takes.\<close>

definition decode_one :: "nat \<Rightarrow> bytes \<Rightarrow> uchar \<times> nat" where
  "decode_one b bs =
     (if b < 0x80 then (b, 1)
      else if 0xC2 \<le> b \<and> b \<le> 0xDF then
        (if cont (get bs 0) then (64 * (b mod 32) + bits (get bs 0), 2) else (replacement, 1))
      else if 0xE0 \<le> b \<and> b \<le> 0xEF then
        (if \<not> second_ok b (get bs 0) then (replacement, 1)
         else if \<not> cont (get bs 1) then (replacement, 2)
         else (4096 * (b mod 16) + 64 * bits (get bs 0) + bits (get bs 1), 3))
      else if 0xF0 \<le> b \<and> b \<le> 0xF4 then
        (if \<not> second_ok b (get bs 0) then (replacement, 1)
         else if \<not> cont (get bs 1) then (replacement, 2)
         else if \<not> cont (get bs 2) then (replacement, 3)
         else (262144 * (b mod 8) + 4096 * bits (get bs 0) + 64 * bits (get bs 1) + bits (get bs 2), 4))
      else (replacement, 1))"

lemma decode_one_pos [simp]: "0 < snd (decode_one b bs)"
  by (simp add: decode_one_def)

function from_utf8_lossy :: "bytes \<Rightarrow> rstr" where
  "from_utf8_lossy [] = []"
| "from_utf8_lossy (b # bs) =
     fst (decode_one b bs) # from_utf8_lossy (drop (snd (decode_one b bs) - 1) bs)"
  by pat_completeness auto
termination by (relation "measure length") auto

declare from_utf8_lossy.simps(2) [simp del]

text \<open>A line feed ends any sequence: what precedes it decodes without what follows.\<close>

lemma no_cont_nl [simp]: "\<not> cont (Some c_nl)" "\<not> second_ok b (Some c_nl)" "\<not> cont None" "\<not> second_ok b None"
  by (simp_all add: cont_def second_ok_def between_def)

lemma decode_one_nl:
  "decode_one b (bs @ c_nl # t) = decode_one b (bs @ [c_nl]) \<and> snd (decode_one b (bs @ c_nl # t)) - 1 \<le> length bs"
proof (cases bs)
  case Nil
  then show ?thesis by (simp add: decode_one_def)
next
  case (Cons x xs)
  note bs = this
  show ?thesis
  proof (cases xs)
    case Nil
    then show ?thesis using bs by (simp add: decode_one_def)
  next
    case (Cons y ys)
    then show ?thesis using bs by (cases ys) (simp_all add: decode_one_def numeral_2_eq_2)
  qed
qed

lemma from_utf8_lossy_nl:
  "from_utf8_lossy (a @ c_nl # b) = from_utf8_lossy (a @ [c_nl]) @ from_utf8_lossy b"
proof (induction a rule: length_induct)
  case (1 a)
  show ?case
  proof (cases a)
    case Nil
    then show ?thesis by (simp add: from_utf8_lossy.simps(2) decode_one_def)
  next
    case (Cons x xs)
    let ?n = "snd (decode_one x (xs @ [c_nl])) - 1"
    have d: "decode_one x (xs @ c_nl # b) = decode_one x (xs @ [c_nl])" and n: "?n \<le> length xs"
      using decode_one_nl [of x xs b] decode_one_nl [of x xs "[]"] by auto
    have "from_utf8_lossy (drop ?n xs @ c_nl # b) =
        from_utf8_lossy (drop ?n xs @ [c_nl]) @ from_utf8_lossy b"
      using 1 Cons by simp
    with n show ?thesis by (simp add: Cons from_utf8_lossy.simps(2) d)
  qed
qed

lemma from_utf8_lossy_last_nl: "\<exists>x. from_utf8_lossy (a @ [c_nl]) = x @ [c_nl]"
proof (induction a rule: length_induct)
  case (1 a)
  show ?case
  proof (cases a)
    case Nil
    then show ?thesis by (simp add: from_utf8_lossy.simps(2) decode_one_def)
  next
    case (Cons y xs)
    let ?n = "snd (decode_one y (xs @ [c_nl])) - 1"
    have n: "?n \<le> length xs" using decode_one_nl [of y xs "[]"] by simp
    obtain x where "from_utf8_lossy (drop ?n xs @ [c_nl]) = x @ [c_nl]"
      using 1 Cons by (metis length_drop le_imp_less_Suc length_Cons diff_le_self)
    with n show ?thesis by (simp add: Cons from_utf8_lossy.simps(2))
  qed
qed

lemma from_utf8_lossy_ascii: "list_all is_ascii s \<Longrightarrow> from_utf8_lossy s = s"
  by (induction s) (auto simp: from_utf8_lossy.simps(2) decode_one_def is_ascii_def)

section \<open>Encoding\<close>

definition utf8_encode :: "uchar \<Rightarrow> bytes" where
  "utf8_encode c =
     (if c < 0x80 then [c]
      else if c < 0x800 then [0xC0 + c div 64, 0x80 + c mod 64]
      else if c < 0x10000 then [0xE0 + c div 4096, 0x80 + c div 64 mod 64, 0x80 + c mod 64]
      else [0xF0 + c div 262144, 0x80 + c div 4096 mod 64, 0x80 + c div 64 mod 64, 0x80 + c mod 64])"

definition utf8 :: "rstr \<Rightarrow> bytes" where
  "utf8 s = concat (map utf8_encode s)"

lemma length_utf8 [simp]: "length (utf8 s) = byte_len s"
  by (induction s) (simp_all add: utf8_def utf8_encode_def utf8_len_def)

text \<open>The digits of a code point to the base 64, and what the forms of three and four bytes need to
  know of them.\<close>

lemma base64_digits:
  "64 * (c div 64) + c mod 64 = (c :: nat)"
  "64 * (c div 4096) + c div 64 mod 64 = c div 64"
  "64 * (c div 262144) + c div 4096 mod 64 = c div 4096"
  using div_mult2_eq [of c 64 64] div_mult2_eq [of c 4096 64] by simp_all

lemma three_value:
  fixes q q' r r' c :: nat
  shows "64 * q' + r' = q \<Longrightarrow> 64 * q + r = c \<Longrightarrow> 4096 * q' + 64 * r' + r = c"
  by linarith

lemma three_low:
  fixes q q' r r' c :: nat
  shows "64 * q' + r' = q \<Longrightarrow> 64 * q + r = c \<Longrightarrow> r < 64 \<Longrightarrow> q' = 0 \<Longrightarrow> 0x800 \<le> c \<Longrightarrow> 0xA0 \<le> 0x80 + r'"
  by linarith

lemma three_surrogate:
  fixes q q' r r' c :: nat
  shows "64 * q' + r' = q \<Longrightarrow> 64 * q + r = c \<Longrightarrow> r < 64 \<Longrightarrow> q' = 13 \<Longrightarrow>
    c < 55296 \<or> 57344 \<le> c \<Longrightarrow> 0x800 \<le> c \<Longrightarrow> r' < 64 \<Longrightarrow> 0x80 + r' \<le> 0x9F"
  by linarith

lemma four_value:
  fixes q q' q'' r r' r'' c :: nat
  shows "64 * q'' + r'' = q' \<Longrightarrow> 64 * q' + r' = q \<Longrightarrow> 64 * q + r = c \<Longrightarrow>
    262144 * q'' + 4096 * r'' + 64 * r' + r = c"
  by linarith

lemma four_low:
  fixes q q' q'' r r' r'' c :: nat
  shows "64 * q'' + r'' = q' \<Longrightarrow> 64 * q' + r' = q \<Longrightarrow> 64 * q + r = c \<Longrightarrow> r < 64 \<Longrightarrow> r' < 64 \<Longrightarrow>
    q'' = 0 \<Longrightarrow> 0x10000 \<le> c \<Longrightarrow> 0x90 \<le> 0x80 + r''"
  by linarith

lemma four_high:
  fixes q q' q'' r r' r'' c :: nat
  shows "64 * q'' + r'' = q' \<Longrightarrow> 64 * q' + r' = q \<Longrightarrow> 64 * q + r = c \<Longrightarrow> q'' = 4 \<Longrightarrow>
    c \<le> 1114111 \<Longrightarrow> 0x80 + r'' \<le> 0x8F"
  by linarith

lemma cont_bits:
  "y < 64 \<Longrightarrow> bits (Some (0x80 + y)) = y" "y < 64 \<Longrightarrow> cont (Some (0x80 + y))"
  using mod_mult_self2 [of y 64 2] by (simp_all add: bits_def cont_def add.commute)

lemma decode_two:
  assumes "2 \<le> x" "x < 32" "y < 64"
  shows "decode_one (0xC0 + x) ((0x80 + y) # t) = (64 * x + y, 2)"
  using assms mod_mult_self2 [of x 32 6] cont_bits [of y]
  by (simp add: decode_one_def add.commute)

lemma decode_three:
  assumes "x < 16" "y < 64" "z < 64" "x = 0 \<Longrightarrow> 0xA0 \<le> 0x80 + y" "x = 13 \<Longrightarrow> 0x80 + y \<le> 0x9F"
  shows "decode_one (0xE0 + x) ((0x80 + y) # (0x80 + z) # t) = (4096 * x + 64 * y + z, 3)"
proof -
  have "second_ok (0xE0 + x) (Some (0x80 + y))"
    using assms cont_bits(2) [OF assms(2)] by (auto simp: second_ok_def between_def)
  moreover have "(0xE0 + x) mod 16 = x" using assms(1) mod_mult_self2 [of x 16 14] by (simp add: add.commute)
  ultimately show ?thesis
    using assms(1) cont_bits [OF assms(2)] cont_bits [OF assms(3)] by (simp add: decode_one_def)
qed

lemma decode_four:
  assumes "x < 5" "y < 64" "z < 64" "w < 64" "x = 0 \<Longrightarrow> 0x90 \<le> 0x80 + y" "x = 4 \<Longrightarrow> 0x80 + y \<le> 0x8F"
  shows "decode_one (0xF0 + x) ((0x80 + y) # (0x80 + z) # (0x80 + w) # t) =
    (262144 * x + 4096 * y + 64 * z + w, 4)"
proof -
  have "second_ok (0xF0 + x) (Some (0x80 + y))"
    using assms cont_bits(2) [OF assms(2)] by (auto simp: second_ok_def between_def)
  moreover have "(0xF0 + x) mod 8 = x" using assms(1) mod_mult_self2 [of x 8 30] by (simp add: add.commute)
  ultimately show ?thesis
    using assms(1) cont_bits [OF assms(2)] cont_bits [OF assms(3)] cont_bits [OF assms(4)]
    by (simp add: decode_one_def numeral_2_eq_2)
qed

text \<open>Decoding what a scalar value was encoded to gives it back, whatever bytes follow.\<close>

lemma decode_encode:
  assumes "is_scalar c"
  shows "\<exists>b bs. utf8_encode c = b # bs \<and> decode_one b (bs @ t) = (c, Suc (length bs))"
proof -
  have c: "c < 55296 \<or> 57344 \<le> c" "c \<le> 1114111" using assms by (auto simp: is_scalar_def)
  note base = base64_digits [of c]
  have lt: "c mod 64 < 64" "c div 64 mod 64 < 64" "c div 4096 mod 64 < 64" by simp_all
  consider "c < 0x80" | "0x80 \<le> c" "c < 0x800" | "0x800 \<le> c" "c < 0x10000" | "0x10000 \<le> c" by linarith
  then show ?thesis
  proof cases
    case 1
    then show ?thesis by (simp add: utf8_encode_def decode_one_def)
  next
    case 2
    have e: "utf8_encode c = [0xC0 + c div 64, 0x80 + c mod 64]"
      using 2 unfolding utf8_encode_def by (simp only: if_True if_False not_less [symmetric])
    have "2 \<le> c div 64" "c div 64 < 32" using 2 by (simp_all add: less_mult_imp_div_less)
    from decode_two [OF this lt(1), of t] show ?thesis using base(1) by (simp add: e)
  next
    case 3
    have e: "utf8_encode c = [0xE0 + c div 4096, 0x80 + c div 64 mod 64, 0x80 + c mod 64]"
      using 3 by (simp add: utf8_encode_def)
    have "c div 4096 < 16" using 3 by (simp add: less_mult_imp_div_less)
    from decode_three [OF this lt(2,1), of t] three_low [OF base(2,1) lt(1) _ 3(1)]
      three_surrogate [OF base(2,1) lt(1) _ c(1) 3(1) lt(2)] three_value [OF base(2,1)]
    show ?thesis by (simp add: e)
  next
    case 4
    have e: "utf8_encode c =
        [0xF0 + c div 262144, 0x80 + c div 4096 mod 64, 0x80 + c div 64 mod 64, 0x80 + c mod 64]"
      using 4 by (simp add: utf8_encode_def)
    have "c div 262144 < 5" using c(2) by (simp add: less_mult_imp_div_less)
    from decode_four [OF this lt(3,2,1), of t] four_low [OF base(3,2,1) lt(1,2) _ 4]
      four_high [OF base(3,2,1) _ c(2)] four_value [OF base(3,2,1)]
    show ?thesis by (simp add: e)
  qed
qed

lemma from_utf8_lossy_utf8_append:
  "list_all is_scalar s \<Longrightarrow> from_utf8_lossy (utf8 s @ t) = s @ from_utf8_lossy t"
proof (induction s)
  case (Cons c s)
  obtain b bs where "utf8_encode c = b # bs" "decode_one b (bs @ utf8 s @ t) = (c, Suc (length bs))"
    using decode_encode [of c "utf8 s @ t"] Cons.prems by auto
  then show ?case using Cons by (simp add: utf8_def from_utf8_lossy.simps(2))
qed (simp add: utf8_def)

section \<open>Leading bytes as a word\<close>

text \<open>The first \<open>n\<close> bytes as a big-endian word, zeros standing for bytes that are not there:
  words order as the bytes do as far as those go.\<close>

definition is_bytes :: "bytes \<Rightarrow> bool" where
  "is_bytes s \<longleftrightarrow> list_all (\<lambda>b. b < 256) s"

definition word_of :: "nat \<Rightarrow> bytes \<Rightarrow> nat" where
  "word_of n s = foldl (\<lambda>w b. 256 * w + b) 0 (take n (s @ replicate n 0))"

lemma foldl_256: "foldl (\<lambda>w b. 256 * w + b) w (s :: nat list) = w * 256 ^ length s + foldl (\<lambda>w b. 256 * w + b) 0 s"
proof (induction s arbitrary: w)
  case (Cons b s)
  from Cons [of "256 * w + b"] Cons [of b] show ?case by (simp add: algebra_simps)
qed simp

lemma word_of_Nil [simp]: "word_of n [] = 0"
  by (induction n) (simp_all add: word_of_def foldl_256 [of "256 * _"])

lemma word_of_Suc_Cons: "word_of (Suc n) (b # s) = b * 256 ^ n + word_of n s"
proof -
  have "take (Suc n) ((b # s) @ replicate (Suc n) 0) = b # take n (s @ replicate n (0::nat))"
    by (simp add: replicate_append_same [symmetric])
  then have "word_of (Suc n) (b # s) = foldl (\<lambda>w b. 256 * w + b) b (take n (s @ replicate n 0))"
    by (simp only: word_of_def) simp
  also have "\<dots> = b * 256 ^ length (take n (s @ replicate n (0 :: nat))) + word_of n s"
    unfolding word_of_def by (rule foldl_256)
  finally show ?thesis by (simp del: take_append)
qed

lemma word_of_less: "is_bytes s \<Longrightarrow> word_of n s < 256 ^ n"
proof (induction n arbitrary: s)
  case (Suc n)
  show ?case
  proof (cases s)
    case (Cons b t)
    then have "b < 256" "word_of n t < 256 ^ n" using Suc by (auto simp: is_bytes_def)
    then have "b * 256 ^ n + word_of n t < Suc b * 256 ^ n" by simp
    also have "\<dots> \<le> 256 * 256 ^ n" using \<open>b < 256\<close> by (intro mult_le_mono1) simp
    finally show ?thesis by (simp add: Cons word_of_Suc_Cons)
  qed simp
qed (simp add: word_of_def)

lemma word_of_less_imp: "is_bytes s \<Longrightarrow> is_bytes t \<Longrightarrow> word_of n s < word_of n t \<Longrightarrow> s < t"
proof (induction n arbitrary: s t)
  case (Suc n)
  show ?case
  proof (cases s)
    case Nil
    then show ?thesis using Suc.prems by (cases t) auto
  next
    case (Cons a s')
    note s = this
    show ?thesis
    proof (cases t)
      case Nil
      then show ?thesis using Suc.prems by simp
    next
      case (Cons b t')
      have bytes: "is_bytes s'" "is_bytes t'" using Suc.prems s Cons by (auto simp: is_bytes_def)
      have w: "a * 256 ^ n + word_of n s' < b * 256 ^ n + word_of n t'"
        using Suc.prems(3) s Cons by (simp add: word_of_Suc_Cons)
      have "a \<le> b"
      proof (rule ccontr)
        assume "\<not> a \<le> b"
        then have "Suc b * 256 ^ n \<le> a * 256 ^ n" by (intro mult_le_mono1) simp
        then show False using w word_of_less [OF bytes(2), of n] by simp
      qed
      then show ?thesis using w Suc.IH [OF bytes] s Cons by (cases "a = b") auto
    qed
  qed
qed (simp add: word_of_def)

end
