(* ===== verification/Command.thy ===== *)
theory Command
  imports Utf8
begin

text \<open>
  \<open>packages/rust/src/command.rs\<close>: the runner behind every \<open>on-file\<close> command. Splitting a
  template into words is shlex's (the parameter \<open>shlex_split\<close>), and the child process is what
  it does: its exit status, the pieces its stdout arrives in and its stderr. The threads that
  drain the pipes only collect bytes and are not modelled.
\<close>

section \<open>Plain forms of Windows paths\<close>

definition is_plain_component :: "rstr \<Rightarrow> bool" where
  "is_plain_component name =
     (let invalid_char = (\<lambda>c. c < 32 \<or> c \<in> set (ascii ''/<>:'' @ [c_dquote] @ ascii ''|?*''));
          stem = rev (dropWhile (\<lambda>c. c = c_space) (rev (takeWhile (\<lambda>c. c \<noteq> c_dot) name)));
          upper = map to_ascii_uppercase stem;
          reserved = (upper \<in> set (map ascii [''CON'', ''PRN'', ''AUX'', ''NUL'']) \<or>
            (length upper = 4 \<and> (take 3 upper = ascii ''COM'' \<or> take 3 upper = ascii ''LPT'') \<and>
             49 \<le> upper ! 3 \<and> upper ! 3 \<le> 57))
      in name \<noteq> [] \<and> last name \<noteq> c_dot \<and> last name \<noteq> c_space \<and>
         list_all (\<lambda>c. \<not> invalid_char c) name \<and> \<not> reserved)"

definition utf16_units :: "rstr \<Rightarrow> nat" where
  "utf16_units s = sum_list (map (\<lambda>c. if c < 65536 then 1 else 2) s)"

abbreviation (input) bs2 :: rstr where "bs2 \<equiv> [c_backslash, c_backslash]"

definition verbatim_prefix :: rstr where
  "verbatim_prefix = bs2 @ [c_quest, c_backslash]"

definition unc_prefix :: rstr where
  "unc_prefix = ascii ''UNC'' @ [c_backslash]"

text \<open>The plain spelling of what follows the prefix, and its part below the drive or share.\<close>

definition plain_and_tail :: "rstr \<Rightarrow> (rstr \<times> rstr) option" where
  "plain_and_tail rest =
     (case strip_prefix unc_prefix rest of
        Some unc \<Rightarrow>
          if length (split_on c_backslash unc) < 2 then None else Some (bs2 @ unc, unc)
      | None \<Rightarrow>
          if 3 \<le> length rest \<and> is_ascii_alphabetic (rest ! 0) \<and> rest ! 1 = c_colon \<and>
             rest ! 2 = c_backslash
          then Some (rest, drop 3 rest) else None)"

definition plain_form :: "rstr \<Rightarrow> rstr option" where
  "plain_form path =
     (case strip_prefix verbatim_prefix path of
        None \<Rightarrow> None
      | Some rest \<Rightarrow>
          (case plain_and_tail rest of
             None \<Rightarrow> None
           | Some (plain, tail) \<Rightarrow>
               if (tail = [] \<or> list_all is_plain_component (split_on c_backslash tail)) \<and>
                  utf16_units plain < 260
               then Some plain else None))"

definition non_verbatim :: "rstr \<Rightarrow> rstr" where
  "non_verbatim path = (case plain_form path of Some p \<Rightarrow> p | None \<Rightarrow> path)"

text \<open>A path that is not valid Unicode has no text and is handed over as it is.\<close>

datatype os_string = Unicode rstr | Not_unicode bytes

fun non_verbatim_path :: "os_string \<Rightarrow> os_string" where
  "non_verbatim_path (Unicode s) = Unicode (non_verbatim s)"
| "non_verbatim_path (Not_unicode b) = Not_unicode b"

section \<open>Placeholders\<close>

record placeholder =
  ph_name :: rstr
  ph_value :: rstr

definition placeholder_path :: "rstr \<Rightarrow> rstr \<Rightarrow> placeholder" where
  "placeholder_path name path = \<lparr>ph_name = name, ph_value = non_verbatim path\<rparr>"

text \<open>The text between the brace at the head and the first closing brace, the placeholder it
  names and how many characters it takes.\<close>

definition match_placeholder :: "rstr \<Rightarrow> placeholder list \<Rightarrow> (nat \<times> nat) option" where
  "match_placeholder token phs =
     (if token = [] \<or> hd token \<noteq> c_lbrace then None
      else (case position (\<lambda>c. c = c_rbrace) (tl token) of
        None \<Rightarrow> None
      | Some rel \<Rightarrow>
          map_option (\<lambda>idx. (idx, 1 + rel + 1))
            (position (\<lambda>p. ph_name p = take rel (tl token)) phs)))"

function substitute :: "rstr \<Rightarrow> placeholder list \<Rightarrow> rstr" where
  "substitute [] phs = []"
| "substitute (c # s) phs =
     (case match_placeholder (c # s) phs of
        Some (idx, consumed) \<Rightarrow> ph_value (phs ! idx) @ substitute (drop (consumed - 1) s) phs
      | None \<Rightarrow> c # substitute s phs)"
  by pat_completeness auto
termination by (relation "measure (length \<circ> fst)") auto

section \<open>Errors\<close>

datatype io_error = Not_found rstr | Other_io rstr

datatype command_error =
  Invalid_command rstr
| Spawn rstr io_error
| Not_on_path rstr "rstr option"
| Non_zero_exit rstr rstr rstr
| Empty_output rstr
| Io rstr io_error

definition build_argv ::
  "(rstr \<Rightarrow> rstr list option) \<Rightarrow> rstr \<Rightarrow> placeholder list \<Rightarrow> command_error + rstr list"
where
  "build_argv shlex_split cmd phs =
     (case shlex_split cmd of
        None \<Rightarrow> Inl (Invalid_command cmd)
      | Some tokens \<Rightarrow>
          if tokens = [] then Inl (Invalid_command cmd)
          else Inr (map (\<lambda>t. substitute t phs) tokens))"

definition max_tail :: nat where
  "max_tail = 2000"

definition stderr_tail :: "bytes \<Rightarrow> rstr" where
  "stderr_tail stderr =
     (let trimmed = trim (from_utf8_lossy stderr); count = length trimmed in
      if count \<le> max_tail then trimmed else 0x2026 # drop (count - max_tail) trimmed)"

datatype exit_status = Exited int | Signalled

definition check_exit :: "rstr \<Rightarrow> exit_status \<Rightarrow> bytes \<Rightarrow> command_error + unit" where
  "check_exit cmd status stderr =
     (if status = Exited 0 then Inr ()
      else Inl (Non_zero_exit cmd
        (case status of Exited n \<Rightarrow> show_int n | Signalled \<Rightarrow> ascii ''signal'') (stderr_tail stderr)))"

text \<open>What the code asks of the directory a command runs in.\<close>

record dir_probe =
  cwd_is_dir :: bool
  cwd_join :: "rstr \<Rightarrow> rstr"
  is_file :: "rstr \<Rightarrow> bool"

definition searched_path :: "rstr \<Rightarrow> io_error \<Rightarrow> bool" where
  "searched_path program e \<longleftrightarrow>
     (case e of Not_found m \<Rightarrow> True | Other_io m \<Rightarrow> False) \<and> c_slash \<notin> set program"

definition spawn_error :: "dir_probe \<Rightarrow> rstr \<Rightarrow> io_error \<Rightarrow> command_error" where
  "spawn_error cwd program e =
     (if \<not> searched_path program e \<or> \<not> cwd_is_dir cwd then Spawn program e
      else (let candidate = cwd_join cwd program in
        Not_on_path program (if is_file cwd candidate then Some candidate else None)))"

text \<open>The message of an error; \<open>debug_str\<close> is how Rust prints a quoted string.\<close>

definition local_hint :: "rstr \<Rightarrow> rstr option \<Rightarrow> rstr" where
  "local_hint program local =
     (case local of
        None \<Rightarrow> []
      | Some path \<Rightarrow> ascii ''. Names without a `/` are resolved against $PATH; use `./'' @ program @
          ascii ''` to run `'' @ path @ ascii ''`'')"

fun io_text :: "io_error \<Rightarrow> rstr" where
  "io_text (Not_found m) = m"
| "io_text (Other_io m) = m"

fun command_error_text :: "(rstr \<Rightarrow> rstr) \<Rightarrow> command_error \<Rightarrow> rstr" where
  "command_error_text debug_str (Invalid_command c) =
     ascii ''invalid command template: '' @ debug_str c"
| "command_error_text debug_str (Spawn program e) =
     ascii ''failed to spawn `'' @ program @ ascii ''`: '' @ io_text e"
| "command_error_text debug_str (Not_on_path program local) =
     ascii ''failed to spawn `'' @ program @ ascii ''`: not found on $PATH'' @ local_hint program local"
| "command_error_text debug_str (Non_zero_exit c code stderr) =
     ascii ''command `'' @ c @ ascii ''` failed (exit '' @ code @ ascii ''): '' @ stderr"
| "command_error_text debug_str (Empty_output c) =
     ascii ''command `'' @ c @ ascii ''` produced no output on stdout''"
| "command_error_text debug_str (Io c e) =
     ascii ''command `'' @ c @ ascii ''` I/O error: '' @ io_text e"

section \<open>Output\<close>

definition extract_payload :: "rstr \<Rightarrow> rstr option" where
  "extract_payload stdout = find (\<lambda>l. l \<noteq> []) (map trim (rev (str_lines stdout)))"

text \<open>
  A child: how its spawn or wait failed, or how it exited; the byte counts its stdout was read
  in, an empty piece or an error ending the reading; its stderr.
\<close>

record child =
  ch_status :: "io_error + exit_status"
  ch_reads :: "bytes list"
  ch_stderr :: bytes

text \<open>The bytes before the first empty read.\<close>

definition stdout_bytes :: "bytes list \<Rightarrow> bytes" where
  "stdout_bytes reads = concat (takeWhile (\<lambda>r. r \<noteq> []) reads)"

definition wait_child :: "rstr \<Rightarrow> child \<Rightarrow> command_error + unit" where
  "wait_child cmd ch =
     (case ch_status ch of
        Inl e \<Rightarrow> Inl (Io cmd e)
      | Inr status \<Rightarrow> check_exit cmd status (ch_stderr ch))"

text \<open>\<open>None\<close> is the panic of \<open>argv[0]\<close> on an empty argv.\<close>

definition run_argv_stdout ::
  "dir_probe \<Rightarrow> (rstr list \<Rightarrow> io_error + child) \<Rightarrow> rstr \<Rightarrow> rstr list \<Rightarrow> (command_error + rstr) option"
where
  "run_argv_stdout cwd spawn cmd argv =
     (if argv = [] then None
      else Some (case spawn argv of
        Inl e \<Rightarrow> Inl (spawn_error cwd (hd argv) e)
      | Inr ch \<Rightarrow> map_sum id (\<lambda>_. from_utf8_lossy (stdout_bytes (ch_reads ch))) (wait_child cmd ch)))"

definition run_argv ::
  "dir_probe \<Rightarrow> (rstr list \<Rightarrow> io_error + child) \<Rightarrow> rstr \<Rightarrow> rstr list \<Rightarrow> (command_error + rstr) option"
where
  "run_argv cwd spawn cmd argv =
     map_option (\<lambda>r. case r of
         Inl e \<Rightarrow> Inl e
       | Inr stdout \<Rightarrow> (case extract_payload stdout of
           Some payload \<Rightarrow> Inr payload | None \<Rightarrow> Inl (Empty_output cmd)))
       (run_argv_stdout cwd spawn cmd argv)"

definition run_command ::
  "(rstr \<Rightarrow> rstr list option) \<Rightarrow> dir_probe \<Rightarrow> (rstr list \<Rightarrow> io_error + child) \<Rightarrow> rstr \<Rightarrow>
   placeholder list \<Rightarrow> (command_error + rstr) option"
where
  "run_command shlex_split cwd spawn cmd phs =
     (case build_argv shlex_split cmd phs of
        Inl e \<Rightarrow> Some (Inl e)
      | Inr argv \<Rightarrow> run_argv cwd spawn cmd argv)"

text \<open>
  \<open>drain_then_reap\<close>: the blocks handed on, in order. The bytes up to the last line feed go out
  at once, the rest waits.
\<close>

definition last_nl :: "bytes \<Rightarrow> nat option" where
  "last_nl s = map_option (\<lambda>i. length s - i) (position (\<lambda>b. b = c_nl) (rev s))"

datatype drain_event = Block rstr | Eof | Reap

fun drain :: "bytes \<Rightarrow> bytes list \<Rightarrow> drain_event list" where
  "drain pending [] =
     (if pending = [] then [] else [Block (from_utf8_lossy pending)]) @ [Eof, Reap]"
| "drain pending (r # reads) =
     (if r = []
      then (if pending = [] then [] else [Block (from_utf8_lossy pending)]) @ [Eof, Reap]
      else (case last_nl (pending @ r) of
          Some end_at \<Rightarrow>
            Block (from_utf8_lossy (take end_at (pending @ r))) # drain (drop end_at (pending @ r)) reads
        | None \<Rightarrow> drain (pending @ r) reads))"

definition drain_then_reap :: "bytes list \<Rightarrow> drain_event list" where
  "drain_then_reap reads = drain [] reads"

text \<open>\<open>run_argv_blocks\<close>: the events its callbacks see and its result.\<close>

definition run_argv_blocks ::
  "dir_probe \<Rightarrow> ('a list \<Rightarrow> io_error + child) \<Rightarrow> ('a \<Rightarrow> rstr) \<Rightarrow> rstr \<Rightarrow> 'a list \<Rightarrow>
   (drain_event list \<times> (command_error + unit)) option"
where
  "run_argv_blocks cwd spawn to_string_lossy cmd argv =
     (if argv = [] then None
      else Some (case spawn argv of
        Inl e \<Rightarrow> ([], Inl (spawn_error cwd (to_string_lossy (hd argv)) e))
      | Inr ch \<Rightarrow> (drain_then_reap (ch_reads ch), wait_child cmd ch)))"

section \<open>Windows argument quoting\<close>

fun quote_from :: "bytes \<Rightarrow> nat \<Rightarrow> bytes" where
  "quote_from [] n = replicate (n * 2) c_backslash"
| "quote_from (b # bs) n =
     (if b = c_backslash then quote_from bs (n + 1)
      else if b = c_dquote
        then replicate (n * 2 + 1) c_backslash @ [c_dquote] @ quote_from bs 0
      else replicate n c_backslash @ [b] @ quote_from bs 0)"

definition quote_windows_arg :: "bytes \<Rightarrow> bytes" where
  "quote_windows_arg arg = [c_dquote] @ quote_from arg 0 @ [c_dquote]"

section \<open>Blocks of whole lines\<close>

lemma last_nl_Some: "last_nl s = Some n \<Longrightarrow> \<exists>a. take n s = a @ [c_nl]"
proof -
  assume "last_nl s = Some n"
  then obtain i where i: "position (\<lambda>b. b = c_nl) (rev s) = Some i" "n = length s - i"
    by (auto simp: last_nl_def)
  have i2: "i < length s" "rev s ! i = c_nl" using position_SomeD [OF i(1)] by auto
  then have "s ! (n - 1) = c_nl" "0 < n" "n - 1 < length s" using i(2) by (auto simp: rev_nth)
  then show ?thesis using take_Suc_conv_app_nth [of "n - 1" s] by auto
qed

lemma lossy_split: "last_nl s = Some n \<Longrightarrow>
    from_utf8_lossy (s @ t) = from_utf8_lossy (take n s) @ from_utf8_lossy (drop n s @ t)"
proof -
  assume "last_nl s = Some n"
  from last_nl_Some [OF this] obtain a where a: "take n s = a @ [c_nl]" by blast
  have "s @ t = (take n s @ drop n s) @ t" by simp
  also have "\<dots> = a @ c_nl # drop n s @ t" using a by simp
  finally show ?thesis using from_utf8_lossy_nl [of a "drop n s @ t"] a by metis
qed

lemma lossy_block_nl: "last_nl s = Some n \<Longrightarrow>
    from_utf8_lossy (take n s) \<noteq> [] \<and> last (from_utf8_lossy (take n s)) = c_nl"
proof -
  assume "last_nl s = Some n"
  then obtain a where "take n s = a @ [c_nl]" using last_nl_Some by blast
  moreover obtain x where "from_utf8_lossy (a @ [c_nl]) = x @ [c_nl]"
    using from_utf8_lossy_last_nl by blast
  ultimately show ?thesis by simp
qed

definition whole_lines :: "rstr \<Rightarrow> bool" where
  "whole_lines block \<longleftrightarrow> block \<noteq> [] \<and> last block = c_nl"

lemma drain_blocks:
  "\<exists>blocks. drain pending reads = map Block blocks @ [Eof, Reap] \<and>
     concat blocks = from_utf8_lossy (pending @ stdout_bytes reads) \<and>
     list_all whole_lines (butlast blocks)"
proof (induction pending reads rule: drain.induct)
  case (1 pending)
  show ?case
  proof (cases "pending = []")
    case False
    then show ?thesis
      by (intro exI [of _ "[from_utf8_lossy pending]"]) (simp add: stdout_bytes_def)
  qed (simp add: stdout_bytes_def)
next
  case (2 pending r reads)
  show ?case
  proof (cases "r = []")
    case True
    show ?thesis
    proof (cases "pending = []")
      case False
      then show ?thesis using True
        by (intro exI [of _ "[from_utf8_lossy pending]"]) (simp add: stdout_bytes_def)
    qed (simp add: True stdout_bytes_def)
  next
    case r: False
    then have bytes: "stdout_bytes (r # reads) = r @ stdout_bytes reads" by (simp add: stdout_bytes_def)
    show ?thesis
    proof (cases "last_nl (pending @ r)")
      case None
      with "2.IH"(1) [OF r None] r show ?thesis by (simp add: bytes)
    next
      case (Some n)
      let ?s = "pending @ r"
      obtain blocks where b: "drain (drop n ?s) reads = map Block blocks @ [Eof, Reap]"
        "concat blocks = from_utf8_lossy (drop n ?s @ stdout_bytes reads)"
        "list_all whole_lines (butlast blocks)"
        using "2.IH"(2) [OF r Some] by blast
      have "from_utf8_lossy (?s @ stdout_bytes reads) =
          from_utf8_lossy (take n ?s) @ from_utf8_lossy (drop n ?s @ stdout_bytes reads)"
        by (rule lossy_split [OF Some])
      moreover have "whole_lines (from_utf8_lossy (take n ?s))"
        using lossy_block_nl [OF Some] by (simp add: whole_lines_def)
      ultimately show ?thesis
        using b r Some bytes
        by (intro exI [of _ "from_utf8_lossy (take n ?s) # blocks"]) auto
    qed
  qed
qed

section \<open>The command line an MSVCRT child parses\<close>

text \<open>
  The rules of the C run-time after the program name: white space outside quotes ends an
  argument; a run of backslashes is itself unless a quote follows, and then each pair is one
  backslash, an odd one left over making the quote literal; inside quotes, two quotes in a row
  are a literal one.
\<close>

fun crt_args :: "bool \<Rightarrow> bool \<Rightarrow> bytes \<Rightarrow> nat \<Rightarrow> bytes \<Rightarrow> bytes list" where
  "crt_args quoted started cur n [] = (if started then [cur @ replicate n c_backslash] else [])"
| "crt_args quoted started cur n (b # bs) =
     (if b = c_backslash then crt_args quoted True cur (n + 1) bs
      else if b = c_dquote then
        (if odd n then crt_args quoted True (cur @ replicate (n div 2) c_backslash @ [c_dquote]) 0 bs
         else (case bs of
             d # ds \<Rightarrow>
               if quoted \<and> d = c_dquote
               then crt_args quoted True (cur @ replicate (n div 2) c_backslash @ [c_dquote]) 0 ds
               else crt_args (\<not> quoted) True (cur @ replicate (n div 2) c_backslash) 0 bs
           | [] \<Rightarrow> crt_args (\<not> quoted) True (cur @ replicate (n div 2) c_backslash) 0 bs))
      else if \<not> quoted \<and> (b = c_space \<or> b = c_tab)
        then (if started then [cur @ replicate n c_backslash] else []) @ crt_args False False [] 0 bs
      else crt_args quoted True (cur @ replicate n c_backslash @ [b]) 0 bs)"

definition msvcrt_parse :: "bytes \<Rightarrow> bytes list" where
  "msvcrt_parse line = crt_args False False [] 0 line"

lemma crt_backslashes:
  "crt_args q True cur n (replicate k c_backslash @ s) = crt_args q True cur (n + k) s"
  by (induction k arbitrary: n) simp_all

definition opens_with_quote :: "bytes \<Rightarrow> bool" where
  "opens_with_quote s \<longleftrightarrow> s \<noteq> [] \<and> hd s = c_dquote"

lemma crt_quote_from:
  "\<not> opens_with_quote rest \<Longrightarrow>
   crt_args True True cur 0 (quote_from arg n @ c_dquote # rest) =
     crt_args False True (cur @ replicate n c_backslash @ arg) 0 rest"
proof (induction arg n arbitrary: cur rule: quote_from.induct)
  case (1 n)
  then show ?case
    by (cases rest) (simp_all add: crt_backslashes opens_with_quote_def)
next
  case (2 b bs n)
  show ?case
  proof (cases "b = c_backslash")
    case True
    with 2 show ?thesis by (simp add: replicate_append_same [symmetric])
  next
    case nb: False
    show ?thesis
    proof (cases "b = c_dquote")
      case True
      have "crt_args True True cur 0 (replicate (n * 2 + 1) c_backslash @ c_dquote # s) =
          crt_args True True (cur @ replicate n c_backslash @ [c_dquote]) 0 s" for s
        by (simp only: crt_backslashes) simp
      with 2 nb True show ?thesis by simp
    next
      case False
      with 2 nb show ?thesis by (simp add: crt_backslashes)
    qed
  qed
qed

lemma crt_one_arg:
  "\<not> opens_with_quote rest \<Longrightarrow>
   msvcrt_parse (quote_windows_arg arg @ rest) = crt_args False True arg 0 rest"
  using crt_quote_from [of rest "[]" arg 0]
  by (cases "quote_from arg 0 @ c_dquote # rest")
     (simp_all add: msvcrt_parse_def quote_windows_arg_def)

lemma quote_args_join:
  "msvcrt_parse (join [c_space] (map quote_windows_arg args)) = args"
proof (induction "[c_space]" args rule: join.induct)
  case (2 p)
  then show ?case using crt_one_arg [of "[]" p] by (simp add: opens_with_quote_def)
next
  case (3 p q ps)
  then show ?case
    using crt_one_arg [of "c_space # join [c_space] (map quote_windows_arg (q # ps))" p]
    by (simp add: opens_with_quote_def msvcrt_parse_def)
qed (simp add: msvcrt_parse_def)

section \<open>Placeholders in a template\<close>

text \<open>A template token as its author reads it: plain characters, known placeholders and braces
  around anything else.\<close>

datatype piece = Lit uchar | Hole rstr | Unknown rstr

fun spell :: "piece \<Rightarrow> rstr" where
  "spell (Lit c) = [c]"
| "spell (Hole name) = [c_lbrace] @ name @ [c_rbrace]"
| "spell (Unknown name) = [c_lbrace] @ name @ [c_rbrace]"

fun piece_ok :: "placeholder list \<Rightarrow> piece \<Rightarrow> bool" where
  "piece_ok phs (Lit c) = (c \<noteq> c_lbrace)"
| "piece_ok phs (Hole name) = (c_rbrace \<notin> set name \<and> name \<in> set (map ph_name phs))"
| "piece_ok phs (Unknown name) =
     (c_rbrace \<notin> set name \<and> c_lbrace \<notin> set name \<and> name \<notin> set (map ph_name phs))"

fun fill :: "placeholder list \<Rightarrow> piece \<Rightarrow> rstr" where
  "fill phs (Lit c) = [c]"
| "fill phs (Hole name) =
     (case find (\<lambda>p. ph_name p = name) phs of Some p \<Rightarrow> ph_value p | None \<Rightarrow> [])"
| "fill phs (Unknown name) = [c_lbrace] @ name @ [c_rbrace]"

lemma position_brace: "c_rbrace \<notin> set name \<Longrightarrow>
    position (\<lambda>c. c = c_rbrace) (name @ c_rbrace # s) = Some (length name)"
  by (induction name) auto

lemma position_find:
  "x \<in> set (map f xs) \<Longrightarrow> \<exists>i. position (\<lambda>p. f p = x) xs = Some i \<and> find (\<lambda>p. f p = x) xs = Some (xs ! i)"
  by (induction xs) auto

lemma substitute_lit: "c \<noteq> c_lbrace \<Longrightarrow> substitute (c # s) phs = c # substitute s phs"
  by (simp add: match_placeholder_def)

lemma substitute_lits: "c_lbrace \<notin> set t \<Longrightarrow> substitute (t @ s) phs = t @ substitute s phs"
  by (induction t) (auto simp: substitute_lit simp del: substitute.simps(2))

lemma substitute_piece:
  assumes "piece_ok phs p"
  shows "substitute (spell p @ s) phs = fill phs p @ substitute s phs"
proof (cases p)
  case (Lit c)
  with assms show ?thesis by (simp add: match_placeholder_def)
next
  case (Hole name)
  then obtain i where i: "position (\<lambda>p. ph_name p = name) phs = Some i"
    "find (\<lambda>p. ph_name p = name) phs = Some (phs ! i)"
    using assms position_find [of name ph_name phs] by auto
  have "match_placeholder (c_lbrace # name @ c_rbrace # s) phs = Some (i, 1 + length name + 1)"
    using assms Hole i(1) by (simp add: match_placeholder_def position_brace)
  with Hole i(2) show ?thesis by simp
next
  case (Unknown name)
  have "position (\<lambda>p. ph_name p = name) phs = None"
    using assms Unknown by (auto simp: position_None_iff)
  then have "match_placeholder (c_lbrace # name @ c_rbrace # s) phs = None"
    using assms Unknown by (simp add: match_placeholder_def position_brace)
  moreover have "substitute (name @ c_rbrace # s) phs = name @ c_rbrace # substitute s phs"
    using assms Unknown by (subst substitute_lits) (simp_all add: match_placeholder_def)
  ultimately show ?thesis using Unknown by simp
qed

section \<open>Properties\<close>

text \<open>C12: whatever pieces a child's stdout arrives in, the blocks handed on are, put together,
  the text of the whole output (cut characters and bad bytes included), every block but the
  last ends with a line feed, and the end of the output is announced once, after the blocks and
  before the child is reaped.\<close>

theorem drain_blocks_whole_lines:
  "\<exists>blocks. drain_then_reap reads = map Block blocks @ [Eof, Reap] \<and>
     concat blocks = from_utf8_lossy (stdout_bytes reads) \<and>
     list_all whole_lines (butlast blocks)"
  using drain_blocks [of "[]" reads] by (simp add: drain_then_reap_def)

text \<open>C16: an MSVCRT child given the quoted arguments on its command line parses back exactly the
  arguments, quotes, trailing backslashes, white space and empty ones included.\<close>

theorem quote_windows_args_roundtrip:
  "msvcrt_parse (join [c_space] (map quote_windows_arg args)) = args"
  by (rule quote_args_join)

text \<open>Substitution is one pass over the template: every known placeholder becomes its value,
  every other braced name stays as written, and no value is scanned again, whatever it
  contains.\<close>

theorem substitute_pieces:
  "list_all (piece_ok phs) pieces \<Longrightarrow>
   substitute (concat (map spell pieces)) phs = concat (map (fill phs) pieces)"
  by (induction pieces) (simp_all add: substitute_piece)

theorem substitute_pieces_witness:
  "substitute (ascii ''a{root}{b}'') [\<lparr>ph_name = ascii ''root'', ph_value = ascii ''{root}''\<rparr>] =
     ascii ''a{root}{b}''"
  using substitute_pieces [of "[\<lparr>ph_name = ascii ''root'', ph_value = ascii ''{root}''\<rparr>]"
      "[Lit 97, Hole (ascii ''root''), Unknown (ascii ''b'')]"]
  by simp

definition verbatim_form :: "rstr \<Rightarrow> rstr" where
  "verbatim_form plain =
     verbatim_prefix @
     (case strip_prefix bs2 plain of Some unc \<Rightarrow> unc_prefix @ unc | None \<Rightarrow> plain)"

text \<open>The plain form of a verbatim path spells the same path: putting the verbatim prefix
  back gives the original, so two paths never share a plain form, and no component of it below
  the drive or share is one Win32 would rewrite.\<close>

theorem plain_form_inverse:
  "plain_form path = Some plain \<Longrightarrow> verbatim_form plain = path \<and> utf16_units plain < 260"
  by (auto simp: plain_form_def plain_and_tail_def verbatim_form_def strip_prefix_Some_iff
      strip_prefix_None_iff prefix_def nth_Cons' split: option.splits if_splits)

theorem plain_form_inverse_witness:
  "verbatim_form [67, c_colon, c_backslash, 120] = verbatim_prefix @ [67, c_colon, c_backslash, 120] \<and>
   utf16_units [67, c_colon, c_backslash, 120] < 260"
  by (rule plain_form_inverse)
     (simp add: plain_form_def plain_and_tail_def verbatim_prefix_def strip_prefix_def unc_prefix_def
       is_plain_component_def utf16_units_def char_defs Let_def)

end
