(* ===== verification/On_File.thy ===== *)
theory On_File
  imports Command Infer
begin

text \<open>
  \<open>packages/rust/src/on_file.rs\<close>: one process per table over every matched path, split over
  several invocations when one argument list cannot carry them. Packing, spreading and
  numbering are functions; the pool of workers is a step relation, since its invocations run
  at once. The platform is a parameter where the code has \<open>cfg\<close> blocks.
\<close>

section \<open>The cost of arguments\<close>

fun os_bytes :: "os_string \<Rightarrow> bytes" where
  "os_bytes (Unicode s) = utf8 s"
| "os_bytes (Not_unicode b) = b"

definition arg_budget :: "bool \<Rightarrow> nat" where
  "arg_budget windows = (if windows then 32000 else 128 * 1024)"

definition path_placeholder :: rstr where
  "path_placeholder = ascii ''{path}''"

definition contains :: "rstr \<Rightarrow> rstr \<Rightarrow> bool" where
  "contains s p \<longleftrightarrow> split_once p s \<noteq> None"

definition path_placeholder_rejection :: "rstr \<Rightarrow> rstr option" where
  "path_placeholder_rejection cmd =
     (if contains cmd path_placeholder
      then Some (ascii ''on-file command `'' @ cmd @ ascii ''` uses `'' @ path_placeholder @
        ascii ''`, but an on-file command now runs once per table with every matched path '' @
        ascii ''appended as trailing arguments and prints one JSON object per line. Remove `'' @
        path_placeholder @ ascii ''` and read the paths from the command's arguments.'')
      else None)"

definition arg_cost :: "bool \<Rightarrow> os_string \<Rightarrow> nat" where
  "arg_cost windows arg =
     (if windows then length (quote_windows_arg (os_bytes arg)) else length (os_bytes arg)) + 1"

definition argv_bytes :: "bool \<Rightarrow> os_string list \<Rightarrow> nat" where
  "argv_bytes windows argv = sum_list (map (arg_cost windows) argv)"

section \<open>Packing\<close>

record 'a packer =
  pk_budget :: nat
  pk_used :: nat
  pk_args :: "'a list"

definition packer_new :: "nat \<Rightarrow> 'a packer" where
  "packer_new budget = \<lparr>pk_budget = budget, pk_used = 0, pk_args = []\<rparr>"

definition push :: "('a \<Rightarrow> nat) \<Rightarrow> 'a packer \<Rightarrow> 'a \<Rightarrow> 'a list option \<times> 'a packer" where
  "push cost p arg =
     (if pk_args p \<noteq> [] \<and> pk_budget p < pk_used p + cost arg
      then (Some (pk_args p), p\<lparr>pk_used := cost arg, pk_args := [arg]\<rparr>)
      else (None, p\<lparr>pk_used := pk_used p + cost arg, pk_args := pk_args p @ [arg]\<rparr>))"

text \<open>The lists that overflowed while the arguments came in, and what is left at the end.\<close>

fun pack_from :: "('a \<Rightarrow> nat) \<Rightarrow> 'a packer \<Rightarrow> 'a list \<Rightarrow> 'a list list \<times> 'a list" where
  "pack_from cost p [] = ([], pk_args p)"
| "pack_from cost p (a # as) =
     (case push cost p a of (full, p') \<Rightarrow>
        apfst ((@) (case full of None \<Rightarrow> [] | Some run \<Rightarrow> [run])) (pack_from cost p' as))"

section \<open>Spreading\<close>

definition u64 :: "nat \<Rightarrow> nat" where
  "u64 n = n mod 2 ^ 64"

definition min_run_bytes :: nat where
  "min_run_bytes = 4 * 1024 * 1024"

text \<open>Arithmetic on byte counts wraps at 64 bits, as in a release build. \<open>None\<close> is the panic of
  a slice out of bounds.\<close>

record 'a spread_state =
  ss_out :: "'a list list"
  ss_start :: nat
  ss_seen :: nat

fun spread_loop ::
  "'a list \<Rightarrow> nat \<Rightarrow> nat \<Rightarrow> (nat \<times> nat) list \<Rightarrow> 'a spread_state \<Rightarrow> 'a spread_state option"
where
  "spread_loop args whole parts [] st = Some st"
| "spread_loop args whole parts ((i, sz) # sizes) st =
     (let seen = u64 (ss_seen st + sz); cut = length (ss_out st) + 1 in
      if i + 1 \<noteq> length args \<and> length (ss_out st) + 1 < parts \<and>
         u64 (whole * cut) \<le> u64 (seen * parts)
      then (if ss_start st \<le> i + 1 \<and> i + 1 \<le> length args
            then spread_loop args whole parts sizes
              \<lparr>ss_out = ss_out st @ [take (i + 1 - ss_start st) (drop (ss_start st) args)],
               ss_start = i + 1, ss_seen = seen\<rparr>
            else None)
      else spread_loop args whole parts sizes (st\<lparr>ss_seen := seen\<rparr>))"

definition spread :: "'a list \<Rightarrow> nat list \<Rightarrow> nat \<Rightarrow> 'a list list option" where
  "spread args sizes parts =
     (let whole = u64 (sum_list sizes);
          parts = min (min parts (length args)) (whole div min_run_bytes)
      in if parts \<le> 1 then Some [args]
         else map_option (\<lambda>st. ss_out st @ [drop (ss_start st) args])
           (spread_loop args whole parts (enumerate 0 sizes)
             \<lparr>ss_out = [], ss_start = 0, ss_seen = 0\<rparr>))"

definition spread_runs :: "'a list \<Rightarrow> nat list \<Rightarrow> nat \<Rightarrow> 'a list list option" where
  "spread_runs args sizes cpus =
     (let by_data = u64 (sum_list sizes) div min_run_bytes in
      if min by_data (length args) \<le> 1 then Some [args] else spread args sizes cpus)"

section \<open>The invocations of a table\<close>

definition lone_run ::
  "bool \<Rightarrow> os_string list \<Rightarrow> nat list \<Rightarrow> nat \<Rightarrow> nat \<Rightarrow> os_string list option option"
where
  "lone_run windows paths sizes budget cpus =
     (let args = map non_verbatim_path paths in
      if budget < argv_bytes windows args then Some None
      else map_option (\<lambda>runs. if length runs = 1 then Some args else None)
        (spread_runs args sizes cpus))"

text \<open>
  What \<open>run_streaming_on\<close> runs: nothing, one invocation in place, or a queue of jobs. The
  jobs are numbered from 0 in this order. \<open>known\<close> says the path iterator knew its length;
  \<open>sizes\<close> are the files' sizes.
\<close>

datatype invocations = No_run | Lone "os_string list" | Jobs "os_string list list"

definition plan_jobs ::
  "bool \<Rightarrow> os_string list \<Rightarrow> nat list \<Rightarrow> nat \<Rightarrow> nat \<Rightarrow> os_string list list option"
where
  "plan_jobs windows paths sizes budget cpus =
     (case pack_from (arg_cost windows) (packer_new budget) (map non_verbatim_path paths) of
        (sent, rest) \<Rightarrow>
          if sent = [] then spread_runs rest sizes cpus else Some (sent @ [rest]))"

definition plan_invocations ::
  "bool \<Rightarrow> bool \<Rightarrow> os_string list \<Rightarrow> nat list \<Rightarrow> nat \<Rightarrow> nat \<Rightarrow> invocations option"
where
  "plan_invocations windows known paths sizes budget cpus =
     (if paths = [] then Some No_run
      else if known then
        (case lone_run windows paths sizes budget cpus of
           None \<Rightarrow> None
         | Some (Some args) \<Rightarrow> Some (Lone args)
         | Some None \<Rightarrow> map_option Jobs (plan_jobs windows paths sizes budget cpus))
      else map_option Jobs (plan_jobs windows paths sizes budget cpus))"

text \<open>\<open>Tally::next\<close>: the number of a job and whether it gets a worker of its own.\<close>

record tally =
  tly_workers :: nat
  tly_limit :: nat
  tly_sent :: nat

definition tally_next :: "tally \<Rightarrow> (nat \<times> bool) \<times> tally" where
  "tally_next t =
     ((tly_sent t, tly_workers t < tly_limit t),
      t\<lparr>tly_sent := tly_sent t + 1, tly_workers := (if tly_workers t < tly_limit t then tly_workers t + 1 else tly_workers t)\<rparr>)"

section \<open>One invocation\<close>

text \<open>The state of the callback \<open>run_invocation\<close> hands the blocks to, and the rows it sent.\<close>

record feed =
  fd_bad :: "rstr option"
  fd_lines :: nat
  fd_sent :: "json_row list list"

definition bad_output_message :: "rstr \<Rightarrow> rstr" where
  "bad_output_message message =
     ascii ''on-file output was not one JSON object per line: '' @ message"

definition on_block :: "(rstr \<Rightarrow> rstr + json_row) \<Rightarrow> rstr \<Rightarrow> feed \<Rightarrow> feed" where
  "on_block parse_row block fd =
     (if fd_bad fd \<noteq> None then fd
      else (case parse_rows_at parse_row block (fd_lines fd) of
          Inr rows \<Rightarrow>
            fd\<lparr>fd_lines := fd_lines fd + length (filter ((=) c_nl) block),
               fd_sent := fd_sent fd @ (if rows = [] then [] else [rows])\<rparr>
        | Inl message \<Rightarrow> fd\<lparr>fd_bad := Some (bad_output_message message)\<rparr>))"

fun on_event :: "(rstr \<Rightarrow> rstr + json_row) \<Rightarrow> drain_event \<Rightarrow> feed \<Rightarrow> feed" where
  "on_event parse_row (Block b) fd = on_block parse_row b fd"
| "on_event parse_row Eof fd = fd"
| "on_event parse_row Reap fd = fd"

definition spawn_failure :: "(rstr \<Rightarrow> rstr) \<Rightarrow> command_error \<Rightarrow> rstr" where
  "spawn_failure debug_str e = ascii ''on-file command failed: '' @ command_error_text debug_str e"

definition run_invocation ::
  "(rstr \<Rightarrow> rstr + json_row) \<Rightarrow> (rstr \<Rightarrow> rstr) \<Rightarrow> dir_probe \<Rightarrow> ('a list \<Rightarrow> io_error + child) \<Rightarrow>
   ('a \<Rightarrow> rstr) \<Rightarrow> rstr \<Rightarrow> 'a list \<Rightarrow> (json_row list list \<times> (rstr + unit)) option"
where
  "run_invocation parse_row debug_str cwd spawn to_string_lossy cmd full =
     map_option
       (\<lambda>(events, result).
          let fd = fold (on_event parse_row) events \<lparr>fd_bad = None, fd_lines = 0, fd_sent = []\<rparr> in
          (fd_sent fd,
           case result of
             Inl e \<Rightarrow> Inl (spawn_failure debug_str e)
           | Inr _ \<Rightarrow> (case fd_bad fd of None \<Rightarrow> Inr () | Some m \<Rightarrow> Inl m)))
       (run_argv_blocks cwd spawn to_string_lossy cmd full)"

section \<open>The pool\<close>

text \<open>
  \<open>Pool::work\<close>, by any number of workers at once: an invocation under way has chunks of rows
  left to send and an outcome. A worker that finds the pool aborted stops.
\<close>

type_synonym outcome = "rstr + unit"

record pool_state =
  po_jobs :: "(nat \<times> os_string list) list"
  po_running :: "(nat \<times> json_row list list \<times> outcome) list"
  po_sunk :: "(nat \<times> json_row list) list"
  po_aborted :: bool
  po_failures :: "(nat \<times> rstr) list"

inductive pool_step ::
  "(os_string list \<Rightarrow> json_row list list \<times> outcome) \<Rightarrow> pool_state \<Rightarrow> pool_state \<Rightarrow> bool"
  for invoke
where
  take_job: "po_jobs st = (i, args) # js \<Longrightarrow> \<not> po_aborted st \<Longrightarrow>
    pool_step invoke st (st\<lparr>po_jobs := js, po_running := (i, invoke args) # po_running st\<rparr>)"
| send: "po_running st = xs @ (i, c # cs, r) # ys \<Longrightarrow>
    pool_step invoke st (st\<lparr>po_running := xs @ (i, cs, r) # ys, po_sunk := po_sunk st @ [(i, c)]\<rparr>)"
| finish: "po_running st = xs @ (i, [], Inr ()) # ys \<Longrightarrow>
    pool_step invoke st (st\<lparr>po_running := xs @ ys\<rparr>)"
| fail: "po_running st = xs @ (i, [], Inl m) # ys \<Longrightarrow>
    pool_step invoke st (st\<lparr>po_running := xs @ ys, po_aborted := True,
      po_failures := po_failures st @ [(i, m)]\<rparr>)"

definition pool_start :: "os_string list list \<Rightarrow> pool_state" where
  "pool_start jobs =
     \<lparr>po_jobs = enumerate 0 jobs, po_running = [], po_sunk = [], po_aborted = False, po_failures = []\<rparr>"

inductive pool_reachable ::
  "(os_string list \<Rightarrow> json_row list list \<times> outcome) \<Rightarrow> os_string list list \<Rightarrow> pool_state \<Rightarrow> bool"
  for invoke jobs
where
  pool_init: "pool_reachable invoke jobs (pool_start jobs)"
| pool_more: "pool_reachable invoke jobs st \<Longrightarrow> pool_step invoke st st' \<Longrightarrow>
    pool_reachable invoke jobs st'"

definition pool_done :: "pool_state \<Rightarrow> bool" where
  "pool_done st \<longleftrightarrow> po_running st = [] \<and> (po_jobs st = [] \<or> po_aborted st)"

text \<open>The earliest invocation's failure outranks a later one's.\<close>

definition pool_result :: "pool_state \<Rightarrow> outcome" where
  "pool_result st =
     (case sort_key fst (po_failures st) of [] \<Rightarrow> Inr () | f # fs \<Rightarrow> Inl (snd f))"

inductive_cases pool_stepE: "pool_step invoke st st'"

section \<open>Packing is greedy and so the fewest\<close>

abbreviation total_cost :: "('a \<Rightarrow> nat) \<Rightarrow> 'a list \<Rightarrow> nat" where
  "total_cost cost run \<equiv> sum_list (map cost run)"

definition run_fits :: "('a \<Rightarrow> nat) \<Rightarrow> nat \<Rightarrow> 'a list \<Rightarrow> bool" where
  "run_fits cost budget run \<longleftrightarrow> run \<noteq> [] \<and> (length run = 1 \<or> total_cost cost run \<le> budget)"

text \<open>The lists the packer makes when it holds \<open>cur\<close>.\<close>

fun greedy :: "('a \<Rightarrow> nat) \<Rightarrow> nat \<Rightarrow> 'a list \<Rightarrow> 'a list \<Rightarrow> 'a list list" where
  "greedy cost budget cur [] = [cur]"
| "greedy cost budget cur (a # as) =
     (if cur \<noteq> [] \<and> budget < total_cost cost cur + cost a then cur # greedy cost budget [a] as
      else greedy cost budget (cur @ [a]) as)"

lemma pack_from_greedy:
  "pk_budget p = budget \<Longrightarrow> pk_used p = total_cost cost (pk_args p) \<Longrightarrow>
   (case pack_from cost p as of (full, rest) \<Rightarrow> full @ [rest]) = greedy cost budget (pk_args p) as"
proof (induction as arbitrary: p)
  case (Cons a as)
  let ?p = "snd (push cost p a)"
  obtain full rest where r: "pack_from cost ?p as = (full, rest)" by fastforce
  have "full @ [rest] = greedy cost budget (pk_args ?p) as"
    using Cons.IH [of ?p] Cons.prems r by (auto simp: push_def)
  with r Cons.prems show ?case by (auto simp: push_def)
qed simp

lemma greedy_concat: "concat (greedy cost budget cur as) = cur @ as"
  by (induction as arbitrary: cur) auto

lemma greedy_fits: "run_fits cost budget cur \<or> cur = [] \<and> as \<noteq> [] \<Longrightarrow> list_all (run_fits cost budget) (greedy cost budget cur as)"
proof (induction as arbitrary: cur)
  case (Cons a as)
  have "run_fits cost budget [a]" by (simp add: run_fits_def)
  show ?case
  proof (cases "cur \<noteq> [] \<and> budget < total_cost cost cur + cost a")
    case True
    with Cons \<open>run_fits cost budget [a]\<close> show ?thesis by auto
  next
    case False
    then have "run_fits cost budget (cur @ [a])" by (auto simp: run_fits_def)
    with Cons.IH [of "cur @ [a]"] False show ?thesis by auto
  qed
qed auto

text \<open>Holding more costs at most one list, and never saves one.\<close>

lemma greedy_suffix:
  "e \<noteq> [] \<Longrightarrow> length (greedy cost budget e as) \<le> length (greedy cost budget (d @ e) as) \<and>
     length (greedy cost budget (d @ e) as) \<le> Suc (length (greedy cost budget e as))"
proof (induction as arbitrary: d e)
  case (Cons a as)
  note ih = Cons.IH [of "e @ [a]" d] Cons.IH [of "[a]" e] Cons.IH [of "[a]" "d @ e"]
  show ?case using Cons.prems ih by auto
qed simp

lemma greedy_ahead:
  "cur \<noteq> [] \<Longrightarrow> d = e @ cur \<Longrightarrow> runs \<noteq> [] \<Longrightarrow> list_all (run_fits cost budget) runs \<Longrightarrow>
   concat runs = d @ as \<Longrightarrow> hd runs = d @ pre \<Longrightarrow> length (greedy cost budget cur as) \<le> length runs"
proof (induction as arbitrary: cur d e pre runs)
  case Nil
  then show ?case by (cases runs) auto
next
  case (Cons a as)
  obtain r rs where runs: "runs = r # rs" using Cons.prems(3) by (cases runs) auto
  show ?case
  proof (cases pre)
    case Nil
    then have r: "r = d" "concat rs = a # as" using Cons.prems runs by auto
    then obtain r' rs' where rs: "rs = r' # rs'" by (cases rs) auto
    have "r' \<noteq> []" using Cons.prems(4) runs rs by (simp add: run_fits_def)
    then obtain pre' where "r' = [a] @ pre'" using r rs by (cases r') auto
    then have "length (greedy cost budget [a] as) \<le> length rs"
      using Cons.IH [of "[a]" "[a]" "[]" rs pre'] Cons.prems(4) runs rs r by auto
    moreover have "length (greedy cost budget (cur @ [a]) as) \<le> Suc (length (greedy cost budget [a] as))"
      using greedy_suffix [where e = "[a]" and d = cur and as = as] by simp
    ultimately show ?thesis using runs by auto
  next
    case (Cons b pre')
    have b: "b = a" "r = d @ [a] @ pre'" using Cons.prems Cons runs by auto
    have "total_cost cost r \<le> budget"
      using Cons.prems(1,2,4) runs b by (auto simp: run_fits_def)
    then have "total_cost cost cur + cost a \<le> budget" using Cons.prems(2) b by simp
    moreover have "length (greedy cost budget (cur @ [a]) as) \<le> length runs"
      using Cons.IH [of "cur @ [a]" "d @ [a]" e runs pre'] Cons.prems b runs by auto
    ultimately show ?thesis by auto
  qed
qed

lemma greedy_fewest:
  assumes "as \<noteq> []" "list_all (run_fits cost budget) runs" "concat runs = as"
  shows "length (greedy cost budget [] as) \<le> length runs"
proof -
  obtain a as' where as: "as = a # as'" using assms(1) by (cases as) auto
  obtain r rs where runs: "runs = r # rs" using assms as by (cases runs) auto
  have "r \<noteq> []" using assms(2) runs by (simp add: run_fits_def)
  then obtain pre where "r = [a] @ pre" using assms(3) as runs by (cases r) auto
  then show ?thesis
    using greedy_ahead [where cur = "[a]" and d = "[a]" and e = "[]" and runs = runs and as = as' and pre = pre] assms as runs by simp
qed

text \<open>The lists \<open>run_streaming_on\<close> makes of its arguments when the data justifies no further
  split.\<close>

definition packed :: "('a \<Rightarrow> nat) \<Rightarrow> nat \<Rightarrow> 'a list \<Rightarrow> 'a list list" where
  "packed cost budget args =
     (case pack_from cost (packer_new budget) args of (full, rest) \<Rightarrow> full @ [rest])"

lemma packed_greedy: "packed cost budget args = greedy cost budget [] args"
  using pack_from_greedy [of "packer_new budget" budget cost args]
  by (simp add: packed_def packer_new_def)

section \<open>Spreading keeps every argument\<close>

lemma spread_loop_inv:
  assumes "ss_start st \<le> k" "k + length sizes = length args"
    "concat (ss_out st) = take (ss_start st) args" "length (ss_out st) < parts"
    "[] \<notin> set (ss_out st)" "ss_start st < length args"
  shows "\<exists>st'. spread_loop args whole parts (enumerate k sizes) st = Some st' \<and>
    ss_start st' < length args \<and> concat (ss_out st') = take (ss_start st') args \<and>
    length (ss_out st') < parts \<and> [] \<notin> set (ss_out st')"
  using assms
proof (induction sizes arbitrary: k st)
  case (Cons sz sizes)
  let ?seen = "u64 (ss_seen st + sz)"
  show ?case
  proof (cases "k + 1 \<noteq> length args \<and> length (ss_out st) + 1 < parts \<and>
      u64 (whole * (length (ss_out st) + 1)) \<le> u64 (?seen * parts)")
    case True
    let ?run = "take (k + 1 - ss_start st) (drop (ss_start st) args)"
    let ?st = "\<lparr>ss_out = ss_out st @ [?run], ss_start = k + 1, ss_seen = ?seen\<rparr>"
    have "concat (ss_out ?st) = take (ss_start ?st) args"
      using Cons.prems(1,3) take_add [of "ss_start st" "k + 1 - ss_start st" args] by simp
    moreover have "?run \<noteq> []" using Cons.prems(1,2) by simp
    ultimately have "\<exists>st'. spread_loop args whole parts (enumerate (Suc k) sizes) ?st = Some st' \<and>
        ss_start st' < length args \<and> concat (ss_out st') = take (ss_start st') args \<and>
        length (ss_out st') < parts \<and> [] \<notin> set (ss_out st')"
      using Cons.prems True by (intro Cons.IH) auto
    then show ?thesis using True Cons.prems(1,2) by (simp add: Let_def)
  next
    case False
    have "\<exists>st'. spread_loop args whole parts (enumerate (Suc k) sizes) (st\<lparr>ss_seen := ?seen\<rparr>) = Some st' \<and>
        ss_start st' < length args \<and> concat (ss_out st') = take (ss_start st') args \<and>
        length (ss_out st') < parts \<and> [] \<notin> set (ss_out st')"
      using Cons.prems by (intro Cons.IH) auto
    then show ?thesis
      unfolding enumerate_simps(2) spread_loop.simps Let_def if_not_P [OF False] .
  qed
qed auto

lemma spread_spec:
  assumes "length sizes = length args"
  shows "\<exists>runs. spread args sizes parts = Some runs \<and> concat runs = args \<and>
    length runs \<le> max 1 parts \<and> (args \<noteq> [] \<longrightarrow> [] \<notin> set runs)"
proof -
  define whole where "whole = u64 (sum_list sizes)"
  define n where "n = min (min parts (length args)) (whole div min_run_bytes)"
  show ?thesis
  proof (cases "n \<le> 1")
    case True
    then show ?thesis by (auto simp: spread_def Let_def whole_def n_def)
  next
    case False
    then have "args \<noteq> []" by (auto simp: n_def)
    then obtain st where st: "spread_loop args whole n (enumerate 0 sizes)
        \<lparr>ss_out = [], ss_start = 0, ss_seen = 0\<rparr> = Some st"
      "ss_start st < length args" "concat (ss_out st) = take (ss_start st) args"
      "length (ss_out st) < n" "[] \<notin> set (ss_out st)"
      using spread_loop_inv [of "\<lparr>ss_out = [], ss_start = 0, ss_seen = 0\<rparr>" 0 sizes args n whole]
        False assms by auto
    have "spread args sizes parts = Some (ss_out st @ [drop (ss_start st) args])"
      using st(1) False by (simp add: spread_def Let_def whole_def [symmetric] n_def [symmetric])
    then show ?thesis using st(2-5) by (auto simp: n_def)
  qed
qed

lemma spread_runs_spec:
  assumes "length sizes = length args" "args \<noteq> []"
  shows "\<exists>runs. spread_runs args sizes cpus = Some runs \<and> concat runs = args \<and> [] \<notin> set runs"
  using spread_spec [OF assms(1), of cpus] assms(2) by (auto simp: spread_runs_def Let_def)

section \<open>The plan covers the paths\<close>

fun invocation_args :: "invocations \<Rightarrow> os_string list list" where
  "invocation_args No_run = []"
| "invocation_args (Lone args) = [args]"
| "invocation_args (Jobs runs) = runs"

lemma run_fits_parts:
  assumes "run_fits cost budget (concat runs)" "[] \<notin> set runs"
  shows "list_all (run_fits cost budget) runs"
  using assms
proof (induction runs)
  case (Cons r rs)
  have r: "r \<noteq> []" using Cons.prems(2) by auto
  then have "0 < length r" by simp
  then have "length r = 1 \<or> total_cost cost r \<le> budget"
    using Cons.prems(1) by (cases "length r") (auto simp: run_fits_def)
  moreover have "rs = [] \<or> run_fits cost budget (concat rs)"
  proof (cases rs)
    case (Cons q qs)
    then have "concat rs \<noteq> []" using Cons.prems(2) by auto
    moreover have "length (r @ concat rs) \<noteq> 1" using r \<open>concat rs \<noteq> []\<close> by (cases r) auto
    ultimately show ?thesis using Cons.prems(1) by (auto simp: run_fits_def)
  qed simp
  ultimately show ?case using Cons.IH Cons.prems(2) r by (auto simp: run_fits_def)
qed simp

lemma plan_jobs_spec:
  assumes "length sizes = length paths" "paths \<noteq> []"
  shows "\<exists>runs. plan_jobs windows paths sizes budget cpus = Some runs \<and>
    concat runs = map non_verbatim_path paths \<and> list_all (run_fits (arg_cost windows) budget) runs"
proof -
  let ?args = "map non_verbatim_path paths" and ?cost = "arg_cost windows"
  obtain sent rest where p: "pack_from ?cost (packer_new budget) ?args = (sent, rest)" by fastforce
  have all: "sent @ [rest] = greedy ?cost budget [] ?args"
    using packed_greedy [of ?cost budget ?args] p by (simp add: packed_def)
  have cc: "concat (sent @ [rest]) = ?args" unfolding all by (simp add: greedy_concat)
  have fit: "list_all (run_fits ?cost budget) (sent @ [rest])"
    unfolding all using assms(2) by (intro greedy_fits) auto
  show ?thesis
  proof (cases "sent = []")
    case True
    then have rest: "rest = ?args" using cc by simp
    obtain runs where runs: "spread_runs ?args sizes cpus = Some runs" "concat runs = ?args"
      "[] \<notin> set runs"
      using spread_runs_spec [of sizes ?args cpus] assms by auto
    have "list_all (run_fits ?cost budget) runs"
      using run_fits_parts [of ?cost budget runs] runs fit True rest by simp
    then show ?thesis using p True rest runs by (simp add: plan_jobs_def)
  next
    case False
    then show ?thesis using p cc fit by (simp add: plan_jobs_def)
  qed
qed

section \<open>What an invocation sends\<close>

lemma parse_rows_Nil: "parse_rows_at parse_row [] k = Inr []"
  by (simp add: parse_rows_at_def str_lines_def)

lemma on_block_whole:
  assumes "whole_lines b" "fd_bad fd = None"
  shows "case parse_rows_at parse_row b (fd_lines fd) of
      Inl m \<Rightarrow> fd_bad (on_block parse_row b fd) = Some (bad_output_message m)
    | Inr rows \<Rightarrow> fd_bad (on_block parse_row b fd) = None \<and>
        fd_lines (on_block parse_row b fd) = fd_lines fd + length (str_lines b) \<and>
        concat (fd_sent (on_block parse_row b fd)) = concat (fd_sent fd) @ rows"
proof -
  obtain a where "b = a @ [c_nl]"
    using assms(1) by (cases b rule: rev_cases) (auto simp: whole_lines_def)
  then show ?thesis
    using assms(2) by (simp add: on_block_def length_str_lines_nl split: sum.split)
qed

lemma fold_bad: "fd_bad fd \<noteq> None \<Longrightarrow> fold (on_block parse_row) bs fd = fd"
  by (induction bs) (auto simp: on_block_def)

lemma fold_blocks:
  "fd_bad fd = None \<Longrightarrow> list_all whole_lines (butlast bs) \<Longrightarrow>
   (case parse_rows_at parse_row (concat bs) (fd_lines fd) of
      Inl m \<Rightarrow> fd_bad (fold (on_block parse_row) bs fd) = Some (bad_output_message m)
    | Inr rows \<Rightarrow> fd_bad (fold (on_block parse_row) bs fd) = None \<and>
        concat (fd_sent (fold (on_block parse_row) bs fd)) = concat (fd_sent fd) @ rows)"
proof (induction bs arbitrary: fd)
  case Nil
  then show ?case by (simp add: parse_rows_Nil)
next
  case (Cons b bs)
  let ?fd = "on_block parse_row b fd"
  show ?case
  proof (cases "bs = []")
    case True
    then show ?thesis using Cons.prems(1) by (auto simp: on_block_def split: sum.split)
  next
    case False
    then have b: "whole_lines b" "list_all whole_lines (butlast bs)" using Cons.prems(2) by auto
    then obtain a where a: "b = a @ [c_nl]"
      by (cases b rule: rev_cases) (auto simp: whole_lines_def)
    note split = parse_rows_split [of parse_row a "concat bs" "fd_lines fd"]
    show ?thesis
    proof (cases "parse_rows_at parse_row b (fd_lines fd)")
      case (Inl m)
      then have "fd_bad ?fd = Some (bad_output_message m)"
        using on_block_whole [OF b(1) Cons.prems(1), of parse_row] by simp
      then show ?thesis using Inl a split fold_bad [of ?fd parse_row bs] by simp
    next
      case (Inr rows)
      then have fd: "fd_bad ?fd = None" "fd_lines ?fd = fd_lines fd + length (str_lines b)"
        "concat (fd_sent ?fd) = concat (fd_sent fd) @ rows"
        using on_block_whole [OF b(1) Cons.prems(1), of parse_row] by auto
      then show ?thesis
        using Cons.IH [OF fd(1) b(2)] Inr a split by (auto split: sum.splits)
    qed
  qed
qed

lemma fold_events: "fold (on_event parse_row) (map Block bs) fd = fold (on_block parse_row) bs fd"
  by (induction bs arbitrary: fd) auto

section \<open>What the pool delivers\<close>

abbreviation rows_of :: "nat \<Rightarrow> (nat \<times> json_row list) list \<Rightarrow> json_row list list" where
  "rows_of i sunk \<equiv> map snd (filter (\<lambda>e. fst e = i) sunk)"

abbreviation left_of :: "nat \<Rightarrow> (nat \<times> json_row list list \<times> outcome) list \<Rightarrow> json_row list list" where
  "left_of i running \<equiv> concat (map (fst \<circ> snd) (filter (\<lambda>e. fst e = i) running))"

text \<open>The number of jobs taken is \<open>k\<close>: a later job has sent nothing; an earlier one has sent
  its chunks up to those it has left, and is running, done, or recorded as failed.\<close>

definition pool_inv ::
  "(os_string list \<Rightarrow> json_row list list \<times> outcome) \<Rightarrow> os_string list list \<Rightarrow> pool_state \<Rightarrow> bool"
where
  "pool_inv invoke jobs st \<longleftrightarrow> (\<exists>k \<le> length jobs.
     po_jobs st = drop k (enumerate 0 jobs) \<and>
     distinct (map fst (po_running st)) \<and>
     (\<forall>e \<in> set (po_running st). fst e < k \<and> snd (snd e) = snd (invoke (jobs ! fst e))) \<and>
     (\<forall>e \<in> set (po_sunk st). fst e < k) \<and>
     (\<forall>i < k. rows_of i (po_sunk st) @ left_of i (po_running st) = fst (invoke (jobs ! i)) \<and>
        (i \<in> fst ` set (po_running st) \<or> snd (invoke (jobs ! i)) = Inr () \<or>
         (\<exists>m. (i, m) \<in> set (po_failures st)))) \<and>
     (\<forall>(i, m) \<in> set (po_failures st). i < k \<and> snd (invoke (jobs ! i)) = Inl m) \<and>
     (po_aborted st \<longleftrightarrow> po_failures st \<noteq> []))"

lemma filter_fst_none: "i \<notin> fst ` set xs \<Longrightarrow> filter (\<lambda>e. fst e = i) xs = []"
  by (auto simp: filter_empty_conv)

lemma left_of_none: "i \<notin> fst ` set xs \<Longrightarrow> left_of i xs = []"
  by (simp add: filter_fst_none)

lemma left_of_middle:
  "distinct (map fst (xs @ (j, cs, r) # ys)) \<Longrightarrow>
   left_of i (xs @ (j, cs, r) # ys) = (if i = j then cs else left_of i (xs @ ys))"
  using filter_fst_none [of j xs] filter_fst_none [of j ys] by auto

lemma pool_inv_take:
  assumes "pool_inv invoke jobs st" "po_jobs st = (i, args) # js"
  shows "pool_inv invoke jobs (st\<lparr>po_jobs := js, po_running := (i, invoke args) # po_running st\<rparr>)"
proof -
  obtain k where k: "k \<le> length jobs" "po_jobs st = drop k (enumerate 0 jobs)"
    "distinct (map fst (po_running st))"
    "\<forall>e \<in> set (po_running st). fst e < k \<and> snd (snd e) = snd (invoke (jobs ! fst e))"
    "\<forall>e \<in> set (po_sunk st). fst e < k"
    "\<forall>i < k. rows_of i (po_sunk st) @ left_of i (po_running st) = fst (invoke (jobs ! i)) \<and>
        (i \<in> fst ` set (po_running st) \<or> snd (invoke (jobs ! i)) = Inr () \<or>
         (\<exists>m. (i, m) \<in> set (po_failures st)))"
    "\<forall>(i, m) \<in> set (po_failures st). i < k \<and> snd (invoke (jobs ! i)) = Inl m"
    "po_aborted st \<longleftrightarrow> po_failures st \<noteq> []"
    using assms(1) unfolding pool_inv_def by blast
  have lt: "k < length jobs" using k(1,2) assms(2) by (cases "k = length jobs") auto
  then have "drop k (enumerate 0 jobs) = (k, jobs ! k) # drop (Suc k) (enumerate 0 jobs)"
    by (metis Cons_nth_drop_Suc add_0 length_enumerate nth_enumerate_eq)
  then have i: "i = k" "args = jobs ! k" "js = drop (Suc k) (enumerate 0 jobs)"
    using assms(2) k(2) by auto
  have fresh: "k \<notin> fst ` set (po_running st)" "k \<notin> fst ` set (po_sunk st)"
    using k(4,5) by auto
  have rows: "rows_of k (po_sunk st) = []" "left_of k (po_running st) = []"
    using filter_fst_none [OF fresh(1)] filter_fst_none [OF fresh(2)] by simp_all
  have old: "rows_of j (po_sunk st) @ left_of j ((k, invoke (jobs ! k)) # po_running st) =
      fst (invoke (jobs ! j)) \<and> (j \<in> fst ` set ((k, invoke (jobs ! k)) # po_running st) \<or>
      snd (invoke (jobs ! j)) = Inr () \<or> (\<exists>m. (j, m) \<in> set (po_failures st)))" if "j < Suc k" for j
  proof (cases "j = k")
    case True
    then show ?thesis using rows by simp
  next
    case False
    then have "j < k" using that by simp
    with k(6) False show ?thesis by auto
  qed
  show ?thesis
    unfolding pool_inv_def
    using lt k(3-5,7,8) i fresh old by (intro exI [of _ "Suc k"] conjI) (auto simp: less_Suc_eq)
qed

lemma pool_invE:
  assumes "pool_inv invoke jobs st"
  obtains k where "k \<le> length jobs" "po_jobs st = drop k (enumerate 0 jobs)"
    "distinct (map fst (po_running st))"
    "\<forall>e \<in> set (po_running st). fst e < k \<and> snd (snd e) = snd (invoke (jobs ! fst e))"
    "\<forall>e \<in> set (po_sunk st). fst e < k"
    "\<forall>i < k. rows_of i (po_sunk st) @ left_of i (po_running st) = fst (invoke (jobs ! i)) \<and>
        (i \<in> fst ` set (po_running st) \<or> snd (invoke (jobs ! i)) = Inr () \<or>
         (\<exists>m. (i, m) \<in> set (po_failures st)))"
    "\<forall>(i, m) \<in> set (po_failures st). i < k \<and> snd (invoke (jobs ! i)) = Inl m"
    "po_aborted st \<longleftrightarrow> po_failures st \<noteq> []"
  using assms unfolding pool_inv_def by blast

lemma pool_inv_send:
  assumes "pool_inv invoke jobs st" "po_running st = xs @ (i, c # cs, r) # ys"
  shows "pool_inv invoke jobs
    (st\<lparr>po_running := xs @ (i, cs, r) # ys, po_sunk := po_sunk st @ [(i, c)]\<rparr>)"
proof -
  obtain k where k: "k \<le> length jobs" "po_jobs st = drop k (enumerate 0 jobs)"
    "distinct (map fst (po_running st))"
    "\<forall>e \<in> set (po_running st). fst e < k \<and> snd (snd e) = snd (invoke (jobs ! fst e))"
    "\<forall>e \<in> set (po_sunk st). fst e < k"
    "\<forall>i < k. rows_of i (po_sunk st) @ left_of i (po_running st) = fst (invoke (jobs ! i)) \<and>
        (i \<in> fst ` set (po_running st) \<or> snd (invoke (jobs ! i)) = Inr () \<or>
         (\<exists>m. (i, m) \<in> set (po_failures st)))"
    "\<forall>(i, m) \<in> set (po_failures st). i < k \<and> snd (invoke (jobs ! i)) = Inl m"
    "po_aborted st \<longleftrightarrow> po_failures st \<noteq> []"
    using assms(1) by (rule pool_invE)
  have d: "distinct (map fst (xs @ (i, c # cs, r) # ys))" "distinct (map fst (xs @ (i, cs, r) # ys))"
    using k(3) assms(2) by simp_all
  have "rows_of j (po_sunk st @ [(i, c)]) @ left_of j (xs @ (i, cs, r) # ys) =
      rows_of j (po_sunk st) @ left_of j (po_running st)" for j
    unfolding assms(2) left_of_middle [OF d(1)] left_of_middle [OF d(2)] by simp
  then show ?thesis
    unfolding pool_inv_def
    using k assms(2) d(2)
    by (intro exI [of _ k] conjI) (simp_all del: map_append filter_append distinct_append)
qed

lemma pool_inv_end:
  assumes "pool_inv invoke jobs st" "po_running st = xs @ (i, [], r) # ys"
    "r = Inr () \<and> ab = po_aborted st \<and> fs = po_failures st \<or>
     (\<exists>m. r = Inl m \<and> ab \<and> fs = po_failures st @ [(i, m)])"
  shows "pool_inv invoke jobs (st\<lparr>po_running := xs @ ys, po_aborted := ab, po_failures := fs\<rparr>)"
proof -
  obtain k where k: "k \<le> length jobs" "po_jobs st = drop k (enumerate 0 jobs)"
    "distinct (map fst (po_running st))"
    "\<forall>e \<in> set (po_running st). fst e < k \<and> snd (snd e) = snd (invoke (jobs ! fst e))"
    "\<forall>e \<in> set (po_sunk st). fst e < k"
    "\<forall>i < k. rows_of i (po_sunk st) @ left_of i (po_running st) = fst (invoke (jobs ! i)) \<and>
        (i \<in> fst ` set (po_running st) \<or> snd (invoke (jobs ! i)) = Inr () \<or>
         (\<exists>m. (i, m) \<in> set (po_failures st)))"
    "\<forall>(i, m) \<in> set (po_failures st). i < k \<and> snd (invoke (jobs ! i)) = Inl m"
    "po_aborted st \<longleftrightarrow> po_failures st \<noteq> []"
    using assms(1) by (rule pool_invE)
  have d: "distinct (map fst (xs @ (i, [], r) # ys))" using k(3) assms(2) by simp
  have i: "i < k" "r = snd (invoke (jobs ! i))" using k(4) assms(2) by auto
  have d2: "distinct (map fst (xs @ ys))" using d by auto
  have "i \<notin> fst ` set (xs @ ys)" using d by auto
  then have "left_of i (xs @ ys) = []" by (rule left_of_none)
  then have "left_of j (xs @ ys) = left_of j (po_running st)" for j
    unfolding assms(2) left_of_middle [OF d] by (cases "j = i") (simp_all only: if_True if_False refl)
  then have "rows_of j (po_sunk st) @ left_of j (xs @ ys) = fst (invoke (jobs ! j))" if "j < k" for j
    using k(6) that by metis
  moreover have "j \<in> fst ` set (xs @ ys) \<or> snd (invoke (jobs ! j)) = Inr () \<or> (\<exists>m. (j, m) \<in> set fs)"
    if "j < k" for j
  proof (cases "j = i")
    case True
    then show ?thesis using assms(3) i(2) by auto
  next
    case False
    then show ?thesis using k(6) that assms(2,3) by fastforce
  qed
  moreover have "\<forall>(j, m) \<in> set fs. j < k \<and> snd (invoke (jobs ! j)) = Inl m" "ab \<longleftrightarrow> fs \<noteq> []"
    using k(7,8) assms(3) i by auto
  ultimately show ?thesis
    unfolding pool_inv_def
    using k(1-5) d2 assms(2)
    by (intro exI [of _ k] conjI) (auto simp del: map_append filter_append distinct_append)
qed

lemma pool_inv_reachable: "pool_reachable invoke jobs st \<Longrightarrow> pool_inv invoke jobs st"
proof (induction rule: pool_reachable.induct)
  case pool_init
  show ?case unfolding pool_inv_def pool_start_def by (intro exI [of _ 0]) simp
next
  case (pool_more st st')
  from pool_more.hyps(2) pool_more.IH show ?case
  proof (cases rule: pool_step.cases)
    case (take_job i args js)
    then show ?thesis using pool_inv_take pool_more.IH by blast
  next
    case (send xs i c cs r ys)
    then show ?thesis using pool_inv_send pool_more.IH by blast
  next
    case (finish xs i ys)
    then show ?thesis
      using pool_inv_end [OF pool_more.IH, of xs i "Inr ()" ys "po_aborted st" "po_failures st"] by simp
  next
    case (fail xs i m ys)
    then show ?thesis
      using pool_inv_end [OF pool_more.IH, of xs i "Inl m" ys True "po_failures st @ [(i, m)]"] by simp
  qed
qed

section \<open>Properties\<close>

text \<open>C11: the invocations of a table carry every matched path, once and in order, whichever way
  they were split; each list is non-empty and within the byte budget unless it is a single
  path, and no slice taken on the way is out of bounds.\<close>

theorem plan_covers_paths:
  "length sizes = length paths \<Longrightarrow>
   \<exists>inv. plan_invocations windows known paths sizes budget cpus = Some inv \<and>
     concat (invocation_args inv) = map non_verbatim_path paths \<and>
     list_all (run_fits (arg_cost windows) budget) (invocation_args inv)"
proof (cases "paths = []")
  case True
  then show ?thesis by (simp add: plan_invocations_def)
next
  case False
  assume len: "length sizes = length paths"
  obtain runs where runs: "plan_jobs windows paths sizes budget cpus = Some runs"
    "concat runs = map non_verbatim_path paths" "list_all (run_fits (arg_cost windows) budget) runs"
    using plan_jobs_spec [OF len False] by blast
  obtain parts where "spread_runs (map non_verbatim_path paths) sizes cpus = Some parts"
    using spread_runs_spec [of sizes "map non_verbatim_path paths" cpus] len False by auto
  then consider "lone_run windows paths sizes budget cpus = Some None"
    | "lone_run windows paths sizes budget cpus = Some (Some (map non_verbatim_path paths))"
      "argv_bytes windows (map non_verbatim_path paths) \<le> budget"
    by (cases "budget < argv_bytes windows (map non_verbatim_path paths)"; cases "length parts = 1")
       (simp_all add: lone_run_def Let_def)
  then show ?thesis
    using runs False by cases (auto simp: plan_invocations_def run_fits_def argv_bytes_def)
qed

theorem plan_covers_paths_witness:
  "\<exists>inv. plan_invocations False False [Unicode [97], Unicode [98]] [1, 1] 3 4 = Some inv \<and>
     concat (invocation_args inv) = map non_verbatim_path [Unicode [97], Unicode [98]] \<and>
     list_all (run_fits (arg_cost False) 3) (invocation_args inv)"
  by (rule plan_covers_paths) simp

text \<open>The packer makes the fewest argument lists: no way of cutting the same arguments, in
  order, into non-empty lists within the budget (or of a single argument) has fewer.\<close>

theorem packer_makes_fewest:
  assumes "list_all (run_fits cost budget) runs" "concat runs = args" "args \<noteq> []"
  shows "list_all (run_fits cost budget) (packed cost budget args) \<and>
    length (packed cost budget args) \<le> length runs"
  using assms greedy_fewest greedy_fits [of cost budget "[]" args] by (auto simp: packed_greedy)

theorem packer_makes_fewest_witness:
  "list_all (run_fits (\<lambda>n. n) 5) (packed (\<lambda>n. n) 5 [3, 2, 4, 9 :: nat]) \<and>
   length (packed (\<lambda>n. n) 5 [3, 2, 4, 9 :: nat]) \<le> length [[3], [2], [4], [9 :: nat]]"
  by (rule packer_makes_fewest) (simp_all add: run_fits_def)

text \<open>C10: what an invocation reports does not depend on the pieces its output arrived in: a spawn
  or exit failure outranks bad output, bad output is reported with its line number in the whole
  output, and otherwise the rows sent are exactly the rows the whole output parses to.\<close>

theorem run_invocation_outcome:
  "run_invocation parse_row debug_str cwd (\<lambda>_. Inr ch) lossy cmd (a # as) =
     Some (sent, result) \<Longrightarrow>
   (case wait_child cmd ch of
      Inl e \<Rightarrow> result = Inl (spawn_failure debug_str e)
    | Inr _ \<Rightarrow>
        (case parse_rows parse_row (from_utf8_lossy (stdout_bytes (ch_reads ch))) of
           Inl m \<Rightarrow> result = Inl (bad_output_message m)
         | Inr rows \<Rightarrow> result = Inr () \<and> concat sent = rows))"
proof -
  let ?fd = "\<lparr>fd_bad = None, fd_lines = 0, fd_sent = []\<rparr>"
  obtain bs where bs: "drain_then_reap (ch_reads ch) = map Block bs @ [Eof, Reap]"
    "concat bs = from_utf8_lossy (stdout_bytes (ch_reads ch))" "list_all whole_lines (butlast bs)"
    using drain_blocks [of "[]" "ch_reads ch"] by (auto simp: drain_then_reap_def)
  assume "run_invocation parse_row debug_str cwd (\<lambda>_. Inr ch) lossy cmd (a # as) = Some (sent, result)"
  then have s: "sent = fd_sent (fold (on_block parse_row) bs ?fd)"
    "result = (case wait_child cmd ch of Inl e \<Rightarrow> Inl (spawn_failure debug_str e)
       | Inr _ \<Rightarrow> (case fd_bad (fold (on_block parse_row) bs ?fd) of None \<Rightarrow> Inr () | Some m \<Rightarrow> Inl m))"
    unfolding run_invocation_def run_argv_blocks_def
    by (auto simp: bs(1) Let_def fold_events split: sum.splits option.splits)
  show ?thesis
    using fold_blocks [of ?fd bs parse_row] bs(2,3) s by (auto simp: parse_rows_def split: sum.splits)
qed

text \<open>C9: whatever the schedule of the workers, a pool that ends without a failure has delivered
  every invocation's rows, each chunk once and in its invocation's order, and nothing else; a
  pool that ends with one reports the failure of an invocation that did fail.\<close>

theorem pool_delivers:
  assumes "pool_reachable invoke jobs st" "pool_done st"
  shows "(case pool_result st of
      Inr _ \<Rightarrow> list_all (\<lambda>i. rows_of i (po_sunk st) = fst (invoke (jobs ! i)) \<and>
          snd (invoke (jobs ! i)) = Inr ()) [0..<length jobs] \<and>
        list_all (\<lambda>e. fst e < length jobs) (po_sunk st)
    | Inl m \<Rightarrow> \<exists>i < length jobs. snd (invoke (jobs ! i)) = Inl m)"
proof -
  obtain k where k: "k \<le> length jobs" "po_jobs st = drop k (enumerate 0 jobs)"
    "\<forall>e \<in> set (po_sunk st). fst e < k"
    "\<forall>i < k. rows_of i (po_sunk st) @ left_of i (po_running st) = fst (invoke (jobs ! i)) \<and>
        (i \<in> fst ` set (po_running st) \<or> snd (invoke (jobs ! i)) = Inr () \<or>
         (\<exists>m. (i, m) \<in> set (po_failures st)))"
    "\<forall>(i, m) \<in> set (po_failures st). i < k \<and> snd (invoke (jobs ! i)) = Inl m"
    "po_aborted st \<longleftrightarrow> po_failures st \<noteq> []"
    using pool_inv_reachable [OF assms(1)] by (rule pool_invE) blast
  show ?thesis
  proof (cases "sort_key fst (po_failures st)")
    case Nil
    then have none: "po_failures st = []" by (metis length_0_conv length_sort)
    then have "po_jobs st = []" "po_running st = []"
      using assms(2) k(6) by (auto simp: pool_done_def)
    then have "k = length jobs" using k(1,2) by simp
    then show ?thesis
      using k(3,4) none \<open>po_running st = []\<close> Nil
      by (simp add: pool_result_def list_all_iff)
  next
    case (Cons f fs)
    then have "f \<in> set (po_failures st)" by (metis list.set_intros(1) set_sort)
    then have "fst f < length jobs" "snd (invoke (jobs ! fst f)) = Inl (snd f)"
      using k(1,5) by auto
    then show ?thesis using Cons by (auto simp: pool_result_def)
  qed
qed

definition demo_child :: child where
  "demo_child =
     \<lparr>ch_status = Inr (Exited 0), ch_reads = [[123], [125, 10, 123], [125]], ch_stderr = []\<rparr>"

theorem run_invocation_outcome_witness:
  "\<exists>sent. run_invocation (\<lambda>_. Inr [([120], JInt 1)]) id
       \<lparr>cwd_is_dir = True, cwd_join = id, is_file = (\<lambda>_. False)\<rparr> (\<lambda>_. Inr demo_child) id [99] [[99]] =
       Some (sent, Inr ()) \<and> concat sent = [[([120], JInt 1)], [([120], JInt 1)]]"
proof -
  let ?row = "\<lambda>_ :: rstr. Inr [([120], JInt 1)]"
  let ?cwd = "\<lparr>cwd_is_dir = True, cwd_join = id, is_file = (\<lambda>_. False)\<rparr>"
  obtain sent result where r:
    "run_invocation ?row id ?cwd (\<lambda>_. Inr demo_child) id [99] [[99]] = Some (sent, result)"
    by (simp add: run_invocation_def run_argv_blocks_def Let_def)
  have "from_utf8_lossy (stdout_bytes (ch_reads demo_child)) = [123, 125, 10, 123, 125]"
    by (simp add: demo_child_def stdout_bytes_def from_utf8_lossy_ascii is_ascii_def)
  moreover have "parse_rows ?row [123, 125, 10, 123, 125] = Inr [[([120], JInt 1)], [([120], JInt 1)]]"
    by (simp add: parse_rows_def parse_rows_at_def str_lines_def strip_cr_def trim_def trim_start_def
        trim_end_def is_whitespace_def Let_def)
  moreover have "wait_child [99] demo_child = Inr ()"
    by (simp add: wait_child_def demo_child_def check_exit_def)
  ultimately have "result = Inr ()" "concat sent = [[([120], JInt 1)], [([120], JInt 1)]]"
    using run_invocation_outcome [OF r] by simp_all
  with r show ?thesis by blast
qed

definition demo_invoke :: "os_string list \<Rightarrow> json_row list list \<times> outcome" where
  "demo_invoke args = ([[[([120], JInt 1)]]], Inr ())"

lemma demo_reachable:
  "pool_reachable demo_invoke [[Unicode [97]]]
     \<lparr>po_jobs = [], po_running = [], po_sunk = [(0, [[([120], JInt 1)]])], po_aborted = False,
      po_failures = []\<rparr>"
proof -
  let ?r = "[[([120], JInt 1)]] :: json_row list"
  have 0: "pool_reachable demo_invoke [[Unicode [97]]] (pool_start [[Unicode [97]]])"
    by (rule pool_init)
  have 1: "pool_reachable demo_invoke [[Unicode [97]]]
      \<lparr>po_jobs = [], po_running = [(0, [?r], Inr ())], po_sunk = [], po_aborted = False, po_failures = []\<rparr>"
    using pool_more [OF 0 pool_step.take_job [of _ 0 "[Unicode [97]]" "[]" demo_invoke]]
    by (simp add: pool_start_def demo_invoke_def)
  have 2: "pool_reachable demo_invoke [[Unicode [97]]]
      \<lparr>po_jobs = [], po_running = [(0, [], Inr ())], po_sunk = [(0, ?r)], po_aborted = False, po_failures = []\<rparr>"
    using pool_more [OF 1 pool_step.send [of _ "[]" 0 ?r "[]" "Inr ()" "[]" demo_invoke]] by simp
  show ?thesis
    using pool_more [OF 2 pool_step.finish [of _ "[]" 0 "[]" demo_invoke]] by simp
qed

theorem pool_delivers_witness:
  "rows_of 0 [(0, [[([120], JInt 1)]])] = fst (demo_invoke [Unicode [97]])"
  using pool_delivers [OF demo_reachable] by (simp add: pool_done_def pool_result_def)

end
