(* ===== verification/Listing.thy ===== *)
theory Listing
  imports Utf8 "HOL-Library.Multiset" "HOL-Library.Product_Lexorder"
begin

text \<open>
  \<open>packages/rust/src/listing.rs\<close>: a directory's entries read in chunks, sorted by name and
  merged in parallel. A name is its bytes; their order is the lexicographic one. The unstable
  sort is modelled by a stable one, which no name can tell apart. A \<open>u32\<close> offset that does not
  fit and a slice out of bounds are \<open>None\<close>.
\<close>

section \<open>Entries and chunks\<close>

datatype seen = Seen_Dir | Seen_File | Seen_Link | Seen_Other | Seen_Unknown

datatype file_type = Regular | Directory | Symlink | Fifo | Char_Device | Block_Device | Socket | Unknown_Type

fun seen_of :: "file_type \<Rightarrow> seen" where
  "seen_of Directory = Seen_Dir"
| "seen_of Regular = Seen_File"
| "seen_of Symlink = Seen_Link"
| "seen_of Unknown_Type = Seen_Unknown"
| "seen_of _ = Seen_Other"

definition seen_flags :: "bool \<Rightarrow> bool \<Rightarrow> bool \<Rightarrow> seen" where
  "seen_flags symlink dir file =
     (if symlink then Seen_Link else if dir then Seen_Dir else if file then Seen_File else Seen_Other)"

record listed =
  li_prefix :: nat
  li_chunk :: nat
  li_start :: nat
  li_end :: nat
  li_seen :: seen

definition chunk_entries :: nat where
  "chunk_entries = 8192"

record chunk =
  ck_index :: nat
  ck_names :: bytes
  ck_entries :: "listed list"

definition chunk_new :: "nat \<Rightarrow> chunk" where
  "chunk_new index = \<lparr>ck_index = index, ck_names = [], ck_entries = []\<rparr>"

definition is_full :: "chunk \<Rightarrow> bool" where
  "is_full c \<longleftrightarrow> length (ck_entries c) = chunk_entries"

definition offset :: "nat \<Rightarrow> nat option" where
  "offset n = (if n < 2 ^ 32 then Some n else None)"

text \<open>The first eight bytes as a big-endian word, zeros standing for bytes that are not there.\<close>

definition name_prefix :: "bytes \<Rightarrow> nat" where
  "name_prefix name = foldl (\<lambda>w b. 256 * w + b) 0 (take 8 (name @ replicate 8 0))"

text \<open>\<open>Packed\<close>: one buffer holding every name end to end.\<close>

definition packed_get :: "bytes \<Rightarrow> nat \<Rightarrow> nat \<Rightarrow> bytes" where
  "packed_get names start stop = take (stop - start) (drop start names)"

definition chunk_name :: "chunk \<Rightarrow> listed \<Rightarrow> bytes" where
  "chunk_name c l = packed_get (ck_names c) (li_start l) (li_end l)"

definition chunk_push :: "chunk \<Rightarrow> bytes \<Rightarrow> seen \<Rightarrow> chunk option" where
  "chunk_push c name sn =
     Option.bind (offset (length (ck_names c))) (\<lambda>start.
       Option.bind (offset (length name)) (\<lambda>span.
         Option.bind (offset (start + span)) (\<lambda>stop.
           Some (c\<lparr>ck_names := ck_names c @ name,
                   ck_entries := ck_entries c @
                     [\<lparr>li_prefix = name_prefix name, li_chunk = ck_index c, li_start = start,
                       li_end = stop, li_seen = sn\<rparr>]\<rparr>))))"

text \<open>\<open>Chunker\<close>: the chunk being filled and those handed on.\<close>

record chunker =
  cr_chunk :: chunk
  cr_emitted :: "chunk list"

definition chunker_push :: "chunker \<Rightarrow> bytes \<times> seen \<Rightarrow> chunker option" where
  "chunker_push cr e =
     (let cr' = (if is_full (cr_chunk cr)
                 then \<lparr>cr_chunk = chunk_new (ck_index (cr_chunk cr) + 1),
                       cr_emitted = cr_emitted cr @ [cr_chunk cr]\<rparr>
                 else cr)
      in map_option (\<lambda>c. cr'\<lparr>cr_chunk := c\<rparr>) (chunk_push (cr_chunk cr') (fst e) (snd e)))"

definition chunker_finish :: "chunker \<Rightarrow> chunk list" where
  "chunker_finish cr =
     cr_emitted cr @ (if ck_entries (cr_chunk cr) = [] then [] else [cr_chunk cr])"

fun push_all :: "chunker \<Rightarrow> (bytes \<times> seen) list \<Rightarrow> chunker option" where
  "push_all cr [] = Some cr"
| "push_all cr (e # es) = Option.bind (chunker_push cr e) (\<lambda>cr'. push_all cr' es)"

text \<open>What the filesystem lists, without the two directory entries.\<close>

definition read_into :: "(bytes \<times> file_type) list \<Rightarrow> (bytes \<times> seen) list" where
  "read_into listed_entries =
     map (apsnd seen_of)
       (filter (\<lambda>(name, ty). name \<noteq> [c_dot] \<and> name \<noteq> [c_dot, c_dot]) listed_entries)"

definition read_chunks :: "(bytes \<times> seen) list \<Rightarrow> chunk list option" where
  "read_chunks entries =
     map_option chunker_finish (push_all \<lparr>cr_chunk = chunk_new 0, cr_emitted = []\<rparr> entries)"

section \<open>Sorting and merging\<close>

definition by_name_less :: "(listed \<Rightarrow> bytes) \<Rightarrow> listed \<Rightarrow> listed \<Rightarrow> bool" where
  "by_name_less name a b \<longleftrightarrow>
     li_prefix a < li_prefix b \<or> (li_prefix a = li_prefix b \<and> name a < name b)"

definition name_key :: "(listed \<Rightarrow> bytes) \<Rightarrow> listed \<Rightarrow> nat \<times> bytes" where
  "name_key name l = (li_prefix l, name l)"

definition sort_by_name :: "(listed \<Rightarrow> bytes) \<Rightarrow> listed list \<Rightarrow> listed list" where
  "sort_by_name name ls = sort_key (name_key name) ls"

definition chunk_sort :: "chunk \<Rightarrow> chunk" where
  "chunk_sort c = c\<lparr>ck_entries := sort_by_name (chunk_name c) (ck_entries c)\<rparr>"

record listing =
  ls_names :: "bytes list"
  ls_entries :: "listed list"

text \<open>The name of an entry of a listing.\<close>

definition name_in :: "bytes list \<Rightarrow> listed \<Rightarrow> bytes" where
  "name_in names l = packed_get (names ! li_chunk l) (li_start l) (li_end l)"

definition listing_name :: "listing \<Rightarrow> listed \<Rightarrow> bytes" where
  "listing_name ls l = name_in (ls_names ls) l"

definition splits :: "listed list \<Rightarrow> nat \<Rightarrow> listed list" where
  "splits sample runs = map (\<lambda>run. sample ! (run * length sample div runs)) [1..<runs]"

text \<open>\<open>partition_point\<close> of a slice whose entries below the split come first.\<close>

definition partition_point :: "(listed \<Rightarrow> bool) \<Rightarrow> listed list \<Rightarrow> nat" where
  "partition_point P ls = length (takeWhile P ls)"

definition chunk_bounds :: "(listed \<Rightarrow> bytes) \<Rightarrow> listed list \<Rightarrow> listed list \<Rightarrow> nat list" where
  "chunk_bounds name sps entries =
     [0] @ map (\<lambda>sp. partition_point (\<lambda>l. by_name_less name l sp) entries) sps @ [length entries]"

definition slice :: "'a list \<Rightarrow> nat \<Rightarrow> nat \<Rightarrow> 'a list option" where
  "slice xs a b = (if a \<le> b \<and> b \<le> length xs then Some (take (b - a) (drop a xs)) else None)"

fun gather :: "nat \<Rightarrow> (listed list \<times> nat list) list \<Rightarrow> listed list option" where
  "gather run [] = Some []"
| "gather run ((entries, bounds) # cs) =
     (case slice entries (bounds ! run) (bounds ! (run + 1)) of
        None \<Rightarrow> None
      | Some share \<Rightarrow> map_option ((@) share) (gather run cs))"

fun merge_runs ::
  "(listed \<Rightarrow> bytes) \<Rightarrow> (listed list \<times> nat list) list \<Rightarrow> nat list \<Rightarrow> listed list option"
where
  "merge_runs name cs [] = Some []"
| "merge_runs name cs (run # runs) =
     (case gather run cs of
        None \<Rightarrow> None
      | Some merged \<Rightarrow> map_option ((@) (sort_by_name name merged)) (merge_runs name cs runs))"

definition merge :: "nat \<Rightarrow> chunk list \<Rightarrow> listing option" where
  "merge cores chunks =
     (if chunks = [] \<or> ck_entries (hd chunks) = [] then None
      else (let names = map ck_names chunks;
                name = name_in names;
                sps = splits (ck_entries (hd chunks)) cores;
                parts = map (\<lambda>c. (ck_entries c, chunk_bounds name sps (ck_entries c))) chunks
            in map_option (\<lambda>entries. \<lparr>ls_names = names, ls_entries = entries\<rparr>)
                 (merge_runs name parts [0..<cores])))"

text \<open>\<open>Listing::sorted\<close>: one chunk is sorted in place; more are each sorted, in the order read,
  and merged.\<close>

definition listing_sorted :: "nat \<Rightarrow> chunk list \<Rightarrow> listing option" where
  "listing_sorted cores chunks =
     (case chunks of
        [] \<Rightarrow> Some \<lparr>ls_names = [], ls_entries = []\<rparr>
      | [c] \<Rightarrow> Some \<lparr>ls_names = [ck_names c],
                    ls_entries = sort_by_name (name_in [ck_names c]) (ck_entries c)\<rparr>
      | _ \<Rightarrow> merge cores (map chunk_sort chunks))"

definition listing_read :: "nat \<Rightarrow> (bytes \<times> file_type) list \<Rightarrow> listing option" where
  "listing_read cores dir = Option.bind (read_chunks (read_into dir)) (listing_sorted cores)"

text \<open>\<open>holds\<close>: a binary search.\<close>

function bsearch :: "(listed \<Rightarrow> bytes) \<Rightarrow> bytes \<Rightarrow> listed list \<Rightarrow> bool" where
  "bsearch name key ls =
     (if ls = [] then False
      else (let mid = length ls div 2 in
        if name (ls ! mid) = key then True
        else if name (ls ! mid) < key then bsearch name key (drop (mid + 1) ls)
        else bsearch name key (take mid ls)))"
  by pat_completeness auto
termination by (relation "measure (\<lambda>(n, k, ls). length ls)") auto

declare bsearch.simps [simp del]

definition listing_holds :: "listing \<Rightarrow> bytes \<Rightarrow> bool" where
  "listing_holds ls name = bsearch (listing_name ls) name (ls_entries ls)"

section \<open>The leading word orders names as their bytes do\<close>

lemma name_prefix_less_imp:
  "is_bytes s \<Longrightarrow> is_bytes t \<Longrightarrow> name_prefix s < name_prefix t \<Longrightarrow> s < t"
  using word_of_less_imp [of s t 8] by (simp add: name_prefix_def word_of_def)

lemma prefix_then_name_le:
  "is_bytes s \<Longrightarrow> is_bytes t \<Longrightarrow> (name_prefix s, s) \<le> (name_prefix t, t) \<longleftrightarrow> s \<le> t"
  using name_prefix_less_imp [of s t] name_prefix_less_imp [of t s]
  by (auto simp: less_eq_prod_def le_less)

section \<open>Reading: the chunks hold the names read\<close>

text \<open>A chunk holds the entries \<open>rs\<close>, in order, under its number.\<close>

definition entry_ok :: "chunk \<Rightarrow> listed \<Rightarrow> bytes \<times> seen \<Rightarrow> bool" where
  "entry_ok c l r \<longleftrightarrow> chunk_name c l = fst r \<and> li_seen l = snd r \<and> li_chunk l = ck_index c \<and>
     li_prefix l = name_prefix (fst r) \<and> li_start l \<le> li_end l \<and> li_end l \<le> length (ck_names c)"

definition chunk_holds :: "chunk \<Rightarrow> (bytes \<times> seen) list \<Rightarrow> bool" where
  "chunk_holds c rs \<longleftrightarrow> list_all2 (entry_ok c) (ck_entries c) rs \<and>
     length rs \<le> chunk_entries \<and> length (ck_names c) \<le> 255 * length rs"

lemma entry_ok_append:
  "entry_ok c l r \<Longrightarrow> ck_names c' = ck_names c @ extra \<Longrightarrow> ck_index c' = ck_index c \<Longrightarrow> entry_ok c' l r"
  by (auto simp: entry_ok_def chunk_name_def packed_get_def)

lemma chunk_holds_new: "chunk_holds (chunk_new i) []"
  by (simp add: chunk_holds_def chunk_new_def)

lemma chunk_push_holds:
  assumes "chunk_holds c rs" "\<not> is_full c" "length (fst r) \<le> 255"
  shows "\<exists>c'. chunk_push c (fst r) (snd r) = Some c' \<and> chunk_holds c' (rs @ [r]) \<and> ck_index c' = ck_index c"
proof -
  have len: "length rs < chunk_entries"
    using assms(1,2) by (auto simp: chunk_holds_def is_full_def dest: list_all2_lengthD)
  then have fits: "length (ck_names c) + length (fst r) < 2 ^ 32"
    using assms(1,3) by (simp add: chunk_holds_def chunk_entries_def)
  let ?l = "\<lparr>li_prefix = name_prefix (fst r), li_chunk = ck_index c, li_start = length (ck_names c),
    li_end = length (ck_names c) + length (fst r), li_seen = snd r\<rparr>"
  let ?c = "c\<lparr>ck_names := ck_names c @ fst r, ck_entries := ck_entries c @ [?l]\<rparr>"
  have push: "chunk_push c (fst r) (snd r) = Some ?c"
    using fits by (simp add: chunk_push_def offset_def)
  have "entry_ok ?c l q" if "entry_ok c l q" for l q
    using that by (rule entry_ok_append [where extra = "fst r"]) simp_all
  then have "list_all2 (entry_ok ?c) (ck_entries c) rs"
    using assms(1) unfolding chunk_holds_def by (auto elim: list_all2_mono)
  moreover have "entry_ok ?c ?l r" by (simp add: entry_ok_def chunk_name_def packed_get_def)
  ultimately have "chunk_holds ?c (rs @ [r])"
    using assms(1,3) len by (simp add: chunk_holds_def list_all2_appendI)
  with push show ?thesis by auto
qed

text \<open>The chunks handed on are numbered from 0, non-empty, and hold consecutive entries.\<close>

definition chunks_hold :: "chunk list \<Rightarrow> (bytes \<times> seen) list list \<Rightarrow> bool" where
  "chunks_hold cs rss \<longleftrightarrow> list_all2 chunk_holds cs rss \<and> [] \<notin> set rss \<and>
     (\<forall>i < length cs. ck_index (cs ! i) = i)"

lemma chunks_hold_snoc:
  "chunks_hold cs rss \<Longrightarrow> chunk_holds c rs \<Longrightarrow> rs \<noteq> [] \<Longrightarrow> ck_index c = length cs \<Longrightarrow>
   chunks_hold (cs @ [c]) (rss @ [rs])"
  by (auto simp: chunks_hold_def nth_append less_Suc_eq intro: list_all2_appendI)

lemma push_all_holds:
  assumes "chunks_hold (cr_emitted cr) rss" "chunk_holds (cr_chunk cr) rs"
    "ck_index (cr_chunk cr) = length (cr_emitted cr)" "list_all (\<lambda>e. length (fst e) \<le> 255) es"
  shows "\<exists>cr' rss'. push_all cr es = Some cr' \<and> chunks_hold (chunker_finish cr') rss' \<and>
    concat rss' = concat rss @ rs @ es"
  using assms
proof (induction es arbitrary: cr rss rs)
  case Nil
  have "ck_entries (cr_chunk cr) = [] \<longleftrightarrow> rs = []"
    using Nil.prems(2) by (auto simp: chunk_holds_def)
  then show ?case
    using Nil chunks_hold_snoc [OF Nil.prems(1,2)]
    by (cases "rs = []") (auto simp: chunker_finish_def intro: exI [of _ rss] exI [of _ "rss @ [rs]"])
next
  case (Cons e es)
  have e: "length (fst e) \<le> 255" "list_all (\<lambda>e. length (fst e) \<le> 255) es"
    using Cons.prems(4) by auto
  show ?case
  proof (cases "is_full (cr_chunk cr)")
    case True
    then have "rs \<noteq> []"
      using Cons.prems(2) by (auto simp: is_full_def chunk_holds_def chunk_entries_def)
    let ?new = "chunk_new (length (cr_emitted cr) + 1)"
    have "\<not> is_full ?new" by (simp add: is_full_def chunk_new_def chunk_entries_def)
    then obtain c' where c': "chunk_push ?new (fst e) (snd e) = Some c'" "chunk_holds c' [e]"
      "ck_index c' = length (cr_emitted cr) + 1"
      using chunk_push_holds [OF chunk_holds_new _ e(1), of "length (cr_emitted cr) + 1"]
      by (auto simp: chunk_new_def)
    let ?cr = "\<lparr>cr_chunk = c', cr_emitted = cr_emitted cr @ [cr_chunk cr]\<rparr>"
    have "chunker_push cr e = Some ?cr"
      using True c'(1) Cons.prems(3) by (simp add: chunker_push_def)
    moreover have "chunks_hold (cr_emitted ?cr) (rss @ [rs])"
      using chunks_hold_snoc [OF Cons.prems(1,2) \<open>rs \<noteq> []\<close> Cons.prems(3)] by simp
    ultimately show ?thesis
      using Cons.IH [of ?cr "rss @ [rs]" "[e]"] c'(2,3) e(2) by auto
  next
    case False
    obtain c' where c': "chunk_push (cr_chunk cr) (fst e) (snd e) = Some c'"
      "chunk_holds c' (rs @ [e])" "ck_index c' = ck_index (cr_chunk cr)"
      using chunk_push_holds [OF Cons.prems(2) False e(1)] by blast
    have "chunker_push cr e = Some (cr\<lparr>cr_chunk := c'\<rparr>)"
      using False c'(1) by (simp add: chunker_push_def)
    then show ?thesis
      using Cons.IH [of "cr\<lparr>cr_chunk := c'\<rparr>" rss "rs @ [e]"] c'(2,3) e(2) Cons.prems(1,3) by auto
  qed
qed

lemma read_chunks_holds:
  assumes "list_all (\<lambda>e. length (fst e) \<le> 255) es"
  shows "\<exists>cs rss. read_chunks es = Some cs \<and> chunks_hold cs rss \<and> concat rss = es"
  using push_all_holds [of "\<lparr>cr_chunk = chunk_new 0, cr_emitted = []\<rparr>" "[]" "[]" es] assms
    chunk_holds_new
  by (fastforce simp: read_chunks_def chunks_hold_def chunk_new_def)

section \<open>Merging sorted chunks\<close>

lemma by_name_less_key: "by_name_less name a b \<longleftrightarrow> name_key name a < name_key name b"
  by (auto simp: by_name_less_def name_key_def less_prod_def')

lemma sorted_takeWhile_filter:
  "sorted (map f xs) \<Longrightarrow> takeWhile (\<lambda>x. f x < k) xs = filter (\<lambda>x. f x < k) xs"
  for f :: "'a \<Rightarrow> 'b :: linorder"
proof (induction xs)
  case (Cons x xs)
  show ?case
  proof (cases "f x < k")
    case False
    then have "\<forall>y\<in>set xs. \<not> f y < k" using Cons.prems by auto
    then show ?thesis using False by (simp add: filter_empty_conv)
  qed (use Cons in simp)
qed simp

text \<open>The share of a sorted chunk between two splits.\<close>

lemma sorted_share:
  fixes f :: "'a \<Rightarrow> 'b :: linorder"
  assumes "sorted (map f xs)"
  shows "take (length (filter (\<lambda>x. f x < k)  xs)) xs = filter (\<lambda>x. f x < k) xs"
    "drop (length (filter (\<lambda>x. f x < k)  xs)) xs = filter (\<lambda>x. \<not> f x < k) xs"
proof -
  have t: "takeWhile (\<lambda>x. f x < k) xs = filter (\<lambda>x. f x < k) xs"
    by (rule sorted_takeWhile_filter [OF assms])
  show "take (length (filter (\<lambda>x. f x < k)  xs)) xs = filter (\<lambda>x. f x < k) xs"
    using takeWhile_eq_take [of "\<lambda>x. f x < k" xs] t by simp
  have "dropWhile (\<lambda>x. f x < k) xs = filter (\<lambda>x. \<not> f x < k) xs"
    using assms
  proof (induction xs)
    case (Cons x xs)
    show ?case
    proof (cases "f x < k")
      case False
      then have "\<forall>y\<in>set xs. \<not> f y < k" using Cons.prems by auto
      then show ?thesis using False by simp
    qed (use Cons in simp)
  qed simp
  then show "drop (length (filter (\<lambda>x. f x < k)  xs)) xs = filter (\<lambda>x. \<not> f x < k) xs"
    using dropWhile_eq_drop [of "\<lambda>x. f x < k" xs] t by simp
qed

text \<open>Splitting the keys below and from \<open>k\<close> on splits a stable sort.\<close>

lemma sort_split:
  "sort_key f xs = sort_key f (filter (\<lambda>x. f x < k) xs) @ sort_key f (filter (\<lambda>x. \<not> f x < k) xs)"
proof (rule properties_for_sort_key)
  let ?ys = "sort_key f (filter (\<lambda>x. f x < k) xs) @ sort_key f (filter (\<lambda>x. \<not> f x < k) xs)"
  show "mset ?ys = mset xs" by simp
  show "sorted (map f ?ys)" by (auto simp: sorted_append)
  fix y assume "y \<in> set ?ys"
  have "filter (\<lambda>x. f y = f x) (sort_key f zs) = filter (\<lambda>x. f y = f x) zs" for zs
    using sort_key_stable [of f "f y" zs] by (simp add: eq_commute)
  then have "filter (\<lambda>x. f y = f x) ?ys =
      filter (\<lambda>x. f y = f x) (filter (\<lambda>x. f x < k) xs) @
      filter (\<lambda>x. f y = f x) (filter (\<lambda>x. \<not> f x < k) xs)"
    by simp
  also have "\<dots> = filter (\<lambda>x. f y = f x) xs"
  proof (cases "f y < k")
    case True
    then have "filter (\<lambda>x. \<not> f x < k \<and> f y = f x) xs = []"
      "filter (\<lambda>x. f x < k \<and> f y = f x) xs = filter (\<lambda>x. f y = f x) xs"
      by (auto simp: filter_empty_conv intro: filter_cong)
    then show ?thesis by simp
  next
    case False
    then have "filter (\<lambda>x. f x < k \<and> f y = f x) xs = []"
      "filter (\<lambda>x. \<not> f x < k \<and> f y = f x) xs = filter (\<lambda>x. f y = f x) xs"
      by (auto simp: filter_empty_conv intro: filter_cong)
    then show ?thesis by simp
  qed
  finally show "filter (\<lambda>x. f y = f x) ?ys = filter (\<lambda>x. f y = f x) xs" .
qed

text \<open>Sorting the parts first changes nothing.\<close>

lemma sort_concat_sorts: "sort_key f (concat (map (sort_key f) xss)) = sort_key f (concat xss)"
proof (rule properties_for_sort_key)
  have "mset (concat (map (sort_key f) xss)) = mset (concat xss)" by (induction xss) auto
  then show "mset (sort_key f (concat xss)) = mset (concat (map (sort_key f) xss))" by simp
  show "sorted (map f (sort_key f (concat xss)))" by simp
  fix k
  have stable: "filter (\<lambda>x. f k = f x) (sort_key f zs) = filter (\<lambda>x. f k = f x) zs" for zs
    using sort_key_stable [of f "f k" zs] by (simp add: eq_commute)
  have "filter (\<lambda>x. f k = f x) (concat (map (sort_key f) xss)) = filter (\<lambda>x. f k = f x) (concat xss)"
    by (induction xss) (simp_all add: stable)
  then show "filter (\<lambda>x. f k = f x) (sort_key f (concat xss)) =
      filter (\<lambda>x. f k = f x) (concat (map (sort_key f) xss))"
    by (simp add: stable)
qed

text \<open>The runs the splits \<open>ks\<close> cut \<open>xs\<close> into.\<close>

fun cut_runs :: "('a \<Rightarrow> 'b :: linorder) \<Rightarrow> 'b list \<Rightarrow> 'a list \<Rightarrow> 'a list list" where
  "cut_runs f [] xs = [xs]"
| "cut_runs f (k # ks) xs =
     filter (\<lambda>x. f x < k) xs # cut_runs f ks (filter (\<lambda>x. \<not> f x < k) xs)"

lemma concat_sort_runs: "concat (map (sort_key f) (cut_runs f ks xs)) = sort_key f xs"
proof (induction ks arbitrary: xs)
  case (Cons k ks)
  then show ?case using sort_split [of f xs k] by simp
qed simp

lemma length_cut_runs [simp]: "length (cut_runs f ks xs) = Suc (length ks)"
  by (induction ks arbitrary: xs) auto

lemma cut_runs_append:
  "r \<le> length ks \<Longrightarrow> cut_runs f ks (xs @ ys) ! r = cut_runs f ks xs ! r @ cut_runs f ks ys ! r"
  by (induction ks arbitrary: xs ys r) (auto simp: nth_Cons' Suc_le_eq less_Suc_eq_le)

lemma cut_runs_concat:
  "r \<le> length ks \<Longrightarrow> cut_runs f ks (concat xss) ! r = concat (map (\<lambda>xs. cut_runs f ks xs ! r) xss)"
proof (induction xss)
  case Nil
  have "cut_runs f ks [] ! r = []"
    using Nil by (induction ks arbitrary: r) (auto simp: nth_Cons' Suc_le_eq less_Suc_eq_le)
  then show ?case by simp
qed (simp add: cut_runs_append)

text \<open>Where a sorted list's runs start.\<close>

definition run_start :: "('a \<Rightarrow> 'b :: linorder) \<Rightarrow> 'b list \<Rightarrow> 'a list \<Rightarrow> nat \<Rightarrow> nat" where
  "run_start f ks xs r =
     (if r = 0 then 0
      else if r \<le> length ks then length (filter (\<lambda>x. f x < ks ! (r - 1)) xs)
      else length xs)"

lemma filter_length_mono: "(\<And>x. P x \<Longrightarrow> Q x) \<Longrightarrow> length (filter P xs) \<le> length (filter Q xs)"
  by (induction xs) (auto simp: le_SucI)

lemma run_start_le:
  assumes "sorted ks" "r \<le> length ks"
  shows "run_start f ks xs r \<le> run_start f ks xs (Suc r) \<and> run_start f ks xs (Suc r) \<le> length xs"
proof (cases "r = 0 \<or> r = length ks")
  case True
  then show ?thesis by (auto simp: run_start_def)
next
  case False
  then have "ks ! (r - 1) \<le> ks ! r" using assms by (simp add: sorted_iff_nth_mono)
  then have "length (filter (\<lambda>x. f x < ks ! (r - 1)) xs) \<le> length (filter (\<lambda>x. f x < ks ! r) xs)"
    by (intro filter_length_mono) simp
  then show ?thesis using False assms(2) by (simp add: run_start_def)
qed

lemma cut_runs_slice:
  assumes "sorted (map f xs)" "sorted ks" "r \<le> length ks"
  shows "take (run_start f ks xs (Suc r) - run_start f ks xs r) (drop (run_start f ks xs r) xs) =
    cut_runs f ks xs ! r"
  using assms
proof (induction ks arbitrary: xs r)
  case Nil
  then show ?case by (simp add: run_start_def)
next
  case (Cons k ks)
  let ?lo = "filter (\<lambda>x. f x < k) xs" and ?hi = "filter (\<lambda>x. \<not> f x < k) xs"
  note share = sorted_share [OF Cons.prems(1), of k]
  show ?case
  proof (cases r)
    case 0
    then show ?thesis using share(1) by (simp add: run_start_def)
  next
    case (Suc q)
    have "sorted (map f ?hi)" using Cons.prems(1) by (simp add: sorted_filter)
    then have ih: "take (run_start f ks ?hi (Suc q) - run_start f ks ?hi q) (drop (run_start f ks ?hi q) ?hi) =
        cut_runs f ks ?hi ! q"
      using Cons.IH [of ?hi q] Cons.prems Suc by simp
    have count: "length (filter (\<lambda>x. f x < j) xs) = length ?lo + length (filter (\<lambda>x. f x < j) ?hi)"
      if "k \<le> j" for j
      using that by (induction xs) auto
    have all: "length xs = length ?lo + length ?hi" by (induction xs) auto
    have start: "run_start f (k # ks) xs (Suc p) = length ?lo + run_start f ks ?hi p"
      if "p \<le> Suc (length ks)" for p
    proof (cases p)
      case 0
      then show ?thesis by (simp add: run_start_def)
    next
      case (Suc p')
      show ?thesis
      proof (cases "p' < length ks")
        case True
        then have "k \<le> ks ! p'" using Cons.prems(2) by simp
        then show ?thesis using Suc True count [of "ks ! p'"] by (simp add: run_start_def)
      next
        case False
        then show ?thesis using Suc all by (simp add: run_start_def)
      qed
    qed
    have "drop (length ?lo + n) xs = drop n ?hi" for n
      using share(2) by (metis drop_drop add.commute)
    moreover have "run_start f (k # ks) xs r = length ?lo + run_start f ks ?hi q"
      "run_start f (k # ks) xs (Suc r) = length ?lo + run_start f ks ?hi (Suc q)"
      using start [of q] start [of "Suc q"] Suc Cons.prems(3) by auto
    moreover have "cut_runs f (k # ks) xs ! r = cut_runs f ks ?hi ! q" using Suc by simp
    ultimately show ?thesis using ih by (simp only: add_diff_cancel_left)
  qed
qed

lemma chunk_bounds_nth:
  assumes "sorted (map (name_key name) entries)" "r \<le> Suc (length sps)"
  shows "chunk_bounds name sps entries ! r = run_start (name_key name) (map (name_key name) sps) entries r"
proof (cases "r = 0 \<or> r = Suc (length sps)")
  case True
  then show ?thesis by (auto simp: chunk_bounds_def run_start_def nth_append)
next
  case False
  then obtain q where q: "r = Suc q" "q < length sps" using assms(2) by (cases r) auto
  have "partition_point (\<lambda>l. by_name_less name l (sps ! q)) entries =
      length (filter (\<lambda>l. name_key name l < name_key name (sps ! q)) entries)"
    using sorted_takeWhile_filter [OF assms(1)] by (simp add: partition_point_def by_name_less_key)
  then show ?thesis using q by (simp add: chunk_bounds_def run_start_def nth_append)
qed

lemma gather_runs:
  fixes name :: "listed \<Rightarrow> bytes"
  defines "f \<equiv> name_key name"
  assumes "list_all (\<lambda>es. sorted (map f es)) ess" "sorted (map f sps)" "r \<le> length sps"
  shows "gather r (map (\<lambda>es. (es, chunk_bounds name sps es)) ess) =
    Some (cut_runs f (map f sps) (concat ess) ! r)"
proof -
  let ?ks = "map f sps"
  have "gather r (map (\<lambda>es. (es, chunk_bounds name sps es)) ess) =
      Some (concat (map (\<lambda>es. cut_runs f ?ks es ! r) ess))"
    using assms(2)
  proof (induction ess)
    case (Cons es ess)
    have so: "sorted (map f es)" using Cons.prems by simp
    have b: "chunk_bounds name sps es ! r = run_start f ?ks es r"
      "chunk_bounds name sps es ! (r + 1) = run_start f ?ks es (Suc r)"
      using chunk_bounds_nth [of name es] so assms(4) unfolding f_def by simp_all
    have "slice es (chunk_bounds name sps es ! r) (chunk_bounds name sps es ! (r + 1)) =
        Some (cut_runs f ?ks es ! r)"
      unfolding b slice_def
      using run_start_le [of ?ks r f es] cut_runs_slice [OF so, of ?ks r] assms(3,4) by simp
    then show ?case using Cons by simp
  qed simp
  then show ?thesis using assms(4) by (simp add: cut_runs_concat)
qed

lemma merge_runs_sort:
  fixes name :: "listed \<Rightarrow> bytes"
  defines "f \<equiv> name_key name"
  assumes "list_all (\<lambda>es. sorted (map f es)) ess" "sorted (map f sps)"
  shows "merge_runs name (map (\<lambda>es. (es, chunk_bounds name sps es)) ess) [0..<Suc (length sps)] =
    Some (sort_by_name name (concat ess))"
proof -
  let ?cs = "map (\<lambda>es. (es, chunk_bounds name sps es)) ess"
  let ?runs = "cut_runs f (map f sps) (concat ess)"
  have "merge_runs name ?cs rs = Some (concat (map (\<lambda>r. sort_key f (?runs ! r)) rs))"
    if "list_all (\<lambda>r. r \<le> length sps) rs" for rs
    using that
  proof (induction rs)
    case (Cons r rs)
    then show ?case
      using gather_runs [of name ess sps r] assms(2,3) by (simp add: f_def sort_by_name_def)
  qed simp
  then have "merge_runs name ?cs [0..<Suc (length sps)] =
      Some (concat (map (\<lambda>r. sort_key f (?runs ! r)) [0..<Suc (length sps)]))"
    by (simp add: list_all_iff del: upt_Suc)
  moreover have "map (\<lambda>r. sort_key f (?runs ! r)) [0..<Suc (length sps)] = map (sort_key f) ?runs"
    by (rule nth_equalityI) (simp_all del: upt_Suc)
  ultimately show ?thesis by (simp only: concat_sort_runs sort_by_name_def f_def [symmetric])
qed

lemma splits_sorted:
  assumes "sorted (map f sample)" "sample \<noteq> []" "0 < cores"
  shows "sorted (map f (splits sample cores)) \<and> length (splits sample cores) = cores - 1"
proof -
  have lt: "run * length sample div cores < length sample" if "run < cores" for run
    using that assms(2,3) by (simp add: div_less_iff_less_mult mult.commute)
  have "f (sample ! (i * length sample div cores)) \<le> f (sample ! (j * length sample div cores))"
    if "i \<le> j" "j < cores" for i j
    using assms(1) that lt [of j] sorted_nth_mono [of "map f sample"]
    by (simp add: div_le_mono le_less_trans [OF div_le_mono])
  moreover have nth: "map f (splits sample cores) ! i = f (sample ! ((1 + i) * length sample div cores))"
    if "i < cores - 1" for i
    using that by (simp add: splits_def del: mult_Suc)
  ultimately have "map f (splits sample cores) ! i \<le> map f (splits sample cores) ! j"
    if "i \<le> j" "j < cores - 1" for i j
    using that nth [of i] nth [of j] by (simp only:)
  then have "sorted (map f (splits sample cores))"
    by (simp add: sorted_iff_nth_mono splits_def)
  then show ?thesis by (simp add: splits_def)
qed

section \<open>The listing of a directory\<close>

text \<open>Entries whose names, read through a listing, are those of \<open>rs\<close>.\<close>

definition lists_entry :: "bytes list \<Rightarrow> listed \<Rightarrow> bytes \<times> seen \<Rightarrow> bool" where
  "lists_entry names l r \<longleftrightarrow> name_in names l = fst r \<and> li_seen l = snd r \<and>
     li_prefix l = name_prefix (fst r)"

lemma sort_by_name_cong:
  "(\<And>l. l \<in> set ls \<Longrightarrow> name l = name' l) \<Longrightarrow> sort_by_name name ls = sort_by_name name' ls"
proof -
  assume "\<And>l. l \<in> set ls \<Longrightarrow> name l = name' l"
  then have eq: "\<And>l. l \<in> set ls \<Longrightarrow> name_key name l = name_key name' l" by (simp add: name_key_def)
  show ?thesis
    unfolding sort_by_name_def
  proof (rule properties_for_sort_key)
    show "mset (sort_key (name_key name') ls) = mset ls" by simp
    have "map (name_key name) (sort_key (name_key name') ls) = map (name_key name') (sort_key (name_key name') ls)"
      using eq by (intro map_cong) auto
    then show "sorted (map (name_key name) (sort_key (name_key name') ls))"
      by (simp only: sorted_sort_key)
    fix k assume k: "k \<in> set (sort_key (name_key name') ls)"
    have "filter (\<lambda>x. name_key name k = name_key name x) (sort_key (name_key name') ls) =
        filter (\<lambda>x. name_key name' x = name_key name' k) (sort_key (name_key name') ls)"
      using eq k by (intro filter_cong) auto
    also have "\<dots> = filter (\<lambda>x. name_key name' x = name_key name' k) ls"
      by (rule sort_key_stable)
    also have "\<dots> = filter (\<lambda>x. name_key name k = name_key name x) ls"
      using eq k by (intro filter_cong) auto
    finally show "filter (\<lambda>x. name_key name k = name_key name x) (sort_key (name_key name') ls) =
        filter (\<lambda>x. name_key name k = name_key name x) ls" .
  qed
qed

lemma entries_sorted:
  assumes "list_all2 (lists_entry names) ls rs" "list_all (\<lambda>r. is_bytes (fst r)) rs"
  shows "map (name_in names) (sort_by_name (name_in names) ls) = sort (map fst rs)"
    "mset (map (\<lambda>l. (name_in names l, li_seen l)) (sort_by_name (name_in names) ls)) = mset rs"
proof -
  have names: "map (name_in names) ls = map fst rs"
    using assms(1) by (induction rule: list_all2_induct) (auto simp: lists_entry_def)
  have ok: "is_bytes (name_in names l) \<and> li_prefix l = name_prefix (name_in names l)" if "l \<in> set ls" for l
    using assms that
    by (induction rule: list_all2_induct) (auto simp: lists_entry_def)
  let ?ys = "sort_by_name (name_in names) ls"
  have so: "sorted (map (name_key (name_in names)) ?ys)" by (simp add: sort_by_name_def)
  have "name_in names x \<le> name_in names y"
    if "x \<in> set ?ys" "y \<in> set ?ys" "name_key (name_in names) x \<le> name_key (name_in names) y" for x y
  proof -
    have "x \<in> set ls" "y \<in> set ls" using that(1,2) by (simp_all add: sort_by_name_def)
    note okxy = ok [OF this(1)] ok [OF this(2)]
    then have "(name_prefix (name_in names x), name_in names x) \<le>
        (name_prefix (name_in names y), name_in names y)"
      using that(3) unfolding name_key_def by metis
    then show ?thesis using okxy prefix_then_name_le by metis
  qed
  then have "sorted (map (name_in names) ?ys)"
    using so unfolding sorted_map by (rule sorted_wrt_mono_rel)
  moreover have "mset (map (name_in names) ?ys) = mset (map fst rs)"
    unfolding names [symmetric] by (simp add: sort_by_name_def)
  ultimately show "map (name_in names) ?ys = sort (map fst rs)"
    by (metis properties_for_sort)
  have "map (\<lambda>l. (name_in names l, li_seen l)) ls = rs"
    using assms(1) by (induction rule: list_all2_induct) (auto simp: lists_entry_def)
  then show "mset (map (\<lambda>l. (name_in names l, li_seen l)) ?ys) = mset rs"
    by (metis mset_map mset_sort sort_by_name_def)
qed

text \<open>Entries of the chunk at its index, read through the listing.\<close>

lemma chunk_lists:
  assumes "chunk_holds c rs" "ck_index c < length names" "names ! ck_index c = ck_names c"
  shows "list_all2 (lists_entry names) (ck_entries c) rs"
  using assms unfolding chunk_holds_def
  by (auto elim!: list_all2_mono simp: entry_ok_def lists_entry_def name_in_def chunk_name_def)

lemma list_all2_concat:
  "list_all2 (\<lambda>c rs. list_all2 P (f c) rs) cs rss \<Longrightarrow> list_all2 P (concat (map f cs)) (concat rss)"
  by (induction rule: list_all2_induct) (auto intro: list_all2_appendI)

lemma listing_sorted_spec:
  assumes "chunks_hold cs rss" "0 < cores"
  shows "\<exists>ls entries. listing_sorted cores cs = Some ls \<and> ls_names ls = map ck_names cs \<and>
    list_all2 (lists_entry (ls_names ls)) entries (concat rss) \<and>
    ls_entries ls = sort_by_name (name_in (ls_names ls)) entries"
proof -
  let ?names = "map ck_names cs" and ?all = "concat (map ck_entries cs)"
  let ?name = "name_in ?names"
  have "list_all2 (lists_entry ?names) (ck_entries (cs ! i)) (rss ! i)" if "i < length cs" for i
    using assms(1) that unfolding chunks_hold_def
    by (intro chunk_lists) (auto dest: list_all2_nthD)
  then have holds: "list_all2 (\<lambda>c rs. list_all2 (lists_entry ?names) (ck_entries c) rs) cs rss"
    using assms(1) by (auto simp: chunks_hold_def intro: list_all2_all_nthI dest: list_all2_lengthD)
  then have all: "list_all2 (lists_entry ?names) ?all (concat rss)" by (rule list_all2_concat)
  show ?thesis
  proof (cases "length cs \<le> 1")
    case True
    then consider "cs = []" | c where "cs = [c]" by (cases cs) auto
    then show ?thesis
    proof cases
      case 1
      then have "rss = []" using assms(1) by (simp add: chunks_hold_def)
      with 1 show ?thesis by (simp add: listing_sorted_def sort_by_name_def)
    next
      case (2 c)
      then show ?thesis using all by (auto simp: listing_sorted_def sort_by_name_def)
    qed
  next
    case False
    let ?cs = "map chunk_sort cs"
    have m: "listing_sorted cores cs = merge cores ?cs"
      using False by (auto simp: listing_sorted_def split: list.split)
    have local_name: "chunk_name c l = ?name l" if c: "c \<in> set cs" and l: "l \<in> set (ck_entries c)" for c l
    proof -
      obtain i where i: "i < length cs" "c = cs ! i" using c by (metis in_set_conv_nth)
      have "chunk_holds c (rss ! i)" "ck_index c = i"
        using assms(1) i by (auto simp: chunks_hold_def list_all2_conv_all_nth)
      then have "li_chunk l = i"
        using l by (auto simp: chunk_holds_def list_all2_conv_all_nth entry_ok_def in_set_conv_nth)
      then show ?thesis using i by (simp add: chunk_name_def name_in_def)
    qed
    have sorted_chunk: "ck_entries (chunk_sort c) = sort_by_name ?name (ck_entries c)" if "c \<in> set cs" for c
    proof -
      have "sort_by_name (chunk_name c) (ck_entries c) = sort_by_name ?name (ck_entries c)"
        by (rule sort_by_name_cong) (rule local_name [OF that])
      then show ?thesis by (simp add: chunk_sort_def)
    qed
    let ?ess = "map ck_entries ?cs"
    have ess: "list_all (\<lambda>es. sorted (map (name_key ?name) es)) ?ess"
      using sorted_chunk by (auto simp: list_all_iff sort_by_name_def)
    have ne: "ck_entries (hd ?cs) \<noteq> []"
      using assms(1) False by (cases cs; cases rss) (auto simp: chunks_hold_def chunk_holds_def
          chunk_sort_def sort_by_name_def)
    let ?sps = "splits (ck_entries (hd ?cs)) cores"
    have "sorted (map (name_key ?name) (ck_entries (hd ?cs)))"
      using ess False by (cases cs) simp_all
    from splits_sorted [OF this ne assms(2)]
    have sps: "sorted (map (name_key ?name) ?sps)" "Suc (length ?sps) = cores"
      using assms(2) by simp_all
    have "merge_runs ?name (map (\<lambda>es. (es, chunk_bounds ?name ?sps es)) ?ess) [0..<cores] =
        Some (sort_by_name ?name (concat ?ess))"
      using merge_runs_sort [OF ess sps(1)] sps(2) by simp
    moreover have names: "map ck_names ?cs = ?names" by (simp add: chunk_sort_def)
    moreover have parts: "map (\<lambda>es. (es, chunk_bounds ?name ?sps es)) ?ess =
        map (\<lambda>c. (ck_entries c, chunk_bounds ?name ?sps (ck_entries c))) ?cs"
      by (simp only: map_map comp_def)
    have "\<not> (?cs = [] \<or> ck_entries (hd ?cs) = [])" using ne False by auto
    ultimately have "merge cores ?cs = Some \<lparr>ls_names = ?names, ls_entries = sort_by_name ?name (concat ?ess)\<rparr>"
      unfolding merge_def Let_def names parts by (simp only: if_False option.map)
    moreover have "?ess = map (sort_by_name ?name) (map ck_entries cs)"
      using sorted_chunk by simp
    then have "sort_by_name ?name (concat ?ess) = sort_by_name ?name ?all"
      unfolding sort_by_name_def by (simp only: sort_concat_sorts)
    ultimately show ?thesis using m all by auto
  qed
qed

section \<open>Searching\<close>

lemma bsearch_iff: "sorted (map name ls) \<Longrightarrow> bsearch name key ls \<longleftrightarrow> key \<in> name ` set ls"
proof (induction name key ls rule: bsearch.induct)
  case (1 name key ls)
  show ?case
  proof (cases "ls = []")
    case True
    then show ?thesis by (simp add: bsearch.simps)
  next
    case False
    let ?mid = "length ls div 2"
    have mid: "?mid < length ls" using False by (simp add: div_less_dividend)
    have split: "ls = take ?mid ls @ ls ! ?mid # drop (?mid + 1) ls"
      using id_take_nth_drop [OF mid] by simp
    have so: "sorted (map name (take ?mid ls))" "sorted (map name (drop (?mid + 1) ls))"
      using "1.prems" by (simp_all add: take_map [symmetric] drop_map [symmetric] sorted_wrt_take sorted_wrt_drop)
    have le: "name x \<le> name (ls ! ?mid)" if "x \<in> set (take ?mid ls)" for x
      using "1.prems" that by (subst (asm) split) (auto simp: sorted_append)
    have ge: "name (ls ! ?mid) \<le> name x" if "x \<in> set (drop (?mid + 1) ls)" for x
      using "1.prems" that by (subst (asm) split) (auto simp: sorted_append)
    have all: "name ` set ls = name ` set (take ?mid ls) \<union> {name (ls ! ?mid)} \<union> name ` set (drop (?mid + 1) ls)"
      by (subst split) (auto simp del: append_take_drop_id)
    consider "name (ls ! ?mid) = key" | "name (ls ! ?mid) < key" | "key < name (ls ! ?mid)"
      using less_linear by blast
    then show ?thesis
    proof cases
      case 1
      then show ?thesis using False all by (subst bsearch.simps) simp
    next
      case 2
      then have "bsearch name key ls = bsearch name key (drop (?mid + 1) ls)"
        using False by (subst bsearch.simps) (auto simp: Let_def)
      moreover have "key \<notin> name ` set (take ?mid ls)" "key \<noteq> name (ls ! ?mid)"
        using 2 le by (fastforce dest: leD)+
      ultimately show ?thesis using "1.IH"(1) [OF False refl] so(2) 2 all by auto
    next
      case 3
      then have "bsearch name key ls = bsearch name key (take ?mid ls)"
        using False by (subst bsearch.simps) (auto simp: Let_def)
      moreover have "key \<notin> name ` set (drop (?mid + 1) ls)" "key \<noteq> name (ls ! ?mid)"
        using 3 ge by (fastforce dest: leD)+
      ultimately show ?thesis using "1.IH"(2) [OF False refl] so(1) 3 all by auto
    qed
  qed
qed

section \<open>Properties\<close>

text \<open>C13: reading a directory of any size, in chunks, sorted on a thread of their own and merged
  on any number of cores from runs cut at sampled names, gives its entries in the byte order of
  their names, each with what the filesystem said it is, and searching it finds exactly the
  names it lists; no offset overflows and no slice is out of bounds.\<close>

theorem listing_read_sorts:
  assumes "list_all (\<lambda>e. is_bytes (fst e) \<and> length (fst e) \<le> 255) dir" "0 < cores"
  shows "\<exists>ls. listing_read cores dir = Some ls \<and>
    map (listing_name ls) (ls_entries ls) = sort (map fst (read_into dir)) \<and>
    mset (map (\<lambda>l. (listing_name ls l, li_seen l)) (ls_entries ls)) = mset (read_into dir) \<and>
    (\<forall>name. listing_holds ls name \<longleftrightarrow> name \<in> set (map fst (read_into dir)))"
proof -
  have small: "list_all (\<lambda>e. length (fst e) \<le> 255) (read_into dir)"
    "list_all (\<lambda>r. is_bytes (fst r)) (read_into dir)"
    using assms(1) by (auto simp: read_into_def list_all_iff)
  obtain cs rss where cs: "read_chunks (read_into dir) = Some cs" "chunks_hold cs rss"
    "concat rss = read_into dir"
    using read_chunks_holds [OF small(1)] by blast
  obtain ls entries where ls: "listing_sorted cores cs = Some ls"
    "list_all2 (lists_entry (ls_names ls)) entries (read_into dir)"
    "ls_entries ls = sort_by_name (name_in (ls_names ls)) entries"
    using listing_sorted_spec [OF cs(2) assms(2)] cs(3) by auto
  note es = entries_sorted [OF ls(2) small(2), folded ls(3)]
  have name: "listing_name ls = name_in (ls_names ls)" by (simp add: fun_eq_iff listing_name_def)
  have "sorted (map (listing_name ls) (ls_entries ls))" unfolding name es(1) by simp
  then have "listing_holds ls n \<longleftrightarrow> n \<in> set (map (listing_name ls) (ls_entries ls))" for n
    by (simp add: listing_holds_def bsearch_iff)
  then have "listing_holds ls n \<longleftrightarrow> n \<in> set (map fst (read_into dir))" for n
    unfolding name es(1) by simp
  then show ?thesis
    using cs(1) ls(1) es unfolding name [symmetric] by (simp add: listing_read_def)
qed

theorem listing_read_sorts_witness:
  "\<exists>ls. listing_read 4 [([98], Regular), ([c_dot], Directory), ([97], Symlink)] = Some ls \<and>
    map (listing_name ls) (ls_entries ls) = [[97], [98]]"
proof -
  let ?dir = "[([98], Regular), ([c_dot], Directory), ([97], Symlink)]"
  have "map fst (read_into ?dir) = [[98], [97]]" by (simp add: read_into_def)
  moreover have "list_all (\<lambda>e. is_bytes (fst e) \<and> length (fst e) \<le> 255) ?dir"
    by (simp add: is_bytes_def)
  ultimately show ?thesis using listing_read_sorts [of ?dir 4] by auto
qed

end
