(* ===== verification/Rust_Path.thy ===== *)
theory Rust_Path
  imports Prelude
begin

text \<open>
  The part of \<open>std::path\<close> the modelled modules call, on Unix and on the text of a path: joining,
  the components and the last of them, the ancestors and the parent.
\<close>

text \<open>\<open>Path::join\<close>: an absolute path replaces what it is joined to.\<close>

definition path_join :: "rstr \<Rightarrow> rstr \<Rightarrow> rstr" where
  "path_join base p =
     (if p \<noteq> [] \<and> hd p = c_slash then p
      else if base = [] \<or> last base = c_slash then base @ p
      else base @ [c_slash] @ p)"

text \<open>The components of a path and its last one, which is no name when it is a root, \<open>.\<close> or \<open>..\<close>:
  as \<open>std::path\<close> reads a path, a \<open>.\<close> counting only in front.\<close>

definition path_components :: "rstr \<Rightarrow> rstr list" where
  "path_components p =
     (let parts = filter (\<lambda>c. c \<noteq> []) (split_on c_slash p) in
      if p \<noteq> [] \<and> hd p = c_slash then [c_slash] # filter (\<lambda>c. c \<noteq> [c_dot]) parts
      else (case parts of [] \<Rightarrow> [] | c # cs \<Rightarrow> c # filter (\<lambda>c. c \<noteq> [c_dot]) cs))"

definition file_name :: "rstr \<Rightarrow> rstr option" where
  "file_name p =
     (case rev (path_components p) of
        [] \<Rightarrow> None
      | c # _ \<Rightarrow> if c \<in> set [[c_slash], [c_dot], [c_dot, c_dot]] then None else Some c)"

definition from_components :: "rstr list \<Rightarrow> rstr" where
  "from_components cs = foldl path_join [] cs"

text \<open>\<open>parent\<close>: none above a root, none above the empty path.\<close>

definition parent :: "rstr \<Rightarrow> rstr option" where
  "parent p =
     (case path_components p of
        [] \<Rightarrow> None
      | cs \<Rightarrow> if last cs = [c_slash] then None else Some (from_components (butlast cs)))"

text \<open>\<open>ancestors\<close>: the path, its parent, and so on; as many as there are components, and the empty
  path above a relative one.\<close>

fun ancestors_of :: "rstr list \<Rightarrow> rstr list" where
  "ancestors_of [] = [[]]"
| "ancestors_of (c # rcs) =
     from_components (rev (c # rcs)) # (if c = [c_slash] then [] else ancestors_of rcs)"

definition ancestors :: "rstr \<Rightarrow> rstr list" where
  "ancestors p = ancestors_of (rev (path_components p))"

text \<open>\<open>strip_prefix\<close> and \<open>starts_with\<close>, which go by components.\<close>

definition path_starts_with :: "rstr \<Rightarrow> rstr \<Rightarrow> bool" where
  "path_starts_with p base \<longleftrightarrow> prefix (path_components base) (path_components p)"

definition path_strip_prefix :: "rstr \<Rightarrow> rstr \<Rightarrow> rstr option" where
  "path_strip_prefix p base =
     map_option from_components (strip_prefix (path_components base) (path_components p))"

section \<open>Relative paths of plain names\<close>

definition plain_name :: "rstr \<Rightarrow> bool" where
  "plain_name n \<longleftrightarrow> n \<noteq> [] \<and> c_slash \<notin> set n \<and> n \<noteq> [c_dot]"

lemma path_components_join:
  "list_all plain_name ns \<Longrightarrow> path_components (join [c_slash] ns) = ns"
proof (cases ns)
  case (Cons n ms)
  assume plain: "list_all plain_name ns"
  then have "split_on c_slash (join [c_slash] ns) = ns"
    using Cons by (intro split_on_join) (auto simp: plain_name_def list_all_iff)
  moreover have "hd (join [c_slash] ns) \<noteq> c_slash"
    using plain Cons by (cases ms; cases n) (auto simp: plain_name_def)
  moreover have "filter (\<lambda>c. c \<noteq> []) ns = ns" "filter (\<lambda>c. c \<noteq> [c_dot]) ms = ms"
    using plain Cons by (auto simp: plain_name_def list_all_iff filter_id_conv)
  ultimately show ?thesis using Cons by (simp add: path_components_def)
qed (simp add: path_components_def)

lemma path_join_plain:
  assumes "list_all plain_name ns" "plain_name n"
  shows "path_join (join [c_slash] ns) n = join [c_slash] (ns @ [n])"
proof (cases ns rule: rev_cases)
  case Nil
  then show ?thesis using assms(2) by (cases n) (auto simp: path_join_def plain_name_def)
next
  case (snoc ms m)
  have j: "join [c_slash] (ms @ [m]) = (if ms = [] then [] else join [c_slash] ms @ [c_slash]) @ m" for ms m
  proof (induction ms)
    case (Cons a ms)
    then show ?case by (cases ms) auto
  qed simp
  have m: "m \<noteq> []" "c_slash \<notin> set m" using assms(1) snoc by (auto simp: plain_name_def)
  then have "last m \<noteq> c_slash" by (metis last_in_set)
  then have "last (join [c_slash] ns) \<noteq> c_slash" "join [c_slash] ns \<noteq> []"
    using snoc m by (auto simp: j)
  moreover have "hd n \<noteq> c_slash" using assms(2) by (cases n) (auto simp: plain_name_def)
  ultimately show ?thesis
    using j [of ns n] snoc by (simp add: path_join_def)
qed

end
