(* ===== verification/Path_Table.thy ===== *)
theory Path_Table
  imports Brace Rust_Path
begin

text \<open>
  \<open>packages/rust/src/path_table.rs\<close>: from the string written where a table name goes to a
  directory to walk, a glob beneath it and the prefix its paths are reported under. The paths of
  the \<open>typed_path\<close> crate are the parameter \<open>path_ops\<close>; the record \<open>path_syntax\<close> is the trait
  \<open>Syntax\<close> with its two implementations. The native \<open>Path::join\<close> is the Unix one, and a path
  is its text.
\<close>

section \<open>Paths\<close>

datatype comp_kind = Prefix_Comp bool | Root_Comp | Cur_Comp | Parent_Comp | Normal_Comp

record component =
  cp_kind :: comp_kind
  cp_text :: rstr

record path_ops =
  tp_components :: "rstr \<Rightarrow> component list"
  tp_push :: "rstr \<Rightarrow> rstr \<Rightarrow> rstr"
  tp_file_name :: "rstr \<Rightarrow> rstr option"
  tp_parent :: "rstr \<Rightarrow> rstr option"
  tp_has_root :: "rstr \<Rightarrow> bool"

record path_syntax =
  sx_ops :: path_ops
  sx_home_prefixes :: "rstr list"
  sx_separators :: "uchar list"
  sx_is_rooted :: "rstr \<Rightarrow> bool"
  sx_is_verbatim :: "rstr \<Rightarrow> bool"
  sx_literal :: "rstr \<Rightarrow> rstr"
  sx_reported :: "rstr \<Rightarrow> rstr"

definition unix_syntax :: "path_ops \<Rightarrow> path_syntax" where
  "unix_syntax ops =
     \<lparr>sx_ops = ops, sx_home_prefixes = [ascii ''~/''], sx_separators = [c_slash],
      sx_is_rooted = (\<lambda>name. name \<noteq> [] \<and> hd name = c_slash), sx_is_verbatim = (\<lambda>_. False),
      sx_literal = unescape, sx_reported = (\<lambda>p. p)\<rparr>"

definition windows_is_verbatim :: "path_ops \<Rightarrow> rstr \<Rightarrow> bool" where
  "windows_is_verbatim ops path =
     (case tp_components ops path of [] \<Rightarrow> False | c # cs \<Rightarrow> cp_kind c = Prefix_Comp True)"

definition windows_syntax :: "path_ops \<Rightarrow> path_syntax" where
  "windows_syntax ops =
     \<lparr>sx_ops = ops, sx_home_prefixes = [ascii ''~/'', [c_tilde, c_backslash]],
      sx_separators = [c_slash, c_backslash], sx_is_rooted = tp_has_root ops,
      sx_is_verbatim = windows_is_verbatim ops, sx_literal = (\<lambda>t. t),
      sx_reported = (\<lambda>path. if windows_is_verbatim ops path then path
        else replace_char c_backslash [c_slash] path)\<rparr>"

section \<open>Splitting\<close>

definition default_ignores :: "rstr list" where
  "default_ignores = [ascii ''**/.git/**'']"

definition directory_glob :: rstr where
  "directory_glob = [c_star]"

record path_table =
  pt_root :: rstr
  pt_glob :: rstr
  pt_prefix :: rstr

datatype resolution = Table path_table | Hint | No_Home | Not_A_Path

definition has_glob_metacharacter :: "rstr \<Rightarrow> bool" where
  "has_glob_metacharacter name \<longleftrightarrow>
     list_ex (\<lambda>c. c \<in> set [c_star, c_quest, c_lbracket, c_lbrace]) name"

definition wildcard_below_prefix :: "rstr \<Rightarrow> bool" where
  "wildcard_below_prefix name = has_glob_metacharacter name"

definition trailing_separator_as_star :: "uchar list \<Rightarrow> rstr \<Rightarrow> rstr" where
  "trailing_separator_as_star separators name =
     (if name \<noteq> [] \<and> last name \<in> set separators then name @ [c_star] else name)"

definition glob_of :: "rstr list \<Rightarrow> rstr" where
  "glob_of parts = join [c_slash] (filter (\<lambda>p. p \<noteq> []) parts)"

text \<open>The literal prefix of a \<open>./\<close>-relative target and the glob beneath it.\<close>

definition literal_and_glob :: "rstr \<Rightarrow> rstr \<Rightarrow> (rstr \<Rightarrow> bool) \<Rightarrow> rstr \<times> rstr" where
  "literal_and_glob index_root rest is_dir =
     (let parts = split_on c_slash rest in
      case position has_glob_metacharacter parts of
        Some at \<Rightarrow> (unescape (join [c_slash] (take at parts)), glob_of (drop at parts))
      | None \<Rightarrow>
          if is_dir (path_join index_root (unescape rest)) then (unescape rest, directory_glob)
          else (unescape (join [c_slash] (butlast parts)), last parts))"

definition split_relative :: "rstr \<Rightarrow> rstr \<Rightarrow> (rstr \<Rightarrow> bool) \<Rightarrow> path_table" where
  "split_relative index_root rest is_dir =
     (case literal_and_glob index_root rest is_dir of
        (literal, glob) \<Rightarrow>
          \<lparr>pt_root = (if literal = [] then index_root else path_join index_root literal),
           pt_glob = glob,
           pt_prefix = (if literal \<noteq> [] \<and> last literal = c_slash then literal @ [c_slash] else literal)\<rparr>)"

fun find_prefix :: "rstr list \<Rightarrow> rstr \<Rightarrow> rstr option" where
  "find_prefix [] name = None"
| "find_prefix (p # ps) name =
     (case strip_prefix p name of Some rest \<Rightarrow> Some rest | None \<Rightarrow> find_prefix ps name)"

definition absolute_target :: "path_syntax \<Rightarrow> rstr \<Rightarrow> rstr \<Rightarrow> rstr option \<Rightarrow> rstr option option" where
  "absolute_target S name index_root home =
     (case find_prefix (sx_home_prefixes S) name of
        Some rest \<Rightarrow> Some (map_option (\<lambda>h. tp_push (sx_ops S) h rest) home)
      | None \<Rightarrow>
          if prefix (ascii ''../'') name then Some (Some (tp_push (sx_ops S) index_root name))
          else if sx_is_rooted S name then Some (Some name)
          else None)"

text \<open>The loop of \<open>normalize\<close>: the components kept, how many of them a \<open>..\<close> may take back and
  whether a root was seen.\<close>

fun fold_dots :: "component list \<Rightarrow> rstr list \<Rightarrow> nat \<Rightarrow> bool \<Rightarrow> rstr list" where
  "fold_dots [] kept normal rooted = kept"
| "fold_dots (c # cs) kept normal rooted =
     (case cp_kind c of
        Cur_Comp \<Rightarrow> fold_dots cs kept normal rooted
      | Parent_Comp \<Rightarrow>
          if 0 < normal then fold_dots cs (butlast kept) (normal - 1) rooted
          else if \<not> rooted then fold_dots cs (kept @ [cp_text c]) normal rooted
          else fold_dots cs kept normal rooted
      | Normal_Comp \<Rightarrow> fold_dots cs (kept @ [cp_text c]) (normal + 1) rooted
      | Root_Comp \<Rightarrow> fold_dots cs (kept @ [cp_text c]) normal True
      | Prefix_Comp v \<Rightarrow> fold_dots cs (kept @ [cp_text c]) normal rooted)"

definition normalize :: "path_syntax \<Rightarrow> rstr \<Rightarrow> rstr" where
  "normalize S path =
     foldl (tp_push (sx_ops S)) [] (fold_dots (tp_components (sx_ops S) path) [] 0 False)"

text \<open>The components ahead of the first glob and the rest.\<close>

definition is_glob_component :: "component \<Rightarrow> bool" where
  "is_glob_component c \<longleftrightarrow> cp_kind c = Normal_Comp \<and> has_glob_metacharacter (cp_text c)"

fun split_components ::
  "path_ops \<Rightarrow> component list \<Rightarrow> rstr \<Rightarrow> rstr list \<Rightarrow> rstr \<times> rstr list"
where
  "split_components ops [] literal rest = (literal, rest)"
| "split_components ops (c # cs) literal rest =
     (if rest = [] \<and> \<not> is_glob_component c
      then split_components ops cs (tp_push ops literal (cp_text c)) rest
      else split_components ops cs literal (rest @ [cp_text c]))"

definition split_at_first_glob :: "path_syntax \<Rightarrow> rstr \<Rightarrow> rstr \<times> rstr" where
  "split_at_first_glob S target =
     apsnd (join [c_slash])
       (split_components (sx_ops S) (tp_components (sx_ops S) target) [] [])"

definition or_self :: "rstr option \<Rightarrow> rstr \<Rightarrow> rstr" where
  "or_self p q = (case p of Some x \<Rightarrow> x | None \<Rightarrow> q)"

definition split_target :: "path_syntax \<Rightarrow> rstr \<Rightarrow> (rstr \<Rightarrow> bool) \<Rightarrow> rstr \<times> rstr" where
  "split_target S target is_dir =
     (case split_at_first_glob S target of (literal, rest) \<Rightarrow>
        if rest \<noteq> [] then (literal, rest)
        else if is_dir (sx_literal S literal) then (literal, directory_glob)
        else (or_self (tp_parent (sx_ops S) literal) literal,
              or_self (tp_file_name (sx_ops S) literal) directory_glob))"

definition table_at :: "path_syntax \<Rightarrow> rstr \<Rightarrow> rstr \<Rightarrow> path_table" where
  "table_at S root glob =
     \<lparr>pt_root = sx_literal S root, pt_glob = glob, pt_prefix = sx_reported S (sx_literal S root)\<rparr>"

definition split_absolute :: "path_syntax \<Rightarrow> rstr \<Rightarrow> (rstr \<Rightarrow> bool) \<Rightarrow> path_table" where
  "split_absolute S target is_dir =
     (case split_target S target is_dir of (literal, glob) \<Rightarrow> table_at S literal glob)"

definition resolve_as :: "path_syntax \<Rightarrow> rstr \<Rightarrow> rstr \<Rightarrow> rstr option \<Rightarrow> (rstr \<Rightarrow> bool) \<Rightarrow> resolution" where
  "resolve_as S name index_root home is_dir =
     (let target = trailing_separator_as_star (sx_separators S) name in
      case strip_prefix (ascii ''./'') target of
        Some rest \<Rightarrow>
          Table (split_relative index_root (dropWhile (\<lambda>c. c = c_slash) rest) is_dir)
      | None \<Rightarrow>
          if prefix (ascii ''../'') target then Table (split_relative index_root target is_dir)
          else (case absolute_target S target index_root home of
              Some (Some t) \<Rightarrow>
                Table (split_absolute S (if sx_is_verbatim S t then normalize S t else t) is_dir)
            | Some None \<Rightarrow> No_Home
            | None \<Rightarrow> if has_glob_metacharacter name then Hint else Not_A_Path))"

definition directory_as_glob :: "rstr \<Rightarrow> rstr \<Rightarrow> (rstr \<Rightarrow> bool) \<Rightarrow> rstr" where
  "directory_as_glob glob index_root is_dir =
     (let target = trailing_separator_as_star [c_slash] glob in
      if target \<noteq> [] \<and> \<not> has_glob_metacharacter target \<and>
         is_dir (path_join index_root (unescape target))
      then target @ [c_slash] @ directory_glob else target)"

definition trim_end_slashes :: "rstr \<Rightarrow> rstr" where
  "trim_end_slashes s = rev (dropWhile (\<lambda>c. c = c_slash) (rev s))"

definition named_directory :: "rstr \<Rightarrow> rstr \<Rightarrow> (rstr \<Rightarrow> bool) \<Rightarrow> rstr option" where
  "named_directory glob index_root is_dir =
     (let name = unescape (trim_end_slashes glob) in
      if name \<noteq> [] \<and> \<not> has_glob_metacharacter glob \<and> is_dir (path_join index_root name)
      then Some name else None)"

definition config_anchor_as :: "path_syntax \<Rightarrow> rstr \<Rightarrow> rstr \<Rightarrow> rstr option \<Rightarrow> (rstr \<times> rstr) option" where
  "config_anchor_as S glob config_dir home =
     (case strip_prefix (ascii ''./'') glob of
        Some rest \<Rightarrow> Some (config_dir, rest)
      | None \<Rightarrow>
          (case absolute_target S glob config_dir home of
             None \<Rightarrow> Some (config_dir, glob)
           | Some None \<Rightarrow> None
           | Some (Some t) \<Rightarrow>
               (case split_at_first_glob S (normalize S t) of (literal, rest) \<Rightarrow>
                  if rest \<noteq> [] then Some (sx_literal S literal, rest)
                  else (case tp_file_name (sx_ops S) literal of
                      None \<Rightarrow> None
                    | Some name \<Rightarrow>
                        Some (sx_literal S (or_self (tp_parent (sx_ops S) literal) literal), name)))))"

section \<open>A directory reads as its glob\<close>

lemma has_glob_append:
  "has_glob_metacharacter (s @ t) \<longleftrightarrow> has_glob_metacharacter s \<or> has_glob_metacharacter t"
  by (simp add: has_glob_metacharacter_def)

lemma has_glob_parts:
  "has_glob_metacharacter s \<longleftrightarrow> (\<exists>p\<in>set (split_on c_slash s). has_glob_metacharacter p)"
proof (induction s)
  case (Cons c s)
  then show ?case
    by (cases "split_on c_slash s") (auto simp: has_glob_metacharacter_def)
qed (simp add: has_glob_metacharacter_def)

lemma split_on_slash_end: "split_on c (s @ c # t) = split_on c s @ split_on c t"
proof (induction s)
  case (Cons x s)
  then show ?case by (cases "split_on c s") auto
qed simp

lemma position_append_None:
  "position P xs = None \<Longrightarrow> position P (xs @ ys) = map_option ((+) (length xs)) (position P ys)"
proof (induction xs)
  case Nil
  then show ?case by (cases "position P ys") auto
next
  case (Cons x xs)
  then show ?case by (cases "position P ys") (auto split: if_splits)
qed

lemma literal_and_glob_directory:
  assumes "\<not> has_glob_metacharacter t" "is_dir (path_join root (unescape t))"
  shows "literal_and_glob root (t @ [c_slash] @ directory_glob) is_dir = literal_and_glob root t is_dir"
proof -
  define parts where "parts = split_on c_slash t"
  have none: "position has_glob_metacharacter parts = None"
    using assms(1) has_glob_parts [of t] by (auto simp: position_None_iff parts_def)
  have star: "has_glob_metacharacter [c_star]" by (simp add: has_glob_metacharacter_def)
  have all: "split_on c_slash (t @ [c_slash] @ directory_glob) = parts @ [[c_star]]"
    by (simp add: split_on_slash_end directory_glob_def parts_def)
  have at: "position has_glob_metacharacter (parts @ [[c_star]]) = Some (length parts)"
    using position_append_None [OF none, of "[[c_star]]"] star by simp
  have "join [c_slash] (take (length parts) (parts @ [[c_star]])) = t"
    by (simp add: parts_def)
  moreover have "glob_of (drop (length parts) (parts @ [[c_star]])) = directory_glob"
    by (simp add: glob_of_def directory_glob_def)
  ultimately have "literal_and_glob root (t @ [c_slash] @ directory_glob) is_dir = (unescape t, directory_glob)"
    unfolding literal_and_glob_def Let_def all at option.case by (simp only:)
  then show ?thesis
    using assms(2) unfolding literal_and_glob_def Let_def parts_def [symmetric] none option.case
    by (simp only: if_True)
qed

section \<open>Folding dots\<close>

text \<open>What a path of plain components means: \<open>..\<close> takes back the last one, if there is any.\<close>

fun walk :: "component list \<Rightarrow> rstr list \<Rightarrow> rstr list" where
  "walk [] st = st"
| "walk (c # cs) st =
     (case cp_kind c of
        Normal_Comp \<Rightarrow> walk cs (st @ [cp_text c])
      | Parent_Comp \<Rightarrow> walk cs (butlast st)
      | _ \<Rightarrow> walk cs st)"

definition below_root :: "component \<Rightarrow> bool" where
  "below_root c \<longleftrightarrow> cp_kind c \<in> {Normal_Comp, Parent_Comp, Cur_Comp}"

lemma fold_dots_walk:
  "list_all below_root cs \<Longrightarrow>
   fold_dots cs (base @ st) (length st) True = base @ walk cs st"
proof (induction cs arbitrary: st)
  case (Cons c cs)
  have c: "below_root c" "list_all below_root cs" using Cons.prems by auto
  then consider "cp_kind c = Normal_Comp" | "cp_kind c = Parent_Comp" | "cp_kind c = Cur_Comp"
    by (auto simp: below_root_def)
  then show ?case
  proof cases
    case 1
    then show ?thesis using Cons.IH [OF c(2), of "st @ [cp_text c]"] by simp
  next
    case 2
    then show ?thesis using Cons.IH [OF c(2), of "butlast st"]
      by (cases "st = []") (auto simp: butlast_append)
  next
    case 3
    then show ?thesis using Cons.IH [OF c(2), of st] by simp
  qed
qed simp

section \<open>Properties\<close>

text \<open>A config glob and a path-table read the same string the same way: what
  \<open>directory_as_glob\<close> makes of a glob names, beneath the index root, the same directory to
  walk, the same glob and the same reported prefix as the glob with its trailing separator
  read as \<open>/*\<close>.\<close>

theorem directory_as_glob_same_table:
  "split_relative index_root (directory_as_glob glob index_root is_dir) is_dir =
     split_relative index_root (trailing_separator_as_star [c_slash] glob) is_dir"
proof -
  let ?t = "trailing_separator_as_star [c_slash] glob"
  show ?thesis
  proof (cases "?t \<noteq> [] \<and> \<not> has_glob_metacharacter ?t \<and> is_dir (path_join index_root (unescape ?t))")
    case True
    then have "directory_as_glob glob index_root is_dir = ?t @ [c_slash] @ directory_glob"
      by (simp only: directory_as_glob_def Let_def if_True simp_thms)
    moreover have "literal_and_glob index_root (?t @ [c_slash] @ directory_glob) is_dir =
        literal_and_glob index_root ?t is_dir"
      using True by (intro literal_and_glob_directory) simp_all
    ultimately show ?thesis by (simp only: split_relative_def)
  next
    case False
    then show ?thesis by (simp only: directory_as_glob_def Let_def if_False)
  qed
qed

text \<open>Folding a rooted path keeps its root, leaves no \<open>.\<close> and no \<open>..\<close>, and keeps exactly
  the names that walking the components with a stack keeps, a \<open>..\<close> at the root going
  nowhere.\<close>

theorem fold_dots_rooted:
  "cp_kind r = Root_Comp \<Longrightarrow> list_all below_root cs \<Longrightarrow>
   fold_dots (r # cs) [] 0 False = cp_text r # walk cs []"
  using fold_dots_walk [of cs "[cp_text r]" "[]"] by simp

theorem fold_dots_rooted_witness:
  "fold_dots (\<lparr>cp_kind = Root_Comp, cp_text = [c_slash]\<rparr> #
      [\<lparr>cp_kind = Parent_Comp, cp_text = [c_dot, c_dot]\<rparr>, \<lparr>cp_kind = Normal_Comp, cp_text = [97]\<rparr>])
      [] 0 False = [[c_slash], [97]]"
  by (subst fold_dots_rooted) (simp_all add: below_root_def)

text \<open>Which names are path-tables: on Unix a \<open>./\<close> or \<open>../\<close> name is always one, an absolute
  one too, a \<open>~/\<close> name is one exactly when there is a home directory, a bare name with a
  wildcard only earns a hint, and any other name is left to SQLite.\<close>

theorem resolve_classifies:
  "(case resolve_as (unix_syntax ops) name index_root home is_dir of
      Table t \<Rightarrow> prefix (ascii ''./'') name \<or> prefix (ascii ''../'') name \<or>
        prefix [c_slash] name \<or> (prefix (ascii ''~/'') name \<and> home \<noteq> None)
    | No_Home \<Rightarrow> prefix (ascii ''~/'') name \<and> home = None
    | Hint \<Rightarrow> has_glob_metacharacter name \<and> \<not> prefix (ascii ''./'') name \<and>
        \<not> prefix (ascii ''../'') name \<and> \<not> prefix [c_slash] name \<and> \<not> prefix (ascii ''~/'') name
    | Not_A_Path \<Rightarrow> \<not> has_glob_metacharacter name \<and> \<not> prefix (ascii ''./'') name \<and>
        \<not> prefix (ascii ''../'') name \<and> \<not> prefix [c_slash] name \<and> \<not> prefix (ascii ''~/'') name)"
proof -
  let ?t = "trailing_separator_as_star [c_slash] name"
  have pre: "prefix p ?t \<longleftrightarrow> prefix p name" if "p \<noteq> []" "last p = c_slash" for p
    using that by (auto simp: trailing_separator_as_star_def prefix_snoc)
  have p: "prefix [c_dot, c_slash] ?t \<longleftrightarrow> prefix [c_dot, c_slash] name"
    "prefix [c_dot, c_dot, c_slash] ?t \<longleftrightarrow> prefix [c_dot, c_dot, c_slash] name"
    "prefix [c_tilde, c_slash] ?t \<longleftrightarrow> prefix [c_tilde, c_slash] name"
    "prefix [c_slash] ?t \<longleftrightarrow> prefix [c_slash] name"
    by (rule pre; simp)+
  have a: "ascii ''./'' = [c_dot, c_slash]" "ascii ''../'' = [c_dot, c_dot, c_slash]"
    "ascii ''~/'' = [c_tilde, c_slash]"
    by simp_all
  have sep: "sx_separators (unix_syntax ops) = [c_slash]"
    "sx_home_prefixes (unix_syntax ops) = [[c_tilde, c_slash]]"
    "sx_is_rooted (unix_syntax ops) t \<longleftrightarrow> prefix [c_slash] t" for t
    by (cases t; simp add: unix_syntax_def)+
  have strip: "strip_prefix q ?t = (if prefix q ?t then Some (drop (length q) ?t) else None)" for q
    by (simp add: strip_prefix_def)
  show ?thesis
    unfolding resolve_as_def Let_def absolute_target_def sep find_prefix.simps strip a p
    by (cases home) simp_all
qed

end
