(* ===== verification/Tree_Walk.thy ===== *)
theory Tree_Walk
  imports Utf8 "HOL-Library.Product_Lexorder"
begin

text \<open>
  \<open>packages/rust/src/tree_walk.rs\<close>: the depth-first walk whose directories are explored on every
  core. Exploring a directory is the parameter \<open>explore\<close>. The threads share slots, one per
  directory found, and the heap of open directories; a slot is named by its position in the list
  of slots, which stands for its \<open>Arc\<close>.

  \<open>walk_step\<close> is one atomic action of one thread: what it does under one hold of a lock. A
  condition variable wakes a sleeping thread at a notification and, in \<open>spurious\<close>, at no
  notification at all.
\<close>

section \<open>Keys and their ranks\<close>

definition u32_max :: nat where
  "u32_max = 2 ^ 32 - 1"

text \<open>A key's index plus one, in one, two or five bytes; \<open>+\<close> saturates.\<close>

definition encoded :: "nat \<Rightarrow> bytes" where
  "encoded index =
     (let n = min (index + 1) u32_max;
          b0 = n div 2 ^ 24 mod 256; b1 = n div 2 ^ 16 mod 256;
          b2 = n div 2 ^ 8 mod 256; b3 = n mod 256 in
      if index < 0x7F then [b3]
      else if index < 0x3FFF then [0x80 + b2, b3]
      else [0xC0, b0, b1, b2, b3])"

fun fill :: "bytes \<Rightarrow> nat list \<Rightarrow> bytes" where
  "fill bytes [] = bytes"
| "fill bytes (index # key) =
     (let bytes = bytes @ encoded index in
      if 16 < length bytes then take 16 bytes else fill bytes key)"

definition rank :: "nat list \<Rightarrow> nat" where
  "rank key = word_of 16 (fill [] key)"

text \<open>\<open>Pending\<close> orders by the rank and then by the key, the earliest being the greatest.\<close>

definition pending_before :: "nat list \<Rightarrow> nat list \<Rightarrow> bool" where
  "pending_before k l \<longleftrightarrow> (rank k, k) < (rank l, l)"

section \<open>Slots and threads\<close>

datatype ('d, 'l) tree_step = Dir 'd | Leaf 'l

datatype 'l item = Slot_Item nat | Leaf_Item 'l

record ('d, 'l) slot =
  sl_key :: "nat list"
  sl_dir :: "'d option"
  sl_items :: "'l item list option"
  sl_awaited :: bool

definition parallel_dirs :: nat where
  "parallel_dirs = 8"

text \<open>What the calling thread is about: its loop, starting threads before it obtains a slot,
  obtaining one, waiting for a worker to deliver one, or done.\<close>

datatype walker = Looping | Hiring_For nat nat | Obtaining nat | Awaiting nat | Finished

datatype ('d, 'l) worker =
  Hiring nat
| Claiming
| Asleep
| Claimed nat
| Exploring nat 'd
| Delivering nat "'l item list" "nat option"
| Gone

record ('d, 'l) walk =
  slots :: "('d, 'l) slot list"
  open_slots :: "nat list"
  over :: bool
  found :: nat
  hired :: nat
  spawned :: bool
  walker :: walker
  stack :: "'l item list list"
  visited :: "'l list"
  workers :: "('d, 'l) worker list"

section \<open>Operations\<close>

definition new_slot :: "nat list \<Rightarrow> 'd \<Rightarrow> ('d, 'l) slot" where
  "new_slot key d = \<lparr>sl_key = key, sl_dir = Some d, sl_items = None, sl_awaited = False\<rparr>"

text \<open>The items of a directory's steps, its directories given new slots from \<open>base\<close> on, \<open>k\<close> of
  them already.\<close>

fun itemize ::
  "nat list \<Rightarrow> nat \<Rightarrow> nat \<Rightarrow> ('d, 'l) tree_step list \<Rightarrow> 'l item list \<times> ('d, 'l) slot list"
where
  "itemize key base k [] = ([], [])"
| "itemize key base k (Leaf l # ss) = apfst ((#) (Leaf_Item l)) (itemize key base k ss)"
| "itemize key base k (Dir d # ss) =
     map_prod ((#) (Slot_Item (base + k))) ((#) (new_slot (key @ [min k u32_max]) d))
       (itemize key base (Suc k) ss)"

definition explore_only ::
  "('d \<Rightarrow> ('d, 'l) tree_step list) \<Rightarrow> 'd \<Rightarrow> nat list \<Rightarrow> ('d, 'l) walk \<Rightarrow>
   'l item list \<times> nat list \<times> ('d, 'l) walk"
where
  "explore_only explore d key s =
     (let base = length (slots s); (items, new) = itemize key base 0 (explore d) in
      (items, [base ..< base + length new],
       s\<lparr>slots := slots s @ new, found := found s + length new\<rparr>))"

text \<open>The open slot the walk reaches first; which of several with one key is the heap's choice,
  here the first.\<close>

fun earliest :: "('d, 'l) slot list \<Rightarrow> nat list \<Rightarrow> nat option" where
  "earliest sl [] = None"
| "earliest sl (i # is) =
     (case earliest sl is of
        None \<Rightarrow> Some i
      | Some j \<Rightarrow> if pending_before (sl_key (sl ! j)) (sl_key (sl ! i)) then Some j else Some i)"

fun wake :: "nat \<Rightarrow> ('d, 'l) worker list \<Rightarrow> ('d, 'l) worker list" where
  "wake (Suc n) (Asleep # ws) = Claiming # wake n ws"
| "wake (Suc n) (w # ws) = w # wake (Suc n) ws"
| "wake n ws = ws"

text \<open>Opens \<open>dirs\<close> to any thread, taking the earliest back when \<open>take_one\<close> is set.\<close>

definition register :: "nat list \<Rightarrow> bool \<Rightarrow> ('d, 'l) walk \<Rightarrow> nat option \<times> ('d, 'l) walk" where
  "register dirs take_one s =
     (let now = open_slots s @ dirs;
          taken = (if take_one then earliest (slots s) now else None);
          rest = (case taken of None \<Rightarrow> now | Some i \<Rightarrow> remove1 i now) in
      (taken, s\<lparr>open_slots := rest, workers := wake (length dirs - 1) (workers s)\<rparr>))"

definition explore_open ::
  "('d \<Rightarrow> ('d, 'l) tree_step list) \<Rightarrow> 'd \<Rightarrow> nat list \<Rightarrow> ('d, 'l) walk \<Rightarrow> 'l item list \<times> ('d, 'l) walk"
where
  "explore_open explore d key s =
     (case explore_only explore d key s of (items, dirs, s') \<Rightarrow>
        (items, if dirs = [] then s' else snd (register dirs False s')))"

definition take_dir :: "nat \<Rightarrow> ('d, 'l) walk \<Rightarrow> ('d, 'l) walk" where
  "take_dir i s = s\<lparr>slots := (slots s)[i := (slots s ! i)\<lparr>sl_dir := None\<rparr>]\<rparr>"

definition set_worker :: "nat \<Rightarrow> ('d, 'l) worker \<Rightarrow> ('d, 'l) walk \<Rightarrow> ('d, 'l) walk" where
  "set_worker w x s = s\<lparr>workers := (workers s)[w := x]\<rparr>"

text \<open>One turn of the loop of \<open>hire\<close>: a worker is started while threads are left to start.\<close>

definition hire_one :: "nat \<Rightarrow> ('d, 'l) walk \<Rightarrow> ('d, 'l) walk" where
  "hire_one cores s =
     s\<lparr>hired := hired s + 1,
       workers := (if hired s < cores then workers s @ [Hiring 2] else workers s)\<rparr>"

text \<open>Hands the items to whoever awaits them.\<close>

definition deliver :: "nat \<Rightarrow> 'l item list \<Rightarrow> ('d, 'l) walk \<Rightarrow> ('d, 'l) walk" where
  "deliver i items s =
     s\<lparr>slots := (slots s)[i := (slots s ! i)\<lparr>sl_items := Some items\<rparr>],
       walker := (if sl_awaited (slots s ! i) \<and> walker s = Awaiting i then Obtaining i else walker s)\<rparr>"

definition start ::
  "('d \<Rightarrow> ('d, 'l) tree_step list) \<Rightarrow> 'd \<Rightarrow> ('d, 'l) walk"
where
  "start explore root =
     (case explore_open explore root []
        \<lparr>slots = [], open_slots = [], over = False, found = 1, hired = 1, spawned = False,
         walker = Looping, stack = [], visited = [], workers = []\<rparr> of
      (items, s) \<Rightarrow> s\<lparr>stack := [items]\<rparr>)"

section \<open>Steps\<close>

text \<open>What the worker \<open>w\<close> does next.\<close>

definition worker_step ::
  "('d \<Rightarrow> ('d, 'l) tree_step list) \<Rightarrow> nat \<Rightarrow> nat \<Rightarrow> ('d, 'l) walk \<Rightarrow> ('d, 'l) walk option"
where
  "worker_step explore cores w s =
     (case workers s ! w of
        Hiring (Suc k) \<Rightarrow> Some (hire_one cores (set_worker w (Hiring k) s))
      | Hiring 0 \<Rightarrow> Some (set_worker w Claiming s)
      | Claiming \<Rightarrow>
          if over s then Some (set_worker w Gone s)
          else (case earliest (slots s) (open_slots s) of
              Some i \<Rightarrow> Some (set_worker w (Claimed i) (s\<lparr>open_slots := remove1 i (open_slots s)\<rparr>))
            | None \<Rightarrow> Some (set_worker w Asleep s))
      | Asleep \<Rightarrow> None
      | Claimed i \<Rightarrow>
          (case sl_dir (slots s ! i) of
             Some d \<Rightarrow> Some (set_worker w (Exploring i d) (take_dir i s))
           | None \<Rightarrow> Some (set_worker w Claiming s))
      | Exploring i d \<Rightarrow>
          (case explore_only explore d (sl_key (slots s ! i)) s of
             (items, dirs, s') \<Rightarrow>
               (case register dirs True s' of
                  (taken, s'') \<Rightarrow> Some (set_worker w (Delivering i items taken) s'')))
      | Delivering i items taken \<Rightarrow>
          Some (set_worker w (case taken of Some j \<Rightarrow> Claimed j | None \<Rightarrow> Claiming) (deliver i items s))
      | Gone \<Rightarrow> None)"

text \<open>What the calling thread does next.\<close>

definition walker_step ::
  "('d \<Rightarrow> ('d, 'l) tree_step list) \<Rightarrow> nat \<Rightarrow> ('d, 'l) walk \<Rightarrow> ('d, 'l) walk option"
where
  "walker_step explore cores s =
     (case walker s of
        Looping \<Rightarrow>
          (case stack s of
             (Leaf_Item l # items) # st \<Rightarrow> Some (s\<lparr>stack := items # st, visited := visited s @ [l]\<rparr>)
           | (Slot_Item i # items) # st \<Rightarrow>
               Some (if \<not> spawned s \<and> parallel_dirs \<le> found s
                     then s\<lparr>stack := items # st, spawned := True, walker := Hiring_For 2 i\<rparr>
                     else s\<lparr>stack := items # st, walker := Obtaining i\<rparr>)
           | [] # st \<Rightarrow> Some (s\<lparr>stack := st\<rparr>)
           | [] \<Rightarrow>
               Some (s\<lparr>over := True, walker := Finished, workers := wake (length (workers s)) (workers s)\<rparr>))
      | Hiring_For (Suc k) i \<Rightarrow> Some (hire_one cores (s\<lparr>walker := Hiring_For k i\<rparr>))
      | Hiring_For 0 i \<Rightarrow> Some (s\<lparr>walker := Obtaining i\<rparr>)
      | Obtaining i \<Rightarrow>
          (case sl_dir (slots s ! i) of
             Some d \<Rightarrow>
               (case explore_open explore d (sl_key (slots s ! i)) (take_dir i s) of
                  (items, s') \<Rightarrow> Some (s'\<lparr>stack := items # stack s, walker := Looping\<rparr>))
           | None \<Rightarrow>
               (case sl_items (slots s ! i) of
                  Some items \<Rightarrow>
                    Some (s\<lparr>slots := (slots s)[i := (slots s ! i)\<lparr>sl_items := None\<rparr>],
                            stack := items # stack s, walker := Looping\<rparr>)
                | None \<Rightarrow>
                    Some (s\<lparr>slots := (slots s)[i := (slots s ! i)\<lparr>sl_awaited := True\<rparr>],
                            walker := Awaiting i\<rparr>)))
      | Awaiting i \<Rightarrow> None
      | Finished \<Rightarrow> None)"

inductive walk_step ::
  "('d \<Rightarrow> ('d, 'l) tree_step list) \<Rightarrow> nat \<Rightarrow> ('d, 'l) walk \<Rightarrow> ('d, 'l) walk \<Rightarrow> bool"
  for explore cores
where
  by_walker: "walker_step explore cores s = Some t \<Longrightarrow> walk_step explore cores s t"
| by_worker: "w < length (workers s) \<Longrightarrow> worker_step explore cores w s = Some t \<Longrightarrow>
    walk_step explore cores s t"

text \<open>A thread woken at no notification: it checks again what it waits for.\<close>

inductive spurious :: "('d, 'l) walk \<Rightarrow> ('d, 'l) walk \<Rightarrow> bool" where
  "walker s = Awaiting i \<Longrightarrow> spurious s (s\<lparr>walker := Obtaining i\<rparr>)"
| "w < length (workers s) \<Longrightarrow> workers s ! w = Asleep \<Longrightarrow> spurious s (set_worker w Claiming s)"

inductive reached ::
  "('d \<Rightarrow> ('d, 'l) tree_step list) \<Rightarrow> nat \<Rightarrow> 'd \<Rightarrow> ('d, 'l) walk \<Rightarrow> bool"
  for explore cores root
where
  at_start: "reached explore cores root (start explore root)"
| at_step: "reached explore cores root s \<Longrightarrow> walk_step explore cores s t \<Longrightarrow>
    reached explore cores root t"
| at_spurious: "reached explore cores root s \<Longrightarrow> spurious s t \<Longrightarrow> reached explore cores root t"

text \<open>What the walk is to visit: the leaves below a directory, depth first in the order its steps
  come.\<close>

inductive yields ::
  "('d \<Rightarrow> ('d, 'l) tree_step list) \<Rightarrow> ('d, 'l) tree_step list \<Rightarrow> 'l list \<Rightarrow> bool"
  for explore
where
  yields_Nil: "yields explore [] []"
| yields_Leaf: "yields explore ss ls \<Longrightarrow> yields explore (Leaf l # ss) (l # ls)"
| yields_Dir: "yields explore (explore d) ls \<Longrightarrow> yields explore ss ms \<Longrightarrow>
    yields explore (Dir d # ss) (ls @ ms)"

inductive_cases yields_DirE: "yields explore (Dir d # ss) ls"
inductive_cases yields_LeafE: "yields explore (Leaf l # ss) ls"
inductive_cases yields_NilE: "yields explore [] ls"

section \<open>The order of the heap is the order of the keys\<close>

lemma encoded_bytes: "is_bytes (encoded i)"
proof -
  have "128 + min (i + 1) u32_max div 2 ^ 8 mod 256 < 256" if "i < 0x3FFF"
  proof -
    have "min (i + 1) u32_max div 2 ^ 8 < 64" using that by simp
    then show ?thesis by simp
  qed
  then show ?thesis by (auto simp: encoded_def is_bytes_def Let_def)
qed

lemma encoded_not_Nil [simp]: "encoded i \<noteq> []"
  by (simp add: encoded_def Let_def)

lemma less_append: "length xs = length ys \<Longrightarrow> xs < ys \<Longrightarrow> xs @ s < ys @ (t :: bytes)"
  by (induction xs ys rule: list_induct2) auto

lemma word_bytes:
  fixes n :: nat
  assumes "n < 2 ^ 32"
  shows "word_of 4 [n div 2 ^ 24 mod 256, n div 2 ^ 16 mod 256, n div 2 ^ 8 mod 256, n mod 256] = n"
proof -
  have "n div 2 ^ 24 mod 256 = n div 2 ^ 24" using assms by simp
  moreover have "n = 2 ^ 8 * (n div 2 ^ 8) + n mod 256"
    "n div 2 ^ 8 = 2 ^ 8 * (n div 2 ^ 16) + n div 2 ^ 8 mod 256"
    "n div 2 ^ 16 = 2 ^ 8 * (n div 2 ^ 24) + n div 2 ^ 16 mod 256"
    by (simp_all add: div_mult2_eq [of n 256 256, simplified] div_mult2_eq [of n 65536 256, simplified])
  ultimately show ?thesis by (simp add: word_of_def take_Cons')
qed

lemma five_bytes_mono:
  fixes m n :: nat
  assumes "m < n" "n < 2 ^ 32"
  shows "[m div 2 ^ 24 mod 256, m div 2 ^ 16 mod 256, m div 2 ^ 8 mod 256, m mod 256] @ s <
    [n div 2 ^ 24 mod 256, n div 2 ^ 16 mod 256, n div 2 ^ 8 mod 256, n mod 256] @ t"
proof (intro less_append word_of_less_imp [of _ _ 4])
  have "m < 2 ^ 32" using assms by linarith
  then show "word_of 4 [m div 2 ^ 24 mod 256, m div 2 ^ 16 mod 256, m div 2 ^ 8 mod 256, m mod 256] <
      word_of 4 [n div 2 ^ 24 mod 256, n div 2 ^ 16 mod 256, n div 2 ^ 8 mod 256, n mod 256]"
    using assms by (simp only: word_bytes)
qed (simp_all add: is_bytes_def)

text \<open>An earlier index is encoded lower, whatever follows, and no encoding begins another.\<close>

lemma encoded_less:
  assumes "i < j" "j < u32_max"
  shows "encoded i @ s < encoded j @ t"
proof -
  have m: "min (i + 1) u32_max = i + 1" "min (j + 1) u32_max = j + 1" "j + 1 < 2 ^ 32"
    using assms by (simp_all add: u32_max_def)
  consider "j < 0x7F" | "i < 0x7F" "0x7F \<le> j" | "0x7F \<le> i" "j < 0x3FFF" | "0x7F \<le> i" "i < 0x3FFF" "0x3FFF \<le> j"
    | "0x3FFF \<le> i" using assms by linarith
  then show ?thesis
  proof cases
    case 5
    then show ?thesis using assms m five_bytes_mono [of "i + 1" "j + 1" s t]
      by (simp add: encoded_def Let_def)
  next
    case 3
    then have "(i + 1) div 256 \<le> (j + 1) div 256" "(j + 1) div 256 < 64"
      using assms by (auto intro: div_le_mono)
    moreover have "(i + 1) div 256 = (j + 1) div 256 \<Longrightarrow> (i + 1) mod 256 < (j + 1) mod 256"
      using assms(1) by (metis add_less_cancel_right mod_div_mult_eq nat_add_left_cancel_less add.commute)
    ultimately show ?thesis using 3 assms m by (auto simp: encoded_def Let_def)
  next
    case 4
    then have "(i + 1) div 256 < 64" by auto
    then show ?thesis using 4 assms m by (auto simp: encoded_def Let_def)
  qed (use assms in \<open>simp_all add: encoded_def Let_def m\<close>)
qed

lemma fill_eq: "length bs \<le> 16 \<Longrightarrow> fill bs key = take 16 (bs @ concat (map encoded key))"
  by (induction key arbitrary: bs) (simp_all add: Let_def)

lemma word_of_take: "word_of n (take n s) = word_of n s"
  by (simp add: word_of_def min_def)

definition small_key :: "nat list \<Rightarrow> bool" where
  "small_key key \<longleftrightarrow> list_all (\<lambda>i. i < u32_max) key"

lemma append_less: "s < t \<Longrightarrow> p @ s < p @ (t :: bytes)"
  by (induction p) auto

lemma encoded_key_less:
  "small_key l \<Longrightarrow> k < l \<Longrightarrow> concat (map encoded k) < concat (map encoded l)"
proof (induction k arbitrary: l)
  case Nil
  then show ?case by (cases l; cases "concat (map encoded l)") auto
next
  case (Cons i k)
  then obtain j l' where l: "l = j # l'" by (cases l) auto
  show ?case
  proof (cases "i = j")
    case True
    then show ?thesis using Cons l by (simp add: small_key_def append_less)
  next
    case False
    then show ?thesis using Cons.prems l encoded_less [of i j] by (simp add: small_key_def)
  qed
qed

lemma rank_mono: "small_key l \<Longrightarrow> k < l \<Longrightarrow> rank k \<le> rank l"
proof (rule ccontr)
  assume l: "small_key l" "k < l" and "\<not> rank k \<le> rank l"
  then have "word_of 16 (concat (map encoded l)) < word_of 16 (concat (map encoded k))"
    by (simp add: rank_def fill_eq word_of_take)
  moreover have "is_bytes (concat (map encoded x))" for x
    using encoded_bytes by (auto simp: is_bytes_def list_all_iff)
  ultimately have "concat (map encoded l) < concat (map encoded k)" by (blast intro: word_of_less_imp)
  then show False using encoded_key_less [OF l] by auto
qed

text \<open>The heap of open directories is ordered by their keys: comparing the sixteen bytes of
  rank first and the keys only then says the same as comparing the keys, so the directory taken is
  the one the walk reaches first.\<close>

theorem pending_order_is_key_order:
  "small_key k \<Longrightarrow> small_key l \<Longrightarrow> pending_before k l \<longleftrightarrow> k < l"
  using rank_mono [of l k] rank_mono [of k l]
  by (cases k l rule: linorder_cases) (auto simp: pending_before_def)

theorem pending_order_is_key_order_witness:
  "pending_before [0, 126] [0, 127, 4] \<and> \<not> pending_before [0, 127, 4] [0, 127]"
  by (simp add: pending_order_is_key_order small_key_def u32_max_def)

section \<open>Who holds a slot's number\<close>

text \<open>The threads and the items hold references to slots; each slot is held once, by the thread
  that is to visit it or by the items that are to be visited.\<close>

fun item_refs :: "nat \<Rightarrow> 'l item list \<Rightarrow> nat" where
  "item_refs j [] = 0"
| "item_refs j (Leaf_Item l # is) = item_refs j is"
| "item_refs j (Slot_Item i # is) = of_bool (i = j) + item_refs j is"

fun walker_refs :: "nat \<Rightarrow> walker \<Rightarrow> nat" where
  "walker_refs j (Hiring_For k i) = of_bool (i = j)"
| "walker_refs j (Obtaining i) = of_bool (i = j)"
| "walker_refs j (Awaiting i) = of_bool (i = j)"
| "walker_refs j w = 0"

fun worker_refs :: "nat \<Rightarrow> ('d, 'l) worker \<Rightarrow> nat" where
  "worker_refs j (Delivering i items taken) = item_refs j items"
| "worker_refs j w = 0"

definition slot_refs :: "nat \<Rightarrow> ('d, 'l) slot \<Rightarrow> nat" where
  "slot_refs j sl = (case sl_items sl of None \<Rightarrow> 0 | Some items \<Rightarrow> item_refs j items)"

definition refs :: "nat \<Rightarrow> ('d, 'l) walk \<Rightarrow> nat" where
  "refs j s = walker_refs j (walker s) + sum_list (map (item_refs j) (stack s)) +
     sum_list (map (slot_refs j) (slots s)) + sum_list (map (worker_refs j) (workers s))"

fun busy :: "nat \<Rightarrow> ('d, 'l) worker \<Rightarrow> bool" where
  "busy j (Exploring i d) = (i = j)"
| "busy j (Delivering i items taken) = (i = j)"
| "busy j w = False"

fun knows :: "nat \<Rightarrow> ('d, 'l) worker \<Rightarrow> bool" where
  "knows n (Claimed i) = (i < n)"
| "knows n (Exploring i d) = (i < n)"
| "knows n (Delivering i items taken) = (i < n \<and> (case taken of None \<Rightarrow> True | Some j \<Rightarrow> j < n))"
| "knows n w = True"


section \<open>The invariant of the walk\<close>

fun step_of :: "(nat \<Rightarrow> 'd) \<Rightarrow> 'l item \<Rightarrow> ('d, 'l) tree_step" where
  "step_of f (Slot_Item i) = Dir (f i)"
| "step_of f (Leaf_Item l) = Leaf l"

fun walker_items :: "walker \<Rightarrow> 'l item list" where
  "walker_items (Hiring_For k i) = [Slot_Item i]"
| "walker_items (Obtaining i) = [Slot_Item i]"
| "walker_items (Awaiting i) = [Slot_Item i]"
| "walker_items w = []"

text \<open>What the walk has still to hand out, \<open>f\<close> naming the directory of each slot.\<close>

definition pending :: "(nat \<Rightarrow> 'd) \<Rightarrow> ('d, 'l) walk \<Rightarrow> ('d, 'l) tree_step list" where
  "pending f s = map (step_of f) (walker_items (walker s) @ concat (stack s))"

definition slot_ok ::
  "('d \<Rightarrow> ('d, 'l) tree_step list) \<Rightarrow> (nat \<Rightarrow> 'd) \<Rightarrow> nat \<Rightarrow> ('d, 'l) slot \<Rightarrow> bool"
where
  "slot_ok explore f i sl \<longleftrightarrow>
     (\<forall>d. sl_dir sl = Some d \<longrightarrow> d = f i) \<and>
     (\<forall>items. sl_items sl = Some items \<longrightarrow> map (step_of f) items = explore (f i))"

fun worker_ok ::
  "('d \<Rightarrow> ('d, 'l) tree_step list) \<Rightarrow> (nat \<Rightarrow> 'd) \<Rightarrow> ('d, 'l) worker \<Rightarrow> bool"
where
  "worker_ok explore f (Exploring i d) = (d = f i)"
| "worker_ok explore f (Delivering i items taken) = (map (step_of f) items = explore (f i))"
| "worker_ok explore f w = True"

definition refs_ok :: "('d, 'l) walk \<Rightarrow> bool" where
  "refs_ok s \<longleftrightarrow> (\<forall>j. refs j s \<le> 1 \<and> (0 < refs j s \<longrightarrow> j < length (slots s)))"

definition covered :: "('d, 'l) walk \<Rightarrow> nat \<Rightarrow> bool" where
  "covered s j \<longleftrightarrow> sl_dir (slots s ! j) \<noteq> None \<or> sl_items (slots s ! j) \<noteq> None \<or>
     (\<exists>w\<in>set (workers s). busy j w)"

definition contents_ok ::
  "('d \<Rightarrow> ('d, 'l) tree_step list) \<Rightarrow> (nat \<Rightarrow> 'd) \<Rightarrow> ('d, 'l) walk \<Rightarrow> bool"
where
  "contents_ok explore f s \<longleftrightarrow>
     (\<forall>i<length (slots s). slot_ok explore f i (slots s ! i)) \<and>
     (\<forall>w\<in>set (workers s). worker_ok explore f w \<and> knows (length (slots s)) w) \<and>
     (\<forall>i\<in>set (open_slots s). i < length (slots s))"

definition waits_ok :: "('d, 'l) walk \<Rightarrow> bool" where
  "waits_ok s \<longleftrightarrow>
     (\<forall>i. walker s = Awaiting i \<longrightarrow> sl_awaited (slots s ! i) \<and> sl_dir (slots s ! i) = None \<and>
        sl_items (slots s ! i) = None) \<and>
     (over s \<longleftrightarrow> walker s = Finished) \<and> (over s \<longrightarrow> Asleep \<notin> set (workers s) \<and> stack s = [])"

definition visits_ok ::
  "('d \<Rightarrow> ('d, 'l) tree_step list) \<Rightarrow> 'd \<Rightarrow> (nat \<Rightarrow> 'd) \<Rightarrow> ('d, 'l) walk \<Rightarrow> bool"
where
  "visits_ok explore root f s \<longleftrightarrow>
     (\<forall>rest. yields explore (pending f s) rest \<longrightarrow> yields explore (explore root) (visited s @ rest))"

text \<open>\<open>X\<close> holds the slots whose directory a thread has just taken.\<close>

definition struct_inv ::
  "nat set \<Rightarrow> ('d \<Rightarrow> ('d, 'l) tree_step list) \<Rightarrow> (nat \<Rightarrow> 'd) \<Rightarrow> ('d, 'l) walk \<Rightarrow> bool"
where
  "struct_inv X explore f s \<longleftrightarrow>
     refs_ok s \<and> (\<forall>j. 0 < refs j s \<longrightarrow> j \<notin> X \<longrightarrow> covered s j) \<and> contents_ok explore f s \<and> waits_ok s"

definition walk_inv ::
  "('d \<Rightarrow> ('d, 'l) tree_step list) \<Rightarrow> 'd \<Rightarrow> (nat \<Rightarrow> 'd) \<Rightarrow> ('d, 'l) walk \<Rightarrow> bool"
where
  "walk_inv explore root f s \<longleftrightarrow> struct_inv {} explore f s \<and> visits_ok explore root f s"

lemma sum_list_upd:
  "i < length xs \<Longrightarrow> sum_list (map g (xs[i := x])) + g (xs ! i) = sum_list (map g xs) + (g x :: nat)"
  by (induction xs arbitrary: i) (auto split: nat.split simp: nth_Cons')

lemma nth_upd: "xs[i := x] ! j = (if i = j \<and> j < length xs then x else xs ! j)"
  by (cases "i = j") (auto simp: linorder_not_less list_update_beyond)

lemma item_refs_append [simp]: "item_refs j (a @ b) = item_refs j a + item_refs j b"
  by (induction j a rule: item_refs.induct) auto

lemma item_refs_concat: "sum_list (map (item_refs j) st) = item_refs j (concat st)"
  by (induction st) auto

lemma walker_refs_items: "walker_refs j w = item_refs j (walker_items w)"
  by (cases w) auto

text \<open>Waking threads changes nothing the invariant sees.\<close>

lemma wake_facts [simp]:
  "length (wake n ws) = length ws"
  "map (worker_refs j) (wake n ws) = map (worker_refs j) ws"
  "(\<exists>w\<in>set (wake n ws). busy j w) \<longleftrightarrow> (\<exists>w\<in>set ws. busy j w)"
  "(\<forall>w\<in>set (wake n ws). worker_ok explore f w \<and> knows m w) \<longleftrightarrow>
     (\<forall>w\<in>set ws. worker_ok explore f w \<and> knows m w)"
  by (induction n ws rule: wake.induct) auto

lemma wake_nth: "i < length ws \<Longrightarrow> ws ! i \<noteq> Asleep \<Longrightarrow> wake n ws ! i = ws ! i"
  by (induction n ws arbitrary: i rule: wake.induct) (auto simp: nth_Cons split: nat.splits)

lemma wake_all: "length ws \<le> n \<Longrightarrow> Asleep \<notin> set (wake n ws)"
  by (induction n ws rule: wake.induct) auto

lemma wake_asleep: "Asleep \<in> set (wake n ws) \<Longrightarrow> Asleep \<in> set ws"
  by (induction n ws rule: wake.induct) auto

lemma set_worker_fields [simp]:
  "slots (set_worker w x s) = slots s" "open_slots (set_worker w x s) = open_slots s"
  "over (set_worker w x s) = over s" "walker (set_worker w x s) = walker s"
  "stack (set_worker w x s) = stack s" "visited (set_worker w x s) = visited s"
  "workers (set_worker w x s) = (workers s)[w := x]"
  by (simp_all add: set_worker_def)

text \<open>A thread that changes what it is about, keeping what it holds.\<close>

lemma refs_set_worker:
  "w < length (workers s) \<Longrightarrow>
   refs j (set_worker w x s) + worker_refs j (workers s ! w) = refs j s + worker_refs j x"
  using sum_list_upd [of w "workers s" "worker_refs j" x] by (simp add: refs_def set_worker_def)

lemma busy_set_worker:
  assumes "w < length ws" "\<exists>v\<in>set ws. busy j v" "busy j (ws ! w) \<Longrightarrow> busy j x"
  shows "\<exists>v\<in>set (ws[w := x]). busy j v"
proof -
  obtain k where "k < length ws" "busy j (ws ! k)" using assms(2) by (metis in_set_conv_nth)
  then show ?thesis using assms(1,3)
    by (intro bexI [of _ "ws[w := x] ! k"] nth_mem) (auto simp: nth_list_update)
qed

lemma set_worker_inv:
  assumes inv: "struct_inv X explore f s" and w: "w < length (workers s)"
    and x: "worker_ok explore f x" "knows (length (slots s)) x"
    and held: "\<And>j. worker_refs j x = worker_refs j (workers s ! w)"
    and busy: "\<And>j. busy j (workers s ! w) \<Longrightarrow> busy j x"
    and asleep: "over s \<Longrightarrow> x \<noteq> Asleep"
  shows "struct_inv X explore f (set_worker w x s)"
proof -
  have refs: "refs j (set_worker w x s) = refs j s" for j
    using refs_set_worker [OF w, of j x] held by simp
  have cov: "covered (set_worker w x s) j" if "covered s j" for j
    using that busy_set_worker [OF w _ busy] by (auto simp: covered_def)
  have all: "P y" if "y \<in> set ((workers s)[w := x])" "\<forall>y\<in>set (workers s). P y" "P x" for P y
    using that set_update_subset_insert [of "workers s" w x] by auto
  show ?thesis
    unfolding struct_inv_def
  proof (intro conjI)
    show "refs_ok (set_worker w x s)"
      "\<forall>j. 0 < refs j (set_worker w x s) \<longrightarrow> j \<notin> X \<longrightarrow> covered (set_worker w x s) j"
      using inv cov by (simp_all add: struct_inv_def refs_ok_def refs)
    show "contents_ok explore f (set_worker w x s)"
      using inv x all [of _ "\<lambda>y. worker_ok explore f y \<and> knows (length (slots s)) y"]
      by (simp add: struct_inv_def contents_ok_def)
    show "waits_ok (set_worker w x s)"
      using inv asleep all [of Asleep "\<lambda>y. y \<noteq> Asleep"] by (auto simp: struct_inv_def waits_ok_def)
  qed
qed

text \<open>New slots for the directories of a step list.\<close>

lemma itemize_facts:
  assumes "itemize key base k ss = (items, new)" "\<And>i. i < length new \<Longrightarrow> f (base + k + i) = the (sl_dir (new ! i))"
  shows "map (step_of f) items = ss"
    "list_all (\<lambda>sl. sl_dir sl \<noteq> None \<and> sl_items sl = None) new"
    "item_refs j items = of_bool (base + k \<le> j \<and> j < base + k + length new)"
  using assms
proof (induction key base k ss arbitrary: items new rule: itemize.induct)
  case (2 key base k l ss)
  { case 1 then show ?case using 2 by (auto split: prod.splits simp: apfst_def map_prod_def) }
  { case 2 then show ?case using "2.IH" by (auto split: prod.splits simp: apfst_def map_prod_def) }
  { case 3 then show ?case using "2.IH" by (auto split: prod.splits simp: apfst_def map_prod_def) }
next
  case (3 key base k d ss)
  obtain items' new' where e: "itemize key base (Suc k) ss = (items', new')" by fastforce
  { case 1
    have "f (base + Suc k + i) = the (sl_dir (new' ! i))" if "i < length new'" for i
      using 1(2) [of "Suc i"] 1(1) e that by auto
    moreover have "f (base + k) = d" using 1(2) [of 0] 1(1) e by (auto simp: new_slot_def)
    ultimately show ?case using "3.IH"(1) [OF e] 1(1) e by (auto simp: new_slot_def) }
  { case 2
    have "f (base + Suc k + i) = the (sl_dir (new' ! i))" if "i < length new'" for i
      using 2(2) [of "Suc i"] 2(1) e that by auto
    then show ?case using "3.IH"(2) [OF e] 2 e by (auto simp: new_slot_def) }
  { case 3
    have "f (base + Suc k + i) = the (sl_dir (new' ! i))" if "i < length new'" for i
      using 3(2) [of "Suc i"] 3(1) e that by auto
    then show ?case using "3.IH"(3) [OF e] 3 e by (auto simp: new_slot_def) }
qed auto

lemma step_of_cong:
  "(\<And>j. 0 < item_refs j items \<Longrightarrow> f' j = f j) \<Longrightarrow> map (step_of f') items = map (step_of f) items"
proof (induction items)
  case (Cons a items)
  have "f' j = f j" if "0 < item_refs j items" for j
    using Cons.prems [of j] that by (cases a) auto
  moreover have "step_of f' a = step_of f a" by (cases a) (simp_all add: Cons.prems)
  ultimately show ?case using Cons.IH by simp
qed simp

lemma refs_parts:
  "item_refs j (walker_items (walker s) @ concat (stack s)) \<le> refs j s"
  "sl \<in> set (slots s) \<Longrightarrow> slot_refs j sl \<le> refs j s"
  "w \<in> set (workers s) \<Longrightarrow> worker_refs j w \<le> refs j s"
  using member_le_sum_list [of "slot_refs j sl" "map (slot_refs j) (slots s)"]
    member_le_sum_list [of "worker_refs j w" "map (worker_refs j) (workers s)"]
  by (auto simp: refs_def item_refs_concat walker_refs_items [symmetric])

lemma explore_only_inv:
  assumes inv: "struct_inv X explore f s" and e: "explore_only explore d key s = (items, dirs, s')"
  obtains f' new where
    "struct_inv X explore f' s'" "map (step_of f') items = explore d"
    "\<And>i. i < length (slots s) \<Longrightarrow> f' i = f i"
    "\<And>j. item_refs j items = of_bool (length (slots s) \<le> j \<and> j < length (slots s'))"
    "\<And>j. length (slots s) \<le> j \<Longrightarrow> j < length (slots s') \<Longrightarrow> sl_dir (slots s' ! j) \<noteq> None"
    "\<And>i. i \<in> set dirs \<Longrightarrow> i < length (slots s')"
    "pending f' s' = pending f s" "\<And>j. length (slots s) \<le> j \<Longrightarrow> refs j s' = 0"
    "\<And>j. refs j s' = refs j s"
    "s' = s\<lparr>slots := slots s @ new, found := found s + length new\<rparr>"
proof -
  obtain new where it: "itemize key (length (slots s)) 0 (explore d) = (items, new)"
    and s': "s' = s\<lparr>slots := slots s @ new, found := found s + length new\<rparr>"
    and dirs: "dirs = [length (slots s) ..< length (slots s) + length new]"
    using e by (auto simp: explore_only_def Let_def split: prod.splits)
  define f' where "f' i = (if i < length (slots s) then f i else the (sl_dir (new ! (i - length (slots s)))))" for i
  have old: "f' i = f i" if "i < length (slots s)" for i using that by (simp add: f'_def)
  note it' = itemize_facts [OF it, of f', unfolded f'_def, simplified, folded f'_def]
  have new: "sl_dir sl \<noteq> None \<and> sl_items sl = None" if "sl \<in> set new" for sl
    using it'(2) that by (auto simp: list_all_iff)
  have zero: "sum_list (map (slot_refs j) new) = 0" for j
    using new by (intro sum_list_eq_0_iff [THEN iffD2]) (auto simp: slot_refs_def)
  have refs: "refs j s' = refs j s" for j
    by (simp add: refs_def s' zero)
  have fld: "slots s' = slots s @ new" "walker s' = walker s" "stack s' = stack s" "over s' = over s"
    "workers s' = workers s" "open_slots s' = open_slots s" "visited s' = visited s"
    by (simp_all add: s')
  have valid: "j < length (slots s)" if "0 < refs j s" for j
    using inv that by (auto simp: struct_inv_def refs_ok_def)
  have map_f': "map (step_of f') xs = map (step_of f) xs" if "\<And>j. item_refs j xs \<le> refs j s" for xs
    using that valid old by (intro step_of_cong) (meson less_le_trans)
  have nth: "slots s' ! j = (if j < length (slots s) then slots s ! j else new ! (j - length (slots s)))" for j
    by (simp add: fld nth_append)
  have "struct_inv X explore f' s'"
    unfolding struct_inv_def
  proof (intro conjI allI impI)
    show "refs_ok s'" using inv by (auto simp: struct_inv_def refs_ok_def refs fld trans_less_add1)
    show "covered s' j" if "0 < refs j s'" "j \<notin> X" for j
      using inv that valid [of j] by (auto simp: struct_inv_def refs covered_def fld nth_append)
    show "contents_ok explore f' s'"
      unfolding contents_ok_def
    proof (intro conjI allI ballI impI)
      fix i assume i: "i < length (slots s')"
      show "slot_ok explore f' i (slots s' ! i)"
      proof (cases "i < length (slots s)")
        case True
        then have sl: "slots s ! i \<in> set (slots s)" by simp
        have ok: "slot_ok explore f i (slots s ! i)"
          using inv True by (simp add: struct_inv_def contents_ok_def)
        have "map (step_of f') its = explore (f' i)" if its: "sl_items (slots s ! i) = Some its" for its
        proof -
          have "map (step_of f') its = map (step_of f) its"
            using refs_parts(2) [OF sl] its by (intro map_f') (simp add: slot_refs_def)
          also have "\<dots> = explore (f i)" using ok its by (simp add: slot_ok_def)
          finally show ?thesis by (simp only: old [OF True])
        qed
        then show ?thesis using ok True by (simp add: slot_ok_def nth old)
      next
        case False
        then have "new ! (i - length (slots s)) \<in> set new" using i by (simp add: fld)
        then show ?thesis using False new by (auto simp: nth slot_ok_def f'_def)
      qed
    next
      fix w assume w: "w \<in> set (workers s')"
      then have ok: "w \<in> set (workers s)" "worker_ok explore f w" "knows (length (slots s)) w"
        using inv by (auto simp: struct_inv_def contents_ok_def fld)
      show "worker_ok explore f' w"
      proof (cases w)
        case (Delivering i its tk)
        then have "map (step_of f') its = map (step_of f) its"
          using refs_parts(3) [OF ok(1)] by (intro map_f') simp
        also have "\<dots> = explore (f i)" using ok(2) Delivering by simp
        also have "\<dots> = explore (f' i)" using ok(3) Delivering by (simp add: old)
        finally show ?thesis by (simp only: Delivering worker_ok.simps)
      qed (use ok old in auto)
      show "knows (length (slots s')) w" using ok(3) by (cases w) (auto simp: fld split: option.splits)
    next
      show "i < length (slots s')" if "i \<in> set (open_slots s')" for i
        using inv that by (auto simp: struct_inv_def contents_ok_def fld trans_less_add1)
    qed
    show "waits_ok s'"
    proof -
      have "i < length (slots s)" if "walker s = Awaiting i" for i
        using valid [of i] refs_parts(1) [of i s] that by simp
      then show ?thesis using inv by (auto simp: struct_inv_def waits_ok_def fld nth_append)
    qed
  qed
  moreover have "pending f' s' = pending f s"
    unfolding pending_def fld by (rule map_f') (rule refs_parts(1))
  moreover have "refs j s' = 0" if "length (slots s) \<le> j" for j
    using valid [of j] that refs [of j] by fastforce
  moreover have "sl_dir (slots s' ! j) \<noteq> None" if "length (slots s) \<le> j" "j < length (slots s')" for j
    using that new [of "new ! (j - length (slots s))"] by (simp add: nth fld nth_append)
  ultimately show ?thesis using that it'(1) old it'(3) refs s' dirs by (simp add: s')
qed

text \<open>Opening directories to the workers.\<close>

lemma earliest_mem: "earliest sl is = Some i \<Longrightarrow> i \<in> set is"
  by (induction sl "is" arbitrary: i rule: earliest.induct) (auto split: option.splits if_splits)

lemma register_facts:
  assumes "register dirs b s = (taken, t)"
  shows "slots t = slots s" "walker t = walker s" "stack t = stack s" "over t = over s"
    "visited t = visited s" "workers t = wake (length dirs - 1) (workers s)"
    "set (open_slots t) \<subseteq> set (open_slots s) \<union> set dirs"
    "taken = Some i \<Longrightarrow> i \<in> set (open_slots s) \<union> set dirs"
  using assms earliest_mem [of "slots s" "open_slots s @ dirs"]
  by (auto simp: register_def Let_def split: if_splits option.splits dest!: set_remove1_subset [THEN subsetD])

lemma register_inv:
  assumes inv: "struct_inv X explore f s" and r: "register dirs b s = (taken, t)"
    and dirs: "\<And>i. i \<in> set dirs \<Longrightarrow> i < length (slots s)"
  shows "struct_inv X explore f t"
proof -
  note fld = register_facts [OF r]
  have refs: "refs j t = refs j s" for j by (simp add: refs_def fld)
  have "covered t j = covered s j" for j by (simp add: covered_def fld)
  moreover have "contents_ok explore f t"
    using inv dirs fld(7) by (auto simp: struct_inv_def contents_ok_def fld(1,6))
  moreover have "waits_ok t"
    using inv by (auto simp: struct_inv_def waits_ok_def fld(1-6) dest: wake_asleep)
  ultimately show ?thesis
    using inv by (simp add: struct_inv_def refs_ok_def refs fld(1))
qed

text \<open>What set, stack and threads share when nothing else changes.\<close>

lemma refs_register: "register dirs b s = (taken, t) \<Longrightarrow> refs j t = refs j s"
  by (simp add: refs_def register_facts)

lemma struct_invD:
  assumes "struct_inv X explore f s"
  shows "refs j s \<le> 1" "0 < refs j s \<Longrightarrow> j < length (slots s)"
    "0 < refs j s \<Longrightarrow> j \<notin> X \<Longrightarrow> covered s j"
    "i < length (slots s) \<Longrightarrow> slot_ok explore f i (slots s ! i)"
    "w < length (workers s) \<Longrightarrow> worker_ok explore f (workers s ! w)"
    "w < length (workers s) \<Longrightarrow> knows (length (slots s)) (workers s ! w)"
    "i \<in> set (open_slots s) \<Longrightarrow> i < length (slots s)"
    "over s \<longleftrightarrow> walker s = Finished" "over s \<Longrightarrow> stack s = []"
    "over s \<Longrightarrow> Asleep \<notin> set (workers s)"
  using assms by (auto simp: struct_inv_def refs_ok_def contents_ok_def waits_ok_def)

lemma hire_one_inv:
  assumes "struct_inv X explore f s"
  shows "struct_inv X explore f (hire_one cores s)"
proof -
  have "refs j (hire_one cores s) = refs j s" for j by (simp add: hire_one_def refs_def)
  moreover have "covered s j \<Longrightarrow> covered (hire_one cores s) j" for j
    by (auto simp: covered_def hire_one_def)
  ultimately show ?thesis
    using assms
    by (simp add: struct_inv_def refs_ok_def contents_ok_def waits_ok_def) (auto simp: hire_one_def)
qed

lemma take_dir_fields [simp]:
  "open_slots (take_dir i s) = open_slots s" "over (take_dir i s) = over s"
  "walker (take_dir i s) = walker s" "stack (take_dir i s) = stack s"
  "visited (take_dir i s) = visited s" "workers (take_dir i s) = workers s"
  "length (slots (take_dir i s)) = length (slots s)"
  "slots (take_dir i s) = (slots s)[i := (slots s ! i)\<lparr>sl_dir := None\<rparr>]"
  by (simp_all add: take_dir_def)

lemma refs_take_dir [simp]: "refs j (take_dir i s) = refs j s"
proof (cases "i < length (slots s)")
  case True
  then show ?thesis
    using sum_list_upd [OF True, of "slot_refs j" "(slots s ! i)\<lparr>sl_dir := None\<rparr>"]
    by (simp add: refs_def slot_refs_def)
qed (simp add: refs_def linorder_not_less list_update_beyond)

lemma take_dir_inv:
  assumes "struct_inv {} explore f s" "sl_dir (slots s ! i) \<noteq> None"
  shows "struct_inv {i} explore f (take_dir i s)"
proof -
  have "covered (take_dir i s) j" if "covered s j" "j \<noteq> i" for j
    using that by (simp add: covered_def)
  moreover have "slot_ok explore f j ((slots s)[i := (slots s ! i)\<lparr>sl_dir := None\<rparr>] ! j)"
    if "j < length (slots s)" for j
    using struct_invD(4) [OF assms(1) that] that by (cases "j = i") (auto simp: slot_ok_def)
  ultimately show ?thesis
    using assms
    by (auto simp: struct_inv_def refs_ok_def contents_ok_def waits_ok_def nth_upd)
qed

lemma covered_busy: "struct_inv {i} explore f s \<Longrightarrow> (0 < refs i s \<Longrightarrow> covered s i) \<Longrightarrow> struct_inv {} explore f s"
  unfolding struct_inv_def by (metis empty_iff singletonD)

text \<open>A worker takes a directory, explores it and delivers its items.\<close>

lemma worker_take_inv:
  assumes inv: "struct_inv {} explore f s" and w: "w < length (workers s)" "workers s ! w = Claimed i"
    and d: "sl_dir (slots s ! i) = Some d"
  shows "struct_inv {} explore f (set_worker w (Exploring i d) (take_dir i s))"
proof (rule covered_busy)
  have i: "i < length (slots s)" using struct_invD(6) [OF inv w(1)] w(2) by simp
  have "d = f i" using struct_invD(4) [OF inv i] d by (simp add: slot_ok_def)
  then show "struct_inv {i} explore f (set_worker w (Exploring i d) (take_dir i s))"
    using take_dir_inv [OF inv] d w i by (intro set_worker_inv) simp_all
  show "covered (set_worker w (Exploring i d) (take_dir i s)) i"
    using w set_update_memI [of w "workers s" "Exploring i d"]
    by (auto simp: covered_def intro: bexI [of _ "Exploring i d"])
qed

lemma worker_explore_inv:
  assumes inv: "struct_inv {} explore f s" and w: "w < length (workers s)" "workers s ! w = Exploring i d"
    and e: "explore_only explore d key s = (items, dirs, s')" and r: "register dirs b s' = (taken, t)"
  shows "\<exists>f'. struct_inv {} explore f' (set_worker w (Delivering i items taken) t) \<and>
    pending f' (set_worker w (Delivering i items taken) t) = pending f s"
proof -
  obtain f' new where inv': "struct_inv {} explore f' s'" and items: "map (step_of f') items = explore d"
    and new: "\<And>j. item_refs j items = of_bool (length (slots s) \<le> j \<and> j < length (slots s'))"
    and dir: "\<And>j. length (slots s) \<le> j \<Longrightarrow> j < length (slots s') \<Longrightarrow> sl_dir (slots s' ! j) \<noteq> None"
    and dirs: "\<And>i. i \<in> set dirs \<Longrightarrow> i < length (slots s')"
    and p: "pending f' s' = pending f s" and zero: "\<And>j. length (slots s) \<le> j \<Longrightarrow> refs j s' = 0"
    and s': "s' = s\<lparr>slots := slots s @ new, found := found s + length new\<rparr>"
    using explore_only_inv [OF inv e] by metis
  note fld = register_facts [OF r]
  let ?t = "set_worker w (Delivering i items taken) t"
  have t: "struct_inv {} explore f' t" by (rule register_inv [OF inv' r dirs])
  have wt: "w < length (workers t)" "workers t ! w = Exploring i d"
    using w by (simp_all add: fld(6) s' wake_nth)
  have refs: "refs j ?t = refs j s' + item_refs j items" for j
    using refs_set_worker [OF wt(1), of j "Delivering i items taken"] wt(2)
    by (simp add: refs_register [OF r])
  have di: "d = f' i" "i < length (slots t)"
    using struct_invD(5) [OF t wt(1)] struct_invD(6) [OF t wt(1)] wt(2) by simp_all
  have cov: "covered ?t j" if "covered t j" for j
    using that busy_set_worker [OF wt(1), of j "Delivering i items taken"] wt(2) by (auto simp: covered_def)
  have "refs_ok ?t"
    unfolding refs_ok_def
  proof
    fix j
    show "refs j ?t \<le> 1 \<and> (0 < refs j ?t \<longrightarrow> j < length (slots ?t))"
      using struct_invD(1,2) [OF inv', of j] new [of j] zero [of j] by (auto simp: refs fld(1))
  qed
  moreover have "covered ?t j" if "0 < refs j ?t" for j
  proof (cases "0 < refs j s'")
    case True
    then show ?thesis using struct_invD(3) [OF t, of j] cov by (simp add: refs_register [OF r])
  next
    case False
    then show ?thesis using that new [of j] dir [of j] by (simp add: refs covered_def fld(1) split: if_splits)
  qed
  moreover have "knows (length (slots t)) (Delivering i items taken)"
    using di(2) fld(8) dirs struct_invD(7) [OF inv'] by (auto simp: fld(1) split: option.split)
  then have "contents_ok explore f' ?t"
    using t di(1) items by (auto simp: struct_inv_def contents_ok_def dest!: set_update_subset_insert [THEN subsetD])
  moreover have "waits_ok ?t"
    using t by (auto simp: struct_inv_def waits_ok_def dest!: set_update_subset_insert [THEN subsetD])
  moreover have "pending f' ?t = pending f s" using p by (simp add: pending_def fld(2,3))
  ultimately show ?thesis by (auto simp: struct_inv_def)
qed

lemma deliver_fields [simp]:
  "open_slots (deliver i items s) = open_slots s" "over (deliver i items s) = over s"
  "stack (deliver i items s) = stack s" "visited (deliver i items s) = visited s"
  "workers (deliver i items s) = workers s"
  "slots (deliver i items s) = (slots s)[i := (slots s ! i)\<lparr>sl_items := Some items\<rparr>]"
  "walker_items (walker (deliver i items s)) = walker_items (walker s)"
  "walker_refs j (walker (deliver i items s)) = walker_refs j (walker s)"
  by (simp_all add: deliver_def)

lemma worker_deliver_inv:
  assumes inv: "struct_inv {} explore f s" and w: "w < length (workers s)" "workers s ! w = Delivering i items taken"
    and x: "x = (case taken of Some j \<Rightarrow> Claimed j | None \<Rightarrow> Claiming)"
  shows "struct_inv {} explore f (set_worker w x (deliver i items s))" (is "struct_inv {} explore f ?t")
proof -
  have i: "i < length (slots s)" using struct_invD(6) [OF inv w(1)] w(2) by simp
  have x0: "worker_refs j x = 0" "\<not> busy j x" "x \<noteq> Asleep" "worker_ok explore f x" for j
    by (simp_all add: x split: option.split)
  have "refs j (deliver i items s) + slot_refs j (slots s ! i) = refs j s + item_refs j items" for j
    using sum_list_upd [OF i, of "slot_refs j" "(slots s ! i)\<lparr>sl_items := Some items\<rparr>"]
    by (simp add: refs_def) (simp add: slot_refs_def)
  then have refs: "refs j ?t \<le> refs j s" for j
    using refs_set_worker [of w "deliver i items s" j x] w x0(1) [of j]
    by simp (metis add_le_cancel_right add.right_neutral le_add1)
  have cov: "covered ?t j" if "covered s j" for j
  proof (cases "j = i")
    case True
    then show ?thesis using i by (simp add: covered_def)
  next
    case False
    then show ?thesis
      using that busy_set_worker [OF w(1), of j x] w(2) by (auto simp: covered_def)
  qed
  have mem: "P y" if "y \<in> set ((workers s)[w := x])" "\<forall>y\<in>set (workers s). P y" "P x" for P y
    using that set_update_subset_insert [of "workers s" w x] by auto
  have kn: "knows (length (slots s)) x"
    using struct_invD(6) [OF inv w(1)] w(2) by (simp add: x split: option.splits)
  have sl: "slot_ok explore f j ((slots s)[i := (slots s ! i)\<lparr>sl_items := Some items\<rparr>] ! j)"
    if "j < length (slots s)" for j
    using struct_invD(4) [OF inv that] struct_invD(5) [OF inv w(1)] w(2) that
    by (cases "j = i") (auto simp: slot_ok_def)
  show ?thesis
    unfolding struct_inv_def
  proof (intro conjI)
    show "refs_ok ?t"
      unfolding refs_ok_def
    proof
      fix j
      show "refs j ?t \<le> 1 \<and> (0 < refs j ?t \<longrightarrow> j < length (slots ?t))"
        using refs [of j] struct_invD(1,2) [OF inv, of j] by auto
    qed
    show "\<forall>j. 0 < refs j ?t \<longrightarrow> j \<notin> {} \<longrightarrow> covered ?t j"
      using refs struct_invD(3) [OF inv] cov by (meson empty_iff less_le_trans)
    show "contents_ok explore f ?t"
      using inv sl mem [of _ "\<lambda>y. worker_ok explore f y \<and> knows (length (slots s)) y"] x0(4) kn
      by (simp add: struct_inv_def contents_ok_def)
    show "waits_ok ?t"
      using inv mem [of Asleep "\<lambda>y. y \<noteq> Asleep"] x0(3)
      by (auto simp: struct_inv_def waits_ok_def nth_upd deliver_def)
  qed
qed

lemma explore_only_visited: "explore_only explore d key s = (items, dirs, s') \<Longrightarrow> visited s' = visited s"
  by (auto simp: explore_only_def Let_def split: prod.splits)

lemma visited_hire_one [simp]: "visited (hire_one cores s) = visited s"
  by (simp add: hire_one_def)

lemma pending_hire_one [simp]: "pending f (hire_one cores s) = pending f s"
  by (simp add: hire_one_def pending_def)

lemma pending_fields [simp]:
  "pending f (set_worker w x s) = pending f s" "pending f (take_dir i s) = pending f s"
  "pending f (deliver i items s) = pending f s"
  "pending f (s\<lparr>open_slots := is\<rparr>) = pending f s"
  by (simp_all add: pending_def)

text \<open>Every step of a worker keeps the structure and leaves what is to be visited alone.\<close>

lemma worker_step_inv:
  assumes inv: "struct_inv {} explore f s" and w: "w < length (workers s)"
    and step: "worker_step explore cores w s = Some t"
  shows "\<exists>f'. struct_inv {} explore f' t \<and> pending f' t = pending f s \<and> visited t = visited s"
proof (cases "workers s ! w")
  case (Hiring k)
  have set: "struct_inv {} explore f (set_worker w x s)" if "x = Claiming \<or> (\<exists>k. x = Hiring k)" for x
    using that Hiring by (intro set_worker_inv [OF inv w]) auto
  show ?thesis
  proof (cases k)
    case (Suc m)
    then have "t = hire_one cores (set_worker w (Hiring m) s)"
      using step Hiring by (simp add: worker_step_def)
    then show ?thesis using hire_one_inv [OF set, of "Hiring m"] by auto
  qed (use step Hiring set in \<open>auto simp: worker_step_def intro!: exI [of _ f]\<close>)
next
  case Claiming
  have set: "struct_inv {} explore f (set_worker w x s)"
    if "x = Gone \<or> (\<exists>i. x = Claimed i \<and> i < length (slots s)) \<or> (x = Asleep \<and> \<not> over s)" for x
    using that Claiming by (intro set_worker_inv [OF inv w]) auto
  have pop: "struct_inv {} explore f (set_worker w (Claimed i) (s\<lparr>open_slots := remove1 i (open_slots s)\<rparr>))"
    if "earliest (slots s) (open_slots s) = Some i" for i
  proof -
    have "struct_inv {} explore f (set_worker w (Claimed i) s)"
      using earliest_mem [OF that] struct_invD(7) [OF inv] by (intro set) auto
    moreover have "refs j (set_worker w (Claimed i) (s\<lparr>open_slots := o'\<rparr>)) = refs j (set_worker w (Claimed i) s)" for j o'
      by (simp add: refs_def)
    moreover have "covered (set_worker w (Claimed i) (s\<lparr>open_slots := o'\<rparr>)) j = covered (set_worker w (Claimed i) s) j" for j o'
      by (simp add: covered_def)
    ultimately show ?thesis
      by (auto simp: struct_inv_def refs_ok_def contents_ok_def waits_ok_def
          dest!: set_remove1_subset [THEN subsetD])
  qed
  show ?thesis
    using step Claiming set pop
    by (auto simp: worker_step_def intro!: exI [of _ f] split: if_splits option.splits)
next
  case (Claimed i)
  have "struct_inv {} explore f (set_worker w Claiming s)"
    using Claimed by (intro set_worker_inv [OF inv w]) auto
  then show ?thesis
    using step Claimed worker_take_inv [OF inv w Claimed]
    by (auto simp: worker_step_def intro!: exI [of _ f] split: option.splits)
next
  case (Exploring i d)
  obtain items dirs s' where e: "explore_only explore d (sl_key (slots s ! i)) s = (items, dirs, s')"
    by (metis prod_cases3)
  obtain taken u where r: "register dirs True s' = (taken, u)" by fastforce
  have t: "t = set_worker w (Delivering i items taken) u"
    using step Exploring by (simp add: worker_step_def e r)
  then have "visited t = visited s"
    using explore_only_visited [OF e] register_facts(5) [OF r] by simp
  then show ?thesis using worker_explore_inv [OF inv w Exploring e r] t by auto
next
  case (Delivering i items taken)
  then have "t = set_worker w (case taken of Some j \<Rightarrow> Claimed j | None \<Rightarrow> Claiming) (deliver i items s)"
    using step by (simp add: worker_step_def)
  then show ?thesis
    using worker_deliver_inv [OF inv w Delivering refl]
    by (auto intro!: exI [of _ f])
qed (use step in \<open>simp_all add: worker_step_def\<close>)

text \<open>The calling thread moves on: it holds no more than before.\<close>

lemma walker_move:
  assumes inv: "struct_inv X explore f s"
    and fields: "slots t = slots s" "open_slots t = open_slots s" "workers t = workers s" "over t = over s"
    and moved: "walker t \<noteq> Finished" "\<And>i. walker t \<noteq> Awaiting i" "\<not> over s"
    and held: "\<And>j. item_refs j (walker_items (walker t) @ concat (stack t)) \<le>
      item_refs j (walker_items (walker s) @ concat (stack s))"
  shows "struct_inv X explore f t"
proof -
  have refs: "refs j t \<le> refs j s" for j
    using held [of j] by (simp add: refs_def fields item_refs_concat walker_refs_items [symmetric])
  have "covered t j = covered s j" for j by (simp add: covered_def fields)
  moreover have "refs_ok t"
    unfolding refs_ok_def
  proof
    fix j
    show "refs j t \<le> 1 \<and> (0 < refs j t \<longrightarrow> j < length (slots t))"
      using refs [of j] struct_invD(1,2) [OF inv, of j] by (auto simp: fields)
  qed
  moreover have "\<forall>j. 0 < refs j t \<longrightarrow> j \<notin> X \<longrightarrow> covered s j"
    using refs struct_invD(3) [OF inv] by (meson less_le_trans)
  ultimately show ?thesis
    using inv moved by (simp add: struct_inv_def contents_ok_def waits_ok_def fields)
qed

lemma explore_open_inv:
  assumes inv: "struct_inv X explore f s" and e: "explore_open explore d key s = (items, t)"
  obtains f' where
    "struct_inv X explore f' t" "map (step_of f') items = explore d"
    "\<And>i. i < length (slots s) \<Longrightarrow> f' i = f i"
    "\<And>j. item_refs j items \<le> 1" "\<And>j. 0 < item_refs j items \<Longrightarrow> j < length (slots t) \<and> covered t j \<and> refs j t = 0"
    "pending f' t = pending f s" "visited t = visited s" "walker t = walker s" "stack t = stack s"
    "over t = over s" "length (slots s) \<le> length (slots t)" "\<And>j. refs j t = refs j s"
proof -
  obtain dirs s' where eo: "explore_only explore d key s = (items, dirs, s')"
    and t: "t = (if dirs = [] then s' else snd (register dirs False s'))"
    using e by (auto simp: explore_open_def split: prod.splits)
  obtain f' new where inv': "struct_inv X explore f' s'" and items: "map (step_of f') items = explore d"
    and old: "\<And>i. i < length (slots s) \<Longrightarrow> f' i = f i"
    and new: "\<And>j. item_refs j items = of_bool (length (slots s) \<le> j \<and> j < length (slots s'))"
    and dir: "\<And>j. length (slots s) \<le> j \<Longrightarrow> j < length (slots s') \<Longrightarrow> sl_dir (slots s' ! j) \<noteq> None"
    and dirs: "\<And>i. i \<in> set dirs \<Longrightarrow> i < length (slots s')"
    and p: "pending f' s' = pending f s" and zero: "\<And>j. length (slots s) \<le> j \<Longrightarrow> refs j s' = 0"
    and refs_s: "\<And>j. refs j s' = refs j s"
    and s': "s' = s\<lparr>slots := slots s @ new, found := found s + length new\<rparr>"
    using explore_only_inv [OF inv eo] by metis
  obtain taken u where r: "register dirs False s' = (taken, u)" by fastforce
  note fld = register_facts [OF r]
  have inv_t: "struct_inv X explore f' t"
    using inv' register_inv [OF inv' r dirs] by (simp add: t r)
  have refs_t: "refs j t = refs j s'" for j by (simp add: t r refs_register [OF r])
  have "slots t = slots s' \<and> walker t = walker s' \<and> stack t = stack s' \<and> visited t = visited s' \<and> over t = over s'"
    by (simp add: t r fld)
  then have sl: "slots t = slots s'" "walker t = walker s" "stack t = stack s" "visited t = visited s"
    "over t = over s"
    by (simp_all add: s')
  have "pending f' t = pending f s" using p by (simp add: pending_def sl s')
  moreover have "covered t j" if "0 < item_refs j items" for j
    using that new [of j] dir [of j] by (simp add: covered_def sl split: if_splits)
  moreover have "refs j t = 0 \<and> j < length (slots t)" if "0 < item_refs j items" for j
    using that new [of j] zero [of j] by (simp add: refs_t sl split: if_splits)
  moreover have "item_refs j items \<le> 1" for j using new [of j] by simp
  ultimately show ?thesis
    using that [of f'] inv_t items old sl refs_t refs_s s' by simp
qed

lemma yields_append:
  "yields explore (a @ b) ls \<Longrightarrow> \<exists>xs ys. ls = xs @ ys \<and> yields explore a xs \<and> yields explore b ys"
proof (induction a arbitrary: ls)
  case Nil
  then show ?case using yields_Nil [of explore] by (metis append_Nil)
next
  case (Cons st a)
  show ?case
  proof (cases st)
    case (Leaf l)
    then obtain ms where "ls = l # ms" "yields explore (a @ b) ms"
      using Cons.prems by (auto elim: yields_LeafE)
    then show ?thesis
      using Cons.IH [of ms] Leaf yields_Leaf [of explore a] by (metis append_Cons)
  next
    case (Dir d)
    then obtain ks ms where "ls = ks @ ms" "yields explore (explore d) ks" "yields explore (a @ b) ms"
      using Cons.prems by (auto elim: yields_DirE)
    then show ?thesis
      using Cons.IH [of ms] Dir yields_Dir [of explore d ks a] by (metis append.assoc)
  qed
qed

lemma yields_enter:
  "yields explore (explore d @ ss) ls \<Longrightarrow> yields explore (Dir d # ss) ls"
  using yields_append [of explore "explore d" ss ls] yields_Dir [of explore d] by metis

lemma visits_step:
  "visits_ok explore root f s \<Longrightarrow> visited t = visited s @ d \<Longrightarrow>
   (\<And>rest. yields explore (pending f' t) rest \<Longrightarrow> yields explore (pending f s) (d @ rest)) \<Longrightarrow>
   visits_ok explore root f' t"
  by (simp add: visits_ok_def)

lemma visits_same:
  "visits_ok explore root f s \<Longrightarrow> visited t = visited s \<Longrightarrow> pending f' t = pending f s \<Longrightarrow>
   visits_ok explore root f' t"
  by (simp add: visits_ok_def)

lemma obtain_unclaimed_inv:
  assumes inv: "walk_inv explore root f s" and i: "walker s = Obtaining i"
    and d: "sl_dir (slots s ! i) = Some d"
    and e: "explore_open explore d key (take_dir i s) = (items, u)"
  shows "\<exists>f'. walk_inv explore root f' (u\<lparr>stack := items # stack s, walker := Looping\<rparr>)"
proof -
  have st: "struct_inv {} explore f s" using inv by (simp add: walk_inv_def)
  have ri: "refs i s = 1" using struct_invD(1) [OF st, of i] by (simp add: refs_def i)
  then have di: "d = f i" "i < length (slots s)"
    using struct_invD(2,4) [OF st, of i] d by (auto simp: slot_ok_def)
  let ?t = "u\<lparr>stack := items # stack s, walker := Looping\<rparr>"
  obtain f' where u: "struct_inv {i} explore f' u" and items: "map (step_of f') items = explore d"
    and one: "\<And>j. item_refs j items \<le> 1"
    and fresh: "\<And>j. 0 < item_refs j items \<Longrightarrow> j < length (slots u) \<and> covered u j \<and> refs j u = 0"
    and p: "pending f' u = pending f s" and fld: "visited u = visited s" "walker u = Obtaining i"
      "stack u = stack s" "over u = over s" and refs_u: "\<And>j. refs j u = refs j s"
    using explore_open_inv [OF take_dir_inv [OF st] e] d i by (metis option.distinct(1) pending_fields(2)
        refs_take_dir take_dir_fields(2,3,4,5))
  have refs: "refs j ?t + of_bool (i = j) = refs j s + item_refs j items" for j
    using refs_u [of j] by (simp add: refs_def fld(2,3))
  have "refs i ?t = 0" using refs [of i] fresh [of i] refs_u [of i] ri by fastforce
  have cov: "covered ?t j = covered u j" for j by (simp add: covered_def)
  have "refs_ok ?t"
    unfolding refs_ok_def
  proof
    fix j
    show "refs j ?t \<le> 1 \<and> (0 < refs j ?t \<longrightarrow> j < length (slots ?t))"
      using refs [of j] fresh [of j] one [of j] refs_u [of j] struct_invD(1,2) [OF u, of j]
      by (cases "0 < item_refs j items") auto
  qed
  moreover have "covered ?t j" if "0 < refs j ?t" for j
  proof (cases "0 < item_refs j items")
    case False
    then have "j \<noteq> i" "0 < refs j u" using that \<open>refs i ?t = 0\<close> refs [of j] refs_u [of j] by auto
    then show ?thesis using struct_invD(3) [OF u, of j] by (simp add: cov)
  qed (use fresh cov in simp)
  moreover have "contents_ok explore f' ?t" "waits_ok ?t"
    using u fld by (simp_all add: struct_inv_def contents_ok_def waits_ok_def)
  moreover have "visits_ok explore root f' ?t"
  proof (rule visits_step [where d = "[]"])
    show "visits_ok explore root f s" using inv by (simp add: walk_inv_def)
    have "pending f' ?t = map (step_of f') items @ map (step_of f') (concat (stack s))"
      by (simp add: pending_def)
    then have t: "pending f' ?t = explore d @ map (step_of f') (concat (stack s))" using items by (simp only:)
    have "pending f s = Dir (f' i) # map (step_of f') (concat (stack s))"
      using p by (simp add: pending_def fld)
    then have s: "pending f s = Dir d # map (step_of f') (concat (stack s))"
      using di(1) by (simp add: pending_def i)
    show "yields explore (pending f s) ([] @ rest)" if "yields explore (pending f' ?t) rest" for rest
      using yields_enter that unfolding s t append_Nil .
  qed (simp add: fld)
  ultimately show ?thesis by (auto simp: walk_inv_def struct_inv_def)
qed

lemma obtain_delivered_inv:
  assumes inv: "walk_inv explore root f s" and i: "walker s = Obtaining i"
    and items: "sl_items (slots s ! i) = Some items"
  shows "walk_inv explore root f
    (s\<lparr>slots := (slots s)[i := (slots s ! i)\<lparr>sl_items := None\<rparr>], stack := items # stack s, walker := Looping\<rparr>)"
    (is "walk_inv explore root f ?t")
proof -
  have st: "struct_inv {} explore f s" using inv by (simp add: walk_inv_def)
  have ri: "refs i s = 1" using struct_invD(1) [OF st, of i] by (simp add: refs_def i)
  then have len: "i < length (slots s)" using struct_invD(2) [OF st, of i] by simp
  have map_items: "map (step_of f) items = explore (f i)"
    using struct_invD(4) [OF st len] items by (simp add: slot_ok_def)
  have eq: "refs j ?t + of_bool (i = j) = refs j s" for j
    using sum_list_upd [OF len, of "slot_refs j" "(slots s ! i)\<lparr>sl_items := None\<rparr>"]
    by (simp add: refs_def i) (simp add: slot_refs_def items)
  have refs: "refs j ?t = (if j = i then 0 else refs j s)" for j
    using eq [of j] ri by (cases "j = i") simp_all
  have "covered ?t j" if "covered s j" "j \<noteq> i" for j
    using that by (simp add: covered_def)
  moreover have "slot_ok explore f j (slots ?t ! j)" if "j < length (slots s)" for j
    using struct_invD(4) [OF st that] that by (auto simp: slot_ok_def nth_upd)
  moreover have "visits_ok explore root f ?t"
  proof (rule visits_step [where d = "[]"])
    show "visits_ok explore root f s" using inv by (simp add: walk_inv_def)
    have "pending f ?t = map (step_of f) items @ map (step_of f) (concat (stack s))"
      by (simp add: pending_def)
    then have t: "pending f ?t = explore (f i) @ map (step_of f) (concat (stack s))"
      using map_items by (simp only:)
    have s: "pending f s = Dir (f i) # map (step_of f) (concat (stack s))" by (simp add: pending_def i)
    show "yields explore (pending f s) ([] @ rest)" if "yields explore (pending f ?t) rest" for rest
      using yields_enter that unfolding s t append_Nil .
  qed simp
  ultimately show ?thesis
    using st i
    by (auto simp: walk_inv_def struct_inv_def refs_ok_def refs contents_ok_def waits_ok_def)
qed

lemma obtain_await_inv:
  assumes inv: "walk_inv explore root f s" and i: "walker s = Obtaining i"
    and none: "sl_dir (slots s ! i) = None" "sl_items (slots s ! i) = None"
  shows "walk_inv explore root f
    (s\<lparr>slots := (slots s)[i := (slots s ! i)\<lparr>sl_awaited := True\<rparr>], walker := Awaiting i\<rparr>)"
    (is "walk_inv explore root f ?t")
proof -
  have st: "struct_inv {} explore f s" using inv by (simp add: walk_inv_def)
  have len: "i < length (slots s)" using struct_invD(2) [OF st, of i] by (simp add: refs_def i)
  have refs: "refs j ?t = refs j s" for j
    using sum_list_upd [OF len, of "slot_refs j" "(slots s ! i)\<lparr>sl_awaited := True\<rparr>"]
    by (simp add: refs_def i) (simp add: slot_refs_def)
  have "covered ?t j = covered s j" for j
    using len by (simp add: covered_def nth_upd)
  moreover have "slot_ok explore f j (slots ?t ! j)" if "j < length (slots s)" for j
    using struct_invD(4) [OF st that] that by (auto simp: slot_ok_def nth_upd)
  moreover have "visits_ok explore root f ?t"
    using inv by (auto simp: walk_inv_def pending_def i intro: visits_same)
  ultimately show ?thesis
    using st i none len
    by (auto simp: walk_inv_def struct_inv_def refs_ok_def refs contents_ok_def waits_ok_def)
qed

lemma looping_inv:
  assumes inv: "walk_inv explore root f s" and loop: "walker s = Looping"
    and step: "walker_step explore cores s = Some t"
  shows "walk_inv explore root f t"
proof -
  have st: "struct_inv {} explore f s" and v: "visits_ok explore root f s"
    using inv by (auto simp: walk_inv_def)
  have over: "\<not> over s" using struct_invD(8) [OF st] loop by simp
  show ?thesis
  proof (cases "stack s")
    case Nil
    then have t: "t = s\<lparr>over := True, walker := Finished, workers := wake (length (workers s)) (workers s)\<rparr>"
      using step loop by (simp add: walker_step_def)
    have "refs j t = refs j s" for j by (simp add: refs_def t loop)
    moreover have "covered t j = covered s j" for j by (simp add: covered_def t)
    moreover have "visits_ok explore root f t"
      using v by (rule visits_same) (simp_all add: t pending_def loop)
    ultimately show ?thesis
      using st Nil wake_all [of "workers s"]
      by (simp add: walk_inv_def struct_inv_def refs_ok_def contents_ok_def waits_ok_def t)
  next
    case (Cons items rest)
    show ?thesis
    proof (cases items)
      case Nil
      then have t: "t = s\<lparr>stack := rest\<rparr>" using step loop Cons by (simp add: walker_step_def)
      have "struct_inv {} explore f t"
        using loop Cons Nil over by (intro walker_move [OF st]) (simp_all add: t)
      moreover have "visits_ok explore root f t"
        using v by (rule visits_same) (simp_all add: t pending_def loop Cons Nil)
      ultimately show ?thesis by (simp add: walk_inv_def)
    next
      case items: (Cons it more)
      show ?thesis
      proof (cases it)
        case (Leaf_Item l)
        then have t: "t = s\<lparr>stack := more # rest, visited := visited s @ [l]\<rparr>"
          using step loop Cons items by (simp add: walker_step_def)
        have "struct_inv {} explore f t"
          using loop Cons items Leaf_Item over by (intro walker_move [OF st]) (simp_all add: t)
        moreover have "visits_ok explore root f t"
        proof (rule visits_step [OF v, where d = "[l]"])
          show "yields explore (pending f s) ([l] @ r)" if "yields explore (pending f t) r" for r
            using that yields_Leaf [OF that, of l] by (simp add: t pending_def loop Cons items Leaf_Item)
        qed (simp add: t)
        ultimately show ?thesis by (simp add: walk_inv_def)
      next
        case (Slot_Item i)
        then have t: "slots t = slots s" "open_slots t = open_slots s" "workers t = workers s"
          "over t = over s" "stack t = more # rest" "walker_items (walker t) = [Slot_Item i]"
          "walker t \<noteq> Finished" "\<And>k. walker t \<noteq> Awaiting k" "visited t = visited s"
          using step loop Cons items by (auto simp: walker_step_def split: if_splits)
        have "struct_inv {} explore f t"
        proof (rule walker_move [OF st])
          show "item_refs j (walker_items (walker t) @ concat (stack t))
              \<le> item_refs j (walker_items (walker s) @ concat (stack s))" for j
            unfolding t using Slot_Item loop Cons items by (cases "walker t") auto
        qed (use t over in auto)
        moreover have "visits_ok explore root f t"
          using v by (rule visits_same) (simp_all add: t(5,6,9) pending_def loop Cons items Slot_Item)
        ultimately show ?thesis by (simp add: walk_inv_def)
      qed
    qed
  qed
qed

lemma walker_step_inv:
  assumes inv: "walk_inv explore root f s" and step: "walker_step explore cores s = Some t"
  shows "\<exists>f'. walk_inv explore root f' t"
proof (cases "walker s")
  case Looping
  then show ?thesis using looping_inv [OF inv _ step] by blast
next
  case (Hiring_For k i)
  have st: "struct_inv {} explore f s" and v: "visits_ok explore root f s"
    using inv by (auto simp: walk_inv_def)
  have over: "\<not> over s" using struct_invD(8) [OF st] Hiring_For by simp
  have moved: "walk_inv explore root f (s\<lparr>walker := x\<rparr>)" if "x = Obtaining i \<or> (\<exists>k. x = Hiring_For k i)" for x
  proof -
    have "struct_inv {} explore f (s\<lparr>walker := x\<rparr>)"
      using that Hiring_For over by (intro walker_move [OF st]) auto
    moreover have "visits_ok explore root f (s\<lparr>walker := x\<rparr>)"
      using v by (rule visits_same) (use that Hiring_For in \<open>auto simp: pending_def\<close>)
    ultimately show ?thesis by (simp add: walk_inv_def)
  qed
  show ?thesis
  proof (cases k)
    case 0
    then show ?thesis using step Hiring_For moved by (auto simp: walker_step_def)
  next
    case (Suc m)
    then have t: "t = hire_one cores (s\<lparr>walker := Hiring_For m i\<rparr>)"
      using step Hiring_For by (simp add: walker_step_def)
    have w: "walk_inv explore root f (s\<lparr>walker := Hiring_For m i\<rparr>)" by (rule moved) simp
    then have "visits_ok explore root f t"
      by (auto simp: t walk_inv_def intro: visits_same)
    moreover have "struct_inv {} explore f t"
      unfolding t using w by (intro hire_one_inv) (simp add: walk_inv_def)
    ultimately show ?thesis by (auto simp: walk_inv_def)
  qed
next
  case (Obtaining i)
  show ?thesis
  proof (cases "sl_dir (slots s ! i)")
    case (Some d)
    obtain items u where "explore_open explore d (sl_key (slots s ! i)) (take_dir i s) = (items, u)"
      by fastforce
    then show ?thesis
      using obtain_unclaimed_inv [OF inv Obtaining Some] step Obtaining Some
      by (auto simp: walker_step_def)
  next
    case None
    then show ?thesis
      using step Obtaining obtain_delivered_inv [OF inv Obtaining] obtain_await_inv [OF inv Obtaining None]
      by (cases "sl_items (slots s ! i)") (auto simp: walker_step_def)
  qed
qed (use step in \<open>simp_all add: walker_step_def\<close>)

lemma start_inv:
  fixes explore :: "'a \<Rightarrow> ('a, 'b) tree_step list"
  shows "\<exists>f. walk_inv explore root f (start explore root)"
proof -
  define z :: "('a, 'b) walk" where
    "z = \<lparr>slots = [], open_slots = [], over = False, found = 1, hired = 1, spawned = False,
      walker = Looping, stack = [], visited = [], workers = []\<rparr>"
  obtain items t where e: "explore_open explore root [] z = (items, t)" by fastforce
  have start: "start explore root = t\<lparr>stack := [items]\<rparr>"
    using e by (simp only: start_def z_def prod.case)
  have z: "struct_inv {} explore (\<lambda>_. root) z" "refs j z = 0" "visited z = []" "walker z = Looping"
    "stack z = []" "\<not> over z" for j
    by (simp_all add: z_def struct_inv_def refs_ok_def refs_def contents_ok_def waits_ok_def)
  obtain f where t: "struct_inv {} explore f t" and items: "map (step_of f) items = explore root"
    and one: "\<And>j. item_refs j items \<le> 1"
    and fresh: "\<And>j. 0 < item_refs j items \<Longrightarrow> j < length (slots t) \<and> covered t j \<and> refs j t = 0"
    and fld: "visited t = visited z" "walker t = walker z" "stack t = stack z" "over t = over z"
    and refs_t: "\<And>j. refs j t = refs j z"
    by (rule explore_open_inv [OF z(1) e]) blast
  note zero = refs_t [unfolded z] and fld = fld [unfolded z(3-5)]
  have refs: "refs j (t\<lparr>stack := [items]\<rparr>) = item_refs j items" for j
    using zero [of j] by (simp add: refs_def fld)
  have "covered (t\<lparr>stack := [items]\<rparr>) j = covered t j" for j by (simp add: covered_def)
  then have "struct_inv {} explore f (t\<lparr>stack := [items]\<rparr>)"
    using t one fresh fld
    by (simp add: struct_inv_def refs_ok_def refs contents_ok_def waits_ok_def)
  moreover have "pending f (t\<lparr>stack := [items]\<rparr>) = explore root"
    using items by (simp add: pending_def fld)
  ultimately have "walk_inv explore root f (t\<lparr>stack := [items]\<rparr>)"
    by (simp add: walk_inv_def visits_ok_def fld)
  then show ?thesis unfolding start by blast
qed

lemma spurious_inv:
  assumes "walk_inv explore root f s" "spurious s t"
  shows "walk_inv explore root f t"
  using assms(2)
proof cases
  case (1 i)
  have st: "struct_inv {} explore f s" and v: "visits_ok explore root f s"
    using assms(1) by (auto simp: walk_inv_def)
  have "\<not> over s" using struct_invD(8) [OF st] 1 by simp
  then have "struct_inv {} explore f t"
    using 1 by (intro walker_move [OF st]) simp_all
  moreover have "visits_ok explore root f t"
    using v by (rule visits_same) (use 1 in \<open>auto simp: pending_def\<close>)
  ultimately show ?thesis by (simp add: walk_inv_def)
next
  case (2 w)
  have st: "struct_inv {} explore f s" and v: "visits_ok explore root f s"
    using assms(1) by (auto simp: walk_inv_def)
  have "struct_inv {} explore f t"
    unfolding 2 using 2 by (intro set_worker_inv [OF st]) simp_all
  moreover have "visits_ok explore root f t"
    unfolding 2 using v by (rule visits_same) simp_all
  ultimately show ?thesis by (simp add: walk_inv_def)
qed

lemma reached_inv: "reached explore cores root s \<Longrightarrow> \<exists>f. walk_inv explore root f s"
proof (induction rule: reached.induct)
  case at_start
  show ?case by (rule start_inv)
next
  case (at_step s t)
  then obtain f where f: "walk_inv explore root f s" by blast
  from at_step.hyps(2) show ?case
  proof cases
    case by_walker
    then show ?thesis using walker_step_inv [OF f] by blast
  next
    case (by_worker w)
    then obtain f' where "struct_inv {} explore f' t" "pending f' t = pending f s" "visited t = visited s"
      using worker_step_inv [of explore f s w cores t] f by (auto simp: walk_inv_def)
    then show ?thesis using f by (auto simp: walk_inv_def intro: visits_same)
  qed
next
  case (at_spurious s t)
  then obtain f where f: "walk_inv explore root f s" by blast
  show ?case by (rule exI [of _ f]) (rule spurious_inv [OF f at_spurious.hyps(2)])
qed

lemma yields_unique: "yields explore ss ls \<Longrightarrow> yields explore ss ms \<Longrightarrow> ls = ms"
proof (induction arbitrary: ms rule: yields.induct)
  case yields_Nil
  from yields_Nil.prems show ?case by (rule yields_NilE) simp
next
  case (yields_Leaf ss ls l)
  from yields_Leaf.prems show ?case by (rule yields_LeafE) (simp add: yields_Leaf.IH)
next
  case (yields_Dir d ls ss ms' ms)
  from yields_Dir.prems show ?case by (rule yields_DirE) (simp add: yields_Dir.IH)
qed

section \<open>Properties of the walk\<close>

text \<open>C2: however many threads explore ahead and however they are scheduled, a walk that has
  finished has handed out exactly the leaves below its root, each once, in the order a depth-first
  walk of one thread reaches them.\<close>

theorem walk_in_order_is_depth_first:
  assumes "reached explore cores root s" "walker s = Finished"
  shows "yields explore (explore root) ls \<longleftrightarrow> visited s = ls"
proof -
  obtain f where f: "walk_inv explore root f s" using reached_inv [OF assms(1)] by blast
  then have "over s" "stack s = []"
    using assms(2) struct_invD(8,9) [of "{}" explore f s] by (auto simp: walk_inv_def)
  then have "pending f s = []" using assms(2) by (simp add: pending_def)
  then have "yields explore (explore root) (visited s)"
    using f yields_Nil [of explore] by (force simp: walk_inv_def visits_ok_def)
  then show ?thesis using yields_unique by blast
qed

lemma worker_moves:
  assumes "workers s ! k \<noteq> Asleep" "workers s ! k \<noteq> Gone"
  shows "worker_step explore cores k s \<noteq> None"
proof (cases "workers s ! k")
  case (Hiring m)
  then show ?thesis by (cases m) (simp_all add: worker_step_def)
next
  case Claiming
  then show ?thesis by (cases "earliest (slots s) (open_slots s)") (simp_all add: worker_step_def)
next
  case (Claimed i)
  then show ?thesis by (cases "sl_dir (slots s ! i)") (simp_all add: worker_step_def)
next
  case (Exploring i d)
  then show ?thesis by (simp add: worker_step_def split: prod.split)
qed (use assms in \<open>simp_all add: worker_step_def\<close>)

lemma walker_moves:
  assumes "walker s \<noteq> Finished" "\<And>i. walker s \<noteq> Awaiting i"
  shows "walker_step explore cores s \<noteq> None"
proof (cases "walker s")
  case Looping
  show ?thesis
  proof (cases "stack s")
    case (Cons items st)
    then show ?thesis using Looping by (cases items; cases "hd items") (simp_all add: walker_step_def)
  qed (simp add: walker_step_def Looping)
next
  case (Hiring_For k i)
  then show ?thesis by (cases k) (simp_all add: walker_step_def)
next
  case (Obtaining i)
  then show ?thesis
    by (cases "sl_dir (slots s ! i)"; cases "sl_items (slots s ! i)") (simp_all add: walker_step_def split: prod.split)
qed (use assms in simp_all)

text \<open>C5: no schedule leaves the walk stuck: until the calling thread has finished and every worker
  is gone some thread can take its next step, wake-ups at no notification not counted, so no
  notification is ever missed.\<close>

theorem walk_never_stuck:
  assumes "reached explore cores root s"
  shows "(\<exists>t. walk_step explore cores s t) \<or> (walker s = Finished \<and> list_all ((=) Gone) (workers s))"
proof -
  obtain f where "walk_inv explore root f s" using reached_inv [OF assms] by blast
  then have st: "struct_inv {} explore f s" by (simp add: walk_inv_def)
  have worker: ?thesis if w: "w \<in> set (workers s)" "w \<noteq> Asleep" "w \<noteq> Gone" for w
    using w worker_moves by (metis by_worker in_set_conv_nth not_None_eq)
  consider (awaiting) i where "walker s = Awaiting i" | (finished) "walker s = Finished"
    | (moving) "walker s \<noteq> Finished" "\<And>i. walker s \<noteq> Awaiting i"
    by blast
  then show ?thesis
  proof cases
    case awaiting
    then have "sl_dir (slots s ! i) = None" "sl_items (slots s ! i) = None"
      using st by (auto simp: struct_inv_def waits_ok_def)
    moreover have "covered s i" using struct_invD(3) [OF st, of i] awaiting by (simp add: refs_def)
    ultimately obtain w where w: "w \<in> set (workers s)" "busy i w" by (auto simp: covered_def)
    have "w \<noteq> Asleep" "w \<noteq> Gone" using w(2) by auto
    then show ?thesis by (rule worker [OF w(1)])
  next
    case finished
    then have "Asleep \<notin> set (workers s)" using struct_invD(8,10) [OF st] by simp
    then show ?thesis using worker finished by (auto simp: list_all_iff)
  next
    case moving
    then show ?thesis using walker_moves by_walker by (metis not_None_eq)
  qed
qed

section \<open>The walk ends\<close>

text \<open>A weight of the tree: each directory weighs more than its leaves and directories together.\<close>

definition steps_weight :: "('d \<Rightarrow> nat) \<Rightarrow> ('d, 'l) tree_step list \<Rightarrow> nat" where
  "steps_weight w ss = sum_list (map (\<lambda>st. case st of Leaf l \<Rightarrow> 1 | Dir d \<Rightarrow> 1 + w d) ss)"

definition weighs :: "('d \<Rightarrow> ('d, 'l) tree_step list) \<Rightarrow> ('d \<Rightarrow> nat) \<Rightarrow> bool" where
  "weighs explore w \<longleftrightarrow> (\<forall>d. steps_weight w (explore d) < w d)"

text \<open>What a thread, an item, a slot may still cost in steps.\<close>

fun items_cost :: "'l item list \<Rightarrow> nat" where
  "items_cost [] = 0"
| "items_cost (Leaf_Item l # is) = 1 + items_cost is"
| "items_cost (Slot_Item i # is) = 6 + items_cost is"

fun walker_cost :: "walker \<Rightarrow> nat" where
  "walker_cost (Hiring_For k i) = 3 + k"
| "walker_cost (Obtaining i) = 2"
| "walker_cost (Awaiting i) = 1"
| "walker_cost w = 0"

fun worker_cost :: "('d \<Rightarrow> nat) \<Rightarrow> ('d, 'l) worker \<Rightarrow> nat" where
  "worker_cost w (Hiring k) = 3 + k"
| "worker_cost w Claiming = 2"
| "worker_cost w Asleep = 1"
| "worker_cost w (Claimed i) = 3"
| "worker_cost w (Exploring i d) = 2 + 9 * w d"
| "worker_cost w (Delivering i items taken) =
     (case taken of None \<Rightarrow> 2 | Some j \<Rightarrow> 3) + 2 + items_cost items"
| "worker_cost w Gone = 0"

definition slot_cost :: "('d \<Rightarrow> nat) \<Rightarrow> ('d, 'l) slot \<Rightarrow> nat" where
  "slot_cost w sl = (case sl_dir sl of None \<Rightarrow> 0 | Some d \<Rightarrow> 9 * w d) +
     (case sl_items sl of None \<Rightarrow> 0 | Some items \<Rightarrow> items_cost items)"

definition walk_cost :: "('d \<Rightarrow> nat) \<Rightarrow> nat \<Rightarrow> ('d, 'l) walk \<Rightarrow> nat" where
  "walk_cost w cores s =
     walker_cost (walker s) + sum_list (map (\<lambda>is. 1 + items_cost is) (stack s)) +
     sum_list (map (slot_cost w) (slots s)) + 2 * length (open_slots s) +
     sum_list (map (worker_cost w) (workers s)) + 7 * (cores - hired s) +
     (if over s then 0 else 1 + length (workers s))"

lemma wake_cost: "sum_list (map (worker_cost w) (wake n ws)) \<le> sum_list (map (worker_cost w) ws) + min n (length ws)"
  by (induction n ws rule: wake.induct) auto

lemma length_remove1_earliest: "earliest sl is = Some i \<Longrightarrow> length is = Suc (length (remove1 i is))"
  using earliest_mem [of sl "is" i] length_pos_if_in_set [of i "is"] by (simp add: length_remove1)

lemma itemize_cost:
  "itemize key base k ss = (items, new) \<Longrightarrow>
   items_cost items + sum_list (map (slot_cost w) new) + 3 * length new \<le> 9 * steps_weight w ss"
proof (induction key base k ss arbitrary: items new rule: itemize.induct)
  case (3 key base k d ss)
  obtain items' new' where e: "itemize key base (Suc k) ss = (items', new')" by fastforce
  then show ?case using 3 by (auto simp: new_slot_def slot_cost_def steps_weight_def)
qed (auto simp: steps_weight_def apfst_def map_prod_def split: prod.splits)

lemma explore_only_cost:
  assumes e: "explore_only explore d key s = (items, dirs, t)"
  shows "walk_cost w cores t + items_cost items + 3 * length dirs \<le> walk_cost w cores s + 9 * steps_weight w (explore d)"
proof -
  obtain new where it: "itemize key (length (slots s)) 0 (explore d) = (items, new)"
    and t: "t = s\<lparr>slots := slots s @ new, found := found s + length new\<rparr>" and "length dirs = length new"
    using e by (auto simp: explore_only_def Let_def split: prod.splits)
  then show ?thesis using itemize_cost [OF it, of w] by (simp add: walk_cost_def)
qed

lemma register_cost:
  assumes r: "register dirs b s = (taken, t)"
  shows "walk_cost w cores t + (case taken of None \<Rightarrow> 0 | Some i \<Rightarrow> 2) \<le> walk_cost w cores s + 3 * length dirs"
proof -
  have o: "length (open_slots t) + (case taken of None \<Rightarrow> 0 | Some i \<Rightarrow> 1) = length (open_slots s) + length dirs"
    using r length_remove1_earliest [of "slots s" "open_slots s @ dirs"]
    by (auto simp: register_def Let_def split: if_splits option.splits)
  note fld = register_facts [OF r]
  have "hired t = hired s" using r by (auto simp: register_def Let_def)
  moreover have "sum_list (map (worker_cost w) (workers t)) \<le> sum_list (map (worker_cost w) (workers s)) + length dirs"
    using wake_cost [of w "length dirs - 1" "workers s"] by (simp add: fld(6))
  ultimately show ?thesis using o by (simp add: walk_cost_def fld(1-6) split: option.splits)
qed

lemma explore_open_cost:
  assumes e: "explore_open explore d key s = (items, t)"
  shows "walk_cost w cores t + items_cost items \<le> walk_cost w cores s + 9 * steps_weight w (explore d)"
proof -
  obtain dirs s' where eo: "explore_only explore d key s = (items, dirs, s')"
    and t: "t = (if dirs = [] then s' else snd (register dirs False s'))"
    using e by (auto simp: explore_open_def split: prod.splits)
  obtain taken u where r: "register dirs False s' = (taken, u)" by fastforce
  show ?thesis
    using explore_only_cost [OF eo, of w cores] register_cost [OF r, of w cores] by (simp add: t r)
qed

lemma set_worker_cost:
  "v < length (workers s) \<Longrightarrow>
   walk_cost w cores (set_worker v x s) + worker_cost w (workers s ! v) = walk_cost w cores s + worker_cost w x"
  using sum_list_upd [of v "workers s" "worker_cost w" x] by (simp add: walk_cost_def set_worker_def)

lemma take_dir_cost:
  assumes "i < length (slots s)" "sl_dir (slots s ! i) = Some d"
  shows "walk_cost w cores (take_dir i s) + 9 * w d = walk_cost w cores s"
  using sum_list_upd [OF assms(1), of "slot_cost w" "(slots s ! i)\<lparr>sl_dir := None\<rparr>"] assms(2)
  by (simp add: walk_cost_def slot_cost_def take_dir_def)

lemma hire_one_cost: "walk_cost w cores (hire_one cores s) \<le> walk_cost w cores s"
proof (cases "hired s < cores")
  case True
  then have "cores - hired s = Suc (cores - Suc (hired s))" by simp
  then show ?thesis using True by (simp add: walk_cost_def hire_one_def)
qed (simp add: walk_cost_def hire_one_def)

lemma deliver_cost:
  assumes i: "i < length (slots s)"
  shows "walk_cost w cores (deliver i items s) \<le> walk_cost w cores s + items_cost items + 1"
proof -
  have "walker_cost (walker (deliver i items s)) \<le> walker_cost (walker s) + 1"
    by (simp add: deliver_def)
  moreover have "hired (deliver i items s) = hired s" by (simp add: deliver_def)
  ultimately show ?thesis
    using sum_list_upd [OF i, of "slot_cost w" "(slots s ! i)\<lparr>sl_items := Some items\<rparr>"]
    by (simp add: walk_cost_def) (simp add: slot_cost_def)
qed

lemma worker_step_cost:
  assumes inv: "struct_inv {} explore f s" and v: "v < length (workers s)" and w: "weighs explore w"
    and step: "worker_step explore cores v s = Some t"
  shows "walk_cost w cores t < walk_cost w cores s"
proof (cases "workers s ! v")
  case (Hiring k)
  then show ?thesis
    using step set_worker_cost [OF v, of w cores Claiming] set_worker_cost [OF v, of w cores "Hiring (k - 1)"]
      hire_one_cost [of w cores "set_worker v (Hiring (k - 1)) s"]
    by (cases k) (auto simp: worker_step_def)
next
  case Claiming
  have pop: "walk_cost w cores (set_worker v (Claimed i) (s\<lparr>open_slots := remove1 i (open_slots s)\<rparr>)) <
      walk_cost w cores s" if "earliest (slots s) (open_slots s) = Some i" for i
  proof -
    let ?u = "s\<lparr>open_slots := remove1 i (open_slots s)\<rparr>"
    have "walk_cost w cores ?u + 2 = walk_cost w cores s"
      using length_remove1_earliest [OF that] by (simp add: walk_cost_def)
    then show ?thesis using set_worker_cost [of v ?u w cores "Claimed i"] v Claiming by simp
  qed
  then show ?thesis
    using step Claiming set_worker_cost [OF v, of w cores Gone] set_worker_cost [OF v, of w cores Asleep]
    by (auto simp: worker_step_def split: if_splits option.splits)
next
  case (Claimed i)
  then have i: "i < length (slots s)" using struct_invD(6) [OF inv v] by simp
  show ?thesis
  proof (cases "sl_dir (slots s ! i)")
    case None
    then show ?thesis
      using step Claimed set_worker_cost [OF v, of w cores Claiming] by (auto simp: worker_step_def)
  next
    case (Some d)
    then show ?thesis
      using step Claimed take_dir_cost [OF i Some, of w cores]
        set_worker_cost [of v "take_dir i s" w cores "Exploring i d"] v
      by (auto simp: worker_step_def)
  qed
next
  case (Exploring i d)
  obtain items dirs s' where e: "explore_only explore d (sl_key (slots s ! i)) s = (items, dirs, s')"
    by (metis prod_cases3)
  obtain taken u where r: "register dirs True s' = (taken, u)" by fastforce
  have ws: "workers s' = workers s"
    using e by (auto simp: explore_only_def Let_def split: prod.splits)
  have "v < length (workers u)" "workers u ! v = Exploring i d"
    using v Exploring by (simp_all add: register_facts(6) [OF r] ws wake_nth)
  moreover have "steps_weight w (explore d) < w d" using w by (simp add: weighs_def)
  moreover have "t = set_worker v (Delivering i items taken) u"
    using step Exploring by (simp add: worker_step_def e r)
  ultimately show ?thesis
    using explore_only_cost [OF e, of w cores] register_cost [OF r, of w cores]
      set_worker_cost [of v u w cores "Delivering i items taken"]
    by (auto split: option.splits)
next
  case (Delivering i items taken)
  then have i: "i < length (slots s)" using struct_invD(6) [OF inv v] by simp
  show ?thesis
    using step Delivering deliver_cost [OF i, of w cores items] v
      set_worker_cost [of v "deliver i items s" w cores "case taken of Some j \<Rightarrow> Claimed j | None \<Rightarrow> Claiming"]
    by (auto simp: worker_step_def split: option.splits)
qed (use step in \<open>simp_all add: worker_step_def\<close>)

lemma walker_step_cost:
  assumes inv: "struct_inv {} explore f s" and w: "weighs explore w"
    and step: "walker_step explore cores s = Some t"
  shows "walk_cost w cores t < walk_cost w cores s"
proof (cases "walker s")
  case Looping
  then have "\<not> over s" using struct_invD(8) [OF inv] by simp
  moreover have "sum_list (map (worker_cost w) (wake (length (workers s)) (workers s))) \<le>
      sum_list (map (worker_cost w) (workers s)) + length (workers s)"
    using wake_cost [of w "length (workers s)" "workers s"] by simp
  ultimately show ?thesis
    using step Looping
    by (auto simp: walker_step_def walk_cost_def split: list.splits item.splits if_splits)
next
  case (Hiring_For k i)
  show ?thesis
  proof (cases k)
    case 0
    then show ?thesis using step Hiring_For by (auto simp: walker_step_def walk_cost_def)
  next
    case (Suc m)
    have "walk_cost w cores (s\<lparr>walker := Hiring_For m i\<rparr>) < walk_cost w cores s"
      using Hiring_For Suc by (simp add: walk_cost_def)
    then show ?thesis
      using step Hiring_For Suc hire_one_cost [of w cores "s\<lparr>walker := Hiring_For m i\<rparr>"]
      by (auto simp: walker_step_def)
  qed
next
  case (Obtaining i)
  then have i: "i < length (slots s)" using struct_invD(2) [OF inv, of i] by (simp add: refs_def)
  show ?thesis
  proof (cases "sl_dir (slots s ! i)")
    case (Some d)
    obtain items u where e: "explore_open explore d (sl_key (slots s ! i)) (take_dir i s) = (items, u)"
      by fastforce
    have t: "t = u\<lparr>stack := items # stack s, walker := Looping\<rparr>"
      using step Obtaining Some e by (simp add: walker_step_def)
    have "walker u = Obtaining i" "stack u = stack s"
      using explore_open_inv [OF take_dir_inv [OF inv] e] Some Obtaining
      by (metis option.distinct(1) take_dir_fields(3,4))+
    then have "walk_cost w cores t + 1 = walk_cost w cores u + items_cost items"
      by (simp add: t walk_cost_def)
    moreover have "steps_weight w (explore d) < w d" using w by (simp add: weighs_def)
    ultimately show ?thesis
      using explore_open_cost [OF e, of w cores] take_dir_cost [OF i Some, of w cores] by simp
  next
    case None
    show ?thesis
    proof (cases "sl_items (slots s ! i)")
      case None': None
      show ?thesis
        using step Obtaining None None'
          sum_list_upd [OF i, of "slot_cost w" "(slots s ! i)\<lparr>sl_awaited := True\<rparr>"]
        by (auto simp: walker_step_def walk_cost_def) (auto simp: slot_cost_def)
    next
      case (Some items)
      show ?thesis
        using step Obtaining None Some
          sum_list_upd [OF i, of "slot_cost w" "(slots s ! i)\<lparr>sl_items := None\<rparr>"]
        by (auto simp: walker_step_def walk_cost_def) (auto simp: slot_cost_def)
    qed
  qed
qed (use step in \<open>simp_all add: walker_step_def\<close>)

lemma walk_step_cost:
  assumes "weighs explore w" "reached explore cores root s" "walk_step explore cores s t"
  shows "walk_cost w cores t < walk_cost w cores s"
proof -
  obtain f where "walk_inv explore root f s" using reached_inv [OF assms(2)] by blast
  then have inv: "struct_inv {} explore f s" by (simp add: walk_inv_def)
  from assms(3) show ?thesis
  proof cases
    case by_walker
    then show ?thesis by (rule walker_step_cost [OF inv assms(1)])
  next
    case (by_worker v)
    then show ?thesis by (intro worker_step_cost [OF inv _ assms(1)])
  qed
qed

lemma reached_steps:
  "reached explore cores root s \<Longrightarrow> (walk_step explore cores ^^ n) s t \<Longrightarrow> reached explore cores root t"
  by (induction n arbitrary: t) (auto intro: at_step)

text \<open>C6: over a finite tree every run ends: however the threads are scheduled, no run takes more
  steps than its cost, wake-ups at no notification aside.\<close>

theorem walk_ends:
  assumes "weighs explore w" "reached explore cores root s" "(walk_step explore cores ^^ n) s t"
  shows "n \<le> walk_cost w cores s"
proof -
  have "n + walk_cost w cores t \<le> walk_cost w cores s"
    using assms(3)
  proof (induction n arbitrary: t)
    case (Suc n)
    then obtain u where u: "(walk_step explore cores ^^ n) s u" "walk_step explore cores u t" by auto
    then show ?case
      using Suc.IH [OF u(1)] walk_step_cost [OF assms(1) reached_steps [OF assms(2) u(1)] u(2)] by simp
  qed simp
  then show ?thesis by simp
qed

text \<open>The calling thread alone, \<open>n\<close> steps of it.\<close>

fun walker_steps ::
  "('d \<Rightarrow> ('d, 'l) tree_step list) \<Rightarrow> nat \<Rightarrow> nat \<Rightarrow> ('d, 'l) walk \<Rightarrow> ('d, 'l) walk option"
where
  "walker_steps explore cores 0 s = Some s"
| "walker_steps explore cores (Suc n) s =
     Option.bind (walker_step explore cores s) (walker_steps explore cores n)"

lemma walker_steps_reached:
  "reached explore cores root s \<Longrightarrow> walker_steps explore cores n s = Some t \<Longrightarrow>
   reached explore cores root t"
proof (induction n arbitrary: s)
  case (Suc n)
  then show ?case by (auto simp: bind_eq_Some_conv intro: at_step by_walker)
qed simp

fun two_dirs :: "nat \<Rightarrow> (nat, nat) tree_step list" where
  "two_dirs n = (if n = 0 then [Leaf 3, Dir 1, Leaf 7] else [Leaf 5])"

theorem walk_in_order_is_depth_first_witness:
  "yields two_dirs (two_dirs 0) [3, 5, 7]"
proof -
  have "map_option (\<lambda>s. (walker s, visited s)) (walker_steps two_dirs 1 8 (start two_dirs 0)) =
      Some (Finished, [3, 5, 7])"
    by (simp add: eval_nat_numeral(2,3) start_def explore_open_def explore_only_def register_def new_slot_def
        walker_step_def take_dir_def parallel_dirs_def del: item_refs.simps)
  then obtain s where s: "walker_steps two_dirs 1 8 (start two_dirs 0) = Some s"
    "walker s = Finished" "visited s = [3, 5, 7]"
    by auto
  have "reached two_dirs 1 0 s" by (rule walker_steps_reached [OF at_start s(1)])
  then show ?thesis using walk_in_order_is_depth_first [of two_dirs 1 0 s] s by simp
qed

theorem walk_never_stuck_witness:
  "\<exists>t. walk_step two_dirs 4 (start two_dirs 0) t"
proof -
  have "walker (start two_dirs 0) \<noteq> Finished"
    by (simp add: start_def explore_open_def explore_only_def register_def)
  then show ?thesis using walk_never_stuck [OF at_start, of two_dirs 4 0] by blast
qed

theorem walk_ends_witness:
  "\<not> (\<exists>t. (walk_step two_dirs 1 ^^ 100) (start two_dirs 0) t)"
proof
  have w: "weighs two_dirs (\<lambda>n. if n = 0 then 6 else 2)" by (simp add: weighs_def steps_weight_def)
  have c: "walk_cost (\<lambda>n. if n = 0 then 6 else 2) 1 (start two_dirs 0) < 100"
    by (simp add: start_def explore_open_def explore_only_def register_def walk_cost_def slot_cost_def
        new_slot_def)
  assume "\<exists>t. (walk_step two_dirs 1 ^^ 100) (start two_dirs 0) t"
  then obtain t where "(walk_step two_dirs 1 ^^ 100) (start two_dirs 0) t" ..
  from walk_ends [OF w at_start this] c show False by simp
qed

end
