(* ===== verification/Params.thy ===== *)
theory Params
  imports Row_Value "HOL-Library.Multiset"
begin

text \<open>
  \<open>packages/rust/src/params.rs\<close>: which value each placeholder of a statement takes. The names of
  the placeholders come from SQLite; a \<open>HashMap\<close> is the list of its entries in the order it
  iterates them, its keys distinct. A slice past the end of a name or inside its first character
  is a panic, the value \<open>None\<close>.
\<close>

section \<open>Values and placeholders\<close>

datatype params = Positional "sql_value list" | Named "(rstr \<times> sql_value) list"

definition default_params :: params where
  "default_params = Positional []"

datatype plan_error =
  Needs_Mapping rstr
| Wrong_Count nat nat
| No_Value rstr
| Needs_Sequence rstr
| Not_A_Placeholder rstr

text \<open>The text of an error; \<open>debug\<close> is the quoting of \<open>{:?}\<close>.\<close>

fun plan_error_text :: "(rstr \<Rightarrow> rstr) \<Rightarrow> plan_error \<Rightarrow> rstr" where
  "plan_error_text debug (Needs_Mapping name) =
     ascii ''the query uses the named parameter '' @ name @ ascii ''; pass a mapping, not a sequence''"
| "plan_error_text debug (Wrong_Count names values) =
     ascii ''the query has '' @ show_nat names @ ascii '' parameter(s), but '' @
     show_nat values @ ascii '' value(s) were given''"
| "plan_error_text debug (No_Value name) =
     ascii ''the named parameter '' @ name @ ascii '' has no value''"
| "plan_error_text debug (Needs_Sequence name) =
     ascii ''the query uses the positional parameter '' @ name @
     ascii ''; pass a sequence, not a mapping''"
| "plan_error_text debug (Not_A_Placeholder key) =
     ascii ''the parameter '' @ debug key @ ascii '' is not a placeholder in the query''"

definition is_named :: "rstr \<Rightarrow> bool" where
  "is_named name \<longleftrightarrow> \<not> prefix [c_quest] name"

text \<open>\<open>&name[1..]\<close>\<close>

fun sigil_free :: "rstr \<Rightarrow> rstr option" where
  "sigil_free [] = None"
| "sigil_free (c # s) = (if utf8_len c = 1 then Some s else None)"

fun present :: "'a option list \<Rightarrow> 'a list" where
  "present [] = []"
| "present (None # xs) = present xs"
| "present (Some x # xs) = x # present xs"

text \<open>The closure of the map over the names, and the collection of its results, which stops at
  the first error.\<close>

definition named_value ::
  "(rstr \<times> sql_value) list \<Rightarrow> rstr option \<Rightarrow> (plan_error + sql_value) option"
where
  "named_value values name =
     (case name of
        None \<Rightarrow> Some (Inl (Needs_Sequence [c_quest]))
      | Some n \<Rightarrow>
          if is_named n then
            map_option (\<lambda>key. case map_of values key of
                Some v \<Rightarrow> Inr v | None \<Rightarrow> Inl (No_Value n)) (sigil_free n)
          else Some (Inl (Needs_Sequence n)))"

fun planned ::
  "(rstr \<times> sql_value) list \<Rightarrow> rstr option list \<Rightarrow> (plan_error + sql_value list) option"
where
  "planned values [] = Some (Inr [])"
| "planned values (name # names) =
     (case named_value values name of
        None \<Rightarrow> None
      | Some (Inl e) \<Rightarrow> Some (Inl e)
      | Some (Inr v) \<Rightarrow> map_option (map_sum id ((#) v)) (planned values names))"

definition uses_key :: "rstr option list \<Rightarrow> rstr \<Rightarrow> bool" where
  "uses_key names key \<longleftrightarrow> list_ex (\<lambda>n. is_named n \<and> sigil_free n = Some key) (present names)"

definition unused :: "rstr option list \<Rightarrow> (rstr \<times> sql_value) list \<Rightarrow> rstr list" where
  "unused names values = sort (filter (\<lambda>key. \<not> uses_key names key) (map fst values))"

definition plan :: "rstr option list \<Rightarrow> params \<Rightarrow> (plan_error + sql_value list) option" where
  "plan names params =
     (case params of
        Positional values \<Rightarrow>
          (case find is_named (present names) of
             Some name \<Rightarrow> Some (Inl (Needs_Mapping name))
           | None \<Rightarrow>
               if length names \<noteq> length values then Some (Inl (Wrong_Count (length names) (length values)))
               else Some (Inr values))
      | Named values \<Rightarrow>
          (case planned values names of
             None \<Rightarrow> None
           | Some (Inl e) \<Rightarrow> Some (Inl e)
           | Some (Inr vs) \<Rightarrow>
               (case unused names values of
                  key # _ \<Rightarrow> Some (Inl (Not_A_Placeholder key))
                | [] \<Rightarrow> Some (Inr vs))))"

section \<open>Lemmas\<close>

text \<open>The key a placeholder looks up; none for a positional one.\<close>

definition key_of :: "rstr option \<Rightarrow> rstr option" where
  "key_of name = (case name of Some n \<Rightarrow> if is_named n then sigil_free n else None | None \<Rightarrow> None)"

lemma set_present [simp]: "x \<in> set (present xs) \<longleftrightarrow> Some x \<in> set xs"
  by (induction xs rule: present.induct) auto

lemma uses_key_iff: "uses_key names key \<longleftrightarrow> Some key \<in> key_of ` set names"
proof
  assume "uses_key names key"
  then obtain n where n: "Some n \<in> set names" "is_named n" "sigil_free n = Some key"
    by (auto simp: uses_key_def list_ex_iff)
  then have "Some key = key_of (Some n)" by (simp add: key_of_def)
  then show "Some key \<in> key_of ` set names" using n(1) by (rule image_eqI)
next
  assume "Some key \<in> key_of ` set names"
  then obtain name where name: "name \<in> set names" "key_of name = Some key" by (metis imageE)
  obtain n where "name = Some n" "is_named n" "sigil_free n = Some key"
    using name(2) by (auto simp: key_of_def split: option.splits if_splits)
  then show "uses_key names key" using name(1) by (auto simp: uses_key_def list_ex_iff)
qed

lemma named_value_Ok_iff:
  "named_value values name = Some (Inr v) \<longleftrightarrow>
   (\<exists>key. key_of name = Some key \<and> map_of values key = Some v)"
  by (auto simp: named_value_def key_of_def split: option.splits if_splits)

lemma planned_Ok_iff:
  "planned values names = Some (Inr vs) \<longleftrightarrow>
   list_all2 (\<lambda>name v. named_value values name = Some (Inr v)) names vs"
proof (induction names arbitrary: vs)
  case (Cons name names)
  have "map_option (map_sum id ((#) v)) r = Some (Inr vs) \<longleftrightarrow>
      (\<exists>ws. r = Some (Inr ws) \<and> vs = v # ws)" for v and r :: "(plan_error + sql_value list) option"
    by (cases r; cases "the r") (auto simp: map_sum_def)
  then show ?case
    using Cons.IH by (auto simp: list_all2_Cons1 split: option.split sum.split)
qed auto

lemma unused_Nil_iff: "unused names values = [] \<longleftrightarrow> Some ` fst ` set values \<subseteq> key_of ` set names"
  by (auto simp: unused_def filter_empty_conv uses_key_iff)

lemma key_of_None_named: "key_of name = None \<Longrightarrow> \<nexists>v. named_value values name = Some (Inr v)"
  by (auto simp: named_value_Ok_iff)

lemma plan_Named_Ok_iff:
  "plan names (Named values) = Some (Inr vs) \<longleftrightarrow>
   list_all2 (\<lambda>name v. named_value values name = Some (Inr v)) names vs \<and> unused names values = []"
  unfolding planned_Ok_iff [symmetric]
  by (auto simp: plan_def split: option.splits sum.splits list.splits)

lemma plan_Positional_Ok_iff:
  "plan names (Positional values) = Some (Inr vs) \<longleftrightarrow>
   (\<forall>n. Some n \<in> set names \<longrightarrow> \<not> is_named n) \<and> length names = length values \<and> vs = values"
proof -
  have "find is_named (present names) = None \<longleftrightarrow> (\<forall>n. Some n \<in> set names \<longrightarrow> \<not> is_named n)"
    by (auto simp: find_None_iff)
  then show ?thesis by (auto simp: plan_def split: option.splits)
qed

lemma planned_cong:
  "(\<And>name. name \<in> set names \<Longrightarrow> named_value values name = named_value values' name) \<Longrightarrow>
   planned values names = planned values' names"
  by (induction names) (auto split: option.splits sum.splits)

lemma sorted_unused_perm:
  "mset values = mset values' \<Longrightarrow> unused names values = unused names values'"
  unfolding unused_def by (intro properties_for_sort) (auto simp: mset_filter)

section \<open>Properties\<close>

text \<open>A query is run with exactly the values it asks for: a sequence is taken when no
  placeholder is named and the counts agree, and is bound in order; a mapping is taken when every
  placeholder is named and has a value and every key of the mapping is the name of a placeholder,
  and each placeholder gets the value of its own name. Nothing else is bound.\<close>

theorem plan_binds:
  "plan names params = Some (Inr vs) \<longleftrightarrow>
   (case params of
      Positional values \<Rightarrow>
        list_all (\<lambda>n. \<not> is_named n) (present names) \<and> length names = length values \<and> vs = values
    | Named values \<Rightarrow>
        map (\<lambda>name. Option.bind (key_of name) (map_of values)) names = map Some vs \<and>
        set (map (Some \<circ> fst) values) \<subseteq> set (map key_of names))"
proof (cases params)
  case (Positional vals)
  then show ?thesis by (auto simp: plan_Positional_Ok_iff list_all_iff)
next
  case (Named vals)
  have "list_all2 (\<lambda>name v. named_value vals name = Some (Inr v)) names vs \<longleftrightarrow>
      map (\<lambda>name. Option.bind (key_of name) (map_of vals)) names = map Some vs"
    by (induction names vs rule: list_induct2')
      (auto simp: named_value_Ok_iff bind_eq_Some_conv)
  then show ?thesis
    using Named by (auto simp: plan_Named_Ok_iff unused_Nil_iff image_image)
qed

text \<open>What a mapping gives, the values as well as the error reported, does not depend on the
  order in which its entries are iterated.\<close>

theorem plan_ignores_order:
  "distinct (map fst values) \<Longrightarrow> mset values = mset values' \<Longrightarrow>
   plan names (Named values) = plan names (Named values')"
proof -
  assume d: "distinct (map fst values)" and m: "mset values = mset values'"
  have "distinct (map fst values')"
    using d m by (metis mset_map mset_eq_imp_distinct_iff)
  then have "map_of values = map_of values'"
    using d m by (intro map_of_inject_set [THEN iffD2]) (auto dest: mset_eq_setD)
  then have "planned values names = planned values' names"
    by (intro planned_cong) (simp add: named_value_def split: option.split)
  then show ?thesis by (simp only: plan_def params.case sorted_unused_perm [OF m])
qed

theorem plan_ignores_order_witness:
  "plan [Some (ascii '':a'')] (Named [(ascii ''a'', Null), (ascii ''c'', Null), (ascii ''b'', Null)]) =
   Some (Inl (Not_A_Placeholder (ascii ''b'')))"
  by (subst plan_ignores_order [of _ "[(ascii ''b'', Null), (ascii ''a'', Null), (ascii ''c'', Null)]"])
    (simp_all add: plan_def named_value_def is_named_def utf8_len_def unused_def uses_key_def
      key_of_def)

end
