(* ===== verification/Glob_Pattern.thy ===== *)
theory Glob_Pattern
  imports Utf8 Posix_Class Rust_Path
begin

text \<open>
  \<open>packages/rust/src/matcher.rs\<close>, the patterns: a glob is compiled by \<open>globset\<close> to a byte
  regex, whose text is rewritten to a regex over characters and compiled again by \<open>regex\<close>. The two
  crates are the parameter \<open>engines\<close>: the first gives the text of a glob's regex, the second the
  predicate a regex decides. An error of either is \<open>None\<close>. A path is its text, \<open>/\<close>-separated.
\<close>

section \<open>From a byte regex to a character regex\<close>

definition hex_digit_value :: "nat \<Rightarrow> nat option" where
  "hex_digit_value b =
     (if 48 \<le> b \<and> b \<le> 57 then Some (b - 48)
      else if 65 \<le> b \<and> b \<le> 70 then Some (b - 55)
      else if 97 \<le> b \<and> b \<le> 102 then Some (b - 87)
      else None)"

text \<open>\<open>u8::from_str_radix\<close> takes a leading plus sign; what is no number is 0.\<close>

definition hex_byte :: "nat \<Rightarrow> nat \<Rightarrow> nat" where
  "hex_byte hi lo =
     (case hex_digit_value lo of
        None \<Rightarrow> 0
      | Some l \<Rightarrow>
          if hi = c_plus then l
          else (case hex_digit_value hi of None \<Rightarrow> 0 | Some h \<Rightarrow> 16 * h + l))"

text \<open>\<open>c_ex\<close> is the letter x.\<close>

abbreviation (input) c_ex :: uchar where "c_ex \<equiv> 120"

fun unescape_bytes :: "bytes \<Rightarrow> bytes" where
  "unescape_bytes [] = []"
| "unescape_bytes (b # rest) =
     (if b = c_backslash then
        (case rest of
           x # hi # lo # tail \<Rightarrow>
             if x = c_ex then hex_byte hi lo # unescape_bytes tail
             else c_backslash # x # unescape_bytes (hi # lo # tail)
         | escaped # tail \<Rightarrow> c_backslash # escaped # unescape_bytes tail
         | [] \<Rightarrow> [c_backslash])
      else b # unescape_bytes rest)"

definition class_or_char :: "uchar \<Rightarrow> rstr" where
  "class_or_char c = (case class_regex c of Some r \<Rightarrow> r | None \<Rightarrow> [c])"

definition byte_mode :: rstr where
  "byte_mode = ascii ''(?-u)''"

definition unicode_regex :: "rstr \<Rightarrow> rstr" where
  "unicode_regex byte_regex =
     (let body = (case strip_prefix byte_mode byte_regex of Some r \<Rightarrow> r | None \<Rightarrow> byte_regex) in
      concat (map class_or_char (from_utf8_lossy (unescape_bytes (utf8 body)))))"

section \<open>Patterns\<close>

record engines =
  globset :: "rstr \<Rightarrow> rstr option"
  regex :: "rstr \<Rightarrow> (rstr \<Rightarrow> bool) option"

definition compile :: "engines \<Rightarrow> rstr \<Rightarrow> (rstr \<Rightarrow> bool) option" where
  "compile en glob =
     Option.bind (globset en (expand_posix_classes glob)) (\<lambda>r. regex en (unicode_regex r))"

record pattern =
  pt_path :: "rstr \<Rightarrow> bool"
  pt_last_component :: "(rstr \<Rightarrow> bool) option"

definition any_depth_prefix :: rstr where
  "any_depth_prefix = ascii ''**/''"

definition pattern_new :: "engines \<Rightarrow> rstr \<Rightarrow> pattern option" where
  "pattern_new en glob =
     (let path = Option.bind (compile en glob) (\<lambda>p. Some (\<lambda>l. \<lparr>pt_path = p, pt_last_component = l\<rparr>)) in
      case strip_prefix any_depth_prefix glob of
        Some rest \<Rightarrow>
          if rest \<noteq> [] \<and> c_slash \<notin> set rest
          then Option.bind (compile en rest) (\<lambda>l. map_option (\<lambda>f. f (Some l)) path)
          else map_option (\<lambda>f. f None) path
      | None \<Rightarrow> map_option (\<lambda>f. f None) path)"

definition pattern_is_match :: "pattern \<Rightarrow> rstr \<Rightarrow> bool" where
  "pattern_is_match p path =
     (case (pt_last_component p, file_name path) of
        (Some l, Some name) \<Rightarrow> l name
      | _ \<Rightarrow> pt_path p path)"

section \<open>What the rewriting keeps\<close>

text \<open>How a regex over bytes spells a character: a special one behind a backslash, one past ASCII as
  the escapes of its bytes.\<close>

definition hex_digit :: "nat \<Rightarrow> uchar" where
  "hex_digit n = (if n < 10 then 48 + n else 87 + n)"

definition byte_escape :: "nat \<Rightarrow> rstr" where
  "byte_escape b = [c_backslash, c_ex, hex_digit (b div 16), hex_digit (b mod 16)]"

definition spelled :: "(uchar \<Rightarrow> bool) \<Rightarrow> uchar \<Rightarrow> rstr" where
  "spelled special c =
     (if is_ascii c then (if special c then [c_backslash, c] else [c])
      else concat (map byte_escape (utf8_encode c)))"

definition respelled :: "(uchar \<Rightarrow> bool) \<Rightarrow> uchar \<Rightarrow> rstr" where
  "respelled special c = (if is_ascii c then spelled special c else [c])"

lemma hex_digit_value: "n < 16 \<Longrightarrow> hex_digit_value (hex_digit n) = Some n"
  by (auto simp: hex_digit_value_def hex_digit_def)

lemma hex_byte_digits: "b < 256 \<Longrightarrow> hex_byte (hex_digit (b div 16)) (hex_digit (b mod 16)) = b"
  by (auto simp: hex_byte_def hex_digit_value less_mult_imp_div_less) (auto simp: hex_digit_def split: if_splits)

lemma unescape_byte_escapes:
  "list_all (\<lambda>b. b < 256) bs \<Longrightarrow> unescape_bytes (concat (map byte_escape bs) @ t) = bs @ unescape_bytes t"
  by (induction bs) (simp_all add: byte_escape_def hex_byte_digits)

lemma utf8_encode_bytes: "is_scalar c \<Longrightarrow> list_all (\<lambda>b. b < 256) (utf8_encode c)"
  by (auto simp: utf8_encode_def is_scalar_def less_mult_imp_div_less)

lemma utf8_ascii: "list_all is_ascii s \<Longrightarrow> utf8 s = s"
  by (induction s) (auto simp: utf8_def utf8_encode_def is_ascii_def)

lemma utf8_append: "utf8 (s @ t) = utf8 s @ utf8 t"
  by (simp add: utf8_def)

lemma byte_escape_ascii: "b < 256 \<Longrightarrow> list_all is_ascii (byte_escape b)"
  by (auto simp: byte_escape_def is_ascii_def hex_digit_def less_mult_imp_div_less)

lemma spelled_ascii: "is_scalar c \<Longrightarrow> list_all is_ascii (spelled special c)"
  using utf8_encode_bytes [of c] byte_escape_ascii
  by (auto simp: spelled_def list_all_iff) (auto simp: is_ascii_def)

lemma unescape_spelled:
  assumes "is_scalar c" "\<not> special c_ex" "special c_backslash"
  shows "unescape_bytes (spelled special c @ t) = utf8 (respelled special c) @ unescape_bytes t"
proof (cases "is_ascii c")
  case True
  have a: "utf8 (spelled special c) = spelled special c" by (rule utf8_ascii) (rule spelled_ascii [OF assms(1)])
  show ?thesis
  proof (cases "special c")
    case True': True
    then have "c \<noteq> c_ex" using assms(2) by auto
    then show ?thesis
      using True True' a by (auto simp: respelled_def) (auto simp: spelled_def split: list.split)
  next
    case False
    then have "c \<noteq> c_backslash" using assms(3) by auto
    then show ?thesis using True False a by (auto simp: respelled_def) (auto simp: spelled_def)
  qed
next
  case False
  then show ?thesis
    using unescape_byte_escapes [OF utf8_encode_bytes [OF assms(1)]]
    by (simp add: respelled_def spelled_def utf8_def)
qed

lemma unescape_text:
  assumes "\<not> special c_ex" "special c_backslash"
  shows "list_all is_scalar s \<Longrightarrow>
    unescape_bytes (concat (map (spelled special) s)) = utf8 (concat (map (respelled special) s))"
  by (induction s) (simp_all add: unescape_spelled assms utf8_append, simp add: utf8_def)

lemma no_classes: "(\<And>c. c \<in> set t \<Longrightarrow> class_regex c = None) \<Longrightarrow> concat (map class_or_char t) = t"
  by (induction t) (simp_all add: class_or_char_def)

lemma strip_prefix_append: "strip_prefix p (p @ s) = Some s"
  by (simp add: strip_prefix_def)

section \<open>Properties\<close>

text \<open>The regex of a literal text says in characters what \<open>globset\<close> spelled in bytes: each
  escaped run of bytes is the character it encodes again, an ASCII character stays as it was
  spelled, and nothing is lost or joined across characters.\<close>

theorem unicode_regex_decodes:
  assumes "list_all (\<lambda>c. is_scalar c \<and> class_regex c = None) s" "\<not> special c_ex" "special c_backslash"
  shows "unicode_regex (byte_mode @ concat (map (spelled special) s)) = concat (map (respelled special) s)"
proof -
  have sc: "list_all is_scalar s" using assms(1) by (auto simp: list_all_iff)
  have "list_all is_ascii (concat (map (spelled special) s))"
    using sc spelled_ascii [of _ special] by (auto simp: list_all_iff)
  then have u: "utf8 (concat (map (spelled special) s)) = concat (map (spelled special) s)"
    by (rule utf8_ascii)
  let ?t = "concat (map (respelled special) s)"
  have chars: "c = c_backslash \<or> c \<in> set s" if "c \<in> set ?t" for c
    using that by (auto simp: respelled_def spelled_def split: if_splits)
  have plain: "is_scalar c_backslash" "class_regex c_backslash = None"
    by (simp_all add: is_scalar_def class_regex_def unicode_classes_def marker_def)
  have "list_all is_scalar ?t" using sc plain chars by (auto simp: list_all_iff)
  then have d: "from_utf8_lossy (utf8 ?t) = ?t"
    using from_utf8_lossy_utf8_append [of ?t "[]"] by simp
  have "class_regex c = None" if "c \<in> set ?t" for c
    using chars [OF that] assms(1) plain(2) by (auto simp: list_all_iff)
  then have "concat (map class_or_char ?t) = ?t" by (rule no_classes)
  then show ?thesis
    using u d unescape_text [OF assms(2,3) sc]
    by (simp only: unicode_regex_def strip_prefix_append option.case Let_def)
qed

theorem unicode_regex_decodes_witness:
  "unicode_regex (ascii ''(?-u)'' @ [97, c_backslash, c_ex, 99, 51, c_backslash, c_ex, 97, 57, c_backslash, 46]) =
   [97, 233, c_backslash, 46]"
  using unicode_regex_decodes [of "[97, 233, 46]" "\<lambda>c. c = 46 \<or> c = c_backslash"]
  by (simp add: is_scalar_def class_regex_def unicode_classes_def marker_def byte_mode_def spelled_def
      respelled_def is_ascii_def utf8_encode_def byte_escape_def hex_digit_def)

end
