(* ===== verification/Path_Glob.thy ===== *)
theory Path_Glob
  imports Glob_Pattern Brace
begin

text \<open>
  \<open>packages/rust/src/scanner.rs\<close>, the globs of path-tables and declared tables, and
  \<open>TableMatcher\<close> of \<open>matcher.rs\<close>. A glob is expanded to words; each word's components sit back to
  back in one list, closed by an \<open>End\<close>, and the walk carries the positions that may come next.

  The positions after a path are those of a nondeterministic automaton run on sets. What a word's
  components consume is the specification \<open>consumes\<close>; the lemmas show that stepping the set of
  positions takes the derivative of what they consume, so that a directory is entered only while
  some word can still consume what lies below it.
\<close>

section \<open>Components\<close>

datatype component = Any_Depth | Name pattern | Dot_Name pattern | End

datatype kind = File | Directory_Kind | Linked_Dir

record path_glob =
  pg_files :: "pattern list"
  pg_components :: "component list"
  pg_starts :: "nat list"
  pg_ends :: "nat list"
  pg_spells_relative :: bool
  pg_named :: "rstr list"

definition is_dot_named :: "rstr \<Rightarrow> bool" where
  "is_dot_named name \<longleftrightarrow> prefix [c_dot] name"

text \<open>Runs of slashes made one.\<close>

definition push_collapsed :: "rstr \<Rightarrow> uchar \<Rightarrow> rstr" where
  "push_collapsed out c = (if c \<noteq> c_slash \<or> \<not> (out \<noteq> [] \<and> last out = c_slash) then out @ [c] else out)"

definition collapse_separators :: "rstr \<Rightarrow> rstr" where
  "collapse_separators word = foldl push_collapsed [] word"

fun is_any_depth :: "component \<Rightarrow> bool" where
  "is_any_depth Any_Depth = True"
| "is_any_depth c = False"

fun is_end :: "component \<Rightarrow> bool" where
  "is_end End = True"
| "is_end c = False"

fun collect :: "'a option list \<Rightarrow> 'a list option" where
  "collect [] = Some []"
| "collect (None # xs) = None"
| "collect (Some x # xs) = map_option ((#) x) (collect xs)"

definition compile_component :: "engines \<Rightarrow> rstr \<Rightarrow> component option" where
  "compile_component en c =
     (if c = [c_star, c_star] then Some Any_Depth
      else if is_dot_named (unescape c) then map_option Dot_Name (pattern_new en c)
      else map_option Name (pattern_new en c))"

text \<open>\<open>dedup_by\<close>: of neighbours both \<open>**\<close> one is kept.\<close>

fun dedup_any_depth :: "component list \<Rightarrow> component list" where
  "dedup_any_depth (a # b # cs) =
     (if is_any_depth a \<and> is_any_depth b then dedup_any_depth (a # cs) else a # dedup_any_depth (b # cs))"
| "dedup_any_depth cs = cs"

definition compile_components :: "engines \<Rightarrow> rstr \<Rightarrow> component list option" where
  "compile_components en word =
     map_option dedup_any_depth (collect (map (compile_component en) (split_on c_slash word)))"

fun lay_out :: "component list list \<Rightarrow> component list \<Rightarrow> nat list \<Rightarrow> nat list \<Rightarrow>
    component list \<times> nat list \<times> nat list" where
  "lay_out [] comps starts ends = (comps, starts, ends)"
| "lay_out (w # ws) comps starts ends =
     lay_out ws (comps @ w @ [End]) (starts @ [length comps]) (ends @ [length comps + length w])"

definition has_wildcard :: "rstr \<Rightarrow> bool" where
  "has_wildcard word \<longleftrightarrow> list_ex (\<lambda>c. c \<in> set [c_star, c_quest, c_lbracket]) word"

definition glob_words :: "rstr list \<Rightarrow> rstr list" where
  "glob_words patterns = map collapse_separators (concat (map expand patterns))"

definition compile_globs :: "engines \<Rightarrow> rstr list \<Rightarrow> path_glob option" where
  "compile_globs en patterns =
     (let words = glob_words patterns in
      Option.bind (collect (map (pattern_new en) words)) (\<lambda>files.
      Option.bind (collect (map (compile_components en) words)) (\<lambda>comps.
        (case lay_out comps [] [] [] of
           (components, starts, ends) \<Rightarrow>
             Some \<lparr>pg_files = files, pg_components = components, pg_starts = starts, pg_ends = ends,
               pg_spells_relative =
                 list_ex (\<lambda>w. list_ex (\<lambda>c. c = [c_dot] \<or> c = [c_dot, c_dot]) (split_on c_slash w)) words,
               pg_named = map unescape (filter (\<lambda>w. \<not> has_wildcard w) words)\<rparr>))))"

definition compile_glob :: "engines \<Rightarrow> rstr \<Rightarrow> path_glob option" where
  "compile_glob en pattern = compile_globs en [pattern]"

definition with_named_dirs :: "path_glob \<Rightarrow> rstr list \<Rightarrow> path_glob" where
  "with_named_dirs g dirs = g\<lparr>pg_named := pg_named g @ dirs\<rparr>"

section \<open>Matching\<close>

text \<open>\<open>Path::starts_with\<close> goes by components.\<close>

definition glob_names :: "path_glob \<Rightarrow> rstr \<Rightarrow> bool" where
  "glob_names g rel \<longleftrightarrow> list_ex (\<lambda>w. prefix (path_components rel) (path_components w)) (pg_named g)"

definition is_match :: "path_glob \<Rightarrow> rstr \<Rightarrow> bool" where
  "is_match g rel \<longleftrightarrow> list_ex (\<lambda>p. pattern_is_match p rel) (pg_files g)"

definition closure :: "path_glob \<Rightarrow> nat list \<Rightarrow> nat list" where
  "closure g states =
     remdups_adj (sort (concat (map (\<lambda>i. i #
       (case get (pg_components g) i of
          Some c \<Rightarrow> if is_any_depth c then [i + 1] else [] | None \<Rightarrow> [])) states)))"

definition glob_start :: "path_glob \<Rightarrow> nat list" where
  "glob_start g = closure g (pg_starts g)"

definition next_of :: "path_glob \<Rightarrow> rstr \<Rightarrow> kind \<Rightarrow> nat \<Rightarrow> nat list" where
  "next_of g name kind i =
     (case get (pg_components g) i of
        Some Any_Depth \<Rightarrow>
          if is_dot_named name then [] else if kind = Linked_Dir then [i + 1] else [i]
      | Some (Name m) \<Rightarrow> if \<not> is_dot_named name \<and> pattern_is_match m name then [i + 1] else []
      | Some (Dot_Name m) \<Rightarrow> if pattern_is_match m name then [i + 1] else []
      | _ \<Rightarrow> [])"

definition glob_step :: "path_glob \<Rightarrow> nat list \<Rightarrow> rstr \<Rightarrow> kind \<Rightarrow> nat list" where
  "glob_step g states name kind = closure g (concat (map (next_of g name kind) states))"

text \<open>\<open>self.components[i]\<close> panics past the end; every state of a compiled glob is a position.\<close>

definition at_end :: "path_glob \<Rightarrow> nat \<Rightarrow> bool" where
  "at_end g i \<longleftrightarrow> is_end (pg_components g ! i)"

definition reaches :: "path_glob \<Rightarrow> nat list \<Rightarrow> kind \<Rightarrow> bool" where
  "reaches g states kind =
     (if kind = File then list_ex (at_end g) states else \<not> list_all (at_end g) states)"

definition has_components :: "path_glob \<Rightarrow> bool" where
  "has_components g \<longleftrightarrow> pg_components g \<noteq> []"

definition spells_dot_names_of :: "path_glob \<Rightarrow> rstr \<Rightarrow> bool" where
  "spells_dot_names_of g rel \<longleftrightarrow>
     foldl (\<lambda>states c. glob_step g states c Directory_Kind) (glob_start g) (path_components rel) \<noteq> []"

definition is_match_unhidden :: "path_glob \<Rightarrow> rstr \<Rightarrow> bool" where
  "is_match_unhidden g rel \<longleftrightarrow>
     is_match g rel \<and>
     (\<not> list_ex is_dot_named (path_components rel) \<or> spells_dot_names_of g rel)"

definition may_match_name :: "path_glob \<Rightarrow> rstr \<Rightarrow> bool" where
  "may_match_name g name \<longleftrightarrow>
     list_ex (\<lambda>e. case pg_components g ! (e - 1) of
         Name p \<Rightarrow> pattern_is_match p name
       | Dot_Name p \<Rightarrow> pattern_is_match p name
       | _ \<Rightarrow> True) (pg_ends g)"

definition relative_entries :: "path_glob \<Rightarrow> nat list \<Rightarrow> (rstr \<times> nat list) list" where
  "relative_entries g states =
     (if \<not> pg_spells_relative g then []
      else filter (\<lambda>(name, next). reaches g next Directory_Kind)
        (map (\<lambda>name. (name, glob_step g states name Directory_Kind)) [[c_dot], [c_dot, c_dot]]))"

section \<open>Table matchers\<close>

record table_matcher =
  tm_entries :: "(path_glob \<times> rstr) list"
  tm_ignore_set :: "pattern list"
  tm_ignore_dir_set :: "pattern list"
  tm_gitignore :: bool
  tm_walk :: path_glob

definition strip_suffix :: "rstr \<Rightarrow> rstr \<Rightarrow> rstr option" where
  "strip_suffix suf s = map_option rev (strip_prefix (rev suf) (rev s))"

definition any_depth_suffix :: rstr where
  "any_depth_suffix = ascii ''/**''"

definition matcher_new :: "engines \<Rightarrow> (rstr \<times> rstr) list \<Rightarrow> rstr list \<Rightarrow> table_matcher option" where
  "matcher_new en mappings ignores =
     Option.bind (collect (map (\<lambda>(p, t). map_option (\<lambda>g. (g, t)) (compile_glob en p)) mappings)) (\<lambda>entries.
     Option.bind (compile_globs en (map fst mappings)) (\<lambda>walk.
     Option.bind (collect (map (pattern_new en) ignores)) (\<lambda>ignore_set.
     Option.bind (collect (map (pattern_new en) (List.map_filter (strip_suffix any_depth_suffix) ignores)))
       (\<lambda>dirs.
       Some \<lparr>tm_entries = entries, tm_ignore_set = ignore_set, tm_ignore_dir_set = dirs,
         tm_gitignore = False, tm_walk = walk\<rparr>))))"

definition matcher_named_dirs :: "table_matcher \<Rightarrow> rstr list \<Rightarrow> table_matcher" where
  "matcher_named_dirs m dirs = m\<lparr>tm_walk := with_named_dirs (tm_walk m) dirs\<rparr>"

definition with_gitignore :: "table_matcher \<Rightarrow> bool \<Rightarrow> table_matcher" where
  "with_gitignore m b = m\<lparr>tm_gitignore := b\<rparr>"

definition match_all :: "table_matcher \<Rightarrow> rstr \<Rightarrow> rstr list" where
  "match_all m path = map snd (filter (\<lambda>(g, t). is_match_unhidden g path) (tm_entries m))"

definition is_ignored :: "table_matcher \<Rightarrow> rstr \<Rightarrow> bool" where
  "is_ignored m path \<longleftrightarrow> list_ex (\<lambda>p. pattern_is_match p path) (tm_ignore_set m)"

definition is_ignored_dir :: "table_matcher \<Rightarrow> rstr \<Rightarrow> bool" where
  "is_ignored_dir m dir \<longleftrightarrow> list_ex (\<lambda>p. pattern_is_match p dir) (tm_ignore_dir_set m)"


section \<open>What a word's components consume\<close>

text \<open>Names and what they are, taken one component each, \<open>**\<close> any number of them: none that is
  dot-named, and a followed link only as the last. Nothing lies past an \<open>End\<close>. With \<open>whole\<close> the
  names have to use all components up, else only to follow them.\<close>

function consumes :: "bool \<Rightarrow> component list \<Rightarrow> (rstr \<times> kind) list \<Rightarrow> bool" where
  "consumes whole [] ns \<longleftrightarrow> ns = []"
| "consumes whole (End # cs) ns \<longleftrightarrow> ns = []"
| "consumes whole (Any_Depth # cs) [] \<longleftrightarrow> \<not> whole \<or> consumes whole cs []"
| "consumes whole (Any_Depth # cs) ((n, k) # ns) \<longleftrightarrow>
     consumes whole cs ((n, k) # ns) \<or>
     (\<not> is_dot_named n \<and> (if k = Linked_Dir then consumes whole cs ns else consumes whole (Any_Depth # cs) ns))"
| "consumes whole (Name m # cs) [] \<longleftrightarrow> \<not> whole"
| "consumes whole (Name m # cs) ((n, k) # ns) \<longleftrightarrow>
     \<not> is_dot_named n \<and> pattern_is_match m n \<and> consumes whole cs ns"
| "consumes whole (Dot_Name m # cs) [] \<longleftrightarrow> \<not> whole"
| "consumes whole (Dot_Name m # cs) ((n, k) # ns) \<longleftrightarrow> pattern_is_match m n \<and> consumes whole cs ns"
  by pat_completeness auto
termination by (relation "measure (\<lambda>(whole, cs, ns). length cs + length ns)") auto

lemma consumes_part_Nil [simp]: "consumes False cs []"
proof (induction cs)
  case (Cons c cs)
  then show ?case by (cases c) simp_all
qed simp

definition consumed_from :: "bool \<Rightarrow> path_glob \<Rightarrow> nat list \<Rightarrow> (rstr \<times> kind) list \<Rightarrow> bool" where
  "consumed_from h g states ns \<longleftrightarrow> (\<exists>i\<in>set states. consumes h (drop i (pg_components g)) ns)"

text \<open>No two \<open>**\<close> in a row, and an \<open>End\<close> last.\<close>

definition well_laid :: "component list \<Rightarrow> bool" where
  "well_laid cs \<longleftrightarrow> cs \<noteq> [] \<longrightarrow> last cs = End \<and>
     (\<forall>i. Suc i < length cs \<longrightarrow> is_any_depth (cs ! i) \<longrightarrow> \<not> is_any_depth (cs ! Suc i))"

definition closed_under :: "path_glob \<Rightarrow> nat list \<Rightarrow> bool" where
  "closed_under g states \<longleftrightarrow>
     (\<forall>i\<in>set states. i < length (pg_components g) \<and>
        (is_any_depth (pg_components g ! i) \<longrightarrow> Suc i \<in> set states))"

lemma set_closure:
  "set (closure g st) = {j. \<exists>i\<in>set st. j = i \<or>
     (j = Suc i \<and> i < length (pg_components g) \<and> is_any_depth (pg_components g ! i))}"
  by (auto simp: closure_def get_def split: option.splits if_splits)

lemma well_laid_last: "well_laid cs \<Longrightarrow> Suc i = length cs \<Longrightarrow> cs ! i = End"
  by (cases "cs = []") (auto simp: well_laid_def last_conv_nth dest: sym [of "Suc i"])

lemma any_depth_inside:
  "well_laid cs \<Longrightarrow> i < length cs \<Longrightarrow> is_any_depth (cs ! i) \<Longrightarrow> Suc i < length cs"
  using well_laid_last [of cs i] by (cases "Suc i = length cs") auto

lemma closed_closure:
  assumes "well_laid (pg_components g)" "\<forall>i\<in>set st. i < length (pg_components g)"
  shows "closed_under g (closure g st)"
  using assms any_depth_inside [OF assms(1)]
  by (fastforce simp: closed_under_def set_closure well_laid_def)

lemma drop_nth: "i < length cs \<Longrightarrow> drop i cs = cs ! i # drop (Suc i) cs"
  by (simp add: Cons_nth_drop_Suc)

lemma consumed_closure:
  assumes "\<forall>i\<in>set st. i < length (pg_components g)"
  shows "consumed_from h g (closure g st) ns \<longleftrightarrow> consumed_from h g st ns"
proof -
  have "consumes h (drop i (pg_components g)) ns"
    if "i < length (pg_components g)" "is_any_depth (pg_components g ! i)"
      "consumes h (drop (Suc i) (pg_components g)) ns" for i
    using that by (cases "pg_components g ! i"; cases ns) (auto simp: drop_nth)
  then show ?thesis unfolding consumed_from_def set_closure by blast
qed

text \<open>Stepping the positions takes the derivative of what they consume.\<close>

lemma next_of_consumes:
  assumes "j \<in> set (next_of g n k i)" "consumes h (drop j (pg_components g)) ns"
  shows "consumes h (drop i (pg_components g)) ((n, k) # ns)"
  using assms
  by (auto simp: next_of_def get_def drop_nth split: option.splits if_splits component.splits)

lemma consumes_next_of:
  assumes "i < length (pg_components g)" "\<not> is_any_depth (pg_components g ! i)"
    "consumes h (drop i (pg_components g)) ((n, k) # ns)"
  shows "\<exists>j\<in>set (next_of g n k i). consumes h (drop j (pg_components g)) ns"
  using assms by (cases "pg_components g ! i") (auto simp: next_of_def get_def drop_nth)

lemma next_of_inside:
  "well_laid (pg_components g) \<Longrightarrow> i < length (pg_components g) \<Longrightarrow> j \<in> set (next_of g n k i) \<Longrightarrow>
   j < length (pg_components g)"
proof -
  assume w: "well_laid (pg_components g)" and i: "i < length (pg_components g)" "j \<in> set (next_of g n k i)"
  have "Suc i < length (pg_components g)" if "pg_components g ! i \<noteq> End"
    using w i(1) that well_laid_last [of "pg_components g" i] by (cases "Suc i = length (pg_components g)") auto
  then show ?thesis
    using i by (auto simp: next_of_def get_def split: component.splits if_splits)
qed

lemma glob_step_closed:
  assumes "well_laid (pg_components g)" "closed_under g st"
  shows "closed_under g (glob_step g st n k)"
  unfolding glob_step_def
  using assms next_of_inside [OF assms(1)]
  by (intro closed_closure [OF assms(1)]) (auto simp: closed_under_def)

lemma glob_step_derivative:
  assumes w: "well_laid (pg_components g)" and c: "closed_under g st"
  shows "consumed_from h g (glob_step g st n k) ns \<longleftrightarrow> consumed_from h g st ((n, k) # ns)"
proof -
  let ?cs = "pg_components g"
  have inside: "\<forall>j\<in>set (concat (map (next_of g n k) st)). j < length ?cs"
    using c next_of_inside [OF w] by (auto simp: closed_under_def)
  have "consumed_from h g (glob_step g st n k) ns \<longleftrightarrow> (\<exists>i\<in>set st. \<exists>j\<in>set (next_of g n k i). consumes h (drop j ?cs) ns)"
    unfolding glob_step_def consumed_closure [OF inside] by (simp add: consumed_from_def)
  also have "\<dots> \<longleftrightarrow> consumed_from h g st ((n, k) # ns)"
  proof
    assume "\<exists>i\<in>set st. \<exists>j\<in>set (next_of g n k i). consumes h (drop j ?cs) ns"
    then show "consumed_from h g st ((n, k) # ns)"
      unfolding consumed_from_def using next_of_consumes by blast
  next
    assume "consumed_from h g st ((n, k) # ns)"
    then obtain i where i: "i \<in> set st" "consumes h (drop i ?cs) ((n, k) # ns)"
      by (auto simp: consumed_from_def)
    have len: "i < length ?cs" using c i(1) by (simp add: closed_under_def)
    show "\<exists>i\<in>set st. \<exists>j\<in>set (next_of g n k i). consumes h (drop j ?cs) ns"
    proof (cases "is_any_depth (?cs ! i)")
      case False
      then show ?thesis using consumes_next_of [OF len False i(2)] i(1) by blast
    next
      case True
      then have any: "?cs ! i = Any_Depth" by (cases "?cs ! i") auto
      have next_i: "Suc i \<in> set st" using c i(1) True by (simp add: closed_under_def)
      have len': "Suc i < length ?cs" by (rule any_depth_inside [OF w len True])
      have not_any: "\<not> is_any_depth (?cs ! Suc i)" using w len' True by (auto simp: well_laid_def)
      from i(2) have "consumes h (drop (Suc i) ?cs) ((n, k) # ns) \<or>
          (\<not> is_dot_named n \<and> (if k = Linked_Dir then consumes h (drop (Suc i) ?cs) ns else consumes h (drop i ?cs) ns))"
        using len by (cases "k = Linked_Dir") (simp_all add: drop_nth any)
      then show ?thesis
      proof
        assume "consumes h (drop (Suc i) ?cs) ((n, k) # ns)"
        then show ?thesis using consumes_next_of [OF len' not_any] next_i by blast
      next
        assume a: "\<not> is_dot_named n \<and>
          (if k = Linked_Dir then consumes h (drop (Suc i) ?cs) ns else consumes h (drop i ?cs) ns)"
        then have "(if k = Linked_Dir then Suc i else i) \<in> set (next_of g n k i)"
          using len by (simp add: next_of_def get_def any)
        then show ?thesis using a i(1) by (metis (full_types))
      qed
    qed
  qed
  finally show ?thesis .
qed

definition run_names :: "path_glob \<Rightarrow> nat list \<Rightarrow> (rstr \<times> kind) list \<Rightarrow> nat list" where
  "run_names g st ns = foldl (\<lambda>st (n, k). glob_step g st n k) st ns"

lemma run_names_language:
  assumes "well_laid (pg_components g)" "closed_under g st"
  shows "closed_under g (run_names g st ns) \<and>
    (consumed_from h g (run_names g st ns) rest \<longleftrightarrow> consumed_from h g st (ns @ rest))"
  using assms(2)
proof (induction ns arbitrary: st)
  case Nil
  then show ?case by (simp add: run_names_def)
next
  case (Cons a ns)
  obtain n k where a: "a = (n, k)" by fastforce
  have "run_names g st (a # ns) = run_names g (glob_step g st n k) ns" by (simp add: run_names_def a)
  then show ?case
    using Cons.IH [OF glob_step_closed [OF assms(1) Cons.prems]]
      glob_step_derivative [OF assms(1) Cons.prems] by (simp add: a)
qed

lemma consumed_Nil:
  assumes "well_laid (pg_components g)" "closed_under g st"
  shows "list_ex (at_end g) st \<longleftrightarrow> consumed_from True g st []"
proof
  assume "list_ex (at_end g) st"
  then obtain i where "i \<in> set st" "is_end (pg_components g ! i)" "i < length (pg_components g)"
    using assms(2) by (auto simp: list_ex_iff at_end_def closed_under_def)
  then show "consumed_from True g st []"
    unfolding consumed_from_def by (intro bexI [of _ i]) (cases "pg_components g ! i", auto simp: drop_nth)
next
  assume "consumed_from True g st []"
  then obtain i where i: "i \<in> set st" "consumes True (drop i (pg_components g)) []"
    by (auto simp: consumed_from_def)
  have len: "i < length (pg_components g)" using assms(2) i(1) by (simp add: closed_under_def)
  have "is_end (pg_components g ! i) \<or> (is_any_depth (pg_components g ! i) \<and> is_end (pg_components g ! Suc i))"
  proof (cases "pg_components g ! i")
    case Any_Depth
    then have next_i: "Suc i < length (pg_components g)" "\<not> is_any_depth (pg_components g ! Suc i)"
      using any_depth_inside [OF assms(1) len] assms(1) by (auto simp: well_laid_def)
    then show ?thesis using i(2) len Any_Depth
      by (cases "pg_components g ! Suc i") (auto simp: drop_nth)
  qed (use i(2) len in \<open>auto simp: drop_nth\<close>)
  then show "list_ex (at_end g) st"
    using assms(2) i(1) by (auto simp: list_ex_iff at_end_def closed_under_def)
qed

section \<open>Compiled globs\<close>

lemma collect_Some_iff: "collect xs = Some ys \<longleftrightarrow> xs = map Some ys"
  by (induction xs arbitrary: ys rule: collect.induct) (auto simp: map_eq_Cons_conv Cons_eq_map_conv)

abbreviation apart :: "component \<Rightarrow> component \<Rightarrow> bool" where
  "apart a b \<equiv> \<not> (is_any_depth a \<and> is_any_depth b)"

lemma well_laid_iff: "well_laid cs \<longleftrightarrow> (cs \<noteq> [] \<longrightarrow> last cs = End) \<and> successively apart cs"
proof -
  have "successively apart cs \<longleftrightarrow> (\<forall>i. Suc i < length cs \<longrightarrow> apart (cs ! i) (cs ! Suc i))"
  proof (induction cs)
    case (Cons c cs)
    have "(\<forall>i. Suc i < length (c # cs) \<longrightarrow> apart ((c # cs) ! i) ((c # cs) ! Suc i)) \<longleftrightarrow>
        (cs \<noteq> [] \<longrightarrow> apart c (hd cs)) \<and> (\<forall>i. Suc i < length cs \<longrightarrow> apart (cs ! i) (cs ! Suc i))"
      (is "(\<forall>i. ?P i) \<longleftrightarrow> ?Q \<and> (\<forall>i. ?R i)")
    proof -
      have "?P 0 \<longleftrightarrow> ?Q" by (cases cs) auto
      moreover have "?P (Suc i) \<longleftrightarrow> ?R i" for i by auto
      ultimately show ?thesis by (metis not0_implies_Suc)
    qed
    then show ?case using Cons by (auto simp: successively_Cons)
  qed simp
  then show ?thesis by (auto simp: well_laid_def)
qed

lemma dedup_any_depth_facts:
  "successively apart (dedup_any_depth cs)"
  "(dedup_any_depth cs = [] \<longleftrightarrow> cs = [])"
  "cs \<noteq> [] \<Longrightarrow> hd (dedup_any_depth cs) = hd cs"
  "End \<notin> set cs \<Longrightarrow> End \<notin> set (dedup_any_depth cs)"
proof (induction cs rule: dedup_any_depth.induct)
  case (1 a b cs)
  { case 1 show ?case using "1.IH" by (cases "dedup_any_depth (b # cs)") auto }
  { case 2 show ?case using "1.IH" by auto }
  { case 3 show ?case using "1.IH" by auto }
  { case 4 then show ?case using "1.IH" by auto }
qed auto

lemma consumes_before_End: "End \<notin> set w \<Longrightarrow> consumes h (w @ End # cs) ns \<longleftrightarrow> consumes h w ns"
  by (induction h w ns rule: consumes.induct) auto

lemma consumes_past_End: "consumes h (w @ End # cs) ns \<longleftrightarrow> consumes h (w @ [End]) ns"
  by (induction h w ns rule: consumes.induct) auto

lemma lay_out_facts:
  assumes "lay_out ws cs ss es = (cs', ss', es')" "well_laid cs"
    "\<forall>w\<in>set ws. End \<notin> set w \<and> successively apart w"
    "\<forall>i\<in>set ss. i < length cs"
  shows "well_laid cs' \<and> (\<forall>i\<in>set ss'. i < length cs') \<and>
    ((\<exists>i\<in>set ss'. consumes h (drop i cs') ns) \<longleftrightarrow>
     (\<exists>i\<in>set ss. consumes h (drop i cs) ns) \<or> (\<exists>w\<in>set ws. consumes h w ns))"
  using assms
proof (induction ws arbitrary: cs ss es)
  case (Cons w ws)
  let ?cs = "cs @ w @ [End]"
  have w: "End \<notin> set w" "successively apart w" using Cons.prems(3) by auto
  have "cs = [] \<or> \<not> is_any_depth (last cs)" using Cons.prems(2) by (auto simp: well_laid_def)
  then have laid: "well_laid ?cs"
    using Cons.prems(2) w(2) by (auto simp: well_laid_iff successively_append_iff)
  have old: "consumes h (drop i ?cs) ns \<longleftrightarrow> consumes h (drop i cs) ns" if i: "i < length cs" for i
  proof -
    have "last cs = End" "cs \<noteq> []" using i Cons.prems(2) by (auto simp: well_laid_def)
    then have cs: "cs = butlast cs @ [End]" by (metis append_butlast_last_id)
    define ds where "ds = butlast cs"
    have "drop i cs = drop i ds @ [End]" "drop i ?cs = drop i ds @ End # w @ [End]"
      using i cs unfolding ds_def [symmetric] by (auto dest: arg_cong [of _ _ length])
    then show ?thesis using consumes_past_End [of h "drop i ds" "w @ [End]" ns] by simp
  qed
  have new: "consumes h (drop (length cs) ?cs) ns \<longleftrightarrow> consumes h w ns"
    using consumes_before_End [OF w(1), of h "[]"] by simp
  have "\<forall>i\<in>set (ss @ [length cs]). i < length ?cs" using Cons.prems(4) by auto
  from Cons.IH [OF _ laid _ this] Cons.prems(1,3)
  have ih: "well_laid cs'" "\<forall>i\<in>set ss'. i < length cs'"
    "(\<exists>i\<in>set ss'. consumes h (drop i cs') ns) \<longleftrightarrow>
       (\<exists>i\<in>set (ss @ [length cs]). consumes h (drop i ?cs) ns) \<or> (\<exists>w\<in>set ws. consumes h w ns)"
    by simp_all
  have "(\<exists>i\<in>set (ss @ [length cs]). consumes h (drop i ?cs) ns) \<longleftrightarrow>
      (\<exists>i\<in>set ss. consumes h (drop i cs) ns) \<or> consumes h w ns"
    unfolding set_append list.set(1) list.set(2) bex_Un bex_simps(5) new
    using old Cons.prems(4) by (metis empty_iff insert_iff new)
  then show ?case using ih by auto
qed auto

lemma compile_component_not_End: "compile_component en c \<noteq> Some End"
  by (simp add: compile_component_def)

lemma compile_components_facts:
  assumes "compile_components en w = Some cs"
  shows "End \<notin> set cs" "successively apart cs"
proof -
  obtain raw where raw: "map (compile_component en) (split_on c_slash w) = map Some raw"
    and cs: "cs = dedup_any_depth raw"
    using assms by (auto simp: compile_components_def collect_Some_iff)
  have "Some End \<notin> set (map (compile_component en) (split_on c_slash w))"
    using compile_component_not_End [of en] by (metis (no_types, lifting) imageE set_map)
  then have "End \<notin> set raw" unfolding raw by auto
  then show "End \<notin> set cs" by (simp add: cs dedup_any_depth_facts(4))
  show "successively apart cs" unfolding cs by (rule dedup_any_depth_facts(1))
qed

lemma compile_globs_facts:
  assumes "compile_globs en patterns = Some g"
  shows "well_laid (pg_components g)" "closed_under g (glob_start g)"
    "consumed_from h g (glob_start g) ns \<longleftrightarrow>
       (\<exists>w\<in>set (glob_words patterns). \<exists>cs. compile_components en w = Some cs \<and> consumes h cs ns)"
    "is_match g rel \<longleftrightarrow> (\<exists>w\<in>set (glob_words patterns). \<exists>p. pattern_new en w = Some p \<and> pattern_is_match p rel)"
proof -
  obtain files comps where f: "map (pattern_new en) (glob_words patterns) = map Some files"
    and c: "map (compile_components en) (glob_words patterns) = map Some comps"
    and l: "lay_out comps [] [] [] = (pg_components g, pg_starts g, pg_ends g)"
    and files: "pg_files g = files"
  proof -
    obtain files comps where fc: "collect (map (pattern_new en) (glob_words patterns)) = Some files"
      "collect (map (compile_components en) (glob_words patterns)) = Some comps"
      using assms by (auto simp: compile_globs_def Let_def bind_eq_Some_conv)
    obtain cs ss es where l: "lay_out comps [] [] [] = (cs, ss, es)" by (metis prod_cases3)
    have "pg_components g = cs" "pg_starts g = ss" "pg_ends g = es" "pg_files g = files"
      using assms unfolding compile_globs_def Let_def fc bind.bind_lunit l prod.case option.inject by auto
    then show thesis
      using that [of files comps] fc l by (simp only: collect_Some_iff)
  qed
  have words: "x \<in> set comps \<longleftrightarrow> (\<exists>w\<in>set (glob_words patterns). compile_components en w = Some x)" for x
  proof -
    have "Some x \<in> set (map Some comps) \<longleftrightarrow> (\<exists>w\<in>set (glob_words patterns). compile_components en w = Some x)"
      unfolding c [symmetric] by force
    then show ?thesis by auto
  qed
  have pats: "x \<in> set files \<longleftrightarrow> (\<exists>w\<in>set (glob_words patterns). pattern_new en w = Some x)" for x
  proof -
    have "Some x \<in> set (map Some files) \<longleftrightarrow> (\<exists>w\<in>set (glob_words patterns). pattern_new en w = Some x)"
      unfolding f [symmetric] by force
    then show ?thesis by auto
  qed
  have ok: "\<forall>w\<in>set comps. End \<notin> set w \<and> successively apart w"
    using words compile_components_facts by blast
  have lay: "well_laid (pg_components g)" "\<forall>i\<in>set (pg_starts g). i < length (pg_components g)"
    "(\<exists>i\<in>set (pg_starts g). consumes h (drop i (pg_components g)) ns) \<longleftrightarrow> (\<exists>w\<in>set comps. consumes h w ns)" for ns
    using lay_out_facts [OF l _ ok] by (auto simp: well_laid_def)
  show "well_laid (pg_components g)" by (rule lay(1))
  show "closed_under g (glob_start g)"
    unfolding glob_start_def by (rule closed_closure [OF lay(1,2)])
  show "consumed_from h g (glob_start g) ns \<longleftrightarrow>
       (\<exists>w\<in>set (glob_words patterns). \<exists>cs. compile_components en w = Some cs \<and> consumes h cs ns)"
    unfolding glob_start_def consumed_closure [OF lay(2)] unfolding consumed_from_def lay(3)
    unfolding Bex_def words by blast
  show "is_match g rel \<longleftrightarrow> (\<exists>w\<in>set (glob_words patterns). \<exists>p. pattern_new en w = Some p \<and> pattern_is_match p rel)"
    unfolding is_match_def list_ex_iff files Bex_def pats by blast
qed

section \<open>Properties\<close>

text \<open>What the globs take, read off their words.\<close>

definition globs_take :: "bool \<Rightarrow> engines \<Rightarrow> rstr list \<Rightarrow> (rstr \<times> kind) list \<Rightarrow> bool" where
  "globs_take h en patterns ns \<longleftrightarrow>
     list_ex (\<lambda>w. case compile_components en w of Some cs \<Rightarrow> consumes h cs ns | None \<Rightarrow> False)
       (glob_words patterns)"

lemma globs_take_iff:
  "compile_globs en patterns = Some g \<Longrightarrow> consumed_from h g (glob_start g) ns \<longleftrightarrow> globs_take h en patterns ns"
  unfolding compile_globs_facts(3) globs_take_def list_ex_iff by (auto split: option.splits)

lemma run_globs:
  assumes "compile_globs en patterns = Some g"
  shows "consumed_from h g (run_names g (glob_start g) ns) rest \<longleftrightarrow> globs_take h en patterns (ns @ rest)"
    "closed_under g (run_names g (glob_start g) ns)"
  using run_names_language [OF compile_globs_facts(1,2) [OF assms], of ns h rest] globs_take_iff [OF assms]
  by simp_all

text \<open>Any position at all stands for names that follow some word so far.\<close>

lemma consumed_part_Nil: "consumed_from False g st [] \<longleftrightarrow> st \<noteq> []"
  by (cases st) (auto simp: consumed_from_def)

text \<open>While something is still to be consumed not every position is an \<open>End\<close>.\<close>

lemma consumed_not_all_end:
  assumes "closed_under g st" "consumed_from h g st (n # ns)"
  shows "reaches g st Directory_Kind"
proof -
  obtain i where i: "i \<in> set st" "consumes h (drop i (pg_components g)) (n # ns)"
    using assms(2) by (auto simp: consumed_from_def)
  have "i < length (pg_components g)" using assms(1) i(1) by (simp add: closed_under_def)
  then have "\<not> is_end (pg_components g ! i)"
    using i(2) by (cases "pg_components g ! i") (auto simp: drop_nth)
  then show ?thesis using i(1) by (auto simp: reaches_def list_all_iff at_end_def)
qed

text \<open>C3: the positions the walk carries decide the globs: after any path an \<open>End\<close> is among them
  exactly when the components of some word consume the path, \<open>**\<close> taking any number of names but
  no dot-named one and a followed link only as its last; and a directory can still be entered
  whenever some word consumes a longer path through it, so nothing the globs reach is pruned.\<close>

theorem positions_decide_globs:
  assumes "compile_globs en patterns = Some g"
  shows "(reaches g (run_names g (glob_start g) ns) File \<longleftrightarrow> globs_take True en patterns ns) \<and>
    (globs_take True en patterns (ns @ n # below) \<longrightarrow>
      reaches g (run_names g (glob_start g) ns) Directory_Kind)"
proof -
  have "reaches g (run_names g (glob_start g) ns) File \<longleftrightarrow> globs_take True en patterns ns"
    using consumed_Nil [OF compile_globs_facts(1) [OF assms] run_globs(2) [OF assms]]
      run_globs(1) [OF assms, of True ns "[]"] by (simp add: reaches_def)
  moreover have "reaches g (run_names g (glob_start g) ns) Directory_Kind"
    if "globs_take True en patterns (ns @ n # below)"
    using consumed_not_all_end [OF run_globs(2) [OF assms]] that run_globs(1) [OF assms, of True ns "n # below"]
    by simp
  ultimately show ?thesis by blast
qed

definition any_name :: engines where
  "any_name = \<lparr>globset = \<lambda>g. Some g, regex = \<lambda>r. Some (\<lambda>s. s \<noteq> [])\<rparr>"

lemma compile_any_name: "pattern_new any_name w \<noteq> None"
  by (simp add: pattern_new_def compile_def any_name_def Let_def split: option.split)

theorem positions_decide_globs_witness:
  "case compile_globs any_name [ascii ''**/.a''] of
     None \<Rightarrow> False
   | Some g \<Rightarrow> reaches g (run_names g (glob_start g) [(ascii ''b'', Directory_Kind), (ascii ''.a'', Linked_Dir)]) File"
proof -
  have plain: "expand_word (ascii ''**/.a'') = [ascii ''**/.a'']"
    by (rule expand_word_plain) (simp add: plain_text_def)
  have words: "glob_words [ascii ''**/.a''] = [ascii ''**/.a'']"
    unfolding glob_words_def expand_def by (simp add: plain [simplified] collapse_separators_def push_collapsed_def)
  have "compile_globs any_name [ascii ''**/.a''] \<noteq> None"
    unfolding compile_globs_def words
    by (simp add: compile_components_def compile_component_def pattern_new_def compile_def any_name_def
        Let_def strip_prefix_def any_depth_prefix_def is_dot_named_def unescape_def)
  then obtain g where g: "compile_globs any_name [ascii ''**/.a''] = Some g" by blast
  have "globs_take True any_name [ascii ''**/.a''] [(ascii ''b'', Directory_Kind), (ascii ''.a'', Linked_Dir)]"
    unfolding globs_take_def words
    by (simp add: compile_components_def compile_component_def pattern_new_def compile_def any_name_def
        Let_def strip_prefix_def any_depth_prefix_def is_dot_named_def unescape_def pattern_is_match_def
        file_name_def path_components_def)
  then show ?thesis using positions_decide_globs [OF g] g by simp
qed

end
