(* ===== verification/Walk.thy ===== *)
theory Walk
  imports Path_Glob Tree_Walk Listing
begin

text \<open>
  \<open>packages/rust/src/scanner.rs\<close>, the walk of a directory tree, and \<open>gitignore_frame.rs\<close>. The file
  system is the parameter \<open>file_system\<close>: the entries of a directory in name order with what each was
  seen as, the stat of a path, whether it exists, and the \<open>.gitignore\<close> of a directory as the
  \<open>ignore\<close> crate decides paths with it. Exploring a place gives the steps \<open>Tree_Walk\<close> hands out in
  order; the copies of a frame that each thread keeps decide alike and are one. Names and paths are
  text.
\<close>

section \<open>The file system\<close>

datatype gi_match = Match_None | Match_Ignore | Match_Whitelist

record frame =
  fr_matched :: "rstr \<Rightarrow> bool \<Rightarrow> gi_match"
  fr_matched_or_parents :: "rstr \<Rightarrow> bool \<Rightarrow> gi_match"

record stat =
  st_is_link :: bool
  st_is_dir :: bool
  st_is_file :: bool

record file_system =
  fs_read :: "rstr \<Rightarrow> (rstr \<times> seen) list"
  fs_stat :: "rstr \<Rightarrow> bool \<Rightarrow> stat option"
  fs_exists :: "rstr \<Rightarrow> bool"
  fs_gitignore :: "rstr \<Rightarrow> frame option"

text \<open>\<open>Frame::load\<close>: only a regular file counts, and one that cannot be parsed is no frame.\<close>

definition gitignore_name :: rstr where
  "gitignore_name = ascii ''.gitignore''"

definition git_name :: rstr where
  "git_name = ascii ''.git''"

definition frame_load :: "file_system \<Rightarrow> rstr \<Rightarrow> frame option" where
  "frame_load fs dir =
     (case fs_stat fs (path_join dir gitignore_name) True of
        Some st \<Rightarrow> if st_is_file st then fs_gitignore fs dir else None
      | None \<Rightarrow> None)"

definition holds_git :: "file_system \<Rightarrow> rstr \<Rightarrow> bool" where
  "holds_git fs dir = fs_exists fs (path_join dir git_name)"

section \<open>Kinds\<close>

definition classify :: "bool \<Rightarrow> bool \<Rightarrow> bool \<Rightarrow> kind option" where
  "classify is_dir is_file linked =
     (if is_dir \<and> linked then Some Linked_Dir
      else if is_dir then Some Directory_Kind
      else if is_file then Some File
      else None)"

definition kind_of_link :: "bool \<Rightarrow> (bool \<Rightarrow> stat option) \<Rightarrow> kind option" where
  "kind_of_link follow_links stat =
     (if follow_links
      then Option.bind (stat True) (\<lambda>target. classify (st_is_dir target) (st_is_file target) True)
      else None)"

fun kind_of :: "seen \<Rightarrow> bool \<Rightarrow> (bool \<Rightarrow> stat option) \<Rightarrow> kind option" where
  "kind_of Seen_Dir follow_links stat = Some Directory_Kind"
| "kind_of Seen_File follow_links stat = Some File"
| "kind_of Seen_Other follow_links stat = None"
| "kind_of Seen_Link follow_links stat = kind_of_link follow_links stat"
| "kind_of Seen_Unknown follow_links stat =
     Option.bind (stat False) (\<lambda>entry.
       if st_is_link entry then kind_of_link follow_links stat
       else classify (st_is_dir entry) (st_is_file entry) False)"

section \<open>Ignoring\<close>

fun deciding :: "gi_match list \<Rightarrow> bool" where
  "deciding [] = False"
| "deciding (Match_Ignore # ms) = True"
| "deciding (Match_Whitelist # ms) = False"
| "deciding (Match_None # ms) = deciding ms"

text \<open>The deepest frame that says something decides.\<close>

definition is_gitignored :: "frame list \<Rightarrow> rstr \<Rightarrow> bool \<Rightarrow> bool" where
  "is_gitignored frames path is_dir = deciding (map (\<lambda>f. fr_matched f path is_dir) (rev frames))"

definition should_descend :: "bool \<Rightarrow> rstr \<Rightarrow> table_matcher \<Rightarrow> bool" where
  "should_descend is_dir rel ignore \<longleftrightarrow> \<not> is_dir \<or> \<not> is_ignored_dir ignore rel"

fun reaches_from :: "rstr \<Rightarrow> rstr list \<Rightarrow> table_matcher \<Rightarrow> bool" where
  "reaches_from pre [] ignore = True"
| "reaches_from pre (c # cs) ignore =
     (should_descend True (path_join pre c) ignore \<and> reaches_from (path_join pre c) cs ignore)"

definition reaches_dir :: "rstr \<Rightarrow> table_matcher \<Rightarrow> bool" where
  "reaches_dir rel ignore = reaches_from [] (path_components rel) ignore"

definition enclosing_repo :: "rstr \<Rightarrow> (rstr \<Rightarrow> bool) \<Rightarrow> rstr option" where
  "enclosing_repo start_dir is_repo_root = find is_repo_root (ancestors start_dir)"

definition dirs_above :: "rstr \<Rightarrow> rstr \<Rightarrow> rstr list" where
  "dirs_above start_dir repo =
     (let depth = (case position (\<lambda>d. d = repo) (ancestors start_dir) of Some n \<Rightarrow> n | None \<Rightarrow> 0) in
      rev (take depth (drop 1 (ancestors start_dir))))"

definition gitignores_above :: "rstr \<Rightarrow> rstr \<Rightarrow> (rstr \<Rightarrow> frame option) \<Rightarrow> frame list" where
  "gitignores_above start_dir repo load = List.map_filter load (dirs_above start_dir repo)"

definition is_gitignored_path :: "file_system \<Rightarrow> rstr \<Rightarrow> bool \<Rightarrow> bool" where
  "is_gitignored_path fs path is_dir =
     (case Option.bind (parent path) (\<lambda>dir. enclosing_repo dir (holds_git fs)) of
        None \<Rightarrow> False
      | Some repo \<Rightarrow>
          deciding (map (\<lambda>f. fr_matched_or_parents f path is_dir)
            (rev (gitignores_above path repo (frame_load fs)))))"

text \<open>The module argument of a path-table; an error carries the argument.\<close>

definition gitignore_arg :: rstr where "gitignore_arg = ascii ''gitignore''"
definition no_gitignore_arg :: rstr where "no_gitignore_arg = ascii ''no-gitignore''"
definition gitignore_root_arg :: rstr where "gitignore_root_arg = ascii ''gitignore-root''"

definition parse_gitignore_arg :: "rstr \<Rightarrow> rstr + bool" where
  "parse_gitignore_arg arg =
     (if arg = gitignore_arg \<or> arg = gitignore_root_arg then Inr True
      else if arg = no_gitignore_arg then Inr False
      else Inl arg)"

section \<open>What the walk takes\<close>

record walker_cfg =
  wk_ignore :: table_matcher
  wk_glob :: "path_glob option"
  wk_gitignore :: bool
  wk_in_repo :: bool
  wk_frames :: "frame list"
  wk_dirs :: bool

record place =
  pl_walk :: walker_cfg
  pl_dir :: rstr
  pl_rel :: rstr
  pl_states :: "nat list"
  pl_linked :: bool
  pl_part :: "((rstr \<times> seen) list \<times> nat \<times> nat) option"

text \<open>\<open>Taken\<close>: a directory to enter, or a file as its path.\<close>

datatype taken = Taken_Dir rstr "nat list" bool | Taken_File rstr

definition child_path :: "rstr \<Rightarrow> rstr \<Rightarrow> rstr" where
  "child_path rel name = path_join (path_join [] rel) name"

definition next_states :: "walker_cfg \<Rightarrow> nat list \<Rightarrow> rstr \<Rightarrow> kind \<Rightarrow> nat list" where
  "next_states wk states name kind =
     (case wk_glob wk of Some g \<Rightarrow> glob_step g states name kind | None \<Rightarrow> [])"

definition follows :: "walker_cfg \<Rightarrow> bool \<Rightarrow> nat list \<Rightarrow> kind \<Rightarrow> bool" where
  "follows wk linked states kind =
     (case wk_glob wk of
        Some g \<Rightarrow>
          if linked \<or> (kind = Directory_Kind \<and> has_components g) then reaches g states kind else True
      | None \<Rightarrow> \<not> linked)"

definition admits_name :: "walker_cfg \<Rightarrow> bool \<Rightarrow> nat list \<Rightarrow> bool" where
  "admits_name wk dot_named next \<longleftrightarrow> wk_glob wk = None \<or> \<not> dot_named \<or> next \<noteq> []"

definition admits :: "walker_cfg \<Rightarrow> bool \<Rightarrow> rstr \<Rightarrow> rstr \<Rightarrow> bool" where
  "admits wk is_dir path rel \<longleftrightarrow>
     should_descend is_dir rel (wk_ignore wk) \<and>
     (wk_frames wk = [] \<or>
      (case wk_glob wk of Some g \<Rightarrow> glob_names g rel | None \<Rightarrow> False) \<or>
      \<not> is_gitignored (wk_frames wk) path is_dir)"

definition take_entry ::
  "file_system \<Rightarrow> walker_cfg \<Rightarrow> rstr \<Rightarrow> rstr \<Rightarrow> seen \<Rightarrow> rstr \<Rightarrow> nat list \<Rightarrow> bool \<Rightarrow> taken option"
where
  "take_entry fs wk dir name seen rel states linked0 =
     Option.bind (kind_of seen (wk_glob wk \<noteq> None) (fs_stat fs (path_join dir name))) (\<lambda>kind.
       let linked = (linked0 \<or> kind = Linked_Dir);
           dot_named = is_dot_named name;
           next = (if linked \<or> kind \<noteq> File \<or> dot_named then next_states wk states name kind else []) in
       if \<not> follows wk linked next kind \<or> \<not> admits_name wk dot_named next then None
       else (let is_dir = (kind \<noteq> File);
                 child = child_path rel name;
                 path = (if wk_frames wk = [] then [] else path_join dir name) in
         if \<not> admits wk is_dir path child then None
         else Some (if is_dir then Taken_Dir child next linked else Taken_File child)))"

text \<open>What \<open>on_link\<close> is told when an entry is taken: the path of a followed directory.\<close>

definition told_link ::
  "file_system \<Rightarrow> walker_cfg \<Rightarrow> rstr \<Rightarrow> rstr \<Rightarrow> seen \<Rightarrow> rstr \<Rightarrow> nat list \<Rightarrow> bool \<Rightarrow> rstr option"
where
  "told_link fs wk dir name seen rel states linked =
     (if kind_of seen (wk_glob wk \<noteq> None) (fs_stat fs (path_join dir name)) = Some Linked_Dir \<and>
         take_entry fs wk dir name seen rel states linked \<noteq> None
      then Some (path_join dir name) else None)"

section \<open>Exploring a place\<close>

definition part_entries :: nat where
  "part_entries = 8192"

text \<open>What is taken of an entry, its file made a leaf if it is kept.\<close>

definition judged ::
  "file_system \<Rightarrow> (rstr \<Rightarrow> bool) \<Rightarrow> (rstr \<Rightarrow> bool) \<Rightarrow> place \<Rightarrow> rstr \<times> seen \<Rightarrow> taken option"
where
  "judged fs keep_name keep pl entry =
     (case entry of (name, seen) \<Rightarrow>
        if name = [] \<or> (seen = Seen_File \<and> \<not> keep_name name) then None
        else (case take_entry fs (pl_walk pl) (pl_dir pl) name seen (pl_rel pl) (pl_states pl) (pl_linked pl) of
            Some (Taken_File child) \<Rightarrow> if keep child then Some (Taken_File child) else None
          | t \<Rightarrow> t))"

definition enter :: "place \<Rightarrow> rstr \<Rightarrow> rstr \<Rightarrow> nat list \<Rightarrow> bool \<Rightarrow> place" where
  "enter pl name child next linked =
     \<lparr>pl_walk = pl_walk pl, pl_dir = path_join (pl_dir pl) name, pl_rel = child, pl_states = next,
      pl_linked = linked, pl_part = None\<rparr>"

definition step_of_entry ::
  "file_system \<Rightarrow> (rstr \<Rightarrow> bool) \<Rightarrow> (rstr \<Rightarrow> bool) \<Rightarrow> (rstr \<Rightarrow> rstr \<Rightarrow> 'l) \<Rightarrow> place \<Rightarrow>
   rstr \<times> seen \<Rightarrow> (place, 'l) tree_step list"
where
  "step_of_entry fs keep_name keep leaf pl entry =
     (case judged fs keep_name keep pl entry of
        None \<Rightarrow> []
      | Some (Taken_File child) \<Rightarrow> [Leaf (leaf child (pl_dir pl))]
      | Some (Taken_Dir child next linked) \<Rightarrow> [Dir (enter pl (fst entry) child next linked)])"

text \<open>With \<open>dirs\<close> every directory taken is a leaf ahead of the rest.\<close>

definition dir_leaf ::
  "file_system \<Rightarrow> (rstr \<Rightarrow> bool) \<Rightarrow> (rstr \<Rightarrow> bool) \<Rightarrow> (rstr \<Rightarrow> rstr \<Rightarrow> 'l) \<Rightarrow> place \<Rightarrow>
   rstr \<times> seen \<Rightarrow> (place, 'l) tree_step list"
where
  "dir_leaf fs keep_name keep leaf pl entry =
     (case judged fs keep_name keep pl entry of
        Some (Taken_Dir child next linked) \<Rightarrow> [Leaf (leaf child (pl_dir pl))]
      | _ \<Rightarrow> [])"

definition judge ::
  "file_system \<Rightarrow> (rstr \<Rightarrow> bool) \<Rightarrow> (rstr \<Rightarrow> bool) \<Rightarrow> (rstr \<Rightarrow> rstr \<Rightarrow> 'l) \<Rightarrow> place \<Rightarrow>
   (rstr \<times> seen) list \<Rightarrow> (place, 'l) tree_step list"
where
  "judge fs keep_name keep leaf pl entries =
     (if wk_dirs (pl_walk pl) then concat (map (dir_leaf fs keep_name keep leaf pl) entries) else []) @
     concat (map (step_of_entry fs keep_name keep leaf pl) entries)"

definition relative :: "place \<Rightarrow> (place, 'l) tree_step list" where
  "relative pl =
     (case wk_glob (pl_walk pl) of
        None \<Rightarrow> []
      | Some g \<Rightarrow> map (\<lambda>(name, next).
          Dir (enter pl name (path_join (pl_rel pl) name) next (pl_linked pl)))
          (relative_entries g (pl_states pl)))"

definition entries_name :: "rstr \<Rightarrow> (rstr \<times> seen) list \<Rightarrow> bool" where
  "entries_name name listing \<longleftrightarrow> list_ex (\<lambda>e. fst e = name) listing"

text \<open>The frames in force in a directory: a repo's own begin with it.\<close>

definition enter_repo :: "file_system \<Rightarrow> rstr \<Rightarrow> (rstr \<times> seen) list \<Rightarrow> walker_cfg \<Rightarrow> walker_cfg" where
  "enter_repo fs dir listing wk =
     (if wk_gitignore wk \<and> entries_name git_name listing \<and> holds_git fs dir
      then wk\<lparr>wk_in_repo := True, wk_frames := []\<rparr> else wk)"

definition push_frame :: "file_system \<Rightarrow> rstr \<Rightarrow> (rstr \<times> seen) list \<Rightarrow> walker_cfg \<Rightarrow> walker_cfg" where
  "push_frame fs dir listing wk =
     (if wk_in_repo wk \<and> entries_name gitignore_name listing then
        (case frame_load fs dir of Some f \<Rightarrow> wk\<lparr>wk_frames := wk_frames wk @ [f]\<rparr> | None \<Rightarrow> wk)
      else wk)"

fun part_bounds :: "nat \<Rightarrow> nat \<Rightarrow> nat \<Rightarrow> (nat \<times> nat) list" where
  "part_bounds 0 at len = []"
| "part_bounds (Suc n) at len =
     (if at < len then (at, min len (at + part_entries)) # part_bounds n (at + part_entries) len else [])"

definition explore_place ::
  "file_system \<Rightarrow> (rstr \<Rightarrow> bool) \<Rightarrow> (rstr \<Rightarrow> bool) \<Rightarrow> (rstr \<Rightarrow> rstr \<Rightarrow> 'l) \<Rightarrow> place \<Rightarrow> (place, 'l) tree_step list"
where
  "explore_place fs keep_name keep leaf pl =
     (case pl_part pl of
        Some (listing, lo, hi) \<Rightarrow>
          judge fs keep_name keep leaf (pl\<lparr>pl_part := None\<rparr>) (drop lo (take hi listing))
      | None \<Rightarrow>
          (let listing = fs_read fs (pl_dir pl);
               wk = push_frame fs (pl_dir pl) listing (enter_repo fs (pl_dir pl) listing (pl_walk pl));
               here = pl\<lparr>pl_walk := wk\<rparr> in
           if part_entries < length listing
           then relative here @
             map (\<lambda>(lo, hi). Dir (here\<lparr>pl_part := Some (listing, lo, hi)\<rparr>))
               (part_bounds (length listing) 0 (length listing))
           else relative here @ judge fs keep_name keep leaf here listing))"

section \<open>Scans\<close>

definition walk_root :: "walker_cfg \<Rightarrow> rstr \<Rightarrow> rstr \<Rightarrow> place" where
  "walk_root wk root start_dir =
     (let rel = (case path_strip_prefix start_dir root of Some r \<Rightarrow> r | None \<Rightarrow> start_dir) in
      \<lparr>pl_walk = wk, pl_dir = start_dir, pl_rel = rel,
       pl_states = (case wk_glob wk of
           None \<Rightarrow> []
         | Some g \<Rightarrow> run_names g (glob_start g) (map (\<lambda>c. (c, Directory_Kind)) (path_components rel))),
       pl_linked = False, pl_part = None\<rparr>)"

text \<open>The leaves a walk visits; with no fuel left there is no result.\<close>

fun leaves_within :: "('d \<Rightarrow> ('d, 'l) tree_step list) \<Rightarrow> nat \<Rightarrow> ('d, 'l) tree_step list \<Rightarrow> 'l list option" where
  "leaves_within explore n [] = Some []"
| "leaves_within explore n (Leaf l # ss) = map_option ((#) l) (leaves_within explore n ss)"
| "leaves_within explore 0 (Dir d # ss) = None"
| "leaves_within explore (Suc n) (Dir d # ss) =
     Option.bind (leaves_within explore n (explore d)) (\<lambda>ls.
       map_option ((@) ls) (leaves_within explore (Suc n) ss))"

definition walk_leaves ::
  "file_system \<Rightarrow> nat \<Rightarrow> rstr \<Rightarrow> rstr \<Rightarrow> walker_cfg \<Rightarrow> (rstr \<Rightarrow> bool) \<Rightarrow> (rstr \<Rightarrow> bool) \<Rightarrow>
   (rstr \<Rightarrow> rstr \<Rightarrow> 'l) \<Rightarrow> 'l list option"
where
  "walk_leaves fs n root start_dir wk keep_name keep leaf =
     leaves_within (explore_place fs keep_name keep leaf) n
       (explore_place fs keep_name keep leaf (walk_root wk root start_dir))"

record found_file =
  ff_path :: rstr
  ff_rel_path :: rstr
  ff_table :: rstr

definition or_empty :: "rstr option \<Rightarrow> rstr" where
  "or_empty p = (case p of Some s \<Rightarrow> s | None \<Rightarrow> [])"

definition found_in :: "table_matcher \<Rightarrow> rstr \<Rightarrow> rstr \<Rightarrow> found_file list" where
  "found_in m rel dir =
     map (\<lambda>t. \<lparr>ff_path = path_join dir (or_empty (file_name rel)), ff_rel_path = rel, ff_table = t\<rparr>)
       (match_all m rel)"

definition repo_walker :: "file_system \<Rightarrow> rstr \<Rightarrow> table_matcher \<Rightarrow> path_glob \<Rightarrow> bool \<Rightarrow> walker_cfg" where
  "repo_walker fs start_dir m g gitignore =
     (let repo = (if gitignore then enclosing_repo start_dir (holds_git fs) else None) in
      \<lparr>wk_ignore = m, wk_glob = Some g, wk_gitignore = gitignore, wk_in_repo = (repo \<noteq> None),
       wk_frames = (case repo of Some repo \<Rightarrow> gitignores_above start_dir repo (frame_load fs) | None \<Rightarrow> []),
       wk_dirs = False\<rparr>)"

definition scan_below :: "file_system \<Rightarrow> nat \<Rightarrow> rstr \<Rightarrow> rstr \<Rightarrow> table_matcher \<Rightarrow> found_file list option" where
  "scan_below fs n root start_dir m =
     map_option concat (walk_leaves fs n root start_dir
       (repo_walker fs start_dir m (tm_walk m) (tm_gitignore m))
       (\<lambda>_. True) (\<lambda>rel. \<not> is_ignored m rel) (found_in m))"

definition paired :: "found_file list \<Rightarrow> (rstr \<times> rstr) list" where
  "paired files = map (\<lambda>f. (ff_path f, ff_table f)) files"

definition scan_directory :: "file_system \<Rightarrow> nat \<Rightarrow> rstr \<Rightarrow> table_matcher \<Rightarrow> (rstr \<times> rstr) list option" where
  "scan_directory fs n root m = map_option paired (scan_below fs n root root m)"

definition scan_subtree ::
  "file_system \<Rightarrow> nat \<Rightarrow> rstr \<Rightarrow> rstr \<Rightarrow> table_matcher \<Rightarrow> (rstr \<times> rstr) list option"
where
  "scan_subtree fs n root dir m = map_option paired (scan_below fs n root dir m)"

definition scan_dirs :: "file_system \<Rightarrow> nat \<Rightarrow> rstr \<Rightarrow> rstr \<Rightarrow> table_matcher \<Rightarrow> rstr list option" where
  "scan_dirs fs n root start_dir m =
     map_option ((#) start_dir) (walk_leaves fs n root start_dir
       \<lparr>wk_ignore = m, wk_glob = None, wk_gitignore = False, wk_in_repo = False, wk_frames = [],
        wk_dirs = True\<rparr>
       (\<lambda>_. True) (\<lambda>_. False) (\<lambda>rel dir. path_join dir (or_empty (file_name rel))))"

definition is_wanted :: "path_glob \<Rightarrow> table_matcher \<Rightarrow> rstr \<Rightarrow> bool" where
  "is_wanted g m rel \<longleftrightarrow> is_match g rel \<and> \<not> is_ignored m rel"

definition scan_glob ::
  "file_system \<Rightarrow> nat \<Rightarrow> rstr \<Rightarrow> path_glob \<Rightarrow> table_matcher \<Rightarrow> bool \<Rightarrow> bool \<Rightarrow> rstr list option"
where
  "scan_glob fs n root g m gitignore check_root =
     (if gitignore \<and> check_root \<and> \<not> holds_git fs root \<and> is_gitignored_path fs root True then Some []
      else walk_leaves fs n root root (repo_walker fs root m g gitignore)
        (may_match_name g) (is_wanted g m) (\<lambda>rel dir. rel))"

section \<open>What a walk visits\<close>

lemma leaves_within_append:
  "leaves_within ex n (a @ b) =
     Option.bind (leaves_within ex n a) (\<lambda>ls. map_option ((@) ls) (leaves_within ex n b))"
proof (induction ex n a rule: leaves_within.induct)
  case (1 ex n)
  show ?case by (cases "leaves_within ex n b") auto
next
  case (2 ex n l ss)
  then show ?case by (cases "leaves_within ex n ss"; cases "leaves_within ex n b") auto
next
  case (4 ex n d ss)
  then show ?case
    by (cases "leaves_within ex n (ex d)"; cases "leaves_within ex (Suc n) ss"; cases "leaves_within ex (Suc n) b")
      auto
qed auto

lemma leaves_within_yields: "leaves_within ex n ss = Some ls \<Longrightarrow> yields ex ss ls"
  by (induction ex n ss arbitrary: ls rule: leaves_within.induct)
    (auto simp: bind_eq_Some_conv intro: yields.intros)

text \<open>Judging a wide directory in parts visits what judging it whole does.\<close>

lemma leaves_parts:
  assumes "\<And>lo hi. ex (part lo hi) = concat (map f (drop lo (take hi xs)))"
  shows "length xs \<le> lo + k * part_entries \<Longrightarrow> leaves_within ex n (concat (map f (drop lo xs))) = Some ls \<Longrightarrow>
    leaves_within ex (Suc n) (map (\<lambda>(lo, hi). Dir (part lo hi)) (part_bounds k lo (length xs))) = Some ls"
proof (induction k arbitrary: lo ls)
  case (Suc k)
  show ?case
  proof (cases "lo < length xs")
    case True
    let ?hi = "min (length xs) (lo + part_entries)"
    have "drop lo xs = drop lo (take ?hi xs) @ drop (lo + part_entries) xs"
      using True by (metis (no_types, lifting) append_take_drop_id drop_drop drop_take add_diff_cancel_left'
          add.commute take_all_iff min_def nat_le_linear)
    then have "concat (map f (drop lo xs)) = ex (part lo ?hi) @ concat (map f (drop (lo + part_entries) xs))"
      using assms by simp
    then obtain us vs where uv: "leaves_within ex n (ex (part lo ?hi)) = Some us"
      "leaves_within ex n (concat (map f (drop (lo + part_entries) xs))) = Some vs" "ls = us @ vs"
      using Suc.prems(2) by (auto simp: leaves_within_append bind_eq_Some_conv)
    have "length xs \<le> lo + part_entries + k * part_entries" using Suc.prems(1) by simp
    from Suc.IH [OF this uv(2)] show ?thesis using True uv by simp
  qed (use Suc.prems(2) in simp)
qed simp

end
