(* ===== verification/Walk_Scan.thy ===== *)
theory Walk_Scan
  imports Walk
begin

text \<open>
  A scan of \<open>packages/rust/src/scanner.rs\<close> against the files of the tree: the walk is pruned by the
  globs of the tables and by the rules that ignore whole directories, and loses no file by it.
\<close>

section \<open>All files of a tree\<close>

text \<open>Every file below a directory, as its names from the root and its directory, in the order of a
  walk; none when the tree is deeper than \<open>n\<close> or holds anything but directories and files of plain
  names.\<close>

fun files_below ::
  "file_system \<Rightarrow> nat \<Rightarrow> rstr \<Rightarrow> rstr list \<Rightarrow> (rstr \<times> seen) list \<Rightarrow> (rstr list \<times> rstr) list option"
where
  "files_below fs n dir ns [] = Some []"
| "files_below fs n dir ns ((name, seen) # es) =
     (if \<not> plain_name name then None
      else if seen = Seen_File then map_option ((#) (ns @ [name], dir)) (files_below fs n dir ns es)
      else if seen = Seen_Dir \<and> n \<noteq> 0 then
        Option.bind
          (files_below fs (n - 1) (path_join dir name) (ns @ [name]) (fs_read fs (path_join dir name)))
          (\<lambda>ls. map_option ((@) ls) (files_below fs n dir ns es))
      else None)"

abbreviation slashed :: "rstr list \<Rightarrow> rstr" where
  "slashed ns \<equiv> join [c_slash] ns"

text \<open>
  The \<open>.gitignore\<close> files in force in a directory, when the matcher respects them: those of the innermost
  repository around it, from the repository's top down to the directory. What is known of a directory is whether it is
  in a repository and the frames in force.
\<close>

type_synonym repo_state = "bool \<times> frame list"

definition frames_above :: "file_system \<Rightarrow> table_matcher \<Rightarrow> rstr \<Rightarrow> repo_state" where
  "frames_above fs m root =
     (case if tm_gitignore m then enclosing_repo root (holds_git fs) else None of
        Some repo \<Rightarrow> (True, gitignores_above root repo (frame_load fs))
      | None \<Rightarrow> (False, []))"

definition in_force :: "file_system \<Rightarrow> table_matcher \<Rightarrow> rstr \<Rightarrow> repo_state \<Rightarrow> repo_state" where
  "in_force fs m dir st =
     (if \<not> tm_gitignore m then st
      else (case (if holds_git fs dir then (True, []) else st) of (inside, frames) \<Rightarrow>
        (inside, frames @ (if inside then (case frame_load fs dir of Some f \<Rightarrow> [f] | None \<Rightarrow> []) else []))))"

text \<open>A path below a directory is hidden when the frames in force where it, or a directory above it, stands ignore that;
  a glob that names the entry outright overrides them.\<close>

fun hidden_in :: "file_system \<Rightarrow> table_matcher \<Rightarrow> rstr \<Rightarrow> repo_state \<Rightarrow> rstr list \<Rightarrow> rstr list \<Rightarrow> bool" where
  "hidden_in fs m dir st ns [] = False"
| "hidden_in fs m dir st ns (n # names) =
     ((\<not> glob_names (tm_walk m) (slashed (ns @ [n])) \<and> is_gitignored (snd st) (path_join dir n) (names \<noteq> [])) \<or>
      hidden_in fs m (path_join dir n) (in_force fs m (path_join dir n) st) (ns @ [n]) names)"

definition gitignored :: "file_system \<Rightarrow> table_matcher \<Rightarrow> rstr \<Rightarrow> rstr list \<Rightarrow> bool" where
  "gitignored fs m root ns = hidden_in fs m root (in_force fs m root (frames_above fs m root)) [] ns"

text \<open>The files a scan is to report: each that no rule and no \<open>.gitignore\<close> ignores, once for each table it is in.\<close>

definition wanted :: "file_system \<Rightarrow> table_matcher \<Rightarrow> rstr \<Rightarrow> (rstr list \<times> rstr) list \<Rightarrow> found_file list" where
  "wanted fs m root files =
     concat (map (\<lambda>(ns, dir).
       if is_ignored m (slashed ns) \<or> gitignored fs m root ns then [] else found_in m (slashed ns) dir) files)"

text \<open>The entries of a directory name its \<open>.git\<close> and its \<open>.gitignore\<close>, if it has them.\<close>

definition lists_all :: "file_system \<Rightarrow> bool" where
  "lists_all fs \<longleftrightarrow>
     (\<forall>dir. (holds_git fs dir \<longrightarrow> entries_name git_name (fs_read fs dir)) \<and>
        (frame_load fs dir \<noteq> None \<longrightarrow> entries_name gitignore_name (fs_read fs dir)))"

text \<open>What is known of the compiled patterns: a word that matches a path of names none of which is
  dot-named matches it component by component, and a file below an ignored directory is ignored.\<close>

definition by_components :: "engines \<Rightarrow> rstr list \<Rightarrow> bool" where
  "by_components en patterns \<longleftrightarrow>
     (\<forall>w\<in>set (glob_words patterns). \<forall>p ns. pattern_new en w = Some p \<longrightarrow> list_all plain_name ns \<longrightarrow>
        \<not> list_ex is_dot_named ns \<longrightarrow> pattern_is_match p (slashed ns) \<longrightarrow>
        (\<exists>cs. compile_components en w = Some cs \<and> consumes True cs (map (\<lambda>n. (n, Directory_Kind)) ns)))"

definition ignores_below :: "table_matcher \<Rightarrow> bool" where
  "ignores_below m \<longleftrightarrow>
     (\<forall>ns n ms. is_ignored_dir m (slashed ns) \<longrightarrow> is_ignored m (slashed (ns @ n # ms)))"

abbreviation dirs_of :: "rstr list \<Rightarrow> (rstr \<times> kind) list" where
  "dirs_of ns \<equiv> map (\<lambda>n. (n, Directory_Kind)) ns"

lemma files_below_names:
  "files_below fs n dir ns es = Some files \<Longrightarrow> list_all plain_name ns \<Longrightarrow> (us, d) \<in> set files \<Longrightarrow>
   \<exists>x xs. us = ns @ x # xs \<and> list_all plain_name us"
proof (induction fs n dir ns es arbitrary: files rule: files_below.induct)
  case (2 fs n dir ns name seen es)
  have name: "plain_name name" using "2.prems"(1) by (simp split: if_splits)
  show ?case
  proof (cases "seen = Seen_File")
    case True
    then show ?thesis using 2 name by auto
  next
    case False
    then have dir: "seen = Seen_Dir \<and> n \<noteq> 0" using "2.prems"(1) name by (simp split: if_splits)
    obtain a b where ab: "files_below fs (n - 1) (path_join dir name) (ns @ [name]) (fs_read fs (path_join dir name)) = Some a"
      "files_below fs n dir ns es = Some b" "files = a @ b"
      using "2.prems"(1) name False dir by (auto simp: bind_eq_Some_conv)
    show ?thesis
    proof (cases "(us, d) \<in> set a")
      case True
      have "\<exists>x xs. us = (ns @ [name]) @ x # xs \<and> list_all plain_name us"
        using "2.IH"(2) [OF _ False dir ab(1) _ True] name "2.prems"(2) by simp
      then show ?thesis by auto
    next
      case False': False
      then show ?thesis using "2.IH"(3) [OF _ False dir ab(1,2)] ab(3) "2.prems"(2,3) name by auto
    qed
  qed
qed simp

lemma run_names_snoc: "run_names g st (ns @ [(n, k)]) = glob_step g (run_names g st ns) n k"
  by (simp add: run_names_def)

lemma glob_step_file: "glob_step g st n File = glob_step g st n Directory_Kind"
proof -
  have "next_of g n File = next_of g n Directory_Kind"
    by (rule ext) (simp add: next_of_def cong: option.case_cong component.case_cong)
  then show ?thesis by (simp add: glob_step_def)
qed

section \<open>Pruning loses no file of a table\<close>

text \<open>What the patterns of a matcher are known to satisfy, and no word spelling a \<open>.\<close> or \<open>..\<close>. The matcher may
  respect \<open>.gitignore\<close>, as it does unless a build is told not to, or not.\<close>

definition table_laws :: "engines \<Rightarrow> (rstr \<times> rstr) list \<Rightarrow> rstr list \<Rightarrow> table_matcher \<Rightarrow> bool" where
  "table_laws en mappings ignores m \<longleftrightarrow>
     matcher_new en mappings ignores = Some (m\<lparr>tm_gitignore := False\<rparr>) \<and> by_components en (map fst mappings) \<and>
     ignores_below m \<and> \<not> pg_spells_relative (tm_walk m)"

abbreviation states_at :: "table_matcher \<Rightarrow> rstr list \<Rightarrow> nat list" where
  "states_at m ns \<equiv> run_names (tm_walk m) (glob_start (tm_walk m)) (dirs_of ns)"

lemma walk_compiled: "table_laws en mappings ignores m \<Longrightarrow> compile_globs en (map fst mappings) = Some (tm_walk m)"
  by (cases m) (auto simp: table_laws_def matcher_new_def bind_eq_Some_conv)

lemma entry_compiled:
  assumes laws: "table_laws en mappings ignores m" and gt: "(g, t) \<in> set (tm_entries m)"
  shows "\<exists>p. p \<in> set (map fst mappings) \<and> compile_globs en [p] = Some g"
proof -
  have "map (\<lambda>(p, t). map_option (\<lambda>g. (g, t)) (compile_glob en p)) mappings = map Some (tm_entries m)"
    using laws by (cases m) (auto simp: table_laws_def matcher_new_def bind_eq_Some_conv collect_Some_iff)
  then have "Some (g, t) \<in> set (map (\<lambda>(p, t). map_option (\<lambda>g. (g, t)) (compile_glob en p)) mappings)"
    using gt by simp
  then obtain p t' where "(p, t') \<in> set mappings" "Some (g, t) = map_option (\<lambda>g. (g, t')) (compile_glob en p)"
    by auto
  then have "compile_globs en [p] = Some g" "p \<in> set (map fst mappings)"
    by (cases "compile_glob en p"; force simp: compile_glob_def)+
  then show ?thesis by blast
qed

lemma globs_take_mono:
  "p \<in> set patterns \<Longrightarrow> globs_take h en [p] ns \<Longrightarrow> globs_take h en patterns ns"
  by (auto simp: globs_take_def list_ex_iff glob_words_def)

text \<open>A file in some table is followed by the words of all tables, name by name.\<close>

lemma match_follows:
  assumes laws: "table_laws en mappings ignores m" and match: "match_all m (slashed ns) \<noteq> []" and plain: "list_all plain_name ns"
  shows "\<exists>h. globs_take h en (map fst mappings) (dirs_of ns)"
    "list_ex is_dot_named ns \<Longrightarrow> globs_take False en (map fst mappings) (dirs_of ns)"
proof -
  obtain g t where gt: "(g, t) \<in> set (tm_entries m)" "is_match_unhidden g (slashed ns)"
    using match by (auto simp: match_all_def filter_empty_conv)
  obtain p where p: "p \<in> set (map fst mappings)" "compile_globs en [p] = Some g"
    using entry_compiled [OF laws gt(1)] by blast
  have names: "path_components (slashed ns) = ns" by (rule path_components_join [OF plain])
  show dots: "globs_take False en (map fst mappings) (dirs_of ns)" if "list_ex is_dot_named ns"
  proof -
    have "run_names g (glob_start g) (dirs_of ns) \<noteq> []"
      using gt(2) that
      by (auto simp: is_match_unhidden_def names spells_dot_names_of_def run_names_def foldl_map)
    then have "globs_take False en [p] (dirs_of ns)"
      using run_globs(1) [OF p(2), of False "dirs_of ns" "[]"] by (simp add: consumed_part_Nil)
    then show ?thesis by (rule globs_take_mono [OF p(1)])
  qed
  show "\<exists>h. globs_take h en (map fst mappings) (dirs_of ns)"
  proof (cases "list_ex is_dot_named ns")
    case False
    obtain w q where w: "w \<in> set (glob_words [p])" "pattern_new en w = Some q" "pattern_is_match q (slashed ns)"
      using gt(2) compile_globs_facts(4) [OF p(2)] by (auto simp: is_match_unhidden_def)
    have "w \<in> set (glob_words (map fst mappings))" using w(1) p(1) by (auto simp: glob_words_def)
    then obtain cs where "compile_components en w = Some cs" "consumes True cs (dirs_of ns)"
      using laws w(2,3) plain False unfolding table_laws_def by_components_def by blast
    then have "globs_take True en [p] (dirs_of ns)"
      using w(1) unfolding globs_take_def list_ex_iff by (intro bexI [of _ w]) simp_all
    then show ?thesis using globs_take_mono [OF p(1)] by blast
  qed (use dots in blast)
qed

lemma match_reaches:
  assumes laws: "table_laws en mappings ignores m" and "match_all m (slashed (us @ x # xs)) \<noteq> []" "list_all plain_name (us @ x # xs)"
  shows "reaches (tm_walk m) (states_at m us) Directory_Kind"
proof -
  obtain h where "globs_take h en (map fst mappings) (dirs_of us @ (x, Directory_Kind) # dirs_of xs)"
    using match_follows(1) [OF assms] by auto
  then have "consumed_from h (tm_walk m) (states_at m us) ((x, Directory_Kind) # dirs_of xs)"
    using run_globs(1) [OF walk_compiled [OF laws]] by simp
  then show ?thesis
    using consumed_not_all_end [OF run_globs(2) [OF walk_compiled [OF laws]]] by blast
qed

lemma match_spelled:
  assumes laws: "table_laws en mappings ignores m" and "match_all m (slashed us) \<noteq> []" "list_all plain_name us" "list_ex is_dot_named us"
  shows "states_at m us \<noteq> []"
  using match_follows(2) [OF assms] run_globs(1) [OF walk_compiled [OF laws], of False "dirs_of us" "[]"]
  by (simp add: consumed_part_Nil)

definition cfg :: "table_matcher \<Rightarrow> repo_state \<Rightarrow> walker_cfg" where
  "cfg m st = \<lparr>wk_ignore = m, wk_glob = Some (tm_walk m), wk_gitignore = tm_gitignore m, wk_in_repo = fst st,
     wk_frames = snd st, wk_dirs = False\<rparr>"

definition at_place :: "table_matcher \<Rightarrow> rstr \<Rightarrow> rstr list \<Rightarrow> repo_state \<Rightarrow> place" where
  "at_place m dir ns st = \<lparr>pl_walk = cfg m st, pl_dir = dir, pl_rel = slashed ns, pl_states = states_at m ns,
     pl_linked = False, pl_part = None\<rparr>"

abbreviation entry_steps ::
  "table_matcher \<Rightarrow> file_system \<Rightarrow> rstr \<Rightarrow> rstr list \<Rightarrow> repo_state \<Rightarrow> (rstr \<times> seen) list \<Rightarrow>
   (place, found_file list) tree_step list"
where
  "entry_steps m fs dir ns st es \<equiv>
     concat (map (step_of_entry fs (\<lambda>_. True) (\<lambda>rel. \<not> is_ignored m rel) (found_in m) (at_place m dir ns st)) es)"

abbreviation explored :: "table_matcher \<Rightarrow> file_system \<Rightarrow> place \<Rightarrow> (place, found_file list) tree_step list" where
  "explored m fs \<equiv> explore_place fs (\<lambda>_. True) (\<lambda>rel. \<not> is_ignored m rel) (found_in m)"

text \<open>Without \<open>.gitignore\<close> no frame is ever in force.\<close>

definition state_ok :: "table_matcher \<Rightarrow> repo_state \<Rightarrow> bool" where
  "state_ok m st \<longleftrightarrow> tm_gitignore m \<or> st = (False, [])"

lemma state_ok_in_force: "state_ok m st \<Longrightarrow> state_ok m (in_force fs m dir st)"
  by (auto simp: state_ok_def in_force_def)

lemma state_ok_above: "state_ok m (frames_above fs m root)"
  by (simp add: state_ok_def frames_above_def)

text \<open>Looking for a directory's own \<open>.git\<close> and \<open>.gitignore\<close> among its entries first misses neither.\<close>

lemma cfg_in_force:
  assumes "lists_all fs" "state_ok m st"
  shows "push_frame fs dir (fs_read fs dir) (enter_repo fs dir (fs_read fs dir) (cfg m st)) = cfg m (in_force fs m dir st)"
proof (cases "tm_gitignore m")
  case False
  then show ?thesis using assms(2)
    by (simp add: state_ok_def push_frame_def enter_repo_def cfg_def in_force_def)
next
  case True
  have names: "holds_git fs dir \<Longrightarrow> entries_name git_name (fs_read fs dir)"
    "frame_load fs dir \<noteq> None \<Longrightarrow> entries_name gitignore_name (fs_read fs dir)"
    using assms(1) by (auto simp: lists_all_def)
  show ?thesis
    using names by (cases "holds_git fs dir"; cases "frame_load fs dir"; cases st)
      (simp_all add: True push_frame_def enter_repo_def cfg_def in_force_def)
qed

definition hides :: "table_matcher \<Rightarrow> repo_state \<Rightarrow> rstr \<Rightarrow> rstr list \<Rightarrow> rstr \<Rightarrow> bool \<Rightarrow> bool" where
  "hides m st dir ns n is_dir \<longleftrightarrow>
     \<not> glob_names (tm_walk m) (slashed (ns @ [n])) \<and> is_gitignored (snd st) (path_join dir n) is_dir"

lemma admits_frames:
  "wk_frames wk = [] \<or> P \<or> \<not> is_gitignored (wk_frames wk) (if wk_frames wk = [] then [] else p) d \<longleftrightarrow>
   P \<or> \<not> is_gitignored (wk_frames wk) p d"
  by (auto simp: is_gitignored_def)

lemma take_file:
  assumes "list_all plain_name (ns @ [n])"
  shows "take_entry fs (cfg m st) dir n Seen_File (slashed ns) (states_at m ns) False =
    (if (is_dot_named n \<and> states_at m (ns @ [n]) = []) \<or> hides m st dir ns n False then None
     else Some (Taken_File (slashed (ns @ [n]))))"
  using assms path_join_plain [of ns n] admits_frames [of "cfg m st"]
  by (auto simp: take_entry_def Let_def cfg_def follows_def admits_name_def admits_def should_descend_def hides_def
      next_states_def glob_step_file run_names_snoc child_path_def path_join_def [of "[]"] is_gitignored_def)

lemma take_dir_entry:
  assumes "list_all plain_name (ns @ [n])"
  shows "take_entry fs (cfg m st) dir n Seen_Dir (slashed ns) (states_at m ns) False =
    (if (has_components (tm_walk m) \<and> \<not> reaches (tm_walk m) (states_at m (ns @ [n])) Directory_Kind) \<or>
        (is_dot_named n \<and> states_at m (ns @ [n]) = []) \<or> is_ignored_dir m (slashed (ns @ [n])) \<or> hides m st dir ns n True
     then None else Some (Taken_Dir (slashed (ns @ [n])) (states_at m (ns @ [n])) False))"
  using assms path_join_plain [of ns n]
  by (auto simp: take_entry_def Let_def cfg_def follows_def admits_name_def admits_def should_descend_def hides_def
      next_states_def run_names_snoc child_path_def path_join_def [of "[]"] is_gitignored_def)

lemma explore_here:
  assumes laws: "table_laws en mappings ignores m" and fs: "lists_all fs" "state_ok m st"
  shows "explored m fs (at_place m dir ns st) =
     (let listing = fs_read fs dir; st = in_force fs m dir st in
      if part_entries < length listing
      then map (\<lambda>(lo, hi). Dir ((at_place m dir ns st)\<lparr>pl_part := Some (listing, lo, hi)\<rparr>))
        (part_bounds (length listing) 0 (length listing))
      else entry_steps m fs dir ns st listing)"
proof -
  have "\<not> pg_spells_relative (tm_walk m)" using laws by (simp add: table_laws_def)
  then have rel: "relative (at_place m dir ns st') = []" for st'
    by (simp add: relative_def at_place_def cfg_def relative_entries_def)
  have here: "(at_place m dir ns st)\<lparr>pl_walk := cfg m st'\<rparr> = at_place m dir ns st'" for st'
    by (simp add: at_place_def)
  have part: "pl_part (at_place m dir ns st) = None" "pl_dir (at_place m dir ns st) = dir" "pl_walk (at_place m dir ns st) = cfg m st"
    by (simp_all add: at_place_def)
  have judge: "judge fs (\<lambda>_. True) (\<lambda>rel. \<not> is_ignored m rel) (found_in m) (at_place m dir ns st') es = entry_steps m fs dir ns st' es" for st' es
    by (simp add: judge_def at_place_def cfg_def)
  show ?thesis
    by (simp add: explore_place_def part Let_def cfg_in_force [OF fs] here rel judge)
qed

lemma explore_part:
  "explored m fs ((at_place m dir ns st)\<lparr>pl_part := Some (listing, lo, hi)\<rparr>) =
     entry_steps m fs dir ns st (drop lo (take hi listing))"
  by (simp add: explore_place_def at_place_def cfg_def judge_def)

text \<open>The wanted files below a directory, judged from there.\<close>

definition wanted_in ::
  "file_system \<Rightarrow> table_matcher \<Rightarrow> rstr \<Rightarrow> repo_state \<Rightarrow> rstr list \<Rightarrow> (rstr list \<times> rstr) list \<Rightarrow> found_file list"
where
  "wanted_in fs m dir st ns files =
     concat (map (\<lambda>(us, d).
       if is_ignored m (slashed us) \<or> hidden_in fs m dir st ns (drop (length ns) us) then []
       else found_in m (slashed us) d) files)"

lemma wanted_from_root: "wanted fs m root files = wanted_in fs m root (in_force fs m root (frames_above fs m root)) [] files"
  by (simp add: wanted_def wanted_in_def gitignored_def)

lemma wanted_append: "wanted_in fs m dir st ns (a @ b) = wanted_in fs m dir st ns a @ wanted_in fs m dir st ns b"
  by (simp add: wanted_in_def)

lemma wanted_Nil:
  "(\<And>us d. (us, d) \<in> set files \<Longrightarrow>
      is_ignored m (slashed us) \<or> hidden_in fs m dir st ns (drop (length ns) us) \<or> match_all m (slashed us) = []) \<Longrightarrow>
   wanted_in fs m dir st ns files = []"
proof (induction files)
  case (Cons u files)
  obtain us d where u: "u = (us, d)" by (cases u)
  have "wanted_in fs m dir st ns files = []"
  proof (rule Cons.IH)
    fix us d assume "(us, d) \<in> set files"
    then show "is_ignored m (slashed us) \<or> hidden_in fs m dir st ns (drop (length ns) us) \<or> match_all m (slashed us) = []"
      by (intro Cons.prems [of us d]) simp
  qed
  then show ?case using Cons.prems [of us d] by (auto simp: wanted_in_def found_in_def u)
qed (simp add: wanted_in_def)

lemma skipped_dir:
  assumes laws: "table_laws en mappings ignores m" and plain: "list_all plain_name (ns @ [n])"
    and files: "files_below fs k dir' (ns @ [n]) es = Some files"
    and skipped: "take_entry fs (cfg m st) dir n Seen_Dir (slashed ns) (states_at m ns) False = None"
  shows "wanted_in fs m dir st ns files = []"
proof (rule wanted_Nil)
  fix us d' assume "(us, d') \<in> set files"
  then obtain x xs where us: "us = (ns @ [n]) @ x # xs" "list_all plain_name us"
    using files_below_names [OF files plain] by blast
  consider "is_ignored_dir m (slashed (ns @ [n]))" | "\<not> reaches (tm_walk m) (states_at m (ns @ [n])) Directory_Kind"
    | "hides m st dir ns n True"
    using skipped unfolding take_dir_entry [OF plain] by (auto simp: reaches_def split: if_splits)
  then show "is_ignored m (slashed us) \<or> hidden_in fs m dir st ns (drop (length ns) us) \<or> match_all m (slashed us) = []"
  proof cases
    case 1
    then show ?thesis using laws us(1) unfolding table_laws_def ignores_below_def by blast
  next
    case 2
    then show ?thesis using match_reaches [OF laws, of "ns @ [n]" x xs] us by auto
  next
    case 3
    then show ?thesis by (simp add: us(1) hides_def)
  qed
qed

lemma entered_dir:
  assumes files: "files_below fs k (path_join dir n) (ns @ [n]) es = Some files" and plain: "list_all plain_name (ns @ [n])"
    and "\<not> hides m st dir ns n True"
  shows "wanted_in fs m dir st ns files =
    wanted_in fs m (path_join dir n) (in_force fs m (path_join dir n) st) (ns @ [n]) files"
proof -
  have "hidden_in fs m dir st ns (drop (length ns) us) \<longleftrightarrow>
      hidden_in fs m (path_join dir n) (in_force fs m (path_join dir n) st) (ns @ [n]) (drop (length (ns @ [n])) us)"
    if us: "(us, d) \<in> set files" for us d
  proof -
    obtain x xs where "us = (ns @ [n]) @ x # xs" using files_below_names [OF files plain us] by blast
    then show ?thesis using assms(3) unfolding hides_def by auto
  qed
  then show ?thesis unfolding wanted_in_def
    by (intro arg_cong [of _ _ concat] map_cong) (auto split: prod.splits)
qed

text \<open>The entries of a directory, files and directories, give the wanted files below it.\<close>

lemma explored_leaves:
  assumes laws: "table_laws en mappings ignores m" and fs: "lists_all fs" "state_ok m st"
    and leaves: "leaves_within (explored m fs) f (entry_steps m fs dir ns (in_force fs m dir st) (fs_read fs dir)) = Some ls"
  shows "leaves_within (explored m fs) (Suc f) (explored m fs (at_place m dir ns st)) = Some ls \<or>
    (leaves_within (explored m fs) f (explored m fs (at_place m dir ns st)) = Some ls)"
proof -
  let ?es = "fs_read fs dir"
  show ?thesis
  proof (cases "part_entries < length ?es")
    case True
    have "length ?es \<le> 0 + length ?es * part_entries" by (simp add: part_entries_def)
    from leaves_parts [of "explored m fs" "\<lambda>lo hi. (at_place m dir ns (in_force fs m dir st))\<lparr>pl_part := Some (?es, lo, hi)\<rparr>", OF explore_part this]
    show ?thesis using leaves True by (simp add: explore_here [OF laws fs] Let_def)
  next
    case False
    then show ?thesis using leaves by (simp add: explore_here [OF laws fs] Let_def)
  qed
qed

lemma leaves_within_more:
  "leaves_within ex n ss = Some ls \<Longrightarrow> n \<le> k \<Longrightarrow> leaves_within ex k ss = Some ls"
proof (induction ex n ss arbitrary: ls k rule: leaves_within.induct)
  case (2 ex n l ss)
  obtain us where us: "leaves_within ex n ss = Some us" "ls = l # us" using "2.prems"(1) by auto
  show ?case using "2.IH" [OF us(1) "2.prems"(2)] us(2) by simp
next
  case (4 ex n d ss)
  obtain us vs where uv: "leaves_within ex n (ex d) = Some us" "leaves_within ex (Suc n) ss = Some vs" "ls = us @ vs"
    using "4.prems"(1) by (auto simp: bind_eq_Some_conv)
  obtain j where k: "k = Suc j" "n \<le> j" using "4.prems"(2) by (cases k) auto
  show ?case using "4.IH"(1) [OF uv(1) k(2)] "4.IH"(2) [OF uv(1,2)] "4.prems"(2) uv(3) k(1) by simp
qed simp_all

lemma entries_leaves:
  assumes laws: "table_laws en mappings ignores m"
  shows "files_below fs n dir ns es = Some files \<Longrightarrow> list_all plain_name ns \<Longrightarrow> lists_all fs \<Longrightarrow> state_ok m st \<Longrightarrow>
    \<exists>ls. leaves_within (explored m fs) (2 * n) (entry_steps m fs dir ns st es) = Some ls \<and>
      concat ls = wanted_in fs m dir st ns files"
proof (induction fs n dir ns es arbitrary: files st rule: files_below.induct)
  case (1 fs n dir ns)
  then show ?case by (simp add: wanted_in_def)
next
  case (2 fs n dir ns name seen es)
  have name: "plain_name name" using "2.prems"(1) by (simp split: if_splits)
  have plain: "list_all plain_name (ns @ [name])" "name \<noteq> []"
    using "2.prems"(2) name by (simp, simp add: plain_name_def)
  have steps: "entry_steps m fs dir ns st ((name, seen) # es) =
      step_of_entry fs (\<lambda>_. True) (\<lambda>rel. \<not> is_ignored m rel) (found_in m) (at_place m dir ns st) (name, seen) @
      entry_steps m fs dir ns st es"
    by simp
  show ?case
  proof (cases "seen = Seen_File")
    case True
    then obtain rest where rest: "files_below fs n dir ns es = Some rest" "files = (ns @ [name], dir) # rest"
      using "2.prems"(1) name by auto
    obtain ls where ls: "leaves_within (explored m fs) (2 * n) (entry_steps m fs dir ns st es) = Some ls"
      "concat ls = wanted_in fs m dir st ns rest"
      using "2.IH"(1) [OF _ True rest(1) "2.prems"(2-4)] name by auto
    let ?here = "step_of_entry fs (\<lambda>_. True) (\<lambda>rel. \<not> is_ignored m rel) (found_in m) (at_place m dir ns st) (name, seen)"
    have "\<exists>us. leaves_within (explored m fs) (2 * n) ?here = Some us \<and> concat us = wanted_in fs m dir st ns [(ns @ [name], dir)]"
    proof (cases "is_dot_named name \<and> states_at m (ns @ [name]) = [] \<or> hides m st dir ns name False")
      case False
      then show ?thesis
        using True plain(2)
        by (auto simp: step_of_entry_def judged_def at_place_def take_file [OF plain(1)] wanted_in_def hides_def)
    next
      case True': True
      then have "match_all m (slashed (ns @ [name])) = [] \<or> hides m st dir ns name False"
        using match_spelled [OF laws _ plain(1)] by auto
      then show ?thesis
        using True True' plain(2)
        by (auto simp: step_of_entry_def judged_def at_place_def take_file [OF plain(1)] wanted_in_def found_in_def hides_def)
    qed
    then obtain us where "leaves_within (explored m fs) (2 * n) ?here = Some us"
      "concat us = wanted_in fs m dir st ns [(ns @ [name], dir)]" by blast
    then show ?thesis
      using ls wanted_append [of fs m dir st ns "[(ns @ [name], dir)]" rest] unfolding steps rest(2)
      by (intro exI [of _ "us @ ls"]) (simp add: leaves_within_append)
  next
    case False
    then have dir: "seen = Seen_Dir \<and> n \<noteq> 0" using "2.prems"(1) name by (simp split: if_splits)
    let ?sub = "path_join dir name"
    obtain a rest where ab: "files_below fs (n - 1) ?sub (ns @ [name]) (fs_read fs ?sub) = Some a"
      "files_below fs n dir ns es = Some rest" "files = a @ rest"
      using "2.prems"(1) name False dir by (auto simp: bind_eq_Some_conv)
    obtain ls where ls: "leaves_within (explored m fs) (2 * n) (entry_steps m fs dir ns st es) = Some ls"
      "concat ls = wanted_in fs m dir st ns rest"
      using "2.IH"(3) [OF _ False dir ab(1,2) "2.prems"(2-4)] name by auto
    let ?here = "step_of_entry fs (\<lambda>_. True) (\<lambda>rel. \<not> is_ignored m rel) (found_in m) (at_place m dir ns st) (name, seen)"
    have "\<exists>us. leaves_within (explored m fs) (2 * n) ?here = Some us \<and> concat us = wanted_in fs m dir st ns a"
    proof (cases "take_entry fs (cfg m st) dir name Seen_Dir (slashed ns) (states_at m ns) False")
      case None
      then have "?here = []" using dir by (simp add: step_of_entry_def judged_def at_place_def)
      then show ?thesis using skipped_dir [OF laws plain(1) ab(1) None] by simp
    next
      case (Some t)
      then have t: "t = Taken_Dir (slashed (ns @ [name])) (states_at m (ns @ [name])) False"
        unfolding take_dir_entry [OF plain(1)] by (simp split: if_splits)
      have here: "?here = [Dir (at_place m ?sub (ns @ [name]) st)]"
        using Some t dir plain(2) by (simp add: step_of_entry_def judged_def at_place_def enter_def)
      let ?st = "in_force fs m ?sub st"
      obtain us where us: "leaves_within (explored m fs) (2 * (n - 1)) (entry_steps m fs ?sub (ns @ [name]) ?st (fs_read fs ?sub)) = Some us"
        "concat us = wanted_in fs m ?sub ?st (ns @ [name]) a"
        using "2.IH"(2) [OF _ False dir ab(1) plain(1) "2.prems"(3) state_ok_in_force [OF "2.prems"(4)]] name by auto
      have "\<not> hides m st dir ns name True" using Some unfolding take_dir_entry [OF plain(1)] by (simp split: if_splits)
      from entered_dir [OF ab(1) plain(1) this] have "concat us = wanted_in fs m dir st ns a" using us(2) by simp
      note us = us(1) this
      obtain k where k: "2 * n = Suc (Suc k)" "k = 2 * (n - 1)" using dir by (cases n) auto
      have "leaves_within (explored m fs) (Suc k) (explored m fs (at_place m ?sub (ns @ [name]) st)) = Some us"
        using explored_leaves [OF laws "2.prems"(3,4) us(1)] leaves_within_more k(2) by (metis le_SucI order_refl)
      then show ?thesis using us(2) by (intro exI [of _ us]) (simp add: here k(1))
    qed
    then obtain us where "leaves_within (explored m fs) (2 * n) ?here = Some us" "concat us = wanted_in fs m dir st ns a"
      by blast
    then show ?thesis
      using ls wanted_append [of fs m dir st ns a rest] unfolding steps ab(3)
      by (intro exI [of _ "us @ ls"]) (simp add: leaves_within_append)
  qed
qed

section \<open>Properties\<close>

text \<open>C4: a scan finds every file of a table and no other. Over a tree of regular files and
  directories of plain names, no more than \<open>n\<close> deep, the pruned walk, which enters a directory only
  while a glob can still reach into it and neither a rule nor a \<open>.gitignore\<close> ignores it whole, reports exactly what
  judging every file of the tree one by one reports, in the same order, wide directories read in parts
  included. When the matcher respects \<open>.gitignore\<close>, which is the default of a build, a file is judged by the
  \<open>.gitignore\<close> files in force in the directory of each of its names, nested repositories starting afresh.\<close>

theorem scan_finds_all:
  assumes "table_laws en mappings ignores m" "lists_all fs" "files_below fs n root [] (fs_read fs root) = Some files"
  shows "scan_below fs (Suc (2 * n)) root root m = Some (wanted fs m root files)"
proof -
  let ?st = "frames_above fs m root"
  obtain ls where ls: "leaves_within (explored m fs) (2 * n) (entry_steps m fs root [] (in_force fs m root ?st) (fs_read fs root)) = Some ls"
    "concat ls = wanted fs m root files"
    using entries_leaves [OF assms(1,3) _ assms(2) state_ok_in_force [OF state_ok_above [of m fs root], of fs root]]
    unfolding wanted_from_root by auto
  have "path_strip_prefix root root = Some []"
    by (simp add: path_strip_prefix_def strip_prefix_def from_components_def)
  moreover have "repo_walker fs root m (tm_walk m) (tm_gitignore m) = cfg m ?st"
    by (auto simp: repo_walker_def cfg_def frames_above_def split: option.splits)
  ultimately have "walk_root (repo_walker fs root m (tm_walk m) (tm_gitignore m)) root root = at_place m root [] ?st"
    by (simp add: walk_root_def at_place_def) (simp add: cfg_def path_components_def)
  then show ?thesis
    using explored_leaves [OF assms(1,2) state_ok_above ls(1)] leaves_within_more [of "explored m fs" "2 * n" _ ls "Suc (2 * n)"] ls(2)
    by (auto simp: scan_below_def walk_leaves_def)
qed

text \<open>Engines that read \<open>d/**\<close> as what lies below \<open>d\<close>, \<open>**\<close> as any path and the rest as itself.\<close>

definition below_regex :: "rstr \<Rightarrow> rstr \<Rightarrow> bool" where
  "below_regex r s \<longleftrightarrow>
     (case strip_suffix any_depth_suffix r of
        Some d \<Rightarrow> prefix (d @ [c_slash]) s
      | None \<Rightarrow> if r = [c_star, c_star] then s \<noteq> [] else s = r)"

definition below_engines :: engines where
  "below_engines = \<lparr>globset = Some, regex = \<lambda>r. Some (below_regex r)\<rparr>"

text \<open>A repository that ignores the file \<open>s/k\<close> and the directory \<open>g\<close>.\<close>

definition small_frame :: frame where
  "small_frame =
     (let rule = (\<lambda>p is_dir. if p = ascii ''/r/s/k'' \<or> (p = ascii ''/r/g'' \<and> is_dir) then Match_Ignore else Match_None) in
      \<lparr>fr_matched = rule, fr_matched_or_parents = rule\<rparr>)"

definition small_tree :: file_system where
  "small_tree = \<lparr>
     fs_read = \<lambda>dir.
       if dir = ascii ''/r'' \<or> dir = ascii ''/r/'' then
         [(git_name, Seen_Dir), (gitignore_name, Seen_File), (ascii ''b'', Seen_Dir), (ascii ''g'', Seen_Dir),
          (ascii ''s'', Seen_Dir), (ascii ''x'', Seen_File)]
       else if dir = ascii ''/r/b'' then [(ascii ''o'', Seen_File)]
       else if dir = ascii ''/r/g'' then [(ascii ''j'', Seen_File)]
       else if dir = ascii ''/r/s'' then [(ascii ''k'', Seen_File), (ascii ''m'', Seen_File)] else [],
     fs_stat = \<lambda>p follow. if p = ascii ''/r/.gitignore''
       then Some \<lparr>st_is_link = False, st_is_dir = False, st_is_file = True\<rparr> else None,
     fs_exists = \<lambda>p. p = ascii ''/r/.git'',
     fs_gitignore = \<lambda>dir. if dir = ascii ''/r'' then Some small_frame else None\<rparr>"

lemma small_files:
  "files_below small_tree 1 (ascii ''/r'') [] (fs_read small_tree (ascii ''/r'')) =
     Some [([gitignore_name], ascii ''/r''), ([ascii ''b'', ascii ''o''], ascii ''/r/b''), ([ascii ''g'', ascii ''j''], ascii ''/r/g''),
       ([ascii ''s'', ascii ''k''], ascii ''/r/s''), ([ascii ''s'', ascii ''m''], ascii ''/r/s''), ([ascii ''x''], ascii ''/r'')]"
  by (simp add: small_tree_def plain_name_def path_join_def git_name_def gitignore_name_def)

lemma small_lists_all: "lists_all small_tree"
proof -
  have git: "dir = ascii ''/r'' \<or> dir = ascii ''/r/''" if "path_join dir git_name = ascii ''/r/.git''" for dir
  proof (cases "dir = [] \<or> last dir = c_slash")
    case True
    then have "dir @ git_name = ascii ''/r/'' @ git_name" using that by (auto simp: path_join_def git_name_def)
    then show ?thesis by (metis append_same_eq)
  next
    case False
    then have "(dir @ [c_slash]) @ git_name = (ascii ''/r'' @ [c_slash]) @ git_name" using that
      by (simp add: path_join_def git_name_def)
    then show ?thesis by (metis append_same_eq)
  qed
  have "entries_name git_name (fs_read small_tree dir)" if "holds_git small_tree dir" for dir
    using git [of dir] that by (auto simp: holds_git_def small_tree_def entries_name_def)
  moreover have "entries_name gitignore_name (fs_read small_tree dir)" if "frame_load small_tree dir \<noteq> None" for dir
    using that by (auto simp: frame_load_def small_tree_def entries_name_def split: option.splits if_splits)
  ultimately show ?thesis by (simp add: lists_all_def)
qed

lemma small_force:
  "in_force small_tree m (ascii ''/r'') st = (if tm_gitignore m then (True, [small_frame]) else st)"
  "in_force small_tree m (ascii ''/r/b'') st = st" "in_force small_tree m (ascii ''/r/g'') st = st"
  "in_force small_tree m (ascii ''/r/s'') st = st"
  by (auto simp: in_force_def holds_git_def frame_load_def small_tree_def git_name_def gitignore_name_def path_join_def
      split: prod.splits)

definition below_pattern :: "rstr \<Rightarrow> pattern" where
  "below_pattern w = \<lparr>pt_path = below_regex w, pt_last_component = None\<rparr>"

definition small_glob :: path_glob where
  "small_glob = \<lparr>pg_files = [below_pattern (ascii ''**'')], pg_components = [Any_Depth, End], pg_starts = [0],
     pg_ends = [1], pg_spells_relative = False, pg_named = []\<rparr>"

definition small_matcher :: table_matcher where
  "small_matcher = \<lparr>tm_entries = [(small_glob, ascii ''t'')], tm_ignore_set = [below_pattern (ascii ''b/**'')],
     tm_ignore_dir_set = [below_pattern (ascii ''b'')], tm_gitignore = True, tm_walk = small_glob\<rparr>"

lemma unicode_regex_plain:
  assumes "list_all (\<lambda>c. is_scalar c \<and> class_regex c = None) s" "list_all is_ascii s" "c_backslash \<notin> set s"
    "\<not> prefix byte_mode s"
  shows "unicode_regex s = s"
proof -
  have "unescape_bytes s = s"
    using assms(3) by (induction s) auto
  moreover have "utf8 s = s" by (rule utf8_ascii [OF assms(2)])
  moreover have "from_utf8_lossy (utf8 s) = s"
    using from_utf8_lossy_utf8_append [of s "[]"] assms(1) by (simp add: list_all_iff)
  ultimately show ?thesis
    using no_classes [of s] assms(1,4) by (simp add: unicode_regex_def strip_prefix_def prefix_def list_all_iff)
qed

lemma below_patterns:
  "w \<in> {ascii ''**'', ascii ''b/**'', ascii ''b''} \<Longrightarrow> pattern_new below_engines w = Some (below_pattern w)"
proof -
  assume w: "w \<in> {ascii ''**'', ascii ''b/**'', ascii ''b''}"
  then have "expand_posix_classes w = w" "unicode_regex w = w"
    by (auto intro!: unicode_regex_plain
      simp: is_scalar_def class_regex_def unicode_classes_def marker_def is_ascii_def byte_mode_def)
  then show ?thesis
    using w by (auto simp: pattern_new_def compile_def below_engines_def below_pattern_def strip_prefix_def any_depth_prefix_def)
qed

lemma small_words: "glob_words [ascii ''**''] = [ascii ''**'']"
proof -
  have "expand_word (ascii ''**'') = [ascii ''**'']"
    by (rule expand_word_plain) (simp add: plain_text_def)
  then show ?thesis
    unfolding glob_words_def expand_def by (simp add: collapse_separators_def push_collapsed_def)
qed

lemma small_components: "compile_components below_engines (ascii ''**'') = Some [Any_Depth]"
  by (simp add: compile_components_def compile_component_def)

lemma small_compiled: "compile_globs below_engines [ascii ''**''] = Some small_glob"
  unfolding compile_globs_def small_words
  using small_components below_patterns [of "ascii ''**''"]
  by (simp add: small_glob_def has_wildcard_def)

lemma small_new: "matcher_new below_engines [(ascii ''**'', ascii ''t'')] [ascii ''b/**''] =
    Some (small_matcher\<lparr>tm_gitignore := False\<rparr>)"
  using small_compiled below_patterns [of "ascii ''b/**''"] below_patterns [of "ascii ''b''"]
  by (simp add: matcher_new_def compile_glob_def small_matcher_def List.map_filter_def strip_suffix_def
      strip_prefix_def any_depth_suffix_def)

lemma below_anything: "\<not> list_ex is_dot_named ns \<Longrightarrow> consumes True [Any_Depth] (dirs_of ns)"
  by (induction ns) auto

lemma small_laws: "table_laws below_engines [(ascii ''**'', ascii ''t'')] [ascii ''b/**''] small_matcher"
proof -
  have "by_components below_engines [ascii ''**'']"
    unfolding by_components_def small_words using small_components below_anything by simp
  moreover have "ignores_below small_matcher"
  proof -
    have ig: "is_ignored small_matcher p \<longleftrightarrow> prefix (ascii ''b/'') p" for p
      by (simp add: is_ignored_def small_matcher_def pattern_is_match_def below_pattern_def below_regex_def
          strip_suffix_def strip_prefix_def any_depth_suffix_def)
    have igd: "is_ignored_dir small_matcher p \<longleftrightarrow> p = ascii ''b''" for p
      by (simp add: is_ignored_dir_def small_matcher_def pattern_is_match_def below_pattern_def below_regex_def
          strip_suffix_def strip_prefix_def any_depth_suffix_def)
    have j: "prefix (slashed (n # ns) @ [c_slash]) (slashed ((n # ns) @ m # ms))" for n m :: rstr and ns ms
      by (induction ns arbitrary: n) auto
    show ?thesis
      unfolding ignores_below_def ig igd
    proof (intro allI impI)
      fix ns n ms assume b: "slashed ns = ascii ''b''"
      then obtain a l where "ns = a # l" by (cases ns) auto
      then have "prefix (slashed ns @ [c_slash]) (slashed (ns @ n # ms))" using j [of a l n ms] by (simp only:)
      then show "prefix (ascii ''b/'') (slashed (ns @ n # ms))" unfolding b by simp
    qed
  qed
  moreover have "\<not> pg_spells_relative (tm_walk small_matcher)"
    by (simp add: small_matcher_def small_glob_def)
  ultimately show ?thesis unfolding table_laws_def using small_new by simp
qed

theorem scan_finds_all_witness:
  "scan_below small_tree 3 (ascii ''/r'') (ascii ''/r'') small_matcher =
     Some [\<lparr>ff_path = ascii ''/r/s/m'', ff_rel_path = ascii ''s/m'', ff_table = ascii ''t''\<rparr>,
       \<lparr>ff_path = ascii ''/r/x'', ff_rel_path = ascii ''x'', ff_table = ascii ''t''\<rparr>]"
proof -
  let ?hidden = "gitignored small_tree small_matcher (ascii ''/r'')"
  have named: "glob_names (tm_walk small_matcher) p = False" for p
    by (simp add: small_matcher_def small_glob_def glob_names_def)
  have on: "tm_gitignore small_matcher" by (simp add: small_matcher_def)
  note git = gitignored_def small_force [simplified] named on is_gitignored_def path_join_def small_frame_def Let_def
  have hidden: "\<not> ?hidden [ascii ''b'', ascii ''o'']" "?hidden [ascii ''g'', ascii ''j'']" "?hidden [ascii ''s'', ascii ''k'']"
    "\<not> ?hidden [ascii ''s'', ascii ''m'']" "\<not> ?hidden [ascii ''x'']"
    by (simp_all add: git)
  have "wanted small_tree small_matcher (ascii ''/r'') [([gitignore_name], ascii ''/r''), ([ascii ''b'', ascii ''o''], ascii ''/r/b''),
       ([ascii ''g'', ascii ''j''], ascii ''/r/g''), ([ascii ''s'', ascii ''k''], ascii ''/r/s''),
       ([ascii ''s'', ascii ''m''], ascii ''/r/s''), ([ascii ''x''], ascii ''/r'')] =
     [\<lparr>ff_path = ascii ''/r/s/m'', ff_rel_path = ascii ''s/m'', ff_table = ascii ''t''\<rparr>,
       \<lparr>ff_path = ascii ''/r/x'', ff_rel_path = ascii ''x'', ff_table = ascii ''t''\<rparr>]"
  proof -
    have ignored: "is_ignored small_matcher p \<longleftrightarrow> prefix (ascii ''b/'') p" for p
      by (simp add: is_ignored_def small_matcher_def pattern_is_match_def below_pattern_def below_regex_def
          strip_suffix_def strip_prefix_def any_depth_suffix_def)
    have "match_all small_matcher gitignore_name = []"
      by (simp add: match_all_def is_match_unhidden_def small_matcher_def small_glob_def path_components_def is_dot_named_def
          gitignore_name_def spells_dot_names_of_def glob_step_def next_of_def closure_def glob_start_def get_def at_end_def)
    moreover have "match_all small_matcher (ascii ''s/m'') = [ascii ''t'']" "match_all small_matcher (ascii ''x'') = [ascii ''t'']"
      by (simp_all add: match_all_def is_match_unhidden_def small_matcher_def small_glob_def path_components_def is_dot_named_def
          is_match_def pattern_is_match_def below_pattern_def below_regex_def strip_suffix_def strip_prefix_def any_depth_suffix_def)
    ultimately show ?thesis
      using hidden by (simp add: wanted_def ignored found_in_def file_name_def or_empty_def path_join_def path_components_def)
  qed
  then show ?thesis using scan_finds_all [OF small_laws small_lists_all small_files] by simp
qed

text \<open>A repo whose \<open>.gitignore\<close> ignores the directory \<open>b\<close>, in which another whitelists \<open>o\<close>.\<close>

definition small_repo :: file_system where
  "small_repo = \<lparr>
     fs_read = \<lambda>dir.
       if dir = ascii ''/r'' then
         [(git_name, Seen_Dir), (gitignore_name, Seen_File), (ascii ''b'', Seen_Dir)]
       else if dir = ascii ''/r/b'' then [(gitignore_name, Seen_File), (ascii ''o'', Seen_File)] else [],
     fs_stat = \<lambda>p follow.
       if p = ascii ''/r/.gitignore'' \<or> p = ascii ''/r/b/.gitignore''
       then Some \<lparr>st_is_link = False, st_is_dir = False, st_is_file = True\<rparr> else None,
     fs_exists = \<lambda>p. p = ascii ''/r/.git'',
     fs_gitignore = \<lambda>dir.
       if dir = ascii ''/r'' then
         Some \<lparr>fr_matched = \<lambda>p is_dir. if p = ascii ''/r/b'' \<and> is_dir then Match_Ignore else Match_None,
           fr_matched_or_parents = \<lambda>p is_dir.
             if path_starts_with p (ascii ''/r/b'') then Match_Ignore else Match_None\<rparr>
       else Some \<lparr>fr_matched = \<lambda>p is_dir. if p = ascii ''/r/b/o'' then Match_Whitelist else Match_None,
           fr_matched_or_parents = \<lambda>p is_dir. if p = ascii ''/r/b/o'' then Match_Whitelist else Match_None\<rparr>\<rparr>"

definition repo_matcher :: table_matcher where
  "repo_matcher = with_gitignore (small_matcher\<lparr>tm_ignore_set := [], tm_ignore_dir_set := []\<rparr>) True"

text \<open>The answer for a path a watcher reports is not the walk's. Below a directory one
  \<open>.gitignore\<close> ignores, another that whitelists a file makes \<open>is_gitignored_path\<close> call the file not
  ignored, while the walk, which never enters the directory, never reports it; so an event for it is
  let through for a file no scan holds.\<close>

theorem watched_path_not_as_walked:
  "scan_below small_repo 3 (ascii ''/r'') (ascii ''/r'') repo_matcher = Some [] \<and>
   match_all repo_matcher (ascii ''b/o'') = [ascii ''t''] \<and>
   \<not> is_gitignored_path small_repo (ascii ''/r/b/o'') False"
proof -
  have "match_all repo_matcher (ascii ''b/o'') = [ascii ''t'']"
    by (simp add: match_all_def repo_matcher_def with_gitignore_def small_matcher_def small_glob_def
        is_match_unhidden_def is_match_def pattern_is_match_def below_pattern_def below_regex_def strip_suffix_def
        strip_prefix_def any_depth_suffix_def path_components_def is_dot_named_def)
  moreover have "\<not> is_gitignored_path small_repo (ascii ''/r/b/o'') False"
    by (simp add: is_gitignored_path_def parent_def path_components_def from_components_def path_join_def
        enclosing_repo_def ancestors_def holds_git_def small_repo_def git_name_def gitignores_above_def dirs_above_def
        frame_load_def gitignore_name_def List.map_filter_def)
  moreover have "scan_below small_repo 3 (ascii ''/r'') (ascii ''/r'') repo_matcher = Some []"
  proof -
    let ?m = "repo_matcher"
    define ex where "ex = explore_place small_repo (\<lambda>_. True) (\<lambda>rel. \<not> is_ignored ?m rel) (found_in ?m)"
    have pl: "walk_root (repo_walker small_repo (ascii ''/r'') ?m (tm_walk ?m) True) (ascii ''/r'') (ascii ''/r'') =
        \<lparr>pl_walk = \<lparr>wk_ignore = ?m, wk_glob = Some small_glob, wk_gitignore = True, wk_in_repo = True,
            wk_frames = [], wk_dirs = False\<rparr>,
          pl_dir = ascii ''/r'', pl_rel = [], pl_states = glob_start small_glob, pl_linked = False, pl_part = None\<rparr>"
      by (simp add: walk_root_def repo_walker_def enclosing_repo_def ancestors_def holds_git_def small_repo_def
          git_name_def gitignores_above_def dirs_above_def List.map_filter_def path_strip_prefix_def path_components_def
          strip_prefix_def from_components_def path_join_def run_names_def repo_matcher_def with_gitignore_def
          small_matcher_def)
    have "ex (walk_root (repo_walker small_repo (ascii ''/r'') ?m (tm_walk ?m) True) (ascii ''/r'') (ascii ''/r'')) = []"
      unfolding pl ex_def
      by (simp add: explore_place_def Let_def small_repo_def part_entries_def enter_repo_def push_frame_def
          entries_name_def holds_git_def git_name_def gitignore_name_def path_join_def frame_load_def relative_def
          relative_entries_def judge_def step_of_entry_def judged_def take_entry_def next_states_def follows_def
          admits_name_def admits_def should_descend_def is_gitignored_def is_dot_named_def glob_step_def next_of_def
          small_glob_def closure_def glob_start_def get_def has_components_def reaches_def at_end_def glob_names_def
          child_path_def is_ignored_dir_def repo_matcher_def with_gitignore_def small_matcher_def)
    moreover have "tm_gitignore ?m = True" by (simp add: repo_matcher_def with_gitignore_def)
    ultimately show ?thesis by (simp add: scan_below_def walk_leaves_def ex_def)
  qed
  ultimately show ?thesis by blast
qed

end
