(* ===== verification/Row_Shape.thy ===== *)
theory Row_Shape
  imports Infer Sql_Literal
begin

text \<open>
  \<open>packages/rust/src/db.rs\<close>, the laying out of rows: a row a hook produced, keyed by column name, is
  made a list of cells in the column order of its table. A per-table hook gives JSON rows, a
  per-file hook \<open>HashMap\<close>s; such a map is the list of its entries in the order it iterates them.
  The columns of a table are what SQLite's \<open>pragma_table_xinfo\<close> lists.
\<close>

section \<open>Errors\<close>

text \<open>SQLite's own errors, of which the code tells a violated \<open>UNIQUE\<close> constraint from the rest.\<close>

datatype sqlite_error = Constraint_Unique rstr | Sqlite_Failure rstr

record fk_violation =
  fk_table :: rstr
  fk_file :: "rstr option"
  fk_message :: rstr

datatype db_error =
  Sqlite sqlite_error
| Schema_Mismatch rstr
| Invalid_Identifier rstr
| Write_Forbidden
| Multiple_Statements
| Unauthorized rstr
| Path_Table rstr
| Foreign_Key fk_violation
| Params_Error rstr
| Not_Utf8 rstr

section \<open>Identifiers\<close>

definition is_ascii_alphanumeric :: "uchar \<Rightarrow> bool" where
  "is_ascii_alphanumeric c \<longleftrightarrow> is_ascii_alphabetic c \<or> is_ascii_digit c"

definition validate_identifier :: "rstr \<Rightarrow> db_error + unit" where
  "validate_identifier s =
     (case s of
        [] \<Rightarrow> Inl (Invalid_Identifier s)
      | c # cs \<Rightarrow>
          if (is_ascii_alphabetic c \<or> c = c_under) \<and> list_all (\<lambda>d. is_ascii_alphanumeric d \<or> d = c_under) cs
          then Inr () else Inl (Invalid_Identifier s))"

definition names_column :: "rstr list \<Rightarrow> rstr \<Rightarrow> bool" where
  "names_column columns key \<longleftrightarrow> list_ex (\<lambda>c. eq_ignore_ascii_case c key) columns"

definition validate_column_key :: "rstr \<Rightarrow> rstr list \<Rightarrow> db_error + unit" where
  "validate_column_key key columns = (if names_column columns key then Inr () else validate_identifier key)"

section \<open>Shaping\<close>

record shaped_rows =
  sr_columns :: "rstr list"
  sr_cells :: "sql_value list list"
  sr_emitted :: "bool list"

definition to_maps :: "shaped_rows \<Rightarrow> row list" where
  "to_maps rows = map (zip (sr_columns rows)) (sr_cells rows)"

definition comma_space :: rstr where
  "comma_space = ascii '', ''"

text \<open>The checks of strict mode over the keys of a row; the first key that is no identifier, then
  the keys that are no column, then the columns that are no key.\<close>

definition strict_error :: "rstr \<Rightarrow> rstr list \<Rightarrow> rstr list \<Rightarrow> db_error option" where
  "strict_error table columns keys =
     (case find (\<lambda>key. validate_column_key key columns \<noteq> Inr ()) keys of
        Some key \<Rightarrow> Some (Invalid_Identifier key)
      | None \<Rightarrow>
          (let extra = filter (\<lambda>key. \<not> names_column columns key) keys;
               missing = filter (\<lambda>c. \<not> list_ex (\<lambda>key. eq_ignore_ascii_case key c) keys) columns in
           if extra \<noteq> [] then
             Some (Schema_Mismatch (ascii ''extra columns not in table '' @ table @ ascii '': '' @ join comma_space extra))
           else if missing \<noteq> [] then
             Some (Schema_Mismatch (ascii ''missing columns for table '' @ table @ ascii '': '' @ join comma_space missing))
           else None))"

text \<open>\<open>shape_json_rows\<close>, one row: its cells and the columns it carried.\<close>

fun place_cells :: "rstr list \<Rightarrow> json_row \<Rightarrow> sql_value list \<Rightarrow> bool list \<Rightarrow> sql_value list \<times> bool list" where
  "place_cells columns [] cells emitted = (cells, emitted)"
| "place_cells columns ((key, v) # row) cells emitted =
     (case position (\<lambda>c. eq_ignore_ascii_case c key) columns of
        Some i \<Rightarrow> place_cells columns row (cells[i := json_to_value v]) (emitted[i := True])
      | None \<Rightarrow> place_cells columns row cells emitted)"

definition shape_json_row :: "rstr list \<Rightarrow> json_row \<Rightarrow> bool list \<Rightarrow> sql_value list \<times> bool list" where
  "shape_json_row columns row emitted =
     (if map fst row = columns then (map (json_to_value \<circ> snd) row, replicate (length emitted) True)
      else place_cells columns row (replicate (length columns) Null) emitted)"

fun shape_json_loop ::
  "rstr \<Rightarrow> rstr list \<Rightarrow> bool \<Rightarrow> json_row list \<Rightarrow> sql_value list list \<Rightarrow> bool list \<Rightarrow> db_error + shaped_rows"
where
  "shape_json_loop table columns strict [] cells emitted =
     Inr \<lparr>sr_columns = columns, sr_cells = cells, sr_emitted = emitted\<rparr>"
| "shape_json_loop table columns strict (row # rows) cells emitted =
     (case (if strict then strict_error table columns (map fst row) else None) of
        Some e \<Rightarrow> Inl e
      | None \<Rightarrow>
          (case shape_json_row columns row emitted of
             (shaped, emitted') \<Rightarrow> shape_json_loop table columns strict rows (cells @ [shaped]) emitted'))"

definition shape_json_rows ::
  "rstr \<Rightarrow> rstr list \<Rightarrow> json_row list \<Rightarrow> bool \<Rightarrow> db_error + shaped_rows"
where
  "shape_json_rows table columns rows strict =
     shape_json_loop table columns strict rows [] (replicate (length columns) False)"

text \<open>\<open>normalize_against\<close>: the value of a column under its own name, else under the first key equal
  to it up to case.\<close>

definition remove_cell :: "rstr \<Rightarrow> row \<Rightarrow> sql_value option \<times> row" where
  "remove_cell col row =
     (case find (\<lambda>e. fst e = col) row of
        Some (k, v) \<Rightarrow> (Some v, filter (\<lambda>e. fst e \<noteq> k) row)
      | None \<Rightarrow>
          (case find (\<lambda>e. eq_ignore_ascii_case (fst e) col) row of
             Some (k, v) \<Rightarrow> (Some v, filter (\<lambda>e. fst e \<noteq> k) row)
           | None \<Rightarrow> (None, row)))"

definition or_null :: "sql_value option \<Rightarrow> sql_value" where
  "or_null v = (case v of Some x \<Rightarrow> x | None \<Rightarrow> Null)"

fun normalize_columns :: "rstr list \<Rightarrow> row \<Rightarrow> row" where
  "normalize_columns [] row = []"
| "normalize_columns (col # cols) row =
     (case remove_cell col row of (v, row') \<Rightarrow> (col, or_null v) # normalize_columns cols row')"

definition normalize_against :: "rstr \<Rightarrow> rstr list \<Rightarrow> row \<Rightarrow> bool \<Rightarrow> db_error + row" where
  "normalize_against table columns row strict =
     (case (if strict then strict_error table columns (map fst row) else None) of
        Some e \<Rightarrow> Inl e
      | None \<Rightarrow> Inr (normalize_columns columns row))"

definition carries :: "row \<Rightarrow> rstr \<Rightarrow> bool" where
  "carries row column \<longleftrightarrow> list_ex (\<lambda>e. eq_ignore_ascii_case (fst e) column) row"

text \<open>\<open>row.remove(c)\<close> for each column of a normalized row.\<close>

definition lay_out_row :: "rstr list \<Rightarrow> row \<Rightarrow> sql_value list" where
  "lay_out_row columns row = map (\<lambda>c. or_null (map_of row c)) columns"

fun shape_value_loop ::
  "rstr \<Rightarrow> rstr list \<Rightarrow> bool \<Rightarrow> row list \<Rightarrow> sql_value list list \<Rightarrow> bool list \<Rightarrow> db_error + shaped_rows"
where
  "shape_value_loop table columns strict [] cells emitted =
     Inr \<lparr>sr_columns = columns, sr_cells = cells, sr_emitted = emitted\<rparr>"
| "shape_value_loop table columns strict (row # rows) cells emitted =
     (case normalize_against table columns row strict of
        Inl e \<Rightarrow> Inl e
      | Inr normalized \<Rightarrow>
          shape_value_loop table columns strict rows (cells @ [lay_out_row columns normalized])
            (map2 (\<lambda>b c. b \<or> carries row c) emitted columns))"

definition shape_value_rows ::
  "rstr \<Rightarrow> rstr list \<Rightarrow> row list \<Rightarrow> bool \<Rightarrow> db_error + shaped_rows"
where
  "shape_value_rows table columns rows strict =
     shape_value_loop table columns strict rows [] (replicate (length columns) False)"

section \<open>Affinity\<close>

definition contains_str :: "rstr \<Rightarrow> rstr \<Rightarrow> bool" where
  "contains_str s part \<longleftrightarrow> list_ex (\<lambda>i. prefix part (drop i s)) [0..<Suc (length s)]"

definition affinity :: "rstr \<Rightarrow> bool \<Rightarrow> rstr" where
  "affinity declared strict =
     (let d = map to_ascii_uppercase declared;
          has = (\<lambda>parts. list_ex (\<lambda>part. contains_str d (ascii part)) parts) in
      if has [''INT''] then ascii ''INTEGER''
      else if has [''CHAR'', ''CLOB'', ''TEXT''] then ascii ''TEXT''
      else if has [''BLOB''] \<or> d = [] \<or> (strict \<and> d = ascii ''ANY'') then ascii ''BLOB''
      else if has [''REAL'', ''FLOA'', ''DOUB''] then ascii ''REAL''
      else ascii ''NUMERIC'')"

text \<open>\<open>as_stored\<close>: what a column of an affinity makes of a value is SQLite's, \<open>coerce\<close>, and so are
  the declared types of the columns and whether the table is \<open>STRICT\<close>.\<close>

definition as_stored ::
  "(rstr \<Rightarrow> sql_value \<Rightarrow> sql_value) \<Rightarrow> (rstr \<Rightarrow> rstr option) \<Rightarrow> bool \<Rightarrow> shaped_rows \<Rightarrow> shaped_rows"
where
  "as_stored coerce declared strict rows =
     (if sr_cells rows = [] \<or> sr_columns rows = [] then rows
      else (let affinities = map (\<lambda>name. affinity (case declared name of Some d \<Rightarrow> d | None \<Rightarrow> []) strict)
                 (sr_columns rows) in
        rows\<lparr>sr_cells := map (\<lambda>row. map2 coerce affinities row) (sr_cells rows)\<rparr>))"

section \<open>The two shapings agree\<close>

text \<open>Names no two of which are equal up to case.\<close>

definition case_distinct :: "rstr list \<Rightarrow> bool" where
  "case_distinct names \<longleftrightarrow> distinct (map (map to_ascii_lowercase) names)"

definition value_under :: "row \<Rightarrow> rstr \<Rightarrow> sql_value option" where
  "value_under row c = map_option snd (find (\<lambda>e. eq_ignore_ascii_case (fst e) c) row)"

abbreviation json_cells :: "json_row \<Rightarrow> row" where
  "json_cells row \<equiv> map (apsnd json_to_value) row"

lemma position_first:
  "position P xs = Some i \<Longrightarrow> i < length xs \<and> P (xs ! i) \<and> (\<forall>j<i. \<not> P (xs ! j))"
proof (induction xs arbitrary: i)
  case (Cons x xs)
  then show ?case by (cases i) (auto split: if_splits simp: less_Suc_eq_0_disj)
qed simp

lemma position_NoneD: "position P xs = None \<Longrightarrow> x \<in> set xs \<Longrightarrow> \<not> P x"
  by (induction xs) (auto split: if_splits)

lemma eq_ci_iff: "eq_ignore_ascii_case a b \<longleftrightarrow> map to_ascii_lowercase a = map to_ascii_lowercase b"
  by (simp add: eq_ignore_ascii_case_def)

lemma case_distinct_nth:
  "case_distinct columns \<Longrightarrow> i < length columns \<Longrightarrow> j < length columns \<Longrightarrow>
   eq_ignore_ascii_case (columns ! i) (columns ! j) \<longleftrightarrow> i = j"
  by (auto simp: case_distinct_def eq_ci_iff distinct_conv_nth)

lemma carries_Cons: "carries ((k, v) # row) c \<longleftrightarrow> eq_ignore_ascii_case k c \<or> carries row c"
  by (simp add: carries_def)

lemma value_under_Cons:
  "value_under ((k, v) # row) c = (if eq_ignore_ascii_case k c then Some v else value_under row c)"
  by (simp add: value_under_def)

lemma value_under_carries: "value_under row c = None \<longleftrightarrow> \<not> carries row c"
  by (auto simp: value_under_def carries_def list_ex_iff find_None_iff)

lemma place_cells_facts:
  "case_distinct columns \<Longrightarrow> case_distinct (map fst row) \<Longrightarrow> length cells = length columns \<Longrightarrow> length em = length columns \<Longrightarrow>
    place_cells columns row cells em =
      (map (\<lambda>i. case value_under (json_cells row) (columns ! i) of Some v \<Rightarrow> v | None \<Rightarrow> cells ! i) [0..<length columns],
       map2 (\<lambda>b c. b \<or> carries (json_cells row) c) em columns)"
proof (induction columns row cells em rule: place_cells.induct)
  case (1 columns cells em)
  then show ?case by (auto simp: value_under_def carries_def intro!: nth_equalityI)
next
  case (2 columns key v row cells em)
  have rest: "case_distinct (map fst row)" using "2.prems"(2) by (simp add: case_distinct_def)
  show ?case
  proof (cases "position (\<lambda>c. eq_ignore_ascii_case c key) columns")
    case None
    then have "\<not> eq_ignore_ascii_case key c" if "c \<in> set columns" for c
      using that by (auto dest: position_NoneD simp: eq_ci_iff)
    then show ?thesis using "2.IH"(1) [OF None "2.prems"(1) rest] "2.prems" None
      by (auto simp: value_under_Cons carries_Cons intro!: nth_equalityI dest: set_zip_rightD)
  next
    case (Some i)
    then have i: "i < length columns" "eq_ignore_ascii_case (columns ! i) key" by (auto dest: position_first)
    have other: "eq_ignore_ascii_case key (columns ! j) \<longleftrightarrow> i = j" if "j < length columns" for j
      using case_distinct_nth [OF "2.prems"(1) i(1) that] i(2) unfolding eq_ci_iff by metis
    have unique: "value_under (json_cells row) (columns ! i) = None"
      using "2.prems"(2) i(2)
      by (force simp: value_under_carries carries_def list_ex_iff case_distinct_def eq_ci_iff)
    then show ?thesis using "2.IH"(2) [OF Some "2.prems"(1) rest] "2.prems" Some i other
      by (auto simp: value_under_Cons carries_Cons nth_list_update intro!: nth_equalityI split: option.splits if_splits)
  qed
qed

lemma replicate_map_upt: "replicate n x = map (\<lambda>i. x) [0..<n]"
  by (simp add: map_replicate_const)

lemma shape_json_row_facts:
  assumes "case_distinct columns" "case_distinct (map fst row)" "length em = length columns"
  shows "shape_json_row columns row em =
    (map (\<lambda>c. or_null (value_under (json_cells row) c)) columns,
     map2 (\<lambda>b c. b \<or> carries (json_cells row) c) em columns)"
proof (cases "map fst row = columns")
  case False
  then show ?thesis
    using place_cells_facts [OF assms(1,2) _ assms(3), of "replicate (length columns) Null"]
    by (auto simp: shape_json_row_def or_null_def intro!: nth_equalityI split: option.splits)
next
  case True
  have u: "value_under (json_cells row) (columns ! i) = Some (json_to_value (snd (row ! i)))" if i: "i < length row" for i
  proof -
    have "find (\<lambda>e. eq_ignore_ascii_case (fst e) (columns ! i)) (json_cells row) = Some (json_cells row ! i)"
    proof (unfold find_Some_iff, intro exI [of _ i] conjI allI impI)
      have fst: "fst (json_cells row ! j) = columns ! j" if "j < length row" for j
        using that nth_map [of j row fst] by (simp add: True)
      show "i < length (json_cells row)" using i by simp
      show "eq_ignore_ascii_case (fst (json_cells row ! i)) (columns ! i)" using fst [OF i] by (simp add: eq_ci_iff)
      fix j assume j: "j < i"
      have "length row = length columns" using True by auto
      then show "\<not> eq_ignore_ascii_case (fst (json_cells row ! j)) (columns ! i)"
        using case_distinct_nth [OF assms(1), of j i] fst [of j] i j by simp
    qed simp
    then show ?thesis using i by (simp add: value_under_def)
  qed
  have len: "length columns = length row" using True by auto
  then have "carries (json_cells row) (columns ! i)" if "i < length row" for i
    using u [OF that] value_under_carries [of "json_cells row" "columns ! i"] by auto
  then show ?thesis
    using True u assms(3) len
    by (auto simp: shape_json_row_def or_null_def in_set_zip intro!: nth_equalityI)
qed

lemma remove_cell_facts:
  assumes "case_distinct (map fst row)" "remove_cell col row = (v, row')"
  shows "v = value_under row col" "row' = filter (\<lambda>e. \<not> eq_ignore_ascii_case (fst e) col) row"
proof -
  have one: "fst e = fst f" if "e \<in> set row" "f \<in> set row" "eq_ignore_ascii_case (fst e) col" "eq_ignore_ascii_case (fst f) col" for e f
    using assms(1) that unfolding case_distinct_def distinct_map eq_ci_iff inj_on_def by fastforce
  have dist: "distinct (map fst row)" using assms(1) unfolding case_distinct_def distinct_map by blast
  have keys: "filter (\<lambda>e. fst e \<noteq> k) row = filter (\<lambda>e. \<not> eq_ignore_ascii_case (fst e) col) row"
    if "(k, x) \<in> set row" "eq_ignore_ascii_case k col" for k x
    using one [OF _ that(1)] that(2) by (intro filter_cong) auto
  have same: "x = y" if "(k, x) \<in> set row" "(k, y) \<in> set row" for k x y
    using map_of_is_SomeI [OF dist that(1)] map_of_is_SomeI [OF dist that(2)] by simp
  show "v = value_under row col" "row' = filter (\<lambda>e. \<not> eq_ignore_ascii_case (fst e) col) row"
  proof (atomize (full), cases "find (\<lambda>e. fst e = col) row")
    case (Some e)
    then have e: "e \<in> set row" "fst e = col" by (auto simp: find_Some_iff)
    have "\<exists>f\<in>set row. eq_ignore_ascii_case (fst f) col" using e by (intro bexI [of _ e]) (simp_all add: eq_ci_iff)
    then have "find (\<lambda>e. eq_ignore_ascii_case (fst e) col) row \<noteq> None"
      unfolding find_None_iff by blast
    then obtain f where f: "find (\<lambda>e. eq_ignore_ascii_case (fst e) col) row = Some f" by blast
    then have "f \<in> set row" "eq_ignore_ascii_case (fst f) col" by (auto simp: find_Some_iff)
    then have fe: "f \<in> set row" "fst f = fst e" using one [of f e] e by (simp_all add: eq_ci_iff)
    have "snd f = snd e" using same [of "fst e" "snd f" "snd e"] fe e(1) by (metis prod.collapse)
    then have "f = e" using fe(2) by (simp add: prod_eq_iff)
    then show "v = value_under row col \<and> row' = filter (\<lambda>e. \<not> eq_ignore_ascii_case (fst e) col) row"
      using assms(2) Some f keys [of "fst e" "snd e"] e
      by (auto simp: remove_cell_def value_under_def eq_ci_iff split: prod.splits)
  next
    case None
    show "v = value_under row col \<and> row' = filter (\<lambda>e. \<not> eq_ignore_ascii_case (fst e) col) row"
    proof (cases "find (\<lambda>e. eq_ignore_ascii_case (fst e) col) row")
      case None': None
      then have "filter (\<lambda>e. \<not> eq_ignore_ascii_case (fst e) col) row = row"
        unfolding find_None_iff filter_id_conv by blast
      then show ?thesis using assms(2) None None' by (simp add: remove_cell_def value_under_def)
    next
      case (Some e)
      then have "e \<in> set row" "eq_ignore_ascii_case (fst e) col" by (auto simp: find_Some_iff)
      then show ?thesis using assms(2) None Some keys [of "fst e" "snd e"]
        by (auto simp: remove_cell_def value_under_def split: prod.splits)
    qed
  qed
qed

lemma find_filter: "(\<And>e. e \<in> set row \<Longrightarrow> P e \<Longrightarrow> Q e) \<Longrightarrow> find P (filter Q row) = find P row"
  by (induction row) auto

lemma normalize_columns_facts:
  "case_distinct columns \<Longrightarrow> case_distinct (map fst row) \<Longrightarrow>
   normalize_columns columns row = map (\<lambda>c. (c, or_null (value_under row c))) columns"
proof (induction columns arbitrary: row)
  case (Cons col columns)
  obtain v row' where r: "remove_cell col row = (v, row')" by fastforce
  note f = remove_cell_facts [OF Cons.prems(2) r]
  have "case_distinct (map fst row')"
    using Cons.prems(2) unfolding f(2) case_distinct_def by (simp add: distinct_map_filter distinct_map inj_on_def)
  moreover have "value_under row' c = value_under row c" if "c \<in> set columns" for c
  proof -
    have "\<not> eq_ignore_ascii_case col c" using Cons.prems(1) that by (auto simp: case_distinct_def eq_ci_iff)
    then show ?thesis unfolding value_under_def f(2)
      by (subst find_filter) (auto simp: eq_ci_iff)
  qed
  ultimately show ?case using Cons.IH [of row'] Cons.prems(1) r f(1) by (simp add: case_distinct_def)
qed simp

lemma lay_out_row_facts:
  "distinct columns \<Longrightarrow> lay_out_row columns (map (\<lambda>c. (c, g c)) columns) = map g columns"
  by (auto simp: lay_out_row_def or_null_def map_of_map_restrict [of g, unfolded comp_def] restrict_map_def)

lemma shape_loops_agree:
  "case_distinct columns \<Longrightarrow> list_all (\<lambda>row. case_distinct (map fst row)) rows \<Longrightarrow>
   length em = length columns \<Longrightarrow>
   shape_value_loop table columns strict (map json_cells rows) cells em = shape_json_loop table columns strict rows cells em"
proof (induction rows arbitrary: cells em)
  case (Cons row rows)
  have d: "distinct columns" using Cons.prems(1) unfolding case_distinct_def distinct_map by blast
  have k: "map fst (json_cells row) = map fst row" by simp
  have n: "lay_out_row columns (normalize_columns columns (json_cells row)) =
      map (\<lambda>c. or_null (value_under (json_cells row) c)) columns"
    using normalize_columns_facts [OF Cons.prems(1), of "json_cells row"] Cons.prems(2) lay_out_row_facts [OF d] by simp
  show ?case
  proof (cases "if strict then strict_error table columns (map fst row) else None")
    case None
    show ?thesis
      using Cons.IH [OF Cons.prems(1), of "map2 (\<lambda>b c. b \<or> carries (json_cells row) c) em columns"] Cons.prems(2,3)
      unfolding list.map shape_value_loop.simps shape_json_loop.simps normalize_against_def k None option.case
        sum.case n shape_json_row_facts [OF Cons.prems(1) _ Cons.prems(3), of row]
      by (simp add: shape_json_row_facts [OF Cons.prems(1) _ Cons.prems(3)])
  next
    case (Some e)
    show ?thesis
      unfolding list.map shape_value_loop.simps shape_json_loop.simps normalize_against_def k Some option.case sum.case ..
  qed
qed simp

text \<open>A per-file hook and a per-table hook shape the same rows alike. Where no two keys of a row,
  and no two columns, are equal up to case, laying out the rows as maps gives what laying them out
  as JSON does, in relaxed and strict mode, errors and emitted columns included.\<close>

theorem shapings_agree:
  assumes "case_distinct columns" "list_all (\<lambda>row. case_distinct (map fst row)) rows"
  shows "shape_value_rows table columns (map (map (apsnd json_to_value)) rows) strict =
    shape_json_rows table columns rows strict"
  using shape_loops_agree [OF assms] by (simp add: shape_value_rows_def shape_json_rows_def)

theorem shapings_agree_witness:
  "shape_value_rows (ascii ''t'') [ascii ''a'', ascii ''b'']
     (map (map (apsnd json_to_value)) [[(ascii ''B'', JInt 2)], [(ascii ''x'', JNull), (ascii ''a'', JInt 1)]]) False =
   shape_json_rows (ascii ''t'') [ascii ''a'', ascii ''b'']
     [[(ascii ''B'', JInt 2)], [(ascii ''x'', JNull), (ascii ''a'', JInt 1)]] False"
  by (rule shapings_agree) (simp_all add: case_distinct_def to_ascii_lowercase_def is_ascii_uppercase_def)

end
