(* ===== verification/Row_Store.thy ===== *)
theory Row_Store
  imports Row_Shape Differ "HOL-Library.List_Lexorder" "HOL-Library.Product_Lexorder"
begin

text \<open>
  \<open>packages/rust/src/db.rs\<close>, the rows of the index: which rows a table holds, which file or batch
  owns each, and the reconciliation that makes a table's rows equal the ones a hook produced while
  writing only the difference.

  A table's content is its rows in rowid order, each the cells of its columns in DDL order. What
  SQLite decides is the parameter \<open>sqlite\<close>: the schema, the value a column of an affinity stores,
  whether a constraint refuses a write and which rowid an insert gets. The effects of the statements
  are written out.
\<close>

section \<open>Contents\<close>

type_synonym cells = "sql_value list"
type_synonym content = "(int \<times> cells) list"

definition content_del :: "int \<Rightarrow> content \<Rightarrow> content" where
  "content_del r c = filter (\<lambda>p. fst p \<noteq> r) c"

definition content_put :: "int \<Rightarrow> cells \<Rightarrow> content \<Rightarrow> content" where
  "content_put r cs c = insort_key fst (r, cs) (content_del r c)"

section \<open>SQLite\<close>

text \<open>A row written: deleted, updated, from its rowid and cells to the new ones, or inserted.\<close>

datatype row_write = Wrote_Delete int cells | Wrote_Update int cells int cells | Wrote_Insert int cells

text \<open>\<open>sq_alias\<close> is the position of the column that is another name of the rowid, an \<open>INTEGER PRIMARY
  KEY\<close>, if the table has one: an update of that column moves the row, and an insert that leaves it
  \<open>NULL\<close> fills it in. \<open>sq_insert\<close> is told the rowid asked for, if one is, and gives that of the new
  row. \<open>sq_action\<close> is what the schema does to the other tables when a row of a table is written: an \<open>ON DELETE\<close> or
  \<open>ON UPDATE\<close> action of a foreign key, which SQLite runs with the statement, or a trigger. What either does
  to the written table itself is not modelled.\<close>

record sqlite =
  sq_columns :: "rstr \<Rightarrow> rstr list"
  sq_declared :: "rstr \<Rightarrow> rstr \<Rightarrow> rstr option"
  sq_default :: "rstr \<Rightarrow> rstr \<Rightarrow> sql_value"
  sq_strict :: "rstr \<Rightarrow> bool"
  sq_primary_key :: "rstr \<Rightarrow> rstr option list"
  sq_unique_indexes :: "rstr \<Rightarrow> rstr option list list"
  sq_alias :: "rstr \<Rightarrow> nat option"
  sq_coerce :: "rstr \<Rightarrow> sql_value \<Rightarrow> sql_value"
  sq_delete :: "rstr \<Rightarrow> content \<Rightarrow> int \<Rightarrow> sqlite_error option"
  sq_update :: "rstr \<Rightarrow> content \<Rightarrow> int \<Rightarrow> cells \<Rightarrow> sqlite_error option"
  sq_insert :: "rstr \<Rightarrow> content \<Rightarrow> int option \<Rightarrow> cells \<Rightarrow> sqlite_error + int"
  sq_action :: "rstr \<Rightarrow> row_write \<Rightarrow> (rstr \<rightharpoonup> content) \<Rightarrow> (rstr \<rightharpoonup> content)"

text \<open>The cells as the columns of the table store them.\<close>

definition coerced :: "sqlite \<Rightarrow> rstr \<Rightarrow> cells \<Rightarrow> cells" where
  "coerced sq table cs =
     map2 (sq_coerce sq)
       (map (\<lambda>name. affinity (case sq_declared sq table name of Some d \<Rightarrow> d | None \<Rightarrow> []) (sq_strict sq table))
         (sq_columns sq table)) cs"

definition inserted_cells :: "nat option \<Rightarrow> int \<Rightarrow> cells \<Rightarrow> cells" where
  "inserted_cells alias r cs =
     (case alias of
        Some i \<Rightarrow> if i < length cs \<and> cs ! i = Null then cs[i := Integer r] else cs
      | None \<Rightarrow> cs)"

definition updated_rowid :: "nat option \<Rightarrow> int \<Rightarrow> cells \<Rightarrow> int" where
  "updated_rowid alias r cs =
     (case alias of
        Some i \<Rightarrow> if i < length cs then (case cs ! i of Integer q \<Rightarrow> q | _ \<Rightarrow> r) else r
      | None \<Rightarrow> r)"

definition run_delete :: "sqlite \<Rightarrow> rstr \<Rightarrow> content \<Rightarrow> int \<Rightarrow> sqlite_error + content" where
  "run_delete sq table c r =
     (case sq_delete sq table c r of Some e \<Rightarrow> Inl e | None \<Rightarrow> Inr (content_del r c))"

definition run_update :: "sqlite \<Rightarrow> rstr \<Rightarrow> content \<Rightarrow> int \<Rightarrow> cells \<Rightarrow> sqlite_error + content" where
  "run_update sq table c r cs =
     (let cs = coerced sq table cs in
      case sq_update sq table c r cs of
        Some e \<Rightarrow> Inl e
      | None \<Rightarrow>
          (case map_of c r of
             None \<Rightarrow> Inr c
           | Some _ \<Rightarrow> Inr (content_put (updated_rowid (sq_alias sq table) r cs) cs (content_del r c))))"

definition run_insert ::
  "sqlite \<Rightarrow> rstr \<Rightarrow> content \<Rightarrow> int option \<Rightarrow> cells \<Rightarrow> sqlite_error + (content \<times> int)"
where
  "run_insert sq table c want cs =
     (let cs = coerced sq table cs in
      case sq_insert sq table c want cs of
        Inl e \<Rightarrow> Inl e
      | Inr r \<Rightarrow> Inr (content_put r (inserted_cells (sq_alias sq table) r cs) c, r))"

text \<open>The rows statements write, run one after another; one that is refused writes none.\<close>

datatype row_statement = Delete_Row int | Update_Row int cells | Insert_Row "int option" cells

fun row_writes :: "sqlite \<Rightarrow> rstr \<Rightarrow> row_statement list \<Rightarrow> content \<Rightarrow> row_write list" where
  "row_writes sq table [] c = []"
| "row_writes sq table (Delete_Row r # ss) c =
     (case run_delete sq table c r of
        Inl e \<Rightarrow> row_writes sq table ss c
      | Inr c' \<Rightarrow> (case map_of c r of None \<Rightarrow> [] | Some cs \<Rightarrow> [Wrote_Delete r cs]) @ row_writes sq table ss c')"
| "row_writes sq table (Update_Row r cs # ss) c =
     (case run_update sq table c r cs of
        Inl e \<Rightarrow> row_writes sq table ss c
      | Inr c' \<Rightarrow>
          (case map_of c r of
             None \<Rightarrow> []
           | Some old \<Rightarrow>
               (let new = coerced sq table cs in [Wrote_Update r old (updated_rowid (sq_alias sq table) r new) new])) @
          row_writes sq table ss c')"
| "row_writes sq table (Insert_Row want cs # ss) c =
     (case run_insert sq table c want cs of
        Inl e \<Rightarrow> row_writes sq table ss c
      | Inr (c', r) \<Rightarrow>
          Wrote_Insert r (inserted_cells (sq_alias sq table) r (coerced sq table cs)) # row_writes sq table ss c')"

definition stored_form :: "sqlite \<Rightarrow> rstr \<Rightarrow> shaped_rows \<Rightarrow> shaped_rows" where
  "stored_form sq table rows = as_stored (sq_coerce sq) (sq_declared sq table) (sq_strict sq table) rows"

section \<open>Keys\<close>

definition key_candidates :: "sqlite \<Rightarrow> rstr \<Rightarrow> rstr option list list" where
  "key_candidates sq table = sq_primary_key sq table # sq_unique_indexes sq table"

fun positions_of :: "rstr list \<Rightarrow> rstr option list \<Rightarrow> nat list option" where
  "positions_of columns [] = Some []"
| "positions_of columns (None # names) = None"
| "positions_of columns (Some name # names) =
     Option.bind (position (\<lambda>c. c = name) columns) (\<lambda>i.
       map_option ((#) i) (positions_of columns names))"

definition populated :: "cells list \<Rightarrow> nat list \<Rightarrow> bool" where
  "populated rows at \<longleftrightarrow> at \<noteq> [] \<and> list_all (\<lambda>cs. list_all (\<lambda>i. cs ! i \<noteq> Null) at) rows"

fun find_key :: "rstr list \<Rightarrow> cells list \<Rightarrow> rstr option list list \<Rightarrow> nat list option" where
  "find_key columns rows [] = None"
| "find_key columns rows (names # candidates) =
     (case positions_of columns names of
        Some at \<Rightarrow> if populated rows at then Some at else find_key columns rows candidates
      | None \<Rightarrow> find_key columns rows candidates)"

definition key_of_rows :: "sqlite \<Rightarrow> rstr \<Rightarrow> shaped_rows \<Rightarrow> nat list option" where
  "key_of_rows sq table rows = find_key (sr_columns rows) (sr_cells rows) (key_candidates sq table)"

section \<open>Matching stored and new rows\<close>

definition ident :: "nat list \<Rightarrow> cells \<Rightarrow> cells" where
  "ident at cs = map (\<lambda>i. debug_value (cs ! i)) at"

text \<open>The stored rows not yet claimed under each key, the next one to claim in front.\<close>

type_synonym unclaimed = "cells \<rightharpoonup> nat list"

fun fill_unclaimed :: "nat list \<Rightarrow> (nat \<times> cells) list \<Rightarrow> unclaimed \<Rightarrow> unclaimed" where
  "fill_unclaimed at [] un = un"
| "fill_unclaimed at ((i, cs) # rest) un =
     fill_unclaimed at rest
       (un(ident at cs \<mapsto> i # (case un (ident at cs) of Some is \<Rightarrow> is | None \<Rightarrow> [])))"

text \<open>Which stored row each new row claims.\<close>

fun claims :: "nat list \<Rightarrow> cells list \<Rightarrow> unclaimed \<Rightarrow> nat option list" where
  "claims at [] un = []"
| "claims at (cs # rows) un =
     (case un (ident at cs) of
        Some (i # is) \<Rightarrow> Some i # claims at rows (un(ident at cs \<mapsto> is))
      | _ \<Rightarrow> None # claims at rows un)"

record row_changes =
  rc_removed :: "row list"
  rc_added :: "row list"
  rc_updated :: "(row \<times> row) list"
  rc_keyed :: bool

definition no_changes :: "row_changes \<Rightarrow> bool" where
  "no_changes ch \<longleftrightarrow> rc_removed ch = [] \<and> rc_added ch = [] \<and> rc_updated ch = []"

definition merged_cells :: "nat list \<Rightarrow> cells \<Rightarrow> cells \<Rightarrow> cells" where
  "merged_cells compared old new = foldl (\<lambda>cs i. cs[i := new ! i]) old compared"

section \<open>Writing the difference\<close>

fun delete_all :: "sqlite \<Rightarrow> rstr \<Rightarrow> int list \<Rightarrow> content \<Rightarrow> sqlite_error + content" where
  "delete_all sq table [] c = Inr c"
| "delete_all sq table (r # rs) c =
     (case run_delete sq table c r of Inl e \<Rightarrow> Inl e | Inr c' \<Rightarrow> delete_all sq table rs c')"

text \<open>The updates, given the rows they blocked on a \<open>UNIQUE\<close> constraint.\<close>

fun update_all ::
  "sqlite \<Rightarrow> rstr \<Rightarrow> (int \<times> cells) list \<Rightarrow> content \<Rightarrow> sqlite_error + (content \<times> (int \<times> cells) list)"
where
  "update_all sq table [] c = Inr (c, [])"
| "update_all sq table ((r, cs) # us) c =
     (case run_update sq table c r cs of
        Inl (Constraint_Unique e) \<Rightarrow>
          (case update_all sq table us c of
             Inl e \<Rightarrow> Inl e | Inr (c', blocked) \<Rightarrow> Inr (c', (r, cs) # blocked))
      | Inl e \<Rightarrow> Inl e
      | Inr c' \<Rightarrow> update_all sq table us c')"

fun replace_all :: "sqlite \<Rightarrow> rstr \<Rightarrow> (int \<times> cells) list \<Rightarrow> content \<Rightarrow> sqlite_error + content" where
  "replace_all sq table [] c = Inr c"
| "replace_all sq table ((r, cs) # us) c =
     (case run_insert sq table c (Some r) cs of
        Inl e \<Rightarrow> Inl e | Inr (c', r') \<Rightarrow> replace_all sq table us c')"

fun insert_all ::
  "sqlite \<Rightarrow> rstr \<Rightarrow> cells list \<Rightarrow> content \<Rightarrow> sqlite_error + (content \<times> int list)"
where
  "insert_all sq table [] c = Inr (c, [])"
| "insert_all sq table (cs # rows) c =
     (case run_insert sq table c None cs of
        Inl e \<Rightarrow> Inl e
      | Inr (c', r) \<Rightarrow>
          (case insert_all sq table rows c' of Inl e \<Rightarrow> Inl e | Inr (c'', rs) \<Rightarrow> Inr (c'', r # rs)))"

text \<open>The rowids the new rows end up at: claimed rows keep theirs, the others get the inserted.\<close>

fun place_rows :: "content \<Rightarrow> nat option list \<Rightarrow> int list \<Rightarrow> int list" where
  "place_rows stored [] rs = []"
| "place_rows stored (Some i # cl) rs = fst (stored ! i) # place_rows stored cl rs"
| "place_rows stored (None # cl) (r # rs) = r # place_rows stored cl rs"
| "place_rows stored (None # cl) [] = 0 # place_rows stored cl []"

definition compared_columns :: "shaped_rows \<Rightarrow> nat list" where
  "compared_columns rows = filter (\<lambda>i. sr_emitted rows ! i) [0..<length (sr_columns rows)]"

text \<open>What a reconciliation is to do: the stored rows removed, the rows updated, as their rowids and
  the old and new cells, and the rows added.\<close>

definition removed_rows :: "content \<Rightarrow> nat option list \<Rightarrow> content" where
  "removed_rows stored cl = map (nth stored) (filter (\<lambda>i. Some i \<notin> set cl) [0..<length stored])"

definition updated_rows ::
  "nat list \<Rightarrow> content \<Rightarrow> nat option list \<Rightarrow> cells list \<Rightarrow> (int \<times> cells \<times> cells) list"
where
  "updated_rows compared stored cl rows =
     List.map_filter (\<lambda>(claim, cs).
       case claim of
         Some i \<Rightarrow>
           if ident compared (snd (stored ! i)) \<noteq> ident compared cs
           then Some (fst (stored ! i), snd (stored ! i), merged_cells compared (snd (stored ! i)) cs)
           else None
       | None \<Rightarrow> None) (zip cl rows)"

definition added_rows :: "nat option list \<Rightarrow> cells list \<Rightarrow> cells list" where
  "added_rows cl rows = map snd (filter (\<lambda>(claim, cs). claim = None) (zip cl rows))"

definition write_changes ::
  "sqlite \<Rightarrow> rstr \<Rightarrow> content \<Rightarrow> content \<Rightarrow> (int \<times> cells \<times> cells) list \<Rightarrow> cells list \<Rightarrow>
   sqlite_error + (content \<times> int list)"
where
  "write_changes sq table c removed updated added =
     (case delete_all sq table (map fst removed) c of
        Inl e \<Rightarrow> Inl e
      | Inr c1 \<Rightarrow>
     (case update_all sq table (map (\<lambda>(r, old, new). (r, new)) updated) c1 of
        Inl e \<Rightarrow> Inl e
      | Inr (c2, blocked) \<Rightarrow>
     (case delete_all sq table (map fst blocked) c2 of
        Inl e \<Rightarrow> Inl e
      | Inr c3 \<Rightarrow>
     (case replace_all sq table blocked c3 of
        Inl e \<Rightarrow> Inl e
      | Inr c4 \<Rightarrow> insert_all sq table added c4))))"

text \<open>The rows \<open>write_changes\<close> writes.\<close>

definition change_writes ::
  "sqlite \<Rightarrow> rstr \<Rightarrow> content \<Rightarrow> content \<Rightarrow> (int \<times> cells \<times> cells) list \<Rightarrow> cells list \<Rightarrow> row_write list"
where
  "change_writes sq table c removed updated added =
     (case delete_all sq table (map fst removed) c of
        Inl e \<Rightarrow> []
      | Inr c1 \<Rightarrow>
     (case update_all sq table (map (\<lambda>(r, old, new). (r, new)) updated) c1 of
        Inl e \<Rightarrow> []
      | Inr (c2, blocked) \<Rightarrow>
          row_writes sq table
            (map (\<lambda>p. Delete_Row (fst p)) removed @ map (\<lambda>(r, old, new). Update_Row r new) updated @
             map (\<lambda>p. Delete_Row (fst p)) blocked @ map (\<lambda>(r, cs). Insert_Row (Some r) cs) blocked @
             map (Insert_Row None) added) c))"

definition reconcile_rows ::
  "sqlite \<Rightarrow> rstr \<Rightarrow> content \<Rightarrow> content \<Rightarrow> shaped_rows \<Rightarrow> nat list option \<Rightarrow>
   db_error + (content \<times> row_changes \<times> int list)"
where
  "reconcile_rows sq table c stored given key =
     (let rows = stored_form sq table given;
          columns = sr_columns rows;
          compared = compared_columns rows;
          match_on = (case key of Some at \<Rightarrow> at | None \<Rightarrow> compared);
          un = fill_unclaimed match_on (rev (enumerate 0 (map snd stored))) Map.empty;
          cl = claims match_on (sr_cells rows) un;
          removed = removed_rows stored cl;
          updated = updated_rows compared stored cl (sr_cells rows);
          added = added_rows cl (sr_cells rows);
          changes = \<lparr>rc_removed = map (\<lambda>(r, cs). zip columns cs) removed,
            rc_added = map (zip columns) added,
            rc_updated = map (\<lambda>(r, old, new). (zip columns old, zip columns new)) updated,
            rc_keyed = (key \<noteq> None)\<rparr> in
      if no_changes changes then Inr (c, changes, place_rows stored cl [])
      else (case write_changes sq table c removed updated added of
          Inl e \<Rightarrow> Inl (Sqlite e)
        | Inr (c', rs) \<Rightarrow> Inr (c', changes, place_rows stored cl rs)))"

text \<open>The rows a reconciliation writes, its claims as in \<open>reconcile_rows\<close>.\<close>

definition reconcile_writes ::
  "sqlite \<Rightarrow> rstr \<Rightarrow> content \<Rightarrow> content \<Rightarrow> shaped_rows \<Rightarrow> nat list option \<Rightarrow> row_write list"
where
  "reconcile_writes sq table c stored given key =
     (let rows = stored_form sq table given;
          compared = compared_columns rows;
          match_on = (case key of Some at \<Rightarrow> at | None \<Rightarrow> compared);
          cl = claims match_on (sr_cells rows) (fill_unclaimed match_on (rev (enumerate 0 (map snd stored))) Map.empty) in
      change_writes sq table c (removed_rows stored cl) (updated_rows compared stored cl (sr_cells rows))
        (added_rows cl (sr_cells rows)))"

section \<open>Ownership\<close>

text \<open>The bookkeeping beside the tables: \<open>_dirsql_internal_rows\<close>, a row's table, file, index and
  rowid, and \<open>_dirsql_internal_ranges\<close>, a batch's table, owner and first and last rowid.\<close>

record db =
  db_tables :: "rstr \<rightharpoonup> content"
  db_mapping :: "(rstr \<times> rstr \<times> nat \<times> int) list"
  db_ranges :: "(rstr \<times> rstr \<times> int \<times> int) list"

definition no_such_table :: "rstr \<Rightarrow> db_error" where
  "no_such_table table = Sqlite (Sqlite_Failure (ascii ''no such table: '' @ table))"

definition with_table :: "db \<Rightarrow> rstr \<Rightarrow> (content \<Rightarrow> db_error + 'a) \<Rightarrow> db_error + 'a" where
  "with_table db table f =
     (case validate_identifier table of
        Inl e \<Rightarrow> Inl e
      | Inr _ \<Rightarrow> (case db_tables db table of None \<Rightarrow> Inl (no_such_table table) | Some c \<Rightarrow> f c))"

definition mapped_rowids :: "db \<Rightarrow> rstr \<Rightarrow> rstr \<Rightarrow> int list" where
  "mapped_rowids db table file =
     map (\<lambda>(t, f, i, r). r)
       (sort_key (\<lambda>(t, f, i, r). i) (filter (\<lambda>(t, f, i, r). t = table \<and> f = file) (db_mapping db)))"

definition ranges_by_file :: "db \<Rightarrow> rstr \<Rightarrow> rstr \<Rightarrow> (int \<times> int) list" where
  "ranges_by_file db table file =
     map (\<lambda>(t, f, lo, hi). (lo, hi))
       (sort_key (\<lambda>(t, f, lo, hi). lo) (filter (\<lambda>(t, f, lo, hi). t = table \<and> f = file) (db_ranges db)))"

text \<open>The rows a file produced: those it inserted one at a time by their index, then its batches.\<close>

definition rows_of_file :: "db \<Rightarrow> rstr \<Rightarrow> rstr \<Rightarrow> content \<Rightarrow> content" where
  "rows_of_file db table file c =
     List.map_filter (\<lambda>r. map_option (Pair r) (map_of c r)) (mapped_rowids db table file) @
     concat (map (\<lambda>(lo, hi). filter (\<lambda>(r, cs). lo \<le> r \<and> r \<le> hi) c) (ranges_by_file db table file))"

definition get_rows_by_file :: "sqlite \<Rightarrow> db \<Rightarrow> rstr \<Rightarrow> rstr \<Rightarrow> db_error + row list" where
  "get_rows_by_file sq db table file =
     with_table db table (\<lambda>c. Inr (map (\<lambda>(r, cs). zip (sq_columns sq table) cs) (rows_of_file db table file c)))"

definition disown :: "rstr \<Rightarrow> rstr \<Rightarrow> db \<Rightarrow> db" where
  "disown table file db =
     db\<lparr>db_mapping := filter (\<lambda>(t, f, i, r). \<not> (t = table \<and> f = file)) (db_mapping db),
        db_ranges := filter (\<lambda>(t, f, lo, hi). \<not> (t = table \<and> f = file)) (db_ranges db)\<rparr>"

definition disown_range :: "rstr \<Rightarrow> rstr \<Rightarrow> db \<Rightarrow> db" where
  "disown_range table file db =
     db\<lparr>db_ranges := filter (\<lambda>(t, f, lo, hi). \<not> (t = table \<and> f = file)) (db_ranges db)\<rparr>"

definition own_range :: "rstr \<Rightarrow> rstr \<Rightarrow> int list \<Rightarrow> db \<Rightarrow> db" where
  "own_range table owner rs db =
     (if rs = [] then db
      else db\<lparr>db_ranges := db_ranges db @ [(table, owner, Min (set rs), Max (set rs))]\<rparr>)"

definition own_rows :: "rstr \<Rightarrow> rstr \<Rightarrow> int list \<Rightarrow> db \<Rightarrow> db" where
  "own_rows table file rs db =
     db\<lparr>db_mapping := db_mapping db @ map (\<lambda>(i, r). (table, file, i, r)) (enumerate 0 rs)\<rparr>"

definition put_table :: "rstr \<Rightarrow> content \<Rightarrow> db \<Rightarrow> db" where
  "put_table table c db = db\<lparr>db_tables := (db_tables db)(table \<mapsto> c)\<rparr>"

text \<open>What the actions and triggers of the schema make of the other tables.\<close>

definition act :: "sqlite \<Rightarrow> rstr \<Rightarrow> row_write list \<Rightarrow> db \<Rightarrow> db" where
  "act sq table ws db = db\<lparr>db_tables := foldl (\<lambda>tables w. sq_action sq table w tables) (db_tables db) ws\<rparr>"

definition reconcile_batch_rows ::
  "sqlite \<Rightarrow> db \<Rightarrow> rstr \<Rightarrow> rstr \<Rightarrow> shaped_rows \<Rightarrow> db_error + (db \<times> row_changes)"
where
  "reconcile_batch_rows sq db table owner rows =
     with_table db table (\<lambda>c.
       case reconcile_rows sq table c c rows (key_of_rows sq table rows) of
         Inl e \<Rightarrow> Inl e
       | Inr (c', changes, placed) \<Rightarrow>
           let db = act sq table (reconcile_writes sq table c c rows (key_of_rows sq table rows)) db in
           Inr (if rc_removed changes = [] \<and> rc_added changes = [] then put_table table c' db
             else own_range table owner placed (disown_range table owner (put_table table c' db)), changes))"

definition reconcile_file_rows ::
  "sqlite \<Rightarrow> db \<Rightarrow> rstr \<Rightarrow> rstr \<Rightarrow> shaped_rows \<Rightarrow> db_error + (db \<times> row_changes) option"
where
  "reconcile_file_rows sq db table file rows =
     (case validate_identifier table of
        Inl e \<Rightarrow> Inl e
      | Inr _ \<Rightarrow>
          (case key_of_rows sq table rows of
             None \<Rightarrow> Inr None
           | Some key \<Rightarrow>
               with_table db table (\<lambda>c.
                 let stored = rows_of_file db table file c in
                 case reconcile_rows sq table c stored rows (Some key) of
                   Inl e \<Rightarrow> Inl e
                 | Inr (c', changes, placed) \<Rightarrow>
                     let db = act sq table (reconcile_writes sq table c stored rows (Some key)) db in
                     Inr (Some (if placed = map fst stored then put_table table c' db
                       else own_rows table file placed (disown table file (put_table table c' db)), changes)))))"

definition insert_rows ::
  "sqlite \<Rightarrow> db \<Rightarrow> rstr \<Rightarrow> shaped_rows \<Rightarrow> rstr \<Rightarrow> db_error + db"
where
  "insert_rows sq db table rows file =
     with_table db table (\<lambda>c.
       case insert_all sq table (sr_cells rows) c of
         Inl e \<Rightarrow> Inl (Sqlite e)
       | Inr (c', rs) \<Rightarrow>
           let db = act sq table (row_writes sq table (map (Insert_Row None) (sr_cells rows)) c) db in
           Inr (own_range table file rs (put_table table c' db)))"

text \<open>A row given by column name: a column no key names, up to case, takes its default.\<close>

definition named_cells :: "sqlite \<Rightarrow> rstr \<Rightarrow> row \<Rightarrow> cells" where
  "named_cells sq table row =
     map (\<lambda>c. case value_under row c of Some v \<Rightarrow> v | None \<Rightarrow> sq_default sq table c) (sq_columns sq table)"

definition insert_row ::
  "sqlite \<Rightarrow> db \<Rightarrow> rstr \<Rightarrow> row \<Rightarrow> rstr \<Rightarrow> nat \<Rightarrow> db_error + db"
where
  "insert_row sq db table row file index =
     (case find (\<lambda>key. validate_column_key key (sq_columns sq table) \<noteq> Inr ()) (map fst row) of
        Some key \<Rightarrow>
          (case validate_identifier table of Inl e \<Rightarrow> Inl e | Inr _ \<Rightarrow> Inl (Invalid_Identifier key))
      | None \<Rightarrow>
          with_table db table (\<lambda>c.
            case run_insert sq table c None (named_cells sq table row) of
              Inl e \<Rightarrow> Inl (Sqlite e)
            | Inr (c', r) \<Rightarrow>
                let db = act sq table (row_writes sq table [Insert_Row None (named_cells sq table row)] c) db in
                Inr ((put_table table c' db)\<lparr>db_mapping := db_mapping db @ [(table, file, index, r)]\<rparr>)))"

text \<open>The rows deleted are those the mapping names, then each range's; \<open>count\<close> is how many.\<close>

definition delete_rows_by_file :: "sqlite \<Rightarrow> db \<Rightarrow> rstr \<Rightarrow> rstr \<Rightarrow> db_error + (db \<times> nat)" where
  "delete_rows_by_file sq db table file =
     with_table db table (\<lambda>c.
       let mapped = filter (\<lambda>r. r \<in> set (mapped_rowids db table file)) (map fst c) in
       case delete_all sq table mapped c of
         Inl e \<Rightarrow> Inl (Sqlite e)
       | Inr c1 \<Rightarrow>
           (let ranged = filter (\<lambda>r. list_ex (\<lambda>(lo, hi). lo \<le> r \<and> r \<le> hi) (ranges_by_file db table file)) (map fst c1) in
            case delete_all sq table ranged c1 of
              Inl e \<Rightarrow> Inl (Sqlite e)
            | Inr c2 \<Rightarrow>
                let db = act sq table (row_writes sq table (map Delete_Row (mapped @ ranged)) c) db in
                Inr (disown table file (put_table table c2 db), length mapped + length ranged)))"

definition refill_batch_rows ::
  "sqlite \<Rightarrow> db \<Rightarrow> rstr \<Rightarrow> rstr \<Rightarrow> shaped_rows \<Rightarrow> db_error + db"
where
  "refill_batch_rows sq db table owner rows =
     (if key_of_rows sq table rows \<noteq> None
      then (case reconcile_batch_rows sq db table owner rows of Inl e \<Rightarrow> Inl e | Inr (db', ch) \<Rightarrow> Inr db')
      else (case delete_rows_by_file sq db table owner of
          Inl e \<Rightarrow> Inl e
        | Inr (db', n) \<Rightarrow> insert_rows sq db' table rows owner))"

definition owns_rows :: "db \<Rightarrow> rstr \<Rightarrow> rstr \<Rightarrow> bool" where
  "owns_rows db table file \<longleftrightarrow>
     list_ex (\<lambda>(t, f, lo, hi). t = table \<and> f = file) (db_ranges db) \<or>
     list_ex (\<lambda>(t, f, i, r). t = table \<and> f = file) (db_mapping db)"

definition owners :: "db \<Rightarrow> (rstr \<times> rstr) list" where
  "owners db = map (\<lambda>(t, f, i, r). (t, f)) (db_mapping db) @ map (\<lambda>(t, f, lo, hi). (t, f)) (db_ranges db)"

text \<open>\<open>SELECT DISTINCT \<dots> ORDER BY table_name, file_path\<close>.\<close>

definition owned_files :: "db \<Rightarrow> (rstr \<times> rstr) list" where
  "owned_files db = remdups_adj (sort (filter (\<lambda>(t, f). f \<noteq> []) (owners db)))"

definition files_under :: "db \<Rightarrow> rstr \<Rightarrow> (rstr \<times> rstr) list" where
  "files_under db dir = remdups_adj (sort (filter (\<lambda>(t, f). prefix (dir @ [c_slash]) f) (owners db)))"

text \<open>The actions leave the bookkeeping alone, and a table no other table's actions and triggers write.\<close>

lemma act_fields [simp]: "db_mapping (act sq table ws db) = db_mapping db" "db_ranges (act sq table ws db) = db_ranges db"
  by (simp_all add: act_def)

definition acted_on_by_none :: "sqlite \<Rightarrow> rstr \<Rightarrow> bool" where
  "acted_on_by_none sq table \<longleftrightarrow> (\<forall>t w tables. sq_action sq t w tables table = tables table)"

lemma act_leaves: "acted_on_by_none sq t \<Longrightarrow> db_tables (act sq table ws db) t = db_tables db t"
proof -
  assume none: "acted_on_by_none sq t"
  have "foldl (\<lambda>tables w. sq_action sq table w tables) tables ws t = tables t" for tables
    using none by (induction ws arbitrary: tables) (simp_all add: acted_on_by_none_def)
  then show ?thesis by (simp add: act_def)
qed

lemma act_none: "(\<And>w tables. sq_action sq table w tables = tables) \<Longrightarrow> act sq table ws db = db"
proof -
  assume none: "\<And>w tables. sq_action sq table w tables = tables"
  have "foldl (\<lambda>tables w. sq_action sq table w tables) tables ws = tables" for tables
    by (induction ws) (simp_all add: none)
  then show ?thesis by (simp add: act_def)
qed

end
