(* ===== verification/Foreign_Key.thy ===== *)
theory Foreign_Key
  imports Row_Store
begin

text \<open>
  \<open>packages/rust/src/foreign_key.rs\<close>: units of work whose foreign keys are checked at their end, and
  the account of the rows that break one.

  A connection is the database as the statements run so far left it, with what a \<open>ROLLBACK\<close> and a
  \<open>ROLLBACK TO\<close> go back to: the database at the \<open>BEGIN\<close> and at each savepoint still open. Which
  rows match nothing, and whether SQLite lets a \<open>COMMIT\<close> through, is SQLite's to say.
\<close>

section \<open>The engine\<close>

text \<open>How a \<open>COMMIT\<close> ends: with the transaction still open, if SQLite refused it, or rolled back by
  SQLite itself.\<close>

datatype commit_outcome = Committed | Refused sqlite_error | Rolled_Back sqlite_error

text \<open>\<open>en_orphans\<close> is \<open>pragma_foreign_key_check\<close>: the table, rowid, parent and key of each offending
  row; \<open>en_key_columns\<close> the columns of a key from \<open>pragma_foreign_key_list\<close>. \<open>en_show_real\<close> and
  \<open>en_debug\<close> are the standard library's \<open>Display\<close> of an \<open>f64\<close> and \<open>Debug\<close> of a string.\<close>

record engine =
  en_sqlite :: sqlite
  en_orphans :: "db \<Rightarrow> (rstr \<times> int option \<times> rstr \<times> int) list"
  en_key_columns :: "rstr \<Rightarrow> int \<Rightarrow> rstr list"
  en_commit :: "db \<Rightarrow> commit_outcome"
  en_show_real :: "f64 \<Rightarrow> rstr"
  en_debug :: "rstr \<Rightarrow> rstr"

fun sqlite_error_text :: "sqlite_error \<Rightarrow> rstr" where
  "sqlite_error_text (Constraint_Unique m) = m"
| "sqlite_error_text (Sqlite_Failure m) = m"

text \<open>The text of a \<open>DbError\<close>.\<close>

fun db_error_text :: "engine \<Rightarrow> db_error \<Rightarrow> rstr" where
  "db_error_text en (Sqlite e) = ascii ''SQLite error: '' @ sqlite_error_text e"
| "db_error_text en (Schema_Mismatch m) = ascii ''Schema mismatch: '' @ m"
| "db_error_text en (Invalid_Identifier s) =
     ascii ''invalid identifier: '' @ en_debug en s @ ascii '' (must match [A-Za-z_][A-Za-z0-9_]*)''"
| "db_error_text en Write_Forbidden =
     ascii ''query() only accepts read-only statements; SQLite classified this statement as a write''"
| "db_error_text en Multiple_Statements =
     ascii ''query() runs one statement at a time; remove the SQL after the first statement''"
| "db_error_text en (Unauthorized m) = m"
| "db_error_text en (Path_Table m) = m"
| "db_error_text en (Foreign_Key v) = fk_message v"
| "db_error_text en (Params_Error m) = m"
| "db_error_text en (Not_Utf8 c) = ascii ''column '' @ en_debug en c @ ascii '' holds text that is not valid UTF-8''"

section \<open>The offending rows\<close>

definition listed_orphans :: nat where
  "listed_orphans = 10"

text \<open>\<open>owner\<close>: a mapping row is found before a range; the empty path names no file.\<close>

definition owner :: "db \<Rightarrow> rstr \<Rightarrow> int \<Rightarrow> rstr option" where
  "owner db table rowid =
     (let found =
        map (\<lambda>(t, f, i, r). f) (filter (\<lambda>(t, f, i, r). t = table \<and> r = rowid) (db_mapping db)) @
        map (\<lambda>(t, f, lo, hi). f) (filter (\<lambda>(t, f, lo, hi). t = table \<and> lo \<le> rowid \<and> rowid \<le> hi) (db_ranges db)) in
      case found of f # _ \<Rightarrow> if f = [] then None else Some f | [] \<Rightarrow> None)"

fun render_value :: "engine \<Rightarrow> sql_value \<Rightarrow> rstr" where
  "render_value en Null = ascii ''NULL''"
| "render_value en (Integer i) = show_int i"
| "render_value en (Real x) = en_show_real en x"
| "render_value en (Text t) = quote_literal t"
| "render_value en (Blob b) = ascii ''<'' @ show_nat (length b) @ ascii '' byte blob>''"

definition no_row :: sqlite_error where
  "no_row = Sqlite_Failure (ascii ''Query returned no rows'')"

definition no_column :: "rstr \<Rightarrow> sqlite_error" where
  "no_column c = Sqlite_Failure (ascii ''no such column: '' @ quote_identifier c)"

text \<open>The cells \<open>SELECT \<dots> WHERE rowid = ?1\<close> gives for a row, by column name.\<close>

fun selected_cells :: "row \<Rightarrow> rstr list \<Rightarrow> sqlite_error + sql_value list" where
  "selected_cells row [] = Inr []"
| "selected_cells row (c # columns) =
     (case value_under row c of
        None \<Rightarrow> Inl (no_column c)
      | Some v \<Rightarrow> (case selected_cells row columns of Inl e \<Rightarrow> Inl e | Inr vs \<Rightarrow> Inr (v # vs)))"

definition select_row :: "engine \<Rightarrow> db \<Rightarrow> rstr \<Rightarrow> rstr list \<Rightarrow> int \<Rightarrow> sqlite_error + sql_value list" where
  "select_row en db table columns rowid =
     (case Option.bind (db_tables db table) (\<lambda>c. map_of c rowid) of
        None \<Rightarrow> Inl no_row
      | Some cs \<Rightarrow> selected_cells (zip (sq_columns (en_sqlite en) table) cs) columns)"

definition name_row :: "engine \<Rightarrow> db \<Rightarrow> rstr \<times> int option \<times> rstr \<times> int \<Rightarrow> sqlite_error + rstr" where
  "name_row en db orphan =
     (case orphan of (child, rowid, parent, fkid) \<Rightarrow>
        (let columns = en_key_columns en child fkid;
             named = ascii ''`'' @ child @ ascii ''` row'' in
         case rowid of
           None \<Rightarrow> Inr (named @ ascii '' matches no row in `'' @ parent @ ascii ''`'')
         | Some rowid \<Rightarrow>
             (let named = (case owner db child rowid of
                  Some file \<Rightarrow> named @ ascii '' from `'' @ file @ ascii ''`'' | None \<Rightarrow> named) in
              case select_row en db child columns rowid of
                Inl e \<Rightarrow> Inl e
              | Inr vs \<Rightarrow>
                  Inr (named @ ascii '' has '' @
                    join comma_space (map2 (\<lambda>c v. c @ ascii '' = '' @ render_value en v) columns vs) @
                    ascii '', which matches no row in `'' @ parent @ ascii ''`''))))"

fun name_rows ::
  "engine \<Rightarrow> db \<Rightarrow> (rstr \<times> int option \<times> rstr \<times> int) list \<Rightarrow> sqlite_error + rstr list"
where
  "name_rows en db [] = Inr []"
| "name_rows en db (orphan # orphans) =
     (case name_row en db orphan of
        Inl e \<Rightarrow> Inl e
      | Inr named \<Rightarrow> (case name_rows en db orphans of Inl e \<Rightarrow> Inl e | Inr rest \<Rightarrow> Inr (named # rest)))"

definition describe :: "engine \<Rightarrow> db \<Rightarrow> sqlite_error + fk_violation option" where
  "describe en db =
     (let orphans = en_orphans en db in
      case orphans of
        [] \<Rightarrow> Inr None
      | (table, rowid, parent, fkid) # _ \<Rightarrow>
          (case name_rows en db (take listed_orphans orphans) of
             Inl e \<Rightarrow> Inl e
           | Inr rows \<Rightarrow>
               Inr (Some
                 \<lparr>fk_table = table,
                  fk_file = (case rowid of Some r \<Rightarrow> owner db table r | None \<Rightarrow> None),
                  fk_message = ascii ''foreign key violation: '' @ join (ascii ''; '') rows @
                    (if listed_orphans < length orphans
                     then ascii '' (and '' @ show_nat (length orphans - listed_orphans) @ ascii '' more)''
                     else [])\<rparr>)))"

section \<open>Units of work\<close>

record connection =
  cn_db :: db
  cn_open :: "db option"
  cn_saved :: "db list"

definition rolled_back :: "connection \<Rightarrow> connection" where
  "rolled_back conn =
     (case cn_open conn of
        Some db \<Rightarrow> \<lparr>cn_db = db, cn_open = None, cn_saved = []\<rparr>
      | None \<Rightarrow> conn)"

definition begin_unit :: "connection \<Rightarrow> (db_error + unit) \<times> connection" where
  "begin_unit conn =
     (if cn_open conn = None \<and> cn_saved conn = []
      then (Inr (), conn\<lparr>cn_open := Some (cn_db conn)\<rparr>)
      else (Inl (Sqlite (Sqlite_Failure (ascii ''cannot start a transaction within a transaction''))), conn))"

definition commit :: "engine \<Rightarrow> connection \<Rightarrow> (db_error + unit) \<times> connection" where
  "commit en conn =
     (if cn_open conn = None
      then (Inl (Sqlite (Sqlite_Failure (ascii ''cannot commit - no transaction is active''))), conn)
      else (case en_commit en (cn_db conn) of
          Committed \<Rightarrow> (Inr (), \<lparr>cn_db = cn_db conn, cn_open = None, cn_saved = []\<rparr>)
        | Rolled_Back e \<Rightarrow> (Inl (Sqlite e), rolled_back conn)
        | Refused e \<Rightarrow>
            (Inl (case describe en (cn_db conn) of Inr (Some v) \<Rightarrow> Foreign_Key v | _ \<Rightarrow> Sqlite e),
             rolled_back conn)))"

definition discard :: "connection \<Rightarrow> connection" where
  "discard conn =
     (case cn_saved conn of db # saved \<Rightarrow> conn\<lparr>cn_db := db, cn_saved := saved\<rparr> | [] \<Rightarrow> conn)"

text \<open>The outermost savepoint outside a transaction is one, and releasing it a \<open>COMMIT\<close>.\<close>

definition keep :: "engine \<Rightarrow> connection \<Rightarrow> (sqlite_error + unit) \<times> connection" where
  "keep en conn =
     (case cn_saved conn of
        [] \<Rightarrow> (Inl (Sqlite_Failure (ascii ''no such savepoint: dirsql_unit'')), conn)
      | db # saved \<Rightarrow>
          if cn_open conn = None \<and> saved = []
          then (case en_commit en (cn_db conn) of
              Committed \<Rightarrow> (Inr (), conn\<lparr>cn_saved := []\<rparr>)
            | Rolled_Back e \<Rightarrow> (Inl e, conn\<lparr>cn_db := db, cn_saved := []\<rparr>)
            | Refused e \<Rightarrow> (Inl e, conn))
          else (Inr (), conn\<lparr>cn_saved := saved\<rparr>))"

text \<open>A unit that fails leaves no database: whatever its statements did before is discarded.\<close>

definition stage :: "(db \<Rightarrow> db_error + (db \<times> 'a)) \<Rightarrow> connection \<Rightarrow> (db_error + 'a) \<times> connection" where
  "stage f conn =
     (let saved = conn\<lparr>cn_saved := cn_db conn # cn_saved conn\<rparr> in
      case f (cn_db conn) of
        Inl e \<Rightarrow> (Inl e, discard saved)
      | Inr (db, v) \<Rightarrow> (Inr v, saved\<lparr>cn_db := db\<rparr>))"

definition atomically ::
  "engine \<Rightarrow> (db \<Rightarrow> db_error + (db \<times> 'a)) \<Rightarrow> connection \<Rightarrow> (db_error + 'a) \<times> connection"
where
  "atomically en f conn =
     (case stage f conn of
        (Inl e, conn1) \<Rightarrow> (Inl e, conn1)
      | (Inr v, conn1) \<Rightarrow>
          (case keep en conn1 of (Inl e, conn2) \<Rightarrow> (Inl (Sqlite e), conn2) | (Inr _, conn2) \<Rightarrow> (Inr v, conn2)))"

section \<open>Units apply whole or not at all\<close>

lemma stage_open: "cn_open (snd (stage f conn)) = cn_open conn"
  by (auto simp: stage_def Let_def discard_def split: sum.splits)

lemma stage_error: "stage f conn = (Inl e, conn') \<longleftrightarrow> f (cn_db conn) = Inl e \<and> conn' = conn"
  by (auto simp: stage_def Let_def discard_def split: sum.splits)

lemma stage_ok:
  "stage f conn = (Inr v, conn') \<longleftrightarrow>
   (\<exists>db. f (cn_db conn) = Inr (db, v) \<and> conn' = conn\<lparr>cn_db := db, cn_saved := cn_db conn # cn_saved conn\<rparr>)"
  by (auto simp: stage_def Let_def split: sum.splits)

text \<open>Inside a transaction a unit is one function of the database, run whole or not at all.\<close>

lemma atomically_within:
  "cn_open conn = Some start \<Longrightarrow>
   atomically en f conn =
     (case f (cn_db conn) of Inl e \<Rightarrow> (Inl e, conn) | Inr (db, v) \<Rightarrow> (Inr v, conn\<lparr>cn_db := db\<rparr>))"
  by (cases conn) (auto simp: atomically_def stage_def Let_def discard_def keep_def split: sum.splits)

text \<open>Outside one, a refused release leaves the savepoint open; nothing else does.\<close>

lemma atomically_whole:
  "atomically en f conn = (Inr v, conn') \<Longrightarrow>
   \<exists>db. f (cn_db conn) = Inr (db, v) \<and> conn' = conn\<lparr>cn_db := db\<rparr>"
  by (cases conn)
    (auto simp: atomically_def stage_def Let_def discard_def keep_def split: sum.splits list.splits if_splits commit_outcome.splits)

lemma commit_whole:
  "commit en conn = (Inr (), conn') \<Longrightarrow> cn_db conn' = cn_db conn \<and> cn_open conn' = None \<and> cn_saved conn' = []"
  by (auto simp: commit_def split: if_splits commit_outcome.splits)

lemma commit_refused:
  "commit en conn = (Inl e, conn') \<Longrightarrow> cn_open conn = Some start \<Longrightarrow>
   conn' = \<lparr>cn_db = start, cn_open = None, cn_saved = []\<rparr>"
  by (auto simp: commit_def rolled_back_def split: if_splits commit_outcome.splits)

end
