(* ===== verification/Row_Reconcile.thy ===== *)
theory Row_Reconcile
  imports Row_Store
begin

text \<open>
  What \<open>reconcile_rows\<close> of \<open>packages/rust/src/db.rs\<close> leaves behind. A table's content is read as the
  map from its rowids to its cells; each run of statements acts on that map, and the invariant
  \<open>well_stored\<close> says its rows are in rowid order, as wide as the table and in stored form.
\<close>

section \<open>Claims\<close>

text \<open>The indexes waiting under a key are of stored rows with that key, each once.\<close>

definition un_ok :: "nat list \<Rightarrow> cells list \<Rightarrow> unclaimed \<Rightarrow> bool" where
  "un_ok at stored un \<longleftrightarrow>
     (\<forall>k js. un k = Some js \<longrightarrow> distinct js \<and> (\<forall>i\<in>set js. i < length stored \<and> ident at (stored ! i) = k))"

definition waiting :: "unclaimed \<Rightarrow> cells \<Rightarrow> nat set" where
  "waiting un k = (case un k of Some js \<Rightarrow> set js | None \<Rightarrow> {})"

definition claimed :: "nat option list \<Rightarrow> nat list" where
  "claimed cl = List.map_filter (\<lambda>x. x) cl"

lemma claimed_simps [simp]:
  "claimed [] = []" "claimed (None # cl) = claimed cl" "claimed (Some i # cl) = i # claimed cl"
  by (simp_all add: claimed_def List.map_filter_simps)

lemma set_claimed: "set (claimed cl) = {i. Some i \<in> set cl}"
proof (induction cl)
  case (Cons a cl)
  then show ?case by (cases a) auto
qed simp

lemma waiting_ok: "un_ok at stored un \<Longrightarrow> i \<in> waiting un k \<Longrightarrow> i < length stored \<and> ident at (stored ! i) = k"
  by (auto simp: un_ok_def waiting_def split: option.splits)

lemma fill_unclaimed_ok:
  "un_ok at stored un \<Longrightarrow> distinct (map fst es) \<Longrightarrow>
   (\<And>i cs. (i, cs) \<in> set es \<Longrightarrow> i < length stored \<and> stored ! i = cs) \<Longrightarrow>
   (\<And>i cs k. (i, cs) \<in> set es \<Longrightarrow> i \<notin> waiting un k) \<Longrightarrow>
   un_ok at stored (fill_unclaimed at es un) \<and>
   (\<forall>(i, cs)\<in>set es. i \<in> waiting (fill_unclaimed at es un) (ident at cs)) \<and>
   (\<forall>k. waiting un k \<subseteq> waiting (fill_unclaimed at es un) k)"
proof (induction at es un rule: fill_unclaimed.induct)
  case (2 at i cs rest un)
  define un' where "un' = un(ident at cs \<mapsto> i # (case un (ident at cs) of Some js \<Rightarrow> js | None \<Rightarrow> []))"
  have w: "waiting un' k = (if k = ident at cs then insert i (waiting un k) else waiting un k)" for k
    by (auto simp: waiting_def un'_def split: option.splits)
  have i: "i < length stored" "stored ! i = cs" "i \<notin> waiting un (ident at cs)"
    using "2.prems"(3,4) [of i cs] by simp_all
  have "un_ok at stored un'"
    using "2.prems"(1) i unfolding un_ok_def waiting_def un'_def by (auto split: option.splits)
  moreover have "distinct (map fst rest)" using "2.prems"(2) by simp
  moreover have "j < length stored \<and> stored ! j = ds" if "(j, ds) \<in> set rest" for j ds
    using "2.prems"(3) [of j ds] that by simp
  moreover have "j \<notin> waiting un' k" if "(j, ds) \<in> set rest" for j ds k
  proof -
    have "j \<noteq> i" using "2.prems"(2) that by force
    then show ?thesis using "2.prems"(4) [of j ds k] that w [of k] by (auto split: if_splits)
  qed
  ultimately have ih: "un_ok at stored (fill_unclaimed at rest un')"
    "\<forall>(j, ds)\<in>set rest. j \<in> waiting (fill_unclaimed at rest un') (ident at ds)"
    "\<forall>k. waiting un' k \<subseteq> waiting (fill_unclaimed at rest un') k"
    using "2.IH" [folded un'_def] by blast+
  have "fill_unclaimed at ((i, cs) # rest) un = fill_unclaimed at rest un'" by (simp add: un'_def)
  moreover have "i \<in> waiting (fill_unclaimed at rest un') (ident at cs)"
    using ih(3) w [of "ident at cs"] by auto
  moreover have "waiting un k \<subseteq> waiting (fill_unclaimed at rest un') k" for k
    using ih(3) w [of k] by (auto split: if_splits)
  ultimately show ?case using ih(1,2) by auto
qed simp

lemma claims_length [simp]: "length (claims at rows un) = length rows"
  by (induction at rows un rule: claims.induct) (auto split: option.split list.split simp del: fun_upd_apply)

text \<open>A claim is of a waiting row with the new row's key, no row is claimed twice, and a new row claims
  none only when all under its key are claimed.\<close>

definition claims_good :: "nat list \<Rightarrow> cells list \<Rightarrow> unclaimed \<Rightarrow> nat option list \<Rightarrow> bool" where
  "claims_good at rows un cl \<longleftrightarrow>
     (\<forall>(claim, cs)\<in>set (zip cl rows). case claim of
        Some i \<Rightarrow> i \<in> waiting un (ident at cs)
      | None \<Rightarrow> waiting un (ident at cs) \<subseteq> set (claimed cl)) \<and>
     distinct (claimed cl) \<and> (\<forall>i\<in>set (claimed cl). \<exists>k. i \<in> waiting un k)"

lemma claims_good: "un_ok at stored un \<Longrightarrow> claims_good at rows un (claims at rows un)"
proof (induction at rows un rule: claims.induct)
  case (2 at cs rows un)
  show ?case
  proof (cases "un (ident at cs) = None \<or> un (ident at cs) = Some []")
    case True
    then have c: "claims at (cs # rows) un = None # claims at rows un" by auto
    have "waiting un (ident at cs) = {}" using True by (auto simp: waiting_def)
    moreover have "claims_good at rows un (claims at rows un)" using True
    proof
      assume "un (ident at cs) = None"
      then show ?thesis by (rule "2.IH"(1) [OF _ "2.prems"])
    next
      assume "un (ident at cs) = Some []"
      then show ?thesis by (rule "2.IH"(2) [OF _ refl "2.prems"])
    qed
    ultimately show ?thesis unfolding c claims_good_def claimed_simps by (simp add: case_prod_beta)
  next
    case False
    then obtain i rest where ir: "un (ident at cs) = Some (i # rest)" by (cases "un (ident at cs)"; cases "the (un (ident at cs))") auto
    define un' where "un' = un(ident at cs \<mapsto> rest)"
    have c: "claims at (cs # rows) un = Some i # claims at rows un'" using ir by (simp add: un'_def)
    have old: "distinct (i # rest)" "\<forall>j\<in>set (i # rest). j < length stored \<and> ident at (stored ! j) = ident at cs"
      using "2.prems" ir unfolding un_ok_def by blast+
    have ok: "un_ok at stored un'" using "2.prems" old unfolding un_ok_def un'_def by (auto split: if_splits)
    have w: "waiting un k = (if k = ident at cs then insert i (waiting un' k) else waiting un' k)" for k
      using ir by (auto simp: waiting_def un'_def)
    have i: "i \<notin> waiting un' k" for k
    proof
      assume a: "i \<in> waiting un' k"
      have "ident at (stored ! i) = ident at cs" using old by simp
      then have "k = ident at cs" using waiting_ok [OF ok a] by simp
      then show False using a old(1) by (simp add: waiting_def un'_def)
    qed
    have ih: "claims_good at rows un' (claims at rows un')" using "2.IH"(3) [OF ir refl ok [unfolded un'_def]] unfolding un'_def .
    show ?thesis unfolding c claims_good_def
    proof (intro conjI ballI)
      fix p assume "p \<in> set (zip (Some i # claims at rows un') (cs # rows))"
      then consider "p = (Some i, cs)" | "p \<in> set (zip (claims at rows un') rows)" by auto
      then show "case p of (claim, ds) \<Rightarrow> (case claim of Some j \<Rightarrow> j \<in> waiting un (ident at ds)
          | None \<Rightarrow> waiting un (ident at ds) \<subseteq> set (claimed (Some i # claims at rows un')))"
      proof cases
        case 1
        then show ?thesis using w [of "ident at cs"] by simp
      next
        case 2
        then have "case p of (claim, ds) \<Rightarrow> (case claim of Some j \<Rightarrow> j \<in> waiting un' (ident at ds)
          | None \<Rightarrow> waiting un' (ident at ds) \<subseteq> set (claimed (claims at rows un')))"
          using ih unfolding claims_good_def by blast
        then show ?thesis using w by (cases p; cases "fst p") (auto split: if_splits)
      qed
    next
      show "distinct (claimed (Some i # claims at rows un'))" using ih i unfolding claims_good_def by auto
    next
      fix j assume "j \<in> set (claimed (Some i # claims at rows un'))"
      then have "j = i \<or> (\<exists>k. j \<in> waiting un' k)" using ih unfolding claims_good_def by auto
      moreover have "i \<in> waiting un (ident at cs)" "waiting un' k \<subseteq> waiting un k" for k using w by auto
      ultimately show "\<exists>k. j \<in> waiting un k" by blast
    qed
  qed
qed (simp add: claims_good_def)


text \<open>What the reconciliation claims of the stored rows.\<close>

lemma reconcile_claims:
  fixes stored :: content
  defines "un at \<equiv> fill_unclaimed at (rev (enumerate 0 (map snd stored))) Map.empty"
  assumes cl: "cl = claims at rows (un at)"
  shows "length cl = length rows" "distinct (claimed cl)" "\<forall>i\<in>set (claimed cl). i < length stored"
    "(Some i, cs) \<in> set (zip cl rows) \<Longrightarrow> ident at (snd (stored ! i)) = ident at cs"
    "(None, cs) \<in> set (zip cl rows) \<Longrightarrow> i < length stored \<Longrightarrow> ident at (snd (stored ! i)) = ident at cs \<Longrightarrow>
     i \<in> set (claimed cl)"
proof -
  have "un_ok at (map snd stored) Map.empty" by (simp add: un_ok_def)
  moreover have "distinct (map fst (rev (enumerate 0 (map snd stored))))" by (simp add: rev_map [symmetric])
  moreover have "i < length (map snd stored) \<and> map snd stored ! i = cs"
    if "(i, cs) \<in> set (rev (enumerate 0 (map snd stored)))" for i cs
    using that by (auto simp: in_set_enumerate_eq)
  moreover have "j \<notin> waiting Map.empty k" for j k by (simp add: waiting_def)
  ultimately have f: "un_ok at (map snd stored) (un at)"
    "\<forall>(i, cs)\<in>set (rev (enumerate 0 (map snd stored))). i \<in> waiting (un at) (ident at cs)"
    using fill_unclaimed_ok [of at "map snd stored" Map.empty "rev (enumerate 0 (map snd stored))"] unfolding un_def
    by blast+
  note good = claims_good [OF f(1), of rows, folded cl, unfolded claims_good_def]
  show "length cl = length rows" unfolding cl by simp
  show "distinct (claimed cl)" using good by blast
  show "\<forall>i\<in>set (claimed cl). i < length stored" using good waiting_ok [OF f(1)] by fastforce
  show "ident at (snd (stored ! i)) = ident at cs" if "(Some i, cs) \<in> set (zip cl rows)"
  proof -
    have "i \<in> waiting (un at) (ident at cs)" using good that by fastforce
    then show ?thesis using waiting_ok [OF f(1)] by fastforce
  qed
  show "i \<in> set (claimed cl)"
    if "(None, cs) \<in> set (zip cl rows)" "i < length stored" "ident at (snd (stored ! i)) = ident at cs"
  proof -
    have "(i, snd (stored ! i)) \<in> set (rev (enumerate 0 (map snd stored)))"
      using that(2) by (simp add: in_set_enumerate_eq)
    then have "i \<in> waiting (un at) (ident at cs)" using f(2) that(3) by fastforce
    moreover have "waiting (un at) (ident at cs) \<subseteq> set (claimed cl)" using good that(1) by fastforce
    ultimately show ?thesis by blast
  qed
qed

section \<open>Contents as maps\<close>

definition ordered :: "content \<Rightarrow> bool" where
  "ordered c \<longleftrightarrow> sorted (map fst c) \<and> distinct (map fst c)"

lemma map_of_content_del [simp]: "map_of (content_del r c) = (map_of c)(r := None)"
  by (induction c) (auto simp: content_del_def)

lemma content_del_keys [simp]: "fst ` set (content_del r c) = fst ` set c - {r}"
  by (auto simp: content_del_def)

lemma ordered_del: "ordered c \<Longrightarrow> ordered (content_del r c)"
  by (simp add: ordered_def content_del_def sorted_filter distinct_map_filter)

lemma map_of_insort: "r \<notin> fst ` set c \<Longrightarrow> map_of (insort_key fst (r, cs) c) = (map_of c)(r \<mapsto> cs)"
  by (induction c) auto

lemma map_of_content_put [simp]: "map_of (content_put r cs c) = (map_of c)(r \<mapsto> cs)"
  by (simp add: content_put_def map_of_insort)

lemma distinct_insort_keys:
  "r \<notin> fst ` set c \<Longrightarrow> distinct (map fst c) \<Longrightarrow> distinct (map fst (insort_key fst (r, cs) c))"
  by (induction c) (auto simp: set_insort_key)

lemma ordered_put: "ordered c \<Longrightarrow> ordered (content_put r cs c)"
  using ordered_del [of c r] distinct_insort_keys [of r "content_del r c" cs]
  by (simp add: ordered_def content_put_def sorted_insort_key)

lemma ordered_entry: "ordered c \<Longrightarrow> (r, cs) \<in> set c \<longleftrightarrow> map_of c r = Some cs"
  by (simp add: ordered_def)

section \<open>What SQLite is relied on for\<close>

text \<open>Storing a value twice changes nothing more; the alias of the rowid is an integer column; an
  insert gets a rowid not in use, the one asked for or its alias column's value if either is
  given.\<close>

definition sqlite_laws :: "sqlite \<Rightarrow> bool" where
  "sqlite_laws sq \<longleftrightarrow>
     (\<forall>a v. sq_coerce sq a (sq_coerce sq a v) = sq_coerce sq a v) \<and>
     (\<forall>table i. sq_alias sq table = Some i \<longrightarrow> i < length (sq_columns sq table) \<and>
        (\<forall>cs r. length cs = length (sq_columns sq table) \<longrightarrow> coerced sq table cs = cs \<longrightarrow>
           coerced sq table (cs[i := Integer r]) = cs[i := Integer r])) \<and>
     (\<forall>table c want cs r. sq_insert sq table c want cs = Inr r \<longrightarrow>
        r \<notin> fst ` set c \<and> (\<forall>q. want = Some q \<longrightarrow> r = q) \<and>
        (\<forall>i. sq_alias sq table = Some i \<longrightarrow> cs ! i = Null \<or> cs ! i = Integer r))"

definition cells_ok :: "sqlite \<Rightarrow> rstr \<Rightarrow> int \<Rightarrow> cells \<Rightarrow> bool" where
  "cells_ok sq table r cs \<longleftrightarrow>
     length cs = length (sq_columns sq table) \<and> coerced sq table cs = cs \<and>
     (\<forall>i. sq_alias sq table = Some i \<longrightarrow> cs ! i = Integer r)"

definition well_stored :: "sqlite \<Rightarrow> rstr \<Rightarrow> content \<Rightarrow> bool" where
  "well_stored sq table c \<longleftrightarrow> ordered c \<and> (\<forall>r cs. map_of c r = Some cs \<longrightarrow> cells_ok sq table r cs)"

section \<open>The effect of the statements\<close>

lemma run_delete_effect:
  "run_delete sq table c r = Inr c' \<Longrightarrow> well_stored sq table c \<Longrightarrow>
   well_stored sq table c' \<and> map_of c' = (map_of c)(r := None)"
  by (auto simp: run_delete_def well_stored_def ordered_del split: option.splits if_splits)

lemma run_update_effect:
  assumes "run_update sq table c r cs = Inr c'" "well_stored sq table c" "cells_ok sq table r cs" "map_of c r \<noteq> None"
  shows "well_stored sq table c' \<and> map_of c' = (map_of c)(r \<mapsto> cs)"
proof -
  have "updated_rowid (sq_alias sq table) r cs = r"
    using assms(3) by (auto simp: updated_rowid_def cells_ok_def split: option.splits)
  then have "c' = content_put r cs (content_del r c)"
    using assms(1,3,4) by (auto simp: run_update_def Let_def cells_ok_def split: option.splits)
  then show ?thesis
    using assms(2,3) by (auto simp: well_stored_def ordered_put ordered_del split: if_splits)
qed

lemma coerced_length: "length cs = length (sq_columns sq table) \<Longrightarrow> length (coerced sq table cs) = length (sq_columns sq table)"
  by (simp add: coerced_def)

lemma coerced_twice: "sqlite_laws sq \<Longrightarrow> coerced sq table (coerced sq table cs) = coerced sq table cs"
  by (auto simp: sqlite_laws_def coerced_def intro!: nth_equalityI)

lemma run_insert_effect:
  assumes laws: "sqlite_laws sq" and run: "run_insert sq table c want cs = Inr (c', r)"
    and c: "well_stored sq table c" and len: "length cs = length (sq_columns sq table)"
  defines "new \<equiv> inserted_cells (sq_alias sq table) r (coerced sq table cs)"
  shows "well_stored sq table c'" "map_of c' = (map_of c)(r \<mapsto> new)" "map_of c r = None"
    "want = Some q \<Longrightarrow> r = q" "cells_ok sq table q cs \<Longrightarrow> new = cs"
proof -
  have ins: "sq_insert sq table c want (coerced sq table cs) = Inr r" and c': "c' = content_put r new c"
    using run by (auto simp: run_insert_def Let_def new_def split: sum.splits)
  have law: "r \<notin> fst ` set c" "\<forall>q. want = Some q \<longrightarrow> r = q"
    "\<forall>i. sq_alias sq table = Some i \<longrightarrow> coerced sq table cs ! i = Null \<or> coerced sq table cs ! i = Integer r"
    using laws ins unfolding sqlite_laws_def by blast+
  have ok: "cells_ok sq table r new"
  proof (cases "sq_alias sq table")
    case None
    then show ?thesis using len coerced_length [OF len] coerced_twice [OF laws]
      by (simp add: cells_ok_def new_def inserted_cells_def)
  next
    case (Some i)
    define ds where "ds = coerced sq table cs"
    have ds: "length ds = length (sq_columns sq table)" "coerced sq table ds = ds" "ds ! i = Null \<or> ds ! i = Integer r"
      using law(3) Some coerced_length [OF len] coerced_twice [OF laws] by (simp_all add: ds_def)
    have i: "i < length (sq_columns sq table)"
      "coerced sq table (ds[i := Integer r]) = ds[i := Integer r]"
      using laws Some ds unfolding sqlite_laws_def by blast+
    have "new = (if ds ! i = Null then ds[i := Integer r] else ds)"
      using i(1) ds(1) Some by (simp add: new_def inserted_cells_def ds_def [symmetric])
    then show ?thesis using ds i Some by (auto simp: cells_ok_def)
  qed
  show "map_of c' = (map_of c)(r \<mapsto> new)" by (simp add: c')
  show "map_of c r = None" using law(1) by (simp add: map_of_eq_None_iff)
  show "well_stored sq table c'"
    using c ok by (auto simp: well_stored_def c' ordered_put split: if_splits)
  show "want = Some q \<Longrightarrow> r = q" using law(2) by blast
  show "new = cs" if "cells_ok sq table q cs"
    using that by (auto simp: new_def inserted_cells_def cells_ok_def split: option.splits)
qed

lemma delete_all_effect:
  "delete_all sq table rs c = Inr c' \<Longrightarrow> well_stored sq table c \<Longrightarrow>
   well_stored sq table c' \<and> map_of c' = map_of c |` (- set rs)"
proof (induction sq table rs c rule: delete_all.induct)
  case (2 sq table r rs c)
  then obtain c1 where c1: "run_delete sq table c r = Inr c1" "delete_all sq table rs c1 = Inr c'"
    by (auto split: sum.splits)
  note e = run_delete_effect [OF c1(1) "2.prems"(2)]
  show ?case using "2.IH" [OF c1(1,2)] e by (auto simp: restrict_map_def fun_eq_iff)
qed (simp add: restrict_map_def fun_eq_iff)

lemma update_all_effect:
  "update_all sq table us c = Inr (c', blocked) \<Longrightarrow> well_stored sq table c \<Longrightarrow> distinct (map fst us) \<Longrightarrow>
   (\<forall>(r, cs)\<in>set us. cells_ok sq table r cs \<and> map_of c r \<noteq> None) \<Longrightarrow>
   well_stored sq table c' \<and> set blocked \<subseteq> set us \<and> distinct (map fst blocked) \<and>
   (\<forall>r. r \<notin> fst ` set blocked \<longrightarrow> map_of c' r = (map_of c ++ map_of us) r)"
proof (induction sq table us c arbitrary: blocked rule: update_all.induct)
  case (2 sq table r cs us c)
  have ok: "cells_ok sq table r cs" "map_of c r \<noteq> None" "r \<notin> fst ` set us" "distinct (map fst us)"
    using "2.prems"(3,4) by auto
  show ?case
  proof (cases "run_update sq table c r cs")
    case (Inr c1)
    note e = run_update_effect [OF Inr "2.prems"(2) ok(1,2)]
    have u: "update_all sq table us c1 = Inr (c', blocked)" using "2.prems"(1) Inr by simp
    have "\<forall>(q, ds)\<in>set us. cells_ok sq table q ds \<and> map_of c1 q \<noteq> None" using "2.prems"(4) e by auto
    note ih = "2.IH"(2) [OF Inr u conjunct1 [OF e] ok(4) this]
    have "map_of us r = None" using ok(3) by (simp add: map_of_eq_None_iff)
    then have eq: "(map_of c1 ++ map_of us) q = (map_of c ++ map_of ((r, cs) # us)) q" for q
      using e by (auto simp: map_add_def split: option.splits)
    show ?thesis using ih unfolding eq list.set(2) by blast
  next
    case (Inl e)
    show ?thesis
    proof (cases e)
      case (Constraint_Unique x)
      then obtain bl where u: "update_all sq table us c = Inr (c', bl)" "blocked = (r, cs) # bl"
        using "2.prems"(1) Inl by (auto split: sum.splits)
      have "\<forall>(q, ds)\<in>set us. cells_ok sq table q ds \<and> map_of c q \<noteq> None" using "2.prems"(4) by auto
      note ih = "2.IH"(1) [OF Inl Constraint_Unique u(1) "2.prems"(2) ok(4) this]
      then show ?thesis using u(2) ok(3) by (auto simp: map_add_def)
    qed (use "2.prems"(1) Inl in simp)
  qed
qed simp

lemma replace_all_effect:
  "sqlite_laws sq \<Longrightarrow> replace_all sq table us c = Inr c' \<Longrightarrow> well_stored sq table c \<Longrightarrow> distinct (map fst us) \<Longrightarrow>
   (\<forall>(r, cs)\<in>set us. cells_ok sq table r cs) \<Longrightarrow>
   well_stored sq table c' \<and> map_of c' = map_of c ++ map_of us"
proof (induction sq table us c rule: replace_all.induct)
  case (2 sq table r cs us c)
  then obtain c1 q where c1: "run_insert sq table c (Some r) cs = Inr (c1, q)" "replace_all sq table us c1 = Inr c'"
    by (auto split: sum.splits)
  have ok: "cells_ok sq table r cs" "length cs = length (sq_columns sq table)" "r \<notin> fst ` set us" "distinct (map fst us)"
    using "2.prems"(4,5) by (auto simp: cells_ok_def)
  note e = run_insert_effect [OF "2.prems"(1) c1(1) "2.prems"(3) ok(2)]
  have q: "q = r" using e(4) by simp
  have "\<forall>(p, ds)\<in>set us. cells_ok sq table p ds" using "2.prems"(5) by auto
  note ih = "2.IH" [OF c1(1) refl "2.prems"(1) c1(2) e(1) ok(4) this]
  have "map_of us r = None" using ok(3) by (simp add: map_of_eq_None_iff)
  then show ?case using ih e(2) e(5) [OF ok(1)] q by (auto simp: map_add_def fun_eq_iff split: option.splits)
qed simp

lemma insert_all_effect:
  "sqlite_laws sq \<Longrightarrow> insert_all sq table rows c = Inr (c', rs) \<Longrightarrow> well_stored sq table c \<Longrightarrow>
   (\<forall>cs\<in>set rows. length cs = length (sq_columns sq table)) \<Longrightarrow>
   well_stored sq table c' \<and> length rs = length rows \<and> distinct rs \<and> (\<forall>r\<in>set rs. map_of c r = None) \<and>
   (\<forall>r. r \<notin> set rs \<longrightarrow> map_of c' r = map_of c r) \<and>
   (\<forall>(r, cs)\<in>set (zip rs rows). map_of c' r = Some (inserted_cells (sq_alias sq table) r (coerced sq table cs)))"
proof (induction sq table rows c arbitrary: rs rule: insert_all.induct)
  case (2 sq table cs rows c)
  then obtain c1 r rs' where c1: "run_insert sq table c None cs = Inr (c1, r)"
    "insert_all sq table rows c1 = Inr (c', rs')" "rs = r # rs'"
    by (auto split: sum.splits)
  have len: "length cs = length (sq_columns sq table)" "\<forall>cs\<in>set rows. length cs = length (sq_columns sq table)"
    using "2.prems"(4) by auto
  note e = run_insert_effect [OF "2.prems"(1) c1(1) "2.prems"(3) len(1)]
  note ih = "2.IH" [OF c1(1) refl "2.prems"(1) c1(2) e(1) len(2)]
  have r: "r \<notin> set rs'" using ih e(2) by auto
  have "\<forall>q\<in>set rs'. map_of c q = None" using ih e(2) by (auto split: if_splits)
  then show ?case using ih e(2,3) r by (auto simp: c1(3))
qed simp

lemma write_changes_effect:
  assumes laws: "sqlite_laws sq" and w: "write_changes sq table c removed updated added = Inr (c', rs)"
    and c: "well_stored sq table c" and d: "distinct (map fst updated)"
    and u: "\<forall>(r, old, new)\<in>set updated. cells_ok sq table r new \<and> map_of c r \<noteq> None \<and> r \<notin> fst ` set removed"
    and a: "\<forall>cs\<in>set added. length cs = length (sq_columns sq table)"
  defines "kept \<equiv> map_of c |` (- fst ` set removed) ++ map_of (map (\<lambda>(r, old, new). (r, new)) updated)"
  shows "well_stored sq table c'" "length rs = length added" "distinct rs" "\<forall>r\<in>set rs. kept r = None"
    "\<forall>r. r \<notin> set rs \<longrightarrow> map_of c' r = kept r"
    "\<forall>(r, cs)\<in>set (zip rs added). map_of c' r = Some (inserted_cells (sq_alias sq table) r (coerced sq table cs))"
proof -
  let ?us = "map (\<lambda>(r, old, new). (r, new)) updated"
  obtain c1 c2 c3 c4 blocked where
    w1: "delete_all sq table (map fst removed) c = Inr c1" and
    w2: "update_all sq table ?us c1 = Inr (c2, blocked)" and
    w3: "delete_all sq table (map fst blocked) c2 = Inr c3" and
    w4: "replace_all sq table blocked c3 = Inr c4" and
    w5: "insert_all sq table added c4 = Inr (c', rs)"
    using w by (auto simp: write_changes_def split: sum.splits)
  note e1 = delete_all_effect [OF w1 c]
  have us: "distinct (map fst ?us)" using d by (simp add: comp_def case_prod_beta)
  have "\<forall>(r, cs)\<in>set ?us. cells_ok sq table r cs \<and> map_of c1 r \<noteq> None"
    using u e1 by (force simp: restrict_map_def)
  note e2 = update_all_effect [OF w2 conjunct1 [OF e1] us this]
  note e3 = delete_all_effect [OF w3 conjunct1 [OF e2]]
  have "\<forall>(r, cs)\<in>set blocked. cells_ok sq table r cs" using u e2 by fastforce
  note e4 = replace_all_effect [OF laws w4 conjunct1 [OF e3] _ this]
  then have c4: "well_stored sq table c4" using e2 by blast
  have bl: "map_of blocked r = map_of ?us r" if rb: "r \<in> fst ` set blocked" for r
  proof -
    obtain cs where cs: "(r, cs) \<in> set blocked" using rb by auto
    then have "(r, cs) \<in> set ?us" using e2 by blast
    then show ?thesis using cs e2 us by (metis map_of_is_SomeI)
  qed
  have kept: "map_of c4 = kept"
  proof
    fix r
    have "map_of c4 r = (map_of c2 |` (- fst ` set blocked) ++ map_of blocked) r" using e3 e4 e2 by simp
    also have "\<dots> = (map_of c1 ++ map_of ?us) r"
    proof (cases "r \<in> fst ` set blocked")
      case True
      then have "map_of blocked r \<noteq> None" by (simp add: map_of_eq_None_iff)
      then show ?thesis using bl [OF True] by (auto simp: map_add_def split: option.splits)
    next
      case False
      then have "map_of blocked r = None" by (simp add: map_of_eq_None_iff)
      then show ?thesis using e2 False by (simp add: map_add_def)
    qed
    finally show "map_of c4 r = kept r" using e1 by (simp add: kept_def)
  qed
  note e5 = insert_all_effect [OF laws w5 c4 a, unfolded kept]
  show "well_stored sq table c'" "length rs = length added" "distinct rs" "\<forall>r\<in>set rs. kept r = None"
    "\<forall>r. r \<notin> set rs \<longrightarrow> map_of c' r = kept r"
    "\<forall>(r, cs)\<in>set (zip rs added). map_of c' r = Some (inserted_cells (sq_alias sq table) r (coerced sq table cs))"
    using e5 by blast+
qed

section \<open>The rows claimed, updated and added\<close>

lemma merged_cells_facts:
  "length (merged_cells compared old new) = length old"
  "j < length old \<Longrightarrow> merged_cells compared old new ! j = (if j \<in> set compared then new ! j else old ! j)"
  unfolding merged_cells_def
  by (induction compared arbitrary: old) (auto simp: nth_list_update)

lemma updated_rows_iff:
  "(r, old, new) \<in> set (updated_rows compared stored cl rows) \<longleftrightarrow>
     (\<exists>i cs. (Some i, cs) \<in> set (zip cl rows) \<and> stored ! i = (r, old) \<and>
        ident compared old \<noteq> ident compared cs \<and> new = merged_cells compared old cs)"
proof -
  have "x \<in> set (List.map_filter f ps) \<longleftrightarrow> (\<exists>p\<in>set ps. f p = Some x)" for x :: "int \<times> cells \<times> cells" and f ps
    by (induction ps) (auto simp: List.map_filter_simps split: option.splits)
  note in_filter = this
  have "(r, old, new) \<in> set (updated_rows compared stored cl rows) \<longleftrightarrow>
      (\<exists>claim cs. (claim, cs) \<in> set (zip cl rows) \<and>
        (case claim of
           Some i \<Rightarrow>
             if ident compared (snd (stored ! i)) \<noteq> ident compared cs
             then Some (fst (stored ! i), snd (stored ! i), merged_cells compared (snd (stored ! i)) cs)
             else None
         | None \<Rightarrow> None) = Some (r, old, new))"
    unfolding updated_rows_def in_filter Bex_def split_paired_Ex prod.case ..
  also have "\<dots> \<longleftrightarrow> (\<exists>i cs. (Some i, cs) \<in> set (zip cl rows) \<and> stored ! i = (r, old) \<and>
        ident compared old \<noteq> ident compared cs \<and> new = merged_cells compared old cs)" (is "?L \<longleftrightarrow> ?R")
  proof
    assume ?L
    then show ?R by (auto simp: prod_eq_iff split: option.splits if_splits)
  next
    assume ?R
    then obtain i cs where i: "(Some i, cs) \<in> set (zip cl rows)" "stored ! i = (r, old)"
      "ident compared old \<noteq> ident compared cs" "new = merged_cells compared old cs" by blast
    then show ?L by (intro exI [of _ "Some i"] exI [of _ cs]) simp
  qed
  finally show ?thesis .
qed

lemma claimed_zip: "length cl = length rows \<Longrightarrow> i \<in> set (claimed cl) \<longleftrightarrow> (\<exists>cs. (Some i, cs) \<in> set (zip cl rows))"
  by (induction cl rows rule: list_induct2) (auto simp: set_claimed)

lemma updated_rows_distinct:
  assumes "distinct (map fst stored)"
  shows "length cl = length rows \<Longrightarrow> distinct (claimed cl) \<Longrightarrow> \<forall>i\<in>set (claimed cl). i < length stored \<Longrightarrow>
    distinct (map fst (updated_rows compared stored cl rows))"
proof (induction cl rows rule: list_induct2)
  case (Cons claim cl cs rows)
  show ?case
  proof (cases claim)
    case None
    then show ?thesis using Cons by (simp add: updated_rows_def List.map_filter_simps)
  next
    case (Some i)
    have ih: "distinct (map fst (updated_rows compared stored cl rows))" using Cons Some by simp
    have "fst (stored ! i) \<notin> fst ` set (updated_rows compared stored cl rows)"
    proof
      assume "fst (stored ! i) \<in> fst ` set (updated_rows compared stored cl rows)"
      then obtain j ds where j: "(Some j, ds) \<in> set (zip cl rows)" "fst (stored ! j) = fst (stored ! i)"
        by (force simp: updated_rows_iff)
      then have jc: "j \<in> set (claimed cl)" using claimed_zip [OF Cons.hyps] by blast
      then have "i \<noteq> j" "i < length stored" "j < length stored" using Cons.prems Some by auto
      then show False using j(2) assms by (metis distinct_conv_nth length_map nth_map)
    qed
    then show ?thesis using ih Some by (auto simp: updated_rows_def List.map_filter_simps)
  qed
qed (simp add: updated_rows_def List.map_filter_simps)

lemma place_rows_facts:
  "length cl = length rows \<Longrightarrow> length rs = length (added_rows cl rows) \<Longrightarrow>
   length (place_rows stored cl rs) = length rows \<and>
   set (place_rows stored cl rs) = (\<lambda>i. fst (stored ! i)) ` set (claimed cl) \<union> set rs \<and>
   (\<forall>p i cs. (p, Some i, cs) \<in> set (zip (place_rows stored cl rs) (zip cl rows)) \<longrightarrow> p = fst (stored ! i)) \<and>
   (\<forall>p cs. (p, None, cs) \<in> set (zip (place_rows stored cl rs) (zip cl rows)) \<longrightarrow>
      (p, cs) \<in> set (zip rs (added_rows cl rows)))"
proof (induction cl rows arbitrary: rs rule: list_induct2)
  case (Cons claim cl cs rows)
  show ?case
  proof (cases claim)
    case (Some i)
    then have "added_rows (claim # cl) (cs # rows) = added_rows cl rows" by (simp add: added_rows_def)
    then show ?thesis using Cons.IH [of rs] Cons.prems Some by auto
  next
    case None
    have a: "added_rows (claim # cl) (cs # rows) = cs # added_rows cl rows" using None by (simp add: added_rows_def)
    then obtain r rs' where r: "rs = r # rs'" using Cons.prems by (cases rs) auto
    have "length rs' = length (added_rows cl rows)" using Cons.prems a r by simp
    from Cons.IH [OF this] show ?thesis using None r a by (auto split: option.splits)
  qed
qed (simp add: added_rows_def)

lemma place_rows_distinct:
  assumes "distinct (map fst stored)"
  shows "length cl = length rows \<Longrightarrow> length rs = length (added_rows cl rows) \<Longrightarrow> distinct (claimed cl) \<Longrightarrow>
    \<forall>i\<in>set (claimed cl). i < length stored \<Longrightarrow> distinct rs \<Longrightarrow>
    \<forall>i\<in>set (claimed cl). fst (stored ! i) \<notin> set rs \<Longrightarrow> distinct (place_rows stored cl rs)"
proof (induction cl rows arbitrary: rs rule: list_induct2)
  case (Cons claim cl cs rows)
  show ?case
  proof (cases claim)
    case (Some i)
    then have a: "added_rows (claim # cl) (cs # rows) = added_rows cl rows" by (simp add: added_rows_def)
    have "fst (stored ! i) \<notin> set (place_rows stored cl rs)"
    proof
      assume "fst (stored ! i) \<in> set (place_rows stored cl rs)"
      moreover have "set (place_rows stored cl rs) = (\<lambda>i. fst (stored ! i)) ` set (claimed cl) \<union> set rs"
        using place_rows_facts [OF Cons.hyps, of rs] Cons.prems(1) a by simp
      ultimately obtain j where j: "j \<in> set (claimed cl)" "fst (stored ! j) = fst (stored ! i)"
        using Cons.prems(5) Some by auto
      have "i \<noteq> j" "i < length stored" "j < length stored" using Cons.prems(2,3) j(1) Some by auto
      then show False using j(2) assms by (metis distinct_conv_nth length_map nth_map)
    qed
    then show ?thesis using Cons Some a by simp
  next
    case None
    have a: "added_rows (claim # cl) (cs # rows) = cs # added_rows cl rows" using None by (simp add: added_rows_def)
    then obtain r rs' where r: "rs = r # rs'" using Cons.prems by (cases rs) auto
    have "set (place_rows stored cl rs') = (\<lambda>i. fst (stored ! i)) ` set (claimed cl) \<union> set rs'"
      using place_rows_facts [OF Cons.hyps, of rs'] Cons.prems(1) a r by simp
    then show ?thesis using Cons None r a by auto
  qed
qed simp

section \<open>What a reconciliation leaves\<close>

definition shaped_for :: "sqlite \<Rightarrow> rstr \<Rightarrow> shaped_rows \<Rightarrow> bool" where
  "shaped_for sq table rows \<longleftrightarrow>
     sr_columns rows = sq_columns sq table \<and> length (sr_emitted rows) = length (sq_columns sq table) \<and>
     list_all (\<lambda>cs. length cs = length (sq_columns sq table)) (sr_cells rows)"

text \<open>No update moves a row: the alias of the rowid is left out, or the rows are matched by it.\<close>

definition rowids_stay :: "sqlite \<Rightarrow> rstr \<Rightarrow> shaped_rows \<Rightarrow> nat list option \<Rightarrow> bool" where
  "rowids_stay sq table rows key \<longleftrightarrow>
     (case (sq_alias sq table, key) of
        (Some i, Some at) \<Rightarrow> sr_emitted rows ! i \<longrightarrow> i \<in> set at
      | _ \<Rightarrow> True)"

lemma stored_form_facts:
  assumes "shaped_for sq table rows"
  shows "sr_columns (stored_form sq table rows) = sq_columns sq table"
    "compared_columns (stored_form sq table rows) = compared_columns rows"
    "sr_cells (stored_form sq table rows) = map (coerced sq table) (sr_cells rows)"
proof -
  have cells: "sr_cells (stored_form sq table rows) = map (coerced sq table) (sr_cells rows)"
  proof (cases "sr_cells rows = [] \<or> sr_columns rows = []")
    case True
    then have "map (coerced sq table) (sr_cells rows) = sr_cells rows"
      using assms by (auto simp: shaped_for_def coerced_def list_all_iff intro!: map_idI)
    then show ?thesis using True by (simp add: stored_form_def as_stored_def)
  next
    case False
    then show ?thesis using assms by (simp add: stored_form_def as_stored_def coerced_def shaped_for_def Let_def)
  qed
  then show "sr_cells (stored_form sq table rows) = map (coerced sq table) (sr_cells rows)" .
  show "sr_columns (stored_form sq table rows) = sq_columns sq table"
    using assms by (simp add: stored_form_def as_stored_def shaped_for_def Let_def)
  show "compared_columns (stored_form sq table rows) = compared_columns rows"
    by (simp add: stored_form_def as_stored_def compared_columns_def Let_def)
qed

lemma coerced_nth:
  "length cs = length (sq_columns sq table) \<Longrightarrow> j < length cs \<Longrightarrow>
   coerced sq table cs ! j =
     sq_coerce sq (affinity (case sq_declared sq table (sq_columns sq table ! j) of Some d \<Rightarrow> d | None \<Rightarrow> []) (sq_strict sq table)) (cs ! j)"
  by (simp add: coerced_def)

lemma coerced_merged:
  assumes "length old = length (sq_columns sq table)" "length new = length (sq_columns sq table)"
    "coerced sq table old = old" "coerced sq table new = new"
  shows "coerced sq table (merged_cells compared old new) = merged_cells compared old new"
proof (rule nth_equalityI)
  note len = merged_cells_facts(1) [of compared old new]
  show "length (coerced sq table (merged_cells compared old new)) = length (merged_cells compared old new)"
    using assms len by (simp add: coerced_def)
  fix j assume "j < length (coerced sq table (merged_cells compared old new))"
  then have j: "j < length old" using assms len by (simp add: coerced_def)
  define f where "f = sq_coerce sq (affinity (case sq_declared sq table (sq_columns sq table ! j) of Some d \<Rightarrow> d | None \<Rightarrow> [])
    (sq_strict sq table))"
  have f: "coerced sq table cs ! j = f (cs ! j)" if "length cs = length (sq_columns sq table)" for cs
    using coerced_nth [of cs sq table j] that j assms(1) by (simp add: f_def)
  have "f (old ! j) = old ! j" "f (new ! j) = new ! j"
    using f [OF assms(1)] f [OF assms(2)] assms(3,4) by simp_all
  then show "coerced sq table (merged_cells compared old new) ! j = merged_cells compared old new ! j"
    using f [of "merged_cells compared old new"] merged_cells_facts(2) [of j old compared new] assms(1) j len by simp
qed

lemma ident_eqD: "ident at a = ident at b \<Longrightarrow> i \<in> set at \<Longrightarrow> debug_value (a ! i) = debug_value (b ! i)"
  by (auto simp: ident_def)

lemma debug_value_Integer: "debug_value v = Integer n \<longleftrightarrow> v = Integer n"
  by (cases v) auto

lemma nth_fst_inj:
  "distinct (map fst xs) \<Longrightarrow> i < length xs \<Longrightarrow> j < length xs \<Longrightarrow> fst (xs ! i) = fst (xs ! j) \<longleftrightarrow> i = j"
  by (metis distinct_conv_nth length_map nth_map)

lemma removed_rowids: "fst ` set (removed_rows stored cl) = {fst (stored ! i) | i. i < length stored \<and> i \<notin> set (claimed cl)}"
  by (auto simp: removed_rows_def set_claimed)

text \<open>The cells a claimed row ends up with.\<close>

definition settled_cells :: "nat list \<Rightarrow> cells \<Rightarrow> cells \<Rightarrow> cells" where
  "settled_cells compared old new =
     (if ident compared old = ident compared new then old else merged_cells compared old new)"

lemma kept_claimed:
  assumes "length cl = length rows" "distinct (claimed cl)" "\<forall>i\<in>set (claimed cl). i < length stored"
    "distinct (map fst stored)" "(Some i, cs) \<in> set (zip cl rows)" "map_of c (fst (stored ! i)) = Some (snd (stored ! i))"
  shows "(map_of c |` (- fst ` set (removed_rows stored cl)) ++
      map_of (map (\<lambda>(r, old, new). (r, new)) (updated_rows compared stored cl rows))) (fst (stored ! i)) =
    Some (settled_cells compared (snd (stored ! i)) cs)"
proof -
  let ?u = "map (\<lambda>(r, old, new). (r, new)) (updated_rows compared stored cl rows)"
  have i: "i \<in> set (claimed cl)" "i < length stored" using claimed_zip [OF assms(1)] assms(3,5) by blast+
  have gone: "fst (stored ! i) \<notin> fst ` set (removed_rows stored cl)"
    unfolding removed_rowids using i nth_fst_inj [OF assms(4)] by auto
  have dist: "distinct (map fst ?u)"
    using updated_rows_distinct [OF assms(4,1,2,3)] by (simp add: comp_def case_prod_beta)
  have same: "cs' = cs" if s: "(Some i, cs') \<in> set (zip cl rows)" for cs'
    using assms(1,2,5) s
  proof (induction cl rows rule: list_induct2)
    case (Cons x cl y rows)
    then show ?case using claimed_zip [OF Cons.hyps] by (cases x) auto
  qed simp
  have "map_of ?u (fst (stored ! i)) = (if ident compared (snd (stored ! i)) = ident compared cs then None
      else Some (merged_cells compared (snd (stored ! i)) cs))"
  proof (cases "ident compared (snd (stored ! i)) = ident compared cs")
    case True
    have "fst (stored ! i) \<notin> fst ` set ?u"
    proof
      assume "fst (stored ! i) \<in> fst ` set ?u"
      then obtain j cs' where j: "(Some j, cs') \<in> set (zip cl rows)" "fst (stored ! j) = fst (stored ! i)"
        "ident compared (snd (stored ! j)) \<noteq> ident compared cs'"
        by (force simp: updated_rows_iff)
      have "j < length stored" using claimed_zip [OF assms(1)] assms(3) j(1) by blast
      then have "j = i" using nth_fst_inj [OF assms(4)] i(2) j(2) by blast
      then show False using same j(1,3) True by auto
    qed
    then have "map_of ?u (fst (stored ! i)) = None" unfolding map_of_eq_None_iff by simp
    then show ?thesis using True by simp
  next
    case False
    have "(fst (stored ! i), snd (stored ! i), merged_cells compared (snd (stored ! i)) cs) \<in> set (updated_rows compared stored cl rows)"
      unfolding updated_rows_iff using assms(5) False by (intro exI [of _ i] exI [of _ cs]) simp
    then have "(fst (stored ! i), merged_cells compared (snd (stored ! i)) cs) \<in> set ?u" by force
    then show ?thesis using False map_of_is_SomeI [OF dist] by simp
  qed
  then show ?thesis using gone assms(6) by (simp add: map_add_def settled_cells_def)
qed

lemma reconcile_rows_effect:
  assumes laws: "sqlite_laws sq" and c: "well_stored sq table c"
    and stored: "set stored \<subseteq> set c" "distinct (map fst stored)"
    and shaped: "shaped_for sq table given" and stay: "rowids_stay sq table given key"
    and run: "reconcile_rows sq table c stored given key = Inr (c', ch, placed)"
  defines "rows \<equiv> map (coerced sq table) (sr_cells given)" and "compared \<equiv> compared_columns given"
  obtains cl rs where
    "length cl = length rows" "distinct (claimed cl)" "\<forall>i\<in>set (claimed cl). i < length stored"
    "\<forall>i cs. (None, cs) \<in> set (zip cl rows) \<longrightarrow> i < length stored \<longrightarrow> i \<notin> set (claimed cl) \<longrightarrow>
       ident (case key of Some at \<Rightarrow> at | None \<Rightarrow> compared) (snd (stored ! i)) \<noteq>
       ident (case key of Some at \<Rightarrow> at | None \<Rightarrow> compared) cs"
    "length rs = length (added_rows cl rows)" "placed = place_rows stored cl rs" "distinct placed"
    "well_stored sq table c'"
    "\<forall>i cs. (Some i, cs) \<in> set (zip cl rows) \<longrightarrow>
       map_of c' (fst (stored ! i)) = Some (settled_cells compared (snd (stored ! i)) cs)"
    "\<forall>(p, cs)\<in>set (zip rs (added_rows cl rows)). map_of c' p = Some (inserted_cells (sq_alias sq table) p cs)"
    "\<forall>r. r \<notin> fst ` set stored \<longrightarrow> r \<notin> set placed \<longrightarrow> map_of c' r = map_of c r"
    "\<forall>r\<in>fst ` set stored. r \<notin> set placed \<longrightarrow> map_of c' r = None"
    "\<forall>p\<in>set placed. p \<in> fst ` set stored \<or> map_of c p = None"
    "key = None \<longrightarrow> updated_rows compared stored cl rows = []"
    "ch = \<lparr>rc_removed = map (\<lambda>(r, cs). zip (sq_columns sq table) cs) (removed_rows stored cl),
       rc_added = map (zip (sq_columns sq table)) (added_rows cl rows),
       rc_updated = map (\<lambda>(r, old, new). (zip (sq_columns sq table) old, zip (sq_columns sq table) new))
         (updated_rows compared stored cl rows), rc_keyed = (key \<noteq> None)\<rparr>"
proof -
  define match_on where "match_on = (case key of Some at \<Rightarrow> at | None \<Rightarrow> compared)"
  define cl where "cl = claims match_on rows (fill_unclaimed match_on (rev (enumerate 0 (map snd stored))) Map.empty)"
  note cf = reconcile_claims [OF cl_def]
  define removed where "removed = removed_rows stored cl"
  define updated where "updated = updated_rows compared stored cl rows"
  define added where "added = added_rows cl rows"
  define kept where "kept = map_of c |` (- fst ` set removed) ++ map_of (map (\<lambda>(r, old, new). (r, new)) updated)"
  define changes where "changes = \<lparr>rc_removed = map (\<lambda>(r, cs). zip (sq_columns sq table) cs) removed,
       rc_added = map (zip (sq_columns sq table)) added,
       rc_updated = map (\<lambda>(r, old, new). (zip (sq_columns sq table) old, zip (sq_columns sq table) new)) updated,
       rc_keyed = (key \<noteq> None)\<rparr>"
  note defs = removed_def updated_def added_def changes_def cl_def match_on_def rows_def compared_def
  have in_c: "map_of c (fst x) = Some (snd x)" if x: "x \<in> set stored" for x
    using ordered_entry [of c "fst x" "snd x"] c stored(1) x by (auto simp: well_stored_def)
  have row: "length cs = length (sq_columns sq table)" "coerced sq table cs = cs" if cs: "cs \<in> set rows" for cs
    using cs shaped coerced_length coerced_twice [OF laws]
    by (auto simp: rows_def shaped_for_def list_all_iff)
  have dist: "distinct (map fst updated)"
    unfolding updated_def by (rule updated_rows_distinct [OF stored(2) cf(1,2,3)])
  have upd: "cells_ok sq table r new \<and> map_of c r \<noteq> None \<and> r \<notin> fst ` set removed"
    if u: "(r, old, new) \<in> set updated" for r old new
  proof -
    obtain i cs where i: "(Some i, cs) \<in> set (zip cl rows)" "stored ! i = (r, old)"
      "ident compared old \<noteq> ident compared cs" "new = merged_cells compared old cs"
      using u unfolding updated_def updated_rows_iff by blast
    have ic: "i \<in> set (claimed cl)" "i < length stored" using claimed_zip [OF cf(1)] cf(3) i(1) by blast+
    have old: "map_of c r = Some old" using in_c [of "(r, old)"] ic(2) i(2) by (metis fst_conv nth_mem snd_conv)
    then have ok: "cells_ok sq table r old" using c by (simp add: well_stored_def)
    have cs: "length cs = length (sq_columns sq table)" "coerced sq table cs = cs"
      using row set_zip_rightD [OF i(1)] by blast+
    have m: "ident match_on old = ident match_on cs" using cf(4) [OF i(1)] i(2) by simp
    have "new ! j = Integer r" if j: "sq_alias sq table = Some j" for j
    proof -
      have jl: "j < length (sq_columns sq table)" using laws j by (simp add: sqlite_laws_def)
      have oj: "old ! j = Integer r" "length old = length (sq_columns sq table)" using ok j by (simp_all add: cells_ok_def)
      show ?thesis
      proof (cases "j \<in> set compared")
        case True
        then have "sr_emitted given ! j" by (simp add: compared_def compared_columns_def)
        moreover obtain at where "key = Some at" using m i(3) by (cases key) (auto simp: match_on_def)
        ultimately have "j \<in> set match_on" using stay j by (simp add: rowids_stay_def match_on_def)
        then have "cs ! j = Integer r" using ident_eqD [OF m, of j] oj(1) debug_value_Integer [of "cs ! j" r] by simp
        then show ?thesis using merged_cells_facts(2) [of j old compared cs] oj jl i(4) True by simp
      next
        case False
        then show ?thesis using merged_cells_facts(2) [of j old compared cs] oj jl i(4) by simp
      qed
    qed
    then have "cells_ok sq table r new"
      using coerced_merged [of old sq table cs compared] ok cs i(4) merged_cells_facts(1) [of compared old cs]
      by (simp add: cells_ok_def)
    moreover have "r \<notin> fst ` set removed"
      unfolding removed_def removed_rowids using ic nth_fst_inj [OF stored(2) _ ic(2)] i(2) by fastforce
    ultimately show ?thesis using old by simp
  qed
  have added_row: "\<forall>cs\<in>set added. length cs = length (sq_columns sq table)"
    using row(1) by (auto simp: added_def added_rows_def dest: set_zip_rightD)
  obtain rs where rs: "placed = place_rows stored cl rs" "ch = changes" "well_stored sq table c'"
    "length rs = length added" "distinct rs" "\<forall>r\<in>set rs. kept r = None" "\<forall>r. r \<notin> set rs \<longrightarrow> map_of c' r = kept r"
    "\<forall>(r, cs)\<in>set (zip rs added). map_of c' r = Some (inserted_cells (sq_alias sq table) r (coerced sq table cs))"
  proof -
    have r: "(if no_changes changes then Inr (c, changes, place_rows stored cl [])
        else (case write_changes sq table c removed updated added of
          Inl e \<Rightarrow> Inl (Sqlite e) | Inr (c', rs) \<Rightarrow> Inr (c', changes, place_rows stored cl rs))) = Inr (c', ch, placed)"
      using run unfolding reconcile_rows_def Let_def stored_form_facts [OF shaped] defs by simp
    show thesis
    proof (cases "no_changes changes")
      case True
      then have "removed = []" "updated = []" "added = []" by (simp_all add: no_changes_def changes_def)
      then show thesis using r True c by (intro that [of "[]"]) (simp_all add: kept_def)
    next
      case False
      then obtain rs where w: "write_changes sq table c removed updated added = Inr (c', rs)"
        "ch = changes" "placed = place_rows stored cl rs"
        using r by (auto split: sum.splits)
      note e = write_changes_effect [OF laws w(1) c dist _ added_row, folded kept_def]
      show thesis using upd w(2,3) by (intro that [of rs] e) auto
    qed
  qed
  have kept_claim: "kept (fst (stored ! i)) = Some (settled_cells compared (snd (stored ! i)) cs)"
    if z: "(Some i, cs) \<in> set (zip cl rows)" for i cs
    unfolding kept_def removed_def updated_def
    using kept_claimed [OF cf(1,2,3) stored(2) z] in_c claimed_zip [OF cf(1)] cf(3) z nth_mem by blast
  have fresh: "\<forall>i\<in>set (claimed cl). fst (stored ! i) \<notin> set rs"
    using kept_claim claimed_zip [OF cf(1)] rs(6) by fastforce
  note pf = place_rows_facts [OF cf(1) rs(4) [unfolded added_def], of stored, folded rs(1)]
  have kept_other: "kept r = map_of c r" if r: "r \<notin> fst ` set stored" for r
  proof -
    have "r \<notin> fst ` set removed" unfolding removed_def removed_rowids using r by force
    moreover have "r \<notin> fst ` set (map (\<lambda>(r, old, new). (r, new)) updated)"
    proof
      assume "r \<in> fst ` set (map (\<lambda>(r, old, new). (r, new)) updated)"
      then obtain i cs where i: "(Some i, cs) \<in> set (zip cl rows)" "fst (stored ! i) = r"
        by (force simp: updated_def updated_rows_iff)
      have "i < length stored" using claimed_zip [OF cf(1)] cf(3) i(1) by blast
      then show False using r i(2) by (metis image_eqI nth_mem)
    qed
    then have "map_of (map (\<lambda>(r, old, new). (r, new)) updated) r = None" unfolding map_of_eq_None_iff .
    ultimately show ?thesis by (simp add: kept_def map_add_def)
  qed
  have kept_gone: "kept (fst (stored ! i)) = None" if i: "i < length stored" "i \<notin> set (claimed cl)" for i
  proof -
    have "fst (stored ! i) \<in> fst ` set removed" unfolding removed_def removed_rowids using i by auto
    moreover have "fst (stored ! i) \<notin> fst ` set (map (\<lambda>(r, old, new). (r, new)) updated)"
    proof
      assume "fst (stored ! i) \<in> fst ` set (map (\<lambda>(r, old, new). (r, new)) updated)"
      then obtain old new where "(fst (stored ! i), old, new) \<in> set updated" by auto
      then show False using upd calculation by blast
    qed
    then have "map_of (map (\<lambda>(r, old, new). (r, new)) updated) (fst (stored ! i)) = None" unfolding map_of_eq_None_iff .
    ultimately show ?thesis by (simp add: kept_def map_add_def)
  qed
  show thesis
  proof (rule that [of cl rs])
    show "length cl = length rows" "distinct (claimed cl)" "\<forall>i\<in>set (claimed cl). i < length stored" by (rule cf)+
    show "\<forall>i cs. (None, cs) \<in> set (zip cl rows) \<longrightarrow> i < length stored \<longrightarrow> i \<notin> set (claimed cl) \<longrightarrow>
       ident (case key of Some at \<Rightarrow> at | None \<Rightarrow> compared) (snd (stored ! i)) \<noteq>
       ident (case key of Some at \<Rightarrow> at | None \<Rightarrow> compared) cs"
      using cf(5) unfolding match_on_def [symmetric] by blast
    show "length rs = length (added_rows cl rows)" using rs(4) by (simp add: added_def)
    show "placed = place_rows stored cl rs" by (rule rs(1))
    show "distinct placed"
      unfolding rs(1) by (rule place_rows_distinct [OF stored(2) cf(1) rs(4) [unfolded added_def] cf(2,3) rs(5) fresh])
    show "well_stored sq table c'" by (rule rs(3))
    show "\<forall>i cs. (Some i, cs) \<in> set (zip cl rows) \<longrightarrow>
       map_of c' (fst (stored ! i)) = Some (settled_cells compared (snd (stored ! i)) cs)"
      using kept_claim rs(7) fresh claimed_zip [OF cf(1)] by metis
    show "\<forall>(p, cs)\<in>set (zip rs (added_rows cl rows)). map_of c' p = Some (inserted_cells (sq_alias sq table) p cs)"
    proof clarify
      fix p cs assume z: "(p, cs) \<in> set (zip rs (added_rows cl rows))"
      then have "cs \<in> set rows" by (auto simp: added_rows_def dest!: set_zip_rightD)
      then show "map_of c' p = Some (inserted_cells (sq_alias sq table) p cs)"
        using rs(8) z row(2) unfolding added_def by fastforce
    qed
    show "\<forall>r. r \<notin> fst ` set stored \<longrightarrow> r \<notin> set placed \<longrightarrow> map_of c' r = map_of c r"
      using pf rs(7) kept_other by auto
    show "\<forall>r\<in>fst ` set stored. r \<notin> set placed \<longrightarrow> map_of c' r = None"
    proof clarify
      fix r cs assume "(r, cs) \<in> set stored" "fst (r, cs) \<notin> set placed"
      then obtain i where i: "i < length stored" "stored ! i = (r, cs)" "r \<notin> set placed"
        by (auto simp: in_set_conv_nth)
      then have "i \<notin> set (claimed cl)" "r \<notin> set rs" using pf by force+
      then show "map_of c' (fst (r, cs)) = None" using kept_gone [OF i(1)] rs(7) i(2) by simp
    qed
    show "\<forall>p\<in>set placed. p \<in> fst ` set stored \<or> map_of c p = None"
    proof
      fix p assume "p \<in> set placed"
      then consider i where "i \<in> set (claimed cl)" "p = fst (stored ! i)" | "p \<in> set rs" using pf by auto
      then show "p \<in> fst ` set stored \<or> map_of c p = None"
      proof cases
        case 1
        then show ?thesis using cf(3) nth_mem by blast
      next
        case 2
        then show ?thesis using rs(6) kept_other [of p] by metis
      qed
    qed
    show "key = None \<longrightarrow> updated_rows compared stored cl rows = []"
    proof
      assume "key = None"
      then have "ident compared (snd (stored ! i)) = ident compared cs" if "(Some i, cs) \<in> set (zip cl rows)" for i cs
        using cf(4) [OF that] by (simp add: match_on_def)
      then have "x \<notin> set (updated_rows compared stored cl rows)" for x
        using updated_rows_iff [of "fst x" "fst (snd x)" "snd (snd x)"] by force
      then show "updated_rows compared stored cl rows = []" by (metis list.set_intros(1) neq_Nil_conv)
    qed
    show "ch = \<lparr>rc_removed = map (\<lambda>(r, cs). zip (sq_columns sq table) cs) (removed_rows stored cl),
       rc_added = map (zip (sq_columns sq table)) (added_rows cl rows),
       rc_updated = map (\<lambda>(r, old, new). (zip (sq_columns sq table) old, zip (sq_columns sq table) new))
         (updated_rows compared stored cl rows), rc_keyed = (key \<noteq> None)\<rparr>"
      using rs(2) by (simp add: defs)
  qed
qed


section \<open>Where rows end up\<close>

text \<open>Where a row ends up holding the cells it was given, as its columns store them, up to the
  payload of a NaN; a rowid alias given as \<open>NULL\<close> is filled in.\<close>

definition holds_row :: "sqlite \<Rightarrow> rstr \<Rightarrow> nat list \<Rightarrow> content \<Rightarrow> int \<Rightarrow> cells \<Rightarrow> bool" where
  "holds_row sq table compared c r cs \<longleftrightarrow>
     (case map_of c r of
        None \<Rightarrow> False
      | Some ds \<Rightarrow>
          list_all (\<lambda>i. debug_value (ds ! i) = debug_value (coerced sq table cs ! i) \<or>
            (sq_alias sq table = Some i \<and> coerced sq table cs ! i = Null)) compared)"

lemma settled_cells_nth:
  "i \<in> set compared \<Longrightarrow> i < length old \<Longrightarrow> debug_value (settled_cells compared old new ! i) = debug_value (new ! i)"
  using merged_cells_facts(2) [of i old compared new] ident_eqD [of compared old new i]
  by (auto simp: settled_cells_def)

lemma place_rows_zip:
  "length cl = length rows \<Longrightarrow> length rs = length (added_rows cl rows) \<Longrightarrow>
   (p, cs) \<in> set (zip (place_rows stored cl rs) rows) \<Longrightarrow>
   (\<exists>i. (Some i, cs) \<in> set (zip cl rows) \<and> p = fst (stored ! i)) \<or> (p, cs) \<in> set (zip rs (added_rows cl rows))"
proof (induction cl rows arbitrary: rs rule: list_induct2)
  case (Cons claim cl ds rows)
  show ?case
  proof (cases claim)
    case (Some i)
    then have "added_rows (claim # cl) (ds # rows) = added_rows cl rows" by (simp add: added_rows_def)
    then show ?thesis using Cons.IH [of rs] Cons.prems Some by auto
  next
    case None
    have a: "added_rows (claim # cl) (ds # rows) = ds # added_rows cl rows" using None by (simp add: added_rows_def)
    then obtain r rs' where r: "rs = r # rs'" using Cons.prems by (cases rs) auto
    have "length rs' = length (added_rows cl rows)" using Cons.prems a r by simp
    from Cons.IH [OF this] Cons.prems show ?thesis using None r a by auto
  qed
qed simp

text \<open>The columns rows are matched by, and rows equal in them.\<close>

definition match_columns :: "shaped_rows \<Rightarrow> nat list option \<Rightarrow> nat list" where
  "match_columns rows key = (case key of Some at \<Rightarrow> at | None \<Rightarrow> compared_columns rows)"

definition same_key :: "nat list \<Rightarrow> row \<Rightarrow> row \<Rightarrow> bool" where
  "same_key at old new \<longleftrightarrow> ident at (map snd old) = ident at (map snd new)"

lemma stored_width:
  assumes "well_stored sq table c" "x \<in> set c"
  shows "length (snd x) = length (sq_columns sq table)"
proof -
  have "map_of c (fst x) = Some (snd x)"
    using ordered_entry [of c "fst x" "snd x"] assms by (simp add: well_stored_def)
  then show ?thesis using assms(1) by (simp add: well_stored_def cells_ok_def)
qed

section \<open>Replaying the changes\<close>

lemma replay_frame: "replay say es M = Some N \<Longrightarrow> replay say es (M + K) = Some (N + K)"
proof (induction es arbitrary: M)
  case (Cons e es)
  then obtain M' where m: "replay1 say e M = Some M'" "replay say es M' = Some N" by (auto simp: bind_eq_Some_conv)
  have "replay1 say e (M + K) = Some (M' + K)" using m(1) by (cases e) (auto split: if_splits)
  then show ?case using Cons.IH [OF m(2)] by simp
qed simp

lemma replay_diff_keyed:
  "replay say (diff_keyed t removed updated added p) (M + bag say removed + bag say (map fst updated)) =
     Some (M + bag say (map snd updated) + bag say added)"
proof -
  have "replay say (map (\<lambda>r. Delete t r p) removed) (M + bag say removed + bag say (map fst updated)) =
      Some (M + bag say (map fst updated))"
    using replay_deletes [of say t p removed "M + bag say (map fst updated)"] by (simp add: ac_simps)
  then show ?thesis by (simp add: diff_keyed_def replay_append replay_updates replay_inserts)
qed

lemma claimed_split:
  fixes Z :: "cells \<Rightarrow> row"
  shows "length cl = length rows \<Longrightarrow>
   \<exists>M. bag say (map (\<lambda>i. Z (snd (stored ! i))) (claimed cl)) =
       M + bag say (map (\<lambda>(r, old, new). Z old) (updated_rows compared stored cl rows)) \<and>
     bag say (map (\<lambda>(claim, cs). Z (case claim of Some i \<Rightarrow> settled_cells compared (snd (stored ! i)) cs | None \<Rightarrow> cs))
       (zip cl rows)) =
       M + bag say (map (\<lambda>(r, old, new). Z new) (updated_rows compared stored cl rows)) +
       bag say (map Z (added_rows cl rows))"
proof (induction cl rows rule: list_induct2)
  case (Cons claim cl cs rows)
  then obtain M where m: "bag say (map (\<lambda>i. Z (snd (stored ! i))) (claimed cl)) =
       M + bag say (map (\<lambda>(r, old, new). Z old) (updated_rows compared stored cl rows))"
     "bag say (map (\<lambda>(claim, cs). Z (case claim of Some i \<Rightarrow> settled_cells compared (snd (stored ! i)) cs | None \<Rightarrow> cs))
       (zip cl rows)) =
       M + bag say (map (\<lambda>(r, old, new). Z new) (updated_rows compared stored cl rows)) +
       bag say (map Z (added_rows cl rows))" by blast
  show ?case
  proof (cases claim)
    case None
    then show ?thesis using m by (intro exI [of _ M]) (simp add: updated_rows_def added_rows_def List.map_filter_simps)
  next
    case (Some i)
    let ?M = "if ident compared (snd (stored ! i)) = ident compared cs then add_mset (say (Z (snd (stored ! i)))) M else M"
    show ?thesis using m Some
      by (intro exI [of _ ?M])
        (simp add: updated_rows_def added_rows_def List.map_filter_simps settled_cells_def)
  qed
qed (simp add: updated_rows_def added_rows_def List.map_filter_simps)

lemma bag_stored:
  assumes "distinct (claimed cl)" "\<forall>i\<in>set (claimed cl). i < length stored"
  shows "bag say (map (\<lambda>x. Z (snd x)) stored) =
    bag say (map (\<lambda>x. Z (snd x)) (removed_rows stored cl)) + bag say (map (\<lambda>i. Z (snd (stored ! i))) (claimed cl))"
proof -
  have "mset (claimed cl) = mset (filter (\<lambda>i. Some i \<in> set cl) [0..<length stored])"
    by (rule set_eq_iff_mset_eq_distinct [THEN iffD1]) (use assms in \<open>auto simp: set_claimed\<close>)
  then have "mset (filter (\<lambda>i. Some i \<notin> set cl) [0..<length stored]) + mset (claimed cl) = mset [0..<length stored]"
    by (metis add.commute mset_filter multiset_partition)
  then have "image_mset g (mset (filter (\<lambda>i. Some i \<notin> set cl) [0..<length stored])) + image_mset g (mset (claimed cl)) =
      image_mset g (mset [0..<length stored])" for g :: "nat \<Rightarrow> row"
    by (metis image_mset_union)
  from this [of "\<lambda>i. say (Z (snd (stored ! i)))"]
  have "mset (map (\<lambda>i. say (Z (snd (stored ! i)))) (filter (\<lambda>i. Some i \<notin> set cl) [0..<length stored])) +
      mset (map (\<lambda>i. say (Z (snd (stored ! i)))) (claimed cl)) = mset (map (\<lambda>i. say (Z (snd (stored ! i)))) [0..<length stored])"
    by (simp only: mset_map)
  moreover have "map (\<lambda>i. say (Z (snd (stored ! i)))) [0..<length stored] = map (\<lambda>x. say (Z (snd x))) stored"
    by (rule nth_equalityI) simp_all
  ultimately show ?thesis by (simp only: bag_def removed_rows_def map_map comp_def)
qed


text \<open>The events a reconciliation's changes are reported as.\<close>

definition change_events :: "rstr \<Rightarrow> rstr \<Rightarrow> row_changes \<Rightarrow> row_event list" where
  "change_events table path changes =
     (if rc_keyed changes then diff_keyed table (rc_removed changes) (rc_updated changes) (rc_added changes) path
      else the (diff_unordered table (rc_removed changes) (rc_added changes) path))"

definition rows_at :: "sqlite \<Rightarrow> rstr \<Rightarrow> content \<Rightarrow> int list \<Rightarrow> row list" where
  "rows_at sq table c rs = map (\<lambda>r. zip (sq_columns sq table) (case map_of c r of Some cs \<Rightarrow> cs | None \<Rightarrow> [])) rs"

text \<open>No row leaves an alias of the rowid to be filled in.\<close>

definition alias_given :: "sqlite \<Rightarrow> rstr \<Rightarrow> shaped_rows \<Rightarrow> bool" where
  "alias_given sq table rows \<longleftrightarrow>
     (case sq_alias sq table of
        Some i \<Rightarrow> list_all (\<lambda>cs. coerced sq table cs ! i \<noteq> Null) (sr_cells rows)
      | None \<Rightarrow> True)"

lemma change_events_replay:
  assumes "sqlite_laws sq" "well_stored sq table c" "set stored \<subseteq> set c" "distinct (map fst stored)"
    "shaped_for sq table rows" "rowids_stay sq table rows key"
    "reconcile_rows sq table c stored rows key = Inr (c', changes, placed)" "alias_given sq table rows"
  shows "replay row_key (change_events table path changes) (bag row_key (rows_at sq table c (map fst stored))) =
    Some (bag row_key (rows_at sq table c' placed))"
proof -
  let ?rows = "map (coerced sq table) (sr_cells rows)" and ?compared = "compared_columns rows"
  let ?Z = "zip (sq_columns sq table)"
  obtain cl rs where e:
    "length cl = length ?rows" "distinct (claimed cl)" "\<forall>i\<in>set (claimed cl). i < length stored"
    "length rs = length (added_rows cl ?rows)" "placed = place_rows stored cl rs"
    "\<forall>i cs. (Some i, cs) \<in> set (zip cl ?rows) \<longrightarrow>
       map_of c' (fst (stored ! i)) = Some (settled_cells ?compared (snd (stored ! i)) cs)"
    "\<forall>(p, cs)\<in>set (zip rs (added_rows cl ?rows)). map_of c' p = Some (inserted_cells (sq_alias sq table) p cs)"
    "key = None \<longrightarrow> updated_rows ?compared stored cl ?rows = []"
    "changes = \<lparr>rc_removed = map (\<lambda>(r, cs). ?Z cs) (removed_rows stored cl),
       rc_added = map ?Z (added_rows cl ?rows),
       rc_updated = map (\<lambda>(r, old, new). (?Z old, ?Z new)) (updated_rows ?compared stored cl ?rows),
       rc_keyed = (key \<noteq> None)\<rparr>"
    by (rule reconcile_rows_effect [OF assms(1-7)]) blast
  define g where "g = (\<lambda>(claim, cs). ?Z (case claim of Some i \<Rightarrow> settled_cells ?compared (snd (stored ! i)) cs | None \<Rightarrow> cs))"
  have in_c: "map_of c (fst x) = Some (snd x)" if "x \<in> set stored" for x
    using ordered_entry [of c "fst x" "snd x"] assms(2,3) that by (auto simp: well_stored_def)
  have old: "rows_at sq table c (map fst stored) = map (\<lambda>x. ?Z (snd x)) stored"
    using in_c by (auto simp: rows_at_def)
  note pf = place_rows_facts [OF e(1,4), of stored, folded e(5)]
  have given: "inserted_cells (sq_alias sq table) p cs = cs" if "cs \<in> set ?rows" for p cs
    using assms(8) that by (auto simp: alias_given_def inserted_cells_def list_all_iff split: option.splits)
  have final: "rows_at sq table c' placed = map g (zip cl ?rows)"
  proof (rule nth_equalityI)
    show len: "length (rows_at sq table c' placed) = length (map g (zip cl ?rows))"
      using pf e(1) by (simp add: rows_at_def)
    fix k assume "k < length (rows_at sq table c' placed)"
    then have k: "k < length placed" "k < length cl" "k < length ?rows" using len e(1) by (simp_all add: rows_at_def)
    then have z: "(placed ! k, cl ! k, ?rows ! k) \<in> set (zip placed (zip cl ?rows))"
      by (force simp: set_zip)
    have zc: "(cl ! k, ?rows ! k) \<in> set (zip cl ?rows)" using k by (force simp: set_zip)
    have "map_of c' (placed ! k) = Some (case cl ! k of Some i \<Rightarrow> settled_cells ?compared (snd (stored ! i)) (?rows ! k) | None \<Rightarrow> ?rows ! k)"
    proof (cases "cl ! k")
      case None
      then have "(placed ! k, ?rows ! k) \<in> set (zip rs (added_rows cl ?rows))" using pf z by metis
      then show ?thesis using e(7) given [of "?rows ! k"] k(3) None nth_mem [OF k(3)] by fastforce
    next
      case (Some i)
      then have "placed ! k = fst (stored ! i)" "(Some i, ?rows ! k) \<in> set (zip cl ?rows)" using pf z zc by metis+
      then show ?thesis using e(6) Some by fastforce
    qed
    then show "rows_at sq table c' placed ! k = map g (zip cl ?rows) ! k"
      using k by (auto simp: rows_at_def g_def split: option.splits)
  qed
  obtain M where M:
    "bag row_key (map (\<lambda>i. ?Z (snd (stored ! i))) (claimed cl)) =
       M + bag row_key (map (\<lambda>(r, old, new). ?Z old) (updated_rows ?compared stored cl ?rows))"
    "bag row_key (map g (zip cl ?rows)) =
       M + bag row_key (map (\<lambda>(r, old, new). ?Z new) (updated_rows ?compared stored cl ?rows)) +
       bag row_key (map ?Z (added_rows cl ?rows))"
    using claimed_split [OF e(1), of row_key ?Z stored ?compared] unfolding g_def by blast
  have start: "bag row_key (rows_at sq table c (map fst stored)) =
      M + bag row_key (rc_removed changes) + bag row_key (map fst (rc_updated changes))"
    using bag_stored [OF e(2,3), of row_key ?Z] M(1) unfolding old
    by (simp add: e(9) comp_def case_prod_beta' ac_simps)
  have finish: "bag row_key (rows_at sq table c' placed) =
      M + bag row_key (map snd (rc_updated changes)) + bag row_key (rc_added changes)"
    using M(2) unfolding final by (simp add: e(9) comp_def case_prod_beta')
  show ?thesis
  proof (cases "rc_keyed changes")
    case True
    then show ?thesis using replay_diff_keyed [of row_key table _ _ _ path M] unfolding start finish
      by (simp add: change_events_def)
  next
    case False
    then have u: "rc_updated changes = []" using e(8,9) by simp
    have "replay row_key (the (diff_unordered table (rc_removed changes) (rc_added changes) path)) (bag row_key (rc_removed changes)) =
        Some (bag row_key (rc_added changes))"
      by (rule unordered.replay_delta)
    from replay_frame [OF this, of M] show ?thesis
      using False u unfolding start finish by (simp add: change_events_def ac_simps)
  qed
qed

lemma reconcile_stores:
  assumes "sqlite_laws sq" "well_stored sq table c" "set stored \<subseteq> set c" "distinct (map fst stored)"
    "shaped_for sq table rows" "rowids_stay sq table rows key"
    "reconcile_rows sq table c stored rows key = Inr (c', changes, placed)"
  shows "well_stored sq table c' \<and> length placed = length (sr_cells rows) \<and> distinct placed \<and>
    list_all2 (holds_row sq table (compared_columns rows) c') placed (sr_cells rows) \<and>
    (\<forall>r. r \<notin> set placed \<longrightarrow> map_of c' r = (if r \<in> fst ` set stored then None else map_of c r)) \<and>
    (\<forall>r\<in>set placed. r \<in> fst ` set stored \<or> map_of c r = None) \<and>
    list_all (\<lambda>old. list_all (\<lambda>new. \<not> same_key (match_columns rows key) old new) (rc_added changes)) (rc_removed changes)"
proof -
  let ?rows = "map (coerced sq table) (sr_cells rows)" and ?compared = "compared_columns rows"
  obtain cl rs where e:
    "length cl = length ?rows" "\<forall>i\<in>set (claimed cl). i < length stored"
    "length rs = length (added_rows cl ?rows)" "placed = place_rows stored cl rs" "distinct placed"
    "well_stored sq table c'"
    "\<forall>i cs. (Some i, cs) \<in> set (zip cl ?rows) \<longrightarrow>
       map_of c' (fst (stored ! i)) = Some (settled_cells ?compared (snd (stored ! i)) cs)"
    "\<forall>(p, cs)\<in>set (zip rs (added_rows cl ?rows)). map_of c' p = Some (inserted_cells (sq_alias sq table) p cs)"
    "\<forall>r. r \<notin> fst ` set stored \<longrightarrow> r \<notin> set placed \<longrightarrow> map_of c' r = map_of c r"
    "\<forall>r\<in>fst ` set stored. r \<notin> set placed \<longrightarrow> map_of c' r = None"
    "\<forall>p\<in>set placed. p \<in> fst ` set stored \<or> map_of c p = None"
    "\<forall>i cs. (None, cs) \<in> set (zip cl ?rows) \<longrightarrow> i < length stored \<longrightarrow> i \<notin> set (claimed cl) \<longrightarrow>
       ident (match_columns rows key) (snd (stored ! i)) \<noteq> ident (match_columns rows key) cs"
    "changes = \<lparr>rc_removed = map (\<lambda>(r, cs). zip (sq_columns sq table) cs) (removed_rows stored cl),
       rc_added = map (zip (sq_columns sq table)) (added_rows cl ?rows),
       rc_updated = map (\<lambda>(r, old, new). (zip (sq_columns sq table) old, zip (sq_columns sq table) new))
         (updated_rows ?compared stored cl ?rows), rc_keyed = (key \<noteq> None)\<rparr>"
    unfolding match_columns_def by (rule reconcile_rows_effect [OF assms]) blast
  have len: "length placed = length (sr_cells rows)"
    using place_rows_facts [OF e(1,3), of stored] e(4) by simp
  have width: "i < length (sq_columns sq table)" if "i \<in> set ?compared" for i
    using that assms(5) by (auto simp: compared_columns_def shaped_for_def)
  have "holds_row sq table ?compared c' p cs" if z: "(p, cs) \<in> set (zip placed (sr_cells rows))" for p cs
  proof -
    have "(p, coerced sq table cs) \<in> set (zip placed ?rows)" using z by (force simp: zip_map2)
    then consider i where "(Some i, coerced sq table cs) \<in> set (zip cl ?rows)" "p = fst (stored ! i)"
      | "(p, coerced sq table cs) \<in> set (zip rs (added_rows cl ?rows))"
      using place_rows_zip [OF e(1,3)] e(4) by blast
    then show ?thesis
    proof cases
      case 1
      have m: "map_of c' p = Some (settled_cells ?compared (snd (stored ! i)) (coerced sq table cs))"
        using e(7) 1 by blast
      have "stored ! i \<in> set c" using e(2) claimed_zip [OF e(1)] 1(1) assms(3) nth_mem by blast
      then have "length (snd (stored ! i)) = length (sq_columns sq table)" by (rule stored_width [OF assms(2)])
      then show ?thesis using m width settled_cells_nth [of _ ?compared "snd (stored ! i)"]
        by (simp add: holds_row_def list_all_iff)
    next
      case 2
      then have "map_of c' p = Some (inserted_cells (sq_alias sq table) p (coerced sq table cs))" using e(8) by fastforce
      then show ?thesis
        by (auto simp: holds_row_def list_all_iff inserted_cells_def nth_list_update split: option.split)
    qed
  qed
  then have "list_all2 (holds_row sq table ?compared c') placed (sr_cells rows)"
    using len by (auto simp: list_all2_iff)
  moreover have "\<not> same_key (match_columns rows key) old new"
    if old: "old \<in> set (rc_removed changes)" and new: "new \<in> set (rc_added changes)" for old new
  proof -
    obtain i where i: "i < length stored" "i \<notin> set (claimed cl)" "old = zip (sq_columns sq table) (snd (stored ! i))"
      using old e(13) by (auto simp: removed_rows_def set_claimed case_prod_beta)
    obtain cs where cs: "(None, cs) \<in> set (zip cl ?rows)" "new = zip (sq_columns sq table) cs"
      using new e(13) by (auto simp: added_rows_def)
    have "stored ! i \<in> set c" using assms(3) i(1) nth_mem by blast
    then have "length (snd (stored ! i)) = length (sq_columns sq table)" by (rule stored_width [OF assms(2)])
    moreover have "length cs = length (sq_columns sq table)"
      using set_zip_rightD [OF cs(1)] assms(5) coerced_length by (auto simp: shaped_for_def list_all_iff)
    ultimately show ?thesis using e(12) i(1,2) cs(1) unfolding i(3) cs(2) same_key_def by simp
  qed
  moreover have "\<forall>r. r \<notin> set placed \<longrightarrow> map_of c' r = (if r \<in> fst ` set stored then None else map_of c r)"
    using e(9) bspec [OF e(10)] by presburger
  ultimately show ?thesis using e(5,6,11) len unfolding list_all_iff by blast
qed

section \<open>A concrete SQLite\<close>

text \<open>A SQLite that stores what it is given, refuses only a rowid in use, and gives the next rowid;
  its tables have the columns \<open>id\<close> and \<open>name\<close>, the first naming the rowid if \<open>named\<close>.\<close>

definition next_rowid :: "content \<Rightarrow> int" where
  "next_rowid c = foldr max (map fst c) 0 + 1"

definition small_sqlite :: "bool \<Rightarrow> rstr option list list \<Rightarrow> sqlite" where
  "small_sqlite named uniques = \<lparr>
     sq_columns = \<lambda>t. [ascii ''id'', ascii ''name''], sq_declared = \<lambda>t n. None, sq_default = \<lambda>t n. Null,
     sq_strict = \<lambda>t. False, sq_primary_key = \<lambda>t. if named then [Some (ascii ''id'')] else [],
     sq_unique_indexes = \<lambda>t. uniques, sq_alias = \<lambda>t. if named then Some 0 else None,
     sq_coerce = \<lambda>a v. v, sq_delete = \<lambda>t c r. None, sq_update = \<lambda>t c r cs. None,
     sq_insert = \<lambda>t c want cs.
       let r = (case want of Some q \<Rightarrow> q
         | None \<Rightarrow> if named then (case cs ! 0 of Integer q \<Rightarrow> q | _ \<Rightarrow> next_rowid c) else next_rowid c) in
       if list_ex (\<lambda>p. fst p = r) c \<or> (named \<and> cs ! 0 \<noteq> Null \<and> cs ! 0 \<noteq> Integer r)
       then Inl (Sqlite_Failure []) else Inr r,
     sq_action = \<lambda>t w tables. tables\<rparr>"

lemma small_coerced [simp]: "length cs = 2 \<Longrightarrow> coerced (small_sqlite named uniques) table cs = cs"
  by (auto simp: coerced_def small_sqlite_def numeral_2_eq_2 length_Suc_conv)

lemma small_act [simp]: "act (small_sqlite named uniques) table ws db = db"
  by (rule act_none) (simp add: small_sqlite_def)

lemma small_columns [simp]: "length (sq_columns (small_sqlite named uniques) table) = 2"
  by (simp add: small_sqlite_def)

lemma small_alias [simp]: "sq_alias (small_sqlite named uniques) table = (if named then Some 0 else None)"
  by (simp add: small_sqlite_def)

lemma small_insert:
  "sq_insert (small_sqlite named uniques) table c want cs = Inr r \<Longrightarrow>
   r \<notin> fst ` set c \<and> (\<forall>q. want = Some q \<longrightarrow> r = q) \<and> (named \<longrightarrow> cs ! 0 = Null \<or> cs ! 0 = Integer r)"
  by (auto simp: small_sqlite_def Let_def list_ex_iff split: if_splits)

lemma small_coerce: "sq_coerce (small_sqlite named uniques) a v = v"
  by (simp add: small_sqlite_def)

lemma small_sqlite_laws: "sqlite_laws (small_sqlite named uniques)"
  unfolding sqlite_laws_def
proof (intro conjI allI impI)
  fix table c want cs r
  assume "sq_insert (small_sqlite named uniques) table c want cs = Inr r"
  note f = small_insert [OF this]
  show "r \<notin> fst ` set c" using f by blast
  show "r = q" if "want = Some q" for q using f that by blast
  show "cs ! i = Null \<or> cs ! i = Integer r" if "sq_alias (small_sqlite named uniques) table = Some i" for i
    using f that by (auto split: if_splits)
next
  fix table i and cs :: cells and r
  assume "sq_alias (small_sqlite named uniques) table = Some i"
  then have i: "i = 0" by (simp split: if_splits)
  show "i < length (sq_columns (small_sqlite named uniques) table)" by (simp add: i)
  assume "length cs = length (sq_columns (small_sqlite named uniques) table)"
  then show "coerced (small_sqlite named uniques) table (cs[i := Integer r]) = cs[i := Integer r]" by simp
qed (simp add: small_coerce)

definition names :: "(sql_value \<times> rstr) list \<Rightarrow> shaped_rows" where
  "names rs = \<lparr>sr_columns = [ascii ''id'', ascii ''name''], sr_cells = map (\<lambda>(i, n). [i, Text n]) rs,
     sr_emitted = [list_ex (\<lambda>(i, n). i \<noteq> Null) rs, True]\<rparr>"

lemmas small_run = reconcile_rows_def Let_def stored_form_def as_stored_def names_def small_sqlite_def compared_columns_def
  ident_def removed_rows_def updated_rows_def added_rows_def no_changes_def write_changes_def run_delete_def
  run_insert_def run_update_def coerced_def content_del_def next_rowid_def List.map_filter_simps content_put_def inserted_cells_def
  merged_cells_def updated_rowid_def enumerate_eq_zip

section \<open>Properties\<close>

text \<open>C19: reconciling makes the stored rows the given ones and touches no other. When SQLite refuses
  nothing, each given row is at its own rowid, holding its cells as the columns store them; the
  stored rows not carried over are gone, the rows of other owners are as they were, the table keeps
  its invariant, and only the difference was written: no row removed has the key of a row added.\<close>

theorem reconcile_rows_stores:
  assumes "sqlite_laws sq" "well_stored sq table c" "set stored \<subseteq> set c" "distinct (map fst stored)"
    "shaped_for sq table rows" "rowids_stay sq table rows key"
    "reconcile_rows sq table c stored rows key = Inr (c', changes, placed)"
  shows "well_stored sq table c' \<and> length placed = length (sr_cells rows) \<and> distinct placed \<and>
    list_all2 (holds_row sq table (compared_columns rows) c') placed (sr_cells rows) \<and>
    (\<forall>r. r \<notin> set placed \<longrightarrow> map_of c' r = (if r \<in> fst ` set stored then None else map_of c r)) \<and>
    (\<forall>r\<in>set placed. r \<in> fst ` set stored \<or> map_of c r = None) \<and>
    list_all (\<lambda>old. list_all (\<lambda>new. \<not> same_key (match_columns rows key) old new) (rc_added changes)) (rc_removed changes)"
  by (rule reconcile_stores [OF assms])

theorem reconcile_rows_stores_witness:
  "case reconcile_rows (small_sqlite False []) (ascii ''t'') [(1, [Null, Text (ascii ''a'')]), (2, [Null, Text (ascii ''b'')])]
       [(1, [Null, Text (ascii ''a'')])] (names [(Null, ascii ''c'')]) None of
     Inl e \<Rightarrow> False
   | Inr (c', changes, placed) \<Rightarrow>
       placed = [3] \<and> map_of c' 3 = Some [Null, Text (ascii ''c'')] \<and> map_of c' 1 = None \<and>
       map_of c' 2 = Some [Null, Text (ascii ''b'')]"
proof -
  let ?sq = "small_sqlite False []" and ?c = "[(1, [Null, Text (ascii ''a'')]), (2, [Null, Text (ascii ''b'')])]"
  let ?st = "[(1, [Null, Text (ascii ''a'')])]" and ?rows = "names [(Null, ascii ''c'')]"
  have c: "well_stored ?sq (ascii ''t'') ?c"
    by (auto simp: well_stored_def ordered_def cells_ok_def small_sqlite_def coerced_def split: if_splits)
  have shaped: "shaped_for ?sq (ascii ''t'') ?rows" "rowids_stay ?sq (ascii ''t'') ?rows None"
    by (simp_all add: shaped_for_def names_def small_sqlite_def rowids_stay_def)
  obtain c' ch where run: "reconcile_rows ?sq (ascii ''t'') ?c ?st ?rows None = Inr (c', ch, [3])"
    "map_of c' 3 = Some [Null, Text (ascii ''c'')]"
    by (simp add: reconcile_rows_def Let_def stored_form_def as_stored_def names_def small_sqlite_def compared_columns_def
        ident_def removed_rows_def updated_rows_def added_rows_def no_changes_def write_changes_def run_delete_def
        run_insert_def coerced_def content_del_def next_rowid_def List.map_filter_simps content_put_def inserted_cells_def)
  have "\<forall>r. r \<notin> {3} \<longrightarrow> map_of c' r = (if r \<in> {1} then None else map_of ?c r)"
    using reconcile_rows_stores [OF small_sqlite_laws c _ _ shaped run(1)] by simp
  then show ?thesis using run by simp
qed

text \<open>An insert event for a table with a generated key carries \<open>NULL\<close> for the key, the delete
  event of the same row the key SQLite gave it: a consumer that replays the events is told to delete
  a row it never had.\<close>

theorem generated_key_not_told:
  "\<exists>c ch c' ch' p.
     reconcile_rows (small_sqlite True []) (ascii ''t'') [] [] (names [(Null, ascii ''a'')]) None = Inr (c, ch, [1]) \<and>
     reconcile_rows (small_sqlite True []) (ascii ''t'') c c (names []) None = Inr (c', ch', p) \<and> c' = [] \<and>
     replay row_key (change_events (ascii ''t'') [] ch @ change_events (ascii ''t'') [] ch') {#} = None"
proof -
  let ?sq = "small_sqlite True []" and ?n = "Text (ascii ''a'')"
  have "reconcile_rows ?sq (ascii ''t'') [] [] (names [(Null, ascii ''a'')]) None =
     Inr ([(1, [Integer 1, ?n])], \<lparr>rc_removed = [], rc_added = [[(ascii ''id'', Null), (ascii ''name'', ?n)]],
       rc_updated = [], rc_keyed = False\<rparr>, [1])"
    by (simp add: small_run)
  moreover have "reconcile_rows ?sq (ascii ''t'') [(1, [Integer 1, ?n])] [(1, [Integer 1, ?n])] (names []) None =
     Inr ([], \<lparr>rc_removed = [[(ascii ''id'', Integer 1), (ascii ''name'', ?n)]], rc_added = [],
       rc_updated = [], rc_keyed = False\<rparr>, [])"
    by (simp add: small_run)
  ultimately show ?thesis by (simp add: change_events_def diff_unordered_def row_key_def)
qed

text \<open>C20: a stored row matched by a unique name while the rows give its \<open>INTEGER PRIMARY KEY\<close> moves to
  the new key's rowid; the ownership still names the old one, so deleting the file's rows leaves the
  row behind.\<close>

theorem moved_row_not_owned:
  "\<exists>db ch db' n.
     reconcile_file_rows (small_sqlite True [[Some (ascii ''name'')]])
       \<lparr>db_tables = [ascii ''t'' \<mapsto> [(1, [Integer 1, Text (ascii ''a'')])]],
        db_mapping = [(ascii ''t'', ascii ''f'', 0, 1)], db_ranges = []\<rparr>
       (ascii ''t'') (ascii ''f'') (names [(Integer 7, ascii ''a''), (Null, ascii ''b'')]) = Inr (Some (db, ch)) \<and>
     delete_rows_by_file (small_sqlite True [[Some (ascii ''name'')]]) db (ascii ''t'') (ascii ''f'') = Inr (db', n) \<and>
     db_tables db' (ascii ''t'') = Some [(7, [Integer 7, Text (ascii ''a'')])] \<and>
     \<not> owns_rows db' (ascii ''t'') (ascii ''f'')"
proof -
  let ?sq = "small_sqlite True [[Some (ascii ''name'')]]" and ?t = "ascii ''t''" and ?f = "ascii ''f''"
  let ?a = "Text (ascii ''a'')" and ?b = "Text (ascii ''b'')" and ?rows = "names [(Integer 7, ascii ''a''), (Null, ascii ''b'')]"
  let ?c = "[(7, [Integer 7, ?a]), (8, [Integer 8, ?b])]"
  have vi: "validate_identifier ?t = Inr ()" by code_simp
  have key: "key_of_rows ?sq ?t ?rows = Some [1]"
    by (simp add: key_of_rows_def key_candidates_def small_sqlite_def names_def populated_def)
  obtain ch where run: "reconcile_rows ?sq ?t [(1, [Integer 1, ?a])] [(1, [Integer 1, ?a])] ?rows (Some [1]) = Inr (?c, ch, [1, 8])"
    by (simp add: small_run)
  let ?db = "\<lparr>db_tables = [?t \<mapsto> ?c], db_mapping = [(?t, ?f, 0, 1), (?t, ?f, 1, 8)], db_ranges = []\<rparr>"
  have "reconcile_file_rows ?sq
       \<lparr>db_tables = [?t \<mapsto> [(1, [Integer 1, ?a])]], db_mapping = [(?t, ?f, 0, 1)], db_ranges = []\<rparr> ?t ?f ?rows =
     Inr (Some (?db, ch))"
    using run key vi by (simp add: reconcile_file_rows_def with_table_def rows_of_file_def
        mapped_rowids_def ranges_by_file_def put_table_def own_rows_def disown_def List.map_filter_simps enumerate_eq_zip)
  moreover have "delete_rows_by_file ?sq ?db ?t ?f =
     Inr (\<lparr>db_tables = [?t \<mapsto> [(7, [Integer 7, ?a])]], db_mapping = [], db_ranges = []\<rparr>, 1)"
    using vi by (simp add: delete_rows_by_file_def with_table_def mapped_rowids_def ranges_by_file_def
        put_table_def disown_def run_delete_def small_sqlite_def content_del_def Let_def act_def)
  ultimately show ?thesis by (simp add: owns_rows_def)
qed

end
