(* ===== verification/Row_Owners.thy ===== *)
theory Row_Owners
  imports Row_Reconcile
begin

text \<open>
  What the operations of \<open>packages/rust/src/db.rs\<close> on the rows of a file or of a batch do to the rows
  of a table as a bag, and the events that tell of it. The invariant \<open>table_ok\<close> says who owns what;
  each operation keeps it, and the changes it reports, replayed, turn the old bag into the new.
\<close>

section \<open>Rows of a content\<close>

definition cell_row :: "rstr list \<Rightarrow> int \<times> cells \<Rightarrow> row" where
  "cell_row columns p = norm_row (zip columns (snd p))"

definition map_bag :: "rstr list \<Rightarrow> (int \<rightharpoonup> cells) \<Rightarrow> bag" where
  "map_bag columns m = image_mset (cell_row columns) (mset_set (Map.graph m))"

lemma content_bag:
  "distinct (map fst c) \<Longrightarrow> image_mset (cell_row columns) (mset c) = map_bag columns (map_of c)"
  using mset_set_set [of c] by (simp add: map_bag_def graph_map_of_if_distinct_dom distinct_map)

lemma finite_graph_restrict: "finite (Map.graph m) \<Longrightarrow> finite (Map.graph (m |` S))"
  by (rule finite_subset [of _ "Map.graph m"]) (auto simp: Map.graph_def restrict_map_def split: if_splits)

lemma map_bag_split:
  assumes "finite (Map.graph m)"
  shows "map_bag columns m = map_bag columns (m |` S) + map_bag columns (m |` (- S))"
proof -
  have g: "Map.graph m = Map.graph (m |` S) \<union> Map.graph (m |` (- S))"
    "Map.graph (m |` S) \<inter> Map.graph (m |` (- S)) = {}"
    by (auto simp: Map.graph_def restrict_map_def split: if_splits)
  have "mset_set (Map.graph m) = mset_set (Map.graph (m |` S)) + mset_set (Map.graph (m |` (- S)))"
    using mset_set_Union [OF finite_graph_restrict [OF assms] finite_graph_restrict [OF assms] g(2)] unfolding g(1) [symmetric] .
  then show ?thesis by (simp add: map_bag_def)
qed

lemma listed_bag:
  "distinct rs \<Longrightarrow> set rs \<subseteq> dom m \<Longrightarrow>
   bag norm_row (map (\<lambda>r. zip columns (case m r of Some cs \<Rightarrow> cs | None \<Rightarrow> [])) rs) = map_bag columns (m |` set rs)"
proof -
  assume d: "distinct rs" and s: "set rs \<subseteq> dom m"
  let ?g = "\<lambda>r. (r, the (m r))"
  have "Map.graph (m |` set rs) = ?g ` set rs"
    using s by (auto simp: Map.graph_def restrict_map_def split: if_splits)
  moreover have "inj_on ?g (set rs)" by (simp add: inj_on_def)
  ultimately have "mset_set (Map.graph (m |` set rs)) = image_mset ?g (mset rs)"
    using d by (simp add: image_mset_mset_set [symmetric] mset_set_set)
  then have "map_bag columns (m |` set rs) = mset (map (cell_row columns \<circ> ?g) rs)"
    by (simp add: map_bag_def multiset.map_comp)
  also have "map (cell_row columns \<circ> ?g) rs = map norm_row (map (\<lambda>r. zip columns (case m r of Some cs \<Rightarrow> cs | None \<Rightarrow> [])) rs)"
    using s by (force simp: cell_row_def)
  finally show ?thesis by (simp add: bag_def)
qed

section \<open>Replaying under a coarser reading\<close>

lemma replay_coarser:
  assumes "\<And>r. say' r = f (say r)"
  shows "replay say es M = Some N \<Longrightarrow> replay say' es (image_mset f M) = Some (image_mset f N)"
proof (induction es arbitrary: M)
  case (Cons e es)
  then obtain M' where m: "replay1 say e M = Some M'" "replay say es M' = Some N" by (auto simp: bind_eq_Some_conv)
  have "replay1 say' e (image_mset f M) = Some (image_mset f M')"
    using m(1) by (cases e) (auto simp: assms image_mset_Diff split: if_splits)
  then show ?case using Cons.IH [OF m(2)] by simp
qed simp

lemma norm_debug: "norm_row (row_key r) = norm_row r"
proof -
  have "norm_value (debug_value v) = norm_value v" for v by (cases v) auto
  then show ?thesis by (cases r) (simp_all add: norm_row_def row_key_def prod.map_comp comp_def apsnd_def id_def)
qed

lemma replay_norm:
  assumes "replay row_key es (bag row_key old) = Some (bag row_key new)"
  shows "replay norm_row es (bag norm_row old) = Some (bag norm_row new)"
proof -
  have b: "image_mset norm_row (bag row_key rows) = bag norm_row rows" for rows
    by (induction rows) (simp_all add: norm_debug)
  from replay_coarser [of norm_row norm_row row_key, OF norm_debug [symmetric] assms] show ?thesis unfolding b .
qed

section \<open>What the database says of a table\<close>

definition rows_bag :: "sqlite \<Rightarrow> rstr \<Rightarrow> db \<Rightarrow> bag" where
  "rows_bag sq table db =
     (case db_tables db table of
        None \<Rightarrow> {#}
      | Some c \<Rightarrow> image_mset (cell_row (sq_columns sq table)) (mset c))"

definition owned_rowids :: "rstr \<Rightarrow> db \<Rightarrow> int list" where
  "owned_rowids table db = map (\<lambda>(t, f, i, r). r) (filter (\<lambda>(t, f, i, r). t = table) (db_mapping db))"

text \<open>A table's rows are in order and in stored form. A per-table hook's are no file's; else each row
  a file owns is there and is no other's.\<close>

definition table_ok :: "sqlite \<Rightarrow> bool \<Rightarrow> rstr \<Rightarrow> db \<Rightarrow> bool" where
  "table_ok sq per table db \<longleftrightarrow>
     (\<forall>c. db_tables db table = Some c \<longrightarrow> well_stored sq table c \<and>
       (if per then owned_rowids table db = [] \<and> (\<forall>(t, f, lo, hi)\<in>set (db_ranges db). t = table \<longrightarrow> f = [])
        else (\<forall>(t, f, lo, hi)\<in>set (db_ranges db). t \<noteq> table) \<and> distinct (owned_rowids table db) \<and>
          set (owned_rowids table db) \<subseteq> fst ` set c))"

lemma well_stored_bag:
  "well_stored sq table c \<Longrightarrow> image_mset (cell_row columns) (mset c) = map_bag columns (map_of c)"
  by (simp add: well_stored_def ordered_def content_bag)

lemma finite_graph_of [simp]: "finite (Map.graph (map_of c))"
  using finite_graph_map_of by simp

lemma mapped_rowids_facts:
  "mset (mapped_rowids db table file) =
     mset (map (\<lambda>(t, f, i, r). r) (filter (\<lambda>(t, f, i, r). t = table \<and> f = file) (db_mapping db)))"
  by (simp add: mapped_rowids_def mset_map)

lemma mset_filter_split:
  "mset (map g (filter P xs)) =
     mset (map g (filter (\<lambda>x. P x \<and> Q x) xs)) + mset (map g (filter (\<lambda>x. P x \<and> \<not> Q x) xs))"
  by (induction xs) auto

definition others_rowids :: "rstr \<Rightarrow> rstr \<Rightarrow> db \<Rightarrow> int list" where
  "others_rowids table file db =
     map (\<lambda>(t, f, i, r). r) (filter (\<lambda>(t, f, i, r). t = table \<and> f \<noteq> file) (db_mapping db))"

lemma owned_split:
  "mset (owned_rowids table db) = mset (mapped_rowids db table file) + mset (others_rowids table file db)"
  unfolding mapped_rowids_facts owned_rowids_def others_rowids_def
  using mset_filter_split [of "\<lambda>(t, f, i, r). r" "\<lambda>(t, f, i, r). t = table" "db_mapping db" "\<lambda>(t, f, i, r). f = file"]
  by (simp add: case_prod_beta)

lemma owned_facts:
  assumes "distinct (owned_rowids table db)"
  shows "distinct (mapped_rowids db table file)" "distinct (others_rowids table file db)"
    "set (mapped_rowids db table file) \<inter> set (others_rowids table file db) = {}"
    "set (owned_rowids table db) = set (mapped_rowids db table file) \<union> set (others_rowids table file db)"
proof -
  have m: "mset (owned_rowids table db) = mset (mapped_rowids db table file @ others_rowids table file db)"
    by (simp add: owned_split [of table db "file"])
  then have "distinct (mapped_rowids db table file @ others_rowids table file db)"
    using assms mset_eq_imp_distinct_iff by blast
  then show "distinct (mapped_rowids db table file)" "distinct (others_rowids table file db)"
    "set (mapped_rowids db table file) \<inter> set (others_rowids table file db) = {}" by simp_all
  show "set (owned_rowids table db) = set (mapped_rowids db table file) \<union> set (others_rowids table file db)"
    using mset_eq_setD [OF m] by simp
qed

lemma no_ranges_by_file:
  "\<forall>(t, f, lo, hi)\<in>set (db_ranges db). t \<noteq> table \<Longrightarrow> ranges_by_file db table file = []"
  by (auto simp: ranges_by_file_def filter_empty_conv)

lemma rows_of_file_mapped:
  assumes "\<forall>(t, f, lo, hi)\<in>set (db_ranges db). t \<noteq> table" "set (owned_rowids table db) \<subseteq> fst ` set c"
    "distinct (owned_rowids table db)"
  shows "rows_of_file db table file c = map (\<lambda>r. (r, the (map_of c r))) (mapped_rowids db table file)"
proof -
  have there: "\<exists>cs. map_of c r = Some cs" if "r \<in> set (mapped_rowids db table file)" for r
  proof -
    have "r \<in> fst ` set c" using that assms(2) owned_facts(4) [OF assms(3), of "file"] by blast
    then have "map_of c r \<noteq> None" by (simp add: map_of_eq_None_iff)
    then show ?thesis by auto
  qed
  have "List.map_filter (\<lambda>r. map_option (Pair r) (map_of c r)) rs = map (\<lambda>r. (r, the (map_of c r))) rs"
    if "set rs \<subseteq> set (mapped_rowids db table file)" for rs
    using that by (induction rs) (auto simp: List.map_filter_simps dest!: there)
  then show ?thesis using no_ranges_by_file [OF assms(1)] by (simp add: rows_of_file_def)
qed

text \<open>A file's rows, out of the table's.\<close>

lemma file_rows:
  assumes "table_ok sq False table db" "db_tables db table = Some c"
  shows "map fst (rows_of_file db table file c) = mapped_rowids db table file"
    "set (rows_of_file db table file c) \<subseteq> set c"
    "map (\<lambda>(r, cs). zip columns cs) (rows_of_file db table file c) =
       map (\<lambda>r. zip columns (case map_of c r of Some cs \<Rightarrow> cs | None \<Rightarrow> [])) (mapped_rowids db table file)"
    "set (mapped_rowids db table file) \<subseteq> dom (map_of c)"
proof -
  have ok: "\<forall>(t, f, lo, hi)\<in>set (db_ranges db). t \<noteq> table" "distinct (owned_rowids table db)"
    "set (owned_rowids table db) \<subseteq> fst ` set c" "ordered c"
    using assms by (simp_all add: table_ok_def well_stored_def)
  note r = rows_of_file_mapped [OF ok(1,3,2), of "file"]
  show d: "set (mapped_rowids db table file) \<subseteq> dom (map_of c)"
    using ok(3) owned_facts(4) [OF ok(2), of "file"] by (simp add: dom_map_of_conv_image_fst)
  show "map fst (rows_of_file db table file c) = mapped_rowids db table file" by (simp add: r comp_def)
  show "set (rows_of_file db table file c) \<subseteq> set c"
    using d ok(4) by (auto simp: r ordered_entry)
  show "map (\<lambda>(r, cs). zip columns cs) (rows_of_file db table file c) =
       map (\<lambda>r. zip columns (case map_of c r of Some cs \<Rightarrow> cs | None \<Rightarrow> [])) (mapped_rowids db table file)"
    using d by (force simp: r)
qed

lemma rows_bag_split:
  assumes "well_stored sq table c" "db_tables db table = Some c"
  shows "rows_bag sq table db =
    map_bag (sq_columns sq table) (map_of c |` S) + map_bag (sq_columns sq table) (map_of c |` (- S))"
  using assms well_stored_bag [OF assms(1)] map_bag_split [of "map_of c"] by (simp add: rows_bag_def finite_dom_map_of)

section \<open>Deleting a file's rows\<close>

lemma delete_rows_effect:
  assumes ok: "table_ok sq False table db" and c: "db_tables db table = Some c"
    and run: "delete_rows_by_file sq db table file = Inr (db', n)"
  shows "\<exists>c' ws. db' = disown table file (put_table table c' (act sq table ws db)) \<and> well_stored sq table c' \<and>
    map_of c' = map_of c |` (- set (mapped_rowids db table file))"
proof -
  have k: "well_stored sq table c" "\<forall>(t, f, lo, hi)\<in>set (db_ranges db). t \<noteq> table"
    using ok c by (simp_all add: table_ok_def)
  note nr = no_ranges_by_file [OF k(2), of "file"]
  let ?mapped = "filter (\<lambda>r. r \<in> set (mapped_rowids db table file)) (map fst c)"
  obtain c1 ws where c1: "delete_all sq table ?mapped c = Inr c1" "db' = disown table file (put_table table c1 (act sq table ws db))"
    using run c by (auto simp: delete_rows_by_file_def with_table_def Let_def nr split: sum.splits)
  have s: "set ?mapped = set (mapped_rowids db table file)" using file_rows(4) [OF ok c, of "file"]
    by (auto simp: dom_map_of_conv_image_fst)
  from delete_all_effect [OF c1(1) k(1)] show ?thesis unfolding s using c1(2) by blast
qed

lemma delete_rows_told:
  assumes ok: "table_ok sq False table db" and get: "get_rows_by_file sq db table file = Inr old"
    and run: "delete_rows_by_file sq db table file = Inr (db', n)"
  shows "rows_bag sq table db = rows_bag sq table db' + bag norm_row old"
    "table_ok sq False table db'" "mapped_rowids db' table file = []"
    "\<exists>c'. db_tables db' table = Some c'" "validate_identifier table = Inr ()"
proof -
  obtain c where c: "db_tables db table = Some c"
    "old = map (\<lambda>(r, cs). zip (sq_columns sq table) cs) (rows_of_file db table file c)" "validate_identifier table = Inr ()"
    using get by (auto simp: get_rows_by_file_def with_table_def split: sum.splits option.splits)
  then show "validate_identifier table = Inr ()" by simp
  have k: "well_stored sq table c" "\<forall>(t, f, lo, hi)\<in>set (db_ranges db). t \<noteq> table" "distinct (owned_rowids table db)"
    "set (owned_rowids table db) \<subseteq> fst ` set c"
    using ok c by (simp_all add: table_ok_def)
  let ?S = "set (mapped_rowids db table file)"
  obtain c' ws where c': "db' = disown table file (put_table table c' (act sq table ws db))" "well_stored sq table c'"
    "map_of c' = map_of c |` (- ?S)"
    using delete_rows_effect [OF ok c(1) run] by blast
  have t: "db_tables db' table = Some c'" by (simp add: c' disown_def put_table_def)
  then show "\<exists>c'. db_tables db' table = Some c'" by blast
  have "bag norm_row old = map_bag (sq_columns sq table) (map_of c |` ?S)"
    unfolding c(2) file_rows(3) [OF ok c(1)]
    by (rule listed_bag [OF owned_facts(1) [OF k(3)] file_rows(4) [OF ok c(1)]])
  moreover have "rows_bag sq table db' = map_bag (sq_columns sq table) (map_of c')"
    using well_stored_bag [OF c'(2)] by (simp add: rows_bag_def t)
  ultimately show "rows_bag sq table db = rows_bag sq table db' + bag norm_row old"
    using rows_bag_split [OF k(1) c(1), of ?S] by (simp add: c'(3) ac_simps)
  have own: "owned_rowids table db' = others_rowids table file db"
    by (auto simp: c'(1) owned_rowids_def others_rowids_def disown_def put_table_def intro!: arg_cong [of _ _ "map _"] filter_cong)
  have "fst ` set c' = fst ` set c - ?S"
    using c'(3) by (simp add: dom_map_of_conv_image_fst [symmetric] Diff_eq)
  moreover have "set (others_rowids table file db) \<subseteq> fst ` set c - ?S" "distinct (others_rowids table file db)"
    using owned_facts [OF k(3), of "file"] k(4) by blast+
  moreover have "\<forall>(t, f, lo, hi)\<in>set (db_ranges db'). t \<noteq> table"
    using k(2) by (auto simp: c'(1) disown_def put_table_def)
  ultimately show "table_ok sq False table db'" using c'(2) t by (simp add: table_ok_def own)
  show "mapped_rowids db' table file = []"
    by (auto simp: mapped_rowids_def c'(1) disown_def put_table_def filter_empty_conv)
qed

section \<open>Reconciling\<close>

lemma reconcile_told:
  assumes "sqlite_laws sq" "well_stored sq table c" "set stored \<subseteq> set c" "distinct (map fst stored)"
    "shaped_for sq table rows" "sq_alias sq table = None"
    "reconcile_rows sq table c stored rows key = Inr (c', changes, placed)"
  shows "replay norm_row (change_events table path changes) (map_bag (sq_columns sq table) (map_of c)) =
      Some (map_bag (sq_columns sq table) (map_of c'))"
    "well_stored sq table c'" "distinct placed" "set placed \<subseteq> dom (map_of c')"
    "\<forall>r. r \<notin> set placed \<longrightarrow> map_of c' r = (if r \<in> fst ` set stored then None else map_of c r)"
    "\<forall>r\<in>set placed. r \<in> fst ` set stored \<or> map_of c r = None"
    "rc_keyed changes \<longleftrightarrow> key \<noteq> None"
proof -
  let ?cols = "sq_columns sq table" and ?at = "\<lambda>c r. zip (sq_columns sq table) (case map_of c r of Some cs \<Rightarrow> cs | None \<Rightarrow> [])"
  have stay: "rowids_stay sq table rows key" "alias_given sq table rows"
    using assms(6) by (simp_all add: rowids_stay_def alias_given_def)
  note e = reconcile_stores [OF assms(1-5) stay(1) assms(7)]
  note e1 = conjunct2 [OF e]
  note e2 = conjunct2 [OF e1]
  note e3 = conjunct2 [OF e2]
  note e4 = conjunct2 [OF e3]
  show w: "well_stored sq table c'" by (rule conjunct1 [OF e])
  show d: "distinct placed" by (rule conjunct1 [OF e2])
  note hold = conjunct1 [OF e3]
  show out: "\<forall>r. r \<notin> set placed \<longrightarrow> map_of c' r = (if r \<in> fst ` set stored then None else map_of c r)"
    by (rule conjunct1 [OF e4])
  show new: "\<forall>r\<in>set placed. r \<in> fst ` set stored \<or> map_of c r = None"
    by (rule conjunct1 [OF conjunct2 [OF e4]])
  show s: "set placed \<subseteq> dom (map_of c')"
  proof
    fix r assume "r \<in> set placed"
    then obtain i where "i < length placed" "r = placed ! i" by (auto simp: in_set_conv_nth)
    then show "r \<in> dom (map_of c')"
      using list_all2_nthD [OF hold, of i] by (auto simp: holds_row_def split: option.splits)
  qed
  show "rc_keyed changes \<longleftrightarrow> key \<noteq> None"
    using assms(7) by (auto simp: reconcile_rows_def Let_def split: if_splits sum.splits)
  have so: "set (map fst stored) \<subseteq> dom (map_of c)" using assms(3) by (auto simp: dom_map_of_conv_image_fst)
  have rest: "map_of c' |` (- set placed) = map_of c |` (- set (map fst stored))"
    using out new by (auto simp: restrict_map_def fun_eq_iff)
  have "replay norm_row (change_events table path changes) (bag norm_row (rows_at sq table c (map fst stored))) =
      Some (bag norm_row (rows_at sq table c' placed))"
    by (rule replay_norm [OF change_events_replay [OF assms(1-5) stay(1) assms(7) stay(2)]])
  then have "replay norm_row (change_events table path changes) (map_bag ?cols (map_of c |` set (map fst stored))) =
      Some (map_bag ?cols (map_of c' |` set placed))"
    unfolding rows_at_def listed_bag [OF assms(4) so] listed_bag [OF d s] .
  from replay_frame [OF this, of "map_bag ?cols (map_of c |` (- set (map fst stored)))"]
  show "replay norm_row (change_events table path changes) (map_bag ?cols (map_of c)) = Some (map_bag ?cols (map_of c'))"
    using map_bag_split [of "map_of c" ?cols "set (map fst stored)"] map_bag_split [of "map_of c'" ?cols "set placed"]
    by (simp add: rest finite_dom_map_of)
qed

lemma owned_act [simp]: "owned_rowids t (act sq table ws db) = owned_rowids t db"
  by (simp add: owned_rowids_def)

lemma owned_put [simp]: "owned_rowids t (put_table table c db) = owned_rowids t db" "db_ranges (put_table table c db) = db_ranges db"
  by (simp_all add: owned_rowids_def put_table_def)

lemma owned_own_rows:
  "owned_rowids table (own_rows table file rs (disown table file db)) = others_rowids table file db @ rs"
proof -
  have "map (\<lambda>(t, f, i, r). r) (filter (\<lambda>(t, f, i, r). t = table) (map (\<lambda>(i, r). (table, file, i, r)) (enumerate n rs))) = rs" for n
    by (induction rs arbitrary: n) simp_all
  moreover have "filter (\<lambda>(t, f, i, r). t = table) (filter (\<lambda>(t, f, i, r). \<not> (t = table \<and> f = file)) (db_mapping db)) =
      filter (\<lambda>(t, f, i, r). t = table \<and> f \<noteq> file) (db_mapping db)"
    by (auto intro!: filter_cong)
  ultimately show ?thesis
    by (simp add: owned_rowids_def others_rowids_def own_rows_def disown_def)
qed

lemma reconcile_file_told:
  assumes laws: "sqlite_laws sq" and ok: "table_ok sq False table db" and shaped: "shaped_for sq table rows"
    and na: "sq_alias sq table = None"
    and run: "reconcile_file_rows sq db table file rows = Inr (Some (db', ch))"
  shows "replay norm_row (diff_keyed table (rc_removed ch) (rc_updated ch) (rc_added ch) path) (rows_bag sq table db) =
      Some (rows_bag sq table db')" "table_ok sq False table db'"
proof -
  obtain key c c' placed where c: "db_tables db table = Some c"
    and rec: "reconcile_rows sq table c (rows_of_file db table file c) rows (Some key) = Inr (c', ch, placed)"
    and db1: "db' = (if placed = map fst (rows_of_file db table file c)
       then put_table table c' (act sq table (reconcile_writes sq table c (rows_of_file db table file c) rows (Some key)) db)
       else own_rows table file placed (disown table file (put_table table c'
         (act sq table (reconcile_writes sq table c (rows_of_file db table file c) rows (Some key)) db))))"
    using run by (auto simp: reconcile_file_rows_def with_table_def Let_def split: sum.splits option.splits)
  define ws where "ws = reconcile_writes sq table c (rows_of_file db table file c) rows (Some key)"
  note db' = db1 [folded ws_def]
  have k: "well_stored sq table c" "\<forall>(t, f, lo, hi)\<in>set (db_ranges db). t \<noteq> table" "distinct (owned_rowids table db)"
    "set (owned_rowids table db) \<subseteq> fst ` set c"
    using ok c by (simp_all add: table_ok_def)
  note f = file_rows [OF ok c, of "file"]
  have d: "distinct (map fst (rows_of_file db table file c))" unfolding f(1) by (rule owned_facts(1) [OF k(3)])
  note e = reconcile_told [OF laws k(1) f(2) d shaped na rec]
  have t: "db_tables db' table = Some c'" by (simp add: db' own_rows_def disown_def put_table_def)
  have "rows_bag sq table db' = map_bag (sq_columns sq table) (map_of c')"
    "rows_bag sq table db = map_bag (sq_columns sq table) (map_of c)"
    using well_stored_bag [OF e(2)] well_stored_bag [OF k(1)] by (simp_all add: rows_bag_def t c)
  then show "replay norm_row (diff_keyed table (rc_removed ch) (rc_updated ch) (rc_added ch) path) (rows_bag sq table db) =
      Some (rows_bag sq table db')"
    using e(1) [of path] e(7) by (simp add: change_events_def)
  let ?S = "set (mapped_rowids db table file)" and ?O = "others_rowids table file db"
  have stored: "fst ` set (rows_of_file db table file c) = ?S" using f(1) by (metis set_map)
  have own: "owned_rowids table db' = (if placed = mapped_rowids db table file then owned_rowids table db else ?O @ placed)"
    using owned_own_rows [of table "file" placed "put_table table c' (act sq table ws db)"]
    by (simp add: db' f(1) others_rowids_def) (simp add: put_table_def)
  have ranges: "\<forall>(t, f, lo, hi)\<in>set (db_ranges db'). t \<noteq> table"
    using k(2) by (auto simp: db' own_rows_def disown_def)
  note o = owned_facts [OF k(3), of "file"]
  have dom: "fst ` set x = dom (map_of x)" for x :: content by (simp add: dom_map_of_conv_image_fst)
  have others: "set ?O \<subseteq> dom (map_of c')"
  proof
    fix r assume r: "r \<in> set ?O"
    then have "r \<in> dom (map_of c)" "r \<notin> ?S" using o(3,4) k(4) dom by blast+
    then show "r \<in> dom (map_of c')" using e(4,5) stored by (cases "r \<in> set placed") auto
  qed
  have apart: "set ?O \<inter> set placed = {}"
    using e(6) o(3,4) k(4) stored dom [of c] by (auto simp: domIff)
  show "table_ok sq False table db'"
  proof (cases "placed = mapped_rowids db table file")
    case True
    then have "set (owned_rowids table db) \<subseteq> fst ` set c'" using others e(4) o(4) dom by auto
    then show ?thesis using True t e(2) ranges k(3) by (simp add: table_ok_def own)
  next
    case False
    have "distinct (?O @ placed)" using apart o(2) e(3) by auto
    moreover have "set (?O @ placed) \<subseteq> fst ` set c'" using others e(4) dom by auto
    ultimately show ?thesis using False t e(2) ranges unfolding table_ok_def own by simp
  qed
qed

lemma reconcile_batch_told:
  assumes laws: "sqlite_laws sq" and ok: "table_ok sq True table db" and shaped: "shaped_for sq table rows"
    and na: "sq_alias sq table = None"
    and run: "reconcile_batch_rows sq db table [] rows = Inr (db', ch)"
  shows "replay norm_row (change_events table path ch) (rows_bag sq table db) = Some (rows_bag sq table db')"
    "table_ok sq True table db'"
proof -
  obtain c c' placed where c: "db_tables db table = Some c"
    and rec: "reconcile_rows sq table c c rows (key_of_rows sq table rows) = Inr (c', ch, placed)"
    and db1: "db' = (if rc_removed ch = [] \<and> rc_added ch = [] then put_table table c' (act sq table (reconcile_writes sq table c c rows (key_of_rows sq table rows)) db)
       else own_range table [] placed (disown_range table [] (put_table table c' (act sq table (reconcile_writes sq table c c rows (key_of_rows sq table rows)) db))))"
    using run by (auto simp: reconcile_batch_rows_def with_table_def Let_def split: sum.splits option.splits)
  define ws where "ws = reconcile_writes sq table c c rows (key_of_rows sq table rows)"
  note db' = db1 [folded ws_def]
  have k: "well_stored sq table c" "owned_rowids table db = []"
    "\<forall>(t, f, lo, hi)\<in>set (db_ranges db). t = table \<longrightarrow> f = []" "distinct (map fst c)"
    using ok c by (simp_all add: table_ok_def well_stored_def ordered_def)
  note e = reconcile_told [OF laws k(1) order_refl k(4) shaped na rec]
  have t: "db_tables db' table = Some c'" by (simp add: db' own_range_def disown_range_def put_table_def)
  have "rows_bag sq table db' = map_bag (sq_columns sq table) (map_of c')"
    "rows_bag sq table db = map_bag (sq_columns sq table) (map_of c)"
    using well_stored_bag [OF e(2)] well_stored_bag [OF k(1)] by (simp_all add: rows_bag_def t c)
  then show "replay norm_row (change_events table path ch) (rows_bag sq table db) = Some (rows_bag sq table db')"
    using e(1) [of path] by simp
  have "owned_rowids table db' = []"
    using k(2) by (simp add: db' own_range_def disown_range_def put_table_def owned_rowids_def)
  moreover have "\<forall>(t, f, lo, hi)\<in>set (db_ranges db'). t = table \<longrightarrow> f = []"
    using k(3) by (auto simp: db' own_range_def disown_range_def)
  ultimately show "table_ok sq True table db'" using t e(2) by (simp add: table_ok_def)
qed

section \<open>Inserting row by row\<close>

fun insert_each :: "sqlite \<Rightarrow> rstr \<Rightarrow> rstr \<Rightarrow> nat \<Rightarrow> row list \<Rightarrow> db \<Rightarrow> db_error + db" where
  "insert_each sq table rel i [] db = Inr db"
| "insert_each sq table rel i (row # rows) db =
     (case insert_row sq db table row rel i of
        Inl e \<Rightarrow> Inl e | Inr db' \<Rightarrow> insert_each sq table rel (Suc i) rows db')"

lemma named_cells_zip:
  assumes "case_distinct (sq_columns sq table)" "length cs = length (sq_columns sq table)"
  shows "named_cells sq table (zip (sq_columns sq table) cs) = cs"
proof (rule nth_equalityI)
  let ?cols = "sq_columns sq table"
  show "length (named_cells sq table (zip ?cols cs)) = length cs" by (simp add: named_cells_def assms(2))
  fix i assume "i < length (named_cells sq table (zip ?cols cs))"
  then have i: "i < length ?cols" by (simp add: named_cells_def)
  have "find (\<lambda>e. eq_ignore_ascii_case (fst e) (?cols ! i)) (zip ?cols cs) = Some (?cols ! i, cs ! i)"
    using i assms case_distinct_nth [OF assms(1)] by (auto simp: find_Some_iff intro!: exI [of _ i])
  then show "named_cells sq table (zip ?cols cs) ! i = cs ! i"
    using i by (simp add: named_cells_def value_under_def)
qed

lemma insert_row_told:
  assumes laws: "sqlite_laws sq" and ok: "table_ok sq False table db" and na: "sq_alias sq table = None"
    and cols: "case_distinct (sq_columns sq table)" and cs: "length cs = length (sq_columns sq table)" "coerced sq table cs = cs"
    and run: "insert_row sq db table (zip (sq_columns sq table) cs) rel i = Inr db'"
  shows "rows_bag sq table db' = add_mset (norm_row (zip (sq_columns sq table) cs)) (rows_bag sq table db)"
    "table_ok sq False table db'"
proof -
  obtain c c' r ws where c: "db_tables db table = Some c" "run_insert sq table c None cs = Inr (c', r)"
    "db' = (put_table table c' (act sq table ws db))\<lparr>db_mapping := db_mapping db @ [(table, rel, i, r)]\<rparr>"
    using run named_cells_zip [OF cols cs(1)]
    by (auto simp: insert_row_def with_table_def Let_def split: option.splits sum.splits)
  have k: "well_stored sq table c" "\<forall>(t, f, lo, hi)\<in>set (db_ranges db). t \<noteq> table" "distinct (owned_rowids table db)"
    "set (owned_rowids table db) \<subseteq> fst ` set c"
    using ok c by (simp_all add: table_ok_def)
  note e = run_insert_effect [OF laws c(2) k(1) cs(1), unfolded cs(2) na inserted_cells_def, simplified]
  have t: "db_tables db' table = Some c'" by (simp add: c(3) put_table_def)
  have g: "Map.graph (map_of c') = insert (r, cs) (Map.graph (map_of c))" "(r, cs) \<notin> Map.graph (map_of c)"
    using e(2,3) by (auto simp: Map.graph_def split: if_splits)
  have "rows_bag sq table db' = map_bag (sq_columns sq table) (map_of c')"
    "rows_bag sq table db = map_bag (sq_columns sq table) (map_of c)"
    using well_stored_bag [OF e(1)] well_stored_bag [OF k(1)] by (simp_all add: rows_bag_def t c(1))
  then show "rows_bag sq table db' = add_mset (norm_row (zip (sq_columns sq table) cs)) (rows_bag sq table db)"
    using g(1) mset_set.insert [OF finite_graph_map_of g(2)] by (simp add: map_bag_def cell_row_def)
  have own: "owned_rowids table db' = owned_rowids table db @ [r]" by (simp add: c(3) owned_rowids_def put_table_def)
  have dom: "fst ` set c' = insert r (fst ` set c)" "r \<notin> fst ` set c"
    using e(2,3) by (simp_all add: dom_map_of_conv_image_fst [symmetric] domIff)
  have "distinct (owned_rowids table db @ [r])" using k(3,4) dom(2) by auto
  moreover have "set (owned_rowids table db @ [r]) \<subseteq> fst ` set c'" using k(4) dom(1) by auto
  moreover have "\<forall>(t, f, lo, hi)\<in>set (db_ranges db'). t \<noteq> table" using k(2) by (simp add: c(3))
  ultimately show "table_ok sq False table db'" using t e(1) unfolding table_ok_def own by simp
qed

lemma insert_each_told:
  assumes laws: "sqlite_laws sq" and na: "sq_alias sq table = None" and cols: "case_distinct (sq_columns sq table)"
  shows "insert_each sq table rel i (map (zip (sq_columns sq table)) css) db = Inr db' \<Longrightarrow>
    list_all (\<lambda>cs. length cs = length (sq_columns sq table) \<and> coerced sq table cs = cs) css \<Longrightarrow>
    table_ok sq False table db \<Longrightarrow>
    rows_bag sq table db' = rows_bag sq table db + bag norm_row (map (zip (sq_columns sq table)) css) \<and>
    table_ok sq False table db'"
proof (induction css arbitrary: i db)
  case (Cons cs css)
  obtain db1 where db1: "insert_row sq db table (zip (sq_columns sq table) cs) rel i = Inr db1"
    "insert_each sq table rel (Suc i) (map (zip (sq_columns sq table)) css) db1 = Inr db'"
    using Cons.prems(1) by (auto split: sum.splits)
  have cs: "length cs = length (sq_columns sq table)" "coerced sq table cs = cs" using Cons.prems(2) by simp_all
  note e = insert_row_told [OF laws Cons.prems(3) na cols cs db1(1)]
  show ?case using Cons.IH [OF db1(2) _ e(2)] Cons.prems(2) e(1) by (simp add: ac_simps)
qed simp

section \<open>Other tables\<close>

definition same_for :: "rstr \<Rightarrow> db \<Rightarrow> db \<Rightarrow> bool" where
  "same_for table db db' \<longleftrightarrow>
     db_tables db' table = db_tables db table \<and>
     filter (\<lambda>(t, f, i, r). t = table) (db_mapping db') = filter (\<lambda>(t, f, i, r). t = table) (db_mapping db) \<and>
     filter (\<lambda>(t, f, lo, hi). t = table) (db_ranges db') = filter (\<lambda>(t, f, lo, hi). t = table) (db_ranges db)"

lemma same_for_refl [simp]: "same_for table db db"
  by (simp add: same_for_def)

lemma same_for_trans: "same_for table db db1 \<Longrightarrow> same_for table db1 db2 \<Longrightarrow> same_for table db db2"
  by (simp add: same_for_def)

lemma same_for_table:
  assumes "same_for table db db'"
  shows "rows_bag sq table db' = rows_bag sq table db" "table_ok sq per table db' \<longleftrightarrow> table_ok sq per table db"
proof -
  have g: "(\<forall>(t, f, lo, hi)\<in>set (db_ranges d). t = table \<longrightarrow> P f) \<longleftrightarrow>
      (\<forall>(t, f, lo, hi)\<in>set (filter (\<lambda>(t, f, lo, hi). t = table) (db_ranges d)). P f)" for d P
    by auto
  then have r: "(\<forall>(t, f, lo, hi)\<in>set (db_ranges db'). t = table \<longrightarrow> P f) \<longleftrightarrow>
      (\<forall>(t, f, lo, hi)\<in>set (db_ranges db). t = table \<longrightarrow> P f)" for P
    unfolding g using assms by (simp only: same_for_def)
  have "owned_rowids table db' = owned_rowids table db" "db_tables db' table = db_tables db table"
    using assms by (simp_all add: same_for_def owned_rowids_def)
  then show "rows_bag sq table db' = rows_bag sq table db" "table_ok sq per table db' \<longleftrightarrow> table_ok sq per table db"
    using r [of "\<lambda>f. f = []"] r [of "\<lambda>f. False"] by (simp_all add: rows_bag_def table_ok_def)
qed

lemma same_for_steps:
  assumes "t \<noteq> table"
  shows "same_for t db (put_table table c db)" "same_for t db (disown table file db)"
    "same_for t db (disown_range table file db)" "same_for t db (own_range table file rs db)"
    "same_for t db (own_rows table file rs db)" "same_for t db (db\<lparr>db_mapping := db_mapping db @ [(table, file, i, r)]\<rparr>)"
proof -
  have drop: "filter (\<lambda>x. fst x = t) (filter (\<lambda>x. \<not> (fst x = table \<and> fst (snd x) = file)) xs) = filter (\<lambda>x. fst x = t) xs"
    for xs :: "(rstr \<times> rstr \<times> 'a) list"
    using assms by (induction xs) auto
  show "same_for t db (disown table file db)"
    using drop [of "db_mapping db"] drop [of "db_ranges db"] unfolding same_for_def disown_def case_prod_beta by simp
  show "same_for t db (disown_range table file db)"
    using drop [of "db_ranges db"] unfolding same_for_def disown_range_def case_prod_beta by simp
  have "filter (\<lambda>(t', f, i, r). t' = t) (map (\<lambda>(i, r). (table, file, i, r)) (enumerate n rs)) = []" for n
    using assms by (induction rs arbitrary: n) auto
  then show "same_for t db (own_rows table file rs db)" by (simp add: same_for_def own_rows_def)
qed (use assms in \<open>auto simp: same_for_def put_table_def own_range_def\<close>)

lemma same_for_act: "acted_on_by_none sq t \<Longrightarrow> same_for t db (act sq table ws db)"
  by (simp add: same_for_def act_leaves)

lemma same_for_written:
  "t \<noteq> table \<Longrightarrow> acted_on_by_none sq t \<Longrightarrow> same_for t db (put_table table c (act sq table ws db))"
  using same_for_trans same_for_act same_for_steps(1) by blast

lemma delete_rows_others:
  assumes "t \<noteq> table" "acted_on_by_none sq t" "delete_rows_by_file sq db table file = Inr (db', n)"
  shows "same_for t db db'"
proof -
  obtain c ws where "db' = disown table file (put_table table c (act sq table ws db))"
    using assms(3) by (auto simp: delete_rows_by_file_def with_table_def Let_def split: sum.splits option.splits)
  then show ?thesis
    using same_for_trans [OF same_for_written [OF assms(1,2)] same_for_steps(2) [OF assms(1)]] by simp
qed

lemma reconcile_file_others:
  assumes "t \<noteq> table" "acted_on_by_none sq t" "reconcile_file_rows sq db table file rows = Inr (Some (db', ch))"
  shows "same_for t db db'"
proof -
  obtain c rs b ws where db': "db' = (if b then put_table table c (act sq table ws db)
      else own_rows table file rs (disown table file (put_table table c (act sq table ws db))))"
    using assms(3) by (auto simp: reconcile_file_rows_def with_table_def Let_def split: sum.splits option.splits)
  note steps = same_for_steps [OF assms(1)] and w = same_for_written [OF assms(1,2)]
  show ?thesis unfolding db'
    using same_for_trans [OF same_for_trans [OF w steps(2)] steps(5)]
      same_for_trans [OF same_for_trans [OF w steps(3)] steps(4)] w by simp
qed

lemma reconcile_batch_others:
  assumes "t \<noteq> table" "acted_on_by_none sq t" "reconcile_batch_rows sq db table owner rows = Inr (db', ch)"
  shows "same_for t db db'"
proof -
  obtain c rs b ws where db': "db' = (if b then put_table table c (act sq table ws db)
      else own_range table owner rs (disown_range table owner (put_table table c (act sq table ws db))))"
    using assms(3) by (auto simp: reconcile_batch_rows_def with_table_def Let_def split: sum.splits option.splits)
  note steps = same_for_steps [OF assms(1)] and w = same_for_written [OF assms(1,2)]
  show ?thesis unfolding db'
    using same_for_trans [OF same_for_trans [OF w steps(2)] steps(5)]
      same_for_trans [OF same_for_trans [OF w steps(3)] steps(4)] w by simp
qed

lemma insert_row_others:
  assumes "t \<noteq> table" "acted_on_by_none sq t" "insert_row sq db table row rel i = Inr db'"
  shows "same_for t db db'"
proof -
  obtain c r ws where "db' = (put_table table c (act sq table ws db))\<lparr>db_mapping := db_mapping db @ [(table, rel, i, r)]\<rparr>"
    using assms(3) by (auto simp: insert_row_def with_table_def Let_def split: sum.splits option.splits)
  then show ?thesis
    using same_for_trans [OF same_for_written [OF assms(1,2)] same_for_steps(6) [OF assms(1)]] by (simp add: put_table_def)
qed

lemma insert_each_others:
  "insert_each sq table rel i rows db = Inr db' \<Longrightarrow> t \<noteq> table \<Longrightarrow> acted_on_by_none sq t \<Longrightarrow> same_for t db db'"
proof (induction rows arbitrary: i db)
  case (Cons row rows)
  then obtain db1 where "insert_row sq db table row rel i = Inr db1" "insert_each sq table rel (Suc i) rows db1 = Inr db'"
    by (auto split: sum.splits)
  then show ?case using Cons same_for_trans insert_row_others by blast
qed simp

section \<open>Shaped rows\<close>

lemma shape_value_loop_shaped:
  "shape_value_loop table columns strict rows cells em = Inr shaped \<Longrightarrow>
   length em = length columns \<Longrightarrow> list_all (\<lambda>cs. length cs = length columns) cells \<Longrightarrow>
   sr_columns shaped = columns \<and> length (sr_emitted shaped) = length columns \<and>
   list_all (\<lambda>cs. length cs = length columns) (sr_cells shaped)"
proof (induction rows arbitrary: cells em)
  case (Cons row rows)
  then show ?case by (auto simp: lay_out_row_def split: sum.splits)
qed auto

lemma shape_value_rows_shaped:
  "shape_value_rows table (sq_columns sq table) rows strict = Inr shaped \<Longrightarrow> shaped_for sq table shaped"
  using shape_value_loop_shaped [of table "sq_columns sq table" strict rows "[]"]
  by (simp add: shape_value_rows_def shaped_for_def)

lemma place_cells_lengths:
  "place_cells columns row cells em = (cells', em') \<Longrightarrow> length cells' = length cells \<and> length em' = length em"
  by (induction columns row cells em rule: place_cells.induct) (auto split: option.splits)

lemma shape_json_loop_shaped:
  "shape_json_loop table columns strict rows cells em = Inr shaped \<Longrightarrow>
   length em = length columns \<Longrightarrow> list_all (\<lambda>cs. length cs = length columns) cells \<Longrightarrow>
   sr_columns shaped = columns \<and> length (sr_emitted shaped) = length columns \<and>
   list_all (\<lambda>cs. length cs = length columns) (sr_cells shaped)"
proof (induction rows arbitrary: cells em)
  case (Cons row rows)
  obtain cs em' where r: "shape_json_row columns row em = (cs, em')" by fastforce
  have len: "length cs = length columns" "length em' = length columns"
    using r Cons.prems(2) place_cells_lengths [of columns row "replicate (length columns) Null" em]
    by (auto simp: shape_json_row_def split: if_splits)
  show ?case
    using Cons.prems(1,3) len Cons.IH [of "cells @ [cs]" em'] by (auto simp: r split: option.splits)
qed auto

lemma shape_json_rows_shaped:
  "shape_json_rows table (sq_columns sq table) rows strict = Inr shaped \<Longrightarrow> shaped_for sq table shaped"
  using shape_json_loop_shaped [of table "sq_columns sq table" strict rows "[]"]
  by (simp add: shape_json_rows_def shaped_for_def)

end
