(* ===== verification/Watch_Batch.thy ===== *)
theory Watch_Batch
  imports Foreign_Key Row_Owners Freshness Walk "HOL-Library.AList"
begin

text \<open>
  \<open>packages/rust/src/lib.rs\<close>, how the index follows the files: \<open>apply_events\<close> and what it calls, from
  one change the watcher reports to the rows written and the row events told, and \<open>reconcile\<close>, which
  a query runs first.

  The state is what \<open>DirSqlInner\<close> and \<open>FreshState\<close> hold behind their locks, which every operation
  here has; a lock is never poisoned. The filesystem is read through the trait \<open>FileSystem\<close>, here the
  record \<open>seam\<close>: what its calls answer while one batch of events is applied.
\<close>

section \<open>Files, tables and hooks\<close>

datatype file_event = Created rstr | Modified rstr | Deleted rstr | Rescan

record io_error =
  io_not_found :: bool
  io_text :: rstr

text \<open>\<open>DirSqlError\<close>, the errors the modelled operations give.\<close>

datatype dirsql_error =
  Core db_error
| Io io_error
| Matcher
| Ddl rstr
| Table_Not_Created rstr "rstr list"
| Table_Is_Virtual rstr
| Table_Ddl rstr db_error
| Duplicate_Table rstr
| Table_Command rstr rstr
| On_File rstr rstr rstr

text \<open>\<open>sm_scan\<close> is \<open>scan_subtree\<close>: the files found, each with its table, and the links entered.
  \<open>sm_disk\<close> is what \<open>is_gitignored_path\<close> reads.\<close>

record seam =
  sm_is_file :: "rstr \<Rightarrow> io_error + bool"
  sm_is_dir :: "rstr \<Rightarrow> io_error + bool"
  sm_scan :: "rstr \<Rightarrow> rstr \<Rightarrow> table_matcher \<Rightarrow> (rstr \<times> rstr) list \<times> rstr list"
  sm_canonical_root :: "rstr \<Rightarrow> rstr"
  sm_fingerprint :: "rstr \<Rightarrow> fingerprint option"
  sm_disk :: file_system

record anchor_group =
  ag_anchor :: rstr
  ag_watch_anchor :: rstr
  ag_matcher :: table_matcher
  ag_tables :: "rstr list"

text \<open>A per-table hook's run: the rows it gave before it ended its output, if it said so, else all of
  them, and how it ended itself. A hook ends its output at most once.\<close>

record production =
  pr_rows :: "json_row list"
  pr_ended :: bool
  pr_result :: "rstr + unit"

datatype hook =
  Per_File "seam \<Rightarrow> rstr \<Rightarrow> rstr + row list"
| Per_Table "seam \<Rightarrow> rstr list \<Rightarrow> production"

record wiring =
  su_groups :: "anchor_group list"
  su_hooks :: "rstr \<rightharpoonup> hook"
  su_strict :: "rstr \<rightharpoonup> bool"
  su_declared :: "rstr list"
  su_built_ns :: int

definition is_per_table :: "wiring \<Rightarrow> rstr \<Rightarrow> bool" where
  "is_per_table su table \<longleftrightarrow> (case su_hooks su table of Some (Per_Table h) \<Rightarrow> True | _ \<Rightarrow> False)"

definition is_strict :: "wiring \<Rightarrow> rstr \<Rightarrow> bool" where
  "is_strict su table = (case su_strict su table of Some b \<Rightarrow> b | None \<Rightarrow> False)"

definition batch_owner :: rstr where
  "batch_owner = []"

text \<open>\<open>unwrap_or(false)\<close>.\<close>

definition or_false :: "io_error + bool \<Rightarrow> bool" where
  "or_false r = (case r of Inl e \<Rightarrow> False | Inr b \<Rightarrow> b)"

section \<open>Links\<close>

text \<open>Paths are equal when their components are.\<close>

definition same_path :: "rstr \<Rightarrow> rstr \<Rightarrow> bool" where
  "same_path p q \<longleftrightarrow> path_components p = path_components q"

fun same_event :: "file_event \<Rightarrow> file_event \<Rightarrow> bool" where
  "same_event (Created p) (Created q) = same_path p q"
| "same_event (Modified p) (Modified q) = same_path p q"
| "same_event (Deleted p) (Deleted q) = same_path p q"
| "same_event Rescan Rescan = True"
| "same_event _ _ = False"

definition holds_event :: "file_event list \<Rightarrow> file_event \<Rightarrow> bool" where
  "holds_event evs ev \<longleftrightarrow> list_ex (\<lambda>e. same_event e ev) evs"

record link =
  lk_path :: rstr
  lk_target :: rstr

definition link_at :: "seam \<Rightarrow> rstr \<Rightarrow> link" where
  "link_at sm path = \<lparr>lk_path = path, lk_target = sm_canonical_root sm path\<rparr>"

definition restate_at ::
  "link \<Rightarrow> rstr \<Rightarrow> (rstr \<Rightarrow> file_event) \<Rightarrow> bool \<Rightarrow> file_event option"
where
  "restate_at l path kind modified =
     (case path_strip_prefix path (lk_target l) of
        Some rest \<Rightarrow> Some (kind (path_join (lk_path l) rest))
      | None \<Rightarrow>
          if \<not> modified \<and> path_starts_with (lk_target l) path then Some (kind (lk_path l)) else None)"

fun restate :: "link \<Rightarrow> file_event \<Rightarrow> file_event option" where
  "restate l (Created p) = restate_at l p Created False"
| "restate l (Modified p) = restate_at l p Modified True"
| "restate l (Deleted p) = restate_at l p Deleted False"
| "restate l Rescan = None"

definition restated :: "link list \<Rightarrow> file_event \<Rightarrow> file_event list" where
  "restated ls ev =
     foldl (\<lambda>evs l. case restate l ev of
         Some e \<Rightarrow> if holds_event evs e then evs else evs @ [e]
       | None \<Rightarrow> evs) [ev] ls"

section \<open>The state\<close>

record index_state =
  ix_conn :: connection
  ix_batch_files :: "rstr \<rightharpoonup> rstr list"
  ix_held :: "file_event list"
  ix_links :: "link list"
  ix_known :: "((rstr \<times> rstr) \<times> known) list"
  ix_seeded :: bool
  ix_outbox :: "row_event list"

text \<open>A batch in progress: the per-table hooks to run again, each with the path that called for it,
  and the row events so far.\<close>

record batch = index_state +
  ba_pending :: "(rstr \<times> rstr) list"
  ba_out :: "row_event list"

definition start_batch :: "index_state \<Rightarrow> batch" where
  "start_batch ix = index_state.extend ix (batch.fields [] [])"

definition end_batch :: "batch \<Rightarrow> index_state" where
  "end_batch b = index_state.truncate b"

definition emit :: "row_event list \<Rightarrow> batch \<Rightarrow> batch" where
  "emit evs b = b\<lparr>ba_out := ba_out b @ evs\<rparr>"

definition mark :: "rstr \<Rightarrow> rstr \<Rightarrow> batch \<Rightarrow> batch" where
  "mark table trigger b =
     (if list_ex (\<lambda>(t, tr). t = table) (ba_pending b) then b
      else b\<lparr>ba_pending := ba_pending b @ [(table, trigger)]\<rparr>)"

definition through_links :: "file_event \<Rightarrow> batch \<Rightarrow> file_event list \<times> batch" where
  "through_links ev b =
     (restated (ix_links b) ev,
      case ev of
        Deleted gone \<Rightarrow> b\<lparr>ix_links := filter (\<lambda>l. \<not> path_starts_with (lk_path l) gone) (ix_links b)\<rparr>
      | _ \<Rightarrow> b)"

definition below_a_link :: "batch \<Rightarrow> rstr \<Rightarrow> bool" where
  "below_a_link b dir \<longleftrightarrow>
     list_ex (\<lambda>l. \<not> same_path dir (lk_path l) \<and> path_starts_with dir (lk_path l)) (ix_links b)"

definition register_link :: "seam \<Rightarrow> rstr \<Rightarrow> batch \<Rightarrow> batch" where
  "register_link sm path b =
     (let l = link_at sm path in
      if same_path (lk_target l) (lk_path l) then b
      else b\<lparr>ix_links := filter (\<lambda>k. \<not> same_path (lk_path k) (lk_path l)) (ix_links b) @ [l]\<rparr>)"

section \<open>One file\<close>

definition delete_unit :: "engine \<Rightarrow> rstr \<Rightarrow> rstr \<Rightarrow> db \<Rightarrow> db_error + (db \<times> nat)" where
  "delete_unit en table rel db = delete_rows_by_file (en_sqlite en) db table rel"

definition handle_delete :: "engine \<Rightarrow> rstr \<Rightarrow> rstr \<Rightarrow> batch \<Rightarrow> batch" where
  "handle_delete en table rel b =
     (case get_rows_by_file (en_sqlite en) (cn_db (ix_conn b)) table rel of
        Inl e \<Rightarrow> emit [Error (Some table) rel (db_error_text en e)] b
      | Inr old \<Rightarrow>
          (case atomically en (delete_unit en table rel) (ix_conn b) of
             (Inl e, conn) \<Rightarrow> emit [Error (Some table) rel (db_error_text en e)] (b\<lparr>ix_conn := conn\<rparr>)
           | (Inr n, conn) \<Rightarrow> emit (diff table (Some old) None rel) (b\<lparr>ix_conn := conn\<rparr>)))"

definition upsert_unit ::
  "engine \<Rightarrow> rstr \<Rightarrow> rstr \<Rightarrow> shaped_rows \<Rightarrow> db \<Rightarrow> db_error + (db \<times> row_event list)"
where
  "upsert_unit en table rel rows db =
     (case reconcile_file_rows (en_sqlite en) db table rel rows of
        Inl e \<Rightarrow> Inl e
      | Inr (Some (db', ch)) \<Rightarrow> Inr (db', diff_keyed table (rc_removed ch) (rc_updated ch) (rc_added ch) rel)
      | Inr None \<Rightarrow>
     (case get_rows_by_file (en_sqlite en) db table rel of
        Inl e \<Rightarrow> Inl e
      | Inr old \<Rightarrow>
     (case delete_rows_by_file (en_sqlite en) db table rel of
        Inl e \<Rightarrow> Inl e
      | Inr (db1, n) \<Rightarrow>
          (let new = to_maps (stored_form (en_sqlite en) table rows) in
           case insert_each (en_sqlite en) table rel 0 new db1 of
             Inl e \<Rightarrow> Inl e
           | Inr db2 \<Rightarrow> Inr (db2, diff table (Some old) (Some new) rel)))))"

definition handle_upsert ::
  "engine \<Rightarrow> wiring \<Rightarrow> seam \<Rightarrow> rstr \<Rightarrow> rstr \<Rightarrow> rstr \<Rightarrow> batch \<Rightarrow> batch"
where
  "handle_upsert en su sm table abs_path rel b =
     (let failed = (\<lambda>text b. emit [Error (Some table) rel text] b) in
      case sm_is_file sm abs_path of
        Inl e \<Rightarrow> if io_not_found e then b else failed (io_text e) b
      | Inr False \<Rightarrow> b
      | Inr True \<Rightarrow>
     (case su_hooks su table of
        Some (Per_File on_file) \<Rightarrow>
     (case on_file sm abs_path of
        Inl e \<Rightarrow> failed e b
      | Inr raw \<Rightarrow>
     (case shape_value_rows table (sq_columns (en_sqlite en) table) raw (is_strict su table) of
        Inl e \<Rightarrow> failed (db_error_text en e) b
      | Inr rows \<Rightarrow>
     (case atomically en (upsert_unit en table rel rows) (ix_conn b) of
        (Inl e, conn) \<Rightarrow> failed (db_error_text en e) (b\<lparr>ix_conn := conn\<rparr>)
      | (Inr evs, conn) \<Rightarrow> emit evs (b\<lparr>ix_conn := conn\<rparr>))))
      | _ \<Rightarrow> b))"

section \<open>Per-table hooks\<close>

text \<open>The place of a path among the sorted paths of a batch: how many come before it, by components.\<close>

definition path_place :: "rstr list \<Rightarrow> rstr \<Rightarrow> nat" where
  "path_place ps p = length (takeWhile (\<lambda>q. path_components q < path_components p) ps)"

definition track_path :: "bool \<Rightarrow> rstr \<Rightarrow> rstr list \<Rightarrow> rstr list" where
  "track_path present p ps =
     (let i = path_place ps p;
          there = (i < length ps \<and> same_path (ps ! i) p) in
      if present \<and> \<not> there then take i ps @ p # drop i ps
      else if \<not> present \<and> there then take i ps @ drop (Suc i) ps
      else ps)"

definition track_batch_file :: "seam \<Rightarrow> rstr \<Rightarrow> rstr \<Rightarrow> rstr \<Rightarrow> bool \<Rightarrow> batch \<Rightarrow> batch" where
  "track_batch_file sm table abs_path rel deleted b =
     (let present = (\<not> deleted \<and> or_false (sm_is_file sm abs_path));
          ps = (case ix_batch_files b table of Some ps \<Rightarrow> ps | None \<Rightarrow> []) in
      b\<lparr>ix_batch_files := (ix_batch_files b)(table \<mapsto> track_path present rel ps)\<rparr>)"

definition batch_unit :: "engine \<Rightarrow> rstr \<Rightarrow> shaped_rows \<Rightarrow> db \<Rightarrow> db_error + (db \<times> row_changes)" where
  "batch_unit en table rows db = reconcile_batch_rows (en_sqlite en) db table batch_owner rows"

text \<open>\<open>stage_table_rows\<close>: an error is its text.\<close>

definition stage_table_rows ::
  "engine \<Rightarrow> rstr \<Rightarrow> json_row list \<Rightarrow> bool \<Rightarrow> connection \<Rightarrow> (rstr + row_changes) \<times> connection"
where
  "stage_table_rows en table raw strict conn =
     (case shape_json_rows table (sq_columns (en_sqlite en) table) raw strict of
        Inl e \<Rightarrow> (Inl (db_error_text en e), conn)
      | Inr rows \<Rightarrow>
          (case stage (batch_unit en table rows) conn of
             (Inl e, conn') \<Rightarrow> (Inl (db_error_text en e), conn')
           | (Inr ch, conn') \<Rightarrow> (Inr ch, conn')))"

text \<open>The rows are staged when the hook ends its output or, if it never does, when it has returned.
  A hook that fails afterwards has what was staged discarded.\<close>

definition run_hook ::
  "engine \<Rightarrow> rstr \<Rightarrow> bool \<Rightarrow> production \<Rightarrow> connection \<Rightarrow> (rstr + row_changes) \<times> connection"
where
  "run_hook en table strict pr conn =
     (if pr_ended pr then
        (case (pr_result pr, stage_table_rows en table (pr_rows pr) strict conn) of
           (Inl e, (Inr ch, conn')) \<Rightarrow> (Inl e, discard conn')
         | (Inl e, (Inl e', conn')) \<Rightarrow> (Inl e, conn')
         | (Inr _, staged) \<Rightarrow> staged)
      else (case pr_result pr of
          Inl e \<Rightarrow> (Inl e, conn)
        | Inr _ \<Rightarrow> stage_table_rows en table (pr_rows pr) strict conn))"

definition refresh_table :: "engine \<Rightarrow> wiring \<Rightarrow> seam \<Rightarrow> rstr \<Rightarrow> rstr \<Rightarrow> batch \<Rightarrow> batch" where
  "refresh_table en su sm table trigger b =
     (case su_hooks su table of
        Some (Per_Table hook) \<Rightarrow>
     (case find (\<lambda>g. table \<in> set (ag_tables g)) (su_groups su) of
        None \<Rightarrow> b
      | Some g \<Rightarrow>
     (let paths = (case ix_batch_files b table of
            Some rels \<Rightarrow> map (path_join (ag_anchor g)) rels | None \<Rightarrow> []) in
      case run_hook en table (is_strict su table) (hook sm paths) (ix_conn b) of
        (Inl e, conn) \<Rightarrow> emit [Error (Some table) trigger e] (b\<lparr>ix_conn := conn\<rparr>)
      | (Inr ch, conn) \<Rightarrow>
          (case keep en conn of
             (Inl e, conn') \<Rightarrow> emit [Error (Some table) trigger (sqlite_error_text e)] (b\<lparr>ix_conn := conn'\<rparr>)
           | (Inr _, conn') \<Rightarrow> emit (change_events table trigger ch) (b\<lparr>ix_conn := conn'\<rparr>))))
      | _ \<Rightarrow> b)"

text \<open>\<open>None\<close>, a table never declared, goes first.\<close>

definition declared_rank :: "wiring \<Rightarrow> rstr \<Rightarrow> nat" where
  "declared_rank su table = (case position (\<lambda>t. t = table) (su_declared su) of Some i \<Rightarrow> Suc i | None \<Rightarrow> 0)"

definition refresh_pending :: "engine \<Rightarrow> wiring \<Rightarrow> seam \<Rightarrow> batch \<Rightarrow> batch" where
  "refresh_pending en su sm b =
     foldl (\<lambda>b (table, trigger). refresh_table en su sm table trigger b) b
       (sort_key (\<lambda>(table, trigger). declared_rank su table) (ba_pending b))"

section \<open>Directories\<close>

text \<open>A file found: its table's, by its hook. \<open>rel\<close> is its path below \<open>base\<close>.\<close>

definition below :: "rstr \<Rightarrow> rstr \<Rightarrow> rstr" where
  "below base path = (case path_strip_prefix path base of Some rel \<Rightarrow> rel | None \<Rightarrow> path)"

definition index_found :: "engine \<Rightarrow> wiring \<Rightarrow> seam \<Rightarrow> rstr \<Rightarrow> batch \<Rightarrow> rstr \<times> rstr \<Rightarrow> batch" where
  "index_found en su sm base b hits =
     (case hits of (path, table) \<Rightarrow>
        if is_per_table su table
        then mark table (below base path) (track_batch_file sm table path (below base path) False b)
        else handle_upsert en su sm table path (below base path) b)"

definition index_subtree :: "engine \<Rightarrow> wiring \<Rightarrow> seam \<Rightarrow> anchor_group \<Rightarrow> rstr \<Rightarrow> batch \<Rightarrow> batch" where
  "index_subtree en su sm g dir b =
     (let watched = path_starts_with dir (ag_watch_anchor g);
          base = (if watched then ag_watch_anchor g else ag_anchor g);
          b1 = (if watched \<and> \<not> below_a_link b dir then register_link sm dir b else b);
          (hits, entered) = sm_scan sm base dir (ag_matcher g);
          b2 = foldl (\<lambda>b l. register_link sm l b) b1 entered in
      foldl (index_found en su sm base) b2 hits)"

definition forget_below :: "rstr \<Rightarrow> batch \<Rightarrow> rstr \<Rightarrow> batch" where
  "forget_below rel b table =
     (let pre = rel @ [c_slash] in
      case ix_batch_files b table of
        None \<Rightarrow> b
      | Some ps \<Rightarrow>
          if list_ex (prefix pre) ps
          then mark table rel
            (b\<lparr>ix_batch_files := (ix_batch_files b)(table \<mapsto> filter (\<lambda>p. \<not> prefix pre p) ps)\<rparr>)
          else b)"

definition delete_subtree :: "engine \<Rightarrow> anchor_group \<Rightarrow> rstr \<Rightarrow> batch \<Rightarrow> batch" where
  "delete_subtree en g rel b =
     (let b1 = foldl (forget_below rel) b (ag_tables g) in
      foldl (\<lambda>b (table, f). if table \<in> set (ag_tables g) then handle_delete en table f b else b) b1
        (files_under (cn_db (ix_conn b1)) rel))"

definition rescan_group ::
  "engine \<Rightarrow> wiring \<Rightarrow> seam \<Rightarrow> (rstr \<times> rstr) list \<Rightarrow> batch \<Rightarrow> anchor_group \<Rightarrow> batch"
where
  "rescan_group en su sm owned b g =
     (let b1 = foldl (\<lambda>b (table, f).
            if table \<in> set (ag_tables g) \<and> \<not> or_false (sm_is_file sm (path_join (ag_watch_anchor g) f))
            then handle_delete en table f b else b) b owned;
          b2 = foldl (\<lambda>b table. mark table (ascii ''.'') (b\<lparr>ix_batch_files := (ix_batch_files b)(table := None)\<rparr>))
            b1 (filter (is_per_table su) (ag_tables g)) in
      index_subtree en su sm g (ag_watch_anchor g) b2)"

definition rescan :: "engine \<Rightarrow> wiring \<Rightarrow> seam \<Rightarrow> batch \<Rightarrow> batch" where
  "rescan en su sm b =
     foldl (rescan_group en su sm (owned_files (cn_db (ix_conn b)))) b (su_groups su)"

section \<open>One event\<close>

definition groups_containing :: "wiring \<Rightarrow> rstr \<Rightarrow> (anchor_group \<times> rstr) list" where
  "groups_containing su path =
     (let under = List.map_filter (\<lambda>g.
            case path_strip_prefix path (ag_watch_anchor g) of
              Some rel \<Rightarrow> Some (g, rel)
            | None \<Rightarrow> map_option (Pair g) (path_strip_prefix path (ag_anchor g))) (su_groups su) in
      if under \<noteq> [] then under else map (\<lambda>g. (g, path)) (su_groups su))"

fun event_path :: "file_event \<Rightarrow> rstr option" where
  "event_path (Created p) = Some p"
| "event_path (Modified p) = Some p"
| "event_path (Deleted p) = Some p"
| "event_path Rescan = None"

definition is_created :: "file_event \<Rightarrow> bool" where
  "is_created ev \<longleftrightarrow> (case ev of Created p \<Rightarrow> True | _ \<Rightarrow> False)"

definition is_deleted :: "file_event \<Rightarrow> bool" where
  "is_deleted ev \<longleftrightarrow> (case ev of Deleted p \<Rightarrow> True | _ \<Rightarrow> False)"

definition route_table ::
  "engine \<Rightarrow> wiring \<Rightarrow> seam \<Rightarrow> file_event \<Rightarrow> rstr \<Rightarrow> rstr \<Rightarrow> batch \<Rightarrow> rstr \<Rightarrow> batch"
where
  "route_table en su sm ev path rel b table =
     (if is_per_table su table
      then mark table rel (track_batch_file sm table path rel (is_deleted ev) b)
      else if is_deleted ev then handle_delete en table rel b
      else handle_upsert en su sm table path rel b)"

definition route_group ::
  "engine \<Rightarrow> wiring \<Rightarrow> seam \<Rightarrow> file_event \<Rightarrow> rstr \<Rightarrow> batch \<Rightarrow> anchor_group \<times> rstr \<Rightarrow> batch"
where
  "route_group en su sm ev path b grel =
     (case grel of (g, rel) \<Rightarrow>
        if is_ignored (ag_matcher g) rel then b
        else if tm_gitignore (ag_matcher g) \<and>
          is_gitignored_path (sm_disk sm) path (or_false (sm_is_dir sm path)) then b
        else if is_created ev \<and> or_false (sm_is_dir sm path) then index_subtree en su sm g path b
        else
          (let b1 = foldl (route_table en su sm ev path rel) b (match_all (ag_matcher g) rel) in
           if is_deleted ev then delete_subtree en g rel b1 else b1))"

definition route_file_event :: "engine \<Rightarrow> wiring \<Rightarrow> seam \<Rightarrow> batch \<Rightarrow> file_event \<Rightarrow> batch" where
  "route_file_event en su sm b ev =
     (case event_path ev of
        None \<Rightarrow> b
      | Some path \<Rightarrow> foldl (route_group en su sm ev path) b (groups_containing su path))"

section \<open>A batch\<close>

text \<open>The events of a batch: those given, then what \<open>late\<close> reports, until it reports none.\<close>

fun drained :: "file_event list \<Rightarrow> file_event list list \<Rightarrow> file_event list" where
  "drained [] late = []"
| "drained (ev # evs) [] = ev # evs"
| "drained (ev # evs) (l # late) = (ev # evs) @ drained l late"

definition apply_event :: "engine \<Rightarrow> wiring \<Rightarrow> seam \<Rightarrow> batch \<Rightarrow> file_event \<Rightarrow> batch" where
  "apply_event en su sm b ev =
     (if ev = Rescan then b
      else (case through_links ev b of (evs, b1) \<Rightarrow> foldl (route_file_event en su sm) b1 evs))"

definition is_error :: "row_event \<Rightarrow> bool" where
  "is_error ev \<longleftrightarrow> (case ev of Error t p e \<Rightarrow> True | _ \<Rightarrow> False)"

fun batch_error :: "engine \<Rightarrow> db_error \<Rightarrow> row_event" where
  "batch_error en (Foreign_Key v) =
     Error (Some (fk_table v)) (case fk_file v of Some f \<Rightarrow> f | None \<Rightarrow> []) (fk_message v)"
| "batch_error en e = Error None [] (db_error_text en e)"

record rejected_batch =
  rb_events :: "file_event list"
  rb_errors :: "row_event list"

definition apply_batch ::
  "engine \<Rightarrow> wiring \<Rightarrow> seam \<Rightarrow> file_event list \<Rightarrow> file_event list list \<Rightarrow> index_state \<Rightarrow>
   (rejected_batch + row_event list) \<times> index_state"
where
  "apply_batch en su sm events late ix =
     (case begin_unit (ix_conn ix) of
        (Inl e, conn) \<Rightarrow> (Inr [batch_error en e], ix\<lparr>ix_conn := conn\<rparr>)
      | (Inr _, conn) \<Rightarrow>
          (let applied = drained events late;
               b1 = foldl (apply_event en su sm) (start_batch (ix\<lparr>ix_conn := conn\<rparr>)) applied;
               b2 = (if Rescan \<in> set applied then rescan en su sm b1 else b1);
               b3 = refresh_pending en su sm b2 in
           case commit en (ix_conn b3) of
             (Inr _, conn') \<Rightarrow> (Inr (ba_out b3), end_batch (b3\<lparr>ix_conn := conn'\<rparr>))
           | (Inl e, conn') \<Rightarrow>
               (Inl \<lparr>rb_events = applied, rb_errors = filter is_error (ba_out b3) @ [batch_error en e]\<rparr>,
                end_batch (b3\<lparr>ix_conn := conn'\<rparr>))))"

definition hold :: "file_event list \<Rightarrow> index_state \<Rightarrow> index_state" where
  "hold events ix =
     ix\<lparr>ix_held := foldl (\<lambda>held ev. if holds_event held ev then held else held @ [ev]) (ix_held ix) events\<rparr>"

text \<open>A held event, restated as the path's state now.\<close>

definition current_event :: "seam \<Rightarrow> file_event \<Rightarrow> file_event" where
  "current_event sm ev =
     (case event_path ev of
        None \<Rightarrow> Rescan
      | Some p \<Rightarrow> if or_false (sm_is_file sm p) \<or> or_false (sm_is_dir sm p) then Created p else Deleted p)"

definition take_held :: "seam \<Rightarrow> index_state \<Rightarrow> file_event list \<times> index_state" where
  "take_held sm ix =
     (foldl (\<lambda>evs ev. if holds_event evs (current_event sm ev) then evs else evs @ [current_event sm ev])
        [] (ix_held ix),
      ix\<lparr>ix_held := []\<rparr>)"

definition apply_events ::
  "engine \<Rightarrow> wiring \<Rightarrow> seam \<Rightarrow> file_event list \<Rightarrow> file_event list list \<Rightarrow> index_state \<Rightarrow>
   row_event list \<times> index_state"
where
  "apply_events en su sm events late ix =
     (if events = [] then ([], ix)
      else (case take_held sm ix of (held, ix1) \<Rightarrow>
        if held = [] then
          (case apply_batch en su sm events late ix1 of
             (Inr out, ix2) \<Rightarrow> (out, ix2)
           | (Inl rej, ix2) \<Rightarrow> (rb_errors rej, hold (rb_events rej) ix2))
        else
          (case apply_batch en su sm (held @ events) late ix1 of
             (Inr out, ix2) \<Rightarrow> (out, ix2)
           | (Inl rej, ix2) \<Rightarrow>
               (let ix3 = hold (take (length held) (rb_events rej)) ix2 in
                case apply_batch en su sm (drop (length held) (rb_events rej)) [] ix3 of
                  (Inr out, ix4) \<Rightarrow> (drop (length (rb_errors rej) - 1) (rb_errors rej) @ out, ix4)
                | (Inl again, ix4) \<Rightarrow> (rb_errors rej, hold (rb_events again) ix4)))))"

definition apply_file_events ::
  "engine \<Rightarrow> wiring \<Rightarrow> seam \<Rightarrow> file_event list \<Rightarrow> file_event list list \<Rightarrow> index_state \<Rightarrow>
   row_event list \<times> index_state"
where
  "apply_file_events en su sm events late ix =
     (case apply_events en su sm events late (ix\<lparr>ix_outbox := []\<rparr>) of
        (out, ix') \<Rightarrow> (ix_outbox ix @ out, ix'))"

section \<open>Before a query\<close>

text \<open>\<open>reconcile\<close>. \<open>sm_fingerprint\<close> is a file's stat before it is read, \<open>after\<close> its stat afterwards.\<close>

definition seed :: "wiring \<Rightarrow> index_state \<Rightarrow> index_state" where
  "seed su ix =
     (let batched = concat (map (\<lambda>t. map (Pair t) (case ix_batch_files ix t of Some ps \<Rightarrow> ps | None \<Rightarrow> []))
            (su_declared su)) in
      ix\<lparr>ix_known := foldl (\<lambda>ks key. AList.update key Built ks) (ix_known ix) (owned_files (cn_db (ix_conn ix)) @ batched),
         ix_seeded := True\<rparr>)"

definition tree_files :: "wiring \<Rightarrow> seam \<Rightarrow> (rstr \<times> rstr \<times> rstr) list" where
  "tree_files su sm =
     concat (map (\<lambda>g. map (\<lambda>(path, table). (table, below (ag_anchor g) path, path))
       (fst (sm_scan sm (ag_anchor g) (ag_anchor g) (ag_matcher g)))) (su_groups su))"

type_synonym known_update = "(rstr \<times> rstr) \<times> known"

fun read_files ::
  "engine \<Rightarrow> wiring \<Rightarrow> seam \<Rightarrow> (rstr \<Rightarrow> fingerprint option) \<Rightarrow> int \<Rightarrow> (rstr \<times> rstr \<times> rstr) list \<Rightarrow> batch \<Rightarrow>
   (dirsql_error + known_update list) \<times> batch"
where
  "read_files en su sm after start_ns [] b = (Inr [], b)"
| "read_files en su sm after start_ns ((table, rel, path) # fs) b =
     (let now = sm_fingerprint sm path;
          k = map_of (ix_known b) (table, rel) in
      if \<not> must_read k now (su_built_ns su) then
        apfst (map_sum id (\<lambda>us. case adopted k now (su_built_ns su) of
            Some a \<Rightarrow> ((table, rel), a) # us | None \<Rightarrow> us))
          (read_files en su sm after start_ns fs b)
      else if is_per_table su table then
        read_files en su sm after start_ns fs (mark table rel (track_batch_file sm table path rel False b))
      else
        (let b1 = handle_upsert en su sm table path rel b in
         case find is_error (drop (length (ba_out b)) (ba_out b1)) of
           Some (Error t p message) \<Rightarrow>
             (Inl (On_File table rel message), b1\<lparr>ix_conn := rolled_back (ix_conn b1)\<rparr>)
         | _ \<Rightarrow>
             apfst (map_sum id (Cons ((table, rel), after_read (after path) start_ns)))
               (read_files en su sm after start_ns fs b1)))"

definition gone_keys :: "(rstr \<times> rstr \<times> rstr) list \<Rightarrow> batch \<Rightarrow> (rstr \<times> rstr) list" where
  "gone_keys fs b =
     filter (\<lambda>key. key \<notin> set (map (\<lambda>(table, rel, path). (table, rel)) fs)) (map fst (ix_known b))"

definition drop_gone :: "engine \<Rightarrow> wiring \<Rightarrow> seam \<Rightarrow> batch \<Rightarrow> rstr \<times> rstr \<Rightarrow> batch" where
  "drop_gone en su sm b key =
     (case key of (table, rel) \<Rightarrow>
        if is_per_table su table then mark table rel (track_batch_file sm table rel rel True b)
        else handle_delete en table rel b)"

definition reconcile ::
  "engine \<Rightarrow> wiring \<Rightarrow> seam \<Rightarrow> (rstr \<Rightarrow> fingerprint option) \<Rightarrow> int \<Rightarrow> index_state \<Rightarrow>
   (dirsql_error + unit) \<times> index_state"
where
  "reconcile en su sm after start_ns ix =
     (let ix0 = (if ix_seeded ix then ix else seed su ix);
          fs = tree_files su sm in
      case begin_unit (ix_conn ix0) of
        (Inl e, conn) \<Rightarrow> (Inl (Core e), ix0\<lparr>ix_conn := conn\<rparr>)
      | (Inr _, conn) \<Rightarrow>
     (case read_files en su sm after start_ns fs (start_batch (ix0\<lparr>ix_conn := conn\<rparr>)) of
        (Inl e, b) \<Rightarrow> (Inl e, end_batch b)
      | (Inr updates, b1) \<Rightarrow>
          (let gone = gone_keys fs b1;
               b2 = foldl (drop_gone en su sm) b1 gone;
               rerun = map fst (ba_pending b2);
               b3 = refresh_pending en su sm b2;
               rerun_updates = map (\<lambda>(table, rel, path). ((table, rel), after_read (after path) start_ns))
                 (filter (\<lambda>(table, rel, path). table \<in> set rerun) fs) in
           case commit en (ix_conn b3) of
             (Inl e, conn') \<Rightarrow> (Inl (Core e), end_batch (b3\<lparr>ix_conn := conn'\<rparr>))
           | (Inr _, conn') \<Rightarrow>
               (Inr (), (end_batch (b3\<lparr>ix_conn := conn'\<rparr>))
                  \<lparr>ix_known := foldl (\<lambda>ks (key, k). AList.update key k ks)
                     (filter (\<lambda>(key, k). key \<notin> set gone) (ix_known b3)) (updates @ rerun_updates),
                   ix_outbox := ix_outbox b3 @ ba_out b3\<rparr>))))"

end
