(* ===== verification/Persist.thy ===== *)
theory Persist
  imports Watch_Batch
begin

text \<open>
  \<open>packages/rust/src/persist.rs\<close>, the cache a build keeps on disk: the stat of a file and whether it
  proves the cached rows current, the digest of the configuration, the bookkeeping tables
  \<open>_dirsql_meta\<close> and \<open>_dirsql_files\<close> with the statements that write them, and the sweep of a cache
  made under another configuration.

  The digest \<open>blake3\<close>, the canonical form of a path and what a \<open>DROP TABLE\<close> or a batch of DDL does to
  the schema are parameters. A time is nanoseconds since the epoch.
\<close>

section \<open>Stats\<close>

record file_stat =
  st_size :: int
  st_mtime_ns :: int
  st_ctime_ns :: int
  st_inode :: int
  st_dev :: int

record metadata =
  md_len :: nat
  md_modified :: "int option"
  md_created :: "int option"
  md_ino :: "64 word"
  md_dev :: "64 word"

definition system_time_to_ns :: "int option \<Rightarrow> int" where
  "system_time_to_ns t =
     (case t of
        Some ns \<Rightarrow> if 0 \<le> ns then (if ns \<le> i64_max then ns else i64_max) else 0
      | None \<Rightarrow> 0)"

definition inode_dev :: "bool \<Rightarrow> metadata \<Rightarrow> int \<times> int" where
  "inode_dev unix md = (if unix then (sint (md_ino md), sint (md_dev md)) else (0, 0))"

text \<open>\<open>from_metadata\<close>; a length no \<open>i64\<close> holds is a panic.\<close>

definition stat_from_metadata :: "bool \<Rightarrow> metadata \<Rightarrow> file_stat option" where
  "stat_from_metadata unix md =
     (if int (md_len md) \<le> i64_max
      then Some \<lparr>st_size = int (md_len md), st_mtime_ns = system_time_to_ns (md_modified md),
        st_ctime_ns = system_time_to_ns (md_created md),
        st_inode = fst (inode_dev unix md), st_dev = snd (inode_dev unix md)\<rparr>
      else None)"

record cached_file =
  cf_rel_path :: rstr
  cf_table :: rstr
  cf_stat :: file_stat
  cf_hash :: "bytes option"
  cf_snapshot_ns :: int

text \<open>\<open>hash\<close> is the live file's, \<open>None\<close> when it cannot be read.\<close>

definition is_trusted :: "file_stat \<Rightarrow> bytes option \<Rightarrow> int \<Rightarrow> file_stat \<Rightarrow> bytes option \<Rightarrow> bool" where
  "is_trusted cached cached_hash snapshot_ns live hash =
     (if cached \<noteq> live then False
      else if snapshot_ns > st_mtime_ns live then True
      else (case (hash, cached_hash) of (Some h, Some c) \<Rightarrow> h = c | _ \<Rightarrow> False))"

section \<open>The digest of the configuration\<close>

record table_decl =
  td_name :: rstr
  td_ddl :: rstr
  td_glob :: rstr
  td_strict :: bool
  td_hook :: hook
  td_anchor :: "rstr option"
  td_ignore :: "rstr list"
  td_warn_when_empty :: bool

text \<open>The entries of the \<open>BTreeMap\<close>, by name; a name's last table is its entry.\<close>

definition config_entries :: "table_decl list \<Rightarrow> (rstr \<times> table_decl) list" where
  "config_entries tables = sort_key fst (foldl (\<lambda>m t. AList.update (td_name t) t m) [] tables)"

definition entry_text :: "rstr \<times> table_decl \<Rightarrow> rstr" where
  "entry_text e =
     (case e of (name, t) \<Rightarrow>
        name @ [0] @ td_ddl t @ [0] @ td_glob t @ [0] @ ascii (if td_strict t then ''1'' else ''0'') @
        (case td_anchor t of Some anchor \<Rightarrow> [0] @ ascii ''anchor'' @ [0] @ anchor | None \<Rightarrow> []) @
        concat (map (\<lambda>pat. [0] @ ascii ''ignore'' @ [0] @ pat) (td_ignore t)) @ [c_nl])"

definition glob_config_text :: "table_decl list \<Rightarrow> rstr list \<Rightarrow> rstr" where
  "glob_config_text tables ignore =
     ascii ''v1'' @ [c_nl] @ concat (map entry_text (config_entries tables)) @
     ascii ''--ignore--'' @ [c_nl] @ concat (map (\<lambda>pat. pat @ [c_nl]) (sort ignore))"

definition to_hex :: "bytes \<Rightarrow> rstr" where
  "to_hex bs = concat (map (\<lambda>b. [hex_digit (b div 16), hex_digit (b mod 16)]) bs)"

definition compute_glob_config_hash :: "(bytes \<Rightarrow> bytes) \<Rightarrow> table_decl list \<Rightarrow> rstr list \<Rightarrow> rstr" where
  "compute_glob_config_hash blake3 tables ignore = to_hex (blake3 (utf8 (glob_config_text tables ignore)))"

definition canonical_root :: "(rstr \<Rightarrow> rstr option) \<Rightarrow> rstr \<Rightarrow> rstr" where
  "canonical_root canonicalize root = (case canonicalize root of Some p \<Rightarrow> p | None \<Rightarrow> root)"

text \<open>A digest is 32 bytes, so the slice of its first sixteen digits is none out of bounds.\<close>

definition default_cache_path :: "(bytes \<Rightarrow> bytes) \<Rightarrow> rstr \<Rightarrow> rstr \<Rightarrow> rstr" where
  "default_cache_path blake3 cache_dir root =
     path_join (path_join (path_join cache_dir (ascii ''dirsql'')) (take 16 (to_hex (blake3 (utf8 root)))))
       (ascii ''cache.db'')"

definition resolve_persist_path ::
  "(bytes \<Rightarrow> bytes) \<Rightarrow> (rstr \<Rightarrow> rstr option) \<Rightarrow> rstr \<Rightarrow> rstr \<Rightarrow> rstr option \<Rightarrow> rstr"
where
  "resolve_persist_path blake3 canonicalize cache_dir root override =
     (case override of Some p \<Rightarrow> p | None \<Rightarrow> default_cache_path blake3 cache_dir (canonical_root canonicalize root))"

section \<open>The schema\<close>

text \<open>SQLite's catalog, with the batch of DDL that made each table. \<open>se_run\<close> runs a batch and
  \<open>se_drop\<close> drops a table, each in a transaction of its own.\<close>

record catalog_entry =
  ce_kind :: rstr
  ce_without_rowid :: bool
  ce_ddl :: rstr

type_synonym catalog = "(rstr \<times> catalog_entry) list"

record schema_engine =
  se_run :: "rstr \<Rightarrow> catalog \<times> db \<Rightarrow> sqlite_error + (catalog \<times> db)"
  se_drop :: "rstr \<Rightarrow> catalog \<times> db \<Rightarrow> sqlite_error + (catalog \<times> db)"

abbreviation (input) c_percent :: uchar where "c_percent \<equiv> 37"

text \<open>SQLite's \<open>LIKE\<close>: \<open>%\<close> is any characters, \<open>_\<close> any one, and ASCII letters match in either case.\<close>

fun sql_like :: "rstr \<Rightarrow> rstr \<Rightarrow> bool" where
  "sql_like [] s = (s = [])"
| "sql_like (p # ps) s =
     (if p = c_percent then list_ex (\<lambda>k. sql_like ps (drop k s)) [0..<Suc (length s)]
      else (case s of
          [] \<Rightarrow> False
        | c # cs \<Rightarrow> (p = c_under \<or> to_ascii_lowercase p = to_ascii_lowercase c) \<and> sql_like ps cs))"

definition is_user_table :: "rstr \<times> catalog_entry \<Rightarrow> bool" where
  "is_user_table e \<longleftrightarrow>
     ce_kind (snd e) \<in> {ascii ''table'', ascii ''virtual''} \<and>
     \<not> sql_like (ascii ''_dirsql_%'') (fst e) \<and> \<not> sql_like (ascii ''sqlite_%'') (fst e)"

text \<open>Virtual tables first, then by name.\<close>

definition user_table_names :: "catalog \<Rightarrow> rstr list" where
  "user_table_names cat =
     map fst (sort_key (\<lambda>(name, e). (ce_kind e \<noteq> ascii ''virtual'', name)) (filter is_user_table cat))"

section \<open>The bookkeeping tables\<close>

text \<open>What the cache file holds.\<close>

record store =
  so_catalog :: catalog
  so_db :: db
  so_meta :: "(rstr \<times> rstr) list"
  so_files :: "cached_file list"

definition upsert_meta :: "rstr \<times> rstr \<Rightarrow> (rstr \<times> rstr) list \<Rightarrow> (rstr \<times> rstr) list" where
  "upsert_meta e meta = AList.update (fst e) (snd e) meta"

definition write_meta :: "(rstr \<times> rstr) list \<Rightarrow> (rstr \<times> rstr) list" where
  "write_meta entries = foldl (\<lambda>m e. upsert_meta e m) [] entries"

definition build_meta :: "rstr \<Rightarrow> rstr \<Rightarrow> rstr \<Rightarrow> (rstr \<times> rstr) list" where
  "build_meta pkg_version glob_config_hash root =
     [(ascii ''schema_version'', ascii ''4''),
      (ascii ''dirsql_version'', pkg_version),
      (ascii ''glob_config_hash'', glob_config_hash),
      (ascii ''parser_versions'', ascii ''{}''),
      (ascii ''root_canonical'', root)]"

definition meta_is_compatible :: "(rstr \<times> rstr) list \<Rightarrow> (rstr \<times> rstr) list \<Rightarrow> bool" where
  "meta_is_compatible cached expected = list_all (\<lambda>(k, v). map_of cached k = Some v) expected"

text \<open>A hash of the wrong width is dropped.\<close>

definition read_cached_file_row :: "cached_file \<Rightarrow> cached_file" where
  "read_cached_file_row row =
     row\<lparr>cf_hash := (case cf_hash row of Some b \<Rightarrow> if length b = 32 then Some b else None | None \<Rightarrow> None)\<rparr>"

definition cached_key :: "cached_file \<Rightarrow> rstr \<times> rstr" where
  "cached_key row = (cf_rel_path row, cf_table row)"

definition read_cached_files :: "cached_file list \<Rightarrow> ((rstr \<times> rstr) \<times> cached_file) list" where
  "read_cached_files rows = foldl (\<lambda>m row. AList.update (cached_key row) (read_cached_file_row row) m) [] rows"

definition upsert_file :: "cached_file \<Rightarrow> cached_file list \<Rightarrow> cached_file list" where
  "upsert_file new rows =
     (if list_ex (\<lambda>row. cached_key row = cached_key new) rows
      then map (\<lambda>row. if cached_key row = cached_key new then new else row) rows
      else rows @ [new])"

definition cache_delete_file :: "rstr \<Rightarrow> rstr \<Rightarrow> cached_file list \<Rightarrow> cached_file list" where
  "cache_delete_file rel_path table rows = filter (\<lambda>row. cached_key row \<noteq> (rel_path, table)) rows"

fun drop_tables ::
  "schema_engine \<Rightarrow> rstr list \<Rightarrow> catalog \<times> db \<Rightarrow> (sqlite_error + unit) \<times> catalog \<times> db"
where
  "drop_tables se [] s = (Inr (), s)"
| "drop_tables se (name # rest) s =
     (case se_drop se name s of Inl e \<Rightarrow> (Inl e, s) | Inr s' \<Rightarrow> drop_tables se rest s')"

text \<open>\<open>drop_user_tables\<close>; the files' bookkeeping and the ownership of rows go too. The tables dropped
  before one that cannot be are gone.\<close>

definition drop_user_tables :: "schema_engine \<Rightarrow> store \<Rightarrow> (sqlite_error + unit) \<times> store" where
  "drop_user_tables se so =
     (case drop_tables se (user_table_names (so_catalog so)) (so_catalog so, so_db so) of
        (Inl e, cat, db) \<Rightarrow> (Inl e, so\<lparr>so_catalog := cat, so_db := db\<rparr>)
      | (Inr _, cat, db) \<Rightarrow>
          (Inr (), so\<lparr>so_catalog := cat, so_db := db\<lparr>db_mapping := [], db_ranges := []\<rparr>, so_files := []\<rparr>))"

end
