(* ===== verification/Build.thy ===== *)
theory Build
  imports Persist Path_Table
begin

text \<open>
  \<open>packages/rust/src/lib.rs\<close>, the construction of an index: \<open>prepare_resolved\<close> groups the tables by
  anchor, walks each group's tree and decides which files the cache on disk still describes;
  \<open>finish_build\<close> runs the DDL and the hooks and stores their rows in one transaction.

  The cache a build starts from is a \<open>store\<close>; an index that is not kept on disk starts from the empty
  one. A build gives the index, or an error, and what the file on disk then holds. The schema made by
  the DDL decides how SQLite treats each table, which is the parameter \<open>sch\<close>. \<open>pieces\<close> is where a hook's
  output falls into the chunks it arrives in.
\<close>

section \<open>Groups of tables\<close>

text \<open>\<open>TableAnchors::of\<close>; a name declared twice is an error before it is asked.\<close>

definition anchor_of :: "rstr \<Rightarrow> table_decl list \<Rightarrow> rstr \<Rightarrow> rstr" where
  "anchor_of root tables name =
     (case find (\<lambda>t. td_name t = name) tables of
        Some t \<Rightarrow> (case td_anchor t of Some anchor \<Rightarrow> anchor | None \<Rightarrow> root)
      | None \<Rightarrow> root)"

type_synonym group_draft = "rstr \<times> rstr list \<times> (rstr \<times> rstr) list \<times> rstr list"

fun place_table :: "rstr \<Rightarrow> rstr list \<Rightarrow> rstr \<times> rstr \<Rightarrow> rstr option \<Rightarrow> group_draft list \<Rightarrow> group_draft list" where
  "place_table anchor ignore mapping named [] =
     [(anchor, ignore, [mapping], case named of Some d \<Rightarrow> [d] | None \<Rightarrow> [])]"
| "place_table anchor ignore mapping named ((a, i, mappings, dirs) # gs) =
     (if same_path a anchor \<and> i = ignore
      then (a, i, mappings @ [mapping], dirs @ (case named of Some d \<Rightarrow> [d] | None \<Rightarrow> [])) # gs
      else (a, i, mappings, dirs) # place_table anchor ignore mapping named gs)"

fun draft_groups ::
  "(rstr \<Rightarrow> bool) \<Rightarrow> rstr \<Rightarrow> table_decl list \<Rightarrow> rstr list \<Rightarrow> group_draft list \<Rightarrow> dirsql_error + group_draft list"
where
  "draft_groups is_dir root [] seen gs = Inr gs"
| "draft_groups is_dir root (t # ts) seen gs =
     (case validate_identifier (td_name t) of
        Inl e \<Rightarrow> Inl (Core e)
      | Inr _ \<Rightarrow>
          if td_name t \<in> set seen then Inl (Duplicate_Table (td_name t))
          else (let anchor = (case td_anchor t of Some a \<Rightarrow> a | None \<Rightarrow> root) in
            draft_groups is_dir root ts (td_name t # seen)
              (place_table anchor (td_ignore t) (directory_as_glob (td_glob t) anchor is_dir, td_name t)
                (named_directory (td_glob t) anchor is_dir) gs)))"

fun finish_groups :: "engines \<Rightarrow> rstr list \<Rightarrow> group_draft list \<Rightarrow> dirsql_error + anchor_group list" where
  "finish_groups gx ignore [] = Inr []"
| "finish_groups gx ignore ((anchor, scoped, mappings, dirs) # gs) =
     (case matcher_new gx mappings (ignore @ scoped) of
        None \<Rightarrow> Inl Matcher
      | Some m \<Rightarrow>
          (case finish_groups gx ignore gs of
             Inl e \<Rightarrow> Inl e
           | Inr groups \<Rightarrow>
               Inr (\<lparr>ag_anchor = anchor, ag_watch_anchor = anchor, ag_matcher = matcher_named_dirs m dirs,
                 ag_tables = map snd mappings\<rparr> # groups)))"

definition compile_groups ::
  "engines \<Rightarrow> (rstr \<Rightarrow> bool) \<Rightarrow> table_decl list \<Rightarrow> rstr list \<Rightarrow> rstr \<Rightarrow> dirsql_error + anchor_group list"
where
  "compile_groups gx is_dir tables ignore root =
     (case draft_groups is_dir root tables [] [] of Inl e \<Rightarrow> Inl e | Inr gs \<Rightarrow> finish_groups gx ignore gs)"

text \<open>\<open>scan\<close> is \<open>scan_directory_reporting\<close>: the files found and the links entered.\<close>

definition scan_groups ::
  "(rstr \<Rightarrow> table_matcher \<Rightarrow> found_file list \<times> rstr list) \<Rightarrow> anchor_group list \<Rightarrow> found_file list \<times> rstr list"
where
  "scan_groups scan groups =
     (concat (map (\<lambda>g. fst (scan (ag_anchor g) (ag_matcher g))) groups),
      concat (map (\<lambda>g. snd (scan (ag_anchor g) (ag_matcher g))) groups))"

definition empty_table_warnings :: "table_decl list \<Rightarrow> rstr \<Rightarrow> found_file list \<Rightarrow> rstr list" where
  "empty_table_warnings tables root scanned =
     map (\<lambda>t. ascii ''dirsql: table '' @ [c_squote] @ td_name t @ [c_squote] @ ascii '': glob '' @ [c_squote] @
         td_glob t @ [c_squote] @ ascii '' matched no files under '' @ anchor_of root tables (td_name t))
       (filter (\<lambda>t. td_warn_when_empty t \<and> \<not> list_ex (\<lambda>f. ff_table f = td_name t) scanned) tables)"

section \<open>The cache\<close>

record persist_context =
  pc_cached :: "((rstr \<times> rstr) \<times> cached_file) list"
  pc_expected_meta :: "(rstr \<times> rstr) list"
  pc_meta_current :: bool
  pc_needs_sweep :: bool

definition prepare_persist :: "(rstr \<times> rstr) list \<Rightarrow> store \<Rightarrow> persist_context" where
  "prepare_persist expected so =
     (let compatible = (so_meta so \<noteq> [] \<and> meta_is_compatible (so_meta so) expected) in
      \<lparr>pc_cached = (if compatible then read_cached_files (so_files so) else []),
       pc_expected_meta = expected,
       pc_meta_current = (compatible \<and> length (so_meta so) = length expected),
       pc_needs_sweep = (\<not> compatible)\<rparr>)"

record scanned_file =
  sf_abs_path :: rstr
  sf_rel_path :: rstr
  sf_table :: rstr
  sf_stat :: "file_stat option"
  sf_trusted :: bool

definition found_file_as_scanned :: "found_file \<Rightarrow> scanned_file" where
  "found_file_as_scanned f =
     \<lparr>sf_abs_path = ff_path f, sf_rel_path = ff_rel_path f, sf_table = ff_table f, sf_stat = None, sf_trusted = False\<rparr>"

definition cached_trusted ::
  "persist_context \<Rightarrow> (rstr \<Rightarrow> bytes option) \<Rightarrow> found_file \<Rightarrow> file_stat \<Rightarrow> bool"
where
  "cached_trusted ctx hash f stat =
     (case map_of (pc_cached ctx) (ff_rel_path f, ff_table f) of
        None \<Rightarrow> False
      | Some c \<Rightarrow> is_trusted (cf_stat c) (cf_hash c) (cf_snapshot_ns c) stat (hash (ff_path f)))"

fun stat_scanned ::
  "persist_context \<Rightarrow> (rstr \<Rightarrow> io_error + file_stat) \<Rightarrow> (rstr \<Rightarrow> bytes option) \<Rightarrow> found_file list \<Rightarrow>
   dirsql_error + scanned_file list"
where
  "stat_scanned ctx stat hash [] = Inr []"
| "stat_scanned ctx stat hash (f # fs) =
     (case stat (ff_path f) of
        Inl e \<Rightarrow> Inl (Io e)
      | Inr st \<Rightarrow>
          map_sum id (Cons \<lparr>sf_abs_path = ff_path f, sf_rel_path = ff_rel_path f, sf_table = ff_table f,
              sf_stat = Some st, sf_trusted = cached_trusted ctx hash f st\<rparr>)
            (stat_scanned ctx stat hash fs))"

text \<open>The keys of the cached files, a \<open>HashMap\<close>, in the order of its entries.\<close>

definition reconcile_scan ::
  "found_file list \<Rightarrow> persist_context \<Rightarrow> (rstr \<Rightarrow> io_error + file_stat) \<Rightarrow> (rstr \<Rightarrow> bytes option) \<Rightarrow>
   dirsql_error + (scanned_file list \<times> (rstr \<times> rstr) list)"
where
  "reconcile_scan scanned ctx stat hash =
     map_sum id (\<lambda>files. (files,
         filter (\<lambda>key. key \<notin> set (map (\<lambda>f. (ff_rel_path f, ff_table f)) scanned)) (map fst (pc_cached ctx))))
       (stat_scanned ctx stat hash scanned)"

section \<open>The tables\<close>

definition classify_declared_table ::
  "rstr \<Rightarrow> catalog_entry option \<Rightarrow> rstr list \<Rightarrow> dirsql_error + rstr option"
where
  "classify_declared_table name entry created =
     (case entry of
        None \<Rightarrow> Inl (Table_Not_Created name (sort created))
      | Some e \<Rightarrow>
          if ce_kind e = ascii ''virtual'' then Inl (Table_Is_Virtual name)
          else if ce_without_rowid e then
            Inr (Some (ascii ''dirsql: table `'' @ name @ ascii ''` is declared WITHOUT ROWID; internal row bookkeeping relies on rowid and WITHOUT ROWID tables will be rejected in a future release''))
          else Inr None)"

text \<open>\<open>create_table\<close>: the batch commits whole or not at all.\<close>

definition create_table ::
  "schema_engine \<Rightarrow> rstr \<Rightarrow> rstr \<Rightarrow> catalog \<times> db \<Rightarrow> db_error + (catalog \<times> db)"
where
  "create_table se name ddl s =
     (case validate_identifier name of
        Inl e \<Rightarrow> Inl e
      | Inr _ \<Rightarrow> (case se_run se ddl s of Inl e \<Rightarrow> Inl (Sqlite e) | Inr s' \<Rightarrow> Inr s'))"

definition is_warm :: "catalog \<Rightarrow> rstr \<Rightarrow> bool" where
  "is_warm cat name = (case map_of cat name of Some e \<Rightarrow> ce_kind e = ascii ''table'' | None \<Rightarrow> False)"

fun run_table_ddl ::
  "schema_engine \<Rightarrow> table_decl list \<Rightarrow> catalog \<times> db \<Rightarrow> (dirsql_error + rstr list) \<times> catalog \<times> db"
where
  "run_table_ddl se [] s = (Inr [], s)"
| "run_table_ddl se (t # ts) s =
     (if is_warm (fst s) (td_name t) then run_table_ddl se ts s
      else (case create_table se (td_name t) (td_ddl t) s of
          Inl e \<Rightarrow> (Inl (Table_Ddl (td_name t) e), s)
        | Inr s' \<Rightarrow>
            (let created = filter (\<lambda>name. name \<notin> set (user_table_names (fst s))) (user_table_names (fst s')) in
             case classify_declared_table (td_name t) (map_of (fst s') (td_name t)) created of
               Inl e \<Rightarrow> (Inl e, s')
             | Inr warning \<Rightarrow>
                 apfst (map_sum id (\<lambda>ws. (case warning of Some w \<Rightarrow> [w] | None \<Rightarrow> []) @ ws))
                   (run_table_ddl se ts s'))))"

end
