(* ===== verification/Ingest.thy ===== *)
theory Ingest
  imports Build
begin

text \<open>
  \<open>packages/rust/src/lib.rs\<close>, \<open>finish_build\<close>: the files the scan found go to their hooks and the rows
  into the tables, in one transaction with the bookkeeping of the cache.

  The thread that shapes chunks while others are inserted hands them over in order, and grouping the
  files beside the inserts touches nothing they do; both are written in sequence. A hook gives no rows
  after it has ended its output.
\<close>

section \<open>The rows of a hook\<close>

record chunked =
  ch_chunks :: "json_row list list"
  ch_result :: "rstr + unit"

text \<open>A hook with no paths is not run.\<close>

definition start_hook ::
  "(json_row list \<Rightarrow> json_row list list) \<Rightarrow> (seam \<Rightarrow> rstr list \<Rightarrow> production) \<Rightarrow> seam \<Rightarrow> rstr list \<Rightarrow> chunked"
where
  "start_hook pieces hook sm paths =
     (if paths = [] then \<lparr>ch_chunks = [], ch_result = Inr ()\<rparr>
      else \<lparr>ch_chunks = pieces (pr_rows (hook sm paths)), ch_result = pr_result (hook sm paths)\<rparr>)"

definition start_per_table_hooks ::
  "(json_row list \<Rightarrow> json_row list list) \<Rightarrow> seam \<Rightarrow> table_decl list \<Rightarrow> found_file list \<Rightarrow> (rstr \<times> chunked) list"
where
  "start_per_table_hooks pieces sm tables scanned =
     List.map_filter (\<lambda>t.
       case td_hook t of
         Per_Table hook \<Rightarrow>
           Some (td_name t, start_hook pieces hook sm (map ff_path (filter (\<lambda>f. ff_table f = td_name t) scanned)))
       | Per_File on_file \<Rightarrow> None) tables"

text \<open>\<open>Result::and\<close>: a hook's failure outranks a row's.\<close>

definition hook_outcome :: "engine \<Rightarrow> rstr + unit \<Rightarrow> db_error + unit \<Rightarrow> rstr + unit" where
  "hook_outcome en produced shaped =
     (case produced of
        Inl message \<Rightarrow> Inl message
      | Inr _ \<Rightarrow> (case shaped of Inl e \<Rightarrow> Inl (db_error_text en e) | Inr _ \<Rightarrow> Inr ()))"

fun store_chunks ::
  "sqlite \<Rightarrow> rstr \<Rightarrow> bool \<Rightarrow> json_row list list \<Rightarrow> db \<Rightarrow> db_error + (db \<times> (db_error + unit))"
where
  "store_chunks sq table strict [] db = Inr (db, Inr ())"
| "store_chunks sq table strict (chunk # chunks) db =
     (case shape_json_rows table (sq_columns sq table) chunk strict of
        Inl e \<Rightarrow> Inr (db, Inl e)
      | Inr rows \<Rightarrow>
          (case insert_rows sq db table rows batch_owner of
             Inl e \<Rightarrow> Inl e
           | Inr db' \<Rightarrow> store_chunks sq table strict chunks db'))"

fun gather_chunks ::
  "rstr \<Rightarrow> rstr list \<Rightarrow> bool \<Rightarrow> json_row list list \<Rightarrow> shaped_rows \<Rightarrow> db_error + shaped_rows"
where
  "gather_chunks table columns strict [] rows = Inr rows"
| "gather_chunks table columns strict (chunk # chunks) rows =
     (case shape_json_rows table columns chunk strict of
        Inl e \<Rightarrow> Inl e
      | Inr shaped \<Rightarrow>
          gather_chunks table columns strict chunks
            (rows\<lparr>sr_cells := sr_cells rows @ sr_cells shaped,
               sr_emitted := map2 (\<or>) (sr_emitted rows) (sr_emitted shaped)\<rparr>))"

definition refill_table_rows ::
  "engine \<Rightarrow> rstr \<Rightarrow> chunked \<Rightarrow> bool \<Rightarrow> db \<Rightarrow> db_error + (db \<times> (rstr + unit))"
where
  "refill_table_rows en table pr strict db =
     (let columns = sq_columns (en_sqlite en) table;
          gathered = gather_chunks table columns strict (ch_chunks pr)
            \<lparr>sr_columns = columns, sr_cells = [], sr_emitted = replicate (length columns) False\<rparr>;
          outcome = hook_outcome en (ch_result pr) (map_sum id (\<lambda>_. ()) gathered) in
      case (outcome, gathered) of
        (Inr _, Inr rows) \<Rightarrow>
          (case refill_batch_rows (en_sqlite en) db table batch_owner rows of
             Inl e \<Rightarrow> Inl e
           | Inr db' \<Rightarrow> Inr (db', outcome))
      | _ \<Rightarrow> Inr (db, outcome))"

definition stream_table_rows ::
  "engine \<Rightarrow> rstr \<Rightarrow> chunked \<Rightarrow> bool \<Rightarrow> db \<Rightarrow> db_error + (db \<times> (rstr + unit))"
where
  "stream_table_rows en table pr strict db =
     (case validate_identifier table of
        Inl e \<Rightarrow> Inl e
      | Inr _ \<Rightarrow>
          if owns_rows db table batch_owner then refill_table_rows en table pr strict db
          else (case store_chunks (en_sqlite en) table strict (ch_chunks pr) db of
              Inl e \<Rightarrow> Inl e
            | Inr (db', shaped) \<Rightarrow> Inr (db', hook_outcome en (ch_result pr) shaped)))"

section \<open>Grouping the kept\<close>

type_synonym file_hook = "seam \<Rightarrow> rstr \<Rightarrow> rstr + row list"
type_synonym table_hook = "seam \<Rightarrow> rstr list \<Rightarrow> production"
type_synonym table_batch = "rstr \<times> table_hook \<times> scanned_file list"

fun push_file :: "table_hook \<Rightarrow> scanned_file \<Rightarrow> table_batch list \<Rightarrow> table_batch list" where
  "push_file hook f [] = [(sf_table f, hook, [f])]"
| "push_file hook f ((name, h, fs) # bs) =
     (if name = sf_table f then (name, h, fs @ [f]) # bs else (name, h, fs) # push_file hook f bs)"

text \<open>The last batch is asked before the hooks are.\<close>

definition push_last :: "scanned_file \<Rightarrow> table_batch list \<Rightarrow> table_batch list option" where
  "push_last f bs =
     (case rev bs of
        (name, h, fs) # before \<Rightarrow> if name = sf_table f then Some (rev ((name, h, fs @ [f]) # before)) else None
      | [] \<Rightarrow> None)"

fun group_files ::
  "(rstr \<rightharpoonup> hook) \<Rightarrow> scanned_file list \<Rightarrow> (scanned_file \<times> file_hook) list \<Rightarrow> table_batch list \<Rightarrow>
   dirsql_error + ((scanned_file \<times> file_hook) list \<times> table_batch list)"
where
  "group_files hooks [] per_file batches = Inr (per_file, batches)"
| "group_files hooks (f # fs) per_file batches =
     (case push_last f batches of
        Some batches' \<Rightarrow> group_files hooks fs per_file batches'
      | None \<Rightarrow>
     (case hooks (sf_table f) of
        Some (Per_File on_file) \<Rightarrow>
          group_files hooks fs (if sf_trusted f then per_file else per_file @ [(f, on_file)]) batches
      | Some (Per_Table hook) \<Rightarrow> group_files hooks fs per_file (push_file hook f batches)
      | None \<Rightarrow> Inl (Ddl (ascii ''missing on-file function for table '' @ sf_table f))))"

definition group_scanned ::
  "(rstr \<rightharpoonup> hook) \<Rightarrow> scanned_file list \<Rightarrow>
   dirsql_error + ((scanned_file \<times> file_hook) list \<times> table_batch list)"
where
  "group_scanned hooks fs = group_files hooks fs [] []"

definition batch_paths :: "scanned_file list \<Rightarrow> rstr list \<times> rstr list" where
  "batch_paths fs = (map sf_rel_path fs, map sf_abs_path fs)"

definition split_streamed ::
  "table_batch list \<Rightarrow> rstr set \<Rightarrow> table_batch list \<times> (rstr \<times> rstr list) list"
where
  "split_streamed batches streamed =
     (filter (\<lambda>(name, h, fs). name \<notin> streamed) batches,
      map (\<lambda>(name, h, fs). (name, fst (batch_paths fs))) (filter (\<lambda>(name, h, fs). name \<in> streamed) batches))"

section \<open>Ingesting\<close>

fun stream_early ::
  "engine \<Rightarrow> (rstr \<rightharpoonup> bool) \<Rightarrow> (rstr \<times> chunked) list \<Rightarrow> db \<Rightarrow> dirsql_error + db"
where
  "stream_early en stricts [] db = Inr db"
| "stream_early en stricts ((table, pr) # early) db =
     (case stream_table_rows en table pr (stricts table = Some True) db of
        Inl e \<Rightarrow> Inl (Core e)
      | Inr (db', Inl message) \<Rightarrow> Inl (Table_Command table message)
      | Inr (db', Inr _) \<Rightarrow> stream_early en stricts early db')"

fun normalize_rows :: "rstr \<Rightarrow> rstr list \<Rightarrow> row list \<Rightarrow> bool \<Rightarrow> db_error + row list" where
  "normalize_rows table columns [] strict = Inr []"
| "normalize_rows table columns (row # rows) strict =
     (case normalize_against table columns row strict of
        Inl e \<Rightarrow> Inl e
      | Inr normalized \<Rightarrow> map_sum id (Cons normalized) (normalize_rows table columns rows strict))"

text \<open>What the ingest goes by: whether the cache is kept, the anchors, the digest of a file's content and
  the time it began at.\<close>

record ingest_cfg =
  ig_engine :: engine
  ig_pieces :: "json_row list \<Rightarrow> json_row list list"
  ig_seam :: seam
  ig_persist :: bool
  ig_anchor :: "rstr \<Rightarrow> rstr"
  ig_stricts :: "rstr \<rightharpoonup> bool"
  ig_hash :: "rstr \<Rightarrow> bytes option"
  ig_snapshot_ns :: int

definition remember_file :: "ingest_cfg \<Rightarrow> rstr \<Rightarrow> scanned_file \<Rightarrow> cached_file list \<Rightarrow> cached_file list" where
  "remember_file ig table f kept =
     (case sf_stat f of
        Some st \<Rightarrow>
          if ig_persist ig then
            upsert_file \<lparr>cf_rel_path = sf_rel_path f, cf_table = table, cf_stat = st,
              cf_hash = ig_hash ig (path_join (ig_anchor ig table) (sf_rel_path f)),
              cf_snapshot_ns = ig_snapshot_ns ig\<rparr> kept
          else kept
      | None \<Rightarrow> kept)"

fun drop_deleted ::
  "sqlite \<Rightarrow> (rstr \<times> rstr) list \<Rightarrow> db \<times> cached_file list \<Rightarrow> dirsql_error + (db \<times> cached_file list)"
where
  "drop_deleted sq [] s = Inr s"
| "drop_deleted sq ((rel, table) # gone) (db, kept) =
     (case delete_rows_by_file sq db table rel of
        Inl e \<Rightarrow> Inl (Core e)
      | Inr (db', n) \<Rightarrow> drop_deleted sq gone (db', cache_delete_file rel table kept))"

definition ingest_file ::
  "ingest_cfg \<Rightarrow> scanned_file \<times> file_hook \<Rightarrow> db \<times> cached_file list \<Rightarrow> dirsql_error + (db \<times> cached_file list)"
where
  "ingest_file ig fh s =
     (case fh of (f, on_file) \<Rightarrow> case s of (db, kept) \<Rightarrow>
        let table = sf_table f; rel = sf_rel_path f; sq = en_sqlite (ig_engine ig);
            failed = (\<lambda>e. Inl (On_File table rel (db_error_text (ig_engine ig) e))) in
        case on_file (ig_seam ig) (path_join (ig_anchor ig table) rel) of
          Inl message \<Rightarrow> Inl (On_File table rel message)
        | Inr raw \<Rightarrow>
       (case (if ig_persist ig then delete_rows_by_file sq db table rel else Inr (db, 0)) of
          Inl e \<Rightarrow> Inl (Core e)
        | Inr (db1, n) \<Rightarrow>
       (case normalize_rows table (sq_columns sq table) raw (ig_stricts ig table = Some True) of
          Inl e \<Rightarrow> failed e
        | Inr rows \<Rightarrow>
       (case insert_each sq table rel 0 rows db1 of
          Inl e \<Rightarrow> failed e
        | Inr db2 \<Rightarrow> Inr (db2, remember_file ig table f kept)))))"

fun ingest_files ::
  "ingest_cfg \<Rightarrow> (scanned_file \<times> file_hook) list \<Rightarrow> db \<times> cached_file list \<Rightarrow>
   dirsql_error + (db \<times> cached_file list)"
where
  "ingest_files ig [] s = Inr s"
| "ingest_files ig (fh # fhs) s =
     (case ingest_file ig fh s of Inl e \<Rightarrow> Inl e | Inr s' \<Rightarrow> ingest_files ig fhs s')"

text \<open>A cached table is current while every file it was run over is, and none has gone.\<close>

definition batch_current :: "bool \<Rightarrow> (rstr \<times> rstr) list \<Rightarrow> table_batch \<Rightarrow> bool" where
  "batch_current persist gone b =
     (case b of (table, hook, fs) \<Rightarrow>
        persist \<and> list_all sf_trusted fs \<and> \<not> list_ex (\<lambda>(rel, t). t = table) gone)"

definition ingest_batch ::
  "ingest_cfg \<Rightarrow> (rstr \<times> rstr) list \<Rightarrow> table_batch \<Rightarrow> db \<times> cached_file list \<Rightarrow>
   dirsql_error + (db \<times> cached_file list)"
where
  "ingest_batch ig gone b s =
     (case b of (table, hook, fs) \<Rightarrow> case s of (db, kept) \<Rightarrow>
        if batch_current (ig_persist ig) gone b then Inr s
        else (case stream_table_rows (ig_engine ig) table
               (start_hook (ig_pieces ig) hook (ig_seam ig) (snd (batch_paths fs))) (ig_stricts ig table = Some True) db of
            Inl e \<Rightarrow> Inl (Core e)
          | Inr (db', Inl message) \<Rightarrow> Inl (Table_Command table message)
          | Inr (db', Inr _) \<Rightarrow> Inr (db', foldl (\<lambda>kept f. remember_file ig table f kept) kept fs)))"

fun ingest_batches ::
  "ingest_cfg \<Rightarrow> (rstr \<times> rstr) list \<Rightarrow> table_batch list \<Rightarrow> db \<times> cached_file list \<Rightarrow>
   dirsql_error + (db \<times> cached_file list)"
where
  "ingest_batches ig gone [] s = Inr s"
| "ingest_batches ig gone (b # bs) s =
     (case ingest_batch ig gone b s of Inl e \<Rightarrow> Inl e | Inr s' \<Rightarrow> ingest_batches ig gone bs s')"

text \<open>The place of a table in declaration order; one not declared goes first.\<close>

definition batch_rank :: "rstr list \<Rightarrow> table_batch \<Rightarrow> nat" where
  "batch_rank declared b = (case position (\<lambda>t. t = fst b) declared of Some i \<Rightarrow> Suc i | None \<Rightarrow> 0)"

definition ingest ::
  "ingest_cfg \<Rightarrow> table_decl list \<Rightarrow> (rstr \<times> rstr) list \<Rightarrow> (rstr \<times> chunked) list \<Rightarrow> scanned_file list \<Rightarrow>
   db \<times> cached_file list \<Rightarrow> dirsql_error + (db \<times> cached_file list \<times> (rstr \<rightharpoonup> rstr list))"
where
  "ingest ig tables gone early fs s =
     (case drop_deleted (en_sqlite (ig_engine ig)) gone s of
        Inl e \<Rightarrow> Inl e
      | Inr (db1, kept1) \<Rightarrow>
     (case stream_early (ig_engine ig) (ig_stricts ig) early db1 of
        Inl e \<Rightarrow> Inl e
      | Inr db2 \<Rightarrow>
     (case group_scanned (map_of (map (\<lambda>t. (td_name t, td_hook t)) tables)) fs of
        Inl e \<Rightarrow> Inl e
      | Inr (per_file, all_batches) \<Rightarrow>
          (case split_streamed all_batches (set (map fst early)) of (batches, streamed) \<Rightarrow>
             let sorted = sort_key (batch_rank (map td_name tables)) batches;
                 batch_files = map_of streamed ++ map_of (map (\<lambda>(table, hook, fs). (table, fst (batch_paths fs))) sorted) in
             case ingest_files ig per_file (db2, kept1) of
               Inl e \<Rightarrow> Inl e
             | Inr s3 \<Rightarrow>
            (case ingest_batches ig gone sorted s3 of
               Inl e \<Rightarrow> Inl e
             | Inr (db4, kept4) \<Rightarrow> Inr (db4, kept4, batch_files))))))"

section \<open>A build\<close>

record resolved_build =
  rs_root :: rstr
  rs_tables :: "table_decl list"
  rs_ignore :: "rstr list"
  rs_persist :: bool
  rs_no_ignore :: bool

text \<open>What a build meets: the machine, the file system as the walk, the stats and the hooks see it, the
  crates and SQLite.\<close>

record build_env =
  be_engines :: engines
  be_is_dir :: "rstr \<Rightarrow> bool"
  be_scan :: "rstr \<Rightarrow> table_matcher \<Rightarrow> found_file list \<times> rstr list"
  be_stat :: "rstr \<Rightarrow> io_error + file_stat"
  be_hash :: "rstr \<Rightarrow> bytes option"
  be_seam :: seam
  be_pieces :: "json_row list \<Rightarrow> json_row list list"
  be_blake3 :: "bytes \<Rightarrow> bytes"
  be_canonicalize :: "rstr \<Rightarrow> rstr option"
  be_version :: rstr
  be_schema :: schema_engine
  be_engine :: "catalog \<Rightarrow> engine"
  be_built_ns :: int
  be_snapshot_ns :: int

record prepared_persist =
  pp_deleted :: "(rstr \<times> rstr) list"
  pp_meta :: "(rstr \<times> rstr) list"
  pp_meta_current :: bool
  pp_needs_sweep :: bool

record prepared_build =
  pb_groups :: "anchor_group list"
  pb_scanned :: "scanned_file list"
  pb_early :: "(rstr \<times> chunked) list"
  pb_persist :: "prepared_persist option"
  pb_links :: "rstr list"

definition expected_meta :: "build_env \<Rightarrow> resolved_build \<Rightarrow> (rstr \<times> rstr) list" where
  "expected_meta be rs =
     build_meta (be_version be) (compute_glob_config_hash (be_blake3 be) (rs_tables rs) (rs_ignore rs))
       (canonical_root (be_canonicalize be) (rs_root rs))"

definition prepare_resolved :: "build_env \<Rightarrow> resolved_build \<Rightarrow> store \<Rightarrow> dirsql_error + prepared_build" where
  "prepare_resolved be rs so =
     (case compile_groups (be_engines be) (be_is_dir be) (rs_tables rs) (rs_ignore rs) (rs_root rs) of
        Inl e \<Rightarrow> Inl e
      | Inr gs \<Rightarrow>
          (let groups = map (\<lambda>g. g\<lparr>ag_matcher := with_gitignore (ag_matcher g) (\<not> rs_no_ignore rs)\<rparr>) gs in
           case scan_groups (be_scan be) groups of (scanned, links) \<Rightarrow>
             if rs_persist rs then
               (let ctx = prepare_persist (expected_meta be rs) so in
                case reconcile_scan scanned ctx (be_stat be) (be_hash be) of
                  Inl e \<Rightarrow> Inl e
                | Inr (fs, gone) \<Rightarrow>
                    Inr \<lparr>pb_groups = groups, pb_scanned = fs, pb_early = [],
                      pb_persist = Some \<lparr>pp_deleted = gone, pp_meta = pc_expected_meta ctx,
                        pp_meta_current = pc_meta_current ctx, pp_needs_sweep = pc_needs_sweep ctx\<rparr>,
                      pb_links = links\<rparr>)
             else
               Inr \<lparr>pb_groups = groups, pb_scanned = map found_file_as_scanned scanned,
                 pb_early = start_per_table_hooks (be_pieces be) (be_seam be) (rs_tables rs) scanned,
                 pb_persist = None, pb_links = links\<rparr>))"

definition watched_groups :: "seam \<Rightarrow> anchor_group list \<Rightarrow> anchor_group list" where
  "watched_groups sm groups = map (\<lambda>g. g\<lparr>ag_watch_anchor := sm_canonical_root sm (ag_anchor g)\<rparr>) groups"

definition built_link :: "seam \<Rightarrow> anchor_group list \<Rightarrow> rstr \<Rightarrow> link" where
  "built_link sm groups path =
     link_at sm (case List.map_filter (\<lambda>g.
           map_option (path_join (ag_watch_anchor g)) (path_strip_prefix path (ag_anchor g))) groups of
         p # _ \<Rightarrow> p
       | [] \<Rightarrow> path)"

definition ingest_with :: "build_env \<Rightarrow> resolved_build \<Rightarrow> engine \<Rightarrow> ingest_cfg" where
  "ingest_with be rs en =
     \<lparr>ig_engine = en, ig_pieces = be_pieces be, ig_seam = be_seam be, ig_persist = rs_persist rs,
      ig_anchor = anchor_of (rs_root rs) (rs_tables rs),
      ig_stricts = map_of (map (\<lambda>t. (td_name t, td_strict t)) (rs_tables rs)),
      ig_hash = be_hash be, ig_snapshot_ns = be_snapshot_ns be\<rparr>"

definition empty_store :: store where
  "empty_store =
     \<lparr>so_catalog = [], so_db = \<lparr>db_tables = Map.empty, db_mapping = [], db_ranges = []\<rparr>, so_meta = [], so_files = []\<rparr>"

definition built_index ::
  "build_env \<Rightarrow> resolved_build \<Rightarrow> prepared_build \<Rightarrow> connection \<Rightarrow> (rstr \<rightharpoonup> rstr list) \<Rightarrow> wiring \<times> index_state"
where
  "built_index be rs pb conn batch_files =
     (let groups = watched_groups (be_seam be) (pb_groups pb) in
      (\<lparr>su_groups = groups, su_hooks = map_of (map (\<lambda>t. (td_name t, td_hook t)) (rs_tables rs)),
        su_strict = map_of (map (\<lambda>t. (td_name t, td_strict t)) (rs_tables rs)),
        su_declared = map td_name (rs_tables rs), su_built_ns = be_built_ns be\<rparr>,
       \<lparr>ix_conn = conn, ix_batch_files = batch_files, ix_held = [],
        ix_links = map (built_link (be_seam be) groups) (pb_links pb), ix_known = [], ix_seeded = False,
        ix_outbox = []\<rparr>))"

text \<open>The sweep and the DDL are committed before the transaction of the ingest begins; an error leaves
  the store with what they did.\<close>

definition finish_build ::
  "build_env \<Rightarrow> resolved_build \<Rightarrow> prepared_build \<Rightarrow> store \<Rightarrow>
   (dirsql_error + (wiring \<times> index_state)) \<times> store"
where
  "finish_build be rs pb so =
     (case (if (case pb_persist pb of Some pp \<Rightarrow> pp_needs_sweep pp | None \<Rightarrow> False)
            then drop_user_tables (be_schema be) so else (Inr (), so)) of
        (Inl e, so1) \<Rightarrow> (Inl (Core (Sqlite e)), so1)
      | (Inr _, so1) \<Rightarrow>
     (case run_table_ddl (be_schema be) (rs_tables rs) (so_catalog so1, so_db so1) of
        (Inl e, cat, db) \<Rightarrow> (Inl e, so1\<lparr>so_catalog := cat, so_db := db\<rparr>)
      | (Inr warnings, cat, db) \<Rightarrow>
          (let so2 = so1\<lparr>so_catalog := cat, so_db := db\<rparr>;
               en = be_engine be cat;
               gone = (case pb_persist pb of Some pp \<Rightarrow> pp_deleted pp | None \<Rightarrow> []) in
           case ingest (ingest_with be rs en) (rs_tables rs) gone (pb_early pb) (pb_scanned pb) (db, so_files so2) of
             Inl e \<Rightarrow> (Inl e, so2)
           | Inr (db', kept, batch_files) \<Rightarrow>
               (case commit en \<lparr>cn_db = db', cn_open = Some db, cn_saved = []\<rparr> of
                  (Inl e, conn) \<Rightarrow> (Inl (Core e), so2)
                | (Inr _, conn) \<Rightarrow>
                    (Inr (built_index be rs pb conn batch_files),
                     so2\<lparr>so_db := db', so_files := kept,
                       so_meta := (case pb_persist pb of
                           Some pp \<Rightarrow> if pp_meta_current pp then so_meta so2 else write_meta (pp_meta pp)
                         | None \<Rightarrow> so_meta so2)\<rparr>)))))"

text \<open>A build from the cache on disk, or from nothing.\<close>

definition build_index ::
  "build_env \<Rightarrow> resolved_build \<Rightarrow> store \<Rightarrow> (dirsql_error + (wiring \<times> index_state)) \<times> store"
where
  "build_index be rs disk =
     (let so = (if rs_persist rs then disk else empty_store) in
      case prepare_resolved be rs so of
        Inl e \<Rightarrow> (Inl e, so)
      | Inr pb \<Rightarrow> finish_build be rs pb so)"

end
