(* ===== verification/Watch_Replay.thy ===== *)
theory Watch_Replay
  imports Watch_Batch
begin

text \<open>
  What the operations of \<open>Watch_Batch\<close> tell of the rows they change. A step is related to the moment
  before it: the row events it adds, replayed on the rows of a table as they were, give the rows of
  the table as they are. The locale \<open>batch_steps\<close> carries any such relation from the operations on
  one file or table to whole batches; it is interpreted for what is told, for what a batch leaves
  alone and for the transaction it runs in.
\<close>

section \<open>What a step tells\<close>

text \<open>The database of a batch in progress; the events of one table.\<close>

abbreviation now_db :: "batch \<Rightarrow> db" where
  "now_db b \<equiv> cn_db (ix_conn b)"

fun event_table :: "row_event \<Rightarrow> rstr option" where
  "event_table (Insert t r p) = Some t"
| "event_table (Update t r s p) = Some t"
| "event_table (Delete t r p) = Some t"
| "event_table (Error t p e) = t"

definition events_of :: "rstr \<Rightarrow> row_event list \<Rightarrow> row_event list" where
  "events_of table evs = filter (\<lambda>ev. event_table ev = Some table) evs"

lemma events_of_append [simp]: "events_of table (evs @ fs) = events_of table evs @ events_of table fs"
  by (simp add: events_of_def)

text \<open>A table whose rowids no column names, and which no foreign key action and no trigger of the schema writes.\<close>

definition plain_table :: "engine \<Rightarrow> rstr \<Rightarrow> bool" where
  "plain_table en table \<longleftrightarrow>
     sqlite_laws (en_sqlite en) \<and> sq_alias (en_sqlite en) table = None \<and>
     case_distinct (sq_columns (en_sqlite en) table) \<and> acted_on_by_none (en_sqlite en) table"

text \<open>A step from one moment of a batch to a later one: the transaction stays the one begun, the
  events told replay on the rows of the table, and the table keeps its invariant.\<close>

definition tells :: "engine \<Rightarrow> wiring \<Rightarrow> rstr \<Rightarrow> batch \<Rightarrow> batch \<Rightarrow> bool" where
  "tells en su table b b' \<longleftrightarrow>
     (cn_open (ix_conn b) \<noteq> None \<longrightarrow>
        cn_open (ix_conn b') = cn_open (ix_conn b) \<and> cn_saved (ix_conn b') = cn_saved (ix_conn b) \<and>
        (table_ok (en_sqlite en) (is_per_table su table) table (now_db b) \<longrightarrow>
           table_ok (en_sqlite en) (is_per_table su table) table (now_db b') \<and>
           (\<exists>evs. ba_out b' = ba_out b @ evs \<and>
              replay norm_row (events_of table evs) (rows_bag (en_sqlite en) table (now_db b)) =
                Some (rows_bag (en_sqlite en) table (now_db b')))))"

lemma tells_trans:
  assumes "tells en su table b b1" "tells en su table b1 b2"
  shows "tells en su table b b2"
  using assms unfolding tells_def by (auto simp: replay_append bind_eq_Some_conv)

lemma tells_still:
  assumes "ix_conn b' = ix_conn b" "ba_out b' = ba_out b"
  shows "tells en su table b b'"
  using assms by (simp add: tells_def events_of_def)

lemma tells_foldl: "(\<And>b x. x \<in> set xs \<Longrightarrow> tells en su table b (f b x)) \<Longrightarrow> tells en su table b (foldl f b xs)"
proof (induction xs arbitrary: b)
  case (Cons x xs)
  then show ?case using tells_trans by fastforce
qed (simp add: tells_still)

lemma emit_fields [simp]:
  "ix_conn (emit evs b) = ix_conn b" "ba_out (emit evs b) = ba_out b @ evs"
  by (simp_all add: emit_def)

lemma replay_error [simp]: "replay say (events_of table [Error t p e]) M = Some M"
  by (simp add: events_of_def)

lemma tells_error: "ix_conn b' = ix_conn b \<Longrightarrow> ba_out b' = ba_out b @ [Error t p e] \<Longrightarrow> tells en su table b b'"
  by (auto simp: tells_def)

lemma events_of_diff_keyed:
  "events_of table (diff_keyed t removed updated added p) = (if t = table then diff_keyed t removed updated added p else [])"
  by (induction updated) (auto simp: events_of_def diff_keyed_def filter_empty_conv comp_def)

lemma mark_fields [simp]:
  "ix_conn (mark table trigger b) = ix_conn b" "ba_out (mark table trigger b) = ba_out b"
  by (simp_all add: mark_def)

lemma track_fields [simp]:
  "ix_conn (track_batch_file sm table p rel d b) = ix_conn b" "ba_out (track_batch_file sm table p rel d b) = ba_out b"
  by (simp_all add: track_batch_file_def Let_def)

lemma register_fields [simp]:
  "ix_conn (register_link sm p b) = ix_conn b" "ba_out (register_link sm p b) = ba_out b"
  by (simp_all add: register_link_def Let_def)

section \<open>One file\<close>

lemma events_of_other:
  "(\<And>ev. ev \<in> set evs \<Longrightarrow> event_table ev \<noteq> Some table) \<Longrightarrow> events_of table evs = []"
  by (auto simp: events_of_def filter_empty_conv)

lemma events_of_own:
  "(\<And>ev. ev \<in> set evs \<Longrightarrow> event_table ev = Some table) \<Longrightarrow> events_of table evs = evs"
  by (simp add: events_of_def)

lemma full_replace_table: "ev \<in> set (full_replace t old new p) \<Longrightarrow> event_table ev = Some t"
  by (auto simp: full_replace_def)

lemma row_updates_table: "ev \<in> set (row_updates t p ps) \<Longrightarrow> event_table ev = Some t"
  by (auto simp: row_updates_def split: if_splits)

lemma diff_table: "ev \<in> set (diff t old new p) \<Longrightarrow> event_table ev = Some t"
  by (auto simp: diff_def diff_rows_def Let_def full_replace_table row_updates_table
      split: option.splits if_splits)

lemma diff_keyed_table: "ev \<in> set (diff_keyed t removed updated added p) \<Longrightarrow> event_table ev = Some t"
  by (auto simp: diff_keyed_def)

lemma change_events_table: "ev \<in> set (change_events t p ch) \<Longrightarrow> event_table ev = Some t"
proof (cases "rc_keyed ch")
  case False
  assume ev: "ev \<in> set (change_events t p ch)"
  obtain un_old un_new where "diff_unordered t (rc_removed ch) (rc_added ch) p = Some (unordered_events t p un_old un_new)"
    using diff_unordered_split by blast
  then show ?thesis using False ev by (auto simp: change_events_def unordered_events_def Let_def)
qed (simp add: change_events_def diff_keyed_table)

text \<open>Whatever a unit does to another table says nothing of this one.\<close>

lemma tells_other:
  assumes "same_for table (now_db b) (now_db b')" "ba_out b' = ba_out b @ evs"
    "\<And>ev. ev \<in> set evs \<Longrightarrow> event_table ev \<noteq> Some table"
    "cn_open (ix_conn b') = cn_open (ix_conn b)" "cn_saved (ix_conn b') = cn_saved (ix_conn b)"
  shows "tells en su table b b'"
  using assms(2,4,5) same_for_table [OF assms(1)] events_of_other [OF assms(3)] by (auto simp: tells_def)

lemma tells_own:
  assumes "table_ok (en_sqlite en) (is_per_table su table) table (now_db b) \<Longrightarrow>
      table_ok (en_sqlite en) (is_per_table su table) table (now_db b') \<and>
      replay norm_row evs (rows_bag (en_sqlite en) table (now_db b)) = Some (rows_bag (en_sqlite en) table (now_db b'))"
    "ba_out b' = ba_out b @ evs" "\<And>ev. ev \<in> set evs \<Longrightarrow> event_table ev = Some table"
    "cn_open (ix_conn b') = cn_open (ix_conn b)" "cn_saved (ix_conn b') = cn_saved (ix_conn b)"
  shows "tells en su table b b'"
  using assms(1,2,4,5) events_of_own [OF assms(3)] by (auto simp: tells_def)

text \<open>A table no file owns rows of is not touched through a file.\<close>

lemma delete_nothing:
  assumes ok: "table_ok sq True table db" and rel: "rel \<noteq> []"
    and get: "get_rows_by_file sq db table rel = Inr old" and run: "delete_rows_by_file sq db table rel = Inr (db', n)"
  shows "old = []" "table_ok sq True table db'" "rows_bag sq table db' = rows_bag sq table db"
proof -
  obtain c where c: "db_tables db table = Some c"
    "old = map (\<lambda>(r, cs). zip (sq_columns sq table) cs) (rows_of_file db table rel c)"
    using get by (auto simp: get_rows_by_file_def with_table_def split: sum.splits option.splits)
  have k: "owned_rowids table db = []" "\<forall>(t, f, lo, hi)\<in>set (db_ranges db). t = table \<longrightarrow> f = []"
    using ok c(1) by (simp_all add: table_ok_def)
  have m: "mapped_rowids db table rel = []" "ranges_by_file db table rel = []"
    using k rel by (auto simp: owned_rowids_def mapped_rowids_def ranges_by_file_def filter_empty_conv)
  show "old = []" using c(2) m by (simp add: rows_of_file_def List.map_filter_simps)
  obtain ws where db': "db' = disown table rel (put_table table c (act sq table ws db))"
    using run c(1) m by (auto simp: delete_rows_by_file_def with_table_def Let_def split: sum.splits)
  have "owned_rowids table db' = []"
    using k(1) by (auto simp: db' owned_rowids_def disown_def put_table_def filter_empty_conv)
  moreover have "db_tables db' table = Some c" by (simp add: db' disown_def put_table_def)
  ultimately show "table_ok sq True table db'" "rows_bag sq table db' = rows_bag sq table db"
    using ok c(1) by (auto simp: table_ok_def rows_bag_def db' disown_def)
qed

lemma handle_delete_tells:
  assumes "plain_table en table" "t = table \<Longrightarrow> is_per_table su table \<Longrightarrow> rel \<noteq> []"
  shows "tells en su table b (handle_delete en t rel b)"
proof (cases "cn_open (ix_conn b)")
  case None
  then show ?thesis by (simp add: tells_def)
next
  case (Some start)
  let ?sq = "en_sqlite en" and ?db = "now_db b"
  show ?thesis
  proof (cases "get_rows_by_file ?sq ?db t rel")
    case (Inl e)
    then show ?thesis by (auto simp: handle_delete_def intro: tells_error)
  next
    case (Inr old)
    show ?thesis
    proof (cases "delete_rows_by_file ?sq ?db t rel")
      case (Inl e)
      then show ?thesis using Inr
        by (auto simp: handle_delete_def atomically_within [OF Some] delete_unit_def intro!: tells_error)
    next
      case run: (Inr p)
      obtain db' n where p: "p = (db', n)" by fastforce
      let ?evs = "diff t (Some old) None rel"
      have b': "handle_delete en t rel b = emit ?evs (b\<lparr>ix_conn := (ix_conn b)\<lparr>cn_db := db'\<rparr>\<rparr>)"
        using Inr run p by (simp add: handle_delete_def atomically_within [OF Some] delete_unit_def)
      show ?thesis
      proof (cases "t = table")
        case False
        then show ?thesis unfolding b'
          using delete_rows_others [OF _ _ run [unfolded p]] diff_table assms(1) by (intro tells_other) (auto simp: plain_table_def)
      next
        case True
        show ?thesis unfolding b'
        proof (rule tells_own [where evs = ?evs])
          assume ok: "table_ok ?sq (is_per_table su table) table ?db"
          show "table_ok ?sq (is_per_table su table) table (now_db (emit ?evs (b\<lparr>ix_conn := (ix_conn b)\<lparr>cn_db := db'\<rparr>\<rparr>))) \<and>
            replay norm_row ?evs (rows_bag ?sq table ?db) =
              Some (rows_bag ?sq table (now_db (emit ?evs (b\<lparr>ix_conn := (ix_conn b)\<lparr>cn_db := db'\<rparr>\<rparr>))))"
          proof (cases "is_per_table su table")
            case per: True
            then have pt: "is_per_table su table = True" by simp
            note e = delete_nothing [OF ok [unfolded pt], of rel old db' n]
            show ?thesis using e assms(2) True per Inr run p by (simp add: diff_def)
          next
            case False
            then have np: "is_per_table su table = False" by simp
            note e = delete_rows_told [OF ok [unfolded np], of rel old db' n]
            show ?thesis using e(1,2) True False Inr run p by (simp add: diff_def replay_deletes)
          qed
        qed (use True diff_table in auto)
      qed
    qed
  qed
qed

lemma upsert_unit_told:
  assumes plain: "plain_table en table" and ok: "table_ok (en_sqlite en) False table db"
    and shaped: "shaped_for (en_sqlite en) table rows" and run: "upsert_unit en table rel rows db = Inr (db', evs)"
  shows "table_ok (en_sqlite en) False table db' \<and>
    replay norm_row evs (rows_bag (en_sqlite en) table db) = Some (rows_bag (en_sqlite en) table db')"
proof -
  let ?sq = "en_sqlite en" and ?Z = "zip (sq_columns (en_sqlite en) table)"
  have laws: "sqlite_laws ?sq" "sq_alias ?sq table = None" "case_distinct (sq_columns ?sq table)"
    using plain by (simp_all add: plain_table_def)
  consider (keyed) ch where "reconcile_file_rows ?sq db table rel rows = Inr (Some (db', ch))"
      "evs = diff_keyed table (rc_removed ch) (rc_updated ch) (rc_added ch) rel"
    | (afresh) old db1 n where "get_rows_by_file ?sq db table rel = Inr old"
      "delete_rows_by_file ?sq db table rel = Inr (db1, n)"
      "insert_each ?sq table rel 0 (to_maps (stored_form ?sq table rows)) db1 = Inr db'"
      "evs = diff table (Some old) (Some (to_maps (stored_form ?sq table rows))) rel"
    using run by (auto simp: upsert_unit_def Let_def split: sum.splits option.splits)
  then show ?thesis
  proof cases
    case keyed
    then show ?thesis using reconcile_file_told [OF laws(1) ok shaped laws(2)] by simp
  next
    case afresh
    note d = delete_rows_told [OF ok afresh(1,2)]
    let ?css = "map (coerced ?sq table) (sr_cells rows)"
    have new: "to_maps (stored_form ?sq table rows) = map ?Z ?css"
      using stored_form_facts [OF shaped] by (simp add: to_maps_def)
    have "list_all (\<lambda>cs. length cs = length (sq_columns ?sq table) \<and> coerced ?sq table cs = cs) ?css"
      using shaped coerced_twice [OF laws(1)] by (auto simp: shaped_for_def list_all_iff coerced_length)
    from insert_each_told [OF laws afresh(3) [unfolded new] this d(2)]
    have i: "rows_bag ?sq table db' = rows_bag ?sq table db1 + bag norm_row (map ?Z ?css)" "table_ok ?sq False table db'"
      by blast+
    have "replay norm_row evs (bag norm_row old) = Some (bag norm_row (map ?Z ?css))"
      using replay_diff_rows by (simp add: afresh(4) new diff_def)
    from replay_frame [OF this, of "rows_bag ?sq table db1"] show ?thesis
      using i d(1) by (simp add: ac_simps)
  qed
qed

lemma upsert_unit_others:
  assumes "t \<noteq> table" "acted_on_by_none (en_sqlite en) table" "upsert_unit en t rel rows db = Inr (db', evs)"
  shows "same_for table db db'" "\<And>ev. ev \<in> set evs \<Longrightarrow> event_table ev = Some t"
proof -
  let ?sq = "en_sqlite en"
  consider ch where "reconcile_file_rows ?sq db t rel rows = Inr (Some (db', ch))"
      "evs = diff_keyed t (rc_removed ch) (rc_updated ch) (rc_added ch) rel"
    | old db1 n new where "delete_rows_by_file ?sq db t rel = Inr (db1, n)"
      "insert_each ?sq t rel 0 new db1 = Inr db'" "evs = diff t (Some old) (Some new) rel"
    using assms(3) by (auto simp: upsert_unit_def Let_def split: sum.splits option.splits)
  then have "same_for table db db' \<and> (\<forall>ev\<in>set evs. event_table ev = Some t)"
  proof cases
    case 1
    then show ?thesis using reconcile_file_others [of table t] assms(1,2) diff_keyed_table by metis
  next
    case 2
    then show ?thesis
      using same_for_trans [OF delete_rows_others insert_each_others, of table t] assms(1,2) diff_table by metis
  qed
  then show "same_for table db db'" "\<And>ev. ev \<in> set evs \<Longrightarrow> event_table ev = Some t" by blast+
qed

lemma upsert_ran_tells:
  assumes "plain_table en table" "su_hooks su t = Some (Per_File f)"
    "shape_value_rows t (sq_columns (en_sqlite en) t) raw strict = Inr rows"
    "upsert_unit en t rel rows (now_db b) = Inr (db', evs)"
  shows "tells en su table b (emit evs (b\<lparr>ix_conn := (ix_conn b)\<lparr>cn_db := db'\<rparr>\<rparr>))"
proof (cases "t = table")
  case True
  have np: "is_per_table su table = False" using assms(2) True by (simp add: is_per_table_def)
  show ?thesis
  proof (rule tells_own [where evs = evs])
    assume "table_ok (en_sqlite en) (is_per_table su table) table (now_db b)"
    then have ok: "table_ok (en_sqlite en) False table (now_db b)" by (simp add: np)
    have shaped: "shaped_for (en_sqlite en) table rows" by (rule shape_value_rows_shaped [OF assms(3) [unfolded True]])
    from upsert_unit_told [OF assms(1) ok shaped assms(4) [unfolded True]]
    show "table_ok (en_sqlite en) (is_per_table su table) table (now_db (emit evs (b\<lparr>ix_conn := (ix_conn b)\<lparr>cn_db := db'\<rparr>\<rparr>))) \<and>
      replay norm_row evs (rows_bag (en_sqlite en) table (now_db b)) =
        Some (rows_bag (en_sqlite en) table (now_db (emit evs (b\<lparr>ix_conn := (ix_conn b)\<lparr>cn_db := db'\<rparr>\<rparr>))))"
      by (simp add: np)
  next
    fix ev assume "ev \<in> set evs"
    then show "event_table ev = Some table" using assms(4) True diff_table diff_keyed_table
      by (auto simp: upsert_unit_def Let_def split: sum.splits option.splits)
  qed simp_all
next
  case False
  then show ?thesis
    using upsert_unit_others [OF False _ assms(4)] assms(1) [unfolded plain_table_def] by (intro tells_other [where evs = evs]) auto
qed

lemma handle_upsert_tells:
  assumes "plain_table en table"
  shows "tells en su table b (handle_upsert en su sm t path rel b)"
proof (cases "cn_open (ix_conn b)")
  case (Some start)
  show ?thesis
    unfolding handle_upsert_def Let_def atomically_within [OF Some]
    by (auto split: sum.split option.split hook.split bool.split prod.split
        intro: tells_still tells_error upsert_ran_tells [OF assms])
qed (simp add: tells_def)

section \<open>One table\<close>

lemma stage_table_rows_outcome:
  "stage_table_rows en t raw strict conn = (Inl e, conn') \<Longrightarrow> conn' = conn"
  "stage_table_rows en t raw strict conn = (Inr ch, conn') \<Longrightarrow>
   \<exists>rows db'. shape_json_rows t (sq_columns (en_sqlite en) t) raw strict = Inr rows \<and>
     batch_unit en t rows (cn_db conn) = Inr (db', ch) \<and>
     conn' = conn\<lparr>cn_db := db', cn_saved := cn_db conn # cn_saved conn\<rparr>"
  by (auto simp: stage_table_rows_def stage_error stage_ok split: sum.splits prod.splits)

lemma run_hook_outcome:
  "run_hook en t strict pr conn = (Inl e, conn') \<Longrightarrow> conn' = conn"
  "run_hook en t strict pr conn = (Inr ch, conn') \<Longrightarrow>
   \<exists>rows db'. shape_json_rows t (sq_columns (en_sqlite en) t) (pr_rows pr) strict = Inr rows \<and>
     batch_unit en t rows (cn_db conn) = Inr (db', ch) \<and>
     conn' = conn\<lparr>cn_db := db', cn_saved := cn_db conn # cn_saved conn\<rparr>"
proof -
  assume "run_hook en t strict pr conn = (Inr ch, conn')"
  then have "stage_table_rows en t (pr_rows pr) strict conn = (Inr ch, conn')"
    by (auto simp: run_hook_def split: if_splits sum.splits prod.splits)
  then show "\<exists>rows db'. shape_json_rows t (sq_columns (en_sqlite en) t) (pr_rows pr) strict = Inr rows \<and>
     batch_unit en t rows (cn_db conn) = Inr (db', ch) \<and>
     conn' = conn\<lparr>cn_db := db', cn_saved := cn_db conn # cn_saved conn\<rparr>"
    by (rule stage_table_rows_outcome(2))
next
  assume r: "run_hook en t strict pr conn = (Inl e, conn')"
  show "conn' = conn"
  proof (cases "stage_table_rows en t (pr_rows pr) strict conn")
    case (Pair res conn1)
    show ?thesis
    proof (cases res)
      case (Inl e')
      then show ?thesis using r Pair stage_table_rows_outcome(1) [of en t "pr_rows pr" strict conn e' conn1]
        by (auto simp: run_hook_def split: if_splits sum.splits)
    next
      case (Inr ch)
      then show ?thesis using r Pair stage_table_rows_outcome(2) [of en t "pr_rows pr" strict conn ch conn1]
        by (auto simp: run_hook_def discard_def split: if_splits sum.splits)
    qed
  qed
qed

lemma keep_within: "cn_open conn = Some begun \<Longrightarrow>
  keep en (conn\<lparr>cn_db := db', cn_saved := saved # cn_saved conn\<rparr>) = (Inr (), conn\<lparr>cn_db := db'\<rparr>)"
  by (simp add: keep_def)

lemma refresh_ran_tells:
  assumes plain: "plain_table en table" and hook: "su_hooks su t = Some (Per_Table h)"
    and shaped: "shape_json_rows t (sq_columns (en_sqlite en) t) raw strict = Inr rows"
    and run: "batch_unit en t rows (now_db b) = Inr (db', ch)"
  shows "tells en su table b (emit (change_events t trigger ch) (b\<lparr>ix_conn := (ix_conn b)\<lparr>cn_db := db'\<rparr>\<rparr>))"
proof (cases "t = table")
  case True
  have laws: "sqlite_laws (en_sqlite en)" "sq_alias (en_sqlite en) table = None"
    using plain by (simp_all add: plain_table_def)
  have pt: "is_per_table su table = True" using hook True by (simp add: is_per_table_def)
  have sh: "shaped_for (en_sqlite en) table rows" by (rule shape_json_rows_shaped [OF shaped [unfolded True]])
  show ?thesis
  proof (rule tells_own [where evs = "change_events t trigger ch"])
    assume "table_ok (en_sqlite en) (is_per_table su table) table (now_db b)"
    then have ok: "table_ok (en_sqlite en) True table (now_db b)" by (simp add: pt)
    from reconcile_batch_told [OF laws(1) ok sh laws(2) run [unfolded batch_unit_def batch_owner_def True]]
    show "table_ok (en_sqlite en) (is_per_table su table) table
        (now_db (emit (change_events t trigger ch) (b\<lparr>ix_conn := (ix_conn b)\<lparr>cn_db := db'\<rparr>\<rparr>))) \<and>
      replay norm_row (change_events t trigger ch) (rows_bag (en_sqlite en) table (now_db b)) =
        Some (rows_bag (en_sqlite en) table (now_db (emit (change_events t trigger ch) (b\<lparr>ix_conn := (ix_conn b)\<lparr>cn_db := db'\<rparr>\<rparr>))))"
      by (simp add: pt True)
  qed (use True change_events_table in auto)
next
  case False
  then show ?thesis
    using reconcile_batch_others [OF _ _ run [unfolded batch_unit_def], of table] change_events_table plain
    by (intro tells_other [where evs = "change_events t trigger ch"]) (auto simp: plain_table_def)
qed

lemma refresh_table_tells:
  assumes "plain_table en table"
  shows "tells en su table b (refresh_table en su sm t trigger b)"
proof (cases "cn_open (ix_conn b)")
  case (Some start)
  show ?thesis
  proof (cases "\<exists>h g. su_hooks su t = Some (Per_Table h) \<and> find (\<lambda>g. t \<in> set (ag_tables g)) (su_groups su) = Some g")
    case False
    then have "refresh_table en su sm t trigger b = b"
      by (auto simp: refresh_table_def split: option.splits hook.splits)
    then show ?thesis by (simp add: tells_still)
  next
    case True
    then obtain h g where h: "su_hooks su t = Some (Per_Table h)"
      "find (\<lambda>g. t \<in> set (ag_tables g)) (su_groups su) = Some g" by blast
    define pr where "pr = h sm (case ix_batch_files b t of Some rels \<Rightarrow> map (path_join (ag_anchor g)) rels | None \<Rightarrow> [])"
    obtain res conn where r: "run_hook en t (is_strict su t) pr (ix_conn b) = (res, conn)" by fastforce
    show ?thesis
    proof (cases res)
      case (Inl e)
      then have "conn = ix_conn b" using run_hook_outcome(1) r by blast
      then show ?thesis using h r Inl by (auto simp: refresh_table_def pr_def [symmetric] Let_def intro!: tells_error)
    next
      case (Inr ch)
      obtain rows db' where o: "shape_json_rows t (sq_columns (en_sqlite en) t) (pr_rows pr) (is_strict su t) = Inr rows"
        "batch_unit en t rows (now_db b) = Inr (db', ch)"
        "conn = (ix_conn b)\<lparr>cn_db := db', cn_saved := now_db b # cn_saved (ix_conn b)\<rparr>"
        using run_hook_outcome(2) r Inr by blast
      have "refresh_table en su sm t trigger b =
          emit (change_events t trigger ch) (b\<lparr>ix_conn := (ix_conn b)\<lparr>cn_db := db'\<rparr>\<rparr>)"
        using h r Inr keep_within [OF Some] by (simp add: refresh_table_def pr_def [symmetric] Let_def o(3))
      then show ?thesis using refresh_ran_tells [OF assms h(1) o(1,2)] by simp
    qed
  qed
qed (simp add: tells_def)

section \<open>What holds of every step of a batch\<close>

text \<open>What a batch leaves alone: the events held, and what a query keeps.\<close>

definition aside :: "batch \<Rightarrow> file_event list \<times> ((rstr \<times> rstr) \<times> known) list \<times> bool \<times> row_event list" where
  "aside b = (ix_held b, ix_known b, ix_seeded b, ix_outbox b)"

lemma aside_simps [simp]:
  "aside (emit evs b) = aside b" "aside (mark t tr b) = aside b" "aside (b\<lparr>ix_conn := conn\<rparr>) = aside b"
  "aside (b\<lparr>ix_batch_files := m\<rparr>) = aside b" "aside (b\<lparr>ix_links := ls\<rparr>) = aside b"
  "aside (register_link sm p b) = aside b" "aside (track_batch_file sm t p rel d b) = aside b"
  by (simp_all add: aside_def emit_def mark_def register_link_def track_batch_file_def Let_def)

definition closed :: "index_state \<Rightarrow> bool" where
  "closed ix \<longleftrightarrow> cn_open (ix_conn ix) = None \<and> cn_saved (ix_conn ix) = []"

abbreviation index_db :: "index_state \<Rightarrow> db" where
  "index_db ix \<equiv> cn_db (ix_conn ix)"

abbreviation index_ok :: "engine \<Rightarrow> wiring \<Rightarrow> rstr \<Rightarrow> index_state \<Rightarrow> bool" where
  "index_ok en su table ix \<equiv> table_ok (en_sqlite en) (is_per_table su table) table (index_db ix)"

abbreviation index_bag :: "engine \<Rightarrow> rstr \<Rightarrow> index_state \<Rightarrow> bag" where
  "index_bag en table ix \<equiv> rows_bag (en_sqlite en) table (index_db ix)"

lemma batch_fields [simp]:
  "ix_conn (start_batch ix) = ix_conn ix" "ba_out (start_batch ix) = []" "ba_pending (start_batch ix) = []"
  "ix_known (start_batch ix) = ix_known ix"
  "aside (start_batch ix) = (ix_held ix, ix_known ix, ix_seeded ix, ix_outbox ix)"
  "ix_conn (end_batch b) = ix_conn b"
  "(ix_held (end_batch b), ix_known (end_batch b), ix_seeded (end_batch b), ix_outbox (end_batch b)) = aside b"
  by (simp_all add: start_batch_def end_batch_def index_state.defs batch.defs aside_def)

lemma end_batch_fields [simp]:
  "ix_held (end_batch b) = ix_held b" "ix_known (end_batch b) = ix_known b"
  "ix_seeded (end_batch b) = ix_seeded b" "ix_outbox (end_batch b) = ix_outbox b"
  by (simp_all add: end_batch_def index_state.defs)

text \<open>\<open>BEGIN\<close> to just before \<open>COMMIT\<close>.\<close>

definition run_batch :: "engine \<Rightarrow> wiring \<Rightarrow> seam \<Rightarrow> file_event list \<Rightarrow> index_state \<Rightarrow> batch" where
  "run_batch en su sm applied ix =
     (let b1 = foldl (apply_event en su sm) (start_batch (ix\<lparr>ix_conn := (ix_conn ix)\<lparr>cn_open := Some (index_db ix)\<rparr>\<rparr>)) applied;
          b2 = (if Rescan \<in> set applied then rescan en su sm b1 else b1) in
      refresh_pending en su sm b2)"

text \<open>A relation between moments of a batch that the three operations on rows keep, and that does not
  look at the files and links remembered, holds from its start to its end.\<close>

locale batch_steps =
  fixes en :: engine and su :: wiring and R :: "batch \<Rightarrow> batch \<Rightarrow> bool"
  assumes still: "\<And>b b'. ix_conn b' = ix_conn b \<Longrightarrow> ba_out b' = ba_out b \<Longrightarrow> aside b' = aside b \<Longrightarrow> R b b'"
    and trans: "\<And>b b1 b2. R b b1 \<Longrightarrow> R b1 b2 \<Longrightarrow> R b b2"
    and deletes: "\<And>t rel b. (is_per_table su t \<Longrightarrow> rel \<noteq> []) \<Longrightarrow> R b (handle_delete en t rel b)"
    and upserts: "\<And>sm t path rel b. R b (handle_upsert en su sm t path rel b)"
    and refreshes: "\<And>sm t trigger b. R b (refresh_table en su sm t trigger b)"
begin

lemma folds: "(\<And>b x. x \<in> set xs \<Longrightarrow> R b (f b x)) \<Longrightarrow> R b (foldl f b xs)"
proof (induction xs arbitrary: b)
  case (Cons x xs)
  then show ?case using trans by fastforce
qed (simp add: still)

lemma refresh_all: "R b (refresh_pending en su sm b)"
  unfolding refresh_pending_def by (rule folds) (simp add: case_prod_beta refreshes)

lemma index_dir: "R b (index_subtree en su sm g dir b)"
proof -
  have hit: "R b (index_found en su sm base b hit)" for base b hit
    by (auto simp: index_found_def split: prod.split intro: still upserts)
  have reg: "R b (foldl (\<lambda>b l. register_link sm l b) (if p then register_link sm dir b else b) ls)" for ls p
    by (rule trans [OF still folds]) (auto intro: still)
  show ?thesis unfolding index_subtree_def Let_def case_prod_beta
    by (rule trans [OF reg folds [OF hit]])
qed

lemma delete_dir: "R b (delete_subtree en g rel b)"
proof -
  have forget: "R b (forget_below rel b t)" for b t
    by (rule still) (simp_all add: forget_below_def Let_def split: option.split)
  have owned: "f \<noteq> []" if "(t, f) \<in> set (files_under db rel)" for t f db
    using that by (auto simp: files_under_def)
  have del: "R b ((\<lambda>b (t, f). if t \<in> set (ag_tables g) then handle_delete en t f b else b) b x)"
    if "x \<in> set (files_under db rel)" for b x db
    using owned [of "fst x" "snd x" db] that deletes by (cases x) (simp add: still)
  show ?thesis unfolding delete_subtree_def Let_def
    by (rule trans [OF folds [OF forget] folds [OF del]])
qed

lemma route: "R b (route_file_event en su sm b ev)"
proof -
  have tab: "R b (route_table en su sm ev path rel b t)" for b path rel t
    by (auto simp: route_table_def intro: still upserts deletes)
  have "R b (route_group en su sm ev path b grel)" for b path grel
    unfolding route_group_def Let_def
    by (auto split: prod.split intro: still index_dir folds [OF tab] trans [OF folds [OF tab] delete_dir])
  then show ?thesis by (auto simp: route_file_event_def split: option.split intro: still folds)
qed

lemma rescans: "R b (rescan en su sm b)"
proof -
  have "R b (rescan_group en su sm (owned_files db) b g)" for b g db
  proof -
    have del: "R b ((\<lambda>b (t, f).
            if t \<in> set (ag_tables g) \<and> \<not> or_false (sm_is_file sm (path_join (ag_watch_anchor g) f))
            then handle_delete en t f b else b) b x)" if "x \<in> set (owned_files db)" for x b
      using that deletes by (auto simp: owned_files_def intro: still)
    have mk: "R b ((\<lambda>b t. mark t (ascii ''.'') (b\<lparr>ix_batch_files := (ix_batch_files b)(t := None)\<rparr>)) b t)" for b t
      by (rule still) simp_all
    show ?thesis unfolding rescan_group_def Let_def
      by (rule trans [OF trans [OF folds [OF del] folds [OF mk]] index_dir])
  qed
  then show ?thesis unfolding rescan_def by (rule folds)
qed

lemma event: "R b (apply_event en su sm b ev)"
proof (cases "ev = Rescan")
  case False
  obtain evs b1 where t: "through_links ev b = (evs, b1)" by fastforce
  then have "R b b1" by (auto simp: through_links_def intro: still split: file_event.splits)
  from trans [OF this folds [OF route]] show ?thesis
    using False t by (simp add: apply_event_def)
qed (simp add: apply_event_def still)

lemma run: "R (start_batch (ix\<lparr>ix_conn := (ix_conn ix)\<lparr>cn_open := Some (index_db ix)\<rparr>\<rparr>)) (run_batch en su sm applied ix)"
proof -
  have re: "R b (if p then rescan en su sm b else b)" for b p
    using rescans still by simp
  show ?thesis unfolding run_batch_def Let_def by (rule trans [OF trans [OF folds [OF event] re] refresh_all])
qed

lemma gone: "R b (drop_gone en su sm b key)"
  by (auto simp: drop_gone_def split: prod.split intro: still deletes)

lemma gones: "R b (foldl (drop_gone en su sm) b pairs)"
  by (rule folds) (rule gone)

lemma reads:
  "read_files en su sm after start_ns fs b = (res, b') \<Longrightarrow> \<exists>b''. R b b'' \<and>
    (case res of Inr us \<Rightarrow> b' = b'' | Inl e \<Rightarrow> b' = b''\<lparr>ix_conn := rolled_back (ix_conn b'')\<rparr>)"
proof (induction fs arbitrary: b res)
  case Nil
  then show ?case by (auto intro: still)
next
  case (Cons f fs)
  obtain t rel path where f: "f = (t, rel, path)" by (cases f)
  have later: ?case if "read_files en su sm after start_ns fs b1 = (res1, b')" "R b b1"
      "res = map_sum id g res1" for b1 res1 g
    using Cons.IH [OF that(1)] that(2,3) trans by (cases res1) fastforce+
  show ?case
  proof (cases "must_read (map_of (ix_known b) (t, rel)) (sm_fingerprint sm path) (su_built_ns su)")
    case False
    obtain res1 where r: "read_files en su sm after start_ns fs b = (res1, b')"
      "res = map_sum id (\<lambda>us. case adopted (map_of (ix_known b) (t, rel)) (sm_fingerprint sm path) (su_built_ns su) of
            Some a \<Rightarrow> ((t, rel), a) # us | None \<Rightarrow> us) res1"
      using Cons.prems f False by (cases "read_files en su sm after start_ns fs b") (auto simp: Let_def)
    show ?thesis by (rule later [OF r(1) still r(2)]) simp_all
  next
    case must: True
    show ?thesis
    proof (cases "is_per_table su t")
      case True
      then show ?thesis using Cons.prems f must
        by (intro later [of _ res id]) (auto simp: Let_def sum.map_id intro!: still)
    next
      case False
      let ?b1 = "handle_upsert en su sm t path rel b"
      show ?thesis
      proof (cases "\<exists>ta p m. find is_error (drop (length (ba_out b)) (ba_out ?b1)) = Some (Error ta p m)")
        case True
        then show ?thesis using Cons.prems f must False upserts by (intro exI [of _ ?b1]) (auto simp: Let_def)
      next
        case noerr: False
        have "read_files en su sm after start_ns (f # fs) b =
            apfst (map_sum id (Cons ((t, rel), after_read (after path) start_ns))) (read_files en su sm after start_ns fs ?b1)"
          using f must False noerr by (auto simp: Let_def split: option.split row_event.split)
        then obtain res1 where r: "read_files en su sm after start_ns fs ?b1 = (res1, b')"
          "res = map_sum id (Cons ((t, rel), after_read (after path) start_ns)) res1"
          using Cons.prems by (cases "read_files en su sm after start_ns fs ?b1") auto
        show ?thesis by (rule later [OF r(1) upserts r(2)])
      qed
    qed
  qed
qed

end

interpretation telling: batch_steps en su "\<lambda>b b'. plain_table en table \<longrightarrow> tells en su table b b'"
  for en su table
proof
  fix b b1 b2
  assume "plain_table en table \<longrightarrow> tells en su table b b1" "plain_table en table \<longrightarrow> tells en su table b1 b2"
  then show "plain_table en table \<longrightarrow> tells en su table b b2" using tells_trans by blast
next
  fix t and rel :: rstr and b
  assume rel: "is_per_table su t \<Longrightarrow> rel \<noteq> []"
  show "plain_table en table \<longrightarrow> tells en su table b (handle_delete en t rel b)"
    by (rule impI, rule handle_delete_tells, assumption) (simp add: rel)
qed (simp_all add: tells_still handle_upsert_tells refresh_table_tells)

interpretation asides: batch_steps en su "\<lambda>b b'. aside b' = aside b" for en su
  by unfold_locales
    (auto simp: handle_delete_def handle_upsert_def refresh_table_def Let_def
      split: sum.split prod.split option.split hook.split bool.split)

text \<open>Inside a transaction every step leaves it open, and no savepoint behind.\<close>

definition within :: "batch \<Rightarrow> batch \<Rightarrow> bool" where
  "within b b' \<longleftrightarrow> (cn_open (ix_conn b) \<noteq> None \<longrightarrow>
     cn_open (ix_conn b') = cn_open (ix_conn b) \<and> cn_saved (ix_conn b') = cn_saved (ix_conn b))"

lemma atomically_open:
  "atomically en f conn = (res, conn') \<Longrightarrow> cn_open conn = Some begun \<Longrightarrow>
   cn_open conn' = cn_open conn \<and> cn_saved conn' = cn_saved conn"
  by (auto simp: atomically_within split: sum.splits prod.splits)

lemma run_hook_open:
  "run_hook en t strict pr conn = (Inr ch, conn1) \<Longrightarrow> keep en conn1 = (res, conn') \<Longrightarrow> cn_open conn = Some begun \<Longrightarrow>
   cn_open conn' = cn_open conn \<and> cn_saved conn' = cn_saved conn"
  using run_hook_outcome(2) [of en t strict pr conn ch conn1] keep_within [of conn begun en]
  by (auto simp: keep_def)

interpretation withins: batch_steps en su within for en su
proof
  fix t rel b
  show "within b (handle_delete en t rel b)"
    by (auto simp: within_def handle_delete_def dest!: atomically_open split: sum.split prod.split)
next
  fix sm t path rel b
  show "within b (handle_upsert en su sm t path rel b)"
    by (auto simp: within_def handle_upsert_def Let_def dest!: atomically_open
        split: sum.split prod.split option.split hook.split bool.split)
next
  fix sm t trigger b
  show "within b (refresh_table en su sm t trigger b)"
    by (auto simp: within_def refresh_table_def Let_def dest: run_hook_open run_hook_outcome(1)
        split: sum.split prod.split option.split hook.split)
qed (auto simp: within_def)

section \<open>A batch\<close>

lemma run_batch_aside: "aside (run_batch en su sm applied ix) = (ix_held ix, ix_known ix, ix_seeded ix, ix_outbox ix)"
proof -
  let ?b = "start_batch (ix\<lparr>ix_conn := (ix_conn ix)\<lparr>cn_open := Some (index_db ix)\<rparr>\<rparr>)"
  have "aside (run_batch en su sm applied ix) = aside ?b" by (rule asides.run)
  then show ?thesis by simp
qed

lemma apply_batch_run:
  assumes "closed ix"
  shows "apply_batch en su sm events late ix =
    (let b = run_batch en su sm (drained events late) ix in
     case commit en (ix_conn b) of
       (Inr _, conn) \<Rightarrow> (Inr (ba_out b), end_batch (b\<lparr>ix_conn := conn\<rparr>))
     | (Inl e, conn) \<Rightarrow>
         (Inl \<lparr>rb_events = drained events late, rb_errors = filter is_error (ba_out b) @ [batch_error en e]\<rparr>,
          end_batch (b\<lparr>ix_conn := conn\<rparr>)))"
  using assms by (simp add: apply_batch_def begin_unit_def closed_def run_batch_def Let_def)

lemma run_batch_facts:
  assumes "closed ix"
  shows "cn_open (ix_conn (run_batch en su sm applied ix)) = Some (index_db ix)"
    "cn_saved (ix_conn (run_batch en su sm applied ix)) = []"
    "plain_table en table \<Longrightarrow> index_ok en su table ix \<Longrightarrow>
      table_ok (en_sqlite en) (is_per_table su table) table (now_db (run_batch en su sm applied ix)) \<and>
      replay norm_row (events_of table (ba_out (run_batch en su sm applied ix))) (index_bag en table ix) =
        Some (rows_bag (en_sqlite en) table (now_db (run_batch en su sm applied ix)))"
  using withins.run [of ix en su sm applied] telling.run [of en table su ix sm applied] assms
  by (auto simp: tells_def within_def closed_def)

definition apart :: "index_state \<Rightarrow> file_event list \<times> ((rstr \<times> rstr) \<times> known) list \<times> bool \<times> row_event list" where
  "apart ix = (ix_held ix, ix_known ix, ix_seeded ix, ix_outbox ix)"

lemma apart_end [simp]: "apart (end_batch b) = aside b"
  using batch_fields(7) by (simp add: apart_def)

text \<open>A batch that commits is told in full.\<close>

lemma apply_batch_committed:
  assumes "closed ix" "apply_batch en su sm events late ix = (Inr out, ix')"
  shows "closed ix'" "apart ix' = apart ix"
    "plain_table en table \<Longrightarrow> index_ok en su table ix \<Longrightarrow> index_ok en su table ix' \<and>
      replay norm_row (events_of table out) (index_bag en table ix) = Some (index_bag en table ix')"
proof -
  let ?b = "run_batch en su sm (drained events late) ix"
  obtain conn where c: "commit en (ix_conn ?b) = (Inr (), conn)" "out = ba_out ?b" "ix' = end_batch (?b\<lparr>ix_conn := conn\<rparr>)"
    using assms(2) unfolding apply_batch_run [OF assms(1)] by (auto simp: Let_def split: prod.splits sum.splits)
  note w = commit_whole [OF c(1)]
  show "closed ix'" using w by (simp add: closed_def c(3))
  show "apart ix' = apart ix" by (simp add: c(3) run_batch_aside) (simp add: apart_def)
  show "plain_table en table \<Longrightarrow> index_ok en su table ix \<Longrightarrow> index_ok en su table ix' \<and>
      replay norm_row (events_of table out) (index_bag en table ix) = Some (index_bag en table ix')"
    using run_batch_facts(3) [OF assms(1), of en table su sm "drained events late"] w by (simp add: c(2,3))
qed

text \<open>A batch that does not leaves the database as it was, and tells errors only.\<close>

lemma batch_error_is_error [simp]: "is_error (batch_error en e)"
  by (cases e) (simp_all add: is_error_def)

lemma apply_batch_rejected:
  assumes "closed ix" "apply_batch en su sm events late ix = (Inl rej, ix')"
  shows "closed ix'" "apart ix' = apart ix" "index_db ix' = index_db ix" "rb_events rej = drained events late"
    "list_all is_error (rb_errors rej)" "rb_errors rej \<noteq> []"
proof -
  let ?b = "run_batch en su sm (drained events late) ix"
  obtain e conn where c: "commit en (ix_conn ?b) = (Inl e, conn)"
    "rej = \<lparr>rb_events = drained events late, rb_errors = filter is_error (ba_out ?b) @ [batch_error en e]\<rparr>"
    "ix' = end_batch (?b\<lparr>ix_conn := conn\<rparr>)"
    using assms(2) unfolding apply_batch_run [OF assms(1)] by (auto simp: Let_def split: prod.splits sum.splits)
  have w: "conn = \<lparr>cn_db = index_db ix, cn_open = None, cn_saved = []\<rparr>"
    by (rule commit_refused [OF c(1)]) (rule run_batch_facts(1) [OF assms(1)])
  show "closed ix'" "index_db ix' = index_db ix" using w by (simp_all add: closed_def c(3))
  show "apart ix' = apart ix" by (simp add: c(3) run_batch_aside) (simp add: apart_def)
  show "rb_events rej = drained events late" "list_all is_error (rb_errors rej)" "rb_errors rej \<noteq> []"
    by (simp_all add: c(2) list_all_iff)
qed

lemma replay_errors: "list_all is_error evs \<Longrightarrow> replay say (events_of table evs) M = Some M"
proof (induction evs)
  case (Cons ev evs)
  then show ?case by (cases ev) (auto simp: events_of_def is_error_def)
qed (simp add: events_of_def)

lemma list_all_drop: "list_all P xs \<Longrightarrow> list_all P (drop n xs)"
  by (auto simp: list_all_iff dest: in_set_dropD)

section \<open>Batches of events\<close>

text \<open>What every step keeps: no transaction is left open; the table's rows are those a consumer has
  who has replayed every event told, and those in the outbox.\<close>

definition in_step :: "engine \<Rightarrow> wiring \<Rightarrow> rstr \<Rightarrow> bag \<Rightarrow> index_state \<Rightarrow> bool" where
  "in_step en su table V ix \<longleftrightarrow>
     closed ix \<and> index_ok en su table ix \<and>
     replay norm_row (events_of table (ix_outbox ix)) V = Some (index_bag en table ix)"

lemma hold_fields [simp]: "ix_conn (hold evs ix) = ix_conn ix" "ix_outbox (hold evs ix) = ix_outbox ix"
  "closed (hold evs ix) = closed ix"
  by (simp_all add: hold_def closed_def)

lemma apply_events_told:
  assumes plain: "plain_table en table" and ok: "index_ok en su table ix" and cl: "closed ix"
    and run: "apply_events en su sm events late ix = (out, ix')"
  shows "closed ix'" "index_ok en su table ix'" "ix_outbox ix' = ix_outbox ix"
    "replay norm_row (events_of table out) (index_bag en table ix) = Some (index_bag en table ix')"
proof -
  obtain held ix1 where h: "take_held sm ix = (held, ix1)" by fastforce
  have c1: "closed ix1" "index_db ix1 = index_db ix" "ix_outbox ix1 = ix_outbox ix"
    using h cl by (auto simp: take_held_def closed_def)
  have ok1: "index_ok en su table ix1" using ok c1(2) by simp
  consider (none) "out = []" "ix' = ix"
    | (landed) evs where "apply_batch en su sm evs late ix1 = (Inr out, ix')"
    | (refused) evs rej ix2 where "apply_batch en su sm evs late ix1 = (Inl rej, ix2)"
        "out = rb_errors rej" "ix' = hold (rb_events rej) ix2"
    | (alone) evs rej ix2 evs2 ix3 again where "apply_batch en su sm evs late ix1 = (Inl rej, ix2)"
        "apply_batch en su sm evs2 [] (hold ix3 ix2) = (Inr again, ix')"
        "out = drop (length (rb_errors rej) - 1) (rb_errors rej) @ again"
    | (neither) evs rej ix2 evs2 ix3 again ix4 where "apply_batch en su sm evs late ix1 = (Inl rej, ix2)"
        "apply_batch en su sm evs2 [] (hold ix3 ix2) = (Inl again, ix4)"
        "out = rb_errors rej" "ix' = hold (rb_events again) ix4"
    using run h unfolding apply_events_def Let_def by (auto split: if_splits prod.splits sum.splits)
  then have "closed ix' \<and> index_ok en su table ix' \<and> ix_outbox ix' = ix_outbox ix \<and>
    replay norm_row (events_of table out) (index_bag en table ix) = Some (index_bag en table ix')"
  proof cases
    case none
    then show ?thesis using cl ok by (simp add: events_of_def)
  next
    case landed
    note a = apply_batch_committed [OF c1(1) landed]
    show ?thesis using a(1,2) a(3) [OF plain ok1] c1 by (simp add: apart_def)
  next
    case refused
    note a = apply_batch_rejected [OF c1(1) refused(1)]
    show ?thesis using a(1-3,5) ok c1 replay_errors by (simp add: refused(2,3) apart_def)
  next
    case alone
    note a = apply_batch_rejected [OF c1(1) alone(1)]
    have c2: "closed (hold ix3 ix2)" using a(1) by simp
    note b = apply_batch_committed [OF c2 alone(2)]
    have "index_ok en su table (hold ix3 ix2)" "index_db (hold ix3 ix2) = index_db ix" using ok a(3) c1(2) by simp_all
    then show ?thesis
      using b(1,2) b(3) [OF plain] a(2) c1(3) replay_errors [OF list_all_drop [OF a(5)]]
      by (simp add: alone(3) apart_def replay_append)
  next
    case neither
    note a = apply_batch_rejected [OF c1(1) neither(1)]
    have c2: "closed (hold ix3 ix2)" using a(1) by simp
    note b = apply_batch_rejected [OF c2 neither(2)]
    show ?thesis using a(2,3,5) b(1-3) ok c1 replay_errors by (simp add: neither(3,4) apart_def)
  qed
  then show "closed ix'" "index_ok en su table ix'" "ix_outbox ix' = ix_outbox ix"
    "replay norm_row (events_of table out) (index_bag en table ix) = Some (index_bag en table ix')" by blast+
qed

lemma apply_file_events_in_step:
  assumes plain: "plain_table en table" and before: "in_step en su table V ix"
    and run: "apply_file_events en su sm events late ix = (out, ix')"
  shows "\<exists>V'. replay norm_row (events_of table out) V = Some V' \<and> in_step en su table V' ix'"
proof -
  obtain out' where o: "apply_events en su sm events late (ix\<lparr>ix_outbox := []\<rparr>) = (out', ix')" "out = ix_outbox ix @ out'"
    using run by (auto simp: apply_file_events_def split: prod.splits)
  have b: "index_ok en su table (ix\<lparr>ix_outbox := []\<rparr>)" "closed (ix\<lparr>ix_outbox := []\<rparr>)"
    "replay norm_row (events_of table (ix_outbox ix)) V = Some (index_bag en table ix)"
    using before by (simp_all add: in_step_def closed_def)
  note a = apply_events_told [OF plain b(1,2) o(1)]
  have "replay norm_row (events_of table out) V = Some (index_bag en table ix')"
    using a(4) b(3) by (simp add: o(2) replay_append)
  moreover have "in_step en su table (index_bag en table ix') ix'"
    using a(1-3) by (simp add: in_step_def events_of_def)
  ultimately show ?thesis by blast
qed

section \<open>Queries\<close>

lemma seed_fields [simp]: "ix_conn (seed su ix) = ix_conn ix" "ix_outbox (seed su ix) = ix_outbox ix"
  by (simp_all add: seed_def Let_def)

lemma reconcile_in_step:
  assumes plain: "plain_table en table" and before: "in_step en su table V ix"
    and run: "reconcile en su sm after start_ns ix = (res, ix')"
  shows "in_step en su table V ix'"
proof -
  define ix0 where "ix0 = (if ix_seeded ix then ix else seed su ix)"
  have c0: "closed ix0" "index_db ix0 = index_db ix" "ix_outbox ix0 = ix_outbox ix"
    using before by (auto simp: ix0_def in_step_def closed_def)
  define b0 where "b0 = start_batch (ix0\<lparr>ix_conn := (ix_conn ix0)\<lparr>cn_open := Some (index_db ix0)\<rparr>\<rparr>)"
  have b0: "cn_open (ix_conn b0) = Some (index_db ix)" "cn_saved (ix_conn b0) = []" "now_db b0 = index_db ix"
    "ix_outbox b0 = ix_outbox ix" "ba_out b0 = []"
    using c0 batch_fields(5) [of "ix0\<lparr>ix_conn := (ix_conn ix0)\<lparr>cn_open := Some (index_db ix0)\<rparr>\<rparr>"]
    by (simp_all add: b0_def closed_def aside_def)
  have opened: "begin_unit (ix_conn ix0) = (Inr (), (ix_conn ix0)\<lparr>cn_open := Some (index_db ix0)\<rparr>)"
    using c0(1) by (simp add: begin_unit_def closed_def)
  obtain r1 b1 where r: "read_files en su sm after start_ns (tree_files su sm) b0 = (r1, b1)" by fastforce
  have same: "in_step en su table V ix'"
    if "ix_conn ix' = \<lparr>cn_db = index_db ix, cn_open = None, cn_saved = []\<rparr>" "ix_outbox ix' = ix_outbox ix"
    using that before by (simp add: in_step_def closed_def)
  obtain b1' where w1: "within b0 b1'" "case r1 of Inr us \<Rightarrow> b1 = b1' | Inl e \<Rightarrow> b1 = b1'\<lparr>ix_conn := rolled_back (ix_conn b1')\<rparr>"
    using withins.reads [OF r] by blast
  show ?thesis
  proof (cases r1)
    case (Inl e)
    have "aside b1 = aside b0" using asides.reads [OF r] Inl by auto
    moreover have "ix' = end_batch b1"
      using run r opened Inl by (simp add: reconcile_def Let_def ix0_def [symmetric] b0_def [symmetric])
    ultimately show ?thesis
      using w1 Inl b0 batch_fields(7) [of b1] by (intro same) (simp_all add: within_def rolled_back_def aside_def)
  next
    case (Inr updates)
    define b2 where "b2 = foldl (drop_gone en su sm) b1 (gone_keys (tree_files su sm) b1)"
    define b3 where "b3 = refresh_pending en su sm b2"
    have b1: "b1 = b1'" using w1 Inr by simp
    have w3: "within b0 b3"
      using withins.trans [OF withins.trans [OF w1(1) [folded b1] withins.gones] withins.refresh_all]
      unfolding b3_def b2_def .
    obtain b1'' where "plain_table en table \<longrightarrow> tells en su table b0 b1''" "b1 = b1''"
      using telling.reads [OF r, of table] Inr by auto
    then have t1: "plain_table en table \<longrightarrow> tells en su table b0 b1" by simp
    have t3: "tells en su table b0 b3"
      using telling.trans [OF telling.trans [OF t1 telling.gones] telling.refresh_all] plain
      unfolding b3_def b2_def by blast
    have "aside b1 = aside b0" using asides.reads [OF r] Inr by auto
    then have a3: "aside b3 = aside b0"
      using asides.trans [OF asides.gones asides.refresh_all] unfolding b3_def b2_def by metis
    then have out3: "ix_outbox b3 = ix_outbox ix" using b0(4) by (simp add: aside_def)
    have o3: "cn_open (ix_conn b3) = Some (index_db ix)" using w3 b0 by (simp add: within_def)
    obtain cr conn where c: "commit en (ix_conn b3) = (cr, conn)" by fastforce
    show ?thesis
    proof (cases cr)
      case (Inl e)
      have "ix' = end_batch (b3\<lparr>ix_conn := conn\<rparr>)"
        using run r opened Inr c Inl
        by (simp add: reconcile_def Let_def ix0_def [symmetric] b0_def [symmetric] b2_def [symmetric] b3_def [symmetric])
      then show ?thesis
        using commit_refused [OF c [unfolded Inl] o3] out3 batch_fields(7) [of "b3\<lparr>ix_conn := conn\<rparr>"]
        by (intro same) (simp_all add: aside_def)
    next
      case (Inr u)
      have "commit en (ix_conn b3) = (Inr (), conn)" using c Inr by simp
      note w = commit_whole [OF this]
      have ix': "ix_conn ix' = conn" "ix_outbox ix' = ix_outbox ix @ ba_out b3"
        using run r opened \<open>r1 = Inr updates\<close> c Inr out3
        by (auto simp: reconcile_def Let_def ix0_def [symmetric] b0_def [symmetric] b2_def [symmetric] b3_def [symmetric])
      show ?thesis
        using t3 b0 before w ix' by (auto simp: in_step_def tells_def closed_def replay_append)
    qed
  qed
qed

end
