(* ===== verification/Watch_Runs.thy ===== *)
theory Watch_Runs
  imports Watch_Replay
begin

text \<open>
  The index over time: batches of file events, each applied in one transaction whose foreign keys are
  checked at its end, and queries that read the changed files first. What is told of it, what becomes
  of a batch that is rejected, and a deletion that is forgotten.
\<close>

section \<open>Runs\<close>

text \<open>An index as its consumer meets it: batches of events, each with the files as they then are, and
  queries in any order; what has been told so far.\<close>

inductive followed :: "engine \<Rightarrow> wiring \<Rightarrow> index_state \<Rightarrow> row_event list \<Rightarrow> index_state \<Rightarrow> bool"
  for en su ix0
where
  none: "followed en su ix0 [] ix0"
| batch: "followed en su ix0 evs ix \<Longrightarrow> apply_file_events en su sm events late ix = (out, ix') \<Longrightarrow>
    followed en su ix0 (evs @ out) ix'"
| query: "followed en su ix0 evs ix \<Longrightarrow> reconcile en su sm after start_ns ix = (res, ix') \<Longrightarrow>
    followed en su ix0 evs ix'"

lemma followed_in_step:
  assumes "plain_table en table" "in_step en su table V0 ix0"
  shows "followed en su ix0 evs ix \<Longrightarrow>
    \<exists>V. replay norm_row (events_of table evs) V0 = Some V \<and> in_step en su table V ix"
proof (induction rule: followed.induct)
  case none
  then show ?case using assms(2) by (simp add: events_of_def)
next
  case (batch evs ix sm events late out ix')
  then show ?case using apply_file_events_in_step [OF assms(1)] by (fastforce simp: replay_append)
next
  case (query evs ix sm after start_ns res ix')
  then show ?case using reconcile_in_step [OF assms(1)] by blast
qed

section \<open>Events held\<close>

lemma same_event_refl [simp]: "same_event ev ev"
  by (cases ev) (simp_all add: same_path_def)

lemma holds_event_append: "holds_event (xs @ ys) ev \<longleftrightarrow> holds_event xs ev \<or> holds_event ys ev"
  by (simp add: holds_event_def)

lemma held_events:
  "holds_event held ev \<or> ev \<in> set evs \<Longrightarrow>
   holds_event (foldl (\<lambda>held ev. if holds_event held ev then held else held @ [ev]) held evs) ev"
proof (induction evs arbitrary: held)
  case (Cons e evs)
  then show ?case by (auto simp: holds_event_append) (auto simp: holds_event_def)
qed simp

lemma hold_holds: "holds_event (ix_held ix) ev \<or> ev \<in> set evs \<Longrightarrow> holds_event (ix_held (hold evs ix)) ev"
  unfolding hold_def using held_events by simp

lemma drained_none [simp]: "drained evs [] = evs"
  by (cases evs) simp_all

lemma apply_batch_drained: "closed ix \<Longrightarrow> apply_batch en su sm (drained events late) [] ix = apply_batch en su sm events late ix"
  by (simp only: apply_batch_run drained_none)

lemma take_held_facts:
  assumes "take_held sm ix = (held, ix1)"
  shows "index_db ix1 = index_db ix" "closed ix1 = closed ix" "ix_held ix1 = []" "held = [] \<longleftrightarrow> ix_held ix = []"
proof -
  have grows: "length evs \<le> length (foldl (\<lambda>evs ev. if holds_event evs (g ev) then evs else evs @ [g ev]) evs hs)"
    for evs hs and g :: "file_event \<Rightarrow> file_event"
  proof (induction hs arbitrary: evs)
    case (Cons h hs)
    show ?case using Cons [of evs] Cons [of "evs @ [g h]"] by simp
  qed simp
  show "index_db ix1 = index_db ix" "closed ix1 = closed ix" "ix_held ix1 = []"
    using assms by (auto simp: take_held_def closed_def)
  show "held = [] \<longleftrightarrow> ix_held ix = []"
  proof (cases "ix_held ix")
    case (Cons ev hs)
    then show ?thesis using assms grows [of "[current_event sm ev]" "current_event sm" hs]
      by (auto simp: take_held_def holds_event_def)
  qed (use assms in \<open>auto simp: take_held_def\<close>)
qed

section \<open>A concrete index\<close>

text \<open>One directory \<open>r\<close> with a per-file table, whose only row came from \<open>d/f\<close>.\<close>

definition small_engine :: "engine" where
  "small_engine = \<lparr>en_sqlite = small_sqlite False [], en_orphans = \<lambda>db. [], en_key_columns = \<lambda>t k. [],
     en_commit = \<lambda>db. Committed, en_show_real = \<lambda>x. [], en_debug = \<lambda>s. s\<rparr>"

definition bare_matcher :: table_matcher where
  "bare_matcher = \<lparr>tm_entries = [], tm_ignore_set = [], tm_ignore_dir_set = [], tm_gitignore = False, tm_walk = \<lparr>pg_files = [], pg_components = [], pg_starts = [], pg_ends = [], pg_spells_relative = False, pg_named = []\<rparr>\<rparr>"

definition bare_group where
  "bare_group = \<lparr>ag_anchor = ascii ''r'', ag_watch_anchor = ascii ''r'', ag_matcher = bare_matcher, ag_tables = [ascii ''t'']\<rparr>"

definition bare_wiring :: wiring where
  "bare_wiring = \<lparr>su_groups = [bare_group], su_hooks = [ascii ''t'' \<mapsto> Per_File (\<lambda>sm p. Inr [])], su_strict = Map.empty,
     su_declared = [ascii ''t''], su_built_ns = 0\<rparr>"

definition bare_seam :: seam where
  "bare_seam = \<lparr>sm_is_file = \<lambda>p. Inr False, sm_is_dir = \<lambda>p. Inr False, sm_scan = \<lambda>b d m. ([], []), sm_canonical_root = id,
     sm_fingerprint = \<lambda>p. None, sm_disk = \<lparr>fs_read = \<lambda>p. [], fs_stat = \<lambda>p b. None, fs_exists = \<lambda>p. False, fs_gitignore = \<lambda>p. None\<rparr>\<rparr>"

definition bare_index :: index_state where
  "bare_index = \<lparr>ix_conn = \<lparr>cn_db = \<lparr>db_tables = [ascii ''t'' \<mapsto> [(1, [Null, Text (ascii ''a'')])]],
       db_mapping = [(ascii ''t'', ascii ''d/f'', 0, 1)], db_ranges = []\<rparr>, cn_open = None, cn_saved = []\<rparr>,
     ix_batch_files = Map.empty, ix_held = [], ix_links = [], ix_known = [], ix_seeded = False, ix_outbox = []\<rparr>"

text \<open>Another, with a per-table hook.\<close>

definition kept_engine :: engine where
  "kept_engine = small_engine\<lparr>en_commit := \<lambda>db.
     if db_tables db (ascii ''t'') = Some [] then Refused (Sqlite_Failure []) else Committed\<rparr>"

definition kept_wiring :: wiring where
  "kept_wiring = bare_wiring\<lparr>su_hooks := [ascii ''t'' \<mapsto>
     Per_Table (\<lambda>sm ps. \<lparr>pr_rows = map (\<lambda>p. [(ascii ''name'', JString p)]) ps, pr_ended = False, pr_result = Inr ()\<rparr>)]\<rparr>"

definition kept_index :: index_state where
  "kept_index = \<lparr>ix_conn = \<lparr>cn_db = \<lparr>db_tables = [ascii ''t'' \<mapsto> [(1, [Null, Text (ascii ''r/d/f'')])]],
       db_mapping = [], db_ranges = [(ascii ''t'', [], 1, 1)]\<rparr>, cn_open = None, cn_saved = []\<rparr>,
     ix_batch_files = [ascii ''t'' \<mapsto> [ascii ''d/f'']], ix_held = [], ix_links = [], ix_known = [], ix_seeded = False,
     ix_outbox = []\<rparr>"

lemma small_plain: "plain_table small_engine table"
proof -
  have "case_distinct [ascii ''id'', ascii ''name'']" by code_simp
  then show ?thesis by (simp add: plain_table_def small_engine_def small_sqlite_laws) (simp add: small_sqlite_def acted_on_by_none_def)
qed

lemma bare_index_ok: "closed bare_index" "index_ok small_engine bare_wiring (ascii ''t'') bare_index" "ix_outbox bare_index = []"
proof -
  have "well_stored (small_sqlite False []) (ascii ''t'') [(1, [Null, Text (ascii ''a'')])]"
    by (auto simp: well_stored_def ordered_def cells_ok_def coerced_def small_sqlite_def split: if_splits)
  then show "index_ok small_engine bare_wiring (ascii ''t'') bare_index"
    by (simp add: table_ok_def bare_index_def small_engine_def bare_wiring_def is_per_table_def owned_rowids_def)
qed (simp_all add: closed_def bare_index_def)

section \<open>Properties\<close>

text \<open>C21: the row events tell the rows. Whatever batches of file events arrive, in whatever state the
  files then are, and whatever queries run in between, a consumer who replays every row event told
  since a moment at which nothing was owed holds, with those still in the outbox, exactly the rows
  the table has; rejected batches, failing hooks and refused writes included. No transaction is left open.

  Two kinds of table are left out, and must be: one with an \<open>INTEGER PRIMARY KEY\<close>, whose generated keys the
  events do not carry (\<open>generated_key_not_told\<close>), and one that a foreign key action or a trigger of another table
  writes, such as the child of an \<open>ON DELETE CASCADE\<close> (\<open>cascaded_rows_untold\<close>).\<close>

theorem watch_tells_rows:
  assumes "plain_table en table" "closed ix0" "index_ok en su table ix0" "ix_outbox ix0 = []"
    "followed en su ix0 evs ix"
  shows "closed ix \<and> replay norm_row (events_of table (evs @ ix_outbox ix)) (index_bag en table ix0) =
    Some (index_bag en table ix)"
proof -
  have "in_step en su table (index_bag en table ix0) ix0" using assms(2-4) by (simp add: in_step_def events_of_def)
  from followed_in_step [OF assms(1) this assms(5)] show ?thesis by (auto simp: in_step_def replay_append)
qed

theorem watch_tells_rows_witness:
  "\<exists>ix. replay norm_row
      (events_of (ascii ''t'') ([Delete (ascii ''t'') [(ascii ''id'', Null), (ascii ''name'', Text (ascii ''a''))] (ascii ''d/f'')] @ ix_outbox ix))
      (index_bag small_engine (ascii ''t'') bare_index) = Some (index_bag small_engine (ascii ''t'') ix)"
proof -
  have out: "fst (apply_file_events small_engine bare_wiring bare_seam [Deleted (ascii ''r/d'')] [] bare_index) =
      [Delete (ascii ''t'') [(ascii ''id'', Null), (ascii ''name'', Text (ascii ''a''))] (ascii ''d/f'')]"
    by code_simp
  then obtain ix where "apply_file_events small_engine bare_wiring bare_seam [Deleted (ascii ''r/d'')] [] bare_index =
      ([Delete (ascii ''t'') [(ascii ''id'', Null), (ascii ''name'', Text (ascii ''a''))] (ascii ''d/f'')], ix)"
    by (metis prod.collapse)
  from followed.batch [OF followed.none this] show ?thesis
    using watch_tells_rows [OF small_plain bare_index_ok] by fastforce
qed

text \<open>What was held is replayed apart from a rejected batch.\<close>

lemma later_lands_or_held:
  assumes "closed ix" "take_held sm ix = (held, ix1)" "events \<noteq> []" "apply_events en su sm events late ix = (out, ix')"
    and later: "held \<noteq> []" "apply_batch en su sm (held @ events) late ix1 = (Inl rej, ix2)"
  shows "\<exists>landed. (\<forall>ev\<in>set (drained (held @ events) late). ev \<in> set landed \<or> holds_event (ix_held ix') ev) \<and>
    (landed = [] \<and> index_db ix' = index_db ix \<or>
     (\<exists>jx told jx'. index_db jx = index_db ix \<and> apply_batch en su sm landed [] jx = (Inr told, jx') \<and>
        index_db jx' = index_db ix'))"
proof -
  note t = take_held_facts [OF assms(2)]
  have c1: "closed ix1" using assms(1) t(2) by simp
  let ?all = "drained (held @ events) late"
  note a = apply_batch_rejected [OF c1 later(2)]
  let ?n = "length held" and ?ix3 = "hold (take (length held) (rb_events rej)) ix2"
  have c3: "closed ?ix3" and d3: "index_db ?ix3 = index_db ix" using a(1,3) t(1) by simp_all
  obtain r ix4 where r: "apply_batch en su sm (drop ?n (rb_events rej)) [] ?ix3 = (r, ix4)" by fastforce
  have all: "?all = take ?n (rb_events rej) @ drop ?n (rb_events rej)" by (simp add: a(4))
  note run = assms(2-4) later r
  show ?thesis
  proof (cases r)
    case (Inr told)
    have "ix' = ix4" using run Inr by (simp add: apply_events_def)
    moreover have "ix_held ix4 = ix_held ?ix3" using apply_batch_committed(2) [OF c3 r [unfolded Inr]] by (simp add: apart_def)
    moreover have "holds_event (ix_held ?ix3) ev" if "ev \<in> set (take ?n (rb_events rej))" for ev
      using that by (intro hold_holds disjI2)
    ultimately have h: "\<forall>ev\<in>set ?all. ev \<in> set (drop ?n (rb_events rej)) \<or> holds_event (ix_held ix') ev"
      unfolding all set_append by auto
    show ?thesis using r Inr d3 \<open>ix' = ix4\<close> h by blast
  next
    case (Inl again)
    note b = apply_batch_rejected [OF c3 r [unfolded Inl]]
    have ix': "ix' = hold (rb_events again) ix4" using run Inl by (simp add: apply_events_def)
    have h4: "ix_held ix4 = ix_held ?ix3" using b(2) by (simp add: apart_def)
    have "holds_event (ix_held ix') ev" if "ev \<in> set ?all" for ev
    proof -
      have "ev \<in> set (take ?n (rb_events rej)) \<or> ev \<in> set (rb_events again)"
        using that unfolding all set_append b(4) by auto
      then show ?thesis unfolding ix' by (intro hold_holds) (auto simp: h4 intro: hold_holds)
    qed
    then show ?thesis using b(3) d3 by (intro exI [of _ "[]"]) (simp add: ix')
  qed
qed

text \<open>C23: no file event is lost track of. Of the events of a batch, those held back and those that
  came late with it, each is in the transaction that committed or is held for the next batch; that
  transaction, if there is one, is all that changed the database, and otherwise the database is as
  it was.\<close>

theorem events_land_or_held:
  assumes cl: "closed ix" and take: "take_held sm ix = (held, ix1)" and some: "events \<noteq> []"
    and run: "apply_events en su sm events late ix = (out, ix')"
  shows "\<exists>landed. (\<forall>ev\<in>set (drained (held @ events) late). ev \<in> set landed \<or> holds_event (ix_held ix') ev) \<and>
    (landed = [] \<and> index_db ix' = index_db ix \<or>
     (\<exists>jx told jx'. index_db jx = index_db ix \<and> apply_batch en su sm landed [] jx = (Inr told, jx') \<and>
        index_db jx' = index_db ix'))"
proof -
  note t = take_held_facts [OF take]
  have c1: "closed ix1" using cl t(2) by simp
  let ?all = "drained (held @ events) late"
  consider (landed) out where "apply_batch en su sm (held @ events) late ix1 = (Inr out, ix')"
    | (refused) rej ix2 where "held = []" "apply_batch en su sm (held @ events) late ix1 = (Inl rej, ix2)"
        "ix' = hold (rb_events rej) ix2"
    | (later) rej ix2 where "held \<noteq> []" "apply_batch en su sm (held @ events) late ix1 = (Inl rej, ix2)"
    using run take some unfolding apply_events_def Let_def by (auto split: if_splits prod.splits sum.splits)
  then show ?thesis
  proof cases
    case landed
    then show ?thesis using t(1) apply_batch_drained [OF c1, of en su sm "held @ events" late]
      by (intro exI [of _ ?all]) auto
  next
    case refused
    note a = apply_batch_rejected [OF c1 refused(2)]
    show ?thesis
      using a(3,4) t(1) by (intro exI [of _ "[]"]) (auto simp: refused(3) intro: hold_holds)
  next
    case later
    then show ?thesis by (rule later_lands_or_held [OF cl take some run])
  qed
qed

theorem events_land_or_held_witness:
  "\<exists>landed. (\<forall>ev\<in>{Deleted (ascii ''r/d'')}. ev \<in> set landed \<or>
      holds_event (ix_held (snd (apply_events small_engine bare_wiring bare_seam [Deleted (ascii ''r/d'')] [] bare_index))) ev)"
proof -
  obtain out ix' where run: "apply_events small_engine bare_wiring bare_seam [Deleted (ascii ''r/d'')] [] bare_index = (out, ix')"
    by fastforce
  have "take_held bare_seam bare_index = ([], bare_index\<lparr>ix_held := []\<rparr>)" by (simp add: take_held_def bare_index_def)
  from events_land_or_held [OF bare_index_ok(1) this _ run] show ?thesis unfolding run by auto
qed

text \<open>C22: what a statement's foreign key actions and triggers do to another table is told by no event. When
  a file of a parent table is deleted and the rows of the children change with its rows, a consumer hears
  nothing of it: replaying the events told leaves the children's rows as they were, and the children's files
  go on owning the rowids that are gone.\<close>

theorem cascaded_rows_untold:
  assumes "cn_open (ix_conn b) = Some db0" "get_rows_by_file (en_sqlite en) (now_db b) upper rel = Inr old"
    "delete_rows_by_file (en_sqlite en) (now_db b) upper rel = Inr (db', n)" "lower \<noteq> upper"
    "rows_bag (en_sqlite en) lower db' \<noteq> rows_bag (en_sqlite en) lower (now_db b)"
  shows "\<exists>evs. ba_out (handle_delete en upper rel b) = ba_out b @ evs \<and>
    replay norm_row (events_of lower evs) (rows_bag (en_sqlite en) lower (now_db b)) \<noteq>
      Some (rows_bag (en_sqlite en) lower (now_db (handle_delete en upper rel b))) \<and>
    owned_rowids lower (now_db (handle_delete en upper rel b)) = owned_rowids lower (now_db b)"
proof -
  let ?evs = "diff upper (Some old) None rel"
  have b': "handle_delete en upper rel b = emit ?evs (b\<lparr>ix_conn := (ix_conn b)\<lparr>cn_db := db'\<rparr>\<rparr>)"
    using assms(2,3) by (simp add: handle_delete_def atomically_within [OF assms(1)] delete_unit_def)
  have "events_of lower ?evs = []"
    using diff_table assms(4) by (fastforce simp: events_of_def filter_empty_conv)
  moreover have "now_db (handle_delete en upper rel b) = db'" by (simp add: b')
  moreover have "owned_rowids lower db' = owned_rowids lower (now_db b)"
  proof -
    obtain c ws where db': "db' = disown upper rel (put_table upper c (act (en_sqlite en) upper ws (now_db b)))"
      using assms(3) by (auto simp: delete_rows_by_file_def with_table_def Let_def split: sum.splits option.splits)
    show ?thesis using assms(4)
      by (auto simp: db' owned_rowids_def disown_def put_table_def intro!: arg_cong [of _ _ "map _"] filter_cong)
  qed
  ultimately show ?thesis using assms(5) by (intro exI [of _ ?evs]) (simp add: b')
qed

text \<open>A parent \<open>t\<close> with one row of the file \<open>f\<close> and a child \<open>c\<close> with one row that goes with it.\<close>

definition cascade_engine :: engine where
  "cascade_engine = small_engine\<lparr>en_sqlite := (en_sqlite small_engine)\<lparr>sq_action := \<lambda>t w tables.
     (case w of Wrote_Delete r cs \<Rightarrow> if t = ascii ''t'' then tables(ascii ''c'' \<mapsto> []) else tables | _ \<Rightarrow> tables)\<rparr>\<rparr>"

definition cascade_db :: "bool \<Rightarrow> db" where
  "cascade_db gone = \<lparr>db_tables = [ascii ''t'' \<mapsto> (if gone then [] else [(1, [Null, Text (ascii ''a'')])]),
       ascii ''c'' \<mapsto> (if gone then [] else [(1, [Null, Text (ascii ''b'')])])],
     db_mapping = (if gone then [] else [(ascii ''t'', ascii ''f'', 0, 1)]) @ [(ascii ''c'', ascii ''g'', 0, 1)], db_ranges = []\<rparr>"

lemma cascade_run:
  "get_rows_by_file (en_sqlite cascade_engine) (cascade_db False) (ascii ''t'') (ascii ''f'') =
     Inr [[(ascii ''id'', Null), (ascii ''name'', Text (ascii ''a''))]]"
  "delete_rows_by_file (en_sqlite cascade_engine) (cascade_db False) (ascii ''t'') (ascii ''f'') = Inr (cascade_db True, 1)"
proof -
  have vi: "validate_identifier (ascii ''t'') = Inr ()" by code_simp
  note defs = with_table_def cascade_db_def cascade_engine_def small_engine_def small_sqlite_def mapped_rowids_def ranges_by_file_def
  show "get_rows_by_file (en_sqlite cascade_engine) (cascade_db False) (ascii ''t'') (ascii ''f'') =
     Inr [[(ascii ''id'', Null), (ascii ''name'', Text (ascii ''a''))]]"
    using vi by (simp add: get_rows_by_file_def rows_of_file_def List.map_filter_simps defs)
  show "delete_rows_by_file (en_sqlite cascade_engine) (cascade_db False) (ascii ''t'') (ascii ''f'') = Inr (cascade_db True, 1)"
    using vi by (simp add: delete_rows_by_file_def run_delete_def content_del_def act_def put_table_def disown_def Let_def defs
        fun_upd_twist)
qed

theorem cascaded_rows_untold_witness:
  "\<exists>b evs. now_db b = cascade_db False \<and> ba_out (handle_delete cascade_engine (ascii ''t'') (ascii ''f'') b) = ba_out b @ evs \<and>
    replay norm_row (events_of (ascii ''c'') evs) (rows_bag (en_sqlite cascade_engine) (ascii ''c'') (cascade_db False)) \<noteq>
      Some (rows_bag (en_sqlite cascade_engine) (ascii ''c'') (now_db (handle_delete cascade_engine (ascii ''t'') (ascii ''f'') b)))"
proof -
  let ?b = "start_batch (bare_index\<lparr>ix_conn := \<lparr>cn_db = cascade_db False, cn_open = Some (cascade_db False), cn_saved = []\<rparr>\<rparr>)"
  have b: "cn_open (ix_conn ?b) = Some (cascade_db False)" "now_db ?b = cascade_db False" by simp_all
  have "rows_bag (en_sqlite cascade_engine) (ascii ''c'') (cascade_db True) \<noteq>
      rows_bag (en_sqlite cascade_engine) (ascii ''c'') (cascade_db False)"
    by (simp add: rows_bag_def cascade_db_def)
  from cascaded_rows_untold [OF b(1), unfolded b(2), OF cascade_run _ this] show ?thesis
    using b(2) by (intro exI [of _ ?b]) auto
qed

text \<open>A rejected batch forgets a deletion. When a batch that deletes a directory is rejected, the
  paths below it are already struck from the list of the per-table hook; the held event then finds
  nothing to strike and the hook is not run again, so the next batch commits, whatever its events,
  with the table keeping the rows of the files that are gone and no event held. The foreign key here
  is one that lets the table be anything but empty.\<close>

theorem held_deletion_lost:
  "case apply_file_events kept_engine kept_wiring bare_seam [Deleted (ascii ''r/d'')] [] kept_index of (out1, ix1) \<Rightarrow>
     ix_held ix1 = [Deleted (ascii ''r/d'')] \<and>
     (case apply_file_events kept_engine kept_wiring bare_seam [Modified (ascii ''r/e'')] [] ix1 of (out2, ix2) \<Rightarrow>
        ix_held ix2 = [] \<and> ix_batch_files ix2 (ascii ''t'') = Some [] \<and>
        db_tables (index_db ix2) (ascii ''t'') = Some [(1, [Null, Text (ascii ''r/d/f'')])])"
  by code_simp

end
