(* ===== verification/Build_Gaps.thy ===== *)
theory Build_Gaps
  imports Ingest Watch_Runs
begin

text \<open>
  Where the cache of \<open>packages/rust/src/persist.rs\<close> and the builds of \<open>lib.rs\<close> part from a build that
  starts from nothing, on small indexes: one table over one file, with a per-table hook that gives a
  row per path.
\<close>

section \<open>A small index\<close>

definition only_table :: rstr where
  "only_table = ascii ''t''"

text \<open>Every batch of DDL makes the table anew, empty.\<close>

definition one_table_schema :: schema_engine where
  "one_table_schema =
     \<lparr>se_run = \<lambda>ddl (cat, db).
        Inr ((only_table, \<lparr>ce_kind = ascii ''table'', ce_without_rowid = False, ce_ddl = ddl\<rparr>) # cat,
          db\<lparr>db_tables := (db_tables db)(only_table \<mapsto> [])\<rparr>),
      se_drop = \<lambda>name (cat, db).
        Inr (filter (\<lambda>e. fst e \<noteq> name) cat, db\<lparr>db_tables := (db_tables db)(name := None)\<rparr>)\<rparr>"

definition path_rows :: "rstr + unit \<Rightarrow> seam \<Rightarrow> rstr list \<Rightarrow> production" where
  "path_rows result sm ps =
     \<lparr>pr_rows = map (\<lambda>p. [(ascii ''name'', JString p)]) ps, pr_ended = False, pr_result = result\<rparr>"

definition one_table :: "rstr \<Rightarrow> rstr + unit \<Rightarrow> resolved_build" where
  "one_table ddl result =
     \<lparr>rs_root = ascii ''r'', rs_tables = [\<lparr>td_name = only_table, td_ddl = ddl, td_glob = ascii ''x'', td_strict = False,
        td_hook = Per_Table (path_rows result), td_anchor = None, td_ignore = [], td_warn_when_empty = False\<rparr>],
      rs_ignore = [], rs_persist = True, rs_no_ignore = True\<rparr>"

definition one_table_env :: "rstr list \<Rightarrow> build_env" where
  "one_table_env rels =
     \<lparr>be_engines = \<lparr>globset = \<lambda>g. Some [], regex = \<lambda>r. Some (\<lambda>p. True)\<rparr>, be_is_dir = \<lambda>p. False,
      be_scan = \<lambda>root m. (map (\<lambda>rel. \<lparr>ff_path = path_join (ascii ''r'') rel, ff_rel_path = rel, ff_table = only_table\<rparr>) rels, []),
      be_stat = \<lambda>p. Inr \<lparr>st_size = 1, st_mtime_ns = 1, st_ctime_ns = 1, st_inode = 1, st_dev = 1\<rparr>,
      be_hash = \<lambda>p. None, be_seam = bare_seam, be_pieces = \<lambda>rows. [rows], be_blake3 = \<lambda>b. b,
      be_canonicalize = \<lambda>p. None, be_version = ascii ''0'', be_schema = one_table_schema,
      be_engine = \<lambda>cat. small_engine, be_built_ns = 2, be_snapshot_ns = 3\<rparr>"

text \<open>A table with a unique name and a free \<open>id\<close>, empty.\<close>

definition keyed_engine :: engine where
  "keyed_engine = small_engine\<lparr>en_sqlite := small_sqlite False [[Some (ascii ''name'')]]\<rparr>"

definition keyed_db :: "content \<Rightarrow> (rstr \<times> rstr \<times> nat \<times> int) list \<Rightarrow> db" where
  "keyed_db c owned = \<lparr>db_tables = [only_table \<mapsto> c], db_mapping = owned, db_ranges = []\<rparr>"

text \<open>A file read again whose hook gives these rows: what is stored, and the events told.\<close>

definition read_again :: "row list \<Rightarrow> db \<Rightarrow> (content \<times> row_event list) option" where
  "read_again raw db =
     (case shape_value_rows only_table (sq_columns (en_sqlite keyed_engine) only_table) raw False of
        Inl e \<Rightarrow> None
      | Inr rows \<Rightarrow>
          (case upsert_unit keyed_engine only_table (ascii ''x'') rows db of
             Inl e \<Rightarrow> None
           | Inr (db', evs) \<Rightarrow> map_option (\<lambda>c. (c, evs)) (db_tables db' only_table)))"

section \<open>Properties\<close>

text \<open>A per-table hook that has lost its last file is never run again. A build from a cache drops
  the bookkeeping of the files that are gone and the rows each of them owns; the rows of a per-table
  hook are no file's, and with no file found there is no batch to run. The table keeps its rows, for
  this build and, the bookkeeping gone, for every later one, and no query notices; a build that keeps
  no cache leaves the table empty.\<close>

theorem emptied_table_keeps_rows:
  "(case build_index (one_table_env [ascii ''x'']) (one_table (ascii ''a'') (Inr ())) empty_store of (r1, so1) \<Rightarrow>
    case build_index (one_table_env []) (one_table (ascii ''a'') (Inr ())) so1 of
      (Inl e, so2) \<Rightarrow> False
    | (Inr (su, ix), so2) \<Rightarrow>
        so_files so2 = [] \<and>
        db_tables (cn_db (ix_conn ix)) only_table = Some [(1, [Null, Text (ascii ''r/x'')])] \<and>
        (case reconcile small_engine su bare_seam (\<lambda>p. None) 9 ix of (r3, ix3) \<Rightarrow>
           r3 = Inr () \<and> db_tables (cn_db (ix_conn ix3)) only_table = Some [(1, [Null, Text (ascii ''r/x'')])])) \<and>
   (case build_index (one_table_env []) ((one_table (ascii ''a'') (Inr ()))\<lparr>rs_persist := False\<rparr>) empty_store of
      (Inl e, so) \<Rightarrow> False
    | (Inr (su, ix), so) \<Rightarrow> db_tables (cn_db (ix_conn ix)) only_table = Some [])"
  by (rule conjI; code_simp)

text \<open>A build that fails after the sweep spoils the cache of the configuration before it. The sweep
  and the DDL are committed before the transaction of the ingest begins, the digest of the
  configuration is not: going back to the first configuration finds the cache compatible and the
  table there, and fills the table the second configuration's DDL made.\<close>

theorem failed_rebuild_keeps_schema:
  "case build_index (one_table_env [ascii ''x'']) (one_table (ascii ''a'') (Inr ())) empty_store of (r1, so1) \<Rightarrow>
   case build_index (one_table_env [ascii ''x'']) (one_table (ascii ''b'') (Inl (ascii ''no''))) so1 of (r2, so2) \<Rightarrow>
   case build_index (one_table_env [ascii ''x'']) (one_table (ascii ''a'') (Inr ())) so2 of (r3, so3) \<Rightarrow>
     (case r2 of Inl e \<Rightarrow> e = Table_Command only_table (ascii ''no'') | Inr b \<Rightarrow> False) \<and> \<not> sum.isl r3 \<and>
     map_option ce_ddl (map_of (so_catalog so1) only_table) = Some (ascii ''a'') \<and>
     map_option ce_ddl (map_of (so_catalog so3) only_table) = Some (ascii ''b'')"
  by code_simp

text \<open>A column a file no longer gives keeps its value. A row matched by a key is updated in the
  columns the new rows carry; when none of them carries a column, the stored value of a row stays,
  and no event is told, though the same file read into an empty table leaves the column \<open>NULL\<close>.\<close>

theorem dropped_column_keeps_value:
  "read_again [[(ascii ''id'', Integer 7), (ascii ''name'', Text (ascii ''a''))]] (keyed_db [] []) =
     Some ([(1, [Integer 7, Text (ascii ''a'')])],
       [Insert only_table [(ascii ''id'', Integer 7), (ascii ''name'', Text (ascii ''a''))] (ascii ''x'')]) \<and>
   read_again [[(ascii ''name'', Text (ascii ''a''))]]
       (keyed_db [(1, [Integer 7, Text (ascii ''a'')])] [(only_table, ascii ''x'', 0, 1)]) =
     Some ([(1, [Integer 7, Text (ascii ''a'')])], []) \<and>
   read_again [[(ascii ''name'', Text (ascii ''a''))]] (keyed_db [] []) =
     Some ([(1, [Null, Text (ascii ''a'')])],
       [Insert only_table [(ascii ''id'', Null), (ascii ''name'', Text (ascii ''a''))] (ascii ''x'')])"
  by (intro conjI; code_simp)

end
