(* ===== verification/Cache_Trust.thy ===== *)
theory Cache_Trust
  imports Persist
begin

text \<open>
  What \<open>is_trusted\<close> of \<open>packages/rust/src/persist.rs\<close> proves of a file that is written while a build
  runs and between builds. A build stats the file, takes the time of its snapshot and then reads the
  file; the next build stats it again. The file is its writes in order, each with its time, the stat
  it left and the content.
\<close>

section \<open>The life of a file\<close>

type_synonym file_write = "int \<times> file_stat \<times> bytes"

definition write_at :: "file_write list \<Rightarrow> int \<Rightarrow> file_write option" where
  "write_at ws time =
     (case rev (filter (\<lambda>w. fst w \<le> time) ws) of [] \<Rightarrow> None | w # before \<Rightarrow> Some w)"

lemma write_at_time: "write_at ws time = Some w \<Longrightarrow> w \<in> set ws \<and> fst w \<le> time"
proof -
  assume "write_at ws time = Some w"
  then have "w \<in> set (rev (filter (\<lambda>w. fst w \<le> time) ws))"
    by (auto simp: write_at_def split: list.splits simp del: set_rev)
  then show "w \<in> set ws \<and> fst w \<le> time" by simp
qed

text \<open>Between the last write before a moment and that moment the file stays as it is.\<close>

lemma write_at_stays:
  assumes "sorted_wrt (<) (map fst ws)" "write_at ws later = Some w" "fst w \<le> time" "time \<le> later"
  shows "write_at ws time = Some w"
proof -
  let ?f = "\<lambda>time. filter (\<lambda>w. fst w \<le> time) ws"
  obtain before where b: "rev (?f later) = w # before"
    using assms(2) by (auto simp: write_at_def split: list.splits)
  then have fl: "?f later = rev before @ [w]" by (metis rev.simps(2) rev_rev_ident)
  have "?f time = filter (\<lambda>w. fst w \<le> time) (?f later)" using assms(4) by (auto simp: intro!: filter_cong)
  moreover have "fst v < fst w" if "v \<in> set before" for v
  proof -
    have "sorted_wrt (<) (map fst (?f later))"
      using assms(1) by (metis sorted_wrt_filter sorted_wrt_map)
    then show ?thesis using that unfolding fl by (simp add: sorted_wrt_append)
  qed
  then have "filter (\<lambda>w. fst w \<le> time) (rev before @ [w]) = rev before @ [w]"
    using assms(3) by (intro filter_True) force
  ultimately have "?f time = rev before @ [w]" by (simp add: fl)
  then show ?thesis by (simp add: write_at_def)
qed

section \<open>Properties\<close>

text \<open>C40: what a trusted file proves. The stamps of writes that leave the scanned stat lag the clock by at most
  \<open>lag\<close>; any other write may leave any stat, with its times set back as a copy that preserves them does.
  Then a file the next build trusts holds the content its rows were read from, or content with the cached
  digest, or its last write came after the read and before \<open>lag\<close> past the snapshot. With exact stamps (\<open>lag = 0\<close>) there is no such moment, since the file is read after the
  snapshot; with the lag of a real clock there is (\<open>lagging_stamp_is_trusted\<close>).\<close>

theorem trusted_file_is_current:
  assumes "sorted_wrt (<) (map fst ws)" "t_read \<le> t_live"
    "write_at ws t_read = Some (w1, st1, hooked)" "write_at ws t_live = Some (w3, live, now)"
    "\<forall>(t, st, c)\<in>set ws. st = scanned \<longrightarrow> t - lag \<le> st_mtime_ns st"
    "is_trusted scanned cached_hash snapshot_ns live (Some (digest now))"
  shows "now = hooked \<or> cached_hash = Some (digest now) \<and> snapshot_ns \<le> st_mtime_ns live \<or>
    t_read < w3 \<and> w3 < snapshot_ns + lag"
proof (cases "st_mtime_ns live < snapshot_ns")
  case True
  have live: "live = scanned" using assms(6) by (auto simp: is_trusted_def split: if_splits)
  have "(w3, live, now) \<in> set ws" using write_at_time [OF assms(4)] by blast
  then have "w3 < snapshot_ns + lag" using assms(5) True live by force
  moreover have "now = hooked" if "w3 \<le> t_read"
    using write_at_stays [OF assms(1,4), of t_read] assms(2,3) that by simp
  ultimately show ?thesis by linarith
next
  case False
  then show ?thesis using assms(6) by (auto simp: is_trusted_def split: if_splits option.splits)
qed

text \<open>A file read at 11.2 ms and written again 0.3 ms later, with the stamp of the tick at 8 ms its first write
  has. The snapshot at 11 ms is later than the tick, so no digest is asked for and the old rows stay.\<close>

definition stamped_at :: "int \<Rightarrow> file_stat" where
  "stamped_at m = \<lparr>st_size = 1, st_mtime_ns = m, st_ctime_ns = 0, st_inode = 1, st_dev = 1\<rparr>"

definition lagging_writes :: "file_write list" where
  "lagging_writes = [(8000000, stamped_at 8000000, [97]), (11500000, stamped_at 8000000, [98])]"

lemma lagging_stamp_is_trusted:
  "is_trusted (stamped_at 8000000) h 11000000 (stamped_at 8000000) h' \<and>
   write_at lagging_writes 11200000 = Some (8000000, stamped_at 8000000, [97]) \<and>
   write_at lagging_writes 90000000 = Some (11500000, stamped_at 8000000, [98])"
  by (simp add: write_at_def is_trusted_def stamped_at_def lagging_writes_def)

theorem trusted_file_is_current_witness:
  "[98::nat] = [97] \<or> Some [97::nat] = Some [98] \<and> 11000000 \<le> st_mtime_ns (stamped_at 8000000) \<or>
   (11200000::int) < 11500000 \<and> (11500000::int) < 11000000 + 4000000"
  using trusted_file_is_current [of lagging_writes 11200000 90000000 8000000 "stamped_at 8000000" "[97]" 11500000
      "stamped_at 8000000" "[98]" "stamped_at 8000000" 4000000 "Some [97]" 11000000 id] lagging_stamp_is_trusted
  by (simp add: lagging_writes_def stamped_at_def)

end
