(* ===== verification/Watcher.thy ===== *)
theory Watcher
  imports Watch_Batch
begin

text \<open>
  \<open>packages/rust/src/watcher.rs\<close>: the notifications of the operating system as file events, and which
  directories are watched. The \<open>notify\<close> crate reports events and sets watches; \<open>walk\<close> is the scanner's
  walk of the directories below one.
\<close>

section \<open>Events\<close>

text \<open>\<open>notify::EventKind\<close>, as far as the code tells its values apart.\<close>

datatype event_kind =
  Kind_Create | Kind_Rename_From | Kind_Rename_Both | Kind_Rename_Other | Kind_Modify | Kind_Remove | Kind_Other

record notify_event =
  ne_kind :: event_kind
  ne_paths :: "rstr list"
  ne_need_rescan :: bool

fun translated :: "event_kind \<Rightarrow> rstr \<Rightarrow> file_event option" where
  "translated Kind_Create path = Some (Created path)"
| "translated Kind_Rename_From path = Some (Deleted path)"
| "translated Kind_Rename_Both path = None"
| "translated Kind_Rename_Other path = Some (Created path)"
| "translated Kind_Modify path = Some (Modified path)"
| "translated Kind_Remove path = Some (Deleted path)"
| "translated Kind_Other path = None"

definition translate_event :: "notify_event \<Rightarrow> file_event list" where
  "translate_event ev =
     List.map_filter (translated (ne_kind ev)) (ne_paths ev) @ (if ne_need_rescan ev then [Rescan] else [])"

section \<open>Errors\<close>

datatype notify_error_kind = Path_Not_Found | Io_Error "int option" bool | Max_Files_Watch | Other_Error

record notify_error =
  nt_kind :: notify_error_kind
  nt_text :: rstr

definition emfile :: int where
  "emfile = 24"

definition is_not_found :: "notify_error \<Rightarrow> bool" where
  "is_not_found e \<longleftrightarrow>
     (case nt_kind e of Path_Not_Found \<Rightarrow> True | Io_Error code not_found \<Rightarrow> not_found | _ \<Rightarrow> False)"

definition tolerate_missing :: "notify_error option \<Rightarrow> notify_error option" where
  "tolerate_missing r = (case r of Some e \<Rightarrow> if is_not_found e then None else Some e | None \<Rightarrow> None)"

definition describe_watch_error :: "notify_error \<Rightarrow> bool \<Rightarrow> rstr" where
  "describe_watch_error e inotify =
     (let advice = (\<lambda>limit key. nt_text e @ ascii ''; the '' @ ascii limit @
            ascii '' is likely exhausted: raise it with `sudo sysctl '' @ ascii key @ ascii ''=<higher value>`'') in
      if \<not> inotify then nt_text e
      else (case nt_kind e of
          Io_Error code not_found \<Rightarrow>
            if code = Some emfile then advice ''inotify instance limit'' ''fs.inotify.max_user_instances'' else nt_text e
        | Max_Files_Watch \<Rightarrow> advice ''inotify watch limit'' ''fs.inotify.max_user_watches''
        | _ \<Rightarrow> nt_text e))"

section \<open>Directories to watch\<close>

record watch_scope =
  ws_root :: rstr
  ws_ignore :: table_matcher

definition watch_scopes :: "anchor_group list \<Rightarrow> watch_scope list" where
  "watch_scopes groups = map (\<lambda>g. \<lparr>ws_root = ag_watch_anchor g, ws_ignore = ag_matcher g\<rparr>) groups"

definition dirs_to_watch ::
  "watch_scope list \<Rightarrow> rstr \<Rightarrow> (watch_scope \<Rightarrow> rstr \<Rightarrow> rstr list) \<Rightarrow> rstr list"
where
  "dirs_to_watch scopes dir walk =
     rev (remdups (rev (concat (map (\<lambda>s. walk s dir)
       (filter (\<lambda>s. case path_strip_prefix dir (ws_root s) of None \<Rightarrow> False | Some rel \<Rightarrow> reaches_dir rel (ws_ignore s))
         scopes)))))"

text \<open>
  The directories change while they are walked and watched, so what is done is kept as a log: each walk and
  each call that sets a watch, with what \<open>notify\<close> answered. The answers of both may depend on all that came
  before. \<open>tolerate\<close> is what the caller makes of an answer.
\<close>

datatype watch_action = Walked | Watched rstr "notify_error option"

type_synonym watch_log = "watch_action list"

text \<open>One round: each directory found is watched unless it was found before. A watch that fails ends it.
  \<open>watched\<close> is the code's set of the directories found, and \<open>found_new\<close> whether this round grew it.\<close>

fun watch_found ::
  "(watch_log \<Rightarrow> rstr \<Rightarrow> notify_error option) \<Rightarrow> (notify_error option \<Rightarrow> notify_error option) \<Rightarrow>
   rstr list \<Rightarrow> rstr set \<Rightarrow> watch_log \<Rightarrow> bool \<Rightarrow> (notify_error + bool) \<times> rstr set \<times> watch_log"
where
  "watch_found watch tolerate [] watched log found_new = (Inr found_new, watched, log)"
| "watch_found watch tolerate (d # ds) watched log found_new =
     (if d \<in> watched then watch_found watch tolerate ds watched log found_new
      else
        let answer = watch log d; log = log @ [Watched d answer] in
        (case tolerate answer of
          Some e \<Rightarrow> (Inl e, insert d watched, log)
        | None \<Rightarrow> watch_found watch tolerate ds (insert d watched) log True))"

text \<open>\<open>watch_tree\<close>: rounds until one finds nothing new.\<close>

partial_function (option) watch_tree ::
  "watch_scope list \<Rightarrow> rstr \<Rightarrow> (watch_log \<Rightarrow> watch_scope \<Rightarrow> rstr \<Rightarrow> rstr list) \<Rightarrow>
   (watch_log \<Rightarrow> rstr \<Rightarrow> notify_error option) \<Rightarrow> (notify_error option \<Rightarrow> notify_error option) \<Rightarrow>
   rstr set \<Rightarrow> watch_log \<Rightarrow> (notify_error option \<times> rstr set \<times> watch_log) option"
where
  "watch_tree scopes dir walk watch tolerate watched log =
     (case watch_found watch tolerate (dirs_to_watch scopes dir (walk log)) watched (log @ [Walked]) False of
        (Inl e, watched', log') \<Rightarrow> Some (Some e, watched', log')
      | (Inr found_new, watched', log') \<Rightarrow>
          if \<not> found_new then Some (None, watched', log')
          else watch_tree scopes dir walk watch tolerate watched' log')"

text \<open>A directory gone again before its watch lands is no error, and neither is any other failure.\<close>

definition watch_tree_quietly ::
  "watch_scope list \<Rightarrow> rstr \<Rightarrow> (watch_log \<Rightarrow> watch_scope \<Rightarrow> rstr \<Rightarrow> rstr list) \<Rightarrow>
   (watch_log \<Rightarrow> rstr \<Rightarrow> notify_error option) \<Rightarrow> watch_log \<Rightarrow> watch_log option"
where
  "watch_tree_quietly scopes dir walk watch log =
     map_option (\<lambda>(r, watched, log). log) (watch_tree scopes dir walk watch (\<lambda>answer. None) {} log)"

text \<open>\<open>Watcher::scoped\<close>: the roots first, then, where a watch covers one directory only, what is below each of them.\<close>

fun watch_roots ::
  "(watch_log \<Rightarrow> rstr \<Rightarrow> notify_error option) \<Rightarrow> watch_scope list \<Rightarrow> rstr set \<Rightarrow> watch_log \<Rightarrow>
   notify_error option \<times> rstr set \<times> watch_log"
where
  "watch_roots watch [] watched log = (None, watched, log)"
| "watch_roots watch (s # ss) watched log =
     (let answer = watch log (ws_root s); log = log @ [Watched (ws_root s) answer] in
      case answer of
        Some e \<Rightarrow> (Some e, watched, log)
      | None \<Rightarrow> watch_roots watch ss (insert (ws_root s) watched) log)"

fun watch_each_scope ::
  "watch_scope list \<Rightarrow> (watch_log \<Rightarrow> watch_scope \<Rightarrow> rstr \<Rightarrow> rstr list) \<Rightarrow> (watch_log \<Rightarrow> rstr \<Rightarrow> notify_error option) \<Rightarrow>
   watch_scope list \<Rightarrow> rstr set \<Rightarrow> watch_log \<Rightarrow> (notify_error option \<times> rstr set \<times> watch_log) option"
where
  "watch_each_scope scopes walk watch [] watched log = Some (None, watched, log)"
| "watch_each_scope scopes walk watch (s # ss) watched log =
     Option.bind (watch_tree scopes (ws_root s) walk watch tolerate_missing watched log) (\<lambda>(r, watched, log).
       (case r of
          Some e \<Rightarrow> Some (Some e, watched, log)
        | None \<Rightarrow> watch_each_scope scopes walk watch ss watched log))"

definition watcher_scoped ::
  "(watch_log \<Rightarrow> rstr \<Rightarrow> notify_error option) \<Rightarrow> (watch_log \<Rightarrow> watch_scope \<Rightarrow> rstr \<Rightarrow> rstr list) \<Rightarrow> bool \<Rightarrow>
   watch_scope list \<Rightarrow> (notify_error option \<times> rstr set \<times> watch_log) option"
where
  "watcher_scoped watch walk per_directory scopes =
     (case watch_roots watch scopes {} [] of
        (Some e, watched, log) \<Rightarrow> Some (Some e, watched, log)
      | (None, watched, log) \<Rightarrow>
          let scopes = (if per_directory then scopes else []) in
          watch_each_scope scopes walk watch scopes watched log)"

text \<open>What the forwarding thread does with a notification, in order.\<close>

datatype forward_action = Watch_Below rstr | Send file_event

definition forward_event ::
  "(rstr \<Rightarrow> bool) \<Rightarrow> bool \<Rightarrow> watch_scope list \<Rightarrow> notify_event \<Rightarrow> forward_action list"
where
  "forward_event is_real_dir per_directory scopes ev =
     concat (map (\<lambda>fe.
       (case fe of
          Created p \<Rightarrow> if is_real_dir p then [Watch_Below p] else []
        | Rescan \<Rightarrow> if per_directory then map (\<lambda>s. Watch_Below (ws_root s)) scopes else []
        | _ \<Rightarrow> []) @ [Send fe]) (translate_event ev))"

section \<open>What is watched in the end\<close>

text \<open>The watch of a directory landed as the p-th thing done.\<close>

definition landed_at :: "watch_log \<Rightarrow> rstr \<Rightarrow> nat \<Rightarrow> bool" where
  "landed_at log d p \<longleftrightarrow> p < length log \<and> log ! p = Watched d None"

lemma landed_at_append: "landed_at log d p \<Longrightarrow> landed_at (log @ later) d p"
  by (simp add: landed_at_def nth_append)

lemma landed_at_now: "landed_at (log @ [Watched d None]) d (length log)"
  by (simp add: landed_at_def)

text \<open>Each directory of \<open>P\<close> in the set has a watch.\<close>

definition kept :: "rstr set \<Rightarrow> rstr set \<Rightarrow> watch_log \<Rightarrow> bool" where
  "kept P watched log \<longleftrightarrow> (\<forall>d\<in>watched \<inter> P. \<exists>p. landed_at log d p)"

lemma kept_append: "kept P watched log \<Longrightarrow> kept P watched (log @ later)"
  by (auto simp: kept_def intro: landed_at_append)

lemma kept_insert: "kept P watched log \<Longrightarrow> (d \<in> P \<Longrightarrow> answer = None) \<Longrightarrow> kept P (insert d watched) (log @ [Watched d answer])"
  by (auto simp: kept_def intro: landed_at_append landed_at_now)

text \<open>A caller that passes over no failure of a directory of \<open>P\<close>.\<close>

definition strict_on ::
  "rstr set \<Rightarrow> (watch_log \<Rightarrow> rstr \<Rightarrow> notify_error option) \<Rightarrow> (notify_error option \<Rightarrow> notify_error option) \<Rightarrow> bool"
where
  "strict_on P watch tolerate \<longleftrightarrow> (\<forall>log d. d \<in> P \<longrightarrow> tolerate (watch log d) = None \<longrightarrow> watch log d = None)"

lemma watch_found_kept:
  "watch_found watch tolerate ds watched log new = (Inr new', watched', log') \<Longrightarrow>
   strict_on P watch tolerate \<Longrightarrow> kept P watched log \<Longrightarrow> kept P watched' log'"
  by (induction watch tolerate ds watched log new rule: watch_found.induct)
     (auto simp: Let_def strict_on_def split: if_splits option.splits intro!: kept_insert)

lemma watch_found_facts:
  "watch_found watch tolerate ds watched log new = (Inr new', watched', log') \<Longrightarrow>
   watched' = watched \<union> set ds \<and> (new' \<longleftrightarrow> new \<or> \<not> set ds \<subseteq> watched) \<and> (\<exists>later. log' = log @ later) \<and>
   (set ds \<subseteq> watched \<longrightarrow> log' = log)"
  by (induction watch tolerate ds watched log new rule: watch_found.induct)
     (force simp: Let_def split: if_splits option.splits)+

lemma watch_found_error:
  "watch_found watch tolerate ds watched log new = (Inl e, watched', log') \<Longrightarrow>
   \<exists>d\<in>set ds. \<exists>log. tolerate (watch log d) = Some e"
  by (induction watch tolerate ds watched log new rule: watch_found.induct)
     (auto simp: Let_def split: if_splits option.splits)

text \<open>What a run that ends without an error leaves: its last walk found nothing that was not watched
  before it began.\<close>

definition tree_watched ::
  "(watch_log \<Rightarrow> rstr set) \<Rightarrow> (watch_log \<Rightarrow> rstr \<Rightarrow> notify_error option) \<Rightarrow> (notify_error option \<Rightarrow> notify_error option) \<Rightarrow>
   rstr set \<Rightarrow> watch_log \<Rightarrow> rstr set \<Rightarrow> watch_log \<Rightarrow> bool"
where
  "tree_watched seen watch tolerate watched log watched' log' \<longleftrightarrow>
     watched \<subseteq> watched' \<and> (\<exists>later. log' = log @ later) \<and>
     (\<exists>before. log' = before @ [Walked] \<and> seen before \<subseteq> watched' \<and>
       (\<forall>P. strict_on P watch tolerate \<longrightarrow> kept P watched log \<longrightarrow> kept P watched' before))"

lemma tree_watched_before:
  assumes "tree_watched seen watch tolerate watched1 log1 watched2 log2" "watched \<subseteq> watched1" "log1 = log @ later"
    "\<And>P. strict_on P watch tolerate \<Longrightarrow> kept P watched log \<Longrightarrow> kept P watched1 log1"
  shows "tree_watched seen watch tolerate watched log watched2 log2"
proof -
  obtain before where "log2 = before @ [Walked]" "seen before \<subseteq> watched2"
    "\<And>P. strict_on P watch tolerate \<Longrightarrow> kept P watched1 log1 \<Longrightarrow> kept P watched2 before"
    using assms(1) by (auto simp: tree_watched_def)
  moreover have "watched \<subseteq> watched2" "\<exists>later. log2 = log @ later"
    using assms(1-3) by (auto simp: tree_watched_def)
  ultimately show ?thesis using assms(4) unfolding tree_watched_def by blast
qed

text \<open>While there are only so many directories to find, the rounds end.\<close>

lemma watch_tree_ends:
  assumes "finite U" "\<And>log. set (dirs_to_watch scopes dir (walk log)) \<subseteq> U"
  shows "\<exists>r watched' log'. watch_tree scopes dir walk watch tolerate watched log = Some (r, watched', log') \<and>
    (r = None \<longrightarrow>
      tree_watched (\<lambda>log. set (dirs_to_watch scopes dir (walk log))) watch tolerate watched log watched' log')"
proof (induction "card (U - watched)" arbitrary: watched log rule: less_induct)
  case less
  let ?dirs = "dirs_to_watch scopes dir (walk log)"
  obtain r watched' log' where
    r: "watch_found watch tolerate ?dirs watched (log @ [Walked]) False = (r, watched', log')"
    by (metis prod_cases3)
  show ?case
  proof (cases r)
    case (Inl e)
    then show ?thesis using r by (subst watch_tree.simps) simp
  next
    case (Inr new)
    note f = watch_found_facts [OF r [unfolded Inr]]
    show ?thesis
    proof (cases new)
      case False
      then have "watched' = watched" using f by auto
      then show ?thesis using r Inr f False by (subst watch_tree.simps) (auto simp: tree_watched_def)
    next
      case True
      then have "U - watched' \<subset> U - watched" using f assms(2) [of log] by blast
      then have "card (U - watched') < card (U - watched)" using assms(1) by (simp add: psubset_card_mono)
      note ih = less [OF this, of log']
      obtain later where log': "log' = (log @ [Walked]) @ later" using f by auto
      have keep: "strict_on P watch tolerate \<Longrightarrow> kept P watched log \<Longrightarrow> kept P watched' log'" for P
        by (rule watch_found_kept [OF r [unfolded Inr]]) (simp_all add: kept_append)
      have "watched \<subseteq> watched'" using f by blast
      from tree_watched_before [OF _ this _ keep] ih log' show ?thesis
        using r Inr True by (subst watch_tree.simps) fastforce
    qed
  qed
qed

section \<open>Properties\<close>

text \<open>Down a path of directories each inside the one before: all of it is seen by the last walk, or somewhere a
  directory was made after that walk began.\<close>

lemma seen_or_born_late:
  assumes "root \<in> seen"
    and listed: "\<And>d. d \<noteq> root \<Longrightarrow> d \<in> inside \<Longrightarrow> outer d \<in> seen \<Longrightarrow> born d \<le> now \<Longrightarrow> d \<in> seen"
    and path: "path = [] \<or> hd path = root" "set (tl path) \<subseteq> inside - {root}" "\<forall>i. Suc i < length path \<longrightarrow> outer (path ! Suc i) = path ! i"
  shows "m \<le> length path \<Longrightarrow> set (take m path) \<subseteq> seen \<or>
    (\<exists>i. Suc i < m \<and> set (take (Suc i) path) \<subseteq> seen \<and> now < (born (path ! Suc i) :: nat))"
proof (induction m)
  case (Suc m)
  then have m: "m < length path" by simp
  then have take: "set (take (Suc m) path) = insert (path ! m) (set (take m path))" by (simp add: take_Suc_conv_app_nth)
  consider (seen) "set (take m path) \<subseteq> seen"
    | (gap) i where "Suc i < m" "set (take (Suc i) path) \<subseteq> seen" "now < born (path ! Suc i)"
    using Suc by auto
  then show ?case
  proof cases
    case seen
    show ?thesis
    proof (cases m)
      case 0
      then have "path ! m = root" using path(1) m by (cases path) auto
      then show ?thesis using assms(1) seen unfolding take by simp
    next
      case (Suc i)
      have i: "path ! i \<in> seen" using seen m unfolding Suc by (auto simp: take_Suc_conv_app_nth)
      have up: "outer (path ! m) = path ! i" using path(3) m Suc by simp
      have "path ! m \<in> set (tl path)" using m Suc by (cases path) auto
      then have d: "path ! m \<in> inside" "path ! m \<noteq> root" using path(2) by auto
      show ?thesis
      proof (cases "born (path ! m) \<le> now")
        case True
        then have "path ! m \<in> seen" using listed [OF d(2,1)] i up by simp
        then show ?thesis using seen unfolding take by simp
      next
        case False
        then show ?thesis using seen Suc by (intro disjI2 exI [of _ i]) auto
      qed
    qed
  next
    case gap
    then show ?thesis by (intro disjI2 exI [of _ i]) auto
  qed
qed simp

text \<open>What the log shows of such a path: watches landed all the way down, or down to a directory in which the next
  one was made after its watch landed.\<close>

definition path_covered :: "watch_log \<Rightarrow> (rstr \<Rightarrow> nat) \<Rightarrow> rstr list \<Rightarrow> bool" where
  "path_covered log born path \<longleftrightarrow>
     (\<forall>d\<in>set path. \<exists>p. landed_at log d p) \<or>
     (\<exists>i. Suc i < length path \<and> (\<forall>d\<in>set (take (Suc i) path). \<exists>p. landed_at log d p) \<and>
       (\<exists>p < born (path ! Suc i). landed_at log (path ! i) p))"

lemma path_coveredI:
  assumes seen: "seen \<subseteq> watched" "kept (set path) watched before"
    and last_walk: "set (take (length path) path) \<subseteq> seen \<or>
      (\<exists>i. Suc i < length path \<and> set (take (Suc i) path) \<subseteq> seen \<and> length before < born (path ! Suc i))"
  shows "path_covered (before @ later) born path"
proof -
  have here: "\<exists>p < length before. landed_at (before @ later) d p" if d: "d \<in> seen" "d \<in> set path" for d
  proof -
    obtain p where p: "landed_at before d p" using seen d by (auto simp: kept_def)
    then have "p < length before" by (simp add: landed_at_def)
    with landed_at_append [OF p] show ?thesis by blast
  qed
  from last_walk consider "set path \<subseteq> seen"
    | i where "Suc i < length path" "set (take (Suc i) path) \<subseteq> seen" "length before < born (path ! Suc i)"
    by auto
  then show ?thesis
  proof cases
    case 1
    then show ?thesis using here unfolding path_covered_def by blast
  next
    case 2
    have sub: "set (take (Suc i) path) \<subseteq> set path" by (rule set_take_subset)
    have "path ! i \<in> set (take (Suc i) path)" using 2(1) by (simp add: take_Suc_conv_app_nth)
    then obtain p where "p < length before" "landed_at (before @ later) (path ! i) p" using here 2(2) sub by blast
    then have "\<exists>p < born (path ! Suc i). landed_at (before @ later) (path ! i) p" using 2(3) by (blast intro: less_trans)
    moreover have "\<forall>d\<in>set (take (Suc i) path). \<exists>p. landed_at (before @ later) d p" using here 2(2) sub by blast
    ultimately show ?thesis using 2(1) unfolding path_covered_def by blast
  qed
qed

text \<open>C37: no directory slips between the walks and the watches. Directories appear while the tree is being
  watched: \<open>born d\<close> is how many walks and watch calls were done before \<open>d\<close> was there. A walk finds its
  root, and in each directory it finds those that were there before it began. As long as there are only so many
  directories, \<open>watch_tree\<close> returns. If it returns without an error, and no watch of a directory on the path
  failed and was passed over, then a path down from the root is covered: a watch landed for every
  directory of it, or watches landed for all down to some directory, and the next was made after that one's watch
  landed, so that an event reports it.\<close>

theorem watch_tree_misses_none:
  assumes "finite U" "\<forall>log. set (dirs_to_watch scopes root (walk log)) \<subseteq> U"
    "\<forall>log. root \<in> set (dirs_to_watch scopes root (walk log))"
    "\<forall>log d. d \<noteq> root \<longrightarrow> d \<in> inside \<longrightarrow> outer d \<in> set (dirs_to_watch scopes root (walk log)) \<longrightarrow>
       born d \<le> length log \<longrightarrow> d \<in> set (dirs_to_watch scopes root (walk log))"
    "path = [] \<or> hd path = root" "set (tl path) \<subseteq> inside - {root}" "\<forall>i. Suc i < length path \<longrightarrow> outer (path ! Suc i) = path ! i"
    "strict_on (set path) watch tolerate" "kept (set path) watched log"
  shows "\<exists>r watched' log'. watch_tree scopes root walk watch tolerate watched log = Some (r, watched', log') \<and>
    (r = None \<longrightarrow> path_covered log' born path)"
proof -
  obtain r watched' log' where run: "watch_tree scopes root walk watch tolerate watched log = Some (r, watched', log')"
    and done_at: "r = None \<Longrightarrow>
      tree_watched (\<lambda>log. set (dirs_to_watch scopes root (walk log))) watch tolerate watched log watched' log'"
    using watch_tree_ends [OF assms(1), of scopes root walk watch tolerate watched log] assms(2) by blast
  have ends: "path_covered log' born path" if none: "r = None"
  proof -
    obtain before where before: "log' = before @ [Walked]"
      "set (dirs_to_watch scopes root (walk before)) \<subseteq> watched'" "kept (set path) watched' before"
      using done_at [OF none] assms(8,9) unfolding tree_watched_def by blast
    show ?thesis unfolding before(1)
      by (rule path_coveredI [OF before(2,3)], rule seen_or_born_late [OF assms(3)[rule_format] _ assms(5-7)])
        (use assms(4) in blast, simp)
  qed
  show ?thesis
    by (rule exI [of _ r], rule exI [of _ watched'], rule exI [of _ log'], rule conjI [OF run], rule impI, erule ends)
qed

text \<open>\<open>Watcher::scoped\<close> over all its scopes.\<close>

definition tree_finite ::
  "watch_scope list \<Rightarrow> rstr \<Rightarrow> (watch_log \<Rightarrow> watch_scope \<Rightarrow> rstr \<Rightarrow> rstr list) \<Rightarrow> bool"
where
  "tree_finite scopes root walk \<longleftrightarrow> (\<exists>U. finite U \<and> (\<forall>log. set (dirs_to_watch scopes root (walk log)) \<subseteq> U))"

lemma watch_each_scope_watches:
  assumes "strict_on P watch tolerate_missing"
  shows "\<lbrakk>\<forall>s\<in>set ss. tree_finite scopes (ws_root s) walk; kept P watched log\<rbrakk> \<Longrightarrow>
    \<exists>r watched' log'. watch_each_scope scopes walk watch ss watched log = Some (r, watched', log') \<and>
      (r = None \<longrightarrow> (\<exists>later. log' = log @ later) \<and>
        (\<forall>s\<in>set ss. \<exists>before later w. log' = before @ later \<and>
          set (dirs_to_watch scopes (ws_root s) (walk before)) \<subseteq> w \<and> kept P w before))"
proof (induction ss arbitrary: watched log)
  case (Cons s ss)
  let ?seen = "\<lambda>s log. set (dirs_to_watch scopes (ws_root s) (walk log))"
  obtain U where U: "finite U" "\<And>log. ?seen s log \<subseteq> U" using Cons.prems(1) by (auto simp: tree_finite_def)
  from watch_tree_ends [of U scopes "ws_root s" walk watch tolerate_missing watched log, OF U]
  obtain r1 w1 l1 where
    run: "watch_tree scopes (ws_root s) walk watch tolerate_missing watched log = Some (r1, w1, l1)"
    and tree: "r1 = None \<Longrightarrow> tree_watched (?seen s) watch tolerate_missing watched log w1 l1"
    by blast
  show ?case
  proof (cases r1)
    case (Some e)
    then show ?thesis using run by simp
  next
    case None
    obtain before later where before: "l1 = before @ [Walked]" "?seen s before \<subseteq> w1" "kept P w1 before" "l1 = log @ later"
      using tree [OF None] assms Cons.prems(2) unfolding tree_watched_def by blast
    have "kept P w1 l1" using before(1,3) by (simp add: kept_append)
    then obtain r watched' log' where rest: "watch_each_scope scopes walk watch ss w1 l1 = Some (r, watched', log')"
      and ih: "r = None \<longrightarrow> (\<exists>later. log' = l1 @ later) \<and>
        (\<forall>s\<in>set ss. \<exists>before later w. log' = before @ later \<and> ?seen s before \<subseteq> w \<and> kept P w before)"
      using Cons.IH [of w1 l1] Cons.prems(1) by auto
    have "\<exists>before later w. log' = before @ later \<and> ?seen s before \<subseteq> w \<and> kept P w before" if none: "r = None"
    proof -
      obtain later' where "log' = before @ [Walked] @ later'" using ih none before(1) by auto
      then show ?thesis using before(2,3) by blast
    qed
    moreover have "\<exists>later. log' = log @ later" if "r = None" using ih that before(4) by auto
    moreover have "watch_each_scope scopes walk watch (s # ss) watched log = Some (r, watched', log')"
      using run rest None by simp
    ultimately show ?thesis using ih by auto
  qed
qed simp

lemma watch_roots_kept:
  "watch_roots watch ss watched log = (None, watched', log') \<Longrightarrow> kept P watched log \<Longrightarrow> kept P watched' log'"
  by (induction watch ss watched log rule: watch_roots.induct)
     (auto simp: Let_def split: option.splits intro!: kept_insert)

text \<open>C38: where a watch covers one directory only, \<open>Watcher::scoped\<close> returns as long as there are only
  so many directories, and if no watch failed (a directory gone before its watch lands is passed over)
  then no directory slips through below any of its scopes: every path down from a scope's root, through
  directories that stay, is covered by the watches that landed, or a directory on it was made after
  the watch of its parent landed. The walks and the directories made are those of
  \<open>watch_tree_misses_none\<close>; a walk made for one scope finds what overlapping scopes admit too.\<close>

theorem watcher_scoped_misses_none:
  assumes "\<forall>s\<in>set scopes. tree_finite scopes (ws_root s) walk" "s \<in> set scopes"
    "\<forall>log. ws_root s \<in> set (dirs_to_watch scopes (ws_root s) (walk log))"
    "\<forall>log d. d \<noteq> ws_root s \<longrightarrow> d \<in> inside \<longrightarrow> outer d \<in> set (dirs_to_watch scopes (ws_root s) (walk log)) \<longrightarrow>
       born d \<le> length log \<longrightarrow> d \<in> set (dirs_to_watch scopes (ws_root s) (walk log))"
    "path = [] \<or> hd path = ws_root s" "set (tl path) \<subseteq> inside - {ws_root s}"
    "\<forall>i. Suc i < length path \<longrightarrow> outer (path ! Suc i) = path ! i"
    "\<forall>log d e. d \<in> set path \<longrightarrow> watch log d = Some e \<longrightarrow> \<not> is_not_found e"
  shows "\<exists>r watched log. watcher_scoped watch walk True scopes = Some (r, watched, log) \<and>
    (r = None \<longrightarrow> path_covered log born path)"
proof -
  have strict: "strict_on (set path) watch tolerate_missing"
    using assms(8) by (force simp: strict_on_def tolerate_missing_def split: option.splits if_splits)
  obtain r0 w0 l0 where roots: "watch_roots watch scopes {} [] = (r0, w0, l0)" by (metis prod_cases3)
  show ?thesis
  proof (cases r0)
    case (Some e)
    then show ?thesis using roots by (simp add: watcher_scoped_def)
  next
    case None
    have "kept (set path) w0 l0" by (rule watch_roots_kept [OF roots [unfolded None]]) (simp add: kept_def)
    from watch_each_scope_watches [OF strict assms(1) this] obtain r w log where
      run: "watch_each_scope scopes walk watch scopes w0 l0 = Some (r, w, log)"
      and done_at: "r = None \<Longrightarrow> \<exists>before later w. log = before @ later \<and>
        set (dirs_to_watch scopes (ws_root s) (walk before)) \<subseteq> w \<and> kept (set path) w before"
      using assms(2) by blast
    have ends: "path_covered log born path" if none: "r = None"
    proof -
      obtain before later w' where before: "log = before @ later"
        "set (dirs_to_watch scopes (ws_root s) (walk before)) \<subseteq> w'" "kept (set path) w' before"
        using done_at [OF none] by blast
      show ?thesis unfolding before(1)
        by (rule path_coveredI [OF before(2,3)], rule seen_or_born_late [OF assms(3)[rule_format] _ assms(5-7)])
          (use assms(4) in blast, simp)
    qed
    have "watcher_scoped watch walk True scopes = Some (r, w, log)"
      using roots run None by (simp add: watcher_scoped_def)
    then show ?thesis
      by (rule_tac exI [of _ r], rule_tac exI [of _ w], rule_tac exI [of _ log], intro conjI impI ends)
  qed
qed

text \<open>A directory made between the first walk and the watch that follows it.\<close>

definition small_root :: rstr where
  "small_root = ascii ''/r''"

definition small_made :: rstr where
  "small_made = ascii ''/r/a''"

definition small_scope :: watch_scope where
  "small_scope = \<lparr>ws_root = small_root,
     ws_ignore = \<lparr>tm_entries = [], tm_ignore_set = [], tm_ignore_dir_set = [], tm_gitignore = False,
       tm_walk = \<lparr>pg_files = [], pg_components = [], pg_starts = [], pg_ends = [], pg_spells_relative = False, pg_named = []\<rparr>\<rparr>\<rparr>"

definition small_walk :: "watch_log \<Rightarrow> watch_scope \<Rightarrow> rstr \<Rightarrow> rstr list" where
  "small_walk log s dir = (if log = [] then [small_root] else [small_root, small_made])"

lemma small_dirs: "set (dirs_to_watch [small_scope] small_root (small_walk log)) =
    (if log = [] then {small_root} else {small_root, small_made})"
proof -
  have "path_strip_prefix small_root small_root = Some []" by code_simp
  moreover have "reaches_dir [] (ws_ignore small_scope)" by (simp add: reaches_dir_def path_components_def)
  ultimately show ?thesis by (simp add: dirs_to_watch_def small_walk_def) (simp add: small_scope_def)
qed

theorem watch_tree_misses_none_witness:
  "\<exists>r watched log. watch_tree [small_scope] small_root small_walk (\<lambda>log d. None) (\<lambda>answer. None) {} [] = Some (r, watched, log) \<and>
    (r = None \<longrightarrow> path_covered log (\<lambda>d. 1) [small_root, small_made])"
proof (rule watch_tree_misses_none [where U = "{small_root, small_made}" and inside = "{small_made}"
    and outer = "\<lambda>d. small_root"])
  have ne: "small_root \<noteq> small_made" by code_simp
  show "finite {small_root, small_made}" by simp
  show "\<forall>log. set (dirs_to_watch [small_scope] small_root (small_walk log)) \<subseteq> {small_root, small_made}"
    by (simp add: small_dirs)
  show "\<forall>log. small_root \<in> set (dirs_to_watch [small_scope] small_root (small_walk log))" by (simp add: small_dirs)
  show "\<forall>log d. d \<noteq> small_root \<longrightarrow> d \<in> {small_made} \<longrightarrow>
      small_root \<in> set (dirs_to_watch [small_scope] small_root (small_walk log)) \<longrightarrow> 1 \<le> length log \<longrightarrow>
      d \<in> set (dirs_to_watch [small_scope] small_root (small_walk log))"
    by (auto simp: small_dirs)
  show "[small_root, small_made] = [] \<or> hd [small_root, small_made] = small_root" by simp
  show "set (tl [small_root, small_made]) \<subseteq> {small_made} - {small_root}" using ne by simp
  show "\<forall>i. Suc i < length [small_root, small_made] \<longrightarrow> small_root = [small_root, small_made] ! i" by simp
  show "strict_on (set [small_root, small_made]) (\<lambda>log d. None) (\<lambda>answer. None)" by (simp add: strict_on_def)
  show "kept (set [small_root, small_made]) {} []" by (simp add: kept_def)
qed

theorem watcher_scoped_misses_none_witness:
  "\<exists>r watched log. watcher_scoped (\<lambda>log d. None) small_walk True [small_scope] = Some (r, watched, log) \<and>
    (r = None \<longrightarrow> path_covered log (\<lambda>d. 1) [small_root, small_made])"
proof (rule watcher_scoped_misses_none [where s = small_scope and inside = "{small_made}" and outer = "\<lambda>d. small_root"])
  have ne: "small_root \<noteq> small_made" by code_simp
  have root: "ws_root small_scope = small_root" by (simp add: small_scope_def)
  show "\<forall>s\<in>set [small_scope]. tree_finite [small_scope] (ws_root s) small_walk"
    by (auto simp: tree_finite_def root small_dirs intro!: exI [of _ "{small_root, small_made}"])
  show "small_scope \<in> set [small_scope]" by simp
  show "\<forall>log. ws_root small_scope \<in> set (dirs_to_watch [small_scope] (ws_root small_scope) (small_walk log))"
    by (simp add: root small_dirs)
  show "\<forall>log d. d \<noteq> ws_root small_scope \<longrightarrow> d \<in> {small_made} \<longrightarrow>
      small_root \<in> set (dirs_to_watch [small_scope] (ws_root small_scope) (small_walk log)) \<longrightarrow> 1 \<le> length log \<longrightarrow>
      d \<in> set (dirs_to_watch [small_scope] (ws_root small_scope) (small_walk log))"
    by (auto simp: root small_dirs)
  show "[small_root, small_made] = [] \<or> hd [small_root, small_made] = ws_root small_scope" by (simp add: root)
  show "set (tl [small_root, small_made]) \<subseteq> {small_made} - {ws_root small_scope}" using ne by (simp add: root)
  show "\<forall>i. Suc i < length [small_root, small_made] \<longrightarrow> small_root = [small_root, small_made] ! i" by simp
  show "\<forall>log d e. d \<in> set [small_root, small_made] \<longrightarrow> None = Some e \<longrightarrow> \<not> is_not_found e" by simp
qed

end
