(* ===== verification/Worker.thy ===== *)
theory Worker
  imports Row_Value
begin

text \<open>
  \<open>packages/rust/src/functions.rs\<close>, and \<open>query_ordered_with\<close> of \<open>db.rs\<close>: SQL functions answered by
  worker processes. A worker is asked one call at a time or, when it batches, many in one request: a
  first run of the statement, its collect pass, gathers the calls, and a second is served from the
  replies. The worker process, serde_json and base64 are parameters, and so is SQLite: a statement is
  the calls it makes, each depending on the replies to those before it.
\<close>

section \<open>The wire\<close>

datatype wire =
  W_Null | W_Bool bool | W_Int int | W_Float f64 | W_String rstr | W_Array "wire list" | W_Object "(rstr \<times> wire) list"

record wire_lib =
  wl_text :: "wire \<Rightarrow> rstr"
  wl_parse :: "rstr \<Rightarrow> rstr + wire"
  wl_encode :: "8 word list \<Rightarrow> rstr"
  wl_decode :: "rstr \<Rightarrow> 8 word list option"
  wl_duration :: "nat \<Rightarrow> rstr"

text \<open>\<open>Map::get\<close>.\<close>

definition wire_get :: "(rstr \<times> wire) list \<Rightarrow> rstr \<Rightarrow> wire option" where
  "wire_get = map_of"

definition f64_is_finite :: "f64 \<Rightarrow> bool" where
  "f64_is_finite x \<longleftrightarrow> f64_magnitude x < 0x7FF0000000000000"

definition bytes_key :: rstr where
  "bytes_key = ascii ''$bytes''"

fun value_to_wire :: "wire_lib \<Rightarrow> sql_value \<Rightarrow> wire" where
  "value_to_wire lib Null = W_Null"
| "value_to_wire lib (Integer i) = W_Int i"
| "value_to_wire lib (Real x) = (if f64_is_finite x then W_Float x else W_Null)"
| "value_to_wire lib (Text s) = W_String s"
| "value_to_wire lib (Blob bs) = W_Object [(bytes_key, W_String (wl_encode lib bs))]"

definition encode_args :: "wire_lib \<Rightarrow> sql_value list \<Rightarrow> wire list" where
  "encode_args lib args = map (value_to_wire lib) args"

definition request_line :: "wire_lib \<Rightarrow> sql_value list \<Rightarrow> rstr" where
  "request_line lib args = wl_text lib (W_Object [(ascii ''call'', W_Array (encode_args lib args))])"

definition batched_request_line :: "wire_lib \<Rightarrow> sql_value list list \<Rightarrow> rstr" where
  "batched_request_line lib calls =
     wl_text lib (W_Object [(ascii ''calls'', W_Array (map (\<lambda>args. W_Array (encode_args lib args)) calls))])"

record reply =
  rp_value :: sql_value
  rp_cached :: bool

datatype response = Ok_Response sql_value bool | Err_Response rstr

definition cached_flag :: "(rstr \<times> wire) list \<Rightarrow> bool" where
  "cached_flag members =
     (case wire_get members (ascii ''meta'') of
        Some (W_Object meta) \<Rightarrow> wire_get meta (ascii ''cached'') = Some (W_Bool True)
      | _ \<Rightarrow> False)"

fun wire_to_value :: "wire_lib \<Rightarrow> wire \<Rightarrow> rstr + sql_value" where
  "wire_to_value lib W_Null = Inr Null"
| "wire_to_value lib (W_Bool b) = Inr (Integer (if b then 1 else 0))"
| "wire_to_value lib (W_Int i) = Inr (Integer i)"
| "wire_to_value lib (W_Float x) = Inr (Real x)"
| "wire_to_value lib (W_String s) = Inr (Text s)"
| "wire_to_value lib (W_Object members) =
     (case members of
        [(k, v)] \<Rightarrow>
          if k \<noteq> bytes_key then Inr (Text (wl_text lib (W_Object members)))
          else (case v of
              W_String s \<Rightarrow>
                (case wl_decode lib s of
                   Some bs \<Rightarrow> Inr (Blob bs)
                 | None \<Rightarrow> Inl (ascii ''\"$bytes\" is not valid base64''))
            | _ \<Rightarrow> Inl (ascii ''\"$bytes\" must be a base64 string''))
      | _ \<Rightarrow> Inr (Text (wl_text lib (W_Object members))))"
| "wire_to_value lib (W_Array xs) = Inr (Text (wl_text lib (W_Array xs)))"

definition parse_response_value :: "wire_lib \<Rightarrow> wire \<Rightarrow> rstr + response" where
  "parse_response_value lib parsed =
     (case parsed of
        W_Object members \<Rightarrow>
          (case wire_get members (ascii ''err'') of
             Some (W_String message) \<Rightarrow> Inr (Err_Response message)
           | Some _ \<Rightarrow> Inl (ascii ''\"err\" must be a string'')
           | None \<Rightarrow>
               (case wire_get members (ascii ''ok'') of
                  None \<Rightarrow> Inl (ascii ''expected an \"ok\" or \"err\" key'')
                | Some v \<Rightarrow>
                    (case wire_to_value lib v of
                       Inl e \<Rightarrow> Inl e
                     | Inr x \<Rightarrow> Inr (Ok_Response x (cached_flag members)))))
      | _ \<Rightarrow> Inl (ascii ''expected a JSON object''))"

definition parse_line :: "wire_lib \<Rightarrow> rstr \<Rightarrow> rstr + wire" where
  "parse_line lib line =
     (case wl_parse lib line of Inl e \<Rightarrow> Inl (ascii ''invalid JSON: '' @ e) | Inr w \<Rightarrow> Inr w)"

definition parse_response :: "wire_lib \<Rightarrow> rstr \<Rightarrow> rstr + response" where
  "parse_response lib line =
     (case parse_line lib line of Inl e \<Rightarrow> Inl e | Inr w \<Rightarrow> parse_response_value lib w)"

fun parse_entries :: "wire_lib \<Rightarrow> nat \<Rightarrow> wire list \<Rightarrow> rstr + response list" where
  "parse_entries lib i [] = Inr []"
| "parse_entries lib i (w # ws) =
     (case parse_response_value lib w of
        Inl e \<Rightarrow> Inl (ascii ''result '' @ show_nat i @ ascii '': '' @ e)
      | Inr r \<Rightarrow>
          (case parse_entries lib (Suc i) ws of Inl e \<Rightarrow> Inl e | Inr rs \<Rightarrow> Inr (r # rs)))"

definition parse_batched_response :: "wire_lib \<Rightarrow> rstr \<Rightarrow> nat \<Rightarrow> rstr + response list" where
  "parse_batched_response lib line expected =
     (case parse_line lib line of
        Inl e \<Rightarrow> Inl e
      | Inr (W_Object members) \<Rightarrow>
          (case wire_get members (ascii ''err'') of
             Some (W_String message) \<Rightarrow> Inr (replicate expected (Err_Response message))
           | Some _ \<Rightarrow> Inl (ascii ''\"err\" must be a string'')
           | None \<Rightarrow>
               (case wire_get members (ascii ''results'') of
                  Some (W_Array results) \<Rightarrow>
                    if length results \<noteq> expected
                    then Inl (ascii ''expected '' @ show_nat expected @ ascii '' results, got '' @ show_nat (length results))
                    else parse_entries lib 0 results
                | _ \<Rightarrow> Inl (ascii ''expected a \"results\" array or an \"err\" key'')))
      | Inr _ \<Rightarrow> Inl (ascii ''expected a JSON object''))"

section \<open>The worker\<close>

datatype transport_error = Timed_Out | Closed

text \<open>The process of a worker, in the world \<open>'w\<close>: starting it, a line to it, a line from it within so
  many nanoseconds, killing it.\<close>

record 'w process =
  pr_spawn :: "'w \<Rightarrow> (rstr + unit) \<times> 'w"
  pr_send :: "rstr \<Rightarrow> 'w \<Rightarrow> bool \<times> 'w"
  pr_recv :: "nat \<Rightarrow> 'w \<Rightarrow> (transport_error + rstr) \<times> 'w"
  pr_kill :: "'w \<Rightarrow> 'w"

record 'w worker =
  wk_name :: rstr
  wk_command :: rstr
  wk_timeout :: nat
  wk_batch :: "nat option"
  wk_process :: "'w process"

record collect =
  co_invoked :: bool
  co_placeholder :: "sql_value option"
  co_pending :: "sql_value list list"
  co_queued :: "rstr set"

definition collect_default :: collect where
  "collect_default = \<lparr>co_invoked = False, co_placeholder = None, co_pending = [], co_queued = {}\<rparr>"

record worker_inner =
  wi_running :: bool
  wi_collect :: "collect option"
  wi_prefetched :: "rstr \<rightharpoonup> rstr + reply"

text \<open>What all workers share: the world, and the round trips counted and those answered from a cache.\<close>

record 'w shared =
  sh_world :: 'w
  sh_count :: nat
  sh_cached :: nat

definition record_call :: "'w shared \<Rightarrow> 'w shared" where
  "record_call sh = sh\<lparr>sh_count := sh_count sh + 1\<rparr>"

definition mark_cached :: "bool \<Rightarrow> 'w shared \<Rightarrow> 'w shared" where
  "mark_cached cached sh = (if cached then sh\<lparr>sh_cached := sh_cached sh + 1\<rparr> else sh)"

text \<open>A \<open>Duration\<close> is so many nanoseconds and multiplies without overflowing.\<close>

definition duration_max :: nat where
  "duration_max = (2 ^ 64 - 1) * 1000000000 + 999999999"

definition saturating_mul :: "nat \<Rightarrow> nat \<Rightarrow> nat" where
  "saturating_mul d n = min (d * n) duration_max"

definition called_as :: "'w worker \<Rightarrow> rstr" where
  "called_as wk = ascii '' function `'' @ wk_name wk @ ascii ''` (command `'' @ wk_command wk @ ascii ''`)''"

definition dash :: rstr where
  "dash = [32, 8212, 32]"

definition spawn_error :: "'w worker \<Rightarrow> rstr \<Rightarrow> rstr" where
  "spawn_error wk e = ascii ''failed to start worker for'' @ called_as wk @ ascii '': '' @ e"

definition send_error :: "'w worker \<Rightarrow> rstr" where
  "send_error wk = ascii ''worker for'' @ called_as wk @ ascii '' is not accepting requests; it may have exited'' @ dash @
     ascii ''check its stderr above''"

definition closed_error :: "'w worker \<Rightarrow> rstr" where
  "closed_error wk = ascii ''worker for'' @ called_as wk @ ascii '' exited before replying'' @ dash @ ascii ''check its stderr above''"

definition timeout_error :: "wire_lib \<Rightarrow> 'w worker \<Rightarrow> nat \<Rightarrow> nat \<Rightarrow> rstr" where
  "timeout_error lib wk timeout count =
     ascii ''call to function `'' @ wk_name wk @ ascii ''` timed out after '' @ wl_duration lib timeout @
     (if count = 1 then []
      else ascii '' ('' @ show_nat count @ ascii '' calls at '' @ wl_duration lib (wk_timeout wk) @ ascii '' each)'') @
     ascii '' (worker command `'' @ wk_command wk @ ascii ''`); raise the function's `timeout` if the worker '' @
     ascii ''legitimately needs longer per call''"

text \<open>\<open>exchange\<close>: one request and the line that answers it. A transport that fails is dropped, which
  kills the process.\<close>

definition converse_with ::
  "wire_lib \<Rightarrow> 'w worker \<Rightarrow> rstr \<Rightarrow> nat \<Rightarrow> nat \<Rightarrow> 'w \<Rightarrow> (rstr + rstr) \<times> bool \<times> 'w"
where
  "converse_with lib wk request timeout count w =
     (case pr_send (wk_process wk) request w of
        (False, w) \<Rightarrow> (Inl (send_error wk), False, pr_kill (wk_process wk) w)
      | (True, w) \<Rightarrow>
          (case pr_recv (wk_process wk) timeout w of
             (Inr line, w) \<Rightarrow> (Inr line, True, w)
           | (Inl Timed_Out, w) \<Rightarrow> (Inl (timeout_error lib wk timeout count), False, pr_kill (wk_process wk) w)
           | (Inl Closed, w) \<Rightarrow> (Inl (closed_error wk), False, pr_kill (wk_process wk) w)))"

definition exchange ::
  "wire_lib \<Rightarrow> 'w worker \<Rightarrow> rstr \<Rightarrow> nat \<Rightarrow> nat \<Rightarrow> worker_inner \<Rightarrow> 'w shared \<Rightarrow>
   (rstr + rstr) \<times> worker_inner \<times> 'w shared"
where
  "exchange lib wk request timeout count wi sh =
     (let sent = (\<lambda>w. case converse_with lib wk request timeout count w of
            (r, running, w) \<Rightarrow> (r, wi\<lparr>wi_running := running\<rparr>, sh\<lparr>sh_world := w\<rparr>)) in
      if wi_running wi then sent (sh_world sh)
      else (case pr_spawn (wk_process wk) (sh_world sh) of
          (Inl e, w) \<Rightarrow> (Inl (spawn_error wk e), wi, sh\<lparr>sh_world := w\<rparr>)
        | (Inr _, w) \<Rightarrow> sent w))"

definition reply_of :: "response \<Rightarrow> rstr + reply" where
  "reply_of r =
     (case r of
        Ok_Response v cached \<Rightarrow> Inr \<lparr>rp_value = v, rp_cached = cached\<rparr>
      | Err_Response message \<Rightarrow> Inl message)"

definition decode_line :: "wire_lib \<Rightarrow> 'w worker \<Rightarrow> rstr \<Rightarrow> rstr + reply" where
  "decode_line lib wk line =
     (case parse_response lib line of
        Inr r \<Rightarrow> reply_of r
      | Inl defect \<Rightarrow>
          Inl (ascii ''function `'' @ wk_name wk @ ascii ''` worker sent an invalid response ('' @ defect @ ascii ''): '' @ line))"

definition is_cached :: "rstr + reply \<Rightarrow> bool" where
  "is_cached r = (case r of Inr rp \<Rightarrow> rp_cached rp | Inl _ \<Rightarrow> False)"

definition file_reply ::
  "wire_lib \<Rightarrow> sql_value list \<times> response \<Rightarrow> worker_inner \<times> 'w shared \<Rightarrow> worker_inner \<times> 'w shared"
where
  "file_reply lib ar st =
     (case (ar, st) of ((args, r), wi, sh) \<Rightarrow>
        (wi\<lparr>wi_prefetched := (wi_prefetched wi)(request_line lib args \<mapsto> reply_of r)\<rparr>,
         mark_cached (is_cached (reply_of r)) (record_call sh)))"

definition batch_results :: "wire_lib \<Rightarrow> 'w worker \<Rightarrow> rstr \<Rightarrow> nat \<Rightarrow> response list" where
  "batch_results lib wk line count =
     (case parse_batched_response lib line count of
        Inr results \<Rightarrow> results
      | Inl defect \<Rightarrow>
          replicate count (Err_Response (ascii ''function `'' @ wk_name wk @
            ascii ''` worker sent an invalid batched response ('' @ defect @ ascii ''): '' @ line)))"

definition flush ::
  "wire_lib \<Rightarrow> 'w worker \<Rightarrow> worker_inner \<Rightarrow> 'w shared \<Rightarrow> (rstr + unit) \<times> worker_inner \<times> 'w shared"
where
  "flush lib wk wi sh =
     (case wi_collect wi of
        None \<Rightarrow> (Inr (), wi, sh)
      | Some co \<Rightarrow>
          if co_pending co = [] then (Inr (), wi, sh)
          else
            let calls = co_pending co; count = length calls;
                wi = wi\<lparr>wi_collect := Some (co\<lparr>co_pending := []\<rparr>)\<rparr>;
                timeout = saturating_mul (wk_timeout wk) (min count (2 ^ 32 - 1)) in
            (case exchange lib wk (batched_request_line lib calls) timeout count wi sh of
               (Inl e, wi, sh) \<Rightarrow> (Inl e, wi, sh)
             | (Inr line, wi, sh) \<Rightarrow>
                 (Inr (), fold (file_reply lib) (zip calls (batch_results lib wk line count)) (wi, sh))))"

text \<open>\<open>call\<close>: from what is in hand, or from the placeholder while the calls are collected, or from the
  worker.\<close>

definition stand_in ::
  "wire_lib \<Rightarrow> 'w worker \<Rightarrow> sql_value list \<Rightarrow> rstr \<Rightarrow> collect \<Rightarrow> sql_value \<Rightarrow> worker_inner \<Rightarrow> 'w shared \<Rightarrow>
   (rstr + reply) \<times> worker_inner \<times> 'w shared"
where
  "stand_in lib wk args key co v wi sh =
     (let fresh = key \<notin> co_queued co;
          co' = (if fresh then co\<lparr>co_queued := insert key (co_queued co), co_pending := co_pending co @ [args]\<rparr> else co);
          due = (fresh \<and> (case wk_batch wk of None \<Rightarrow> True | Some n \<Rightarrow> n \<le> length (co_pending co')));
          wi' = wi\<lparr>wi_collect := Some co'\<rparr>;
          stood = Inr \<lparr>rp_value = v, rp_cached = False\<rparr> in
      if due then
        (case flush lib wk wi' sh of
           (Inl e, wi', sh) \<Rightarrow> (Inl e, wi', sh)
         | (Inr _, wi', sh) \<Rightarrow> (stood, wi', sh))
      else (stood, wi', sh))"

definition keep_reply :: "rstr \<Rightarrow> rstr + reply \<Rightarrow> worker_inner \<Rightarrow> worker_inner" where
  "keep_reply key r wi =
     (case wi_collect wi of
        None \<Rightarrow> wi
      | Some co \<Rightarrow>
          let co' = (case r of
                Inr rp \<Rightarrow> if rp_value rp \<noteq> Null then co\<lparr>co_placeholder := Some (rp_value rp)\<rparr> else co
              | Inl _ \<Rightarrow> co) in
          wi\<lparr>wi_collect := Some (co'\<lparr>co_queued := insert key (co_queued co')\<rparr>),
             wi_prefetched := (wi_prefetched wi)(key \<mapsto> r)\<rparr>)"

definition ask ::
  "wire_lib \<Rightarrow> 'w worker \<Rightarrow> rstr \<Rightarrow> worker_inner \<Rightarrow> 'w shared \<Rightarrow> (rstr + reply) \<times> worker_inner \<times> 'w shared"
where
  "ask lib wk key wi sh =
     (case exchange lib wk key (wk_timeout wk) 1 wi (record_call sh) of
        (answer, wi, sh) \<Rightarrow>
          let r = (case answer of Inl e \<Rightarrow> Inl e | Inr line \<Rightarrow> decode_line lib wk line) in
          (r, keep_reply key r wi, mark_cached (is_cached r) sh))"

definition worker_call ::
  "wire_lib \<Rightarrow> 'w worker \<Rightarrow> sql_value list \<Rightarrow> worker_inner \<Rightarrow> 'w shared \<Rightarrow> (rstr + reply) \<times> worker_inner \<times> 'w shared"
where
  "worker_call lib wk args wi sh =
     (let key = request_line lib args in
      case wi_prefetched wi key of
        Some r \<Rightarrow> (r, wi, sh)
      | None \<Rightarrow>
          (case wi_collect wi of
             None \<Rightarrow> ask lib wk key wi sh
           | Some co \<Rightarrow>
               let co = co\<lparr>co_invoked := True\<rparr>; wi = wi\<lparr>wi_collect := Some co\<rparr> in
               (case co_placeholder co of
                  Some v \<Rightarrow> stand_in lib wk args key co v wi sh
                | None \<Rightarrow> ask lib wk key wi sh)))"

definition begin_collect :: "'w worker \<Rightarrow> worker_inner \<Rightarrow> worker_inner" where
  "begin_collect wk wi =
     (let wi = wi\<lparr>wi_prefetched := Map.empty\<rparr> in
      if wk_batch wk \<noteq> None then wi\<lparr>wi_collect := Some collect_default\<rparr> else wi)"

definition end_collect ::
  "wire_lib \<Rightarrow> 'w worker \<Rightarrow> worker_inner \<Rightarrow> 'w shared \<Rightarrow> (rstr + bool) \<times> worker_inner \<times> 'w shared"
where
  "end_collect lib wk wi sh =
     (case flush lib wk wi sh of
        (flushed, wi, sh) \<Rightarrow>
          let invoked = (case wi_collect wi of None \<Rightarrow> False | Some co \<Rightarrow> co_invoked co) in
          ((case flushed of Inl e \<Rightarrow> Inl e | Inr _ \<Rightarrow> Inr invoked), wi\<lparr>wi_collect := None\<rparr>, sh))"

definition clear_worker :: "worker_inner \<Rightarrow> worker_inner" where
  "clear_worker wi = wi\<lparr>wi_collect := None, wi_prefetched := Map.empty\<rparr>"

section \<open>A query\<close>

text \<open>What SQLite does with a statement: the functions it calls, by their position, and what it makes
  of their replies.\<close>

datatype 'r statement = Finished 'r | Calls nat "sql_value list" "rstr + sql_value \<Rightarrow> 'r statement"

record 'w session =
  se_inner :: "nat \<Rightarrow> worker_inner"
  se_shared :: "'w shared"

definition session_call ::
  "wire_lib \<Rightarrow> 'w worker list \<Rightarrow> nat \<Rightarrow> sql_value list \<Rightarrow> 'w session \<Rightarrow> (rstr + sql_value) \<times> 'w session"
where
  "session_call lib workers i args se =
     (case worker_call lib (workers ! i) args (se_inner se i) (se_shared se) of
        (r, wi, sh) \<Rightarrow> (map_sum id rp_value r, \<lparr>se_inner = (se_inner se)(i := wi), se_shared = sh\<rparr>))"

primrec run_calls :: "wire_lib \<Rightarrow> 'w worker list \<Rightarrow> 'r statement \<Rightarrow> 'w session \<Rightarrow> 'r \<times> 'w session" where
  "run_calls lib workers (Finished r) se = (r, se)"
| "run_calls lib workers (Calls i args k) se =
     (case session_call lib workers i args se of (x, se) \<Rightarrow> run_calls lib workers (k x) se)"

definition batched_of :: "'w worker list \<Rightarrow> nat list" where
  "batched_of workers = filter (\<lambda>i. wk_batch (workers ! i) \<noteq> None) [0..<length workers]"

definition update_each :: "nat list \<Rightarrow> (nat \<Rightarrow> worker_inner \<Rightarrow> worker_inner) \<Rightarrow> 'w session \<Rightarrow> 'w session" where
  "update_each is f se = se\<lparr>se_inner := (\<lambda>i. if i \<in> set is then f i (se_inner se i) else se_inner se i)\<rparr>"

fun end_each ::
  "wire_lib \<Rightarrow> 'w worker list \<Rightarrow> nat list \<Rightarrow> bool \<Rightarrow> 'w session \<Rightarrow> (rstr + bool) \<times> 'w session"
where
  "end_each lib workers [] invoked se = (Inr invoked, se)"
| "end_each lib workers (i # is) invoked se =
     (case end_collect lib (workers ! i) (se_inner se i) (se_shared se) of
        (r, wi, sh) \<Rightarrow>
          let se = \<lparr>se_inner = (se_inner se)(i := wi), se_shared = sh\<rparr> in
          (case r of Inl e \<Rightarrow> (Inl e, se) | Inr b \<Rightarrow> end_each lib workers is (invoked \<or> b) se))"

definition query_ordered_with ::
  "wire_lib \<Rightarrow> 'w worker list \<Rightarrow> 'r statement \<Rightarrow> 'w session \<Rightarrow> (rstr + 'r) \<times> 'w session"
where
  "query_ordered_with lib workers stmt se =
     (let se = se\<lparr>se_shared := (se_shared se)\<lparr>sh_count := 0, sh_cached := 0\<rparr>\<rparr>;
          batched = batched_of workers in
      if batched = [] then apfst Inr (run_calls lib workers stmt se)
      else
        let cleared = update_each batched (\<lambda>i. clear_worker);
            (collected, se) = run_calls lib workers stmt (update_each batched (\<lambda>i. begin_collect (workers ! i)) se) in
        (case end_each lib workers batched False se of
           (Inl e, se) \<Rightarrow> (Inl e, cleared se)
         | (Inr invoked, se) \<Rightarrow>
             if \<not> invoked then (Inr collected, cleared se)
             else (case run_calls lib workers stmt se of (r, se) \<Rightarrow> (Inr r, cleared se))))"

section \<open>A worker that answers\<close>

text \<open>A worker that always replies, and to a request of no more calls than it batches as to each call alone.\<close>

definition answers_calls :: "wire_lib \<Rightarrow> 'w worker \<Rightarrow> (sql_value list \<Rightarrow> response) \<Rightarrow> bool" where
  "answers_calls lib wk A \<longleftrightarrow>
     (\<forall>args w. \<exists>w1. pr_send (wk_process wk) (request_line lib args) w = (True, w1) \<and>
       (\<forall>t. \<exists>line w2. pr_recv (wk_process wk) t w1 = (Inr line, w2) \<and> parse_response lib line = Inr (A args)))"

definition answers_batches :: "wire_lib \<Rightarrow> 'w worker \<Rightarrow> (sql_value list \<Rightarrow> response) \<Rightarrow> nat \<Rightarrow> bool" where
  "answers_batches lib wk A n \<longleftrightarrow>
     (\<forall>calls w. length calls \<le> max 1 n \<longrightarrow>
       (\<exists>w1. pr_send (wk_process wk) (batched_request_line lib calls) w = (True, w1) \<and>
         (\<forall>t. \<exists>line w2. pr_recv (wk_process wk) t w1 = (Inr line, w2) \<and>
           parse_batched_response lib line (length calls) = Inr (map A calls))))"

definition answering :: "wire_lib \<Rightarrow> 'w worker \<Rightarrow> (sql_value list \<Rightarrow> response) \<Rightarrow> bool" where
  "answering lib wk A \<longleftrightarrow>
     (\<forall>w. fst (pr_spawn (wk_process wk) w) = Inr ()) \<and> answers_calls lib wk A \<and>
     (\<forall>n. wk_batch wk = Some n \<longrightarrow> answers_batches lib wk A n)"

lemma answering_line:
  assumes "answering lib wk A" "request_line lib args = request_line lib args'"
  shows "A args = A args'"
proof -
  obtain w1 where "pr_send (wk_process wk) (request_line lib args) undefined = (True, w1)"
    "\<forall>t. \<exists>line w2. pr_recv (wk_process wk) t w1 = (Inr line, w2) \<and> parse_response lib line = Inr (A args)"
    using assms(1) unfolding answering_def answers_calls_def by blast
  moreover obtain w2 where "pr_send (wk_process wk) (request_line lib args') undefined = (True, w2)"
    "\<forall>t. \<exists>line w3. pr_recv (wk_process wk) t w2 = (Inr line, w3) \<and> parse_response lib line = Inr (A args')"
    using assms(1) unfolding answering_def answers_calls_def by blast
  ultimately have "\<exists>line. parse_response lib line = Inr (A args) \<and> parse_response lib line = Inr (A args')"
    using assms(2) by (metis Pair_inject sum.inject(2))
  then show ?thesis by auto
qed

lemma exchange_from:
  assumes "\<forall>w. fst (pr_spawn (wk_process wk) w) = Inr ()"
    "\<forall>w. \<exists>line w2. converse_with lib wk request t c w = (Inr line, True, w2) \<and> Q line"
  obtains line w where "exchange lib wk request t c wi sh = (Inr line, wi\<lparr>wi_running := True\<rparr>, sh\<lparr>sh_world := w\<rparr>)" "Q line"
proof (cases "wi_running wi")
  case True
  obtain line w2 where "converse_with lib wk request t c (sh_world sh) = (Inr line, True, w2)" "Q line" using assms(2) by blast
  then show ?thesis using True that by (simp add: exchange_def)
next
  case False
  obtain w where w: "pr_spawn (wk_process wk) (sh_world sh) = (Inr (), w)" using assms(1) by (metis prod.collapse)
  obtain line w2 where "converse_with lib wk request t c w = (Inr line, True, w2)" "Q line" using assms(2) by blast
  then show ?thesis using False w that by (simp add: exchange_def)
qed

lemma converse_answered:
  assumes "pr_send (wk_process wk) request w = (True, w1)" "\<forall>t. \<exists>line w2. pr_recv (wk_process wk) t w1 = (Inr line, w2) \<and> Q line"
  shows "\<exists>line w2. converse_with lib wk request t c w = (Inr line, True, w2) \<and> Q line"
proof -
  obtain line w2 where "pr_recv (wk_process wk) t w1 = (Inr line, w2)" "Q line" using assms(2) by blast
  then show ?thesis using assms(1) by (simp add: converse_with_def)
qed

lemma exchange_call:
  assumes "answering lib wk A"
  obtains line w where "exchange lib wk (request_line lib args) t c wi sh = (Inr line, wi\<lparr>wi_running := True\<rparr>, sh\<lparr>sh_world := w\<rparr>)"
    "parse_response lib line = Inr (A args)"
proof (rule exchange_from [of wk lib "request_line lib args" t c "\<lambda>line. parse_response lib line = Inr (A args)" wi sh])
  show "\<forall>w. fst (pr_spawn (wk_process wk) w) = Inr ()" using assms unfolding answering_def by blast
  show "\<forall>w. \<exists>line w2. converse_with lib wk (request_line lib args) t c w = (Inr line, True, w2) \<and> parse_response lib line = Inr (A args)"
  proof
    fix w
    obtain w1 where "pr_send (wk_process wk) (request_line lib args) w = (True, w1)"
      "\<forall>t. \<exists>line w2. pr_recv (wk_process wk) t w1 = (Inr line, w2) \<and> parse_response lib line = Inr (A args)"
      using assms unfolding answering_def answers_calls_def by blast
    then show "\<exists>line w2. converse_with lib wk (request_line lib args) t c w = (Inr line, True, w2) \<and>
        parse_response lib line = Inr (A args)" by (rule converse_answered)
  qed
qed (rule that)

lemma exchange_batch:
  assumes "answering lib wk A" "wk_batch wk = Some n" "length calls \<le> max 1 n"
  obtains line w where "exchange lib wk (batched_request_line lib calls) t c wi sh = (Inr line, wi\<lparr>wi_running := True\<rparr>, sh\<lparr>sh_world := w\<rparr>)"
    "parse_batched_response lib line (length calls) = Inr (map A calls)"
proof (rule exchange_from [of wk lib "batched_request_line lib calls" t c
    "\<lambda>line. parse_batched_response lib line (length calls) = Inr (map A calls)" wi sh])
  show "\<forall>w. fst (pr_spawn (wk_process wk) w) = Inr ()" using assms(1) unfolding answering_def by blast
  show "\<forall>w. \<exists>line w2. converse_with lib wk (batched_request_line lib calls) t c w = (Inr line, True, w2) \<and>
      parse_batched_response lib line (length calls) = Inr (map A calls)"
  proof
    fix w
    obtain w1 where "pr_send (wk_process wk) (batched_request_line lib calls) w = (True, w1)"
      "\<forall>t. \<exists>line w2. pr_recv (wk_process wk) t w1 = (Inr line, w2) \<and> parse_batched_response lib line (length calls) = Inr (map A calls)"
      using assms unfolding answering_def answers_batches_def by blast
    then show "\<exists>line w2. converse_with lib wk (batched_request_line lib calls) t c w = (Inr line, True, w2) \<and>
        parse_batched_response lib line (length calls) = Inr (map A calls)" by (rule converse_answered)
  qed
qed (rule that)

section \<open>What a worker holds\<close>

definition true_replies :: "wire_lib \<Rightarrow> (sql_value list \<Rightarrow> response) \<Rightarrow> worker_inner \<Rightarrow> bool" where
  "true_replies lib A wi \<longleftrightarrow>
     (\<forall>args r. wi_prefetched wi (request_line lib args) = Some r \<longrightarrow> r = reply_of (A args))"

text \<open>While a worker collects, no more waits than it batches.\<close>

definition collecting :: "wire_lib \<Rightarrow> 'w worker \<Rightarrow> (sql_value list \<Rightarrow> response) \<Rightarrow> worker_inner \<Rightarrow> bool" where
  "collecting lib wk A wi \<longleftrightarrow> true_replies lib A wi \<and>
     (\<exists>co n. wi_collect wi = Some co \<and> wk_batch wk = Some n \<and> length (co_pending co) < max 1 n \<and>
       (co_invoked co \<or> wi_prefetched wi = Map.empty))"

definition serving :: "wire_lib \<Rightarrow> (sql_value list \<Rightarrow> response) \<Rightarrow> worker_inner \<Rightarrow> bool" where
  "serving lib A wi \<longleftrightarrow> true_replies lib A wi \<and> wi_collect wi = None"

lemma true_replies_cong: "wi_prefetched wi = wi_prefetched wi' \<Longrightarrow> true_replies lib A wi = true_replies lib A wi'"
  by (simp only: true_replies_def)

lemma true_replies_upd:
  assumes "answering lib wk A" "true_replies lib A wi"
  shows "true_replies lib A (wi\<lparr>wi_prefetched := (wi_prefetched wi)(request_line lib args \<mapsto> reply_of (A args))\<rparr>)"
  unfolding true_replies_def
proof (intro allI impI)
  fix args' r
  assume r: "wi_prefetched (wi\<lparr>wi_prefetched := (wi_prefetched wi)(request_line lib args \<mapsto> reply_of (A args))\<rparr>)
    (request_line lib args') = Some r"
  show "r = reply_of (A args')"
  proof (cases "request_line lib args' = request_line lib args")
    case True
    then show ?thesis using r answering_line [OF assms(1) True] by simp
  next
    case False
    then show ?thesis using r assms(2) by (simp add: true_replies_def)
  qed
qed

lemma file_replies:
  assumes "answering lib wk A" "true_replies lib A wi"
  shows "\<exists>wi' sh'. fold (file_reply lib) (zip calls (map A calls)) (wi, sh) = (wi', sh') \<and>
    true_replies lib A wi' \<and> wi_collect wi' = wi_collect wi \<and> sh_count sh' = sh_count sh + length calls \<and>
    dom (wi_prefetched wi') = dom (wi_prefetched wi) \<union> request_line lib ` set calls"
  using assms(2)
proof (induction calls arbitrary: wi sh)
  case (Cons args calls)
  let ?wi = "wi\<lparr>wi_prefetched := (wi_prefetched wi)(request_line lib args \<mapsto> reply_of (A args))\<rparr>"
  show ?case
  proof -
    let ?sh = "mark_cached (is_cached (reply_of (A args))) (record_call sh)"
    have count: "sh_count ?sh = Suc (sh_count sh)" by (simp add: mark_cached_def record_call_def)
    obtain wi' sh' where run: "fold (file_reply lib) (zip calls (map A calls)) (?wi, ?sh) = (wi', sh')"
      and f: "true_replies lib A wi'" "wi_collect wi' = wi_collect ?wi" "sh_count sh' = sh_count ?sh + length calls"
        "dom (wi_prefetched wi') = dom (wi_prefetched ?wi) \<union> request_line lib ` set calls"
      using Cons.IH [OF true_replies_upd [OF assms(1) Cons.prems], of args ?sh] by blast
    have "fold (file_reply lib) (zip (args # calls) (map A (args # calls))) (wi, sh) = (wi', sh')"
      using run by (simp add: file_reply_def)
    then show ?thesis using f count by auto
  qed
qed auto

lemma flush_answered:
  assumes "answering lib wk A" "true_replies lib A wi" "wk_batch wk = Some n" "wi_collect wi = Some co"
    "length (co_pending co) \<le> max 1 n"
  obtains wi' sh' where "flush lib wk wi sh = (Inr (), wi', sh')" "true_replies lib A wi'"
    "wi_collect wi' = Some (co\<lparr>co_pending := []\<rparr>)" "sh_count sh' = sh_count sh + length (co_pending co)"
    "dom (wi_prefetched wi') = dom (wi_prefetched wi) \<union> request_line lib ` set (co_pending co)"
proof (cases "co_pending co = []")
  case True
  then have "co\<lparr>co_pending := []\<rparr> = co" by (cases co) simp
  then show ?thesis using True assms(2,4) that [of wi sh] by (simp add: flush_def)
next
  case False
  let ?wi = "wi\<lparr>wi_collect := Some (co\<lparr>co_pending := []\<rparr>)\<rparr>" and ?calls = "co_pending co"
  obtain line w where e: "exchange lib wk (batched_request_line lib ?calls)
      (saturating_mul (wk_timeout wk) (min (length ?calls) (2 ^ 32 - 1))) (length ?calls) ?wi sh =
      (Inr line, ?wi\<lparr>wi_running := True\<rparr>, sh\<lparr>sh_world := w\<rparr>)"
    and parsed: "parse_batched_response lib line (length ?calls) = Inr (map A ?calls)"
    using exchange_batch [OF assms(1,3,5)] by blast
  have "true_replies lib A (?wi\<lparr>wi_running := True\<rparr>)" using assms(2) by (simp add: true_replies_def)
  from file_replies [OF assms(1) this, of ?calls "sh\<lparr>sh_world := w\<rparr>"]
  show ?thesis using that False e parsed assms(4) by (auto simp: flush_def batch_results_def Let_def)
qed

text \<open>Every call a collect pass has met is answered or waits, and each answer was asked for once.\<close>

definition accounted :: "wire_lib \<Rightarrow> worker_inner \<Rightarrow> 'w shared \<Rightarrow> rstr set \<Rightarrow> bool" where
  "accounted lib wi sh K \<longleftrightarrow>
     (\<exists>co. wi_collect wi = Some co \<and> co_queued co = K \<and>
       dom (wi_prefetched wi) \<union> request_line lib ` set (co_pending co) = K \<and>
       dom (wi_prefetched wi) \<inter> request_line lib ` set (co_pending co) = {} \<and>
       distinct (map (request_line lib) (co_pending co)) \<and> (co_placeholder co = None \<longrightarrow> co_pending co = []) \<and>
       finite K \<and> sh_count sh = card (dom (wi_prefetched wi)))"

definition was_invoked :: "worker_inner \<Rightarrow> bool" where
  "was_invoked wi \<longleftrightarrow> (\<exists>co. wi_collect wi = Some co \<and> co_invoked co)"

lemma decode_answered: "parse_response lib line = Inr r \<Longrightarrow> decode_line lib wk line = reply_of r"
  by (simp add: decode_line_def)

lemma ask_answered:
  assumes "answering lib wk A"
  obtains w where "ask lib wk (request_line lib args) wi sh =
    (reply_of (A args), keep_reply (request_line lib args) (reply_of (A args)) (wi\<lparr>wi_running := True\<rparr>),
     mark_cached (is_cached (reply_of (A args))) ((record_call sh)\<lparr>sh_world := w\<rparr>))"
proof -
  obtain line w where "exchange lib wk (request_line lib args) (wk_timeout wk) 1 wi (record_call sh) =
      (Inr line, wi\<lparr>wi_running := True\<rparr>, (record_call sh)\<lparr>sh_world := w\<rparr>)" "parse_response lib line = Inr (A args)"
    using exchange_call [OF assms] by blast
  then show ?thesis using that by (simp add: ask_def decode_answered Let_def)
qed

lemma mark_cached_count [simp]: "sh_count (mark_cached b sh) = sh_count sh"
  by (simp add: mark_cached_def)

lemma call_serving:
  assumes "answering lib wk A" "serving lib A wi"
  obtains wi' sh' where "worker_call lib wk args wi sh = (reply_of (A args), wi', sh')" "serving lib A wi'"
    "wi_prefetched wi' = wi_prefetched wi"
    "request_line lib args \<in> dom (wi_prefetched wi) \<Longrightarrow> sh' = sh"
proof (cases "wi_prefetched wi (request_line lib args)")
  case None
  obtain w where "ask lib wk (request_line lib args) wi sh =
    (reply_of (A args), keep_reply (request_line lib args) (reply_of (A args)) (wi\<lparr>wi_running := True\<rparr>),
     mark_cached (is_cached (reply_of (A args))) ((record_call sh)\<lparr>sh_world := w\<rparr>))" by (rule ask_answered [OF assms(1)])
  then show ?thesis using None assms(2) that
    by (auto simp: worker_call_def serving_def keep_reply_def true_replies_def)
next
  case (Some r)
  then have "r = reply_of (A args)" using assms(2) by (simp add: serving_def true_replies_def)
  then show ?thesis using Some assms(2) that by (simp add: worker_call_def)
qed

lemma keep_collect:
  assumes "wi_collect wi = Some co"
  shows "\<exists>co'. wi_collect (keep_reply key r wi) = Some co' \<and> co_pending co' = co_pending co \<and> co_invoked co' = co_invoked co \<and>
    co_queued co' = insert key (co_queued co) \<and> wi_prefetched (keep_reply key r wi) = (wi_prefetched wi)(key \<mapsto> r)"
  using assms by (auto simp: keep_reply_def Let_def split: sum.splits)

lemma keep_answered:
  assumes "answering lib wk A" "true_replies lib A wi" "wi_collect wi = Some co"
  shows "true_replies lib A (keep_reply (request_line lib args) (reply_of (A args)) wi)"
proof -
  have "wi_prefetched (keep_reply (request_line lib args) (reply_of (A args)) wi) =
      (wi_prefetched wi)(request_line lib args \<mapsto> reply_of (A args))"
    using assms(3) keep_collect by blast
  then have "true_replies lib A (keep_reply (request_line lib args) (reply_of (A args)) wi) =
      true_replies lib A (wi\<lparr>wi_prefetched := (wi_prefetched wi)(request_line lib args \<mapsto> reply_of (A args))\<rparr>)"
    by (intro true_replies_cong) simp
  then show ?thesis using true_replies_upd [OF assms(1,2)] by blast
qed

lemma stand_in_collects:
  assumes "answering lib wk A" "wk_batch wk = Some n" "true_replies lib A wi" "length (co_pending co) < max 1 n" "co_invoked co"
    "co_placeholder co = Some v" "request_line lib args \<notin> dom (wi_prefetched wi)"
  shows "\<exists>r wi' sh'. stand_in lib wk args (request_line lib args) co v wi sh = (r, wi', sh') \<and> collecting lib wk A wi' \<and> was_invoked wi' \<and>
    (\<forall>K. accounted lib (wi\<lparr>wi_collect := Some co\<rparr>) sh K \<longrightarrow> accounted lib wi' sh' (insert (request_line lib args) K))"
proof (cases "request_line lib args \<in> co_queued co")
  case True
  let ?wi = "wi\<lparr>wi_collect := Some co\<rparr>"
  have "stand_in lib wk args (request_line lib args) co v wi sh = (Inr \<lparr>rp_value = v, rp_cached = False\<rparr>, ?wi, sh)"
    using True by (simp add: stand_in_def)
  moreover have "collecting lib wk A ?wi" using assms(2-5) by (simp add: collecting_def true_replies_def)
  moreover have "was_invoked ?wi" using assms(5) by (simp add: was_invoked_def)
  moreover have "insert (request_line lib args) K = K" if "accounted lib ?wi sh K" for K
    using that True by (auto simp: accounted_def)
  ultimately show ?thesis by metis
next
  case False
  let ?key = "request_line lib args"
  let ?co = "co\<lparr>co_queued := insert ?key (co_queued co), co_pending := co_pending co @ [args]\<rparr>"
  let ?wi = "wi\<lparr>wi_collect := Some ?co\<rparr>"
  have true: "true_replies lib A ?wi" using assms(3) by (simp add: true_replies_def)
  have fresh: "?key \<notin> request_line lib ` set (co_pending co)" "?key \<notin> K"
    if "accounted lib (wi\<lparr>wi_collect := Some co\<rparr>) sh K" for K
    using that False by (auto simp: accounted_def)
  show ?thesis
  proof (cases "n \<le> length (co_pending ?co)")
    case True
    have len: "length (co_pending ?co) \<le> max 1 n" using assms(4) by auto
    obtain wi' sh' where fl: "flush lib wk ?wi sh = (Inr (), wi', sh')" and f: "true_replies lib A wi'"
      "wi_collect wi' = Some (?co\<lparr>co_pending := []\<rparr>)" "sh_count sh' = sh_count sh + length (co_pending ?co)"
      "dom (wi_prefetched wi') = dom (wi_prefetched ?wi) \<union> request_line lib ` set (co_pending ?co)"
      using flush_answered [OF assms(1) true assms(2) _ len, of sh] by auto
    have "accounted lib wi' sh' (insert ?key K)" if a: "accounted lib (wi\<lparr>wi_collect := Some co\<rparr>) sh K" for K
    proof -
      have "card (dom (wi_prefetched wi')) = card (dom (wi_prefetched wi)) + length (co_pending ?co)"
      proof -
        have "card (set (map (request_line lib) (co_pending ?co))) = length (map (request_line lib) (co_pending ?co))"
        proof (rule distinct_card)
          have "distinct (map (request_line lib) (co_pending co))" using a unfolding accounted_def by fastforce
          then show "distinct (map (request_line lib) (co_pending ?co))" using fresh(1) [OF a] by simp
        qed
        then have "card (request_line lib ` set (co_pending ?co)) = length (co_pending ?co)" by simp
        moreover have "finite (dom (wi_prefetched wi))" using a by (simp add: accounted_def) (metis finite_Un)
        moreover have "dom (wi_prefetched wi) \<inter> request_line lib ` set (co_pending ?co) = {}"
          using a assms(7) by (auto simp: accounted_def)
        ultimately show ?thesis using f(4) card_Un_disjoint [of "dom (wi_prefetched wi)" "request_line lib ` set (co_pending ?co)"] by simp
      qed
      then show ?thesis using a f by (auto simp: accounted_def)
    qed
    moreover have "collecting lib wk A wi'" "was_invoked wi'" using f assms(2,5) by (auto simp: collecting_def was_invoked_def)
    moreover have "stand_in lib wk args ?key co v wi sh = (Inr \<lparr>rp_value = v, rp_cached = False\<rparr>, wi', sh')"
      using True False fl assms(2) by (simp add: stand_in_def)
    ultimately show ?thesis by metis
  next
    case False
    have "accounted lib ?wi sh (insert ?key K)" if a: "accounted lib (wi\<lparr>wi_collect := Some co\<rparr>) sh K" for K
      using a fresh [OF a] assms(6,7) by (auto simp: accounted_def)
    moreover have "collecting lib wk A ?wi" "was_invoked ?wi" using true False assms(2,5) by (auto simp: collecting_def was_invoked_def)
    moreover have "stand_in lib wk args ?key co v wi sh = (Inr \<lparr>rp_value = v, rp_cached = False\<rparr>, ?wi, sh)"
      using False \<open>?key \<notin> co_queued co\<close> assms(2) by (simp add: stand_in_def)
    ultimately show ?thesis by metis
  qed
qed

lemma ask_collects:
  assumes "answering lib wk A" "wk_batch wk = Some n" "true_replies lib A wi" "length (co_pending co) < max 1 n" "co_invoked co"
    "wi_collect wi = Some co" "co_placeholder co = None" "request_line lib args \<notin> dom (wi_prefetched wi)"
  shows "\<exists>r wi' sh'. ask lib wk (request_line lib args) wi sh = (r, wi', sh') \<and> collecting lib wk A wi' \<and> was_invoked wi' \<and>
    (\<forall>K. accounted lib wi sh K \<longrightarrow> accounted lib wi' sh' (insert (request_line lib args) K))"
proof -
  let ?key = "request_line lib args" and ?r = "reply_of (A args)" and ?wi = "wi\<lparr>wi_running := True\<rparr>"
  obtain w where asked: "ask lib wk ?key wi sh = (?r, keep_reply ?key ?r ?wi, mark_cached (is_cached ?r) ((record_call sh)\<lparr>sh_world := w\<rparr>))"
    by (rule ask_answered [OF assms(1)])
  have "wi_collect ?wi = Some co" using assms(6) by simp
  from keep_collect [OF this, of ?key ?r] obtain co' where co': "wi_collect (keep_reply ?key ?r ?wi) = Some co'" "co_pending co' = co_pending co"
    "co_invoked co' = co_invoked co" "co_queued co' = insert ?key (co_queued co)"
    "wi_prefetched (keep_reply ?key ?r ?wi) = (wi_prefetched wi)(?key \<mapsto> ?r)" by auto
  have "true_replies lib A ?wi" using assms(3) true_replies_cong [of ?wi wi] by simp
  from keep_answered [OF assms(1) this, of co args] have "true_replies lib A (keep_reply ?key ?r ?wi)" using assms(6) by simp
  then have "collecting lib wk A (keep_reply ?key ?r ?wi)" "was_invoked (keep_reply ?key ?r ?wi)"
    using co' assms(2,4,5) by (auto simp: collecting_def was_invoked_def)
  moreover have "accounted lib (keep_reply ?key ?r ?wi) (mark_cached (is_cached ?r) ((record_call sh)\<lparr>sh_world := w\<rparr>)) (insert ?key K)"
    if a: "accounted lib wi sh K" for K
  proof -
    have K: "dom (wi_prefetched wi) = K" "co_pending co = []" "co_queued co = K" "finite K" "sh_count sh = card K"
      using a assms(6,7) by (auto simp: accounted_def)
    then have "?key \<notin> K" using assms(8) by simp
    then show ?thesis using K co' by (simp add: accounted_def record_call_def)
  qed
  ultimately show ?thesis using asked by metis
qed

lemma call_collecting:
  assumes "answering lib wk A" "collecting lib wk A wi"
  shows "\<exists>r wi' sh'. worker_call lib wk args wi sh = (r, wi', sh') \<and> collecting lib wk A wi' \<and> was_invoked wi' \<and>
    (\<forall>K. accounted lib wi sh K \<longrightarrow> accounted lib wi' sh' (insert (request_line lib args) K))"
proof -
  obtain co n where c: "true_replies lib A wi" "wi_collect wi = Some co" "wk_batch wk = Some n" "length (co_pending co) < max 1 n"
    "co_invoked co \<or> wi_prefetched wi = Map.empty" using assms(2) by (auto simp: collecting_def)
  let ?co = "co\<lparr>co_invoked := True\<rparr>" let ?wi = "wi\<lparr>wi_collect := Some ?co\<rparr>"
  show ?thesis
  proof (cases "wi_prefetched wi (request_line lib args)")
    case (Some r)
    then have "co_invoked co" using c(5) by auto
    moreover have "insert (request_line lib args) K = K" if "accounted lib wi sh K" for K
      using that Some by (auto simp: accounted_def)
    moreover have "worker_call lib wk args wi sh = (r, wi, sh)" using Some by (simp add: worker_call_def)
    ultimately show ?thesis using assms(2) c(2) by (metis was_invoked_def)
  next
    case None
    then have fresh: "request_line lib args \<notin> dom (wi_prefetched ?wi)" by auto
    have true: "true_replies lib A ?wi" using c(1) true_replies_cong [of ?wi wi] by simp
    have acc: "accounted lib ?wi sh K" if "accounted lib wi sh K" for K using that c(2) by (simp add: accounted_def)
    show ?thesis
    proof (cases "co_placeholder co")
      case p: None
      have "worker_call lib wk args wi sh = ask lib wk (request_line lib args) ?wi sh" using None c(2) p by (simp add: worker_call_def)
      moreover note ask_collects [OF assms(1) c(3) true _ _ _ _ fresh, of ?co sh]
      ultimately show ?thesis using c(4) p acc by simp metis
    next
      case (Some v)
      have "worker_call lib wk args wi sh = stand_in lib wk args (request_line lib args) ?co v ?wi sh"
        using None c(2) Some by (simp add: worker_call_def Let_def)
      moreover note stand_in_collects [OF assms(1) c(3) true _ _ _ fresh, of ?co v sh]
      ultimately show ?thesis using c(4) Some acc by simp metis
    qed
  qed
qed

text \<open>Ending the pass answers what still waits.\<close>

lemma end_collect_serves:
  assumes "answering lib wk A" "collecting lib wk A wi"
  shows "\<exists>wi' sh'. end_collect lib wk wi sh = (Inr (was_invoked wi), wi', sh') \<and> serving lib A wi' \<and>
    (\<forall>K. accounted lib wi sh K \<longrightarrow> dom (wi_prefetched wi') = K \<and> sh_count sh' = card K)"
proof -
  obtain co n where c: "true_replies lib A wi" "wi_collect wi = Some co" "wk_batch wk = Some n" "length (co_pending co) < max 1 n"
    using assms(2) by (auto simp: collecting_def)
  obtain wi' sh' where fl: "flush lib wk wi sh = (Inr (), wi', sh')" and f: "true_replies lib A wi'"
    "wi_collect wi' = Some (co\<lparr>co_pending := []\<rparr>)" "sh_count sh' = sh_count sh + length (co_pending co)"
    "dom (wi_prefetched wi') = dom (wi_prefetched wi) \<union> request_line lib ` set (co_pending co)"
    using flush_answered [OF assms(1) c(1,3,2), of sh] c(4) by auto
  have "end_collect lib wk wi sh = (Inr (was_invoked wi), wi'\<lparr>wi_collect := None\<rparr>, sh')"
    using fl f(2) c(2) by (simp add: end_collect_def was_invoked_def)
  moreover have "serving lib A (wi'\<lparr>wi_collect := None\<rparr>)"
    using f(1) true_replies_cong [of "wi'\<lparr>wi_collect := None\<rparr>" wi'] by (simp add: serving_def)
  moreover have "dom (wi_prefetched (wi'\<lparr>wi_collect := None\<rparr>)) = K \<and> sh_count sh' = card K" if a: "accounted lib wi sh K" for K
  proof -
    have dom: "dom (wi_prefetched wi') = K" using a f(4) c(2) by (simp add: accounted_def)
    have "card (set (map (request_line lib) (co_pending co))) = length (map (request_line lib) (co_pending co))"
      using a c(2) by (intro distinct_card) (simp add: accounted_def)
    moreover have "card (dom (wi_prefetched wi) \<union> request_line lib ` set (co_pending co)) =
        card (dom (wi_prefetched wi)) + card (request_line lib ` set (co_pending co))"
    proof (rule card_Un_disjoint)
      have "finite (dom (wi_prefetched wi) \<union> request_line lib ` set (co_pending co))"
        using a c(2) by (simp add: accounted_def)
      then show "finite (dom (wi_prefetched wi))" by simp
    qed (use a c(2) in \<open>simp_all add: accounted_def\<close>)
    ultimately show ?thesis using a c(2) f(3,4) dom by (simp add: accounted_def)
  qed
  ultimately show ?thesis by metis
qed

section \<open>A statement over workers that answer\<close>

text \<open>What the statement gives when every call is answered at once, by its worker.\<close>

primrec answered :: "(nat \<Rightarrow> sql_value list \<Rightarrow> response) \<Rightarrow> 'r statement \<Rightarrow> 'r" where
  "answered A (Finished r) = r"
| "answered A (Calls i args k) = answered A (k (map_sum id rp_value (reply_of (A i args))))"

primrec calls_only :: "nat \<Rightarrow> 'r statement \<Rightarrow> bool" where
  "calls_only n (Finished r) = True"
| "calls_only n (Calls i args k) = (i < n \<and> (\<forall>x. calls_only n (k x)))"

definition answering_all :: "wire_lib \<Rightarrow> 'w worker list \<Rightarrow> (nat \<Rightarrow> sql_value list \<Rightarrow> response) \<Rightarrow> bool" where
  "answering_all lib workers A \<longleftrightarrow> (\<forall>i<length workers. answering lib (workers ! i) (A i))"

definition serving_all :: "wire_lib \<Rightarrow> 'w worker list \<Rightarrow> (nat \<Rightarrow> sql_value list \<Rightarrow> response) \<Rightarrow> 'w session \<Rightarrow> bool" where
  "serving_all lib workers A se \<longleftrightarrow> (\<forall>i<length workers. serving lib (A i) (se_inner se i))"

definition in_pass :: "wire_lib \<Rightarrow> 'w worker \<Rightarrow> (sql_value list \<Rightarrow> response) \<Rightarrow> worker_inner \<Rightarrow> bool" where
  "in_pass lib wk A wi \<longleftrightarrow> (if wk_batch wk \<noteq> None then collecting lib wk A wi else serving lib A wi)"

definition collecting_all :: "wire_lib \<Rightarrow> 'w worker list \<Rightarrow> (nat \<Rightarrow> sql_value list \<Rightarrow> response) \<Rightarrow> 'w session \<Rightarrow> bool" where
  "collecting_all lib workers A se \<longleftrightarrow> (\<forall>i<length workers. in_pass lib (workers ! i) (A i) (se_inner se i))"

definition quiet :: "'w worker list \<Rightarrow> 'w session \<Rightarrow> bool" where
  "quiet workers se \<longleftrightarrow>
     (\<forall>i<length workers. wi_collect (se_inner se i) = None \<and> wi_prefetched (se_inner se i) = Map.empty)"

lemma run_serving:
  assumes "answering_all lib workers A" "serving_all lib workers A se" "calls_only (length workers) stmt"
  shows "\<exists>se'. run_calls lib workers stmt se = (answered A stmt, se') \<and> serving_all lib workers A se' \<and>
    (\<forall>i. wi_prefetched (se_inner se' i) = wi_prefetched (se_inner se i))"
  using assms(2,3)
proof (induction stmt arbitrary: se)
  case (Calls i args k)
  then have i: "answering lib (workers ! i) (A i)" "serving lib (A i) (se_inner se i)"
    using assms(1) by (auto simp: answering_all_def serving_all_def)
  obtain wi sh where call: "worker_call lib (workers ! i) args (se_inner se i) (se_shared se) = (reply_of (A i args), wi, sh)"
    and wi: "serving lib (A i) wi" "wi_prefetched wi = wi_prefetched (se_inner se i)"
    using call_serving [OF i] by metis
  let ?se = "\<lparr>se_inner = (se_inner se)(i := wi), se_shared = sh\<rparr>"
  have "serving_all lib workers A ?se" using Calls.prems(1) wi by (auto simp: serving_all_def)
  moreover have "calls_only (length workers) (k (map_sum id rp_value (reply_of (A i args))))" using Calls.prems(2) by simp
  ultimately obtain se' where "run_calls lib workers (k (map_sum id rp_value (reply_of (A i args)))) ?se =
      (answered A (k (map_sum id rp_value (reply_of (A i args)))), se')"
    "serving_all lib workers A se'" "\<forall>j. wi_prefetched (se_inner se' j) = wi_prefetched (se_inner ?se j)"
    using Calls.IH [OF rangeI, of ?se] by blast
  then show ?case using call wi(2) by (auto simp: session_call_def)
qed simp

lemma serving_not_invoked: "serving lib A wi \<Longrightarrow> \<not> was_invoked wi"
  by (simp add: serving_def was_invoked_def)

lemma call_in_pass:
  assumes "answering lib wk A" "in_pass lib wk A wi"
  shows "\<exists>r wi' sh'. worker_call lib wk args wi sh = (r, wi', sh') \<and> in_pass lib wk A wi' \<and>
    (was_invoked wi \<longrightarrow> was_invoked wi') \<and> (was_invoked wi' \<or> r = reply_of (A args))"
proof (cases "wk_batch wk")
  case None
  then have "serving lib A wi" using assms(2) by (simp add: in_pass_def)
  from call_serving [OF assms(1) this, of args sh] obtain wi' sh' where
    "worker_call lib wk args wi sh = (reply_of (A args), wi', sh')" "serving lib A wi'" by metis
  then show ?thesis using None serving_not_invoked [OF \<open>serving lib A wi\<close>] by (auto simp: in_pass_def)
next
  case (Some n)
  then have "collecting lib wk A wi" using assms(2) by (simp add: in_pass_def)
  from call_collecting [OF assms(1) this, of args sh] show ?thesis using Some by (auto simp: in_pass_def)
qed

lemma run_collecting:
  assumes "answering_all lib workers A" "collecting_all lib workers A se" "calls_only (length workers) stmt"
  shows "\<exists>r se'. run_calls lib workers stmt se = (r, se') \<and> collecting_all lib workers A se' \<and>
    (\<forall>i<length workers. was_invoked (se_inner se i) \<longrightarrow> was_invoked (se_inner se' i)) \<and>
    ((\<forall>i<length workers. \<not> was_invoked (se_inner se' i)) \<longrightarrow> r = answered A stmt)"
  using assms(2,3)
proof (induction stmt arbitrary: se)
  case (Calls i args k)
  then have i: "answering lib (workers ! i) (A i)" "in_pass lib (workers ! i) (A i) (se_inner se i)" "i < length workers"
    using assms(1) by (auto simp: answering_all_def collecting_all_def)
  obtain r wi sh where call: "worker_call lib (workers ! i) args (se_inner se i) (se_shared se) = (r, wi, sh)"
    and wi: "in_pass lib (workers ! i) (A i) wi" "was_invoked (se_inner se i) \<longrightarrow> was_invoked wi" "was_invoked wi \<or> r = reply_of (A i args)"
    using call_in_pass [OF i(1,2)] by metis
  let ?se = "\<lparr>se_inner = (se_inner se)(i := wi), se_shared = sh\<rparr>" and ?x = "map_sum id rp_value r"
  have "collecting_all lib workers A ?se" using Calls.prems(1) wi(1) by (auto simp: collecting_all_def)
  moreover have "calls_only (length workers) (k ?x)" using Calls.prems(2) by simp
  ultimately obtain r' se' where run: "run_calls lib workers (k ?x) ?se = (r', se')" "collecting_all lib workers A se'"
    and inv: "\<forall>j<length workers. was_invoked (se_inner ?se j) \<longrightarrow> was_invoked (se_inner se' j)"
    and ans: "(\<forall>j<length workers. \<not> was_invoked (se_inner se' j)) \<longrightarrow> r' = answered A (k ?x)"
    using Calls.IH [OF rangeI, of ?se] by blast
  have "r' = answered A (Calls i args k)" if "\<forall>j<length workers. \<not> was_invoked (se_inner se' j)"
  proof -
    have "\<not> was_invoked wi" using that inv i(3) by fastforce
    then show ?thesis using wi(3) ans that by simp
  qed
  moreover have "\<forall>j<length workers. was_invoked (se_inner se j) \<longrightarrow> was_invoked (se_inner se' j)" using inv wi(2) by (auto split: if_splits)
  ultimately show ?case using call run by (simp add: session_call_def)
qed simp

lemma end_each_serves:
  assumes "answering_all lib workers A" "distinct is" "\<forall>i\<in>set is. i < length workers \<and> collecting lib (workers ! i) (A i) (se_inner se i)"
  shows "\<exists>se'. end_each lib workers is invoked se = (Inr (invoked \<or> (\<exists>i\<in>set is. was_invoked (se_inner se i))), se') \<and>
    (\<forall>i\<in>set is. serving lib (A i) (se_inner se' i)) \<and> (\<forall>i. i \<notin> set is \<longrightarrow> se_inner se' i = se_inner se i)"
  using assms(2,3)
proof (induction "is" arbitrary: se invoked)
  case (Cons i "is")
  then have i: "answering lib (workers ! i) (A i)" "collecting lib (workers ! i) (A i) (se_inner se i)"
    using assms(1) by (auto simp: answering_all_def)
  obtain wi sh where e: "end_collect lib (workers ! i) (se_inner se i) (se_shared se) = (Inr (was_invoked (se_inner se i)), wi, sh)"
    and wi: "serving lib (A i) wi" using end_collect_serves [OF i] by metis
  let ?se = "\<lparr>se_inner = (se_inner se)(i := wi), se_shared = sh\<rparr>" and ?b = "invoked \<or> was_invoked (se_inner se i)"
  have same: "se_inner ?se j = se_inner se j" if "j \<in> set is" for j using that Cons.prems(1) by auto
  obtain se' where "end_each lib workers is ?b ?se = (Inr (?b \<or> (\<exists>j\<in>set is. was_invoked (se_inner ?se j))), se')"
    "\<forall>j\<in>set is. serving lib (A j) (se_inner se' j)" "\<forall>j. j \<notin> set is \<longrightarrow> se_inner se' j = se_inner ?se j"
    using Cons.IH [of ?se ?b] Cons.prems same by auto
  moreover have "(\<exists>j\<in>set is. was_invoked (se_inner ?se j)) = (\<exists>j\<in>set is. was_invoked (se_inner se j))" using same by auto
  ultimately show ?case using e wi Cons.prems(1) by auto
qed simp

lemma set_batched_of: "i \<in> set (batched_of workers) \<longleftrightarrow> i < length workers \<and> wk_batch (workers ! i) \<noteq> None"
  by (auto simp: batched_of_def)

lemma distinct_batched_of: "distinct (batched_of workers)"
  by (simp add: batched_of_def)

lemma update_each_inner: "se_inner (update_each is f se) i = (if i \<in> set is then f i (se_inner se i) else se_inner se i)"
  by (simp add: update_each_def)

lemma quiet_in_pass:
  assumes "quiet workers se"
  shows "collecting_all lib workers A (update_each (batched_of workers) (\<lambda>i. begin_collect (workers ! i)) se)"
  using assms
  by (auto simp: collecting_all_def in_pass_def update_each_inner set_batched_of quiet_def begin_collect_def collecting_def serving_def
      collect_default_def true_replies_def Let_def)

lemma quiet_serving: "quiet workers se \<Longrightarrow> serving_all lib workers A se"
  by (auto simp: quiet_def serving_all_def serving_def true_replies_def)

section \<open>Properties\<close>

text \<open>The collect pass of a query and its end: the workers serve, and the answer stands unless one was asked.\<close>

lemma collect_pass_serves:
  assumes "answering_all lib workers A" "quiet workers se" "calls_only (length workers) stmt"
  obtains r se1 se2 where
    "run_calls lib workers stmt (update_each (batched_of workers) (\<lambda>i. begin_collect (workers ! i)) se) = (r, se1)"
    "end_each lib workers (batched_of workers) False se1 = (Inr (\<exists>i\<in>set (batched_of workers). was_invoked (se_inner se1 i)), se2)"
    "serving_all lib workers A se2" "\<not> (\<exists>i\<in>set (batched_of workers). was_invoked (se_inner se1 i)) \<Longrightarrow> r = answered A stmt"
proof -
  let ?batched = "batched_of workers"
  obtain r se1 where run: "run_calls lib workers stmt (update_each ?batched (\<lambda>i. begin_collect (workers ! i)) se) = (r, se1)"
      "collecting_all lib workers A se1"
    and ans: "(\<forall>i<length workers. \<not> was_invoked (se_inner se1 i)) \<longrightarrow> r = answered A stmt"
    using run_collecting [OF assms(1) quiet_in_pass [OF assms(2)] assms(3)] by blast
  have "\<forall>i\<in>set ?batched. i < length workers \<and> collecting lib (workers ! i) (A i) (se_inner se1 i)"
    using run(2) by (auto simp: set_batched_of collecting_all_def in_pass_def)
  from end_each_serves [OF assms(1) distinct_batched_of this, of False]
  obtain se2 where e: "end_each lib workers ?batched False se1 = (Inr (\<exists>i\<in>set ?batched. was_invoked (se_inner se1 i)), se2)"
    and s: "\<forall>i\<in>set ?batched. serving lib (A i) (se_inner se2 i)" "\<forall>i. i \<notin> set ?batched \<longrightarrow> se_inner se2 i = se_inner se1 i"
    by auto
  have "serving lib (A i) (se_inner se2 i)" if "i < length workers" for i
    using that s run(2) by (cases "i \<in> set ?batched") (auto simp: set_batched_of collecting_all_def in_pass_def)
  then have "serving_all lib workers A se2" by (simp add: serving_all_def)
  moreover have "\<not> was_invoked (se_inner se1 i)"
    if "\<not> (\<exists>i\<in>set ?batched. was_invoked (se_inner se1 i))" "i < length workers" for i
    using that run(2) serving_not_invoked [of lib "A i" "se_inner se1 i"]
    by (cases "i \<in> set ?batched") (auto simp: set_batched_of collecting_all_def in_pass_def)
  ultimately show thesis using that [OF run(1) e] ans by blast
qed

text \<open>C24: batching does not show in the result. Over workers that answer each call by its arguments, and a request
  of at most as many calls as they batch as each call alone, a query gives what its statement gives when
  every call is answered by its worker at once, whatever stood in for the replies while they were
  gathered; it does not fail for a worker, and the workers hold nothing for the next query.\<close>

theorem batched_query_as_single_calls:
  assumes "answering_all lib workers A" "quiet workers se" "calls_only (length workers) stmt"
  shows "fst (query_ordered_with lib workers stmt se) = Inr (answered A stmt) \<and>
    (\<forall>i<length workers. wk_batch (workers ! i) \<noteq> None \<longrightarrow> wi_collect (se_inner (snd (query_ordered_with lib workers stmt se)) i) = None \<and>
       wi_prefetched (se_inner (snd (query_ordered_with lib workers stmt se)) i) = Map.empty)"
proof -
  let ?se = "se\<lparr>se_shared := (se_shared se)\<lparr>sh_count := 0, sh_cached := 0\<rparr>\<rparr>" and ?batched = "batched_of workers"
  let ?begun = "update_each ?batched (\<lambda>i. begin_collect (workers ! i)) ?se"
  have q: "quiet workers ?se" using assms(2) by (simp add: quiet_def)
  have cleared: "\<forall>i<length workers. wk_batch (workers ! i) \<noteq> None \<longrightarrow>
      wi_collect (se_inner (update_each ?batched (\<lambda>i. clear_worker) s) i) = None \<and>
      wi_prefetched (se_inner (update_each ?batched (\<lambda>i. clear_worker) s) i) = Map.empty" for s
    by (simp add: update_each_inner set_batched_of clear_worker_def)
  show ?thesis
  proof (cases "?batched = []")
    case True
    then have "wk_batch (workers ! i) = None" if "i < length workers" for i using that set_batched_of [of i workers] by simp
    then show ?thesis using run_serving [OF assms(1) quiet_serving [OF q] assms(3)] True
      by (auto simp: query_ordered_with_def Let_def)
  next
    case False
    obtain r se1 se2 where pass: "run_calls lib workers stmt ?begun = (r, se1)"
      "end_each lib workers ?batched False se1 = (Inr (\<exists>i\<in>set ?batched. was_invoked (se_inner se1 i)), se2)"
      "serving_all lib workers A se2" "\<not> (\<exists>i\<in>set ?batched. was_invoked (se_inner se1 i)) \<Longrightarrow> r = answered A stmt"
      using collect_pass_serves [OF assms(1) q assms(3)] by blast
    obtain se3 where "run_calls lib workers stmt se2 = (answered A stmt, se3)"
      using run_serving [OF assms(1) pass(3) assms(3)] by blast
    then show ?thesis
      using False pass cleared [of se2] cleared [of se3]
      by (cases "\<exists>i\<in>set ?batched. was_invoked (se_inner se1 i)") (simp_all add: query_ordered_with_def Let_def)
  qed
qed

text \<open>A statement whose calls do not depend on the replies.\<close>

primrec calling :: "sql_value list list \<Rightarrow> (rstr + sql_value) list \<Rightarrow> ((rstr + sql_value) list \<Rightarrow> 'r) \<Rightarrow> 'r statement" where
  "calling [] xs f = Finished (f xs)"
| "calling (args # rest) xs f = Calls 0 args (\<lambda>x. calling rest (xs @ [x]) f)"

lemma calling_accounted:
  assumes "answering lib wk A" "collecting lib wk A (se_inner se 0)" "accounted lib (se_inner se 0) (se_shared se) K"
  shows "\<exists>r se'. run_calls lib [wk] (calling argss xs f) se = (r, se') \<and> collecting lib wk A (se_inner se' 0) \<and>
    accounted lib (se_inner se' 0) (se_shared se') (K \<union> request_line lib ` set argss) \<and>
    (was_invoked (se_inner se 0) \<or> argss \<noteq> [] \<longrightarrow> was_invoked (se_inner se' 0))"
  using assms(2,3)
proof (induction argss arbitrary: se xs K)
  case (Cons args argss)
  obtain r wi sh where call: "worker_call lib wk args (se_inner se 0) (se_shared se) = (r, wi, sh)"
    and wi: "collecting lib wk A wi" "was_invoked wi" "accounted lib wi sh (insert (request_line lib args) K)"
    using call_collecting [OF assms(1) Cons.prems(1)] Cons.prems(2) by blast
  let ?se = "\<lparr>se_inner = (se_inner se)(0 := wi), se_shared = sh\<rparr>"
  from Cons.IH [of ?se "insert (request_line lib args) K" "xs @ [map_sum id rp_value r]"] wi
  show ?case using call by (auto simp: session_call_def)
qed auto

lemma calling_served:
  assumes "answering lib wk A" "serving lib A (se_inner se 0)" "request_line lib ` set argss \<subseteq> dom (wi_prefetched (se_inner se 0))"
  shows "se_shared (snd (run_calls lib [wk] (calling argss xs f) se)) = se_shared se"
  using assms(2,3)
proof (induction argss arbitrary: se xs)
  case (Cons args argss)
  obtain wi sh where call: "worker_call lib wk args (se_inner se 0) (se_shared se) = (reply_of (A args), wi, sh)"
    and wi: "serving lib A wi" "wi_prefetched wi = wi_prefetched (se_inner se 0)" "sh = se_shared se"
    using call_serving [OF assms(1) Cons.prems(1), of args "se_shared se"] Cons.prems(2) by auto
  let ?se = "\<lparr>se_inner = (se_inner se)(0 := wi), se_shared = sh\<rparr>"
  have "se_shared (snd (run_calls lib [wk] (calling argss (xs @ [map_sum id rp_value (reply_of (A args))]) f) ?se)) = se_shared ?se"
    using Cons.prems wi by (intro Cons.IH) auto
  then show ?case using call wi(3) by (simp add: session_call_def)
qed simp

text \<open>C25: a worker that batches is asked for each tuple of arguments once. Where a statement's calls do not depend
  on the replies, the calls counted are its different requests, however often it makes one of
  them and in how many batches they go out.\<close>

theorem query_asks_once:
  assumes "answering lib wk A" "wk_batch wk = Some n" "quiet [wk] se"
  shows "sh_count (se_shared (snd (query_ordered_with lib [wk] (calling argss [] f) se))) = card (request_line lib ` set argss)"
proof -
  let ?se = "se\<lparr>se_shared := (se_shared se)\<lparr>sh_count := 0, sh_cached := 0\<rparr>\<rparr>"
  let ?begun = "update_each [0] (\<lambda>i. begin_collect ([wk] ! i)) ?se"
  have batched: "batched_of [wk] = [0]" using assms(2) by (simp add: batched_of_def)
  have "collecting_all lib [wk] (\<lambda>i. A) ?begun" using quiet_in_pass [of "[wk]" ?se lib "\<lambda>i. A"] assms(3) batched by (simp add: quiet_def)
  then have c: "collecting lib wk A (se_inner ?begun 0)" using assms(2) by (simp add: collecting_all_def in_pass_def)
  have a: "accounted lib (se_inner ?begun 0) (se_shared ?begun) {}"
    using assms(2) by (simp add: accounted_def update_each_def begin_collect_def collect_default_def Let_def)
  obtain r se1 where run: "run_calls lib [wk] (calling argss [] f) ?begun = (r, se1)" "collecting lib wk A (se_inner se1 0)"
    "accounted lib (se_inner se1 0) (se_shared se1) (request_line lib ` set argss)"
    using calling_accounted [OF assms(1) c a, of argss "[]" f] unfolding Un_empty_left by blast
  obtain wi sh where e: "end_collect lib wk (se_inner se1 0) (se_shared se1) = (Inr (was_invoked (se_inner se1 0)), wi, sh)"
    and s: "serving lib A wi" "dom (wi_prefetched wi) = request_line lib ` set argss" "sh_count sh = card (request_line lib ` set argss)"
    using end_collect_serves [OF assms(1) run(2), of "se_shared se1"] run(3) by auto
  let ?se2 = "\<lparr>se_inner = (se_inner se1)(0 := wi), se_shared = sh\<rparr>"
  obtain r2 se3 where run2: "run_calls lib [wk] (calling argss [] f) ?se2 = (r2, se3)" by fastforce
  then have "se_shared se3 = sh" using calling_served [OF assms(1), of ?se2 argss "[]" f] s by simp
  then show ?thesis using run(1) e s(3) batched run2 by (simp add: query_ordered_with_def Let_def update_each_def)
qed

text \<open>A worker that answers \<open>1\<close> to every call, and so many of them to a batch.\<close>

fun small_text :: "wire \<Rightarrow> rstr" where
  "small_text (W_Object [(k, W_Array ws)]) =
     (if k = ascii ''call'' then 99 # map (\<lambda>w. case w of W_Int i \<Rightarrow> nat i | _ \<Rightarrow> 0) ws else replicate (length ws) 98)"
| "small_text w = []"

definition one :: wire where
  "one = W_Object [(ascii ''ok'', W_Int 1)]"

definition small_lib :: wire_lib where
  "small_lib = \<lparr>wl_text = small_text,
     wl_parse = (\<lambda>line. Inr (if line \<noteq> [] \<and> hd line = 99 then one
       else W_Object [(ascii ''results'', W_Array (replicate (length line) one))])),
     wl_encode = (\<lambda>bs. []), wl_decode = (\<lambda>s. None), wl_duration = (\<lambda>d. [])\<rparr>"

definition small_worker :: "rstr worker" where
  "small_worker = \<lparr>wk_name = ascii ''f'', wk_command = ascii ''w'', wk_timeout = 1, wk_batch = Some 2,
     wk_process = \<lparr>pr_spawn = (\<lambda>w. (Inr (), w)), pr_send = (\<lambda>line w. (True, line)), pr_recv = (\<lambda>t w. (Inr w, w)), pr_kill = id\<rparr>\<rparr>"

definition small_session :: "rstr session" where
  "small_session = \<lparr>se_inner = (\<lambda>i. \<lparr>wi_running = False, wi_collect = None, wi_prefetched = Map.empty\<rparr>),
     se_shared = \<lparr>sh_world = [], sh_count = 0, sh_cached = 0\<rparr>\<rparr>"

definition small_calls :: "sql_value list list" where
  "small_calls = [[Integer 5], [Integer 6], [Integer 5], [Integer 7]]"

lemma parse_one: "parse_response_value lib one = Inr (Ok_Response (Integer 1) False)"
proof -
  have "ascii ''ok'' \<noteq> ascii ''err''" "ascii ''ok'' \<noteq> ascii ''meta''" by code_simp+
  then show ?thesis by (simp add: parse_response_value_def one_def wire_get_def cached_flag_def)
qed

lemma small_entries: "parse_entries lib i (replicate n one) = Inr (replicate n (Ok_Response (Integer 1) False))"
  by (induction n arbitrary: i) (simp_all add: parse_one)

lemma small_answering: "answering small_lib small_worker (\<lambda>args. Ok_Response (Integer 1) False)"
proof -
  have "wl_parse small_lib (request_line small_lib args) = Inr one" for args
    by (simp add: small_lib_def request_line_def)
  then have "parse_response small_lib (request_line small_lib args) = Inr (Ok_Response (Integer 1) False)" for args
    by (simp add: parse_response_def parse_line_def parse_one)
  moreover have "parse_batched_response small_lib (batched_request_line small_lib calls) (length calls) =
      Inr (map (\<lambda>args. Ok_Response (Integer 1) False) calls)" for calls
  proof -
    have keys: "ascii ''results'' \<noteq> ascii ''err''" "ascii ''calls'' \<noteq> ascii ''call''" by code_simp+
    then have "batched_request_line small_lib calls = replicate (length calls) 98"
      by (simp add: small_lib_def batched_request_line_def)
    then have "parse_line small_lib (batched_request_line small_lib calls) =
        Inr (W_Object [(ascii ''results'', W_Array (replicate (length calls) one))])"
      by (cases calls) (simp_all add: parse_line_def small_lib_def)
    then show ?thesis using keys(1) by (simp add: parse_batched_response_def wire_get_def small_entries map_replicate_const)
  qed
  ultimately show ?thesis
    by (simp add: answering_def answers_calls_def answers_batches_def small_worker_def)
qed

theorem batched_query_as_single_calls_witness:
  "fst (query_ordered_with small_lib [small_worker] (calling small_calls [] length) small_session) = Inr 4"
proof -
  have "answering_all small_lib [small_worker] (\<lambda>i args. Ok_Response (Integer 1) False)"
    using small_answering by (simp add: answering_all_def)
  moreover have "quiet [small_worker] small_session" by (simp add: quiet_def small_session_def)
  moreover have "calls_only (length [small_worker]) (calling small_calls [] length)" by (simp add: small_calls_def)
  ultimately have "fst (query_ordered_with small_lib [small_worker] (calling small_calls [] length) small_session) =
      Inr (answered (\<lambda>i args. Ok_Response (Integer 1) False) (calling small_calls [] length))"
    by (rule batched_query_as_single_calls [THEN conjunct1])
  then show ?thesis by (simp add: small_calls_def)
qed

theorem query_asks_once_witness:
  "sh_count (se_shared (snd (query_ordered_with small_lib [small_worker] (calling small_calls [] length) small_session))) =
     card {[99, 5], [99, 6], [99, 7::nat]}"
proof -
  have "quiet [small_worker] small_session" by (simp add: quiet_def small_session_def)
  moreover have "request_line small_lib ` set small_calls = {[99, 5], [99, 6], [99, 7]}"
    by (simp add: small_calls_def request_line_def small_lib_def encode_args_def insert_commute)
  moreover have "wk_batch small_worker = Some 2" by (simp add: small_worker_def)
  ultimately show ?thesis using query_asks_once [OF small_answering, of 2 small_session small_calls length] by simp
qed

end
