(* ===== verification/Row_Stream.thy ===== *)
theory Row_Stream
  imports Prelude
begin

text \<open>
  \<open>packages/rust/src/row_stream.rs\<close>: the rows of one statement, handed over in chunks while a scan makes
  them. A reader that would block is \<open>Waiting\<close>; the lock makes each operation one step.
\<close>

section \<open>The stream\<close>

record 'r row_stream =
  rs_chunks :: "'r list list"
  rs_done :: bool
  rs_failed :: bool

datatype 'a waited = Waiting | Panics | Ready 'a

definition stream_default :: "'r row_stream" where
  "stream_default = \<lparr>rs_chunks = [], rs_done = False, rs_failed = False\<rparr>"

definition stream_push :: "'r list \<Rightarrow> 'r row_stream \<Rightarrow> 'r row_stream" where
  "stream_push chunk s = (if chunk = [] then s else s\<lparr>rs_chunks := rs_chunks s @ [chunk]\<rparr>)"

definition stream_finish :: "bool \<Rightarrow> 'r row_stream \<Rightarrow> 'r row_stream" where
  "stream_finish failed s = s\<lparr>rs_done := True, rs_failed := failed\<rparr>"

definition stream_settled :: "'r row_stream \<Rightarrow> 'r list list waited" where
  "stream_settled s = (if \<not> rs_done s then Waiting else if rs_failed s then Panics else Ready (rs_chunks s))"

definition stream_chunk :: "nat \<Rightarrow> 'r row_stream \<Rightarrow> 'r list option waited" where
  "stream_chunk n s =
     (if \<not> rs_done s \<and> length (rs_chunks s) \<le> n then Waiting
      else if rs_failed s then Panics
      else Ready (get (rs_chunks s) n))"

definition stream_len :: "'r row_stream \<Rightarrow> nat" where
  "stream_len s = sum_list (map length (rs_chunks s))"

section \<open>A finished stream by position\<close>

fun starts_from :: "nat \<Rightarrow> 'r list list \<Rightarrow> nat list" where
  "starts_from nx [] = []"
| "starts_from nx (c # cs) = nx # starts_from (nx + length c) cs"

definition settled_starts :: "'r list list \<Rightarrow> nat list" where
  "settled_starts chunks = starts_from 0 chunks"

text \<open>\<open>slice::partition_point\<close>, on a slice whose elements that hold come first.\<close>

definition partition_point :: "('a \<Rightarrow> bool) \<Rightarrow> 'a list \<Rightarrow> nat" where
  "partition_point P xs = length (takeWhile P xs)"

definition settled_get :: "'r list list \<Rightarrow> nat \<Rightarrow> 'r option" where
  "settled_get chunks p =
     (case partition_point (\<lambda>s. s \<le> p) (settled_starts chunks) of
        0 \<Rightarrow> None
      | Suc n \<Rightarrow> get (chunks ! n) (p - settled_starts chunks ! n))"

definition settled_rows :: "'r list list \<Rightarrow> 'r list" where
  "settled_rows chunks = concat chunks"

section \<open>What readers are given\<close>

lemma length_starts_from [simp]: "length (starts_from nx cs) = length cs"
  by (induction nx cs rule: starts_from.induct) auto

lemma starts_from_ge: "s \<in> set (starts_from nx cs) \<Longrightarrow> nx \<le> s"
  by (induction nx cs rule: starts_from.induct) force+

lemma takeWhile_starts: "p < nx \<Longrightarrow> takeWhile (\<lambda>s. s \<le> p) (starts_from nx cs) = []"
  by (cases cs) auto

lemma get_append: "get (xs @ ys) n = (if n < length xs then get xs n else get ys (n - length xs))"
  by (auto simp: get_def nth_append)

lemma settled_get_from:
  assumes "nx \<le> p"
  shows "(case partition_point (\<lambda>s. s \<le> p) (starts_from nx cs) of 0 \<Rightarrow> None
    | Suc n \<Rightarrow> get (cs ! n) (p - starts_from nx cs ! n)) = get (concat cs) (p - nx)"
  using assms
proof (induction nx cs rule: starts_from.induct)
  case (2 nx c cs)
  show ?case
  proof (cases "nx + length c \<le> p")
    case True
    show ?thesis
    proof (cases "partition_point (\<lambda>s. s \<le> p) (starts_from (nx + length c) cs)")
      case 0
      then have "cs = []" using True by (cases cs) (auto simp: partition_point_def)
      then show ?thesis using 2 True by (auto simp: partition_point_def get_def)
    next
      case (Suc n)
      then show ?thesis using 2 True by (auto simp: partition_point_def get_append diff_diff_left)
    qed
  next
    case False
    then have "takeWhile (\<lambda>s. s \<le> p) (starts_from (nx + length c) cs) = []" by (simp add: takeWhile_starts)
    then show ?thesis using 2 False by (auto simp: partition_point_def get_append)
  qed
qed (simp add: partition_point_def get_def)

text \<open>A position finds the row it has in the whole, empty chunks or not.\<close>

lemma settled_get_concat: "settled_get chunks p = get (concat chunks) p"
  using settled_get_from [of 0 p chunks] unfolding settled_get_def settled_starts_def by simp

text \<open>What a reader was given, a later reader is given too: pushes only add, and a scan fails only at its end.\<close>

lemma stream_chunk_push:
  assumes "stream_chunk n s = Ready (Some c)" "\<not> rs_done s"
  shows "stream_chunk n (stream_push chunk s) = Ready (Some c)" "stream_chunk n (stream_finish False s) = Ready (Some c)"
  using assms by (auto simp: stream_chunk_def stream_push_def stream_finish_def get_append split: if_splits)

lemma stream_pushes:
  "fold stream_push cs s = s\<lparr>rs_chunks := rs_chunks s @ filter (\<lambda>c. c \<noteq> []) cs\<rparr>"
  by (induction cs arbitrary: s) (auto simp: stream_push_def)

text \<open>A stream that was pushed \<open>cs\<close> and finished: every chunk it hands out holds a row, and in order they
  are the rows pushed.\<close>

lemma stream_hands_out:
  assumes "s = stream_finish False (fold stream_push cs stream_default)"
  shows "stream_settled s = Ready (filter (\<lambda>c. c \<noteq> []) cs)" "stream_chunk n s = Ready (get (filter (\<lambda>c. c \<noteq> []) cs) n)"
    "settled_rows (filter (\<lambda>c. c \<noteq> []) cs) = concat cs"
  unfolding assms stream_pushes
  by (auto simp: stream_settled_def stream_chunk_def stream_finish_def stream_default_def settled_rows_def)
    (induction cs, auto)

end
