(* ===== verification/Vtab_Cursor.thy ===== *)
theory Vtab_Cursor
  imports Row_Stream Row_Value Sql_Literal Utf8
begin

unbundle bit_operations_syntax

text \<open>
  \<open>packages/rust/src/vtab_scaffold.rs\<close>: what every \<open>dirsql_*\<close> virtual table is built from. SQLite calls
  these operations and is a parameter; so is the source, a table's own rows and cells. The rows a
  cursor reads are the chunks of a stream as its scan leaves them; by the lemmas of \<open>Row_Stream\<close> a reader
  that does not wait for the end is given the same chunks.
\<close>

datatype value_ref = Ref_Null | Ref_Integer int | Ref_Real f64 | Ref_Text bytes | Ref_Blob bytes

section \<open>Plans\<close>

record constraint =
  cn_column :: int
  cn_usable :: bool
  cn_equality :: bool

record lookup =
  lk_constraint :: nat
  lk_column :: nat

fun choose_lookup :: "nat list \<Rightarrow> constraint list \<Rightarrow> lookup option" where
  "choose_lookup [] constraints = None"
| "choose_lookup (column # columns) constraints =
     (case (if column < 2 ^ 31
            then position (\<lambda>c. cn_usable c \<and> cn_equality c \<and> cn_column c = int column) constraints else None) of
        Some i \<Rightarrow> Some \<lparr>lk_constraint = i, lk_column = column\<rparr>
      | None \<Rightarrow> choose_lookup columns constraints)"

text \<open>An \<open>idxNum\<close>, a C integer of 32 bits.\<close>

definition scan_idx :: "32 word" where
  "scan_idx = 0"

definition prefetch_idx :: "32 word" where
  "prefetch_idx = push_bit 30 1"

definition lookup_idx_num :: "nat \<Rightarrow> 32 word" where
  "lookup_idx_num column = (if column + 1 < 2 ^ 31 then of_nat (column + 1) else scan_idx)"

definition plan_idx_num :: "nat option \<Rightarrow> bool \<Rightarrow> 32 word" where
  "plan_idx_num lookup prefetch =
     (let l = (case lookup of None \<Rightarrow> scan_idx | Some column \<Rightarrow> lookup_idx_num column) in
      if prefetch then l + prefetch_idx else l)"

definition lookup_column :: "32 word \<Rightarrow> nat option" where
  "lookup_column idx_num =
     (let n = sint (idx_num AND NOT prefetch_idx) in if n \<le> 0 then None else Some (nat n - 1))"

definition prefetches :: "32 word \<Rightarrow> bool" where
  "prefetches idx_num \<longleftrightarrow> idx_num AND prefetch_idx \<noteq> 0"

definition names_column :: "64 word \<Rightarrow> nat \<Rightarrow> bool" where
  "names_column col_used column \<longleftrightarrow> column < 64 \<and> bit col_used column"

definition scan_cost :: nat where "scan_cost = 1000"
definition cheap_lookup_cost :: nat where "cheap_lookup_cost = 10"
definition prefetch_lookup_cost :: nat where "prefetch_lookup_cost = 100"

definition lookup_cost :: "bool \<Rightarrow> nat" where
  "lookup_cost prefetch = (if prefetch then prefetch_lookup_cost else cheap_lookup_cost)"

section \<open>The source of a table\<close>

record 'r source =
  so_lookup_columns :: "nat list"
  so_lookup_key :: "'r \<Rightarrow> nat \<Rightarrow> bytes option"
  so_prefetch_column :: "nat option"
  so_held_columns :: nat
  so_cell :: "'r \<Rightarrow> nat \<Rightarrow> value_ref"

text \<open>\<open>best_index\<close>: the constraint handed to \<open>filter\<close>, the \<open>idxNum\<close> and the cost.\<close>

definition best_index :: "'r source \<Rightarrow> 64 word \<Rightarrow> constraint list \<Rightarrow> nat option \<times> 32 word \<times> nat" where
  "best_index src col_used constraints =
     (let prefetch = (case so_prefetch_column src of None \<Rightarrow> False | Some c \<Rightarrow> names_column col_used c) in
      case choose_lookup (so_lookup_columns src) constraints of
        Some l \<Rightarrow> (Some (lk_constraint l), plan_idx_num (Some (lk_column l)) prefetch, lookup_cost prefetch)
      | None \<Rightarrow> (None, plan_idx_num None prefetch, scan_cost))"

text \<open>The module's arguments, less the three SQLite prepends.\<close>

definition user_args :: "bytes list \<Rightarrow> rstr list" where
  "user_args args = map (\<lambda>a. unquote (from_utf8_lossy a)) (drop 3 args)"

definition table_name :: "bytes list \<Rightarrow> rstr" where
  "table_name args = (case get args 2 of None \<Rightarrow> [] | Some n \<Rightarrow> from_utf8_lossy n)"

definition arity_error :: "rstr \<Rightarrow> nat \<Rightarrow> rstr \<Rightarrow> nat \<Rightarrow> rstr" where
  "arity_error module wanted names got =
     module @ ascii '' takes at least '' @ show_nat wanted @ ascii '' arguments ('' @ names @ ascii ''), got '' @ show_nat got"

section \<open>Lookups\<close>

definition text_key :: "value_ref \<Rightarrow> bytes option" where
  "text_key v = (case v of Ref_Text t \<Rightarrow> Some t | _ \<Rightarrow> None)"

definition scan_matching :: "('r \<Rightarrow> nat \<Rightarrow> bytes option) \<Rightarrow> 'r list \<Rightarrow> nat \<Rightarrow> bytes \<Rightarrow> nat list" where
  "scan_matching row_key rows column key =
     map fst (filter (\<lambda>(p, row). row_key row column = Some key) (enumerate 0 rows))"

record lookup_index =
  li_column :: nat
  li_positions :: "bytes \<rightharpoonup> nat list"

fun build_positions ::
  "('r \<Rightarrow> nat \<Rightarrow> bytes option) \<Rightarrow> nat \<Rightarrow> nat \<Rightarrow> 'r list \<Rightarrow> (bytes \<rightharpoonup> nat list) \<Rightarrow> (bytes \<rightharpoonup> nat list)"
where
  "build_positions key column p [] m = m"
| "build_positions key column p (r # rs) m =
     build_positions key column (p + 1) rs
       (case key r column of
          None \<Rightarrow> m
        | Some t \<Rightarrow> m(t \<mapsto> (case m t of None \<Rightarrow> [] | Some ps \<Rightarrow> ps) @ [p]))"

definition build_index :: "('r \<Rightarrow> nat \<Rightarrow> bytes option) \<Rightarrow> 'r list \<Rightarrow> nat \<Rightarrow> lookup_index" where
  "build_index key rows column = \<lparr>li_column = column, li_positions = build_positions key column 0 rows Map.empty\<rparr>"

definition index_matching :: "lookup_index \<Rightarrow> bytes \<Rightarrow> nat list" where
  "index_matching ix key = (case li_positions ix key of None \<Rightarrow> [] | Some ps \<Rightarrow> ps)"

section \<open>Reading in order\<close>

record 'r reading =
  rd_n :: nat
  rd_start :: nat
  rd_chunk :: "'r list option"

definition reading_from :: "'r list list \<Rightarrow> nat \<Rightarrow> nat \<Rightarrow> 'r reading" where
  "reading_from chunks n start = \<lparr>rd_n = n, rd_start = start, rd_chunk = get chunks n\<rparr>"

definition reading_row :: "'r reading \<Rightarrow> nat \<Rightarrow> 'r option" where
  "reading_row rd step =
     (case rd_chunk rd of
        None \<Rightarrow> None
      | Some chunk \<Rightarrow> if step < rd_start rd then None else get chunk (step - rd_start rd))"

definition reading_advanced :: "'r list list \<Rightarrow> nat \<Rightarrow> 'r reading \<Rightarrow> 'r reading" where
  "reading_advanced chunks step rd =
     (case rd_chunk rd of
        Some chunk \<Rightarrow>
          if rd_start rd + length chunk \<le> step
          then reading_from chunks (rd_n rd + 1) (rd_start rd + length chunk) else rd
      | None \<Rightarrow> rd)"

section \<open>The cursor\<close>

datatype 'r selection = Every "'r reading" | Only "nat list"

record 'r cursor =
  cu_scanned :: "nat option"
  cu_index :: "lookup_index option"
  cu_selection :: "'r selection"
  cu_step :: nat

definition cursor_open :: "'r cursor" where
  "cursor_open = \<lparr>cu_scanned = None, cu_index = None,
     cu_selection = Every \<lparr>rd_n = 0, rd_start = 0, rd_chunk = None\<rparr>, cu_step = 0\<rparr>"

text \<open>\<open>chunks\<close> are the rows of the statement, which the cursor takes on its first filter and keeps.\<close>

definition select_by_lookup :: "'r source \<Rightarrow> 'r list list \<Rightarrow> nat \<Rightarrow> bytes \<Rightarrow> 'r cursor \<Rightarrow> nat list \<times> 'r cursor" where
  "select_by_lookup src chunks column key cu =
     (let rows = settled_rows chunks;
          missed =
            (if cu_scanned cu \<noteq> Some column
             then (scan_matching (so_lookup_key src) rows column key, cu\<lparr>cu_scanned := Some column\<rparr>)
             else (let ix = build_index (so_lookup_key src) rows column in
               (index_matching ix key, cu\<lparr>cu_index := Some ix\<rparr>))) in
      case cu_index cu of
        Some ix \<Rightarrow> if li_column ix = column then (index_matching ix key, cu) else missed
      | None \<Rightarrow> missed)"

definition cursor_filter :: "'r source \<Rightarrow> 'r list list \<Rightarrow> 32 word \<Rightarrow> value_ref list \<Rightarrow> 'r cursor \<Rightarrow> 'r cursor" where
  "cursor_filter src chunks idx_num args cu =
     (let key = (case args of [] \<Rightarrow> None | v # _ \<Rightarrow> text_key v) in
      case (lookup_column idx_num, key) of
        (Some column, Some k) \<Rightarrow>
          (case select_by_lookup src chunks column k cu of
             (positions, cu) \<Rightarrow> cu\<lparr>cu_selection := Only positions, cu_step := 0\<rparr>)
      | _ \<Rightarrow> cu\<lparr>cu_selection := Every (reading_from chunks 0 0), cu_step := 0\<rparr>)"

text \<open>The rows whose prefetch column the filter has read ahead.\<close>

definition read_ahead :: "'r list list \<Rightarrow> 32 word \<Rightarrow> 'r cursor \<Rightarrow> 'r list" where
  "read_ahead chunks idx_num cu =
     (if \<not> prefetches idx_num then []
      else (case cu_selection cu of
          Only positions \<Rightarrow> List.map_filter (settled_get chunks) positions
        | Every _ \<Rightarrow> settled_rows chunks))"

definition cursor_next :: "'r list list \<Rightarrow> 'r cursor \<Rightarrow> 'r cursor" where
  "cursor_next chunks cu =
     (let step = cu_step cu + 1 in
      cu\<lparr>cu_step := step,
         cu_selection := (case cu_selection cu of
             Every rd \<Rightarrow> Every (reading_advanced chunks step rd)
           | Only ps \<Rightarrow> Only ps)\<rparr>)"

definition cursor_eof :: "'r cursor \<Rightarrow> bool" where
  "cursor_eof cu =
     (case cu_selection cu of
        Every rd \<Rightarrow> reading_row rd (cu_step cu) = None
      | Only ps \<Rightarrow> length ps \<le> cu_step cu)"

definition cursor_current :: "'r list list \<Rightarrow> 'r cursor \<Rightarrow> (nat \<times> 'r) option" where
  "cursor_current chunks cu =
     (case cu_selection cu of
        Every rd \<Rightarrow> map_option (Pair (cu_step cu)) (reading_row rd (cu_step cu))
      | Only ps \<Rightarrow>
          (case get ps (cu_step cu) of
             None \<Rightarrow> None
           | Some p \<Rightarrow> map_option (Pair p) (settled_get chunks p)))"

definition rowid_of :: "nat \<Rightarrow> int" where
  "rowid_of p = min (int p) (2 ^ 63 - 1)"

definition cursor_rowid :: "'r list list \<Rightarrow> 'r cursor \<Rightarrow> int" where
  "cursor_rowid chunks cu =
     rowid_of (case cursor_current chunks cu of None \<Rightarrow> cu_step cu | Some (p, _) \<Rightarrow> p)"

text \<open>How SQLite reads a cursor it has filtered: at most so many rows, up to the end.\<close>

fun cursor_read :: "'r list list \<Rightarrow> nat \<Rightarrow> 'r cursor \<Rightarrow> (int \<times> 'r option) list" where
  "cursor_read chunks 0 cu = []"
| "cursor_read chunks (Suc n) cu =
     (if cursor_eof cu then []
      else (cursor_rowid chunks cu, map_option snd (cursor_current chunks cu)) # cursor_read chunks n (cursor_next chunks cu))"

text \<open>\<open>each_row\<close>: the rows handed over without SQLite, when the columns are ones the rows hold.\<close>

definition each_row :: "'r source \<Rightarrow> 'r list list \<Rightarrow> nat list \<Rightarrow> value_ref list list option" where
  "each_row src chunks columns =
     (if \<not> list_all (\<lambda>i. i < so_held_columns src) columns then None
      else Some (concat (map (\<lambda>chunk. map (\<lambda>row. map (so_cell src row) columns) chunk) chunks)))"

section \<open>The rows of a statement\<close>

text \<open>A table of the connection and the rows it holds. A scan of table \<open>name\<close> begun at moment \<open>t\<close> makes
  \<open>scan name t\<close>; each scan begins at a moment of its own.\<close>

record 'r held =
  he_name :: rstr
  he_slot :: "'r list list option"

record 'r scope =
  sc_tables :: "'r held list"
  sc_time :: nat

definition scope_reset :: "'r scope \<Rightarrow> 'r scope" where
  "scope_reset sc = sc\<lparr>sc_tables := map (\<lambda>h. h\<lparr>he_slot := None\<rparr>) (sc_tables sc)\<rparr>"

definition cache_rows :: "(rstr \<Rightarrow> nat \<Rightarrow> 'r list list) \<Rightarrow> nat \<Rightarrow> 'r scope \<Rightarrow> 'r list list \<times> 'r scope" where
  "cache_rows scan i sc =
     (let h = sc_tables sc ! i in
      case he_slot h of
        Some rows \<Rightarrow> (rows, sc)
      | None \<Rightarrow>
          let rows = scan (he_name h) (sc_time sc) in
          (rows, \<lparr>sc_tables = (sc_tables sc)[i := h\<lparr>he_slot := Some rows\<rparr>], sc_time = sc_time sc + 1\<rparr>))"

text \<open>\<open>warm\<close>: a table already holding rows keeps them; a thread may fail to start.\<close>

fun warm_from :: "(rstr \<Rightarrow> nat \<Rightarrow> 'r list list) \<Rightarrow> (nat \<Rightarrow> bool) \<Rightarrow> rstr set \<Rightarrow> nat \<Rightarrow> 'r held list \<Rightarrow> 'r held list \<times> nat" where
  "warm_from scan spawned names t [] = ([], t)"
| "warm_from scan spawned names t (h # hs) =
     (let start = he_name h \<in> names \<and> he_slot h = None \<and> spawned t in
      case warm_from scan spawned names (t + 1) hs of
        (hs', t') \<Rightarrow> ((if start then h\<lparr>he_slot := Some (scan (he_name h) t)\<rparr> else h) # hs', t'))"

definition scope_warm :: "(rstr \<Rightarrow> nat \<Rightarrow> 'r list list) \<Rightarrow> (nat \<Rightarrow> bool) \<Rightarrow> rstr set \<Rightarrow> 'r scope \<Rightarrow> 'r scope" where
  "scope_warm scan spawned names sc =
     (case warm_from scan spawned names (sc_time sc) (sc_tables sc) of
        (tables, t) \<Rightarrow> \<lparr>sc_tables = tables, sc_time = t\<rparr>)"

text \<open>The table \<open>each_row\<close> reads: the first of the name.\<close>

definition scope_table :: "rstr \<Rightarrow> 'r scope \<Rightarrow> nat option" where
  "scope_table name sc = position (\<lambda>h. he_name h = name) (sc_tables sc)"

datatype scope_step = Warm "rstr set" | Rows_Of nat

fun step_within :: "nat \<Rightarrow> scope_step \<Rightarrow> bool" where
  "step_within n (Warm names) = True"
| "step_within n (Rows_Of i) = (i < n)"

text \<open>A statement's steps, and the rows each read of a table was given.\<close>

fun scope_run ::
  "(rstr \<Rightarrow> nat \<Rightarrow> 'r list list) \<Rightarrow> (nat \<Rightarrow> bool) \<Rightarrow> scope_step list \<Rightarrow> 'r scope \<Rightarrow> (nat \<times> 'r list list) list \<times> 'r scope"
where
  "scope_run scan spawned [] sc = ([], sc)"
| "scope_run scan spawned (Warm names # steps) sc = scope_run scan spawned steps (scope_warm scan spawned names sc)"
| "scope_run scan spawned (Rows_Of i # steps) sc =
     (case cache_rows scan i sc of
        (rows, sc) \<Rightarrow> (case scope_run scan spawned steps sc of (reads, sc) \<Rightarrow> ((i, rows) # reads, sc)))"

text \<open>\<open>enter\<close> and the guard it returns: the rows are gone before a statement and after it.\<close>

definition statement_run ::
  "(rstr \<Rightarrow> nat \<Rightarrow> 'r list list) \<Rightarrow> (nat \<Rightarrow> bool) \<Rightarrow> scope_step list \<Rightarrow> 'r scope \<Rightarrow> (nat \<times> 'r list list) list \<times> 'r scope"
where
  "statement_run scan spawned steps sc = apsnd scope_reset (scope_run scan spawned steps (scope_reset sc))"

section \<open>What a cursor has cached\<close>

inductive cursor_used :: "'r source \<Rightarrow> 'r list list \<Rightarrow> 'r cursor \<Rightarrow> bool" for src chunks where
  opened: "cursor_used src chunks cursor_open"
| filtered: "cursor_used src chunks cu \<Longrightarrow> cursor_used src chunks (cursor_filter src chunks idx_num args cu)"
| stepped: "cursor_used src chunks cu \<Longrightarrow> cursor_used src chunks (cursor_next chunks cu)"

definition index_ok :: "'r source \<Rightarrow> 'r list list \<Rightarrow> 'r cursor \<Rightarrow> bool" where
  "index_ok src chunks cu \<longleftrightarrow>
     (\<forall>ix. cu_index cu = Some ix \<longrightarrow> ix = build_index (so_lookup_key src) (concat chunks) (li_column ix))"

lemma li_column_build [simp]: "li_column (build_index key rows column) = column"
  by (simp add: build_index_def)

lemma build_positions_matching:
  "(case build_positions key column p rs m t of None \<Rightarrow> [] | Some ps \<Rightarrow> ps) =
     (case m t of None \<Rightarrow> [] | Some ps \<Rightarrow> ps) @ map fst (filter (\<lambda>(p, row). key row column = Some t) (enumerate p rs))"
  by (induction key column p rs m rule: build_positions.induct) (auto split: option.splits)

text \<open>An index finds what comparing every row finds.\<close>

lemma index_matching_scan: "index_matching (build_index key rows column) t = scan_matching key rows column t"
  using build_positions_matching [of key column 0 rows Map.empty t]
  by (simp add: index_matching_def build_index_def scan_matching_def)

lemma select_by_lookup_facts:
  assumes "index_ok src chunks cu"
  shows "fst (select_by_lookup src chunks column key cu) = scan_matching (so_lookup_key src) (concat chunks) column key"
    "index_ok src chunks (snd (select_by_lookup src chunks column key cu))"
  using assms
  by (auto simp: select_by_lookup_def index_ok_def settled_rows_def Let_def index_matching_scan split: option.splits)
    (metis index_matching_scan)+

lemma used_index_ok: "cursor_used src chunks cu \<Longrightarrow> index_ok src chunks cu"
proof (induction rule: cursor_used.induct)
  case (filtered cu idx_num args)
  then show ?case using select_by_lookup_facts(2) [OF filtered.IH]
    by (auto simp: cursor_filter_def Let_def index_ok_def split: option.splits list.splits prod.splits) (metis snd_conv)
qed (auto simp: index_ok_def cursor_open_def cursor_next_def Let_def)

section \<open>What a cursor reads\<close>

lemma cursor_read_only:
  assumes "cu_selection cu = Only ps" "length ps - cu_step cu \<le> n" "list_all (\<lambda>p. p < length (concat chunks)) ps"
    "int (length (concat chunks)) < 2 ^ 63"
  shows "cursor_read chunks n cu = map (\<lambda>p. (int p, get (concat chunks) p)) (drop (cu_step cu) ps)"
  using assms
proof (induction n arbitrary: cu)
  case (Suc n)
  show ?case
  proof (cases "cu_step cu < length ps")
    case True
    let ?p = "ps ! cu_step cu"
    have p: "?p < length (concat chunks)" using Suc.prems(3) True by (simp add: list_all_length)
    then have cur: "cursor_current chunks cu = Some (?p, concat chunks ! ?p)"
      using Suc.prems(1) True by (simp add: cursor_current_def get_def settled_get_concat)
    moreover have "rowid_of ?p = int ?p" using p Suc.prems(4) by (simp add: rowid_of_def)
    moreover have "cursor_read chunks n (cursor_next chunks cu) = map (\<lambda>p. (int p, get (concat chunks) p)) (drop (Suc (cu_step cu)) ps)"
      using Suc.IH [of "cursor_next chunks cu"] Suc.prems by (simp add: cursor_next_def)
    ultimately show ?thesis using Suc.prems(1) True p
      by (simp add: cursor_eof_def cursor_rowid_def Cons_nth_drop_Suc [symmetric] get_def)
  next
    case False
    then show ?thesis using Suc.prems(1) by (simp add: cursor_eof_def)
  qed
qed simp

text \<open>A reading in step: its chunk is the one that holds the row of the step, or it is past the last.\<close>

definition reading_at :: "'r list list \<Rightarrow> nat \<Rightarrow> 'r reading \<Rightarrow> bool" where
  "reading_at chunks step rd \<longleftrightarrow>
     (\<exists>k. rd = reading_from chunks k (length (concat (take k chunks))) \<and> k \<le> length chunks \<and>
       length (concat (take k chunks)) \<le> step \<and>
       (if k < length chunks then step < length (concat (take (Suc k) chunks)) else step = length (concat chunks)))"

lemma concat_at:
  assumes "k < length cs"
  shows "concat cs = concat (take k cs) @ cs ! k @ concat (drop (Suc k) cs)"
proof -
  have "cs = take k cs @ cs ! k # drop (Suc k) cs" using assms by (simp add: id_take_nth_drop)
  then have "concat cs = concat (take k cs @ cs ! k # drop (Suc k) cs)" by simp
  then show ?thesis by simp
qed

lemma reading_at_row:
  assumes "reading_at chunks step rd"
  shows "reading_row rd step = get (concat chunks) step"
proof -
  obtain k where k: "rd = reading_from chunks k (length (concat (take k chunks)))" "length (concat (take k chunks)) \<le> step"
    "if k < length chunks then step < length (concat (take (Suc k) chunks)) else step = length (concat chunks)"
    using assms by (auto simp: reading_at_def)
  show ?thesis
  proof (cases "k < length chunks")
    case True
    then have "step - length (concat (take k chunks)) < length (chunks ! k)" using k by (simp add: take_Suc_conv_app_nth)
    then show ?thesis using k(1,2) True concat_at [OF True]
      by (simp add: reading_row_def reading_from_def get_append) (simp add: get_def)
  next
    case False
    then show ?thesis using k by (simp add: reading_row_def reading_from_def get_def)
  qed
qed

lemma reading_at_first:
  assumes "list_all (\<lambda>c. c \<noteq> []) chunks"
  shows "reading_at chunks 0 (reading_from chunks 0 0)"
  using assms by (cases chunks) (auto simp: reading_at_def intro!: exI [of _ 0])

lemma reading_at_next:
  assumes "reading_at chunks step rd" "step < length (concat chunks)" "list_all (\<lambda>c. c \<noteq> []) chunks"
  shows "reading_at chunks (Suc step) (reading_advanced chunks (Suc step) rd)"
proof -
  obtain k where k: "rd = reading_from chunks k (length (concat (take k chunks)))" "length (concat (take k chunks)) \<le> step"
    "k < length chunks" "step < length (concat (take (Suc k) chunks))"
    using assms(1,2) by (auto simp: reading_at_def split: if_splits)
  have len: "length (concat (take (Suc k) chunks)) = length (concat (take k chunks)) + length (chunks ! k)"
    using k(3) by (simp add: take_Suc_conv_app_nth)
  show ?thesis
  proof (cases "Suc step = length (concat (take (Suc k) chunks))")
    case True
    have "reading_advanced chunks (Suc step) rd = reading_from chunks (Suc k) (length (concat (take (Suc k) chunks)))"
      using k(1,3) True len by (simp add: reading_advanced_def reading_from_def get_def)
    moreover have "Suc step < length (concat (take (Suc (Suc k)) chunks))" if "Suc k < length chunks"
      using True that assms(3) by (simp add: take_Suc_conv_app_nth list_all_length)
    moreover have "Suc step = length (concat chunks)" if "\<not> Suc k < length chunks"
      using True that by (metis leI take_all)
    ultimately show ?thesis using True k(3) unfolding reading_at_def by (intro exI [of _ "Suc k"]) auto
  next
    case False
    then have "reading_advanced chunks (Suc step) rd = rd"
      using k len by (simp add: reading_advanced_def reading_from_def get_def)
    then show ?thesis using k False unfolding reading_at_def by (intro exI [of _ k]) auto
  qed
qed

lemma cursor_read_every:
  assumes "cu_selection cu = Every rd" "reading_at chunks (cu_step cu) rd" "length (concat chunks) - cu_step cu \<le> n"
    "list_all (\<lambda>c. c \<noteq> []) chunks" "int (length (concat chunks)) < 2 ^ 63"
  shows "cursor_read chunks n cu =
    map (\<lambda>p. (int p, get (concat chunks) p)) [cu_step cu..<length (concat chunks)]"
  using assms
proof (induction n arbitrary: cu rd)
  case (Suc n)
  note row = reading_at_row [OF Suc.prems(2)]
  show ?case
  proof (cases "cu_step cu < length (concat chunks)")
    case True
    have "cursor_current chunks cu = Some (cu_step cu, concat chunks ! cu_step cu)"
      using Suc.prems(1) row True by (simp add: cursor_current_def get_def)
    moreover have "rowid_of (cu_step cu) = int (cu_step cu)" using True Suc.prems(5) by (simp add: rowid_of_def)
    moreover have "cursor_read chunks n (cursor_next chunks cu) =
        map (\<lambda>p. (int p, get (concat chunks) p)) [Suc (cu_step cu)..<length (concat chunks)]"
      using Suc.IH [of "cursor_next chunks cu" "reading_advanced chunks (Suc (cu_step cu)) rd"]
        reading_at_next [OF Suc.prems(2) True Suc.prems(4)] Suc.prems
      by (simp add: cursor_next_def)
    ultimately show ?thesis using Suc.prems(1) row True
      by (simp add: cursor_eof_def cursor_rowid_def upt_conv_Cons get_def)
  next
    case False
    then show ?thesis using Suc.prems(1) row by (simp add: cursor_eof_def get_def)
  qed
qed simp

lemma positions_rows:
  "map (\<lambda>p. (int p, get rows p)) (map fst (filter P (enumerate 0 rows))) =
     map (\<lambda>(p, row). (int p, Some row)) (filter P (enumerate 0 rows))"
  by (auto simp: in_set_enumerate_eq get_def)

section \<open>Properties\<close>

text \<open>The rows a filter wants.\<close>

definition wanted_row :: "'r source \<Rightarrow> 32 word \<Rightarrow> value_ref list \<Rightarrow> 'r \<Rightarrow> bool" where
  "wanted_row src idx_num args row =
     (case (lookup_column idx_num, args) of
        (Some column, Ref_Text key # _) \<Rightarrow> so_lookup_key src row column = Some key
      | _ \<Rightarrow> True)"

lemma cursor_reads_selected:
  assumes "cursor_used src chunks cu" "list_all (\<lambda>c. c \<noteq> []) chunks" "length (concat chunks) \<le> n"
    "int (length (concat chunks)) < 2 ^ 63"
  shows "cursor_read chunks n (cursor_filter src chunks idx_num args cu) =
    map (\<lambda>(p, row). (int p, Some row)) (filter (\<lambda>(p, row). wanted_row src idx_num args row) (enumerate 0 (concat chunks)))"
proof -
  let ?cu = "cursor_filter src chunks idx_num args cu"
  show ?thesis
  proof (cases "\<exists>column key rest. lookup_column idx_num = Some column \<and> args = Ref_Text key # rest")
    case True
    then obtain column key rest where l: "lookup_column idx_num = Some column" "args = Ref_Text key # rest" by blast
    let ?ps = "scan_matching (so_lookup_key src) (concat chunks) column key"
    have sel: "cu_selection ?cu = Only ?ps" "cu_step ?cu = 0"
      using l select_by_lookup_facts(1) [OF used_index_ok [OF assms(1)], of column key]
      by (auto simp: cursor_filter_def text_key_def split: prod.splits)
    have "list_all (\<lambda>p. p < length (concat chunks)) ?ps"
      by (auto simp: scan_matching_def list_all_iff in_set_enumerate_eq)
    moreover have "length ?ps \<le> n"
      using assms(3) length_filter_le [of "\<lambda>(p, row). so_lookup_key src row column = Some key" "enumerate 0 (concat chunks)"]
      by (simp add: scan_matching_def)
    ultimately have "cursor_read chunks n ?cu = map (\<lambda>p. (int p, get (concat chunks) p)) ?ps"
      using cursor_read_only [OF sel(1)] sel(2) assms(4) by simp
    then show ?thesis unfolding scan_matching_def positions_rows using l by (simp add: wanted_row_def)
  next
    case False
    then have sel: "cu_selection ?cu = Every (reading_from chunks 0 0)" "cu_step ?cu = 0"
      by (auto simp: cursor_filter_def text_key_def Let_def split: option.splits list.splits value_ref.splits)
    have all: "wanted_row src idx_num args row" for row
      using False by (auto simp: wanted_row_def split: option.splits list.splits value_ref.splits)
    have "cursor_read chunks n ?cu = map (\<lambda>p. (int p, get (concat chunks) p)) [0..<length (concat chunks)]"
      using cursor_read_every [OF sel(1)] sel(2) reading_at_first [OF assms(2)] assms by simp
    also have "\<dots> = map (\<lambda>(p, row). (int p, Some row)) (enumerate 0 (concat chunks))"
      by (rule nth_equalityI) (auto simp: nth_enumerate_eq get_def)
    finally show ?thesis using all by simp
  qed
qed

text \<open>The rows handed over without SQLite are those a cursor reads in a full scan.\<close>

lemma each_row_full_scan:
  assumes "list_all (\<lambda>i. i < so_held_columns src) columns" "cursor_used src chunks cu" "list_all (\<lambda>c. c \<noteq> []) chunks"
    "length (concat chunks) \<le> n" "int (length (concat chunks)) < 2 ^ 63" "lookup_column idx_num = None"
  shows "each_row src chunks columns =
    Some (map (\<lambda>(rowid, row). map (so_cell src (the row)) columns) (cursor_read chunks n (cursor_filter src chunks idx_num args cu)))"
proof -
  have "cursor_read chunks n (cursor_filter src chunks idx_num args cu) = map (\<lambda>(p, row). (int p, Some row)) (enumerate 0 (concat chunks))"
    using cursor_reads_selected [OF assms(2-5), of idx_num args] assms(6) by (simp add: wanted_row_def)
  moreover have "map (\<lambda>row. map (so_cell src row) columns) (concat chunks) =
      map ((\<lambda>(rowid, row). map (so_cell src (the row)) columns) \<circ> (\<lambda>(p, row). (int p, Some row))) (enumerate 0 (concat chunks))"
    by (rule nth_equalityI) (auto simp: nth_enumerate_eq)
  ultimately show ?thesis using assms(1) by (simp add: each_row_def map_concat)
qed

text \<open>A plan is what its \<open>idxNum\<close> says, for every column a table can have.\<close>

lemma bit_of_nat_small:
  assumes "n < 2 ^ 30"
  shows "(of_nat n :: 32 word) AND prefetch_idx = 0" "(of_nat n :: 32 word) AND NOT prefetch_idx = of_nat n"
proof -
  have "take_bit 30 n = n" using assms by (simp add: take_bit_nat_eq_self)
  then have "\<not> bit n 30" by (metis bit_take_bit_iff less_irrefl)
  then have b: "\<not> bit (of_nat n :: 32 word) 30" by (simp add: bit_of_nat_iff)
  have p: "bit prefetch_idx m \<longleftrightarrow> m = 30" if "m < 32" for m
    using that unfolding prefetch_idx_def bit_push_bit_iff bit_1_iff by (auto simp: possible_bit_def)
  show "(of_nat n :: 32 word) AND prefetch_idx = 0" "(of_nat n :: 32 word) AND NOT prefetch_idx = of_nat n"
    using b p by (auto intro!: bit_word_eqI simp: bit_and_iff bit_not_iff)
qed

lemma sint_of_nat_small:
  assumes "n < 2 ^ 31"
  shows "sint (of_nat n :: 32 word) = int n"
proof -
  have "signed_take_bit 31 (int n) = int n" using assms by (intro signed_take_bit_int_eq_self) auto
  then show ?thesis by (simp add: signed_of_nat)
qed

lemma plan_idx_decodes:
  assumes "case lookup of None \<Rightarrow> True | Some column \<Rightarrow> column + 1 < 2 ^ 30"
  shows "lookup_column (plan_idx_num lookup prefetch) = lookup" "prefetches (plan_idx_num lookup prefetch) = prefetch"
proof -
  obtain n where n: "n < 2 ^ 30" "plan_idx_num lookup prefetch = (if prefetch then of_nat n + prefetch_idx else of_nat n)"
    "lookup = (if n = 0 then None else Some (n - 1))"
  proof (cases lookup)
    case None
    then show ?thesis using that [of 0] by (simp add: plan_idx_num_def scan_idx_def Let_def)
  next
    case (Some a)
    then show ?thesis using that [of "Suc a"] assms by (simp add: plan_idx_num_def lookup_idx_num_def Let_def)
  qed
  note b = bit_of_nat_small [OF n(1)]
  have plus: "of_nat n + prefetch_idx = (of_nat n :: 32 word) OR prefetch_idx"
    using b(1) by (simp add: disjunctive_add_eq_or)
  have "(of_nat n OR prefetch_idx) AND NOT prefetch_idx = (of_nat n :: 32 word)"
    using b(2) by (simp add: bit.conj_disj_distrib2)
  then have masked: "plan_idx_num lookup prefetch AND NOT prefetch_idx = of_nat n" using n(2) plus b(2) by simp
  then show "lookup_column (plan_idx_num lookup prefetch) = lookup"
    using n(1,3) by (simp add: lookup_column_def sint_of_nat_small)
  have "prefetch_idx \<noteq> 0" by (simp add: prefetch_idx_def)
  then show "prefetches (plan_idx_num lookup prefetch) = prefetch"
    using n(2) plus b(1) by (simp add: prefetches_def bit.conj_disj_distrib2)
qed

section \<open>What a table promises of its lookups\<close>

lemma choose_lookup_SomeD:
  "choose_lookup columns constraints = Some l \<Longrightarrow>
     lk_column l \<in> set columns \<and> lk_column l < 2 ^ 31 \<and> lk_constraint l < length constraints \<and>
     cn_usable (constraints ! lk_constraint l) \<and> cn_equality (constraints ! lk_constraint l) \<and>
     cn_column (constraints ! lk_constraint l) = int (lk_column l)"
  by (induction columns constraints rule: choose_lookup.induct)
    (auto split: option.splits if_splits dest!: position_SomeD)

text \<open>\<open>TableSource\<close>, as the planner and the cursor rely on it: a column answered by lookup is one an \<open>idxNum\<close> can
  name, and its key is the text of the row's cell.\<close>

locale table_source =
  fixes src :: "'r source" and cell_of :: "'r \<Rightarrow> nat \<Rightarrow> value_ref option"
  assumes lookup_named: "column \<in> set (so_lookup_columns src) \<Longrightarrow> column + 1 < 2 ^ 30"
    and lookup_is_cell: "column \<in> set (so_lookup_columns src) \<Longrightarrow>
      so_lookup_key src row column = Some key \<longleftrightarrow> cell_of row column = Some (Ref_Text key)"
begin

text \<open>A plan with an argument is a probe of a column by a usable equality; one without is a scan.\<close>

lemma plan_probes:
  assumes "best_index src col_used constraints = (Some i, idx_num, cost)"
  obtains column where "column \<in> set (so_lookup_columns src)" "lookup_column idx_num = Some column" "i < length constraints"
    "cn_usable (constraints ! i)" "cn_equality (constraints ! i)" "cn_column (constraints ! i) = int column"
proof -
  obtain l prefetch where l: "choose_lookup (so_lookup_columns src) constraints = Some l" "i = lk_constraint l"
    "idx_num = plan_idx_num (Some (lk_column l)) prefetch"
    using assms by (auto simp: best_index_def Let_def split: option.splits)
  note f = choose_lookup_SomeD [OF l(1)]
  then have "lookup_column idx_num = Some (lk_column l)"
    using plan_idx_decodes(1) [of "Some (lk_column l)"] lookup_named l(3) by simp
  then show thesis using that f l(2) by blast
qed

lemma plan_scans:
  assumes "best_index src col_used constraints = (None, idx_num, cost)"
  shows "lookup_column idx_num = None"
  using assms plan_idx_decodes(1) [of None] by (auto simp: best_index_def Let_def split: option.splits)

text \<open>A probe reads the rows of the scan whose cell is the text, a scan all of them, under the same rowids.\<close>

lemma probe_selects:
  assumes "best_index src col_used constraints = (Some i, idx_num, cost)" "cursor_used src chunks cu" "list_all (\<lambda>c. c \<noteq> []) chunks"
    "length (concat chunks) \<le> n" "int (length (concat chunks)) < 2 ^ 63"
  shows "\<exists>column\<in>set (so_lookup_columns src).
    i < length constraints \<and> cn_usable (constraints ! i) \<and> cn_equality (constraints ! i) \<and> cn_column (constraints ! i) = int column \<and>
    cursor_read chunks n (cursor_filter src chunks idx_num [Ref_Text key] cu) =
      map (\<lambda>(p, r). (int p, Some r)) (filter (\<lambda>(p, r). cell_of r column = Some (Ref_Text key)) (enumerate 0 (concat chunks)))"
proof -
  obtain column where c: "column \<in> set (so_lookup_columns src)" "lookup_column idx_num = Some column" "i < length constraints"
    "cn_usable (constraints ! i)" "cn_equality (constraints ! i)" "cn_column (constraints ! i) = int column"
    using plan_probes [OF assms(1)] by blast
  have "cursor_read chunks n (cursor_filter src chunks idx_num [Ref_Text key] cu) =
      map (\<lambda>(p, r). (int p, Some r)) (filter (\<lambda>(p, r). cell_of r column = Some (Ref_Text key)) (enumerate 0 (concat chunks)))"
    using cursor_reads_selected [OF assms(2-5), of idx_num "[Ref_Text key]"] c(2) lookup_is_cell [OF c(1)]
    by (simp add: wanted_row_def)
  then show ?thesis using c by blast
qed

lemma scan_reads_all:
  assumes "best_index src col_used constraints = (None, idx_num, cost)" "cursor_used src chunks cu" "list_all (\<lambda>c. c \<noteq> []) chunks"
    "length (concat chunks) \<le> n" "int (length (concat chunks)) < 2 ^ 63"
  shows "cursor_read chunks n (cursor_filter src chunks idx_num args cu) = map (\<lambda>(p, r). (int p, Some r)) (enumerate 0 (concat chunks))"
  using cursor_reads_selected [OF assms(2-5), of idx_num args] plan_scans [OF assms(1)] by (simp add: wanted_row_def)

end

section \<open>One scan per table and statement\<close>

text \<open>Rows once held stay, and what is held was scanned since the statement began.\<close>

definition held_since :: "(rstr \<Rightarrow> nat \<Rightarrow> 'r list list) \<Rightarrow> nat \<Rightarrow> 'r scope \<Rightarrow> bool" where
  "held_since scan t0 sc \<longleftrightarrow> t0 \<le> sc_time sc \<and>
     (\<forall>h\<in>set (sc_tables sc). \<forall>rows. he_slot h = Some rows \<longrightarrow> (\<exists>t\<ge>t0. rows = scan (he_name h) t))"

definition keeps_held :: "'r scope \<Rightarrow> 'r scope \<Rightarrow> bool" where
  "keeps_held sc sc' \<longleftrightarrow>
     list_all2 (\<lambda>h h'. he_name h' = he_name h \<and> (he_slot h \<noteq> None \<longrightarrow> he_slot h' = he_slot h)) (sc_tables sc) (sc_tables sc')"

lemma keeps_held_refl [simp]: "keeps_held sc sc"
  by (simp add: keeps_held_def list_all2_refl)

lemma keeps_held_trans: "keeps_held a b \<Longrightarrow> keeps_held b c \<Longrightarrow> keeps_held a c"
  unfolding keeps_held_def list_all2_conv_all_nth by simp

lemma warm_from_facts:
  assumes "warm_from scan spawned names t hs = (hs', t')"
  shows "t \<le> t' \<and> list_all2 (\<lambda>h h'. he_name h' = he_name h \<and> (he_slot h \<noteq> None \<longrightarrow> he_slot h' = he_slot h) \<and>
    (he_slot h' = he_slot h \<or> (\<exists>u\<ge>t. he_slot h' = Some (scan (he_name h) u)))) hs hs'"
  using assms
proof (induction hs arbitrary: t hs')
  case (Cons h hs)
  obtain hs2 where r: "warm_from scan spawned names (t + 1) hs = (hs2, t')"
    "hs' = (if he_name h \<in> names \<and> he_slot h = None \<and> spawned t then h\<lparr>he_slot := Some (scan (he_name h) t)\<rparr> else h) # hs2"
    using Cons.prems by (auto simp: Let_def split: prod.splits)
  have "list_all2 (\<lambda>h h'. he_name h' = he_name h \<and> (he_slot h \<noteq> None \<longrightarrow> he_slot h' = he_slot h) \<and>
    (he_slot h' = he_slot h \<or> (\<exists>u\<ge>t. he_slot h' = Some (scan (he_name h) u)))) hs hs2"
    using Cons.IH [OF r(1), THEN conjunct2] by (rule list_all2_mono) (auto intro: Suc_leD)
  then show ?case using Cons.IH [OF r(1)] r(2) by auto
qed simp

lemma scope_warm_facts:
  assumes "held_since scan t0 sc"
  shows "held_since scan t0 (scope_warm scan spawned names sc)" "keeps_held sc (scope_warm scan spawned names sc)"
proof -
  obtain hs' t' where w: "warm_from scan spawned names (sc_time sc) (sc_tables sc) = (hs', t')" by fastforce
  note f = warm_from_facts [OF w]
  show "keeps_held sc (scope_warm scan spawned names sc)"
    using f w by (simp add: keeps_held_def scope_warm_def list_all2_conv_all_nth)
  show "held_since scan t0 (scope_warm scan spawned names sc)"
    unfolding held_since_def
  proof (intro conjI ballI allI impI)
    show "t0 \<le> sc_time (scope_warm scan spawned names sc)" using assms f w by (simp add: held_since_def scope_warm_def)
    fix h' rows assume h': "h' \<in> set (sc_tables (scope_warm scan spawned names sc))" "he_slot h' = Some rows"
    then obtain i where i: "i < length hs'" "h' = hs' ! i" using w by (auto simp: scope_warm_def in_set_conv_nth)
    let ?h = "sc_tables sc ! i"
    have "length hs' = length (sc_tables sc)" using list_all2_lengthD [OF conjunct2 [OF f]] by simp
    then have h: "?h \<in> set (sc_tables sc)" using i(1) by simp
    have r: "he_name h' = he_name ?h" "he_slot h' = he_slot ?h \<or> (\<exists>u\<ge>sc_time sc. he_slot h' = Some (scan (he_name ?h) u))"
      using f i by (auto simp: list_all2_conv_all_nth)
    show "\<exists>t\<ge>t0. rows = scan (he_name h') t"
      using r(2)
    proof
      assume "he_slot h' = he_slot ?h"
      then show ?thesis using assms h h'(2) r(1) unfolding held_since_def by metis
    next
      assume "\<exists>u\<ge>sc_time sc. he_slot h' = Some (scan (he_name ?h) u)"
      then show ?thesis using assms h'(2) r(1) unfolding held_since_def by (metis le_trans option.inject)
    qed
  qed
qed

lemma cache_rows_facts:
  assumes "held_since scan t0 sc" "i < length (sc_tables sc)" "cache_rows scan i sc = (rows, sc')"
  shows "held_since scan t0 sc'" "keeps_held sc sc'" "he_slot (sc_tables sc' ! i) = Some rows"
    "\<exists>t\<ge>t0. rows = scan (he_name (sc_tables sc ! i)) t"
proof -
  let ?h = "sc_tables sc ! i"
  have h: "?h \<in> set (sc_tables sc)" using assms(2) by simp
  show "held_since scan t0 sc'"
  proof (cases "he_slot ?h")
    case None
    let ?h' = "?h\<lparr>he_slot := Some (scan (he_name ?h) (sc_time sc))\<rparr>"
    have sc': "sc' = \<lparr>sc_tables = (sc_tables sc)[i := ?h'], sc_time = sc_time sc + 1\<rparr>"
      using None assms(3) by (auto simp: cache_rows_def Let_def)
    have t0: "t0 \<le> sc_time sc" using assms(1) by (simp add: held_since_def)
    have "\<exists>t\<ge>t0. rs = scan (he_name k) t" if k: "k \<in> set (sc_tables sc')" "he_slot k = Some rs" for k rs
    proof (cases "k = ?h'")
      case True
      then have "rs = scan (he_name k) (sc_time sc)" using k(2) by simp
      then show ?thesis using t0 by blast
    next
      case False
      then have "k \<in> set (sc_tables sc)" using k(1) sc' set_update_subset_insert [of "sc_tables sc" i ?h'] by auto
      then show ?thesis using assms(1) k(2) unfolding held_since_def by blast
    qed
    then show ?thesis using t0 sc' unfolding held_since_def by auto
  next
    case (Some r)
    then show ?thesis using assms(1,3) by (simp add: cache_rows_def Let_def)
  qed
  show "keeps_held sc sc'" "he_slot (sc_tables sc' ! i) = Some rows"
    using assms(2,3) by (auto simp: cache_rows_def Let_def keeps_held_def list_all2_conv_all_nth nth_list_update split: option.splits)
  show "\<exists>t\<ge>t0. rows = scan (he_name ?h) t"
  proof (cases "he_slot ?h")
    case None
    then have "rows = scan (he_name ?h) (sc_time sc)" using assms(3) by (simp add: cache_rows_def Let_def)
    then show ?thesis using assms(1) unfolding held_since_def by blast
  next
    case (Some r)
    then have "rows = r" using assms(3) by (simp add: cache_rows_def Let_def)
    then show ?thesis using assms(1) h Some by (simp add: held_since_def)
  qed
qed

lemma scope_run_facts:
  assumes "held_since scan t0 sc" "list_all (step_within (length (sc_tables sc))) steps"
    "scope_run scan spawned steps sc = (reads, sc')"
  shows "keeps_held sc sc' \<and>
    (\<forall>(i, rows)\<in>set reads. i < length (sc_tables sc) \<and> he_slot (sc_tables sc' ! i) = Some rows \<and>
      (\<exists>t\<ge>t0. rows = scan (he_name (sc_tables sc ! i)) t))"
  using assms
proof (induction steps arbitrary: sc reads)
  case (Cons s steps)
  show ?case
  proof (cases s)
    case (Warm names)
    let ?sc = "scope_warm scan spawned names sc"
    note w = scope_warm_facts [OF Cons.prems(1), of spawned names]
    have len: "length (sc_tables ?sc) = length (sc_tables sc)" using w(2) by (simp add: keeps_held_def list_all2_lengthD)
    have named: "he_name (sc_tables ?sc ! i) = he_name (sc_tables sc ! i)" if "i < length (sc_tables sc)" for i
      using w(2) that by (auto simp: keeps_held_def list_all2_conv_all_nth)
    have "keeps_held ?sc sc' \<and>
      (\<forall>(i, rows)\<in>set reads. i < length (sc_tables ?sc) \<and> he_slot (sc_tables sc' ! i) = Some rows \<and>
        (\<exists>t\<ge>t0. rows = scan (he_name (sc_tables ?sc ! i)) t))"
      using Cons.prems Warm len by (intro Cons.IH [OF w(1)]) auto
    then show ?thesis using keeps_held_trans [OF w(2)] named len by fastforce
  next
    case (Rows_Of i)
    obtain rows sc1 reads1 where r: "cache_rows scan i sc = (rows, sc1)" "scope_run scan spawned steps sc1 = (reads1, sc')"
      "reads = (i, rows) # reads1" using Cons.prems(3) Rows_Of by (auto split: prod.splits)
    have i: "i < length (sc_tables sc)" using Cons.prems(2) Rows_Of by simp
    note c = cache_rows_facts [OF Cons.prems(1) i r(1)]
    have len: "length (sc_tables sc1) = length (sc_tables sc)" using c(2) by (simp add: keeps_held_def list_all2_lengthD)
    have named: "he_name (sc_tables sc1 ! j) = he_name (sc_tables sc ! j)" if "j < length (sc_tables sc)" for j
      using c(2) that by (auto simp: keeps_held_def list_all2_conv_all_nth)
    have rest: "keeps_held sc1 sc' \<and>
      (\<forall>(j, rows)\<in>set reads1. j < length (sc_tables sc1) \<and> he_slot (sc_tables sc' ! j) = Some rows \<and>
        (\<exists>t\<ge>t0. rows = scan (he_name (sc_tables sc1 ! j)) t))"
      using Cons.prems(2) len by (intro Cons.IH [OF c(1) _ r(2)]) auto
    have "he_slot (sc_tables sc' ! i) = Some rows"
      using rest c(3) i len by (auto simp: keeps_held_def list_all2_conv_all_nth)
    then show ?thesis using rest keeps_held_trans [OF c(2)] named len i c(4) r(3) by fastforce
  qed
qed simp

text \<open>However often and in whatever order a statement reads its tables, and whatever is warmed in between,
  every read of a table is given the rows of one scan, begun since the statement was, and after the
  statement no table holds any.\<close>

lemma statement_scans_once:
  assumes "list_all (step_within (length (sc_tables sc))) steps"
    "statement_run scan spawned steps sc = (reads, sc')" "(i, rows) \<in> set reads" "(i, rows') \<in> set reads"
  shows "rows' = rows" "\<exists>t\<ge>sc_time sc. rows = scan (he_name (sc_tables sc ! i)) t"
    "list_all (\<lambda>h. he_slot h = None) (sc_tables sc')"
proof -
  obtain sc1 where run: "scope_run scan spawned steps (scope_reset sc) = (reads, sc1)" "sc' = scope_reset sc1"
    using assms(2) by (auto simp: statement_run_def apsnd_def map_prod_def split: prod.splits)
  have held: "held_since scan (sc_time sc) (scope_reset sc)" by (auto simp: held_since_def scope_reset_def)
  have "list_all (step_within (length (sc_tables (scope_reset sc)))) steps"
    using assms(1) by (simp add: scope_reset_def)
  note f = scope_run_facts [OF held this run(1), THEN conjunct2]
  have "i < length (sc_tables sc)" using f assms(3) by (fastforce simp: scope_reset_def)
  then have name: "he_name (sc_tables (scope_reset sc) ! i) = he_name (sc_tables sc ! i)" by (simp add: scope_reset_def)
  have "he_slot (sc_tables sc1 ! i) = Some rows" "he_slot (sc_tables sc1 ! i) = Some rows'"
    using bspec [OF f assms(3)] bspec [OF f assms(4)] by simp_all
  then show "rows' = rows" by simp
  show "\<exists>t\<ge>sc_time sc. rows = scan (he_name (sc_tables sc ! i)) t" using f assms(3) name by fastforce
  show "list_all (\<lambda>h. he_slot h = None) (sc_tables sc')" using run(2) by (simp add: scope_reset_def list_all_iff)
qed

end
