(* ===== verification/Path_Rows.thy ===== *)
theory Path_Rows
  imports Vtab_Cursor Walk
begin

text \<open>
  \<open>packages/rust/src/vtab.rs\<close>: the path-table, whose rows are the files a glob matches. A path is its bytes
  as the operating system holds them, on Unix; the file system is a parameter: what a scan found, what
  a stat says and how a file gives its bytes.
\<close>

section \<open>Parts of a path\<close>

text \<open>\<open>Path::file_name\<close>, \<open>parent\<close> and \<open>extension\<close> as slices of the path: separators and \<open>.\<close> at its end do not
  count, but a leading one does.\<close>

function trim_back :: "rstr \<Rightarrow> rstr" where
  "trim_back p =
     (if length p \<le> 1 then p
      else if last p = c_slash then trim_back (butlast p)
      else if last p = c_dot \<and> last (butlast p) = c_slash then trim_back (butlast p)
      else p)"
  by pat_completeness auto
termination by (relation "measure length") auto

declare trim_back.simps [simp del]

definition last_component :: "rstr \<Rightarrow> rstr" where
  "last_component p = rev (takeWhile (\<lambda>c. c \<noteq> c_slash) (rev p))"

definition before_last :: "rstr \<Rightarrow> rstr" where
  "before_last p = rev (dropWhile (\<lambda>c. c \<noteq> c_slash) (rev p))"

definition file_name_of :: "rstr \<Rightarrow> rstr option" where
  "file_name_of p =
     (let c = last_component (trim_back p) in if c \<in> set [[], [c_dot], [c_dot, c_dot]] then None else Some c)"

definition parent_of :: "rstr \<Rightarrow> rstr option" where
  "parent_of p =
     (let p = trim_back p in if last_component p = [] then None else Some (trim_back (before_last p)))"

text \<open>The last dot of a file name that is not its first character.\<close>

definition extension_of :: "rstr \<Rightarrow> rstr option" where
  "extension_of p =
     (case file_name_of p of
        None \<Rightarrow> None
      | Some n \<Rightarrow>
          let suf = takeWhile (\<lambda>c. c \<noteq> c_dot) (rev n) in
          if length n \<le> length suf + 1 then None else Some (rev suf))"

section \<open>Rows\<close>

record path_spans =
  ps_name_at :: "nat option"
  ps_dir_len :: "nat option"
  ps_ext_at :: "nat option"

text \<open>A span is held one past itself in 32 bits.\<close>

definition span :: "nat \<Rightarrow> nat option" where
  "span at = (if at + 1 < 2 ^ 32 then Some at else None)"

definition spans_of :: "rstr \<Rightarrow> path_spans" where
  "spans_of path =
     (let suffix_at = (\<lambda>s. span (length path - length s)) in
      \<lparr>ps_name_at = Option.bind (file_name_of path) suffix_at,
       ps_dir_len = Option.bind (parent_of path) (\<lambda>d. span (length d)),
       ps_ext_at = Option.bind (extension_of path) suffix_at\<rparr>)"

record stat_facts =
  sf_size :: "int option"
  sf_mtime :: "int option"
  sf_ctime :: "int option"

text \<open>A time is in nanoseconds since 1970.\<close>

definition epoch_secs :: "int option \<Rightarrow> int option" where
  "epoch_secs time =
     (case time of
        None \<Rightarrow> None
      | Some t \<Rightarrow>
          if 0 \<le> t then (let s = t div 1000000000 in if s < 2 ^ 63 then Some s else None)
          else (let whole = (- t) div 1000000000 in
            if whole < 2 ^ 63 then
              (let floored = whole + (if 0 < (- t) mod 1000000000 then 1 else 0) in
               if floored < 2 ^ 63 then Some (- floored) else None)
            else None))"

definition facts_from_parts :: "nat \<Rightarrow> int option \<Rightarrow> int option \<Rightarrow> stat_facts" where
  "facts_from_parts len modified created =
     \<lparr>sf_size = (if len < 2 ^ 63 then Some (int len) else None), sf_mtime = epoch_secs modified, sf_ctime = epoch_secs created\<rparr>"

definition no_facts :: stat_facts where
  "no_facts = \<lparr>sf_size = None, sf_mtime = None, sf_ctime = None\<rparr>"

record file_row =
  fr_rel :: "rstr option"
  fr_terminated :: rstr
  fr_spans :: path_spans
  fr_facts :: "stat_facts option"
  fr_content :: "rstr option option"

definition reported_path :: "rstr \<Rightarrow> rstr \<Rightarrow> rstr" where
  "reported_path path_prefix rel =
     path_prefix @ (if path_prefix \<noteq> [] \<and> last path_prefix \<noteq> c_slash then [c_slash] else []) @ rel"

definition reported_in_place :: "rstr \<Rightarrow> rstr \<Rightarrow> rstr option" where
  "reported_in_place path_prefix rel = (if path_prefix \<noteq> [] then None else Some rel)"

definition file_row_new :: "rstr \<Rightarrow> rstr \<Rightarrow> file_row" where
  "file_row_new path_prefix rel =
     (case (case reported_in_place path_prefix rel of
              Some path \<Rightarrow> (None, path)
            | None \<Rightarrow> (Some rel, reported_path path_prefix rel)) of
        (r, path) \<Rightarrow>
          \<lparr>fr_rel = r, fr_terminated = path @ [0], fr_spans = spans_of path, fr_facts = None, fr_content = None\<rparr>)"

definition row_path :: "file_row \<Rightarrow> rstr" where
  "row_path r = butlast (fr_terminated r)"

definition row_rel :: "file_row \<Rightarrow> rstr" where
  "row_rel r = (case fr_rel r of None \<Rightarrow> row_path r | Some rel \<Rightarrow> rel)"

definition row_basename :: "file_row \<Rightarrow> rstr option" where
  "row_basename r = map_option (\<lambda>at. drop at (row_path r)) (ps_name_at (fr_spans r))"

definition row_dir :: "file_row \<Rightarrow> rstr option" where
  "row_dir r = map_option (\<lambda>len. take len (fr_terminated r)) (ps_dir_len (fr_spans r))"

definition row_ext :: "file_row \<Rightarrow> rstr option" where
  "row_ext r = map_option (\<lambda>at. drop at (row_path r)) (ps_ext_at (fr_spans r))"

section \<open>Columns\<close>

definition path_column :: nat where "path_column = 0"
definition basename_column :: nat where "basename_column = 1"
definition dir_column :: nat where "dir_column = 2"
definition ext_column :: nat where "ext_column = 3"
definition size_column :: nat where "size_column = 4"
definition mtime_column :: nat where "mtime_column = 5"
definition ctime_column :: nat where "ctime_column = 6"
definition content_column :: nat where "content_column = 7"

lemmas column_numbers = path_column_def basename_column_def dir_column_def ext_column_def size_column_def
  mtime_column_def ctime_column_def content_column_def

definition stat_columns :: "rstr list" where
  "stat_columns =
     [ascii ''path'', ascii ''basename'', ascii ''dir'', ascii ''ext'', ascii ''size'', ascii ''mtime'', ascii ''ctime'']"

definition lookup_columns :: "nat list" where
  "lookup_columns = [path_column, basename_column, dir_column]"

definition column_type :: "rstr \<Rightarrow> rstr" where
  "column_type c = (if c \<in> set [ascii ''size'', ascii ''mtime'', ascii ''ctime''] then ascii ''INTEGER'' else ascii ''TEXT'')"

definition declared_schema :: rstr where
  "declared_schema =
     ascii ''CREATE TABLE x('' @ join (ascii '', '') (map (\<lambda>c. c @ ascii '' '' @ column_type c) stat_columns) @
     ascii '', content TEXT HIDDEN)''"

definition text_ref :: "rstr option \<Rightarrow> value_ref" where
  "text_ref b = (case b of None \<Rightarrow> Ref_Null | Some t \<Rightarrow> Ref_Text t)"

definition integer_ref :: "int option \<Rightarrow> value_ref" where
  "integer_ref n = (case n of None \<Rightarrow> Ref_Null | Some i \<Rightarrow> Ref_Integer i)"

text \<open>\<open>cell\<close>: none for the content, which is read from the file.\<close>

definition row_cell :: "(file_row \<Rightarrow> stat_facts) \<Rightarrow> file_row \<Rightarrow> int \<Rightarrow> value_ref option" where
  "row_cell facts r i =
     (if i < 0 then Some Ref_Null
      else let n = nat i in
        if n = path_column then Some (Ref_Text (row_path r))
        else if n = basename_column then Some (text_ref (row_basename r))
        else if n = dir_column then Some (text_ref (row_dir r))
        else if n = ext_column then Some (text_ref (row_ext r))
        else if n = size_column then Some (integer_ref (sf_size (facts r)))
        else if n = mtime_column then Some (integer_ref (sf_mtime (facts r)))
        else if n = ctime_column then Some (integer_ref (sf_ctime (facts r)))
        else if n = content_column then None
        else Some Ref_Null)"

definition terminated_cell :: "file_row \<Rightarrow> int \<Rightarrow> rstr option" where
  "terminated_cell r i =
     (if i < 0 then None
      else if nat i = path_column then Some (fr_terminated r)
      else if nat i = basename_column then map_option (\<lambda>at. drop at (fr_terminated r)) (ps_name_at (fr_spans r))
      else if nat i = ext_column then map_option (\<lambda>at. drop at (fr_terminated r)) (ps_ext_at (fr_spans r))
      else None)"

text \<open>What SQLite takes of a text handed over as NUL-terminated.\<close>

definition until_nul :: "rstr \<Rightarrow> rstr" where
  "until_nul t = takeWhile (\<lambda>b. b \<noteq> 0) t"

section \<open>The table\<close>

text \<open>A file system: the stat of a path, and its text as \<open>read_text\<close> below gives it.\<close>

record path_fs =
  pf_stat :: "rstr \<Rightarrow> (nat \<times> int option \<times> int option) option"
  pf_text :: "rstr \<Rightarrow> int option \<Rightarrow> nat \<Rightarrow> rstr option"

record scan_spec =
  ss_root :: rstr
  ss_path_prefix :: rstr
  ss_max_length :: nat

text \<open>\<open>parse_module_args\<close>: \<open>compiles\<close> and \<open>compiles_ignore\<close> are the messages for a glob or ignore patterns that
  do not compile. The result is the spec with its glob, its ignore patterns, whether \<open>.gitignore\<close> files count
  and whether they apply to the root.\<close>

definition path_module_name :: rstr where
  "path_module_name = ascii ''dirsql_path''"

definition path_fixed_args :: nat where
  "path_fixed_args = 4"

definition parse_path_args ::
  "(rstr \<Rightarrow> rstr option) \<Rightarrow> (rstr list \<Rightarrow> rstr option) \<Rightarrow> bytes list \<Rightarrow> nat \<Rightarrow>
   rstr + scan_spec \<times> rstr \<times> rstr list \<times> bool \<times> bool"
where
  "parse_path_args compiles compiles_ignore args max_length =
     (case user_args args of
        root # pattern # path_prefix # gitignore # ignore \<Rightarrow>
          (case compiles pattern of
             Some e \<Rightarrow> Inl e
           | None \<Rightarrow>
               (case compiles_ignore ignore of
                  Some e \<Rightarrow> Inl e
                | None \<Rightarrow>
                    (case parse_gitignore_arg gitignore of
                       Inl e \<Rightarrow> Inl e
                     | Inr g \<Rightarrow>
                         Inr (\<lparr>ss_root = root, ss_path_prefix = path_prefix, ss_max_length = max_length\<rparr>, pattern, ignore, g,
                           gitignore = gitignore_root_arg))))
      | few \<Rightarrow>
          Inl (arity_error path_module_name path_fixed_args (ascii ''root, glob, path prefix, gitignore switch'') (length few)))"

definition spec_stat :: "path_fs \<Rightarrow> scan_spec \<Rightarrow> file_row \<Rightarrow> stat_facts" where
  "spec_stat fs sp r =
     (case pf_stat fs (path_join (ss_root sp) (row_rel r)) of
        None \<Rightarrow> no_facts
      | Some (len, modified, created) \<Rightarrow> facts_from_parts len modified created)"

definition spec_facts :: "path_fs \<Rightarrow> scan_spec \<Rightarrow> file_row \<Rightarrow> stat_facts" where
  "spec_facts fs sp r = (case fr_facts r of Some facts \<Rightarrow> facts | None \<Rightarrow> spec_stat fs sp r)"

definition spec_read :: "path_fs \<Rightarrow> scan_spec \<Rightarrow> file_row \<Rightarrow> rstr option" where
  "spec_read fs sp r = pf_text fs (path_join (ss_root sp) (row_rel r)) (sf_size (spec_facts fs sp r)) (ss_max_length sp)"

text \<open>Stats and reads ahead fill in what a row does not have yet, each row once, whichever thread takes it.\<close>

definition stat_row :: "path_fs \<Rightarrow> scan_spec \<Rightarrow> file_row \<Rightarrow> file_row" where
  "stat_row fs sp r = (case fr_facts r of Some _ \<Rightarrow> r | None \<Rightarrow> r\<lparr>fr_facts := Some (spec_stat fs sp r)\<rparr>)"

definition read_row :: "path_fs \<Rightarrow> scan_spec \<Rightarrow> file_row \<Rightarrow> file_row" where
  "read_row fs sp r = (case fr_content r of Some _ \<Rightarrow> r | None \<Rightarrow> r\<lparr>fr_content := Some (spec_read fs sp r)\<rparr>)"

text \<open>\<open>column\<close>: what a statement is given for a column of a row.\<close>

definition column_value :: "path_fs \<Rightarrow> scan_spec \<Rightarrow> file_row \<Rightarrow> int \<Rightarrow> value_ref" where
  "column_value fs sp r i =
     (case terminated_cell r i of
        Some t \<Rightarrow> Ref_Text (until_nul t)
      | None \<Rightarrow>
          (case row_cell (spec_facts fs sp) r i of
             Some v \<Rightarrow> v
           | None \<Rightarrow>
               text_ref (map_option utf8 (case fr_content r of Some c \<Rightarrow> c | None \<Rightarrow> spec_read fs sp r))))"

definition row_lookup_key :: "file_row \<Rightarrow> nat \<Rightarrow> rstr option" where
  "row_lookup_key r column =
     (if column = path_column then Some (row_path r)
      else if column = basename_column then row_basename r
      else if column = dir_column then row_dir r
      else None)"

definition path_source :: "path_fs \<Rightarrow> scan_spec \<Rightarrow> file_row source" where
  "path_source fs sp =
     \<lparr>so_lookup_columns = lookup_columns, so_lookup_key = row_lookup_key, so_prefetch_column = Some content_column,
      so_held_columns = content_column,
      so_cell = (\<lambda>r i. case row_cell (spec_facts fs sp) r (int i) of Some v \<Rightarrow> v | None \<Rightarrow> Ref_Null)\<rparr>"

text \<open>\<open>rows\<close>: the files of the scan, in chunks, the last one handed over whatever it holds.\<close>

definition stream_chunk_rows :: nat where
  "stream_chunk_rows = 4096"

fun push_rows :: "nat \<Rightarrow> 'r list \<Rightarrow> 'r list \<Rightarrow> 'r row_stream \<Rightarrow> 'r row_stream" where
  "push_rows sz chunk [] s = stream_push chunk s"
| "push_rows sz chunk (r # rs) s =
     (let chunk = chunk @ [r] in
      if length chunk = sz then push_rows sz [] rs (stream_push chunk s) else push_rows sz chunk rs s)"

definition spec_rows :: "scan_spec \<Rightarrow> rstr list \<Rightarrow> file_row row_stream" where
  "spec_rows sp rels =
     stream_finish False (push_rows stream_chunk_rows [] (map (file_row_new (ss_path_prefix sp)) rels) stream_default)"

section \<open>Reading a file\<close>

text \<open>How the reads of a file come back: so many bytes and one more, an interruption, or an error; with
  none left a read gives all it has room for.\<close>

datatype read_step = Gives nat | Interrupted | Fails

function read_all_from :: "read_step list \<Rightarrow> bytes \<Rightarrow> nat \<Rightarrow> bytes \<Rightarrow> bytes option" where
  "read_all_from cuts data len filled =
     (let len = (if length filled = len then 2 * len else len);
          room = min (len - length filled) (length data) in
      case cuts of
        [] \<Rightarrow> if room = 0 then Some filled else read_all_from [] (drop room data) len (filled @ take room data)
      | Gives n # cuts \<Rightarrow>
          if room = 0 then Some filled
          else read_all_from cuts (drop (min (n + 1) room) data) len (filled @ take (min (n + 1) room) data)
      | Interrupted # cuts \<Rightarrow> read_all_from cuts data len filled
      | Fails # cuts \<Rightarrow> None)"
  by pat_completeness auto
termination by (relation "measure (\<lambda>(cuts, data, _, _). length cuts + length data)") auto

declare read_all_from.simps [simp del]

definition read_all :: "(nat \<Rightarrow> bool) \<Rightarrow> read_step list \<Rightarrow> bytes \<Rightarrow> nat \<Rightarrow> bytes option" where
  "read_all reserves cuts data expected =
     (if reserves (max expected 1) then read_all_from cuts data (max expected 1) [] else None)"

definition usize_max :: nat where
  "usize_max = 2 ^ 64 - 1"

definition presize :: "int option \<Rightarrow> nat" where
  "presize sz = min (nat (case sz of None \<Rightarrow> 0 | Some s \<Rightarrow> s) + 1) usize_max"

definition from_utf8 :: "bytes \<Rightarrow> rstr option" where
  "from_utf8 bs = (let s = from_utf8_lossy bs in if utf8 s = bs then Some s else None)"

text \<open>\<open>read_text_with\<close>: what the file opened gives, if it could be opened, up to one byte past the limit.\<close>

definition read_text_with ::
  "(nat \<Rightarrow> bool) \<Rightarrow> (bytes \<times> read_step list) option \<Rightarrow> int option \<Rightarrow> nat \<Rightarrow> rstr option"
where
  "read_text_with reserves opened sz max_length =
     (if (case sz of Some s \<Rightarrow> int max_length < s | None \<Rightarrow> False) then None
      else (case opened of
          None \<Rightarrow> None
        | Some (data, cuts) \<Rightarrow>
            let cap = min (max_length + 1) usize_max in
            (case read_all reserves cuts (take cap data) (min (presize sz) cap) of
               None \<Rightarrow> None
             | Some bs \<Rightarrow> if max_length < length bs then None else from_utf8 bs)))"

section \<open>Reading ends with the file\<close>

lemma read_all_from_whole:
  assumes "Fails \<notin> set cuts" "length filled \<le> len" "0 < len"
  shows "read_all_from cuts data len filled = Some (filled @ data)"
  using assms
proof (induction cuts data len filled rule: read_all_from.induct)
  case (1 cuts data len filled)
  define len' where "len' = (if length filled = len then 2 * len else len)"
  define room where "room = min (len' - length filled) (length data)"
  have len': "length filled < len'" using 1(5,6) by (auto simp: len'_def)
  have room: "room = 0 \<longleftrightarrow> data = []" "room \<le> length data" "room \<le> len' - length filled" using len' by (auto simp: room_def min_def split: if_splits)
  show ?case
  proof (cases cuts)
    case Nil
    have "read_all_from [] (drop room data) len' (filled @ take room data) = Some (filled @ data)" if "room \<noteq> 0"
      using 1(1) [OF len'_def room_def Nil that] 1(4) room len' Nil by simp
    then show ?thesis using Nil room(1) by (subst read_all_from.simps) (simp add: Let_def flip: len'_def room_def)
  next
    case (Cons c rest)
    show ?thesis
    proof (cases c)
      case (Gives n)
      have "read_all_from rest (drop (min (n + 1) room) data) len' (filled @ take (min (n + 1) room) data) = Some (filled @ data)"
        if "room \<noteq> 0"
      proof -
        have "min (n + 1) room \<le> length data" "min (n + 1) room \<le> len' - length filled" using room by auto
        then show ?thesis using 1(2) [OF len'_def room_def Cons Gives that] 1(4) len' Cons by simp
      qed
      then show ?thesis using Cons Gives room(1) by (subst read_all_from.simps) (simp add: Let_def flip: len'_def room_def)
    next
      case Interrupted
      have "read_all_from rest data len' filled = Some (filled @ data)"
        using 1(3) [OF len'_def room_def Cons Interrupted] 1(4) len' Cons by simp
      then show ?thesis using Cons Interrupted by (subst read_all_from.simps) (simp add: Let_def flip: len'_def)
    next
      case Fails
      then show ?thesis using 1(4) Cons by simp
    qed
  qed
qed

section \<open>The rows of a scan\<close>

lemma push_rows_chunks:
  assumes "length chunk < sz" "\<not> rs_done s" "list_all (\<lambda>c. c \<noteq> []) (rs_chunks s)"
  shows "concat (rs_chunks (push_rows sz chunk rs s)) = concat (rs_chunks s) @ chunk @ rs \<and>
    list_all (\<lambda>c. c \<noteq> []) (rs_chunks (push_rows sz chunk rs s)) \<and> \<not> rs_done (push_rows sz chunk rs s)"
  using assms
proof (induction sz chunk rs s rule: push_rows.induct)
  case (2 sz chunk r rs s)
  show ?case
  proof (cases "length (chunk @ [r]) = sz")
    case True
    have "concat (rs_chunks (push_rows sz [] rs (stream_push (chunk @ [r]) s))) = concat (rs_chunks (stream_push (chunk @ [r]) s)) @ [] @ rs \<and>
      list_all (\<lambda>c. c \<noteq> []) (rs_chunks (push_rows sz [] rs (stream_push (chunk @ [r]) s))) \<and>
      \<not> rs_done (push_rows sz [] rs (stream_push (chunk @ [r]) s))"
      by (rule 2(1)) (use 2 True in \<open>auto simp: stream_push_def\<close>)
    then show ?thesis using True by (simp add: Let_def stream_push_def)
  next
    case False
    have "concat (rs_chunks (push_rows sz (chunk @ [r]) rs s)) = concat (rs_chunks s) @ (chunk @ [r]) @ rs \<and>
      list_all (\<lambda>c. c \<noteq> []) (rs_chunks (push_rows sz (chunk @ [r]) rs s)) \<and> \<not> rs_done (push_rows sz (chunk @ [r]) rs s)"
      by (rule 2(2)) (use 2 False in auto)
    then show ?thesis using False by (simp add: Let_def)
  qed
qed (auto simp: stream_push_def)

lemma spec_rows_chunks:
  obtains chunks where "stream_settled (spec_rows sp rels) = Ready chunks"
    "concat chunks = map (file_row_new (ss_path_prefix sp)) rels" "list_all (\<lambda>c. c \<noteq> []) chunks"
  using push_rows_chunks [of "[]" stream_chunk_rows stream_default "map (file_row_new (ss_path_prefix sp)) rels"] that
  by (auto simp: spec_rows_def stream_settled_def stream_finish_def stream_chunk_rows_def stream_default_def)

section \<open>The parts a row is cut into\<close>

lemma trim_back_id:
  assumes "length p \<le> 1 \<or> (last p \<noteq> c_slash \<and> \<not> (last p = c_dot \<and> last (butlast p) = c_slash))"
  shows "trim_back p = p"
  using assms by (subst trim_back.simps) auto

lemma last_plain: "plain_name n \<Longrightarrow> last n \<noteq> c_slash"
  by (metis last_in_set plain_name_def)

lemma trim_back_path:
  assumes "plain_name n"
  shows "trim_back (d @ [c_slash] @ n) = d @ [c_slash] @ n" "trim_back n = n"
proof -
  have n: "n \<noteq> []" "last n \<noteq> c_slash" "last n = c_dot \<Longrightarrow> 1 < length n" "last n = c_dot \<Longrightarrow> last (butlast n) \<noteq> c_slash"
  proof -
    show "n \<noteq> []" "last n \<noteq> c_slash" using assms last_plain by (auto simp: plain_name_def)
    show long: "1 < length n" if "last n = c_dot"
      using assms that by (cases n) (auto simp: plain_name_def split: if_splits)
    show "last (butlast n) \<noteq> c_slash" if "last n = c_dot"
    proof -
      have "butlast n \<noteq> []" using long [OF that] by (cases n) auto
      then have "last (butlast n) \<in> set n" by (meson in_set_butlastD last_in_set)
      then show ?thesis using assms by (auto simp: plain_name_def)
    qed
  qed
  then show "trim_back n = n" by (intro trim_back_id) auto
  have "butlast n \<noteq> []" if "last n = c_dot" using n(3) [OF that] by (cases n) auto
  then show "trim_back (d @ [c_slash] @ n) = d @ [c_slash] @ n" using n by (intro trim_back_id) (auto simp: butlast_append)
qed

lemma split_at_slash:
  assumes "c_slash \<notin> set n"
  shows "last_component (d @ [c_slash] @ n) = n" "before_last (d @ [c_slash] @ n) = d @ [c_slash]"
    "last_component n = n" "before_last n = []"
proof -
  have "takeWhile (\<lambda>c. c \<noteq> c_slash) (rev n @ ys) = rev n @ takeWhile (\<lambda>c. c \<noteq> c_slash) ys"
    "dropWhile (\<lambda>c. c \<noteq> c_slash) (rev n @ ys) = dropWhile (\<lambda>c. c \<noteq> c_slash) ys" for ys
    using assms by (intro takeWhile_append2 dropWhile_append2; auto)+
  from this [of "c_slash # rev d"] this [of "[]"] assms
  show "last_component (d @ [c_slash] @ n) = n" "before_last (d @ [c_slash] @ n) = d @ [c_slash]"
    "last_component n = n" "before_last n = []"
    by (simp_all add: last_component_def before_last_def del: takeWhile_eq_all_conv dropWhile_eq_Nil_conv)
qed

text \<open>A directory as the scan and the prefix spell one: no separator and no lone dot at its end.\<close>

definition tidy_dir :: "rstr \<Rightarrow> bool" where
  "tidy_dir d \<longleftrightarrow> d \<noteq> [] \<and> last d \<noteq> c_slash \<and> (length d \<le> 1 \<or> \<not> (last d = c_dot \<and> last (butlast d) = c_slash))"

lemma path_parts:
  assumes "plain_name n" "n \<noteq> [c_dot, c_dot]" "tidy_dir d"
  shows "file_name_of (d @ [c_slash] @ n) = Some n" "parent_of (d @ [c_slash] @ n) = Some d"
    "file_name_of n = Some n" "parent_of n = Some []"
proof -
  have n: "c_slash \<notin> set n" "n \<noteq> []" "n \<noteq> [c_dot]" using assms(1) by (auto simp: plain_name_def)
  have "trim_back (d @ [c_slash]) = trim_back d"
    using assms(3) by (subst trim_back.simps) (simp add: tidy_dir_def)
  also have "trim_back d = d" using assms(3) by (intro trim_back_id) (auto simp: tidy_dir_def)
  finally have td: "trim_back (d @ [c_slash]) = d" .
  note t = trim_back_path [OF assms(1)] and s = split_at_slash [OF n(1)]
  show "file_name_of (d @ [c_slash] @ n) = Some n" "file_name_of n = Some n"
    unfolding file_name_of_def Let_def t s using n assms(2) by auto
  show "parent_of (d @ [c_slash] @ n) = Some d" "parent_of n = Some []"
    unfolding parent_of_def Let_def t s td using n trim_back_id [of "[]"] by auto
qed

lemma row_path_new: "row_path (file_row_new pre rel) = (if pre = [] then rel else reported_path pre rel)"
  by (simp add: row_path_def file_row_new_def reported_in_place_def)

lemma row_spans_new: "fr_spans (file_row_new pre rel) = spans_of (row_path (file_row_new pre rel))"
  by (simp add: row_path_def file_row_new_def reported_in_place_def)

lemma terminated_new: "fr_terminated (file_row_new pre rel) = row_path (file_row_new pre rel) @ [0]"
  by (simp add: row_path_def file_row_new_def reported_in_place_def)

text \<open>A row's directory and base name spell its path.\<close>

lemma row_spells_path:
  assumes "row_path (file_row_new pre rel) = d @ [c_slash] @ n" "plain_name n" "n \<noteq> [c_dot, c_dot]" "tidy_dir d"
    "length (d @ [c_slash] @ n) + 1 < 2 ^ 32"
  shows "row_basename (file_row_new pre rel) = Some n" "row_dir (file_row_new pre rel) = Some d"
proof -
  let ?r = "file_row_new pre rel" and ?p = "d @ [c_slash] @ n"
  note parts = path_parts [OF assms(2-4)]
  have "ps_name_at (spans_of ?p) = Some (length d + 1)" "ps_dir_len (spans_of ?p) = Some (length d)"
    using assms(5) by (simp_all add: spans_of_def parts [simplified] span_def Let_def)
  then show "row_basename ?r = Some n" "row_dir ?r = Some d"
    using assms(1) by (simp_all add: row_basename_def row_dir_def row_spans_new terminated_new)
qed

lemma row_dir_top:
  assumes "row_path (file_row_new pre rel) = n" "plain_name n" "n \<noteq> [c_dot, c_dot]" "length n + 1 < 2 ^ 32"
  shows "row_basename (file_row_new pre rel) = Some n" "row_dir (file_row_new pre rel) = Some []"
proof -
  let ?r = "file_row_new pre rel"
  note parts = path_parts(3,4) [OF assms(2,3), of "[c_dot]"]
  have "ps_name_at (spans_of n) = Some 0" "ps_dir_len (spans_of n) = Some 0"
    using parts by (simp_all add: spans_of_def span_def tidy_dir_def Let_def)
  then show "row_basename ?r = Some n" "row_dir ?r = Some []"
    using assms(1) by (simp_all add: row_basename_def row_dir_def row_spans_new terminated_new)
qed

section \<open>Properties\<close>

text \<open>C27: a file's content is its text or nothing. However a file's bytes are cut into reads and however often a
  read is interrupted, the content is exactly the file's bytes as UTF-8, and nothing when the stat or
  the bytes themselves are longer than the connection accepts or are not UTF-8.\<close>

theorem read_text_reads_file:
  assumes "Fails \<notin> set cuts" "list_all reserves [1..<max_length + 2]" "max_length < usize_max"
  shows "read_text_with reserves (Some (data, cuts)) sz max_length =
    (if (case sz of Some s \<Rightarrow> int max_length < s | None \<Rightarrow> False) \<or> max_length < length data then None else from_utf8 data)"
proof -
  have cap: "min (max_length + 1) usize_max = max_length + 1" using assms(3) by simp
  have "reserves (max (min (presize sz) (max_length + 1)) 1)"
  proof -
    have "max (min (presize sz) (max_length + 1)) 1 \<in> set [1..<max_length + 2]" by auto
    then show ?thesis using assms(2) unfolding list_all_iff by blast
  qed
  then have "read_all reserves cuts (take (max_length + 1) data) (min (presize sz) (max_length + 1)) = Some (take (max_length + 1) data)"
    using read_all_from_whole [OF assms(1), of "[]" "max (min (presize sz) (max_length + 1)) 1"] by (simp add: read_all_def)
  then show ?thesis using cap by (auto simp: read_text_with_def)
qed

theorem read_text_reads_file_witness:
  "read_text_with (\<lambda>n. True) (Some ([72, 105, 10], [Gives 0, Interrupted, Gives 4])) (Some 1) 3 = Some [72, 105, 10]"
proof -
  have "from_utf8 [72, 105, 10] = Some [72, 105, 10]" by code_simp
  then show ?thesis
    using read_text_reads_file [of "[Gives 0, Interrupted, Gives 4]" "\<lambda>n. True" 3 "[72, 105, 10]" "Some 1"]
    by (simp add: list_all_iff usize_max_def)
qed

lemma lookup_cell:
  assumes "column \<in> set lookup_columns"
  shows "row_lookup_key r column = Some key \<longleftrightarrow> row_cell facts r (int column) = Some (Ref_Text key)"
  using assms by (auto simp: lookup_columns_def row_lookup_key_def row_cell_def column_numbers text_ref_def split: option.splits)

interpretation path_lookups: table_source "path_source fs sp" "\<lambda>r column. row_cell (spec_facts fs sp) r (int column)" for fs sp
proof
  fix column r key assume "column \<in> set (so_lookup_columns (path_source fs sp))"
  then show "column + 1 < 2 ^ 30"
    and "so_lookup_key (path_source fs sp) r column = Some key \<longleftrightarrow> row_cell (spec_facts fs sp) r (int column) = Some (Ref_Text key)"
    using lookup_cell [of column r key "spec_facts fs sp"] by (auto simp: path_source_def lookup_columns_def column_numbers)
qed

text \<open>C26: probing a path-table loses no row and adds none. When the plan for a statement's constraints is a probe,
  its constraint is a usable equality on \<open>path\<close>, \<open>basename\<close> or \<open>dir\<close>, and however the cursor was used
  before, a filter with a text reads exactly the rows of the scan whose cell in that column is the
  text, in the order of the scan and under the rowids a full scan gives them.\<close>

theorem path_lookup_selects:
  assumes "best_index (path_source fs sp) col_used constraints = (Some i, idx_num, cost)"
    "stream_settled (spec_rows sp rels) = Ready chunks" "cursor_used (path_source fs sp) chunks cu"
    "length rels \<le> n" "int (length rels) < 2 ^ 63"
  shows "\<exists>column\<in>set [path_column, basename_column, dir_column].
    i < length constraints \<and> cn_usable (constraints ! i) \<and> cn_equality (constraints ! i) \<and> cn_column (constraints ! i) = int column \<and>
    cursor_read chunks n (cursor_filter (path_source fs sp) chunks idx_num [Ref_Text key] cu) =
      map (\<lambda>(p, r). (int p, Some r))
        (filter (\<lambda>(p, r). row_cell (spec_facts fs sp) r (int column) = Some (Ref_Text key))
          (enumerate 0 (map (file_row_new (ss_path_prefix sp)) rels)))"
proof -
  obtain chunks' where c: "stream_settled (spec_rows sp rels) = Ready chunks'"
    "concat chunks' = map (file_row_new (ss_path_prefix sp)) rels" "list_all (\<lambda>c. c \<noteq> []) chunks'" by (rule spec_rows_chunks)
  then have chunks: "concat chunks = map (file_row_new (ss_path_prefix sp)) rels" "list_all (\<lambda>c. c \<noteq> []) chunks"
    using assms(2) by auto
  have "so_lookup_columns (path_source fs sp) = [path_column, basename_column, dir_column]"
    by (simp add: path_source_def lookup_columns_def)
  then show ?thesis
    using path_lookups.probe_selects [OF assms(1) assms(3) chunks(2), of n key] assms(4,5) chunks(1) by simp
qed

text \<open>A path without a NUL, which no file has, is handed over whole: a statement is given the cell itself.\<close>

lemma column_is_cell:
  assumes "0 \<notin> set (row_path (file_row_new pre rel))" "0 \<le> i" "i < 7"
  shows "Some (column_value fs sp (file_row_new pre rel) i) = row_cell (spec_facts fs sp) (file_row_new pre rel) i"
proof -
  let ?r = "file_row_new pre rel"
  have whole: "until_nul (drop at (row_path ?r) @ [0]) = drop at (row_path ?r)" for at
  proof -
    have "\<forall>b\<in>set (drop at (row_path ?r)). b \<noteq> 0" using assms(1) by (metis in_set_dropD)
    then show ?thesis by (simp add: until_nul_def)
  qed
  have at: "at \<le> length (row_path ?r)" if "ps_name_at (fr_spans ?r) = Some at \<or> ps_ext_at (fr_spans ?r) = Some at" for at
    using that by (auto simp: row_spans_new spans_of_def span_def Let_def split: option.splits if_splits bind_splits)
  have "i = 0 \<or> i = 1 \<or> i = 2 \<or> i = 3 \<or> i = 4 \<or> i = 5 \<or> i = 6" using assms(2,3) by presburger
  then show ?thesis
    using whole [of 0] whole at
    by (elim disjE) (auto simp: column_value_def terminated_cell_def row_cell_def column_numbers terminated_new row_basename_def
        row_ext_def text_ref_def Let_def split: option.splits)
qed

definition small_fs :: path_fs where
  "small_fs = \<lparr>pf_stat = (\<lambda>p. None), pf_text = (\<lambda>p sz limit. None)\<rparr>"

definition small_spec :: scan_spec where
  "small_spec = \<lparr>ss_root = ascii ''/r'', ss_path_prefix = [], ss_max_length = 100\<rparr>"

definition equals_column :: "int \<Rightarrow> constraint" where
  "equals_column column = \<lparr>cn_column = column, cn_usable = True, cn_equality = True\<rparr>"

lemma small_stream:
  assumes "rels \<noteq> []" "length rels < 4096"
  shows "stream_settled (spec_rows small_spec rels) = Ready [map (file_row_new []) rels]"
proof -
  have "push_rows sz chunk rs s = stream_push (chunk @ rs) s" if "length chunk + length rs < sz" for sz chunk and rs :: "file_row list" and s
    using that by (induction sz chunk rs s rule: push_rows.induct) (auto simp: Let_def)
  then have "push_rows stream_chunk_rows [] (map (file_row_new []) rels) stream_default =
      stream_push (map (file_row_new []) rels) stream_default"
    using assms(2) by (simp add: stream_chunk_rows_def)
  then show ?thesis using assms(1)
    by (simp add: spec_rows_def small_spec_def stream_settled_def stream_finish_def stream_push_def stream_default_def)
qed

lemma small_plan:
  assumes "column \<in> set lookup_columns"
  shows "best_index (path_source small_fs small_spec) 1 [equals_column (int column)] = (Some 0, plan_idx_num (Some column) False, 10)"
proof -
  have "\<not> names_column 1 content_column" by (simp add: names_column_def column_numbers bit_1_iff)
  then show ?thesis using assms
    by (auto simp: best_index_def path_source_def lookup_columns_def column_numbers equals_column_def Let_def lookup_cost_def
        cheap_lookup_cost_def)
qed

theorem path_lookup_selects_witness:
  "\<exists>column\<in>set [path_column, basename_column, dir_column].
    (0::nat) < length [equals_column 1] \<and> cn_usable ([equals_column 1] ! 0) \<and> cn_equality ([equals_column 1] ! 0) \<and>
    cn_column ([equals_column 1] ! 0) = int column \<and>
    cursor_read [map (file_row_new []) [ascii ''a/x'', ascii ''b/x'', ascii ''b/y'']] 3
        (cursor_filter (path_source small_fs small_spec) [map (file_row_new []) [ascii ''a/x'', ascii ''b/x'', ascii ''b/y'']]
          (plan_idx_num (Some 1) False) [Ref_Text (ascii ''x'')] cursor_open) =
      map (\<lambda>(p, r). (int p, Some r))
        (filter (\<lambda>(p, r). row_cell (spec_facts small_fs small_spec) r (int column) = Some (Ref_Text (ascii ''x'')))
          (enumerate 0 (map (file_row_new (ss_path_prefix small_spec)) [ascii ''a/x'', ascii ''b/x'', ascii ''b/y''])))"
proof (rule path_lookup_selects)
  show "best_index (path_source small_fs small_spec) 1 [equals_column 1] = (Some 0, plan_idx_num (Some 1) False, 10)"
    using small_plan [of 1] by (simp add: lookup_columns_def column_numbers)
  show "stream_settled (spec_rows small_spec [ascii ''a/x'', ascii ''b/x'', ascii ''b/y'']) =
      Ready [map (file_row_new []) [ascii ''a/x'', ascii ''b/x'', ascii ''b/y'']]"
    by (rule small_stream) simp_all
qed (auto intro: cursor_used.opened)

end
