(* ===== verification/Parsed_Table.thy ===== *)
theory Parsed_Table
  imports Path_Rows On_File
begin

text \<open>
  \<open>packages/rust/src/parsed_vtab.rs\<close>: a path-table whose rows are what a parser command prints over the
  matched files, made once when the table is. The scan and the command (\<open>on_file::run\<close>) are parameters.
\<close>

record module_args =
  ma_root :: rstr
  ma_pattern :: rstr
  ma_command :: rstr
  ma_gitignore :: bool
  ma_check_root :: bool
  ma_index_root :: rstr
  ma_ignore :: "rstr list"

definition parsed_module_name :: rstr where
  "parsed_module_name = ascii ''dirsql_parsed''"

definition fixed_args :: nat where
  "fixed_args = 5"

text \<open>\<open>compiles\<close> and \<open>compiles_ignore\<close> are the messages for a glob or ignore patterns that do not compile.\<close>

definition parse_module_args ::
  "(rstr \<Rightarrow> rstr option) \<Rightarrow> (rstr list \<Rightarrow> rstr option) \<Rightarrow> bytes list \<Rightarrow> rstr + module_args"
where
  "parse_module_args compiles compiles_ignore args =
     (case user_args args of
        root # pattern # command # gitignore # index_root # ignore \<Rightarrow>
          (case compiles pattern of
             Some e \<Rightarrow> Inl e
           | None \<Rightarrow>
               (case parse_gitignore_arg gitignore of
                  Inl e \<Rightarrow> Inl e
                | Inr g \<Rightarrow>
                    (case compiles_ignore ignore of
                       Some e \<Rightarrow> Inl e
                     | None \<Rightarrow>
                         Inr \<lparr>ma_root = root, ma_pattern = pattern, ma_command = command, ma_gitignore = g,
                           ma_check_root = (gitignore = gitignore_root_arg), ma_index_root = index_root, ma_ignore = ignore\<rparr>)))
      | few \<Rightarrow>
          Inl (arity_error parsed_module_name fixed_args (ascii ''root, glob, parser, gitignore switch, index root'') (length few)))"

definition no_rows_message :: "rstr \<Rightarrow> rstr" where
  "no_rows_message pattern =
     parsed_module_name @ ascii '': parser produced no rows for `'' @ pattern @ ascii ''`; cannot infer a schema''"

text \<open>\<open>run_parser\<close>: the command, over the absolute paths, from the index root and with it as \<open>{root}\<close>.\<close>

definition run_parser ::
  "(rstr \<Rightarrow> rstr \<Rightarrow> rstr \<Rightarrow> rstr list \<Rightarrow> rstr + json_row list) \<Rightarrow> rstr \<Rightarrow> rstr \<Rightarrow> rstr \<Rightarrow> rstr list \<Rightarrow> rstr + json_row list"
where
  "run_parser on_file_run command index_root root rel_paths =
     on_file_run command index_root index_root (map (path_join root) rel_paths)"

definition column_name :: "rstr list \<Rightarrow> int \<Rightarrow> rstr option" where
  "column_name names i = (if i < 0 then None else get names (nat i))"

record parsed_table =
  pt_column_names :: "rstr list"
  pt_rows :: "json_row list"

definition parsed_connect ::
  "(rstr \<Rightarrow> rstr option) \<Rightarrow> (rstr list \<Rightarrow> rstr option) \<Rightarrow> (module_args \<Rightarrow> rstr list) \<Rightarrow>
   (rstr \<Rightarrow> rstr \<Rightarrow> rstr \<Rightarrow> rstr list \<Rightarrow> rstr + json_row list) \<Rightarrow> bytes list \<Rightarrow> (rstr + rstr \<times> parsed_table) option"
where
  "parsed_connect compiles compiles_ignore scan on_file_run args =
     (case parse_module_args compiles compiles_ignore args of
        Inl e \<Rightarrow> Some (Inl e)
      | Inr ma \<Rightarrow>
          (case run_parser on_file_run (ma_command ma) (ma_index_root ma) (ma_root ma) (scan ma) of
             Inl e \<Rightarrow> Some (Inl e)
           | Inr rows \<Rightarrow>
               map_option (\<lambda>columns.
                 if columns = [] then Inl (no_rows_message (ma_pattern ma))
                 else Inr (Infer.declared_schema columns, \<lparr>pt_column_names = map col_name columns, pt_rows = rows\<rparr>))
               (infer_schema rows)))"

definition parsed_rows :: "parsed_table \<Rightarrow> json_row row_stream" where
  "parsed_rows t = stream_finish False (stream_push (pt_rows t) stream_default)"

definition parsed_column :: "parsed_table \<Rightarrow> json_row \<Rightarrow> int \<Rightarrow> sql_value" where
  "parsed_column t r i = (case column_name (pt_column_names t) i of None \<Rightarrow> Null | Some n \<Rightarrow> cell r n)"

text \<open>No column of a parsed table is answered by lookup, read ahead or held.\<close>

definition parsed_source :: "json_row source" where
  "parsed_source =
     \<lparr>so_lookup_columns = [], so_lookup_key = (\<lambda>r c. None), so_prefetch_column = None, so_held_columns = 0,
      so_cell = (\<lambda>r c. Ref_Null)\<rparr>"

text \<open>So every plan is a full scan, which reads the rows the parser printed, in order.\<close>

lemma parsed_plan_scans: "best_index parsed_source col_used constraints = (None, scan_idx, 1000)"
  by (simp add: best_index_def parsed_source_def plan_idx_num_def scan_cost_def)

interpretation parsed_lookups: table_source parsed_source "\<lambda>row column. None"
  by unfold_locales (simp_all add: parsed_source_def)

lemma parsed_scan_reads_all:
  assumes "cursor_used parsed_source chunks cu" "stream_settled (parsed_rows t) = Ready chunks" "length (pt_rows t) \<le> n"
    "int (length (pt_rows t)) < 2 ^ 63"
  shows "map snd (cursor_read chunks n (cursor_filter parsed_source chunks scan_idx args cu)) = map Some (pt_rows t)"
proof -
  have chunks: "concat chunks = pt_rows t" "list_all (\<lambda>c. c \<noteq> []) chunks"
    using assms(2) by (auto simp: parsed_rows_def stream_settled_def stream_finish_def stream_push_def stream_default_def split: if_splits)
  then have "cursor_read chunks n (cursor_filter parsed_source chunks scan_idx args cu) =
      map (\<lambda>(p, row). (int p, Some row)) (enumerate 0 (pt_rows t))"
    using parsed_lookups.scan_reads_all [OF parsed_plan_scans assms(1) chunks(2)] assms(3,4) by simp
  then show ?thesis by (auto intro!: nth_equalityI simp: nth_enumerate_eq)
qed

end
