(* ===== verification/Query_Prepare.thy ===== *)
theory Query_Prepare
  imports Case_Variants Parsed_Table Path_Table Row_Shape
begin

text \<open>
  How \<open>packages/rust/src/db.rs\<close> prepares a statement: the authorizer that keeps the internal tables and the
  connection's state out of reach, and the loop that mints a path-table for each name SQLite misses.

  SQLite is a parameter: what it asks the authorizer while compiling a text, what comes of it, and what the
  statements that create a table do to the connection, whose state is a type of its own. So are the quoting of
  \<open>{:?}\<close>, \<open>char::is_alphanumeric\<close>, the home directory and which paths are directories.
\<close>

section \<open>What is refused\<close>

definition internal_table_prefix :: rstr where
  "internal_table_prefix = ascii ''_dirsql_''"

definition internal_table_denied_msg :: rstr where
  "internal_table_denied_msg = ascii ''not authorized: dirsql'' @ [c_squote] @
     ascii ''s internal bookkeeping tables (the `_dirsql_*` namespace) are not readable through query()''"

definition attach_denied_msg :: rstr where
  "attach_denied_msg =
     ascii ''not authorized: query() does not permit ATTACH or DETACH; attaching external databases is disabled on this surface''"

definition session_state_denied_msg :: rstr where
  "session_state_denied_msg =
     ascii ''not authorized: query() does not permit BEGIN, COMMIT, ROLLBACK, SAVEPOINT, RELEASE or a PRAGMA that sets a value''"

definition reading_pragmas :: "rstr list" where
  "reading_pragmas = map ascii
     [''foreign_key_check'', ''foreign_key_list'', ''index_info'', ''index_list'', ''index_xinfo'', ''integrity_check'',
      ''quick_check'', ''table_info'', ''table_list'', ''table_xinfo'']"

definition sets_session_state :: "rstr \<Rightarrow> bool" where
  "sets_session_state pragma \<longleftrightarrow> \<not> list_ex (\<lambda>reading. eq_ignore_ascii_case reading pragma) reading_pragmas"

definition is_internal_table :: "rstr \<Rightarrow> bool" where
  "is_internal_table name \<longleftrightarrow> prefix internal_table_prefix name"

text \<open>What SQLite asks the authorizer about; \<open>Other\<close> is every action the code always allows.\<close>

datatype auth_action =
  Read rstr
| Pragma rstr "rstr option"
| Attach
| Detach
| Transaction
| Savepoint
| Other

text \<open>The closure: the message recorded with a denial, and the tables read. The arms stand in this order.\<close>

record guard =
  gu_denial :: "rstr option"
  gu_reads :: "rstr set"

definition authorize :: "auth_action \<Rightarrow> guard \<Rightarrow> bool \<times> guard" where
  "authorize action gu =
     (let deny = (\<lambda>msg. (False, gu\<lparr>gu_denial := Some msg\<rparr>)); allow = (True, gu) in
      case action of
        Read table \<Rightarrow>
          if is_internal_table table then deny internal_table_denied_msg
          else (True, gu\<lparr>gu_reads := insert table (gu_reads gu)\<rparr>)
      | Pragma name (Some val) \<Rightarrow>
          if is_internal_table val then deny internal_table_denied_msg
          else if sets_session_state name then deny session_state_denied_msg
          else allow
      | Pragma name None \<Rightarrow> allow
      | Attach \<Rightarrow> deny attach_denied_msg
      | Detach \<Rightarrow> deny attach_denied_msg
      | Transaction \<Rightarrow> deny session_state_denied_msg
      | Savepoint \<Rightarrow> deny session_state_denied_msg
      | Other \<Rightarrow> allow)"

text \<open>The answer does not depend on what was recorded, so SQLite may be given it as a function.\<close>

definition permits :: "auth_action \<Rightarrow> bool" where
  "permits action = fst (authorize action \<lparr>gu_denial = None, gu_reads = {}\<rparr>)"

section \<open>Hints\<close>

definition no_such_table_prefix :: rstr where
  "no_such_table_prefix = ascii ''no such table: ''"

definition missing_table_name :: "rstr \<Rightarrow> rstr option" where
  "missing_table_name message =
     (case strip_prefix no_such_table_prefix message of
        None \<Rightarrow> None
      | Some rest \<Rightarrow> if trim rest \<noteq> [] then Some (trim rest) else None)"

definition bare_glob_hint :: "rstr \<Rightarrow> rstr" where
  "bare_glob_hint name =
     no_such_table_prefix @ name @ ascii ''; did you mean '' @ [c_squote] @ ascii ''./'' @ name @ [c_squote, c_quest]"

definition legacy_default_table :: rstr where
  "legacy_default_table = ascii ''files''"

definition legacy_files_table_hint :: rstr where
  "legacy_files_table_hint =
     no_such_table_prefix @ legacy_default_table @ ascii ''; did you mean FROM '' @ [c_squote] @ ascii ''./**'' @ [c_squote, c_quest]"

definition is_path_char :: "(uchar \<Rightarrow> bool) \<Rightarrow> uchar \<Rightarrow> bool" where
  "is_path_char alphanumeric c \<longleftrightarrow>
     alphanumeric c \<or> c \<in> set [c_dot, c_slash, c_under, c_minus, c_tilde, c_star, c_quest]"

text \<open>The bare path around a byte offset; \<open>None\<close> off a character boundary.\<close>

definition path_token_at :: "(uchar \<Rightarrow> bool) \<Rightarrow> rstr \<Rightarrow> nat \<Rightarrow> rstr option" where
  "path_token_at alphanumeric sql off =
     (case split_at_byte off sql of
        None \<Rightarrow> None
      | Some (pre, post) \<Rightarrow>
          let token = rev (takeWhile (is_path_char alphanumeric) (rev pre)) @ takeWhile (is_path_char alphanumeric) post in
          if c_slash \<in> set token then Some token else None)"

definition unquoted_path_hint :: "(rstr \<Rightarrow> rstr) \<Rightarrow> rstr \<Rightarrow> rstr" where
  "unquoted_path_hint debug token =
     ascii ''hint: paths used as table names must be quoted; did you mean '' @ debug token @ [c_quest]"

definition no_home_path_table :: "(rstr \<Rightarrow> rstr) \<Rightarrow> rstr \<Rightarrow> rstr" where
  "no_home_path_table debug name =
     ascii ''path-table '' @ debug name @ ascii '' cannot be resolved: no home directory for '' @ [c_squote, c_tilde, c_squote] @
     ascii '' (set HOME, or write the path out in full)''"

section \<open>Minting a path-table\<close>

text \<open>The arguments of the table's module, as they are written into the statement.\<close>

definition gitignore_switch :: "bool \<Rightarrow> rstr \<Rightarrow> path_table \<Rightarrow> rstr" where
  "gitignore_switch gitignore name table =
     (if \<not> gitignore then no_gitignore_arg
      else if pt_prefix table \<noteq> [] \<and> wildcard_below_prefix name then gitignore_root_arg
      else gitignore_arg)"

definition ddl_args :: "rstr \<Rightarrow> path_table \<Rightarrow> rstr list \<Rightarrow> bool \<Rightarrow> rstr option \<Rightarrow> rstr \<Rightarrow> rstr list" where
  "ddl_args name table ignore gitignore parser index_root =
     (case parser of
        Some command \<Rightarrow> [quote_literal (pt_root table), quote_literal (pt_glob table), quote_literal command]
      | None \<Rightarrow> [quote_literal (pt_root table), quote_literal (pt_glob table), quote_literal (pt_prefix table)]) @
     [quote_literal (gitignore_switch gitignore name table)] @
     (if parser \<noteq> None then [quote_literal index_root] else []) @
     map quote_literal ignore"

definition path_table_ddl :: "rstr \<Rightarrow> rstr \<Rightarrow> path_table \<Rightarrow> rstr list \<Rightarrow> bool \<Rightarrow> rstr option \<Rightarrow> rstr \<Rightarrow> rstr" where
  "path_table_ddl ident name table ignore gitignore parser index_root =
     ascii ''CREATE VIRTUAL TABLE IF NOT EXISTS temp.'' @ quote_identifier ident @ ascii '' USING '' @
     (if parser \<noteq> None then parsed_module_name else path_module_name) @ [c_lparen] @
     join (ascii '', '') (ddl_args name table ignore gitignore parser index_root) @ [c_rparen]"

section \<open>A connection\<close>

text \<open>An error SQLite compiles a text to, a statement, and SQLite itself over the states of a connection.
  \<open>en_asks\<close> is what it asks given the answers it would get.\<close>

record failure =
  fa_message :: rstr
  fa_denied :: bool
  fa_input :: "(rstr \<times> int) option"

record prepared =
  pr_columns :: "rstr list"
  pr_readonly :: bool
  pr_parameters :: "rstr option list"

record 'd engine =
  en_asks :: "'d \<Rightarrow> rstr \<Rightarrow> (auth_action \<Rightarrow> bool) \<Rightarrow> auth_action list"
  en_compile :: "'d \<Rightarrow> rstr \<Rightarrow> (auth_action \<Rightarrow> bool) \<Rightarrow> failure + prepared option"
  en_single :: "'d \<Rightarrow> rstr \<Rightarrow> bool"
  en_plain :: "'d \<Rightarrow> rstr \<Rightarrow> failure + prepared"
  en_execute :: "'d \<Rightarrow> rstr \<Rightarrow> (failure + unit) \<times> 'd"

record outside =
  ou_debug :: "rstr \<Rightarrow> rstr"
  ou_alphanumeric :: "uchar \<Rightarrow> bool"
  ou_resolve :: "rstr \<Rightarrow> rstr \<Rightarrow> resolution"

record settings =
  se_root :: "rstr option"
  se_hint_legacy :: bool
  se_ignore :: "rstr list"
  se_gitignore :: bool
  se_parser :: "rstr option"

text \<open>\<open>DbError\<close> as the preparation meets it: an error of SQLite keeps its parts.\<close>

datatype prepare_error = Failed failure | Refused db_error

definition failure_text :: "failure \<Rightarrow> rstr" where
  "failure_text e = ascii ''SQLite error: '' @ fa_message e"

section \<open>One guarded preparation\<close>

definition guard_after :: "auth_action list \<Rightarrow> guard" where
  "guard_after asks = fold (\<lambda>a gu. snd (authorize a gu)) asks \<lparr>gu_denial = None, gu_reads = {}\<rparr>"

definition prepare_guarded :: "'d engine \<Rightarrow> 'd \<Rightarrow> rstr \<Rightarrow> prepare_error + prepared \<times> rstr set" where
  "prepare_guarded en d sql =
     (let gu = guard_after (en_asks en d sql permits) in
      case en_compile en d sql permits of
        Inr (Some stmt) \<Rightarrow>
          if \<not> en_single en d sql then Inl (Refused Multiple_Statements) else Inr (stmt, gu_reads gu)
      | Inr None \<Rightarrow> (case en_plain en d sql of Inl e \<Rightarrow> Inl (Failed e) | Inr stmt \<Rightarrow> Inr (stmt, {}))
      | Inl e \<Rightarrow>
          if fa_denied e
          then Inl (Refused (Unauthorized (case gu_denial gu of None \<Rightarrow> internal_table_denied_msg | Some msg \<Rightarrow> msg)))
          else Inl (Failed e))"

section \<open>The tables a statement misses\<close>

definition hints_legacy_files_table :: "settings \<Rightarrow> rstr \<Rightarrow> bool" where
  "hints_legacy_files_table se name \<longleftrightarrow> se_hint_legacy se \<and> name = legacy_default_table"

definition path_table_for :: "outside \<Rightarrow> settings \<Rightarrow> prepare_error \<Rightarrow> prepare_error + (rstr \<times> path_table) option" where
  "path_table_for ou se error =
     (case (se_root se, error) of
        (Some root, Failed e) \<Rightarrow>
          (case missing_table_name (fa_message e) of
             None \<Rightarrow> Inr None
           | Some name \<Rightarrow>
               (case ou_resolve ou name root of
                  Table table \<Rightarrow> Inr (Some (name, table))
                | Hint \<Rightarrow> Inl (Refused (Path_Table (bare_glob_hint name)))
                | No_Home \<Rightarrow> Inl (Refused (Path_Table (no_home_path_table (ou_debug ou) name)))
                | Not_A_Path \<Rightarrow>
                    if hints_legacy_files_table se name then Inl (Refused (Path_Table legacy_files_table_hint)) else Inr None))
      | _ \<Rightarrow> Inr None)"

definition unquoted_path_hint_for :: "outside \<Rightarrow> settings \<Rightarrow> prepare_error \<Rightarrow> rstr option" where
  "unquoted_path_hint_for ou se error =
     (case (se_root se, error) of
        (Some _, Failed e) \<Rightarrow>
          (case fa_input e of
             None \<Rightarrow> None
           | Some (sql, off) \<Rightarrow>
               if off < 0 then None
               else map_option (unquoted_path_hint (ou_debug ou)) (path_token_at (ou_alphanumeric ou) sql (nat off)))
      | _ \<Rightarrow> None)"

definition hint_unquoted_path :: "outside \<Rightarrow> settings \<Rightarrow> prepare_error \<Rightarrow> prepare_error" where
  "hint_unquoted_path ou se error =
     (case (unquoted_path_hint_for ou se error, error) of
        (Some hint, Failed e) \<Rightarrow> Refused (Path_Table (failure_text e @ [c_nl] @ hint))
      | _ \<Rightarrow> error)"

text \<open>\<open>expect\<close> panics without a root: \<open>None\<close>.\<close>

definition create_path_table ::
  "'d engine \<Rightarrow> settings \<Rightarrow> rstr \<Rightarrow> rstr \<Rightarrow> path_table \<Rightarrow> 'd \<Rightarrow> ((failure + unit) \<times> 'd) option"
where
  "create_path_table en se ident name table d =
     (case se_root se of
        None \<Rightarrow> None
      | Some root \<Rightarrow>
          Some (en_execute en d
            (path_table_ddl ident name table (default_ignores @ se_ignore se) (se_gitignore se) (se_parser se) root)))"

text \<open>The loop of \<open>prepare_reading\<close>. Nothing in the code bounds the rounds but that SQLite misses a new name in
  each; \<open>None\<close> is a loop that does not end, or the panic.\<close>

partial_function (option) prepare_loop ::
  "'d engine \<Rightarrow> outside \<Rightarrow> settings \<Rightarrow> rstr \<Rightarrow> rstr list \<Rightarrow> 'd \<Rightarrow> ((prepare_error + prepared \<times> rstr set) \<times> 'd) option"
where
  "prepare_loop en ou se sql attempted d =
     (case prepare_guarded en d sql of
        Inr p \<Rightarrow> Some (Inr p, d)
      | Inl error \<Rightarrow>
          (case path_table_for ou se error of
             Inl e \<Rightarrow> Some (Inl e, d)
           | Inr None \<Rightarrow> Some (Inl (hint_unquoted_path ou se error), d)
           | Inr (Some (name, table)) \<Rightarrow>
               if name \<in> set attempted then Some (Inl error, d)
               else Option.bind (create_path_table en se name name table d)
                 (\<lambda>(r, d'). case r of
                    Inl e \<Rightarrow> Some (Inl (Failed e), d')
                  | Inr _ \<Rightarrow> prepare_loop en ou se sql (name # attempted) d')))"

text \<open>\<open>for i in 1..\<close>: the first suffix that makes a name neither asked for nor given.\<close>

definition suffixed :: "rstr \<Rightarrow> nat \<Rightarrow> rstr" where
  "suffixed name k0 = name @ [c_colon] @ show_nat k0"

lemma suffixed_inj: "suffixed name m = suffixed name n \<longleftrightarrow> m = n"
  by (metis suffixed_def append_same_eq digits_value_show_nat same_append_eq)

lemma finite_suffixes: "finite {k. k0 \<le> k \<and> suffixed name k \<in> set taken}"
proof -
  have "inj_on (suffixed name) {k. suffixed name k \<in> set taken}" by (simp add: inj_on_def suffixed_inj)
  moreover have "suffixed name ` {k. suffixed name k \<in> set taken} \<subseteq> set taken" by blast
  ultimately have "finite {k. suffixed name k \<in> set taken}" using inj_on_finite finite_set by blast
  then show ?thesis by (rule finite_subset [rotated]) blast
qed

function free_name :: "rstr \<Rightarrow> rstr list \<Rightarrow> nat \<Rightarrow> rstr" where
  "free_name name taken k0 =
     (if suffixed name k0 \<notin> set taken then suffixed name k0 else free_name name taken (k0 + 1))"
  by pat_completeness auto

termination
proof (relation "measure (\<lambda>(name, taken, k0). card {k. k0 \<le> k \<and> suffixed name k \<in> set taken})")
  fix name taken k0
  assume "\<not> suffixed name k0 \<notin> set taken"
  then have "{k. k0 + 1 \<le> k \<and> suffixed name k \<in> set taken} \<subset> {k. k0 \<le> k \<and> suffixed name k \<in> set taken}"
    by (intro psubsetI) (auto dest: Suc_leD intro!: exI [of _ k0] simp: set_eq_iff)
  then show "((name, taken, k0 + 1), name, taken, k0)
      \<in> measure (\<lambda>(name, taken, k0). card {k. k0 \<le> k \<and> suffixed name k \<in> set taken})"
    by (simp add: psubset_card_mono finite_suffixes)
qed simp

declare free_name.simps [simp del]

fun unique_names_from :: "rstr list \<Rightarrow> rstr list \<Rightarrow> rstr list \<Rightarrow> rstr list" where
  "unique_names_from reserved given [] = []"
| "unique_names_from reserved given (name # names) =
     (if name \<notin> set given then name # unique_names_from reserved (name # given) names
      else let candidate = free_name name (reserved @ given) 1 in
        candidate # unique_names_from reserved (candidate # given) names)"

definition unique_column_names :: "rstr list \<Rightarrow> rstr list" where
  "unique_column_names names = unique_names_from names [] names"

text \<open>\<open>prepare_reading\<close>: the statement, its columns and the tables it reads.\<close>

definition prepare_reading ::
  "'d engine \<Rightarrow> outside \<Rightarrow> settings \<Rightarrow> rstr \<Rightarrow> 'd \<Rightarrow> ((prepare_error + prepared \<times> rstr list \<times> rstr set) \<times> 'd) option"
where
  "prepare_reading en ou se sql d =
     map_option (\<lambda>(r, d'). (case r of
         Inl e \<Rightarrow> Inl e
       | Inr (stmt, reads) \<Rightarrow>
           if \<not> pr_readonly stmt then Inl (Refused Write_Forbidden)
           else Inr (stmt, unique_column_names (pr_columns stmt), reads), d'))
       (prepare_loop en ou se sql [] d)"

section \<open>What the authorizer lets through\<close>

definition forbidden :: "auth_action \<Rightarrow> bool" where
  "forbidden action = (case action of
       Read table \<Rightarrow> is_internal_table table
     | Pragma name (Some val) \<Rightarrow> is_internal_table val \<or> sets_session_state name
     | Pragma name None \<Rightarrow> False
     | Other \<Rightarrow> False
     | _ \<Rightarrow> True)"

lemma permits_iff: "permits action \<longleftrightarrow> \<not> forbidden action"
  by (simp add: permits_def forbidden_def authorize_def Let_def split: auth_action.splits option.splits)

lemma authorize_answer: "fst (authorize action gu) = permits action"
  by (simp add: permits_def authorize_def Let_def split: auth_action.splits option.splits)

lemma authorize_reads:
  "gu_reads (snd (authorize action gu)) = gu_reads gu \<union> {t. action = Read t \<and> permits action}"
  by (auto simp: permits_def authorize_def Let_def split: auth_action.splits option.splits)

lemma guard_reads_from:
  "gu_reads (fold (\<lambda>a gu. snd (authorize a gu)) asks gu) = gu_reads gu \<union> {t. Read t \<in> set asks \<and> permits (Read t)}"
  by (induction asks arbitrary: gu) (auto simp: authorize_reads)

lemma guard_after_reads: "gu_reads (guard_after asks) = {t. Read t \<in> set asks \<and> \<not> is_internal_table t}"
  by (simp add: guard_after_def guard_reads_from permits_iff forbidden_def)

section \<open>The path around an offset\<close>

text \<open>Whichever character of a bare path SQLite rejects, the whole path is recovered.\<close>

lemma path_token_recovers:
  assumes "list_all (is_path_char alnum) (u @ v)" "c_slash \<in> set (u @ v)"
    "pre = [] \<or> \<not> is_path_char alnum (last pre)" "post = [] \<or> \<not> is_path_char alnum (hd post)"
  shows "path_token_at alnum (pre @ u @ v @ post) (byte_len (pre @ u)) = Some (u @ v)"
proof -
  have split: "split_at_byte (byte_len (pre @ u)) (pre @ u @ v @ post) = Some (pre @ u, v @ post)"
    using split_at_byte_append [of "pre @ u" "v @ post"] by simp
  have "takeWhile (is_path_char alnum) (rev pre) = []" using assms(3) by (cases pre rule: rev_cases) auto
  then have u: "takeWhile (is_path_char alnum) (rev (pre @ u)) = rev u"
    using assms(1) by (subst rev_append, subst takeWhile_append2) (auto simp: list_all_iff)
  have "takeWhile (is_path_char alnum) post = []" using assms(4) by (cases post) auto
  then have v: "takeWhile (is_path_char alnum) (v @ post) = v"
    using assms(1) by (subst takeWhile_append2) (auto simp: list_all_iff)
  show ?thesis using assms(2) unfolding path_token_at_def split by (simp only: option.case prod.case u v) (auto simp: Let_def)
qed

section \<open>Columns named once\<close>

lemma free_name_new: "free_name name taken k0 \<notin> set taken"
  by (induction name taken k0 rule: free_name.induct) (subst free_name.simps, simp)

lemma free_name_suffixed: "\<exists>k\<ge>k0. free_name name taken k0 = suffixed name k"
proof (induction name taken k0 rule: free_name.induct)
  case (1 name taken k0)
  show ?case
  proof (cases "suffixed name k0 \<in> set taken")
    case True
    then obtain k where "k \<ge> k0 + 1" "free_name name taken (k0 + 1) = suffixed name k" using "1.IH" by blast
    then show ?thesis using True by (subst free_name.simps) (auto intro: exI [of _ k])
  next
    case False
    then show ?thesis by (subst free_name.simps) auto
  qed
qed

text \<open>Every column keeps its place, the names are distinct, and the first column of each name keeps it.\<close>

lemma unique_names_from_facts:
  assumes "set names \<subseteq> set reserved"
  shows "length (unique_names_from reserved given names) = length names \<and>
    distinct (unique_names_from reserved given names) \<and>
    set (unique_names_from reserved given names) \<inter> set given = {} \<and>
    (distinct names \<and> set names \<inter> set given = {} \<longrightarrow> unique_names_from reserved given names = names)"
  using assms
proof (induction names arbitrary: given)
  case (Cons name names)
  obtain c where c: "c \<notin> set given" "name \<notin> set given \<Longrightarrow> c = name"
    "unique_names_from reserved given (name # names) = c # unique_names_from reserved (c # given) names"
    using free_name_new [of name "reserved @ given" 1]
    by (cases "name \<in> set given") (auto simp: Let_def simp del: One_nat_def)
  show ?case using Cons.IH [of "c # given"] Cons.prems c(1,2) unfolding c(3) by auto
qed simp

lemma length_unique_column_names [simp]: "length (unique_column_names names) = length names"
  using unique_names_from_facts [of names names "[]"] by (simp add: unique_column_names_def)

lemma distinct_unique_column_names [simp]: "distinct (unique_column_names names)"
  using unique_names_from_facts [of names names "[]"] by (simp add: unique_column_names_def)

lemma unique_column_names_distinct: "distinct names \<Longrightarrow> unique_column_names names = names"
  using unique_names_from_facts [of names names "[]"] by (simp add: unique_column_names_def)

section \<open>The loop\<close>

lemma prepare_loop_Inl:
  assumes "prepare_guarded en d sql = Inl error"
  shows "prepare_loop en ou se sql attempted d =
    (case path_table_for ou se error of
       Inl e \<Rightarrow> Some (Inl e, d)
     | Inr None \<Rightarrow> Some (Inl (hint_unquoted_path ou se error), d)
     | Inr (Some (name, table)) \<Rightarrow>
         if name \<in> set attempted then Some (Inl error, d)
         else Option.bind (create_path_table en se name name table d)
           (\<lambda>(r, d'). case r of
              Inl e \<Rightarrow> Some (Inl (Failed e), d')
            | Inr _ \<Rightarrow> prepare_loop en ou se sql (name # attempted) d'))"
  using assms by (subst prepare_loop.simps) simp

lemma prepare_loop_Inr: "prepare_guarded en d sql = Inr p \<Longrightarrow> prepare_loop en ou se sql attempted d = Some (Inr p, d)"
  by (subst prepare_loop.simps) simp

lemma not_Inr_unit: "x \<noteq> Inr () \<Longrightarrow> \<exists>e. x = Inl e"
  by (cases x) auto

lemma prepare_loop_cases:
  assumes "prepare_loop en ou se sql attempted d = Some (r, d')"
  obtains
    (Compiled) p where "prepare_guarded en d sql = Inr p" "r = Inr p" "d' = d"
  | (Failed_Round) e where "prepare_guarded en d sql = Inl e" "isl r"
  | (Minted) e name table d1 where "prepare_guarded en d sql = Inl e" "path_table_for ou se e = Inr (Some (name, table))"
      "name \<notin> set attempted" "create_path_table en se name name table d = Some (Inr (), d1)"
      "prepare_loop en ou se sql (name # attempted) d1 = Some (r, d')"
proof (cases "prepare_guarded en d sql")
  case (Inl e)
  show thesis
  proof (cases "\<exists>name table d1. path_table_for ou se e = Inr (Some (name, table)) \<and> name \<notin> set attempted \<and>
      create_path_table en se name name table d = Some (Inr (), d1)")
    case True
    with assms [unfolded prepare_loop_Inl [OF Inl, of ou se attempted]] show thesis by (auto intro: Minted [OF Inl])
  next
    case False
    with assms [unfolded prepare_loop_Inl [OF Inl, of ou se attempted]] have "isl r"
      by (auto split: sum.splits option.splits if_splits simp: bind_eq_Some_conv dest!: not_Inr_unit)
    then show thesis by (rule Failed_Round [OF Inl])
  qed
next
  case (Inr p)
  show thesis using assms prepare_loop_Inr [OF Inr, of ou se attempted] by (intro Compiled [OF Inr]) simp_all
qed

text \<open>A text that mentions finitely many tables is compiled or refused after at most as many rounds.\<close>

definition misses_within :: "'d engine \<Rightarrow> rstr \<Rightarrow> rstr list \<Rightarrow> bool" where
  "misses_within en sql tables \<longleftrightarrow>
     (\<forall>d e name. en_compile en d sql permits = Inl e \<longrightarrow> missing_table_name (fa_message e) = Some name \<longrightarrow> name \<in> set tables) \<and>
     (\<forall>d e name. en_plain en d sql = Inl e \<longrightarrow> missing_table_name (fa_message e) = Some name \<longrightarrow> name \<in> set tables)"

lemma path_table_for_Table:
  assumes "path_table_for ou se error = Inr (Some (name, table))"
  shows "\<exists>root e. se_root se = Some root \<and> error = Failed e \<and> missing_table_name (fa_message e) = Some name"
  using assms by (auto simp: path_table_for_def split: option.splits prepare_error.splits resolution.splits if_splits)

lemma prepare_guarded_Failed:
  assumes "prepare_guarded en d sql = Inl (Failed e)"
  shows "en_compile en d sql permits = Inl e \<or> en_plain en d sql = Inl e"
  using assms by (auto simp: prepare_guarded_def Let_def split: sum.splits option.splits if_splits)

lemma misses_withinD:
  assumes "misses_within en sql tables" "prepare_guarded en d sql = Inl (Failed e)" "missing_table_name (fa_message e) = Some name"
  shows "name \<in> set tables"
  using prepare_guarded_Failed [OF assms(2)] assms(1,3) by (auto simp: misses_within_def)

lemma prepare_loop_returns:
  assumes "misses_within en sql tables"
  shows "\<exists>r. prepare_loop en ou se sql attempted d = Some r"
proof (induction "card (set tables - set attempted)" arbitrary: attempted d rule: less_induct)
  case less
  show ?case
  proof (cases "prepare_guarded en d sql")
    case (Inl error)
    show ?thesis
    proof (cases "path_table_for ou se error")
      case Tried: (Inr t)
      show ?thesis
      proof (cases t)
        case (Some nt)
        obtain name table where nt: "nt = (name, table)" by fastforce
        obtain root e where e: "se_root se = Some root" "error = Failed e" "missing_table_name (fa_message e) = Some name"
          using path_table_for_Table Tried Some nt by blast
        then have mem: "name \<in> set tables"
          using misses_withinD [OF assms] Inl by simp
        obtain r d1 where c: "create_path_table en se name name table d = Some (r, d1)"
          using e(1) by (simp add: create_path_table_def) (metis surj_pair)
        have "\<exists>r. prepare_loop en ou se sql (name # attempted) d1 = Some r" if "name \<notin> set attempted"
        proof (rule less)
          have "set tables - set (name # attempted) \<subset> set tables - set attempted" using mem that by auto
          then show "card (set tables - set (name # attempted)) < card (set tables - set attempted)"
            by (rule psubset_card_mono [rotated]) simp
        qed
        then show ?thesis using Tried Some nt c unfolding prepare_loop_Inl [OF Inl] by (auto split: sum.splits)
      qed (use Tried in \<open>simp add: prepare_loop_Inl [OF Inl]\<close>)
    qed (simp add: prepare_loop_Inl [OF Inl])
  qed (simp add: prepare_loop_Inr)
qed

text \<open>What a text that compiles was compiled as, in the end.\<close>

definition compiled_as :: "'d engine \<Rightarrow> rstr \<Rightarrow> (prepare_error + prepared \<times> rstr set) \<times> 'd \<Rightarrow> bool" where
  "compiled_as en sql y = (case y of (Inl e, d') \<Rightarrow> True | (Inr p, d') \<Rightarrow> prepare_guarded en d' sql = Inr p)"

lemma compiled_as_simps [simp]:
  "compiled_as en sql (Inl e, d')" "compiled_as en sql (Inr p, d') \<longleftrightarrow> prepare_guarded en d' sql = Inr p"
  by (simp_all add: compiled_as_def)

lemma prepare_loop_result:
  assumes "prepare_loop en ou se sql attempted d = Some y"
  shows "compiled_as en sql y"
proof (rule prepare_loop.raw_induct [OF _ assms, where P = "\<lambda>en ou se sql attempted d y. compiled_as en sql y"], goal_cases)
  case (1 loop en ou se sql attempted d y)
  show ?case
  proof (cases "prepare_guarded en d sql")
    case (Inl error)
    have IH: "loop en ou se sql att b = Some y \<Longrightarrow> compiled_as en sql y" for att b by (rule 1(1))
    from 1(2) Inl show ?thesis
      by (auto split: sum.splits option.splits if_splits simp: bind_eq_Some_conv dest!: not_Inr_unit) (rule IH)
  qed (use 1(2) in \<open>auto\<close>)
qed


section \<open>Properties\<close>

text \<open>SQLite keeps to the answers: a statement is compiled only when all it asked about was permitted.\<close>

definition obeys :: "'d engine \<Rightarrow> bool" where
  "obeys en \<longleftrightarrow>
     (\<forall>d sql permit stmt. en_compile en d sql permit = Inr (Some stmt) \<longrightarrow> list_all permit (en_asks en d sql permit))"

text \<open>C28: A statement \<open>query()\<close> runs is a single one SQLite holds for read-only, compiled without asking for an internal
  table, a file attached, a transaction, a savepoint or the setting of a pragma; the tables it reads are those it
  asked for, and its columns are named apart. (A text without any statement is compiled to one that does nothing.)\<close>

theorem prepared_statement_allowed:
  assumes "obeys en" "prepare_reading en ou se sql d = Some (Inr (stmt, columns, reads), d')"
    "en_compile en d' sql permits \<noteq> Inr None"
  shows "pr_readonly stmt \<and> en_compile en d' sql permits = Inr (Some stmt) \<and> en_single en d' sql \<and>
    list_all (\<lambda>a. \<not> forbidden a) (en_asks en d' sql permits) \<and>
    reads = {t. Read t \<in> set (en_asks en d' sql permits)} \<and>
    distinct columns \<and> length columns = length (pr_columns stmt)"
proof -
  have l: "prepare_loop en ou se sql [] d = Some (Inr (stmt, reads), d')" "pr_readonly stmt" "columns = unique_column_names (pr_columns stmt)"
    using assms(2) by (auto simp: prepare_reading_def split: if_splits elim!: case_sum_InrE)
  have g: "prepare_guarded en d' sql = Inr (stmt, reads)" using prepare_loop_result [OF l(1)] by simp
  then have c: "en_compile en d' sql permits = Inr (Some stmt)" "en_single en d' sql" "reads = gu_reads (guard_after (en_asks en d' sql permits))"
    using assms(3) by (auto simp: prepare_guarded_def Let_def split: sum.splits option.splits if_splits)
  have all: "list_all permits (en_asks en d' sql permits)" using assms(1) c(1) unfolding obeys_def by blast
  then have ok: "list_all (\<lambda>a. \<not> forbidden a) (en_asks en d' sql permits)" by (simp add: permits_iff list_all_iff)
  moreover have "reads = {t. Read t \<in> set (en_asks en d' sql permits)}"
    using ok c(3) by (auto simp: guard_after_reads list_all_iff forbidden_def)
  ultimately show ?thesis using l(2,3) c(1,2) by simp
qed

text \<open>A small connection: every statement lists the paths of the one table named \<open>t\<close>.\<close>

definition small_prepared :: prepared where
  "small_prepared = \<lparr>pr_columns = [ascii ''path''], pr_readonly = True, pr_parameters = []\<rparr>"

definition small_engine :: "unit engine" where
  "small_engine =
     \<lparr>en_asks = (\<lambda>_ _ _. [Other, Read (ascii ''t'')]), en_compile = (\<lambda>_ _ permit. if permit Other \<and> permit (Read (ascii ''t'')) then Inr (Some small_prepared)
         else Inl \<lparr>fa_message = ascii ''not authorized'', fa_denied = True, fa_input = None\<rparr>), en_single = (\<lambda>_ _. True),
      en_plain = (\<lambda>_ _. Inr small_prepared), en_execute = (\<lambda>d _. (Inr (), d))\<rparr>"

definition small_outside :: outside where
  "small_outside = \<lparr>ou_debug = id, ou_alphanumeric = (\<lambda>_. False), ou_resolve = (\<lambda>_ _. Not_A_Path)\<rparr>"

definition small_settings :: settings where
  "small_settings = \<lparr>se_root = None, se_hint_legacy = False, se_ignore = [], se_gitignore = True, se_parser = None\<rparr>"

lemma small_guarded: "prepare_guarded small_engine d sql = Inr (small_prepared, {ascii ''t''})"
  by (simp add: prepare_guarded_def small_engine_def guard_after_def authorize_def permits_def is_internal_table_def internal_table_prefix_def Let_def)

lemma small_reading:
  "prepare_reading small_engine ou se sql d = Some (Inr (small_prepared, [ascii ''path''], {ascii ''t''}), d)"
  using prepare_loop_Inr [OF small_guarded [of d sql], where ou = ou and se = se and attempted = "[]"]
  by (simp add: prepare_reading_def small_prepared_def unique_column_names_distinct)

theorem prepared_statement_allowed_witness:
  "obeys small_engine \<and> {ascii ''t''} = {t. Read t \<in> set (en_asks small_engine () (ascii ''q'') permits)} \<and>
   distinct [ascii ''path'']"
proof -
  have o: "obeys small_engine"
    by (simp add: obeys_def small_engine_def)
  have "en_compile small_engine () (ascii ''q'') permits \<noteq> Inr None"
    by (simp add: small_engine_def permits_def authorize_def is_internal_table_def internal_table_prefix_def Let_def)
  from prepared_statement_allowed [OF o small_reading [where ou = small_outside and se = small_settings] this] o
  show ?thesis by blast
qed

text \<open>The module is given back what was written: its arguments, quoted into the statement and handed over as
  bytes after the three SQLite prepends, are read as the path-table they were made for.\<close>

lemma unquoted_args:
  "list_all (list_all is_scalar) xs \<Longrightarrow> user_args (a # b # c # map utf8 (map quote_literal xs)) = xs"
proof -
  have "from_utf8_lossy (utf8 (quote_literal x)) = quote_literal x" if "list_all is_scalar x" for x
  proof -
    have "list_all is_scalar (quote_literal x)"
      using that by (auto simp: quote_literal_def replace_char_def list_all_iff is_scalar_def)
    then show ?thesis using from_utf8_lossy_utf8_append [of "quote_literal x" "[]"] by simp
  qed
  moreover assume "list_all (list_all is_scalar) xs"
  ultimately show ?thesis by (simp add: user_args_def list_all_iff unquote_quote_literal map_idI)
qed

lemma gitignore_switch_read:
  "parse_gitignore_arg (gitignore_switch gitignore name table) = Inr gitignore"
  "gitignore_switch gitignore name table = gitignore_root_arg \<longleftrightarrow>
     gitignore \<and> pt_prefix table \<noteq> [] \<and> wildcard_below_prefix name"
  "list_all is_scalar (gitignore_switch gitignore name table)"
proof -
  have args: "gitignore_arg = ascii ''gitignore''" "no_gitignore_arg = ascii ''no-gitignore''" "gitignore_root_arg = ascii ''gitignore-root''"
    by (simp_all add: gitignore_arg_def no_gitignore_arg_def gitignore_root_arg_def)
  have ne: "gitignore_arg \<noteq> gitignore_root_arg" "no_gitignore_arg \<noteq> gitignore_root_arg" "no_gitignore_arg \<noteq> gitignore_arg"
    unfolding args by simp_all
  show "parse_gitignore_arg (gitignore_switch gitignore name table) = Inr gitignore"
    using ne by (simp add: gitignore_switch_def parse_gitignore_arg_def)
  show "gitignore_switch gitignore name table = gitignore_root_arg \<longleftrightarrow>
     gitignore \<and> pt_prefix table \<noteq> [] \<and> wildcard_below_prefix name"
    using ne by (simp add: gitignore_switch_def)
  have "list_all is_scalar gitignore_arg \<and> list_all is_scalar no_gitignore_arg \<and> list_all is_scalar gitignore_root_arg"
    unfolding args by (simp add: is_scalar_def)
  then show "list_all is_scalar (gitignore_switch gitignore name table)" by (simp add: gitignore_switch_def)
qed

theorem ddl_arguments_read_back:
  assumes "list_all (list_all is_scalar) (pt_root table # pt_glob table # pt_prefix table # ignore)"
    "compiles (pt_glob table) = None" "compiles_ignore ignore = None"
  shows "parse_path_args compiles compiles_ignore
      (map utf8 (module # schema # ident # ddl_args name table ignore gitignore None index_root)) max_length =
    Inr (\<lparr>ss_root = pt_root table, ss_path_prefix = pt_prefix table, ss_max_length = max_length\<rparr>, pt_glob table, ignore,
      gitignore, gitignore \<and> pt_prefix table \<noteq> [] \<and> wildcard_below_prefix name)"
proof -
  have "user_args (map utf8 (module # schema # ident # ddl_args name table ignore gitignore None index_root)) =
      pt_root table # pt_glob table # pt_prefix table # gitignore_switch gitignore name table # ignore"
    using assms(1) gitignore_switch_read(3) unquoted_args
      [of "pt_root table # pt_glob table # pt_prefix table # gitignore_switch gitignore name table # ignore"]
    by (simp add: ddl_args_def)
  then show ?thesis using assms(2,3) by (simp add: parse_path_args_def gitignore_switch_read)
qed

lemma parsed_arguments_read_back:
  assumes "list_all (list_all is_scalar) (pt_root table # pt_glob table # command # index_root # ignore)"
    "compiles (pt_glob table) = None" "compiles_ignore ignore = None"
  shows "parse_module_args compiles compiles_ignore
      (map utf8 (module # schema # ident # ddl_args name table ignore gitignore (Some command) index_root)) =
    Inr \<lparr>ma_root = pt_root table, ma_pattern = pt_glob table, ma_command = command, ma_gitignore = gitignore,
      ma_check_root = (gitignore \<and> pt_prefix table \<noteq> [] \<and> wildcard_below_prefix name), ma_index_root = index_root,
      ma_ignore = ignore\<rparr>"
proof -
  have "user_args (map utf8 (module # schema # ident # ddl_args name table ignore gitignore (Some command) index_root)) =
      pt_root table # pt_glob table # command # gitignore_switch gitignore name table # index_root # ignore"
    using assms(1) gitignore_switch_read(3) unquoted_args
      [of "pt_root table # pt_glob table # command # gitignore_switch gitignore name table # index_root # ignore"]
    by (simp add: ddl_args_def)
  then show ?thesis using assms(2,3) by (simp add: parse_module_args_def gitignore_switch_read)
qed

text \<open>SQLite folds the case of a name, the authorizer does not: the pragma that lists the columns of an internal
  table is refused in one spelling and let through in another.\<close>

theorem pragma_spelling_passes:
  "let rows = ascii ''_dirsql_internal_rows''; again = ascii ''_DIRSQL_internal_rows'' in
     eq_ignore_ascii_case rows again \<and>
     \<not> permits (Pragma (ascii ''table_info'') (Some rows)) \<and> permits (Pragma (ascii ''table_info'') (Some again))"
  by code_simp

end
