(* ===== verification/Plain_Scan.thy ===== *)
theory Plain_Scan
  imports Vtab_Cursor
begin

text \<open>
  Plain scans of \<open>packages/rust/src/db.rs\<close>: the program SQLite compiles a \<open>SELECT\<close> of the columns of one virtual
  table to, and \<open>scanned_columns\<close>, which recognizes it.

  What such a program yields is not taken from the recognizer. It is what SQLite's virtual machine does with
  it, instruction by instruction, as the documentation of its opcodes has it, calling the table's cursor as the
  module \<open>Vtab_Cursor\<close> models it; that a program the recognizer accepts yields the rows \<open>each_row\<close> hands over is a
  theorem.
\<close>

section \<open>Programs\<close>

record op =
  op_code :: rstr
  op_p1 :: int
  op_p2 :: int
  op_p3 :: int
  op_p5 :: int

definition an_op :: "string \<Rightarrow> int \<Rightarrow> int \<Rightarrow> int \<Rightarrow> op" where
  "an_op code p1 p2 p3 = \<lparr>op_code = ascii code, op_p1 = p1, op_p2 = p2, op_p3 = p3, op_p5 = 0\<rparr>"

definition scan_program :: "int list \<Rightarrow> op list" where
  "scan_program columns =
     (let width = int (length columns) in
      [an_op ''Init'' 0 (width + 8) 0, an_op ''VOpen'' 0 0 0, an_op ''Integer'' 0 1 0, an_op ''Integer'' 0 2 0,
       an_op ''VFilter'' 0 (width + 7) 1] @
      map (\<lambda>(i, column). an_op ''VColumn'' 0 column (int i)) (enumerate 3 columns) @
      [an_op ''ResultRow'' 3 width 0, an_op ''VNext'' 0 5 0, an_op ''Halt'' 0 0 0])"

definition scanned_columns :: "op list \<Rightarrow> nat list option" where
  "scanned_columns program =
     (let columns = map op_p2 (filter (\<lambda>p. op_code p = ascii ''VColumn'') program);
          expected = scan_program columns;
          body = take (length expected) program; rest = drop (length expected) program in
      if length program < length expected \<or> rest = [] then None
      else if columns \<noteq> [] \<and> body = expected \<and> list_all (\<lambda>p. op_code p = ascii ''Transaction'') (butlast rest) \<and>
        last rest = an_op ''Goto'' 0 1 0
      then (if list_all (\<lambda>c. 0 \<le> c) columns then Some (map nat columns) else None)
      else None)"

section \<open>SQLite's virtual machine\<close>

text \<open>
  The registers hold values. A cursor is opened on the one virtual table the statement reads, whose rows in
  this statement are \<open>chunks\<close>. Only the instructions below are described, and only as used for reading a
  virtual table: what any other does is left open (\<open>Beyond\<close>), so nothing is said of a program that
  reaches one. In particular no instruction here reads a value bound to a placeholder.
\<close>

record 'r machine =
  vm_pc :: nat
  vm_regs :: "int \<Rightarrow> value_ref"
  vm_cursors :: "int \<Rightarrow> 'r cursor option"
  vm_rows :: "value_ref list list"

datatype 'r outcome = Beyond | Halted | Goes_On "'r machine"

definition vm_next :: "'r machine \<Rightarrow> 'r outcome" where
  "vm_next m = Goes_On (m\<lparr>vm_pc := vm_pc m + 1\<rparr>)"

definition vm_jump :: "int \<Rightarrow> 'r machine \<Rightarrow> 'r outcome" where
  "vm_jump p m = (if 0 \<le> p then Goes_On (m\<lparr>vm_pc := nat p\<rparr>) else Beyond)"

definition vm_set :: "int \<Rightarrow> value_ref \<Rightarrow> 'r machine \<Rightarrow> 'r machine" where
  "vm_set r v m = m\<lparr>vm_regs := (vm_regs m)(r := v)\<rparr>"

definition vm_point :: "int \<Rightarrow> 'r cursor \<Rightarrow> 'r machine \<Rightarrow> 'r machine" where
  "vm_point c cu m = m\<lparr>vm_cursors := (vm_cursors m)(c \<mapsto> cu)\<rparr>"

text \<open>\<open>VFilter\<close>: the plan in register \<open>P3\<close>, the number of arguments in the next, then the arguments.\<close>

definition vm_filter :: "'r source \<Rightarrow> 'r list list \<Rightarrow> op \<Rightarrow> 'r machine \<Rightarrow> 'r outcome" where
  "vm_filter src chunks p m =
     (case (vm_cursors m (op_p1 p), vm_regs m (op_p3 p), vm_regs m (op_p3 p + 1)) of
        (Some cu, Ref_Integer idx_num, Ref_Integer argc) \<Rightarrow>
          let args = map (\<lambda>i. vm_regs m (op_p3 p + 2 + int i)) [0..<nat argc];
              cu = cursor_filter src chunks (word_of_int idx_num) args cu;
              m = vm_point (op_p1 p) cu m in
          (if cursor_eof cu then vm_jump (op_p2 p) m else vm_next m)
      | _ \<Rightarrow> Beyond)"

definition vm_column :: "'r source \<Rightarrow> 'r list list \<Rightarrow> op \<Rightarrow> 'r machine \<Rightarrow> 'r outcome" where
  "vm_column src chunks p m =
     (case Option.bind (vm_cursors m (op_p1 p)) (cursor_current chunks) of
        Some (_, row) \<Rightarrow> if 0 \<le> op_p2 p then vm_next (vm_set (op_p3 p) (so_cell src row (nat (op_p2 p))) m) else Beyond
      | None \<Rightarrow> Beyond)"

definition vm_advance :: "'r list list \<Rightarrow> op \<Rightarrow> 'r machine \<Rightarrow> 'r outcome" where
  "vm_advance chunks p m =
     (case vm_cursors m (op_p1 p) of
        Some cu \<Rightarrow>
          let cu = cursor_next chunks cu; m = vm_point (op_p1 p) cu m in
          (if cursor_eof cu then vm_next m else vm_jump (op_p2 p) m)
      | None \<Rightarrow> Beyond)"

definition vm_result :: "op \<Rightarrow> 'r machine \<Rightarrow> 'r machine" where
  "vm_result p m =
     m\<lparr>vm_rows := vm_rows m @ [map (\<lambda>i. vm_regs m (op_p1 p + int i)) [0..<nat (op_p2 p)]]\<rparr>"

definition vm_exec :: "'r source \<Rightarrow> 'r list list \<Rightarrow> op \<Rightarrow> 'r machine \<Rightarrow> 'r outcome" where
  "vm_exec src chunks p m =
     (if op_code p = ascii ''Transaction'' then vm_next m
      else if op_p5 p \<noteq> 0 then Beyond
      else if op_code p = ascii ''Init'' then (if op_p2 p = 0 then vm_next m else vm_jump (op_p2 p) m)
      else if op_code p = ascii ''Goto'' then vm_jump (op_p2 p) m
      else if op_code p = ascii ''Integer'' then vm_next (vm_set (op_p2 p) (Ref_Integer (op_p1 p)) m)
      else if op_code p = ascii ''VOpen'' then vm_next (vm_point (op_p1 p) cursor_open m)
      else if op_code p = ascii ''VFilter'' then vm_filter src chunks p m
      else if op_code p = ascii ''VColumn'' then vm_column src chunks p m
      else if op_code p = ascii ''VNext'' then vm_advance chunks p m
      else if op_code p = ascii ''ResultRow'' then vm_next (vm_result p m)
      else if op_code p = ascii ''Halt'' \<and> op_p1 p = 0 then Halted
      else Beyond)"

text \<open>The rows of a run that halts within so many instructions.\<close>

fun vm_run :: "'r source \<Rightarrow> 'r list list \<Rightarrow> op list \<Rightarrow> nat \<Rightarrow> 'r machine \<Rightarrow> value_ref list list option" where
  "vm_run src chunks program 0 m = None"
| "vm_run src chunks program (Suc n) m =
     (if length program \<le> vm_pc m then None
      else (case vm_exec src chunks (program ! vm_pc m) m of
          Beyond \<Rightarrow> None
        | Halted \<Rightarrow> Some (vm_rows m)
        | Goes_On m \<Rightarrow> vm_run src chunks program n m))"

definition vm_start :: "'r machine" where
  "vm_start = \<lparr>vm_pc = 0, vm_regs = (\<lambda>_. Ref_Null), vm_cursors = Map.empty, vm_rows = []\<rparr>"

definition program_rows :: "'r source \<Rightarrow> 'r list list \<Rightarrow> op list \<Rightarrow> nat \<Rightarrow> value_ref list list option" where
  "program_rows src chunks program n = vm_run src chunks program n vm_start"

section \<open>Running a plain scan\<close>

text \<open>A program is taken for a plain scan of some columns exactly when it is one.\<close>

lemma an_op_simps [simp]:
  "op_code (an_op code p1 p2 p3) = ascii code" "op_p1 (an_op code p1 p2 p3) = p1" "op_p2 (an_op code p1 p2 p3) = p2"
  "op_p3 (an_op code p1 p2 p3) = p3" "op_p5 (an_op code p1 p2 p3) = 0"
  by (simp_all add: an_op_def)

lemma scanned_columns_plain:
  assumes "scanned_columns program = Some columns"
  shows "\<exists>transactions. program = scan_program (map int columns) @ transactions @ [an_op ''Goto'' 0 1 0] \<and>
    columns \<noteq> [] \<and> list_all (\<lambda>p. op_code p = ascii ''Transaction'') transactions"
proof -
  define cs where "cs = map op_p2 (filter (\<lambda>p. op_code p = ascii ''VColumn'') program)"
  let ?n = "length (scan_program cs)"
  have *: "drop ?n program \<noteq> []" "cs \<noteq> []" "take ?n program = scan_program cs" "list_all (\<lambda>c. 0 \<le> c) cs" "columns = map nat cs"
    "list_all (\<lambda>p. op_code p = ascii ''Transaction'') (butlast (drop ?n program))" "last (drop ?n program) = an_op ''Goto'' 0 1 0"
    using assms unfolding cs_def scanned_columns_def Let_def by (simp_all only: option.simps split: if_splits) auto
  have "map int columns = cs" using *(4,5) by (simp add: list_all_iff map_idI)
  moreover have "program = scan_program cs @ butlast (drop ?n program) @ [an_op ''Goto'' 0 1 0]"
    using *(1,3,7) by (metis append_butlast_last_id append_take_drop_id)
  ultimately show ?thesis using *(2,5,6) by (intro exI [of _ "butlast (drop ?n program)"]) simp
qed

text \<open>What each instruction of a plain scan does.\<close>

lemma vm_exec_ops:
  "op_code p = ascii ''Transaction'' \<Longrightarrow> vm_exec src chunks p m = vm_next m"
  "p2 \<noteq> 0 \<Longrightarrow> vm_exec src chunks (an_op ''Init'' p1 p2 p3) m = vm_jump p2 m"
  "vm_exec src chunks (an_op ''Goto'' p1 p2 p3) m = vm_jump p2 m"
  "vm_exec src chunks (an_op ''Integer'' p1 p2 p3) m = vm_next (vm_set p2 (Ref_Integer p1) m)"
  "vm_exec src chunks (an_op ''VOpen'' p1 p2 p3) m = vm_next (vm_point p1 cursor_open m)"
  "vm_exec src chunks (an_op ''VFilter'' p1 p2 p3) m = vm_filter src chunks (an_op ''VFilter'' p1 p2 p3) m"
  "vm_exec src chunks (an_op ''VColumn'' p1 p2 p3) m = vm_column src chunks (an_op ''VColumn'' p1 p2 p3) m"
  "vm_exec src chunks (an_op ''VNext'' p1 p2 p3) m = vm_advance chunks (an_op ''VNext'' p1 p2 p3) m"
  "vm_exec src chunks (an_op ''ResultRow'' p1 p2 p3) m = vm_next (vm_result (an_op ''ResultRow'' p1 p2 p3) m)"
  "vm_exec src chunks (an_op ''Halt'' 0 p2 p3) m = Halted"
  by (simp_all add: vm_exec_def an_op_def)

text \<open>One state leads to another when so many instructions take it there.\<close>

definition leads :: "'r source \<Rightarrow> 'r list list \<Rightarrow> op list \<Rightarrow> 'r machine \<Rightarrow> 'r machine \<Rightarrow> bool" where
  "leads src chunks program m m' \<longleftrightarrow> (\<exists>k. \<forall>n. vm_run src chunks program (k + n) m = vm_run src chunks program n m')"

lemma leads_refl [simp]: "leads src chunks program m m"
  unfolding leads_def by (intro exI [of _ 0]) simp

lemma leads_trans: "leads src chunks program a b \<Longrightarrow> leads src chunks program b c \<Longrightarrow> leads src chunks program a c"
proof -
  assume "leads src chunks program a b" "leads src chunks program b c"
  then obtain k l where "\<And>n. vm_run src chunks program (k + n) a = vm_run src chunks program n b"
    "\<And>n. vm_run src chunks program (l + n) b = vm_run src chunks program n c"
    unfolding leads_def by blast
  then have "vm_run src chunks program ((k + l) + n) a = vm_run src chunks program n c" for n
    by (simp add: add.assoc)
  then show ?thesis unfolding leads_def by blast
qed

lemma leads_step:
  "vm_pc m < length program \<Longrightarrow> vm_exec src chunks (program ! vm_pc m) m = Goes_On m' \<Longrightarrow> leads src chunks program m m'"
  unfolding leads_def by (intro exI [of _ 1]) simp

lemma leads_halts:
  assumes "leads src chunks program m m'" "vm_pc m' < length program" "vm_exec src chunks (program ! vm_pc m') m' = Halted"
  shows "\<exists>n. vm_run src chunks program n m = Some (vm_rows m')"
proof -
  obtain k where "vm_run src chunks program (k + 1) m = vm_run src chunks program 1 m'"
    using assms(1) unfolding leads_def by blast
  then show ?thesis using assms(2,3) by (intro exI [of _ "k + 1"]) simp
qed

text \<open>The instructions of a plain scan by address.\<close>

definition plain_program :: "op list \<Rightarrow> nat list \<Rightarrow> op list \<Rightarrow> bool" where
  "plain_program program columns transactions \<longleftrightarrow>
     program = scan_program (map int columns) @ transactions @ [an_op ''Goto'' 0 1 0] \<and>
     list_all (\<lambda>p. op_code p = ascii ''Transaction'') transactions"

lemma plain_program_at:
  assumes "plain_program program columns transactions"
  defines "w \<equiv> length columns"
  shows "length program = 9 + w + length transactions"
    "program ! 0 = an_op ''Init'' 0 (int w + 8) 0" "program ! 1 = an_op ''VOpen'' 0 0 0"
    "program ! 2 = an_op ''Integer'' 0 1 0" "program ! 3 = an_op ''Integer'' 0 2 0"
    "program ! 4 = an_op ''VFilter'' 0 (int w + 7) 1"
    "i < w \<Longrightarrow> program ! (5 + i) = an_op ''VColumn'' 0 (int (columns ! i)) (3 + int i)"
    "program ! (5 + w) = an_op ''ResultRow'' 3 (int w) 0" "program ! (6 + w) = an_op ''VNext'' 0 5 0"
    "program ! (7 + w) = an_op ''Halt'' 0 0 0"
    "i < length transactions \<Longrightarrow> op_code (program ! (8 + w + i)) = ascii ''Transaction''"
    "program ! (8 + w + length transactions) = an_op ''Goto'' 0 1 0"
proof -
  let ?cols = "map (\<lambda>(i, column). an_op ''VColumn'' 0 column (int i)) (enumerate 3 (map int columns))"
  let ?head = "[an_op ''Init'' 0 (int w + 8) 0, an_op ''VOpen'' 0 0 0, an_op ''Integer'' 0 1 0, an_op ''Integer'' 0 2 0,
    an_op ''VFilter'' 0 (int w + 7) 1]"
  let ?tail = "[an_op ''ResultRow'' 3 (int w) 0, an_op ''VNext'' 0 5 0, an_op ''Halt'' 0 0 0]"
  have p: "program = ?head @ ?cols @ ?tail @ transactions @ [an_op ''Goto'' 0 1 0]"
    and t: "list_all (\<lambda>p. op_code p = ascii ''Transaction'') transactions"
    using assms(1) by (simp_all add: plain_program_def scan_program_def w_def Let_def)
  have len: "length ?head = 5" "length ?cols = w" "length ?tail = 3" by (simp_all add: w_def)
  show "length program = 9 + w + length transactions" using len unfolding p by simp
  show "program ! 0 = an_op ''Init'' 0 (int w + 8) 0" "program ! 1 = an_op ''VOpen'' 0 0 0"
    "program ! 2 = an_op ''Integer'' 0 1 0" "program ! 3 = an_op ''Integer'' 0 2 0"
    "program ! 4 = an_op ''VFilter'' 0 (int w + 7) 1"
    unfolding p by (simp_all add: eval_nat_numeral)
  have at: "program ! (5 + k) = (?cols @ ?tail @ transactions @ [an_op ''Goto'' 0 1 0]) ! k" for k
    unfolding p using nth_append_length_plus [of ?head _ k] len(1) by metis
  show "i < w \<Longrightarrow> program ! (5 + i) = an_op ''VColumn'' 0 (int (columns ! i)) (3 + int i)"
    unfolding at using len(2) by (simp add: nth_append nth_enumerate_eq w_def)
  have at2: "program ! (5 + w + k) = (?tail @ transactions @ [an_op ''Goto'' 0 1 0]) ! k" for k
    using at [of "w + k"] nth_append_length_plus [of ?cols _ k] len(2) by (metis add.assoc)
  show "program ! (5 + w) = an_op ''ResultRow'' 3 (int w) 0" "program ! (6 + w) = an_op ''VNext'' 0 5 0"
    "program ! (7 + w) = an_op ''Halt'' 0 0 0"
    using at2 [of 0] at2 [of 1] at2 [of 2] by simp_all
  have at3: "program ! (8 + w + k) = (transactions @ [an_op ''Goto'' 0 1 0]) ! k" for k
  proof -
    have "8 + w + k = 5 + w + (3 + k)" by simp
    moreover have "program ! (5 + w + (3 + k)) = (transactions @ [an_op ''Goto'' 0 1 0]) ! k" unfolding at2 by simp
    ultimately show ?thesis by metis
  qed
  show "i < length transactions \<Longrightarrow> op_code (program ! (8 + w + i)) = ascii ''Transaction''"
    using t unfolding at3 by (simp add: nth_append list_all_length)
  show "program ! (8 + w + length transactions) = an_op ''Goto'' 0 1 0"
    unfolding at3 by simp
qed

text \<open>Up to the first row: the transactions, then the cursor filtered by a scan.\<close>

definition scan_regs :: "int \<Rightarrow> value_ref" where
  "scan_regs = (\<lambda>_. Ref_Null)(1 := Ref_Integer 0, 2 := Ref_Integer 0)"

lemma plain_transactions:
  assumes "plain_program program columns transactions"
  shows "i \<le> length transactions \<Longrightarrow>
    leads src chunks program (m\<lparr>vm_pc := 8 + length columns\<rparr>) (m\<lparr>vm_pc := 8 + length columns + i\<rparr>)"
proof (induction i)
  case (Suc i)
  have "leads src chunks program (m\<lparr>vm_pc := 8 + length columns + i\<rparr>) (m\<lparr>vm_pc := 8 + length columns + Suc i\<rparr>)"
    using Suc.prems plain_program_at(1,11) [OF assms]
    by (intro leads_step) (simp_all add: vm_exec_ops vm_next_def)
  with Suc show ?case by (auto intro: leads_trans)
qed simp

lemma plain_opened:
  assumes "plain_program program columns transactions"
  shows "leads src chunks program vm_start
    \<lparr>vm_pc = 4, vm_regs = scan_regs, vm_cursors = [0 \<mapsto> cursor_open], vm_rows = []\<rparr>"
proof -
  note at = plain_program_at [OF assms]
  let ?w = "length columns" and ?l = "leads src chunks program"
  have 1: "?l vm_start (vm_start\<lparr>vm_pc := 8 + ?w\<rparr>)"
    by (rule leads_step) (simp_all add: at vm_start_def vm_exec_ops vm_jump_def nat_add_distrib)
  have 2: "?l (vm_start\<lparr>vm_pc := 8 + ?w\<rparr>) (vm_start\<lparr>vm_pc := 8 + ?w + length transactions\<rparr>)"
    by (rule plain_transactions [OF assms]) simp
  have 3: "?l (vm_start\<lparr>vm_pc := 8 + ?w + length transactions\<rparr>) (vm_start\<lparr>vm_pc := 1\<rparr>)"
    by (rule leads_step) (simp_all add: at vm_exec_ops vm_jump_def)
  have 4: "?l (vm_start\<lparr>vm_pc := 1\<rparr>) (vm_start\<lparr>vm_pc := 2, vm_cursors := [0 \<mapsto> cursor_open]\<rparr>)"
    by (rule leads_step) (simp_all add: at at(3) [unfolded One_nat_def] vm_exec_ops vm_next_def vm_point_def vm_start_def)
  have 5: "?l (vm_start\<lparr>vm_pc := 2, vm_cursors := [0 \<mapsto> cursor_open]\<rparr>)
      (vm_start\<lparr>vm_pc := 3, vm_cursors := [0 \<mapsto> cursor_open], vm_regs := (\<lambda>_. Ref_Null)(1 := Ref_Integer 0)\<rparr>)"
    by (rule leads_step) (simp_all add: at vm_exec_ops vm_next_def vm_set_def vm_start_def)
  have 6: "?l (vm_start\<lparr>vm_pc := 3, vm_cursors := [0 \<mapsto> cursor_open], vm_regs := (\<lambda>_. Ref_Null)(1 := Ref_Integer 0)\<rparr>)
      \<lparr>vm_pc = 4, vm_regs = scan_regs, vm_cursors = [0 \<mapsto> cursor_open], vm_rows = []\<rparr>"
    by (rule leads_step) (simp_all add: at vm_exec_ops vm_next_def vm_set_def vm_start_def scan_regs_def)
  from 1 2 3 4 5 6 show ?thesis by (blast intro: leads_trans)
qed

text \<open>One row: its cells into the registers, then out.\<close>

lemma plain_cells:
  assumes "plain_program program columns transactions" "cursor_current chunks cu = Some (p, row)"
  shows "i \<le> length columns \<Longrightarrow> \<exists>regs'.
    leads src chunks program \<lparr>vm_pc = 5, vm_regs = regs, vm_cursors = [0 \<mapsto> cu], vm_rows = out\<rparr>
      \<lparr>vm_pc = 5 + i, vm_regs = regs', vm_cursors = [0 \<mapsto> cu], vm_rows = out\<rparr> \<and>
    (\<forall>j<i. regs' (3 + int j) = so_cell src row (columns ! j))"
proof (induction i)
  case 0
  then show ?case by (intro exI [of _ regs]) simp
next
  case (Suc i)
  obtain regs' where r: "leads src chunks program \<lparr>vm_pc = 5, vm_regs = regs, vm_cursors = [0 \<mapsto> cu], vm_rows = out\<rparr>
      \<lparr>vm_pc = 5 + i, vm_regs = regs', vm_cursors = [0 \<mapsto> cu], vm_rows = out\<rparr>"
    "\<forall>j<i. regs' (3 + int j) = so_cell src row (columns ! j)" using Suc.IH Suc_leD [OF Suc.prems] by blast
  let ?regs = "regs'(3 + int i := so_cell src row (columns ! i))"
  have "leads src chunks program \<lparr>vm_pc = 5 + i, vm_regs = regs', vm_cursors = [0 \<mapsto> cu], vm_rows = out\<rparr>
      \<lparr>vm_pc = 5 + Suc i, vm_regs = ?regs, vm_cursors = [0 \<mapsto> cu], vm_rows = out\<rparr>"
    using Suc.prems plain_program_at(1,7) [OF assms(1)] assms(2)
    by (intro leads_step) (simp_all add: vm_exec_ops vm_column_def vm_next_def vm_set_def)
  with r(1) have "leads src chunks program \<lparr>vm_pc = 5, vm_regs = regs, vm_cursors = [0 \<mapsto> cu], vm_rows = out\<rparr>
      \<lparr>vm_pc = 5 + Suc i, vm_regs = ?regs, vm_cursors = [0 \<mapsto> cu], vm_rows = out\<rparr>" by (rule leads_trans)
  moreover have "\<forall>j<Suc i. ?regs (3 + int j) = so_cell src row (columns ! j)"
    using r(2) by (auto simp: less_Suc_eq)
  ultimately show ?case by blast
qed

lemma plain_row:
  assumes "plain_program program columns transactions" "cursor_current chunks cu = Some (p, row)"
  shows "\<exists>regs'. leads src chunks program \<lparr>vm_pc = 5, vm_regs = regs, vm_cursors = [0 \<mapsto> cu], vm_rows = out\<rparr>
    \<lparr>vm_pc = (if cursor_eof (cursor_next chunks cu) then 7 + length columns else 5), vm_regs = regs',
      vm_cursors = [0 \<mapsto> cursor_next chunks cu], vm_rows = out @ [map (so_cell src row) columns]\<rparr>"
proof -
  note at = plain_program_at [OF assms(1)]
  let ?w = "length columns" and ?row = "map (so_cell src row) columns"
  obtain regs' where r: "leads src chunks program \<lparr>vm_pc = 5, vm_regs = regs, vm_cursors = [0 \<mapsto> cu], vm_rows = out\<rparr>
      \<lparr>vm_pc = 5 + ?w, vm_regs = regs', vm_cursors = [0 \<mapsto> cu], vm_rows = out\<rparr>"
    "\<forall>j<?w. regs' (3 + int j) = so_cell src row (columns ! j)"
    using plain_cells [OF assms, of ?w] by blast
  have "map (\<lambda>j. regs' (3 + int j)) [0..<?w] = ?row"
    using r(2) by (intro nth_equalityI) simp_all
  then have 2: "leads src chunks program \<lparr>vm_pc = 5 + ?w, vm_regs = regs', vm_cursors = [0 \<mapsto> cu], vm_rows = out\<rparr>
      \<lparr>vm_pc = 6 + ?w, vm_regs = regs', vm_cursors = [0 \<mapsto> cu], vm_rows = out @ [?row]\<rparr>"
    using at by (intro leads_step) (simp_all add: vm_exec_ops vm_next_def vm_result_def)
  have 3: "leads src chunks program \<lparr>vm_pc = 6 + ?w, vm_regs = regs', vm_cursors = [0 \<mapsto> cu], vm_rows = out @ [?row]\<rparr>
      \<lparr>vm_pc = (if cursor_eof (cursor_next chunks cu) then 7 + ?w else 5), vm_regs = regs',
        vm_cursors = [0 \<mapsto> cursor_next chunks cu], vm_rows = out @ [?row]\<rparr>"
    using at by (intro leads_step)
      (simp_all add: vm_exec_ops vm_advance_def vm_next_def vm_jump_def vm_point_def Let_def)
  from r(1) 2 3 show ?thesis by (blast intro: leads_trans)
qed

text \<open>Every row the cursor has left, to the end.\<close>

lemma plain_loop:
  assumes "plain_program program columns transactions"
  shows "\<lbrakk>cu_selection cu = Every rd; length (cursor_read chunks n cu) < n; \<not> cursor_eof cu\<rbrakk> \<Longrightarrow>
    \<exists>regs' cu'. leads src chunks program \<lparr>vm_pc = 5, vm_regs = regs, vm_cursors = [0 \<mapsto> cu], vm_rows = out\<rparr>
      \<lparr>vm_pc = 7 + length columns, vm_regs = regs', vm_cursors = [0 \<mapsto> cu'],
        vm_rows = out @ map (\<lambda>(rowid, row). map (so_cell src (the row)) columns) (cursor_read chunks n cu)\<rparr>"
proof (induction n arbitrary: cu rd regs out)
  case (Suc n)
  let ?next = "cursor_next chunks cu"
  obtain p row where here: "cursor_current chunks cu = Some (p, row)"
    using Suc.prems(1,3) by (auto simp: cursor_eof_def cursor_current_def)
  have read: "cursor_read chunks (Suc n) cu = (cursor_rowid chunks cu, Some row) # cursor_read chunks n ?next"
    using Suc.prems(3) here by simp
  obtain regs1 where one: "leads src chunks program \<lparr>vm_pc = 5, vm_regs = regs, vm_cursors = [0 \<mapsto> cu], vm_rows = out\<rparr>
    \<lparr>vm_pc = (if cursor_eof ?next then 7 + length columns else 5), vm_regs = regs1,
      vm_cursors = [0 \<mapsto> ?next], vm_rows = out @ [map (so_cell src row) columns]\<rparr>"
    using plain_row [OF assms here] by blast
  show ?case
  proof (cases "cursor_eof ?next")
    case True
    then have "cursor_read chunks n ?next = []" by (cases n) simp_all
    then show ?thesis using one True unfolding read
      by (intro exI [of _ regs1] exI [of _ ?next]) (simp del: fun_upd_apply)
  next
    case False
    have "cu_selection ?next = Every (reading_advanced chunks (cu_step cu + 1) rd)"
      using Suc.prems(1) by (simp add: cursor_next_def Let_def)
    moreover have "length (cursor_read chunks n ?next) < n" using Suc.prems(2) unfolding read by simp
    ultimately obtain regs' cu' where "leads src chunks program
        \<lparr>vm_pc = 5, vm_regs = regs1, vm_cursors = [0 \<mapsto> ?next], vm_rows = out @ [map (so_cell src row) columns]\<rparr>
        \<lparr>vm_pc = 7 + length columns, vm_regs = regs', vm_cursors = [0 \<mapsto> cu'],
          vm_rows = (out @ [map (so_cell src row) columns]) @
            map (\<lambda>(rowid, row). map (so_cell src (the row)) columns) (cursor_read chunks n ?next)\<rparr>"
      using Suc.IH [of ?next _ regs1 "out @ [map (so_cell src row) columns]"] False by blast
    then have "leads src chunks program \<lparr>vm_pc = 5, vm_regs = regs, vm_cursors = [0 \<mapsto> cu], vm_rows = out\<rparr>
        \<lparr>vm_pc = 7 + length columns, vm_regs = regs', vm_cursors = [0 \<mapsto> cu'],
          vm_rows = (out @ [map (so_cell src row) columns]) @
            map (\<lambda>(rowid, row). map (so_cell src (the row)) columns) (cursor_read chunks n ?next)\<rparr>"
      using leads_trans [OF one] False by (simp del: fun_upd_apply)
    then show ?thesis unfolding read
      by (intro exI [of _ regs'] exI [of _ cu']) (simp del: fun_upd_apply)
  qed
qed simp

text \<open>More instructions allowed change nothing of a run that halts.\<close>

lemma vm_run_more: "vm_run src chunks program n m = Some rows \<Longrightarrow> vm_run src chunks program (n + k) m = Some rows"
  by (induction src chunks program n m rule: vm_run.induct) (auto split: outcome.splits if_splits)

lemma program_rows_unique:
  "program_rows src chunks program n = Some rows \<Longrightarrow> program_rows src chunks program n' = Some rows' \<Longrightarrow> rows' = rows"
  using vm_run_more [of src chunks program n vm_start rows n'] vm_run_more [of src chunks program n' vm_start rows' n]
  by (simp add: program_rows_def add.commute)

text \<open>A program the recognizer accepts yields, when SQLite runs it, the rows handed over without it.\<close>

lemma plain_scan_rows:
  assumes "scanned_columns program = Some columns" "each_row src chunks columns = Some rows"
    "list_all (\<lambda>c. c \<noteq> []) chunks" "int (length (concat chunks)) < 2 ^ 63"
  shows "\<exists>n. program_rows src chunks program n = Some rows"
proof -
  obtain transactions where plain: "plain_program program columns transactions"
    using scanned_columns_plain [OF assms(1)] by (auto simp: plain_program_def)
  note at = plain_program_at [OF plain]
  let ?w = "length columns" and ?n = "Suc (length (concat chunks))"
  let ?cu = "cursor_filter src chunks scan_idx [] cursor_open"
  have sel: "cu_selection ?cu = Every (reading_from chunks 0 0)"
    by (simp add: cursor_filter_def Let_def split: option.splits)
  have held: "list_all (\<lambda>i. i < so_held_columns src) columns" using assms(2) by (simp add: each_row_def split: if_splits)
  have rows: "rows = map (\<lambda>(rowid, row). map (so_cell src (the row)) columns) (cursor_read chunks ?n ?cu)"
    using each_row_full_scan [OF held cursor_used.opened assms(3) _ assms(4), of ?n scan_idx "[]"] assms(2)
    by (simp add: lookup_column_def scan_idx_def del: cursor_read.simps)
  have len: "length (cursor_read chunks ?n ?cu) = length (concat chunks)"
    using cursor_reads_selected [OF cursor_used.opened assms(3) _ assms(4), of ?n src scan_idx "[]"]
    by (simp add: wanted_row_def lookup_column_def scan_idx_def del: cursor_read.simps)
  let ?go = "\<lambda>pc. \<lparr>vm_pc = pc, vm_regs = scan_regs, vm_cursors = [0 \<mapsto> ?cu], vm_rows = []\<rparr>"
  have filtered: "leads src chunks program vm_start (?go (if cursor_eof ?cu then 7 + ?w else 5))"
    by (rule leads_trans [OF plain_opened [OF plain]], rule leads_step)
      (simp_all add: at vm_exec_ops vm_filter_def vm_next_def vm_jump_def vm_point_def scan_regs_def scan_idx_def
        nat_add_distrib)
  have "\<exists>regs' cu'. leads src chunks program vm_start
      \<lparr>vm_pc = 7 + ?w, vm_regs = regs', vm_cursors = [0 \<mapsto> cu'], vm_rows = rows\<rparr>"
  proof (cases "cursor_eof ?cu")
    case True
    then have "rows = []" unfolding rows by simp
    then show ?thesis using filtered True
      by (intro exI [of _ scan_regs] exI [of _ ?cu]) (simp del: fun_upd_apply)
  next
    case False
    have "length (cursor_read chunks ?n ?cu) < ?n" using len by simp
    from plain_loop [OF plain sel this False, of src scan_regs "[]"] obtain regs' cu' where
      "leads src chunks program (?go 5) \<lparr>vm_pc = 7 + ?w, vm_regs = regs', vm_cursors = [0 \<mapsto> cu'], vm_rows = rows\<rparr>"
      unfolding rows append_Nil by blast
    with filtered False show ?thesis by (auto intro: leads_trans simp del: fun_upd_apply)
  qed
  then show ?thesis
    using leads_halts at(1,10) unfolding program_rows_def by (fastforce simp: vm_exec_ops)
qed

end
