(* ===== verification/Query_Rows.thy ===== *)
theory Query_Rows
  imports Query_Prepare Params Plain_Scan
begin

text \<open>
  The rows of a query of \<open>packages/rust/src/db.rs\<close>: \<open>run_statement\<close>, which collects them, and
  \<open>query_each_ref\<close>, which hands them over as they come, straight from the table a plain scan reads where it can.

  SQLite's part is a parameter: the rows a statement yields for the values bound, with the error that may end
  them, and the program \<open>EXPLAIN\<close> lists. \<open>renamed\<close> is \<open>disambiguate_case\<close>, the subject of \<open>Case_Variants\<close>, on a
  connection.
\<close>

section \<open>Cells\<close>

definition utf8_checked :: "value_ref \<Rightarrow> rstr \<Rightarrow> prepare_error option" where
  "utf8_checked x column =
     (case x of
        Ref_Text bs \<Rightarrow> if from_utf8 bs = None then Some (Refused (Not_Utf8 column)) else None
      | _ \<Rightarrow> None)"

fun utf8_row :: "value_ref list \<Rightarrow> rstr list \<Rightarrow> prepare_error option" where
  "utf8_row (x # cells) (column # columns) =
     (case utf8_checked x column of Some e \<Rightarrow> Some e | None \<Rightarrow> utf8_row cells columns)"
| "utf8_row _ _ = None"

text \<open>An owned value of a cell, and a cell of a value. \<open>fill_cell\<close> is the first, with its buffer kept.\<close>

fun owned :: "value_ref \<Rightarrow> sql_value" where
  "owned Ref_Null = Null"
| "owned (Ref_Integer i) = Integer i"
| "owned (Ref_Real r) = Real r"
| "owned (Ref_Text bs) = Text (from_utf8_lossy bs)"
| "owned (Ref_Blob bs) = Blob (map of_nat bs)"

fun value_ref_of :: "sql_value \<Rightarrow> value_ref" where
  "value_ref_of Null = Ref_Null"
| "value_ref_of (Integer i) = Ref_Integer i"
| "value_ref_of (Real r) = Ref_Real r"
| "value_ref_of (Text s) = Ref_Text (utf8 s)"
| "value_ref_of (Blob bs) = Ref_Blob (map unat bs)"

section \<open>A statement's rows\<close>

record 'd stepping =
  sg_rows :: "'d \<Rightarrow> rstr \<Rightarrow> sql_value list \<Rightarrow> value_ref list list \<times> failure option"
  sg_explain :: "'d \<Rightarrow> rstr \<Rightarrow> op list option"

record query_result =
  qr_columns :: "rstr list"
  qr_rows :: "(rstr \<rightharpoonup> sql_value) list"

text \<open>\<open>bind\<close>: \<open>None\<close> is the panic of \<open>plan\<close>.\<close>

definition bound_values :: "(rstr \<Rightarrow> rstr) \<Rightarrow> prepared \<Rightarrow> params \<Rightarrow> (prepare_error + sql_value list) option" where
  "bound_values debug stmt params =
     map_option (map_sum (\<lambda>e. Refused (Params_Error (plan_error_text debug e))) id) (plan (pr_parameters stmt) params)"

fun row_map :: "rstr list \<Rightarrow> value_ref list \<Rightarrow> (rstr \<rightharpoonup> sql_value) \<Rightarrow> prepare_error + (rstr \<rightharpoonup> sql_value)" where
  "row_map (column # columns) (x # cells) m =
     (case utf8_checked x column of
        Some e \<Rightarrow> Inl e
      | None \<Rightarrow> row_map columns cells (m(column \<mapsto> owned x)))"
| "row_map _ _ m = Inr m"

fun collect_rows :: "rstr list \<Rightarrow> value_ref list list \<Rightarrow> failure option \<Rightarrow> prepare_error + (rstr \<rightharpoonup> sql_value) list" where
  "collect_rows columns [] e = (case e of None \<Rightarrow> Inr [] | Some e \<Rightarrow> Inl (Failed e))"
| "collect_rows columns (row # rows) e =
     (case row_map columns row Map.empty of
        Inl e' \<Rightarrow> Inl e'
      | Inr m \<Rightarrow> map_sum id ((#) m) (collect_rows columns rows e))"

type_synonym 'd renaming = "'d \<Rightarrow> rstr \<Rightarrow> ((prepare_error + rstr) \<times> 'd) option"

definition run_statement ::
  "'d engine \<Rightarrow> 'd stepping \<Rightarrow> outside \<Rightarrow> settings \<Rightarrow> 'd renaming \<Rightarrow> rstr \<Rightarrow> params \<Rightarrow> 'd \<Rightarrow>
   ((prepare_error + query_result) \<times> 'd) option"
where
  "run_statement en sg ou se renamed sql params d =
     Option.bind (renamed d sql) (\<lambda>(r, d). case r of
       Inl e \<Rightarrow> Some (Inl e, d)
     | Inr sql \<Rightarrow>
         Option.bind (prepare_reading en ou se sql d) (\<lambda>(r, d). case r of
           Inl e \<Rightarrow> Some (Inl e, d)
         | Inr (stmt, columns, reads) \<Rightarrow>
             Option.bind (bound_values (ou_debug ou) stmt params) (\<lambda>b. case b of
               Inl e \<Rightarrow> Some (Inl e, d)
             | Inr vs \<Rightarrow>
                 (case sg_rows sg d sql vs of
                    (rows, e) \<Rightarrow>
                      Some (map_sum id (\<lambda>ms. \<lparr>qr_columns = columns, qr_rows = ms\<rparr>) (collect_rows columns rows e), d)))))"

section \<open>Rows as they come\<close>

text \<open>\<open>read_directly\<close>: the rows of the one table read, when its program is a plain scan. \<open>held\<close> is the table's
  source and the chunks of its scan in this statement, where the scope holds the table.\<close>

definition read_directly ::
  "'d stepping \<Rightarrow> ('d \<Rightarrow> rstr \<Rightarrow> ('r source \<times> 'r list list) option) \<Rightarrow> 'd \<Rightarrow> rstr \<Rightarrow> rstr set \<Rightarrow> value_ref list list option"
where
  "read_directly sg held d sql reads =
     (if card reads \<noteq> 1 then None
      else case Option.bind (sg_explain sg d sql) scanned_columns of
        None \<Rightarrow> None
      | Some columns \<Rightarrow>
          (case held d (the_elem reads) of None \<Rightarrow> None | Some (src, chunks) \<Rightarrow> each_row src chunks columns))"

text \<open>The rows handed to \<open>on_row\<close>, up to the first whose text is not UTF-8.\<close>

fun hand_over :: "rstr list \<Rightarrow> ('s \<Rightarrow> value_ref list \<Rightarrow> 's) \<Rightarrow> value_ref list list \<Rightarrow> 's \<Rightarrow> prepare_error + 's" where
  "hand_over columns on_row [] s = Inr s"
| "hand_over columns on_row (row # rows) s =
     (case utf8_row row columns of Some e \<Rightarrow> Inl e | None \<Rightarrow> hand_over columns on_row rows (on_row s row))"

text \<open>The rows of a result already collected, as they are handed over when a worker batches.\<close>

definition result_cells :: "query_result \<Rightarrow> (rstr \<rightharpoonup> sql_value) \<Rightarrow> value_ref list" where
  "result_cells result m =
     map (\<lambda>column. case m column of None \<Rightarrow> Ref_Null | Some v \<Rightarrow> value_ref_of v) (qr_columns result)"

definition hand_result :: "(rstr list \<Rightarrow> 's) \<Rightarrow> ('s \<Rightarrow> value_ref list \<Rightarrow> 's) \<Rightarrow> query_result \<Rightarrow> 's" where
  "hand_result init on_row result =
     foldl (\<lambda>s m. on_row s (result_cells result m)) (init (qr_columns result)) (qr_rows result)"

text \<open>\<open>query_each_ref\<close> where no worker batches; where one does, it is \<open>hand_result\<close> of the result of
  \<open>query_ordered_with\<close>.\<close>

definition query_each_ref ::
  "'d engine \<Rightarrow> 'd stepping \<Rightarrow> outside \<Rightarrow> settings \<Rightarrow> 'd renaming \<Rightarrow> ('d \<Rightarrow> rstr \<Rightarrow> ('r source \<times> 'r list list) option) \<Rightarrow>
   rstr \<Rightarrow> params \<Rightarrow> (rstr list \<Rightarrow> 's) \<Rightarrow> ('s \<Rightarrow> value_ref list \<Rightarrow> 's) \<Rightarrow> 'd \<Rightarrow> ((prepare_error + 's) \<times> 'd) option"
where
  "query_each_ref en sg ou se renamed held sql params init on_row d =
     Option.bind (renamed d sql) (\<lambda>(r, d). case r of
       Inl e \<Rightarrow> Some (Inl e, d)
     | Inr sql \<Rightarrow>
         Option.bind (prepare_reading en ou se sql d) (\<lambda>(r, d). case r of
           Inl e \<Rightarrow> Some (Inl e, d)
         | Inr (stmt, columns, reads) \<Rightarrow>
             (case read_directly sg held d sql reads of
                Some rows \<Rightarrow> Some (hand_over columns on_row rows (init columns), d)
              | None \<Rightarrow>
                  Option.bind (bound_values (ou_debug ou) stmt params) (\<lambda>b. case b of
                    Inl e \<Rightarrow> Some (Inl e, d)
                  | Inr vs \<Rightarrow>
                      (case sg_rows sg d sql vs of
                         (rows, e) \<Rightarrow>
                           Some (case hand_over columns on_row rows (init columns) of
                               Inl e' \<Rightarrow> Inl e'
                             | Inr s \<Rightarrow> (case e of None \<Rightarrow> Inr s | Some e \<Rightarrow> Inl (Failed e)), d))))))"

text \<open>\<open>query_each_with\<close> hands owned values.\<close>

definition query_each_with ::
  "'d engine \<Rightarrow> 'd stepping \<Rightarrow> outside \<Rightarrow> settings \<Rightarrow> 'd renaming \<Rightarrow> ('d \<Rightarrow> rstr \<Rightarrow> ('r source \<times> 'r list list) option) \<Rightarrow>
   rstr \<Rightarrow> params \<Rightarrow> (rstr list \<Rightarrow> 's) \<Rightarrow> ('s \<Rightarrow> sql_value list \<Rightarrow> 's) \<Rightarrow> 'd \<Rightarrow> ((prepare_error + 's) \<times> 'd) option"
where
  "query_each_with en sg ou se renamed held sql params init on_row d =
     query_each_ref en sg ou se renamed held sql params init (\<lambda>s cells. on_row s (map owned cells)) d"

section \<open>Both ways give the same rows\<close>

text \<open>
  What is asked of SQLite: a row has a cell for each column, a blob is of bytes, and the rows of a statement that
  reads one virtual table are those its program yields when it is run, as far as the machine of
  \<open>Plain_Scan\<close> can run it. The rows a statement holds of a table come in chunks that are not empty.

  A statement whose program that machine can run is taken to have no placeholder, as no instruction of the machine
  reads one. SQLite could drop a condition that has one from the program, as in \<open>1 OR ?\<close>; such a
  statement is left out here.
\<close>

fun blob_fits :: "value_ref \<Rightarrow> bool" where
  "blob_fits (Ref_Blob bs) = list_all (\<lambda>b. b < 256) bs"
| "blob_fits _ = True"

definition row_fits :: "nat \<Rightarrow> value_ref list \<Rightarrow> bool" where
  "row_fits n row \<longleftrightarrow> length row = n \<and> list_all blob_fits row"

definition steps_well ::
  "'d engine \<Rightarrow> 'd stepping \<Rightarrow> ('d \<Rightarrow> rstr \<Rightarrow> ('r source \<times> 'r list list) option) \<Rightarrow> bool"
where
  "steps_well en sg held \<longleftrightarrow>
     (\<forall>d sql stmt reads vs. prepare_guarded en d sql = Inr (stmt, reads) \<longrightarrow>
        list_all (row_fits (length (pr_columns stmt))) (fst (sg_rows sg d sql vs)) \<and>
        (\<forall>t program src chunks. reads = {t} \<longrightarrow> sg_explain sg d sql = Some program \<longrightarrow> held d t = Some (src, chunks) \<longrightarrow>
           list_all (\<lambda>c. c \<noteq> []) chunks \<and> int (length (concat chunks)) < 2 ^ 63 \<and>
           (\<forall>n rows. program_rows src chunks program n = Some rows \<longrightarrow>
              pr_parameters stmt = [] \<and> sg_rows sg d sql vs = (rows, None))))"

text \<open>Where the rows are read directly, the values given are those the statement asks for.\<close>

definition accepted ::
  "'d engine \<Rightarrow> 'd stepping \<Rightarrow> outside \<Rightarrow> settings \<Rightarrow> 'd renaming \<Rightarrow> ('d \<Rightarrow> rstr \<Rightarrow> ('r source \<times> 'r list list) option) \<Rightarrow>
   rstr \<Rightarrow> params \<Rightarrow> 'd \<Rightarrow> bool"
where
  "accepted en sg ou se renamed held sql params d \<longleftrightarrow>
     (\<forall>sql' d' stmt columns reads d''. renamed d sql = Some (Inr sql', d') \<longrightarrow>
        prepare_reading en ou se sql' d' = Some (Inr (stmt, columns, reads), d'') \<longrightarrow>
        read_directly sg held d'' sql' reads \<noteq> None \<longrightarrow>
        (\<exists>vs. bound_values (ou_debug ou) stmt params = Some (Inr vs)))"

lemma row_map_eq:
  "row_map columns row m = (case utf8_row row columns of Some e \<Rightarrow> Inl e | None \<Rightarrow> Inr (m(columns [\<mapsto>] map owned row)))"
  by (induction columns row m rule: row_map.induct) (auto split: option.splits simp del: fun_upd_apply)

lemma map_upds_nth:
  "distinct xs \<Longrightarrow> length ys = length xs \<Longrightarrow> i < length xs \<Longrightarrow> (m(xs [\<mapsto>] ys)) (xs ! i) = Some (ys ! i)"
proof (induction xs arbitrary: ys m i)
  case (Cons x xs)
  then obtain y ys' where ys: "ys = y # ys'" by (cases ys) auto
  show ?case
  proof (cases i)
    case 0
    then show ?thesis using Cons.prems ys by (simp add: map_upds_apply_nontin)
  qed (use Cons ys nth_mem in \<open>fastforce\<close>)
qed simp

lemma value_ref_of_owned:
  assumes "utf8_checked x column = None" "blob_fits x"
  shows "value_ref_of (owned x) = x"
  using assms
  by (cases x) (auto simp: utf8_checked_def from_utf8_def Let_def list_all_iff unat_of_nat intro!: map_idI split: if_splits)

lemma utf8_row_None:
  "utf8_row row columns = None \<Longrightarrow> length row = length columns \<Longrightarrow> i < length row \<Longrightarrow> utf8_checked (row ! i) (columns ! i) = None"
proof (induction row columns arbitrary: i rule: utf8_row.induct)
  case (1 x cells column columns)
  then show ?case by (cases i) (auto split: option.splits)
qed simp_all

lemma result_cells_of_row:
  assumes "distinct columns" "row_fits (length columns) row" "utf8_row row columns = None" "qr_columns result = columns"
  shows "result_cells result (Map.empty(columns [\<mapsto>] map owned row)) = row"
proof (rule nth_equalityI)
  have len: "length row = length columns" using assms(2) by (simp add: row_fits_def)
  then show "length (result_cells result (Map.empty(columns [\<mapsto>] map owned row))) = length row"
    using assms(4) by (simp add: result_cells_def)
  fix i assume "i < length (result_cells result (Map.empty(columns [\<mapsto>] map owned row)))"
  then have i: "i < length columns" using assms(4) by (simp add: result_cells_def)
  have "(Map.empty(columns [\<mapsto>] map owned row)) (columns ! i) = Some (owned (row ! i))"
    using map_upds_nth [OF assms(1), of "map owned row" i Map.empty] len i by simp
  moreover have "value_ref_of (owned (row ! i)) = row ! i"
    using value_ref_of_owned [OF utf8_row_None [OF assms(3) len]] assms(2) i len by (simp add: row_fits_def list_all_length)
  ultimately show "result_cells result (Map.empty(columns [\<mapsto>] map owned row)) ! i = row ! i"
    using i assms(4) by (simp add: result_cells_def)
qed

lemma hand_over_collected:
  assumes "distinct columns" "list_all (row_fits (length columns)) rows"
  shows "(case hand_over columns on_row rows s of
       Inl e' \<Rightarrow> Inl e' | Inr s \<Rightarrow> (case e of None \<Rightarrow> Inr s | Some e \<Rightarrow> Inl (Failed e))) =
    map_sum id (\<lambda>ms. foldl (\<lambda>s m. on_row s (result_cells \<lparr>qr_columns = columns, qr_rows = rs\<rparr> m)) s ms) (collect_rows columns rows e)"
  using assms(2)
proof (induction rows arbitrary: s)
  case (Cons row rows)
  show ?case
  proof (cases "utf8_row row columns")
    case None
    have "result_cells \<lparr>qr_columns = columns, qr_rows = rs\<rparr> (Map.empty(columns [\<mapsto>] map owned row)) = row"
      using result_cells_of_row [OF assms(1) _ None] Cons.prems by simp
    then show ?thesis using Cons.IH [of "on_row s row"] Cons.prems None
      by (simp add: row_map_eq sum.map_comp o_def)
  qed (simp add: row_map_eq)
qed (simp split: option.splits)

lemma prepare_reading_prepared:
  assumes "prepare_reading en ou se sql d = Some (Inr (stmt, columns, reads), d')"
  shows "prepare_guarded en d' sql = Inr (stmt, reads)" "columns = unique_column_names (pr_columns stmt)"
proof -
  have "prepare_loop en ou se sql [] d = Some (Inr (stmt, reads), d')" "columns = unique_column_names (pr_columns stmt)"
    using assms by (auto simp: prepare_reading_def split: if_splits elim!: case_sum_InrE)
  then show "prepare_guarded en d' sql = Inr (stmt, reads)" "columns = unique_column_names (pr_columns stmt)"
    using prepare_loop_result by fastforce+
qed

text \<open>The rows read directly are the rows SQLite yields, and such a statement asks for no values.\<close>

lemma read_directly_rows:
  assumes "steps_well en sg held" "prepare_guarded en d sql = Inr (stmt, reads)" "read_directly sg held d sql reads = Some rows"
  shows "sg_rows sg d sql vs = (rows, None)" "pr_parameters stmt = []"
proof -
  obtain t program columns src chunks where d: "reads = {t}" "sg_explain sg d sql = Some program"
    "scanned_columns program = Some columns" "held d t = Some (src, chunks)" "each_row src chunks columns = Some rows"
    using assms(3) by (auto simp: read_directly_def card_1_singleton_iff bind_eq_Some_conv split: if_splits option.splits)
  have chunks: "list_all (\<lambda>c. c \<noteq> []) chunks" "int (length (concat chunks)) < 2 ^ 63"
    and run: "\<And>n rows. program_rows src chunks program n = Some rows \<Longrightarrow>
      pr_parameters stmt = [] \<and> sg_rows sg d sql vs = (rows, None)" for vs
    using assms(1,2) d(1,2,4) unfolding steps_well_def by blast+
  obtain n where "program_rows src chunks program n = Some rows"
    using plain_scan_rows [OF d(3,5) chunks] by blast
  from run [OF this] show "sg_rows sg d sql vs = (rows, None)" "pr_parameters stmt = []" by blast+
qed

lemma default_params_accepted:
  assumes "steps_well en sg held"
  shows "accepted en sg ou se renamed held sql default_params d"
proof -
  have "\<exists>vs. bound_values (ou_debug ou) stmt default_params = Some (Inr vs)"
    if p: "prepare_reading en ou se sql' d' = Some (Inr (stmt, columns, reads), d'')" "read_directly sg held d'' sql' reads \<noteq> None"
    for sql' d' stmt columns reads d''
  proof -
    have "pr_parameters stmt = []"
      using read_directly_rows(2) [OF assms prepare_reading_prepared(1) [OF p(1)]] p(2) by blast
    then show ?thesis by (simp add: bound_values_def plan_def default_params_def)
  qed
  then show ?thesis unfolding accepted_def by blast
qed

lemma query_each_collected:
  assumes "steps_well en sg held" "accepted en sg ou se renamed held sql params d"
  shows "query_each_ref en sg ou se renamed held sql params init on_row d =
    map_option (apfst (map_sum id (hand_result init on_row))) (run_statement en sg ou se renamed sql params d)"
proof -
  have step: "(case read_directly sg held d2 sql1 reads of
       Some rows \<Rightarrow> Some (hand_over columns on_row rows (init columns), d2)
     | None \<Rightarrow> Some (case hand_over columns on_row (fst (sg_rows sg d2 sql1 vs)) (init columns) of
           Inl e' \<Rightarrow> Inl e'
         | Inr s \<Rightarrow> (case snd (sg_rows sg d2 sql1 vs) of None \<Rightarrow> Inr s | Some e \<Rightarrow> Inl (Failed e)), d2)) =
     Some (map_sum id (hand_result init on_row) (map_sum id (\<lambda>ms. \<lparr>qr_columns = columns, qr_rows = ms\<rparr>)
       (collect_rows columns (fst (sg_rows sg d2 sql1 vs)) (snd (sg_rows sg d2 sql1 vs)))), d2)"
    if p: "prepare_reading en ou se sql1 d1 = Some (Inr (stmt, columns, reads), d2)" for sql1 d1 stmt columns reads d2 vs
  proof -
    note g = prepare_reading_prepared [OF p]
    have fits: "list_all (row_fits (length columns)) (fst (sg_rows sg d2 sql1 vs))"
      using assms(1) g unfolding steps_well_def by auto
    have made: "map_sum id (hand_result init on_row) (map_sum id (\<lambda>ms. \<lparr>qr_columns = columns, qr_rows = ms\<rparr>) c) =
        map_sum id (\<lambda>ms. foldl (\<lambda>s m. on_row s (result_cells \<lparr>qr_columns = columns, qr_rows = []\<rparr> m)) (init columns) ms) c" for c
      by (cases c) (simp_all add: hand_result_def result_cells_def)
    have "distinct columns" using g(2) by simp
    note h = hand_over_collected [OF this fits, where on_row = on_row and s = "init columns" and e = "snd (sg_rows sg d2 sql1 vs)" and rs = "[]"]
    show ?thesis
    proof (cases "read_directly sg held d2 sql1 reads")
      case None
      then show ?thesis using h by (simp add: made)
    next
      case (Some rows)
      have "sg_rows sg d2 sql1 vs = (rows, None)" by (rule read_directly_rows(1) [OF assms(1) g(1) Some])
      then show ?thesis using h Some by (simp add: made split: sum.splits)
    qed
  qed
  show ?thesis
  proof (cases "renamed d sql")
    case (Some r)
    then obtain x d1 where r: "renamed d sql = Some (x, d1)" by (cases r) auto
    show ?thesis
    proof (cases x)
      case (Inr sql1)
      show ?thesis
      proof (cases "prepare_reading en ou se sql1 d1")
        case (Some q)
        then obtain y d2 where q: "prepare_reading en ou se sql1 d1 = Some (y, d2)" by (cases q) auto
        show ?thesis
        proof (cases y)
          case y: (Inr p)
          obtain stmt columns reads where p: "p = (stmt, columns, reads)" by (cases p) auto
          show ?thesis
          proof (cases "bound_values (ou_debug ou) stmt params")
            case None
            then have "read_directly sg held d2 sql1 reads = None"
              using assms(2) r Inr q y p unfolding accepted_def by (metis option.distinct(1))
            then show ?thesis using None by (simp add: query_each_ref_def run_statement_def r Inr q y p)
          next
            case (Some bv)
            show ?thesis
            proof (cases bv)
              case (Inl e)
              then have "read_directly sg held d2 sql1 reads = None"
                using assms(2) r \<open>x = Inr sql1\<close> q y p Some unfolding accepted_def by (metis option.inject sum.distinct(1))
              then show ?thesis using Some Inl by (simp add: query_each_ref_def run_statement_def r \<open>x = Inr sql1\<close> q y p)
            next
              case vs: (Inr vs)
              note st = step [of sql1 d1 stmt columns reads d2 vs]
              show ?thesis
                using st q Some vs unfolding query_each_ref_def run_statement_def r \<open>x = Inr sql1\<close> y p
                by (cases "read_directly sg held d2 sql1 reads") (simp_all add: split_beta)
            qed
          qed
        qed (simp add: query_each_ref_def run_statement_def r Inr q)
      qed (simp add: query_each_ref_def run_statement_def r Inr)
    qed (simp add: query_each_ref_def run_statement_def r)
  qed (simp add: query_each_ref_def run_statement_def)
qed

text \<open>Whether a statement's rows are read directly.\<close>

definition reads_directly ::
  "'d engine \<Rightarrow> 'd stepping \<Rightarrow> outside \<Rightarrow> settings \<Rightarrow> 'd renaming \<Rightarrow> ('d \<Rightarrow> rstr \<Rightarrow> ('r source \<times> 'r list list) option) \<Rightarrow>
   rstr \<Rightarrow> 'd \<Rightarrow> bool"
where
  "reads_directly en sg ou se renamed held sql d \<longleftrightarrow>
     (case renamed d sql of
        Some (Inr sql, d) \<Rightarrow>
          (case prepare_reading en ou se sql d of
             Some (Inr (stmt, columns, reads), d) \<Rightarrow> read_directly sg held d sql reads \<noteq> None
           | _ \<Rightarrow> False)
      | _ \<Rightarrow> False)"

lemma direct_ignores_params:
  assumes "reads_directly en sg ou se renamed held sql d"
  shows "query_each_ref en sg ou se renamed held sql params init on_row d =
     query_each_ref en sg ou se renamed held sql params' init on_row d"
proof -
  obtain x d1 where r: "renamed d sql = Some (x, d1)"
    using assms by (cases "renamed d sql") (auto simp: reads_directly_def)
  obtain sql1 where x: "x = Inr sql1" using assms r by (cases x) (auto simp: reads_directly_def)
  note r = r [unfolded x]
  obtain y d2 where p: "prepare_reading en ou se sql1 d1 = Some (y, d2)"
    using assms r by (cases "prepare_reading en ou se sql1 d1") (auto simp: reads_directly_def)
  obtain stmt columns reads where y: "y = Inr (stmt, columns, reads)"
    using assms r p by (cases y) (auto simp: reads_directly_def)
  note p = p [unfolded y]
  obtain rows where "read_directly sg held d2 sql1 reads = Some rows"
    using assms r p by (auto simp: reads_directly_def)
  then show ?thesis by (simp add: query_each_ref_def r p)
qed

lemma indirect_accepted:
  "\<not> reads_directly en sg ou se renamed held sql d \<Longrightarrow> accepted en sg ou se renamed held sql params d"
  by (auto simp: reads_directly_def accepted_def)

text \<open>C29: Handing the rows over as they come, past SQLite where that can be, does what collecting them and handing over
  the result does: the same cells in the same order, and the same error where the rows end in one. A
  statement read past SQLite does so for no values, whatever values are given (\<open>direct_rows_ignore_params\<close>). That
  the rows handed over past SQLite are those its program yields is proved by running the program the recognizer accepted
  on the machine of \<open>Plain_Scan\<close>.\<close>

theorem query_each_as_query:
  assumes "steps_well en sg held"
  shows "query_each_ref en sg ou se renamed held sql params init on_row d =
    map_option (apfst (map_sum id (hand_result init on_row)))
      (run_statement en sg ou se renamed sql
        (if reads_directly en sg ou se renamed held sql d then default_params else params) d)"
proof (cases "reads_directly en sg ou se renamed held sql d")
  case True
  then show ?thesis
    using query_each_collected [OF assms default_params_accepted [OF assms]]
      direct_ignores_params [OF True, of params init on_row default_params] by simp
next
  case False
  then show ?thesis using query_each_collected [OF assms indirect_accepted] by simp
qed

section \<open>A small connection\<close>

text \<open>One path-table of one row, named \<open>t\<close>, and a statement without placeholders that lists its paths.\<close>

definition small_source :: "unit source" where
  "small_source =
     \<lparr>so_lookup_columns = [], so_lookup_key = (\<lambda>_ _. None), so_prefetch_column = None, so_held_columns = 1,
      so_cell = (\<lambda>_ _. Ref_Text [97])\<rparr>"

definition small_stepping :: "unit stepping" where
  "small_stepping =
     \<lparr>sg_rows = (\<lambda>_ _ _. ([[Ref_Text [97]]], None)),
      sg_explain = (\<lambda>_ _. Some (scan_program [0] @ [an_op ''Transaction'' 1 0 0, an_op ''Goto'' 0 1 0]))\<rparr>"

definition small_held :: "unit \<Rightarrow> rstr \<Rightarrow> (unit source \<times> unit list list) option" where
  "small_held d t = Some (small_source, [[()]])"

definition unrenamed :: "'d renaming" where
  "unrenamed d sql = Some (Inr sql, d)"

lemma small_scanned: "Option.bind (sg_explain small_stepping d sql) scanned_columns = Some [0]"
proof -
  have "scanned_columns (scan_program [0] @ [an_op ''Transaction'' 1 0 0, an_op ''Goto'' 0 1 0]) = Some [0]"
    by (simp add: scanned_columns_def scan_program_def an_op_def Let_def)
  then show ?thesis by (simp add: small_stepping_def)
qed

lemma small_direct: "read_directly small_stepping small_held d sql {ascii ''t''} = Some [[Ref_Text [97]]]"
  unfolding read_directly_def small_scanned by (simp add: small_held_def small_source_def each_row_def)

lemma small_checked [simp]: "utf8_checked (Ref_Text [97]) column = None" "from_utf8_lossy [97] = [97]" "utf8 [97] = [97]"
proof -
  have "from_utf8 [97] = Some [97]" by code_simp
  then show "utf8_checked (Ref_Text [97]) column = None" by (simp add: utf8_checked_def)
  show "from_utf8_lossy [97] = [97]" "utf8 [97] = [97]" by code_simp+
qed

lemma small_bound:
  "bound_values debug small_prepared (Positional []) = Some (Inr [])"
  "bound_values debug small_prepared (Positional [v]) =
     Some (Inl (Refused (Params_Error (ascii ''the query has 0 parameter(s), but 1 value(s) were given''))))"
proof -
  show "bound_values debug small_prepared (Positional []) = Some (Inr [])"
    by (simp add: bound_values_def small_prepared_def plan_def)
  show "bound_values debug small_prepared (Positional [v]) =
     Some (Inl (Refused (Params_Error (ascii ''the query has 0 parameter(s), but 1 value(s) were given''))))"
    by (simp add: bound_values_def small_prepared_def plan_def show_nat.simps)
qed

lemma small_program: "program_rows small_source [[()]] (scan_program [0] @ [an_op ''Transaction'' 1 0 0, an_op ''Goto'' 0 1 0]) n =
    Some rows \<Longrightarrow> rows = [[Ref_Text [97]]]"
proof -
  let ?p = "scan_program [0] @ [an_op ''Transaction'' 1 0 0, an_op ''Goto'' 0 1 0]"
  have "scanned_columns ?p = Some [0]" using small_scanned by (simp add: small_stepping_def)
  then have "\<exists>n. program_rows small_source [[()]] ?p n = Some [[Ref_Text [97]]]"
    by (rule plain_scan_rows) (simp_all add: each_row_def small_source_def)
  then show "program_rows small_source [[()]] ?p n = Some rows \<Longrightarrow> rows = [[Ref_Text [97]]]"
    using program_rows_unique by blast
qed

lemma small_well: "steps_well small_engine small_stepping small_held"
proof -
  have rows: "sg_rows small_stepping d sql vs = ([[Ref_Text [97]]], None)" for d sql vs by (simp add: small_stepping_def)
  have explain: "sg_explain small_stepping d sql =
      Some (scan_program [0] @ [an_op ''Transaction'' 1 0 0, an_op ''Goto'' 0 1 0])" for d sql
    by (simp add: small_stepping_def)
  show ?thesis
    unfolding steps_well_def small_guarded rows explain
    using small_program by (auto simp: small_held_def row_fits_def small_prepared_def)
qed

text \<open>The same for a value no placeholder takes.\<close>

theorem query_each_as_query_witness:
  "query_each_ref small_engine small_stepping small_outside small_settings unrenamed small_held (ascii ''q'') (Positional [Null])
     (\<lambda>_. []) (\<lambda>s row. s @ [row]) () = Some (Inr [[Ref_Text [97]]], ())"
proof -
  note q = query_each_as_query [OF small_well, of small_outside small_settings unrenamed "ascii ''q''" "Positional [Null]" "\<lambda>_. []" "\<lambda>s row. s @ [row]" "()"]
  have direct: "reads_directly small_engine small_stepping small_outside small_settings unrenamed small_held (ascii ''q'') ()"
    unfolding reads_directly_def unrenamed_def by (simp add: small_reading small_direct [simplified])
  have "run_statement small_engine small_stepping small_outside small_settings unrenamed (ascii ''q'') default_params () =
      Some (Inr \<lparr>qr_columns = [ascii ''path''], qr_rows = [[ascii ''path'' \<mapsto> Text [97]]]\<rparr>, ())"
    unfolding run_statement_def unrenamed_def default_params_def
    by (simp add: small_reading small_bound) (simp add: small_stepping_def)
  then show ?thesis unfolding q using direct by (simp add: hand_result_def result_cells_def)
qed

text \<open>Values that no placeholder takes are refused by \<open>query\<close>, and go unnoticed where the rows are handed over
  straight from the table.\<close>

theorem direct_rows_ignore_params:
  "query_each_ref small_engine small_stepping small_outside small_settings unrenamed small_held (ascii ''q'') (Positional [Null])
     (\<lambda>_. []) (\<lambda>s row. s @ [row]) () = Some (Inr [[Ref_Text [97]]], ()) \<and>
   run_statement small_engine small_stepping small_outside small_settings unrenamed (ascii ''q'') (Positional [Null]) () =
     Some (Inl (Refused (Params_Error (ascii ''the query has 0 parameter(s), but 1 value(s) were given''))), ())"
proof
  show "query_each_ref small_engine small_stepping small_outside small_settings unrenamed small_held (ascii ''q'') (Positional [Null])
     (\<lambda>_. []) (\<lambda>s row. s @ [row]) () = Some (Inr [[Ref_Text [97]]], ())"
    unfolding query_each_ref_def unrenamed_def by (simp add: small_reading small_direct [simplified])
  show "run_statement small_engine small_stepping small_outside small_settings unrenamed (ascii ''q'') (Positional [Null]) () =
     Some (Inl (Refused (Params_Error (ascii ''the query has 0 parameter(s), but 1 value(s) were given''))), ())"
    unfolding run_statement_def unrenamed_def by (simp add: small_reading small_bound del: ascii_def)
qed

end
