(* ===== verification/Json_Rows.thy ===== *)
theory Json_Rows
  imports Query_Rows Differ
begin

text \<open>
  Rows as JSON: \<open>packages/rust/src/cli/serialize.rs\<close>, the pipeline of one query in \<open>cli/execute.rs\<close>, and
  \<open>row_event_flat.rs\<close>. The text \<open>serde_json\<close> makes of a string and of a number, and its reading of a request's
  body, are parameters. An object is its entries in order: \<open>serde_json\<close> keeps the order of insertion, and a key
  inserted again keeps its place.
\<close>

section \<open>Values\<close>

datatype jvalue = J_Null | J_Int int | J_Number f64 | J_String rstr | J_Array "jvalue list" | J_Object "(rstr \<times> jvalue) list"

fun object_insert :: "rstr \<Rightarrow> jvalue \<Rightarrow> (rstr \<times> jvalue) list \<Rightarrow> (rstr \<times> jvalue) list" where
  "object_insert k v [] = [(k, v)]"
| "object_insert k v ((k', v') # m) = (if k' = k then (k, v) # m else (k', v') # object_insert k v m)"

definition f64_finite :: "f64 \<Rightarrow> bool" where
  "f64_finite x \<longleftrightarrow> f64_magnitude x < 0x7FF0000000000000"

definition hex_digit :: "nat \<Rightarrow> uchar" where
  "hex_digit n = (if n < 10 then 48 + n else 87 + n)"

definition hex_encode :: "8 word list \<Rightarrow> rstr" where
  "hex_encode bs = concat (map (\<lambda>b. [hex_digit (unat b div 16), hex_digit (unat b mod 16)]) bs)"

fun cell_to_json :: "sql_value \<Rightarrow> jvalue" where
  "cell_to_json Null = J_Null"
| "cell_to_json (Integer i) = J_Int i"
| "cell_to_json (Real r) = (if f64_finite r then J_Number r else J_Null)"
| "cell_to_json (Text s) = J_String s"
| "cell_to_json (Blob bs) = J_String (hex_encode bs)"

definition ordered_row_to_json :: "rstr list \<Rightarrow> (rstr \<rightharpoonup> sql_value) \<Rightarrow> jvalue" where
  "ordered_row_to_json columns row =
     J_Object (fold (\<lambda>column m. case row column of None \<Rightarrow> m | Some v \<Rightarrow> object_insert column (cell_to_json v) m) columns [])"

definition result_to_json :: "query_result \<Rightarrow> jvalue list" where
  "result_to_json result = map (ordered_row_to_json (qr_columns result)) (qr_rows result)"

definition row_to_json :: "row \<Rightarrow> jvalue" where
  "row_to_json r = J_Object (fold (\<lambda>(k, v) m. object_insert k (cell_to_json v) m) r [])"

section \<open>Their text\<close>

record json_lib =
  jl_string :: "rstr \<Rightarrow> bytes"
  jl_number :: "f64 \<Rightarrow> bytes"

text \<open>The compact rendering of \<open>serde_json\<close>.\<close>

fun jtext :: "json_lib \<Rightarrow> jvalue \<Rightarrow> bytes" where
  "jtext lib J_Null = ascii ''null''"
| "jtext lib (J_Int i) = show_int i"
| "jtext lib (J_Number r) = jl_number lib r"
| "jtext lib (J_String s) = jl_string lib s"
| "jtext lib (J_Array vs) = [c_lbracket] @ join [c_comma] (map (jtext lib) vs) @ [c_rbracket]"
| "jtext lib (J_Object m) =
     [c_lbrace] @ join [c_comma] (map (\<lambda>(k, v). jl_string lib k @ [c_colon] @ jtext lib v) m) @ [c_rbrace]"

definition is_plain :: "bytes \<Rightarrow> bool" where
  "is_plain bs \<longleftrightarrow> list_all (\<lambda>b. 0x20 \<le> b \<and> b < 0x80 \<and> b \<noteq> c_dquote \<and> b \<noteq> c_backslash) bs"

definition write_text :: "json_lib \<Rightarrow> bytes \<Rightarrow> bytes" where
  "write_text lib bs = (if is_plain bs then [c_dquote] @ bs @ [c_dquote] else jl_string lib (from_utf8_lossy bs))"

definition write_cell :: "json_lib \<Rightarrow> value_ref \<Rightarrow> bytes" where
  "write_cell lib x = (case x of Ref_Text bs \<Rightarrow> write_text lib bs | other \<Rightarrow> jtext lib (cell_to_json (owned other)))"

section \<open>Rows written one at a time\<close>

record json_rows =
  jr_out :: bytes
  jr_keys :: "(bytes \<times> nat) list"
  jr_rows :: nat

fun row_keys :: "json_lib \<Rightarrow> nat \<Rightarrow> rstr list \<Rightarrow> rstr list \<Rightarrow> (bytes \<times> nat) list \<Rightarrow> (bytes \<times> nat) list" where
  "row_keys lib i firsts [] ks = ks"
| "row_keys lib i firsts (name # names) ks =
     (case position (\<lambda>first. first = name) firsts of
        Some at \<Rightarrow> row_keys lib (i + 1) firsts names (ks[at := (fst (ks ! at), i)])
      | None \<Rightarrow> row_keys lib (i + 1) (firsts @ [name]) names (ks @ [(jl_string lib name, i)]))"

definition json_rows_new :: "json_lib \<Rightarrow> rstr list \<Rightarrow> json_rows" where
  "json_rows_new lib columns = \<lparr>jr_out = [c_lbracket], jr_keys = row_keys lib 0 [] columns [], jr_rows = 0\<rparr>"

text \<open>\<open>cells[i]\<close> panics past the end; a row has a cell for each column.\<close>

definition json_rows_row :: "json_lib \<Rightarrow> json_rows \<Rightarrow> value_ref list \<Rightarrow> json_rows" where
  "json_rows_row lib jr cells =
     jr\<lparr>jr_out := jr_out jr @ (if 0 < jr_rows jr then [c_comma] else []) @ [c_lbrace] @
          concat (map (\<lambda>(n, key, i). (if 0 < n then [c_comma] else []) @ key @ [c_colon] @ write_cell lib (cells ! i))
            (enumerate 0 (jr_keys jr))) @ [c_rbrace],
        jr_rows := jr_rows jr + 1\<rparr>"

definition json_rows_finish :: "json_rows \<Rightarrow> bytes" where
  "json_rows_finish jr = jr_out jr @ [c_rbracket, c_nl]"

section \<open>Row events\<close>

record flat_row_event =
  fe_table :: "rstr option"
  fe_action :: rstr
  fe_row :: "row option"
  fe_old_row :: "row option"
  fe_error :: "rstr option"
  fe_file_path :: rstr

fun flatten_row_event :: "row_event \<Rightarrow> flat_row_event" where
  "flatten_row_event (Insert table row path) =
     \<lparr>fe_table = Some table, fe_action = ascii ''insert'', fe_row = Some row, fe_old_row = None, fe_error = None, fe_file_path = path\<rparr>"
| "flatten_row_event (Update table old_row new_row path) =
     \<lparr>fe_table = Some table, fe_action = ascii ''update'', fe_row = Some new_row, fe_old_row = Some old_row, fe_error = None,
      fe_file_path = path\<rparr>"
| "flatten_row_event (Delete table row path) =
     \<lparr>fe_table = Some table, fe_action = ascii ''delete'', fe_row = Some row, fe_old_row = None, fe_error = None, fe_file_path = path\<rparr>"
| "flatten_row_event (Error table path message) =
     \<lparr>fe_table = table, fe_action = ascii ''error'', fe_row = None, fe_old_row = None, fe_error = Some message, fe_file_path = path\<rparr>"

definition opt_json :: "('a \<Rightarrow> jvalue) \<Rightarrow> 'a option \<Rightarrow> jvalue" where
  "opt_json f x = (case x of None \<Rightarrow> J_Null | Some v \<Rightarrow> f v)"

definition event_to_value :: "row_event \<Rightarrow> jvalue" where
  "event_to_value event =
     (let flat = flatten_row_event event in
      J_Object ([(ascii ''action'', J_String (fe_action flat)), (ascii ''table'', opt_json J_String (fe_table flat)),
        (ascii ''file_path'', J_String (fe_file_path flat))] @
       (case fe_error flat of
          Some e \<Rightarrow> [(ascii ''error'', J_String e)]
        | None \<Rightarrow> [(ascii ''row'', opt_json row_to_json (fe_row flat)), (ascii ''old_row'', opt_json row_to_json (fe_old_row flat))])))"

definition event_to_json :: "json_lib \<Rightarrow> row_event \<Rightarrow> bytes" where
  "event_to_json lib event = jtext lib (event_to_value event)"

section \<open>One query, end to end\<close>

datatype query_failure = Bad_Request rstr | Timeout nat | Internal rstr | Unavailable rstr

text \<open>\<open>debug\<close> is the text of a duration.\<close>

fun failure_message :: "(nat \<Rightarrow> rstr) \<Rightarrow> query_failure \<Rightarrow> rstr" where
  "failure_message debug (Timeout t) = ascii ''query exceeded '' @ debug t @ ascii '' timeout''"
| "failure_message debug (Bad_Request msg) = msg"
| "failure_message debug (Internal msg) = msg"
| "failure_message debug (Unavailable msg) = msg"

text \<open>The body read by \<open>serde_json\<close>: a message, or its \<open>sql\<close> field.\<close>

definition parse_sql_body :: "(rstr \<Rightarrow> rstr + rstr option) \<Rightarrow> rstr \<Rightarrow> query_failure + rstr" where
  "parse_sql_body read_body body =
     (case read_body body of
        Inl e \<Rightarrow> Inl (Bad_Request e)
      | Inr (Some s) \<Rightarrow> if trim s \<noteq> [] then Inr (trim s) else Inl (Bad_Request (ascii ''`sql` must not be empty''))
      | Inr None \<Rightarrow> Inl (Bad_Request (ascii ''missing `sql` field'')))"

datatype 'd app_state = Ready 'd | Not_Ready rstr

definition require_ready :: "'d app_state \<Rightarrow> query_failure + 'd" where
  "require_ready state = (case state of Ready d \<Rightarrow> Inr d | Not_Ready reason \<Rightarrow> Inl (Unavailable reason))"

text \<open>An error of the index as the pipeline tells it apart: one of the database, or any other.\<close>

datatype index_error = Database prepare_error | Elsewhere rstr

definition classify_query_error :: "(prepare_error \<Rightarrow> rstr) \<Rightarrow> index_error \<Rightarrow> query_failure" where
  "classify_query_error display e = (case e of Database e \<Rightarrow> Bad_Request (display e) | Elsewhere msg \<Rightarrow> Internal msg)"

text \<open>\<open>DirSQL::query_ordered\<close> and \<open>query_each_ref\<close>: the index brought up to date (\<open>refreshed\<close>, which may fail),
  and the query of its database.\<close>

definition index_query ::
  "('d \<Rightarrow> rstr + 'd) \<Rightarrow> ('d \<Rightarrow> ((prepare_error + 'r) \<times> 'd) option) \<Rightarrow> 'd \<Rightarrow> (index_error + 'r) option"
where
  "index_query refreshed query d =
     (case refreshed d of
        Inl msg \<Rightarrow> Some (Inl (Elsewhere msg))
      | Inr d \<Rightarrow> map_option (\<lambda>(r, d). map_sum Database id r) (query d))"

text \<open>\<open>execute_query\<close> where the query ends in time: \<open>None\<close> is a panic in the thread it runs on, which the pipeline
  reports as \<open>Internal\<close> in the words of \<open>JoinError\<close>, \<open>join_error\<close>.\<close>

definition answered :: "rstr \<Rightarrow> (prepare_error \<Rightarrow> rstr) \<Rightarrow> (index_error + 'r) option \<Rightarrow> query_failure + 'r" where
  "answered join_error display r =
     (case r of
        None \<Rightarrow> Inl (Internal join_error)
      | Some (Inl e) \<Rightarrow> Inl (classify_query_error display e)
      | Some (Inr v) \<Rightarrow> Inr v)"

record ('d, 'r) pipeline =
  pl_engine :: "'d engine"
  pl_stepping :: "'d stepping"
  pl_outside :: outside
  pl_settings :: settings
  pl_renamed :: "'d renaming"
  pl_held :: "'d \<Rightarrow> rstr \<Rightarrow> ('r source \<times> 'r list list) option"
  pl_refreshed :: "'d \<Rightarrow> rstr + 'd"
  pl_join_error :: rstr
  pl_display :: "prepare_error \<Rightarrow> rstr"
  pl_body :: "rstr \<Rightarrow> rstr + rstr option"
  pl_json :: json_lib

definition execute_query :: "('d, 'r) pipeline \<Rightarrow> 'd app_state \<Rightarrow> rstr \<Rightarrow> query_failure + jvalue" where
  "execute_query pl state raw_body =
     (case parse_sql_body (pl_body pl) raw_body of
        Inl e \<Rightarrow> Inl e
      | Inr sql \<Rightarrow>
          (case require_ready state of
             Inl e \<Rightarrow> Inl e
           | Inr d \<Rightarrow>
               map_sum id (\<lambda>result. J_Array (result_to_json result)) (answered (pl_join_error pl) (pl_display pl)
                 (index_query (pl_refreshed pl)
                   (run_statement (pl_engine pl) (pl_stepping pl) (pl_outside pl) (pl_settings pl) (pl_renamed pl) sql default_params) d))))"

definition execute_query_json :: "('d, 'r) pipeline \<Rightarrow> 'd app_state \<Rightarrow> rstr \<Rightarrow> query_failure + bytes" where
  "execute_query_json pl state raw_body =
     (case parse_sql_body (pl_body pl) raw_body of
        Inl e \<Rightarrow> Inl e
      | Inr sql \<Rightarrow>
          (case require_ready state of
             Inl e \<Rightarrow> Inl e
           | Inr d \<Rightarrow>
               map_sum id json_rows_finish (answered (pl_join_error pl) (pl_display pl)
                 (index_query (pl_refreshed pl)
                   (query_each_ref (pl_engine pl) (pl_stepping pl) (pl_outside pl) (pl_settings pl) (pl_renamed pl) (pl_held pl)
                     sql default_params (json_rows_new (pl_json pl)) (json_rows_row (pl_json pl))) d))))"

section \<open>The text written is the text of the value\<close>

text \<open>A string with nothing to escape is written as it is.\<close>

definition plain_verbatim :: "json_lib \<Rightarrow> bool" where
  "plain_verbatim lib \<longleftrightarrow> (\<forall>s. is_plain s \<longrightarrow> jl_string lib s = [c_dquote] @ s @ [c_dquote])"

lemma write_cell_json:
  assumes "plain_verbatim lib"
  shows "write_cell lib x = jtext lib (cell_to_json (owned x))"
proof (cases x)
  case (Ref_Text bs)
  have "from_utf8_lossy bs = bs" if "is_plain bs"
    using that by (intro from_utf8_lossy_ascii) (auto simp: is_plain_def is_ascii_def list_all_iff)
  then show ?thesis using assms Ref_Text by (simp add: write_cell_def write_text_def plain_verbatim_def)
qed (simp_all add: write_cell_def)

lemma concat_after_first:
  "concat (map (\<lambda>(n, x). (if 0 < n then sep else []) @ f x) (enumerate (Suc k) xs)) = concat (map (\<lambda>x. sep @ f x) xs)"
  by (induction xs arbitrary: k) simp_all

lemma join_Cons_concat: "join sep (p # ps) = p @ concat (map (\<lambda>q. sep @ q) ps)"
  by (induction ps arbitrary: p) simp_all

lemma concat_enumerate_join:
  "concat (map (\<lambda>(n, x). (if 0 < n then sep else []) @ f x) (enumerate 0 xs)) = join sep (map f xs)"
  by (cases xs) (simp_all only: enumerate_simps list.map concat.simps prod.case join.simps concat_after_first join_Cons_concat map_map o_def if_False less_irrefl append_Nil)

lemma row_keys_distinct:
  "distinct names \<Longrightarrow> set names \<inter> set firsts = {} \<Longrightarrow>
   row_keys lib i firsts names ks = ks @ map (\<lambda>(j, name). (jl_string lib name, j)) (enumerate i names)"
proof (induction names arbitrary: i firsts ks)
  case (Cons name names)
  then have "position (\<lambda>first. first = name) firsts = None" by (auto simp: position_None_iff)
  then show ?case using Cons.IH [of "firsts @ [name]"] Cons.prems by auto
qed simp

lemma object_insert_new: "k \<notin> fst ` set m \<Longrightarrow> object_insert k v m = m @ [(k, v)]"
  by (induction k v m rule: object_insert.induct) auto

lemma ordered_row_fold:
  assumes "distinct columns" "set columns \<inter> fst ` set m = {}" "\<And>c. c \<in> set columns \<Longrightarrow> row c = Some (f c)"
  shows "fold (\<lambda>column m. case row column of None \<Rightarrow> m | Some v \<Rightarrow> object_insert column (cell_to_json v) m) columns m =
    m @ map (\<lambda>c. (c, cell_to_json (f c))) columns"
  using assms
proof (induction columns arbitrary: m)
  case (Cons c columns)
  then have "row c = Some (f c)" "object_insert c (cell_to_json (f c)) m = m @ [(c, cell_to_json (f c))]"
    by (simp_all add: object_insert_new)
  then show ?case using Cons.IH [of "m @ [(c, cell_to_json (f c))]"] Cons.prems by auto
qed simp

lemma ordered_row_of_cells:
  assumes "distinct columns" "length row = length columns"
  shows "ordered_row_to_json columns (Map.empty(columns [\<mapsto>] map owned row)) =
    J_Object (map (\<lambda>(i, c). (c, cell_to_json (owned (row ! i)))) (enumerate 0 columns))"
proof -
  let ?m = "Map.empty(columns [\<mapsto>] map owned row)"
  have at: "?m (columns ! i) = Some (owned (row ! i))" if "i < length columns" for i
    using map_upds_nth [OF assms(1), of "map owned row" i Map.empty] assms(2) that by simp
  then have "?m c = Some (the (?m c))" if "c \<in> set columns" for c using that by (auto simp: in_set_conv_nth)
  then have "ordered_row_to_json columns ?m = J_Object (map (\<lambda>c. (c, cell_to_json (the (?m c)))) columns)"
    unfolding ordered_row_to_json_def using ordered_row_fold [OF assms(1), of "[]" ?m "\<lambda>c. the (?m c)"] by simp
  also have "map (\<lambda>c. (c, cell_to_json (the (?m c)))) columns = map (\<lambda>(i, c). (c, cell_to_json (owned (row ! i)))) (enumerate 0 columns)"
    by (rule nth_equalityI) (simp_all add: at nth_enumerate_eq)
  finally show ?thesis .
qed

text \<open>One row.\<close>

definition row_object :: "rstr list \<Rightarrow> value_ref list \<Rightarrow> jvalue" where
  "row_object columns row = J_Object (map (\<lambda>(i, c). (c, cell_to_json (owned (row ! i)))) (enumerate 0 columns))"

lemma json_rows_row_text:
  assumes "plain_verbatim lib" "distinct columns" "jr_keys jr = row_keys lib 0 [] columns []"
  shows "json_rows_row lib jr row =
    jr\<lparr>jr_out := jr_out jr @ (if 0 < jr_rows jr then [c_comma] else []) @ jtext lib (row_object columns row), jr_rows := jr_rows jr + 1\<rparr>"
proof -
  have keys: "jr_keys jr = map (\<lambda>(j, name). (jl_string lib name, j)) (enumerate 0 columns)"
    using assms(3) row_keys_distinct [OF assms(2)] by simp
  have "concat (map (\<lambda>(n, key, i). (if 0 < n then [c_comma] else []) @ key @ [c_colon] @ write_cell lib (row ! i)) (enumerate 0 (jr_keys jr))) =
      join [c_comma] (map (\<lambda>(key, i). key @ [c_colon] @ write_cell lib (row ! i)) (jr_keys jr))"
    using concat_enumerate_join [of "[c_comma]" "\<lambda>(key, i). key @ [c_colon] @ write_cell lib (row ! i)" "jr_keys jr"]
    by (simp add: split_def)
  also have "\<dots> = join [c_comma] (map (\<lambda>(k, v). jl_string lib k @ [c_colon] @ jtext lib v)
      (map (\<lambda>(i, c). (c, cell_to_json (owned (row ! i)))) (enumerate 0 columns)))"
    by (simp add: keys o_def split_def write_cell_json [OF assms(1)])
  finally show ?thesis by (simp add: json_rows_row_def row_object_def)
qed

lemma json_rows_all:
  assumes "plain_verbatim lib" "distinct columns" "jr_keys jr = row_keys lib 0 [] columns []"
  shows "jr_out (foldl (json_rows_row lib) jr rows) =
    jr_out jr @ (if 0 < jr_rows jr then concat (map (\<lambda>row. [c_comma] @ jtext lib (row_object columns row)) rows)
      else join [c_comma] (map (\<lambda>row. jtext lib (row_object columns row)) rows))"
  using assms(3)
proof (induction rows arbitrary: jr)
  case (Cons row rows)
  let ?jr = "json_rows_row lib jr row"
  note r = json_rows_row_text [OF assms(1,2) Cons.prems, of row]
  have "jr_keys ?jr = row_keys lib 0 [] columns []" "0 < jr_rows ?jr" using Cons.prems by (simp_all add: r)
  then show ?case using Cons.IH [of ?jr] by (simp add: r join_Cons_concat o_def)
qed simp

lemma json_rows_text:
  assumes "plain_verbatim lib" "distinct columns"
  shows "json_rows_finish (foldl (json_rows_row lib) (json_rows_new lib columns) rows) =
    jtext lib (J_Array (map (row_object columns) rows)) @ [c_nl]"
  using json_rows_all [OF assms, of "json_rows_new lib columns" rows]
  by (simp add: json_rows_finish_def json_rows_new_def o_def)

section \<open>What a statement collects\<close>

lemma collect_rows_Inr:
  assumes "collect_rows columns rows e = Inr ms"
  shows "ms = map (\<lambda>row. Map.empty(columns [\<mapsto>] map owned row)) rows \<and> list_all (\<lambda>row. utf8_row row columns = None) rows"
  using assms
proof (induction rows arbitrary: ms)
  case (Cons row rows)
  then have u: "utf8_row row columns = None" by (auto simp: row_map_eq split: option.splits)
  then obtain ms' where "collect_rows columns rows e = Inr ms'" "ms = Map.empty(columns [\<mapsto>] map owned row) # ms'"
    using Cons.prems by (cases "collect_rows columns rows e") (auto simp: row_map_eq)
  then show ?case using Cons.IH u by simp
qed (simp split: option.splits)

lemma bind_Inr:
  assumes "Option.bind m (\<lambda>(r, d). case r of Inl e \<Rightarrow> Some (Inl e, d) | Inr x \<Rightarrow> f x d) = Some (Inr y, d')"
  obtains x d1 where "m = Some (Inr x, d1)" "f x d1 = Some (Inr y, d')"
proof (cases m)
  case (Some rd)
  then obtain r d1 where "m = Some (r, d1)" by (cases rd) auto
  with assms that show thesis by (cases r) auto
qed (use assms in simp)

lemma run_statement_rows:
  assumes "steps_well en sg held" "run_statement en sg ou se renamed sql params d = Some (Inr result, d')"
  shows "distinct (qr_columns result) \<and> (\<exists>rows. qr_rows result = map (\<lambda>row. Map.empty(qr_columns result [\<mapsto>] map owned row)) rows \<and>
    list_all (row_fits (length (qr_columns result))) rows \<and> list_all (\<lambda>row. utf8_row row (qr_columns result) = None) rows)"
proof -
  obtain sql1 d1 where r: "Option.bind (prepare_reading en ou se sql1 d1) (\<lambda>(r, d). case r of
       Inl e \<Rightarrow> Some (Inl e, d)
     | Inr (stmt, columns, reads) \<Rightarrow>
         Option.bind (bound_values (ou_debug ou) stmt params) (\<lambda>b. case b of
           Inl e \<Rightarrow> Some (Inl e, d)
         | Inr vs \<Rightarrow>
             (case sg_rows sg d sql1 vs of
                (rows, e) \<Rightarrow>
                  Some (map_sum id (\<lambda>ms. \<lparr>qr_columns = columns, qr_rows = ms\<rparr>) (collect_rows columns rows e), d)))) =
     Some (Inr result, d')"
    using assms(2) unfolding run_statement_def by (rule bind_Inr)
  obtain q d2 where q: "prepare_reading en ou se sql1 d1 = Some (Inr q, d2)"
    "(case q of (stmt, columns, reads) \<Rightarrow>
       Option.bind (bound_values (ou_debug ou) stmt params) (\<lambda>b. case b of
         Inl e \<Rightarrow> Some (Inl e, d2)
       | Inr vs \<Rightarrow>
           (case sg_rows sg d2 sql1 vs of
              (rows, e) \<Rightarrow>
                Some (map_sum id (\<lambda>ms. \<lparr>qr_columns = columns, qr_rows = ms\<rparr>) (collect_rows columns rows e), d2)))) =
     Some (Inr result, d')"
    using r by (rule bind_Inr)
  obtain stmt columns reads where p: "prepare_reading en ou se sql1 d1 = Some (Inr (stmt, columns, reads), d2)" "q = (stmt, columns, reads)"
    using q(1) by (cases q) auto
  obtain vs where vs: "bound_values (ou_debug ou) stmt params = Some (Inr vs)"
    using q(2) p(2) by (cases "bound_values (ou_debug ou) stmt params"; cases "the (bound_values (ou_debug ou) stmt params)") auto
  obtain rows e where rows: "sg_rows sg d2 sql1 vs = (rows, e)" by fastforce
  obtain ms where ms: "collect_rows columns rows e = Inr ms" "result = \<lparr>qr_columns = columns, qr_rows = ms\<rparr>"
    using q(2) p(2) vs rows by (cases "collect_rows columns rows e") auto
  note g = prepare_reading_prepared [OF p(1)]
  have "list_all (row_fits (length columns)) rows"
    using assms(1) g rows unfolding steps_well_def by (metis fst_conv length_unique_column_names)
  then show ?thesis using collect_rows_Inr [OF ms(1)] ms(2) g(2) by auto
qed

lemma hand_result_text:
  assumes "steps_well en sg held" "run_statement en sg ou se renamed sql params d = Some (Inr result, d')" "plain_verbatim lib"
  shows "json_rows_finish (hand_result (json_rows_new lib) (json_rows_row lib) result) =
    jtext lib (J_Array (result_to_json result)) @ [c_nl]"
proof -
  obtain rows where r: "distinct (qr_columns result)" "qr_rows result = map (\<lambda>row. Map.empty(qr_columns result [\<mapsto>] map owned row)) rows"
    "list_all (row_fits (length (qr_columns result))) rows" "list_all (\<lambda>row. utf8_row row (qr_columns result) = None) rows"
    using run_statement_rows [OF assms(1,2)] by blast
  have "map (result_cells result) (qr_rows result) = rows"
    using r(3,4) by (auto simp: r(2) list_all_iff intro!: map_idI result_cells_of_row [OF r(1)])
  moreover have "foldl (\<lambda>s m. json_rows_row lib s (result_cells result m)) jr ms =
      foldl (json_rows_row lib) jr (map (result_cells result) ms)" for jr ms
    by (induction ms arbitrary: jr) simp_all
  ultimately have "hand_result (json_rows_new lib) (json_rows_row lib) result =
      foldl (json_rows_row lib) (json_rows_new lib (qr_columns result)) rows"
    by (simp add: hand_result_def)
  moreover have "result_to_json result = map (row_object (qr_columns result)) rows"
    using r(3) by (auto simp: result_to_json_def r(2) row_object_def list_all_iff row_fits_def intro!: ordered_row_of_cells [OF r(1)])
  ultimately show ?thesis using json_rows_text [OF assms(3) r(1)] by simp
qed

lemma query_json_written:
  assumes "steps_well (pl_engine pl) (pl_stepping pl) (pl_held pl)" "plain_verbatim (pl_json pl)"
  shows "execute_query_json pl state raw_body =
    map_sum id (\<lambda>v. jtext (pl_json pl) v @ [c_nl]) (execute_query pl state raw_body)"
proof -
  have same: "map_sum id json_rows_finish (answered (pl_join_error pl) (pl_display pl)
        (index_query (pl_refreshed pl)
          (query_each_ref (pl_engine pl) (pl_stepping pl) (pl_outside pl) (pl_settings pl) (pl_renamed pl) (pl_held pl)
            sql default_params (json_rows_new (pl_json pl)) (json_rows_row (pl_json pl))) d)) =
      map_sum id (\<lambda>v. jtext (pl_json pl) v @ [c_nl]) (map_sum id (\<lambda>result. J_Array (result_to_json result)) (answered (pl_join_error pl) (pl_display pl)
        (index_query (pl_refreshed pl)
          (run_statement (pl_engine pl) (pl_stepping pl) (pl_outside pl) (pl_settings pl) (pl_renamed pl) sql default_params) d)))"
    for sql d
  proof (cases "pl_refreshed pl d")
    case (Inr d1)
    note q = query_each_collected [OF assms(1) default_params_accepted [OF assms(1)]]
    let ?run = "run_statement (pl_engine pl) (pl_stepping pl) (pl_outside pl) (pl_settings pl) (pl_renamed pl) sql default_params d1"
    show ?thesis
    proof (cases ?run)
      case (Some rd)
      then obtain r d2 where rd: "?run = Some (r, d2)" by (cases rd) auto
      show ?thesis
      proof (cases r)
        case (Inr result)
        then have "json_rows_finish (hand_result (json_rows_new (pl_json pl)) (json_rows_row (pl_json pl)) result) =
            jtext (pl_json pl) (J_Array (result_to_json result)) @ [c_nl]"
          using rd by (intro hand_result_text [OF assms(1) _ assms(2)]) simp
        then show ?thesis using rd \<open>pl_refreshed pl d = Inr d1\<close> Inr by (simp add: index_query_def q answered_def)
      qed (use rd \<open>pl_refreshed pl d = Inr d1\<close> in \<open>simp add: index_query_def q answered_def\<close>)
    qed (use Inr in \<open>simp add: index_query_def q answered_def\<close>)
  qed (simp add: index_query_def answered_def)
  show ?thesis
    by (simp add: execute_query_json_def execute_query_def same split: sum.splits)
qed

text \<open>C30: The text the command line prints of a query, written as the rows come, is the text of the array the server
  answers with, and a newline; where one fails, the other does, with the same failure.\<close>

theorem query_json_is_query:
  assumes "steps_well (pl_engine pl) (pl_stepping pl) (pl_held pl)" "plain_verbatim (pl_json pl)"
  shows "execute_query_json pl state raw_body =
    map_sum id (\<lambda>v. jtext (pl_json pl) v @ [c_nl]) (execute_query pl state raw_body)"
  using assms by (rule query_json_written)

section \<open>The small connection as a pipeline\<close>

definition plain_lib :: json_lib where
  "plain_lib = \<lparr>jl_string = (\<lambda>s. [c_dquote] @ s @ [c_dquote]), jl_number = (\<lambda>_. ascii ''0'')\<rparr>"

definition small_pipeline :: "(unit, unit) pipeline" where
  "small_pipeline =
     \<lparr>pl_engine = small_engine, pl_stepping = small_stepping, pl_outside = small_outside, pl_settings = small_settings,
      pl_renamed = unrenamed, pl_held = small_held, pl_refreshed = Inr, pl_join_error = ascii ''panicked'', pl_display = (\<lambda>_. ascii ''error''),
      pl_body = (\<lambda>s. Inr (Some s)), pl_json = plain_lib\<rparr>"

lemma small_selected:
  "run_statement small_engine small_stepping small_outside small_settings unrenamed sql default_params () =
    Some (Inr \<lparr>qr_columns = [ascii ''path''], qr_rows = [[ascii ''path'' \<mapsto> Text [97]]]\<rparr>, ())"
  unfolding run_statement_def unrenamed_def default_params_def
  by (simp add: small_reading small_bound) (simp add: small_stepping_def)

lemma small_executed:
  "execute_query small_pipeline (Ready ()) (ascii ''q'') = Inr (J_Array [J_Object [(ascii ''path'', J_String [97])]])"
proof -
  have "trim (ascii ''q'') = ascii ''q''" by code_simp
  then show ?thesis
    by (simp add: execute_query_def small_pipeline_def parse_sql_body_def require_ready_def index_query_def answered_def
        small_selected result_to_json_def ordered_row_to_json_def del: ascii_def)
qed

theorem query_json_is_query_witness:
  "execute_query_json small_pipeline (Ready ()) (ascii ''q'') =
    Inr ([c_lbracket, c_lbrace, c_dquote] @ ascii ''path'' @ [c_dquote, c_colon, c_dquote, 97, c_dquote, c_rbrace, c_rbracket, c_nl])"
proof -
  have "steps_well (pl_engine small_pipeline) (pl_stepping small_pipeline) (pl_held small_pipeline)"
    "plain_verbatim (pl_json small_pipeline)"
    by (simp_all add: small_pipeline_def small_well plain_verbatim_def plain_lib_def)
  note q = query_json_is_query [OF this, of "Ready ()" "ascii ''q''"]
  show ?thesis unfolding q small_executed by (simp add: small_pipeline_def plain_lib_def)
qed

end
