(* ===== verification/Result_Table.thy ===== *)
theory Result_Table
  imports Json_Rows
begin

text \<open>
  Rows laid out to be read: \<open>packages/rust/src/cli/table.rs\<close>. The text is its characters; the rows are the JSON
  objects of \<open>Json_Rows\<close>, whose strings and numbers \<open>serde_json\<close> writes.
\<close>

section \<open>Cells\<close>

definition max_cell :: nat where
  "max_cell = 60"

definition ellipsis :: uchar where
  "ellipsis = 8230"

text \<open>\<open>char::is_control\<close>, and \<open>{:x}\<close> of a character.\<close>

definition is_control :: "uchar \<Rightarrow> bool" where
  "is_control c \<longleftrightarrow> c < 32 \<or> (127 \<le> c \<and> c < 160)"

fun hex_text :: "nat \<Rightarrow> rstr" where
  "hex_text n = (if n < 16 then [hex_digit n] else hex_text (n div 16) @ [hex_digit (n mod 16)])"

declare hex_text.simps [simp del]

definition flatten_char :: "uchar \<Rightarrow> rstr" where
  "flatten_char c =
     (if c = c_nl then [c_backslash, 110]
      else if c = c_cr then [c_backslash, 114]
      else if c = c_tab then [c_backslash, 116]
      else if is_control c then [c_backslash, 117, c_lbrace] @ hex_text c @ [c_rbrace]
      else [c])"

definition flatten_text :: "rstr \<Rightarrow> rstr" where
  "flatten_text s = concat (map flatten_char s)"

definition truncate_text :: "rstr \<Rightarrow> rstr" where
  "truncate_text s = (case drop max_cell s of [] \<Rightarrow> take max_cell s | _ \<Rightarrow> take max_cell s @ [ellipsis])"

definition table_cell :: "json_lib \<Rightarrow> jvalue \<Rightarrow> rstr" where
  "table_cell lib v =
     truncate_text (flatten_text
       (case v of J_Null \<Rightarrow> ascii ''NULL'' | J_String s \<Rightarrow> s | other \<Rightarrow> from_utf8_lossy (jtext lib other)))"

section \<open>Columns\<close>

definition object_keys :: "jvalue \<Rightarrow> rstr list" where
  "object_keys v = (case v of J_Object m \<Rightarrow> map fst m | _ \<Rightarrow> [])"

definition object_get :: "jvalue \<Rightarrow> rstr \<Rightarrow> jvalue option" where
  "object_get v k = (case v of J_Object m \<Rightarrow> map_of m k | _ \<Rightarrow> None)"

text \<open>The keys seen are the names collected.\<close>

definition table_columns :: "jvalue list \<Rightarrow> rstr list" where
  "table_columns rows =
     foldl (\<lambda>names key. if key \<in> set names then names else names @ [key]) [] (concat (map object_keys rows))"

definition table_cells :: "json_lib \<Rightarrow> rstr list \<Rightarrow> jvalue \<Rightarrow> rstr list" where
  "table_cells lib columns row =
     map (\<lambda>c. table_cell lib (case object_get row c of None \<Rightarrow> J_Null | Some v \<Rightarrow> v)) columns"

definition column_width :: "rstr list list \<Rightarrow> nat \<Rightarrow> rstr \<Rightarrow> nat" where
  "column_width grid i c = fold max (map length (List.map_filter (\<lambda>row. get row i) grid) @ [length c]) 0"

definition table_widths :: "rstr list \<Rightarrow> rstr list list \<Rightarrow> nat list" where
  "table_widths columns grid = map (\<lambda>(i, c). column_width grid i c) (enumerate 0 columns)"

section \<open>Lines\<close>

definition gutter :: rstr where
  "gutter = [c_space, c_space]"

definition pad_cell :: "rstr \<Rightarrow> nat \<Rightarrow> rstr" where
  "pad_cell s w = s @ replicate (w - length s) c_space"

definition line_text :: "rstr list \<Rightarrow> nat list \<Rightarrow> rstr" where
  "line_text cells widths =
     join gutter (map (\<lambda>(i, s, w). if i = length cells - 1 then s else pad_cell s w) (enumerate 0 (zip cells widths)))"

definition table_line :: "rstr list \<Rightarrow> nat list \<Rightarrow> rstr" where
  "table_line cells widths = line_text cells widths @ [c_nl]"

definition rule_text :: "nat list \<Rightarrow> rstr" where
  "rule_text widths = join gutter (map (\<lambda>w. replicate w c_minus) widths)"

definition table_rule :: "nat list \<Rightarrow> rstr" where
  "table_rule widths = rule_text widths @ [c_nl]"

definition row_count :: "nat \<Rightarrow> rstr" where
  "row_count n = (if n = 1 then ascii ''1 row'' else show_nat n @ ascii '' rows'')"

definition render_table :: "json_lib \<Rightarrow> jvalue list \<Rightarrow> rstr" where
  "render_table lib rows =
     (let columns = table_columns rows in
      if columns = [] then ascii ''(no rows)'' @ [c_nl]
      else
        let grid = map (table_cells lib columns) rows; widths = table_widths columns grid in
        table_line columns widths @ table_rule widths @ concat (map (\<lambda>row. table_line row widths) grid) @
        [c_nl] @ row_count (length rows) @ [c_nl])"

section \<open>The columns line up\<close>

text \<open>Where a column starts, and a line in which each cell stands at its column, with blanks up to the next.\<close>

definition column_start :: "nat list \<Rightarrow> nat \<Rightarrow> nat" where
  "column_start widths j = sum_list (take j widths) + length gutter * j"

definition lines_up :: "nat list \<Rightarrow> rstr list \<Rightarrow> rstr \<Rightarrow> bool" where
  "lines_up widths cells l \<longleftrightarrow>
     (\<forall>j < length cells. \<exists>blanks.
       take (column_start widths (Suc j) - column_start widths j) (drop (column_start widths j) l) = cells ! j @ blanks \<and>
       set blanks \<subseteq> {c_space} \<and> (if Suc j = length cells then blanks = [] else length gutter \<le> length blanks))"

lemma fold_max_le: "n \<in> set ns \<Longrightarrow> n \<le> fold max ns (m :: nat)"
proof (induction ns arbitrary: m)
  case (Cons k ns)
  have "m \<le> fold max ns m" for m :: nat by (induction ns arbitrary: m) (simp, metis fold_simps(2) le_trans max.cobounded2)
  then have "k \<le> fold max ns (max k m)" by (meson le_trans max.cobounded1)
  then show ?case using Cons by auto
qed simp

lemma length_table_widths [simp]: "length (table_widths columns grid) = length columns"
  by (simp add: table_widths_def)

lemma nth_table_widths: "j < length columns \<Longrightarrow> table_widths columns grid ! j = column_width grid j (columns ! j)"
  by (simp add: table_widths_def nth_enumerate_eq)

lemma column_widths_fit:
  assumes "j < length columns"
  shows "length (columns ! j) \<le> table_widths columns grid ! j"
    and "row \<in> set grid \<Longrightarrow> length row = length columns \<Longrightarrow> length (row ! j) \<le> table_widths columns grid ! j"
proof -
  show "length (columns ! j) \<le> table_widths columns grid ! j"
    using assms by (simp add: nth_table_widths column_width_def)
  assume row: "row \<in> set grid" "length row = length columns"
  then have "row ! j \<in> set (List.map_filter (\<lambda>row. get row j) grid)"
    using assms by (force simp: get_def map_filter_def)
  then show "length (row ! j) \<le> table_widths columns grid ! j"
    unfolding nth_table_widths [OF assms] column_width_def by (intro fold_max_le) simp
qed

text \<open>A line of cells no wider than their columns, cell by cell.\<close>

fun joined_cells :: "rstr list \<Rightarrow> nat list \<Rightarrow> rstr" where
  "joined_cells [] ws = []"
| "joined_cells [s] ws = s"
| "joined_cells (s # t # ss) (w # ws) = pad_cell s w @ gutter @ joined_cells (t # ss) ws"
| "joined_cells (s # t # ss) [] = []"

lemma line_text_joined:
  "length widths = length cells \<Longrightarrow>
   join gutter (map (\<lambda>(i, s, w). if i = k + length cells - 1 then s else pad_cell s w) (enumerate k (zip cells widths))) =
     joined_cells cells widths"
proof (induction cells widths arbitrary: k rule: joined_cells.induct)
  case (2 s ws)
  then show ?case by (cases ws) simp_all
next
  case (3 s t ss w ws)
  have "k + length (s # t # ss) - 1 = Suc k + length (t # ss) - 1" "k \<noteq> k + length (s # t # ss) - 1" by simp_all
  moreover obtain w' ws' where "ws = w' # ws'" using 3 by (cases ws) auto
  ultimately show ?case using 3(1) [of "Suc k"] 3(2) by (simp add: enumerate_simps)
qed simp_all

lemma joined_cells_line_up:
  assumes "length widths = length cells" "\<And>j. j < length cells \<Longrightarrow> length (cells ! j) \<le> widths ! j"
  shows "lines_up widths cells (joined_cells cells widths)"
  using assms
proof (induction cells widths rule: joined_cells.induct)
  case (2 s ws)
  then obtain w where "ws = [w]" by (cases ws) auto
  then show ?case using 2(2) [of 0] by (simp add: lines_up_def column_start_def)
next
  case (3 s t ss w ws)
  have s: "length s \<le> w" using 3(3) [of 0] by simp
  have up: "lines_up ws (t # ss) (joined_cells (t # ss) ws)"
    using 3(1) 3(2) 3(3) by (metis Suc_less_eq length_Cons nth_Cons_Suc old.nat.inject)
  have start: "column_start (w # ws) (Suc j) = w + length gutter + column_start ws j" for j
    by (simp add: column_start_def)
  have first: "length (pad_cell s w @ gutter) = w + length gutter" using s by (simp add: pad_cell_def)
  show ?case unfolding lines_up_def
  proof (intro allI impI)
    fix j assume j: "j < length (s # t # ss)"
    show "\<exists>blanks. take (column_start (w # ws) (Suc j) - column_start (w # ws) j)
          (drop (column_start (w # ws) j) (joined_cells (s # t # ss) (w # ws))) = (s # t # ss) ! j @ blanks \<and>
        set blanks \<subseteq> {c_space} \<and> (if Suc j = length (s # t # ss) then blanks = [] else length gutter \<le> length blanks)"
    proof (cases j)
      case 0
      then show ?thesis using first
        by (intro exI [of _ "replicate (w - length s) c_space @ gutter"])
          (auto simp: start column_start_def pad_cell_def gutter_def)
    next
      case (Suc i)
      have "drop (column_start (w # ws) j) (joined_cells (s # t # ss) (w # ws)) = drop (column_start ws i) (joined_cells (t # ss) ws)"
        using first unfolding Suc start joined_cells.simps append.assoc [symmetric] by (simp add: drop_append)
      then show ?thesis using up j by (simp add: lines_up_def Suc start del: joined_cells.simps)
    qed
  qed
qed (simp_all add: lines_up_def)

lemma lines_up_line_text:
  assumes "length widths = length cells" "\<And>j. j < length cells \<Longrightarrow> length (cells ! j) \<le> widths ! j"
  shows "lines_up widths cells (line_text cells widths)"
  using joined_cells_line_up [OF assms] line_text_joined [OF assms(1), of 0] by (simp add: line_text_def)

lemma rule_as_line: "rule_text widths = line_text (map (\<lambda>w. replicate w c_minus) widths) widths"
  unfolding rule_text_def line_text_def
  by (rule arg_cong [where f = "join gutter"], rule nth_equalityI) (simp_all add: pad_cell_def nth_enumerate_eq)

section \<open>A line per row\<close>

lemma hex_text_no_nl: "c_nl \<notin> set (hex_text n)"
  by (induction n rule: hex_text.induct, subst hex_text.simps) (auto simp: hex_digit_def)

lemma flatten_text_no_nl: "c_nl \<notin> set (flatten_text s)"
  using hex_text_no_nl by (fastforce simp: flatten_text_def flatten_char_def split: if_splits)

lemma truncate_text_facts: "length (truncate_text s) \<le> max_cell + 1" "set (truncate_text s) \<subseteq> insert ellipsis (set s)"
  by (auto simp: truncate_text_def split: list.splits dest: in_set_takeD)

lemma table_cell_facts: "c_nl \<notin> set (table_cell lib v)" "length (table_cell lib v) \<le> max_cell + 1"
proof -
  show "length (table_cell lib v) \<le> max_cell + 1" unfolding table_cell_def by (rule truncate_text_facts(1))
  show "c_nl \<notin> set (table_cell lib v)"
    unfolding table_cell_def by (rule contra_subsetD [OF truncate_text_facts(2)]) (simp add: flatten_text_no_nl ellipsis_def)
qed

lemma join_free: "c \<notin> set sep \<Longrightarrow> list_all (\<lambda>p. c \<notin> set p) ps \<Longrightarrow> c \<notin> set (join sep ps)"
  by (induction sep ps rule: join.induct) auto

lemma line_text_no_nl: "list_all (\<lambda>s. c_nl \<notin> set s) cells \<Longrightarrow> c_nl \<notin> set (line_text cells widths)"
  unfolding line_text_def
  by (rule join_free) (auto simp: gutter_def pad_cell_def list_all_iff in_set_enumerate_eq dest: set_zip_leftD)

lemma split_on_lines:
  "list_all (\<lambda>l. c \<notin> set l) ls \<Longrightarrow> split_on c (concat (map (\<lambda>l. l @ [c]) ls) @ s) = ls @ split_on c s"
  by (induction ls) (simp_all add: split_on_append)

lemma row_count_no_nl: "c_nl \<notin> set (row_count n)"
  by (simp add: row_count_def not_digit_show_nat is_ascii_digit_def)

definition widths_for :: "json_lib \<Rightarrow> jvalue list \<Rightarrow> nat list" where
  "widths_for lib rows = table_widths (table_columns rows) (map (table_cells lib (table_columns rows)) rows)"

lemma table_cells_facts:
  "length (table_cells lib columns row) = length columns"
  "list_all (\<lambda>s. c_nl \<notin> set s \<and> length s \<le> max_cell + 1) (table_cells lib columns row)"
  using table_cell_facts by (simp_all add: table_cells_def list_all_iff)

text \<open>C36: A result with columns is printed as one line of names, a rule, one line per row and the count, however the
  values are spelt, as long as no name holds a newline; each line has each of its cells at its column, with at
  least the gutter before the next, and no cell is longer than the cap and its mark.\<close>

theorem table_lines_up:
  assumes "table_columns rows \<noteq> []" "list_all (\<lambda>c. c_nl \<notin> set c) (table_columns rows)"
  shows "\<exists>header rule body.
    split_on c_nl (render_table lib rows) = header # rule # body @ [[], row_count (length rows), []] \<and>
    lines_up (widths_for lib rows) (table_columns rows) header \<and>
    lines_up (widths_for lib rows) (map (\<lambda>w. replicate w c_minus) (widths_for lib rows)) rule \<and>
    list_all2 (\<lambda>row l. lines_up (widths_for lib rows) (table_cells lib (table_columns rows) row) l \<and>
      list_all (\<lambda>s. length s \<le> max_cell + 1) (table_cells lib (table_columns rows) row)) rows body"
proof (intro exI conjI)
  let ?columns = "table_columns rows" and ?ws = "widths_for lib rows"
  let ?body = "map (\<lambda>row. line_text (table_cells lib ?columns row) ?ws) rows"
  have "c_nl \<notin> set (rule_text ?ws)" by (simp add: rule_as_line line_text_no_nl list_all_iff)
  moreover have "list_all (\<lambda>l. c_nl \<notin> set l) ?body"
    using table_cells_facts(2) by (auto simp: list_all_iff intro!: line_text_no_nl)
  ultimately have "list_all (\<lambda>l. c_nl \<notin> set l) ([line_text ?columns ?ws, rule_text ?ws] @ ?body @ [[], row_count (length rows)])"
    using assms(2) row_count_no_nl by (simp add: line_text_no_nl)
  from split_on_lines [OF this, of "[]"]
  show "split_on c_nl (render_table lib rows) =
      line_text ?columns ?ws # rule_text ?ws # ?body @ [[], row_count (length rows), []]"
    using assms(1) by (simp add: render_table_def Let_def table_line_def table_rule_def widths_for_def [symmetric] o_def)
  show "lines_up ?ws ?columns (line_text ?columns ?ws)"
    by (rule lines_up_line_text) (simp_all add: widths_for_def column_widths_fit)
  show "lines_up ?ws (map (\<lambda>w. replicate w c_minus) ?ws) (rule_text ?ws)"
    unfolding rule_as_line by (rule lines_up_line_text) simp_all
  show "list_all2 (\<lambda>row l. lines_up ?ws (table_cells lib ?columns row) l \<and>
      list_all (\<lambda>s. length s \<le> max_cell + 1) (table_cells lib ?columns row)) rows ?body"
    using table_cells_facts [of lib ?columns]
    by (auto simp: list_all2_conv_all_nth list_all_iff widths_for_def intro!: lines_up_line_text column_widths_fit)
qed

definition small_rows :: "jvalue list" where
  "small_rows = [J_Object [(ascii ''id'', J_Int 7), (ascii ''s'', J_String [104, c_nl, 105])], J_Object [(ascii ''id'', J_Int 123)]]"

lemma small_table:
  "render_table plain_lib small_rows =
     ascii ''id   s'' @ [c_nl] @ ascii ''---  ----'' @ [c_nl] @ ascii ''7    h'' @ [c_backslash] @ ascii ''ni'' @ [c_nl] @
     ascii ''123  NULL'' @ [c_nl, c_nl] @ ascii ''2 rows'' @ [c_nl]"
  by code_simp

theorem table_lines_up_witness:
  "\<exists>header rule body.
    split_on c_nl (render_table plain_lib small_rows) = header # rule # body @ [[], row_count 2, []] \<and> length body = 2 \<and>
    lines_up [3, 4] [ascii ''id'', ascii ''s''] header"
proof -
  have "table_columns small_rows = [ascii ''id'', ascii ''s'']" "widths_for plain_lib small_rows = [3, 4]" by code_simp+
  moreover have "length small_rows = 2" by (simp add: small_rows_def)
  ultimately show ?thesis using table_lines_up [of small_rows plain_lib] by (auto dest!: list_all2_lengthD) 
qed

text \<open>A name is not flattened as the cells are: one with a newline takes two lines.\<close>

lemma header_newline_breaks:
  "split_on c_nl (render_table plain_lib [J_Object [([97, c_nl, 98], J_Int 1)]]) =
     [[97], [98], ascii ''---'', ascii ''1'', [], ascii ''1 row'', []]"
  by code_simp

text \<open>The last column is not padded, but the gutter before an empty last cell is written.\<close>

lemma empty_last_cell_trails:
  "split_on c_nl (render_table plain_lib [J_Object [(ascii ''a'', J_Int 1), (ascii ''b'', J_String [])]]) =
     [ascii ''a  b'', ascii ''-  -'', ascii ''1  '', [], ascii ''1 row'', []]"
  by code_simp

end
