(* ===== verification/Config.thy ===== *)
theory Config
  imports Row_Shape Rust_Path
begin

text \<open>
  What a build is told before it starts: \<open>packages/rust/src/config.rs\<close>, the entries of a configuration file and
  how several are combined; \<open>extension_resolution.rs\<close>, which file an extension is loaded from; \<open>launcher.rs\<close>,
  which files the arguments of a command line name. Reading TOML is a library: \<open>toml\<close> gives the raw entries of a
  text, or a message. A duration is counted in milliseconds.
\<close>

section \<open>Entries\<close>

record extension_spec =
  es_path :: rstr
  es_entrypoint :: "rstr option"

record function_spec =
  fs_name :: rstr
  fs_args :: "nat list"
  fs_command :: rstr
  fs_deterministic :: bool
  fs_timeout :: "nat option"
  fs_batch :: "nat option"

record table_config =
  tc_name :: rstr
  tc_ddl :: rstr
  tc_glob :: rstr
  tc_strict :: "bool option"
  tc_on_file :: rstr

record config =
  co_ignore :: "rstr list"
  co_tables :: "table_config list"
  co_extensions :: "extension_spec list"
  co_functions :: "function_spec list"

datatype config_source = From_Path rstr | From_Package rstr

fun source_text :: "config_source \<Rightarrow> rstr" where
  "source_text (From_Path path) = path"
| "source_text (From_Package name) = name"

datatype config_error =
  Config_Io rstr
| Config_Toml rstr
| Missing_Field rstr
| Missing_Extension_Field rstr
| Missing_Function_Field rstr
| Invalid_Function_Name rstr
| Empty_Function_Args rstr
| Invalid_Function_Arity rstr int
| Duplicate_Function_Arity rstr int
| Invalid_Function_Timeout rstr rstr
| Invalid_Function_Batch rstr rstr
| Empty_Field rstr
| Hookless_Table rstr
| Removed_Hook_Timeout
| No_Configs
| Config_Duplicate_Table rstr config_source config_source
| Duplicate_Function rstr config_source config_source

section \<open>Raw entries\<close>

text \<open>A value of any shape: its integer, if it is one, and its text.\<close>

record toml_value =
  tv_integer :: "int option"
  tv_text :: rstr

datatype raw_timeout = Secs int | Timeout_Text rstr

record raw_extension =
  rx_path :: "rstr option"
  rx_entrypoint :: "rstr option"

record raw_function =
  rf_name :: "rstr option"
  rf_args :: "int list option"
  rf_command :: "rstr option"
  rf_deterministic :: "bool option"
  rf_timeout :: "raw_timeout option"
  rf_batch :: "toml_value option"

record raw_table =
  rt_name :: "rstr option"
  rt_ddl :: "rstr option"
  rt_glob :: "rstr option"
  rt_strict :: "bool option"
  rt_on_file :: "rstr option"

record raw_dirsql =
  rd_ignore :: "rstr list option"
  rd_extension :: "raw_extension list option"
  rd_function :: "raw_function list option"
  rd_hook_timeout :: "toml_value option"

record raw_config =
  rc_dirsql :: "raw_dirsql option"
  rc_table :: "raw_table list option"

definition raw_dirsql_default :: raw_dirsql where
  "raw_dirsql_default = \<lparr>rd_ignore = None, rd_extension = None, rd_function = None, rd_hook_timeout = None\<rparr>"

definition or_empty :: "'a list option \<Rightarrow> 'a list" where
  "or_empty xs = (case xs of None \<Rightarrow> [] | Some ys \<Rightarrow> ys)"

text \<open>The loops collect until the first error.\<close>

fun collect_results :: "('a \<Rightarrow> 'e + 'b) \<Rightarrow> 'a list \<Rightarrow> 'e + 'b list" where
  "collect_results f [] = Inr []"
| "collect_results f (x # xs) =
     (case f x of Inl e \<Rightarrow> Inl e | Inr y \<Rightarrow> map_sum id ((#) y) (collect_results f xs))"

section \<open>Functions\<close>

definition is_valid_function_name :: "rstr \<Rightarrow> bool" where
  "is_valid_function_name name =
     (case name of
        [] \<Rightarrow> False
      | c # cs \<Rightarrow>
          (is_ascii_alphabetic c \<or> c = c_under) \<and> list_all (\<lambda>d. is_ascii_alphanumeric d \<or> d = c_under) cs)"

text \<open>\<open>str::parse\<close> for \<open>u64\<close>: digits, with a plus sign allowed.\<close>

definition parse_u64 :: "rstr \<Rightarrow> nat option" where
  "parse_u64 s =
     (let ds = (case s of c # cs \<Rightarrow> if c = c_plus then cs else s | [] \<Rightarrow> s) in
      if ds = [] \<or> \<not> list_all is_ascii_digit ds \<or> 2 ^ 64 \<le> digits_value ds then None else Some (digits_value ds))"

definition strip_end :: "rstr \<Rightarrow> rstr \<Rightarrow> rstr option" where
  "strip_end ending s = map_option rev (strip_prefix (rev ending) (rev s))"

text \<open>\<open>debug\<close> is the quoting of \<open>{:?}\<close>.\<close>

definition parse_function_timeout :: "(rstr \<Rightarrow> rstr) \<Rightarrow> rstr \<Rightarrow> raw_timeout \<Rightarrow> config_error + nat" where
  "parse_function_timeout debug name raw =
     (case raw of
        Secs secs \<Rightarrow> if 0 < secs then Inr (nat secs * 1000) else Inl (Invalid_Function_Timeout name (show_int secs))
      | Timeout_Text txt \<Rightarrow>
          (let parsed = (case strip_end (ascii ''ms'') txt of
               Some digits \<Rightarrow> Some (digits, 1)
             | None \<Rightarrow> (case strip_end (ascii ''s'') txt of Some digits \<Rightarrow> Some (digits, 1000) | None \<Rightarrow> None)) in
           case parsed of
             None \<Rightarrow> Inl (Invalid_Function_Timeout name (debug txt))
           | Some (digits, unit) \<Rightarrow>
               (case parse_u64 digits of
                  Some n \<Rightarrow> if 0 < n then Inr (n * unit) else Inl (Invalid_Function_Timeout name (debug txt))
                | None \<Rightarrow> Inl (Invalid_Function_Timeout name (debug txt)))))"

fun parse_arities :: "rstr \<Rightarrow> nat list \<Rightarrow> int list \<Rightarrow> config_error + nat list" where
  "parse_arities name seen [] = Inr (rev seen)"
| "parse_arities name seen (n # ns) =
     (if n < 0 \<or> 127 < n then Inl (Invalid_Function_Arity name n)
      else if nat n \<in> set seen then Inl (Duplicate_Function_Arity name n)
      else parse_arities name (nat n # seen) ns)"

definition parse_batch :: "rstr \<Rightarrow> toml_value \<Rightarrow> config_error + nat" where
  "parse_batch name v =
     (case tv_integer v of
        Some n \<Rightarrow> if 0 < n then Inr (nat n) else Inl (Invalid_Function_Batch name (tv_text v))
      | None \<Rightarrow> Inl (Invalid_Function_Batch name (tv_text v)))"

definition optional :: "('a \<Rightarrow> 'e + 'b) \<Rightarrow> 'a option \<Rightarrow> 'e + 'b option" where
  "optional f x = (case x of None \<Rightarrow> Inr None | Some v \<Rightarrow> map_sum id Some (f v))"

definition parse_function :: "(rstr \<Rightarrow> rstr) \<Rightarrow> raw_function \<Rightarrow> config_error + function_spec" where
  "parse_function debug raw =
     (case rf_name raw of
        None \<Rightarrow> Inl (Missing_Function_Field (ascii ''name''))
      | Some name \<Rightarrow>
     (if name = [] then Inl (Missing_Function_Field (ascii ''name''))
      else if \<not> is_valid_function_name name then Inl (Invalid_Function_Name name)
      else case rf_command raw of
        None \<Rightarrow> Inl (Missing_Function_Field (ascii ''command''))
      | Some command \<Rightarrow>
     (if trim command = [] then Inl (Missing_Function_Field (ascii ''command''))
      else case rf_args raw of
        None \<Rightarrow> Inl (Missing_Function_Field (ascii ''args''))
      | Some raw_args \<Rightarrow>
     (if raw_args = [] then Inl (Empty_Function_Args name)
      else case parse_arities name [] raw_args of
        Inl e \<Rightarrow> Inl e
      | Inr arities \<Rightarrow>
     (case optional (parse_function_timeout debug name) (rf_timeout raw) of
        Inl e \<Rightarrow> Inl e
      | Inr timeout \<Rightarrow>
     (case optional (parse_batch name) (rf_batch raw) of
        Inl e \<Rightarrow> Inl e
      | Inr batch \<Rightarrow>
          Inr \<lparr>fs_name = name, fs_args = arities, fs_command = command,
            fs_deterministic = (rf_deterministic raw = Some True), fs_timeout = timeout, fs_batch = batch\<rparr>))))))"

section \<open>A configuration\<close>

definition parse_extension :: "raw_extension \<Rightarrow> config_error + extension_spec" where
  "parse_extension raw =
     (case rx_path raw of
        None \<Rightarrow> Inl (Missing_Extension_Field (ascii ''path''))
      | Some path \<Rightarrow>
          if path = [] then Inl (Missing_Extension_Field (ascii ''path''))
          else Inr \<lparr>es_path = path, es_entrypoint = rx_entrypoint raw\<rparr>)"

definition parse_table :: "raw_table \<Rightarrow> config_error + table_config" where
  "parse_table raw =
     (case rt_name raw of
        None \<Rightarrow> Inl (Missing_Field (ascii ''name''))
      | Some name \<Rightarrow>
     (if trim name = [] then Inl (Empty_Field (ascii ''name''))
      else case rt_ddl raw of
        None \<Rightarrow> Inl (Missing_Field (ascii ''ddl''))
      | Some ddl \<Rightarrow>
     (case rt_glob raw of
        None \<Rightarrow> Inl (Missing_Field (ascii ''glob''))
      | Some glob \<Rightarrow>
     (case rt_on_file raw of
        None \<Rightarrow> Inl (Hookless_Table glob)
      | Some command \<Rightarrow>
          if trim command = [] then Inl (Empty_Field (ascii ''on-file''))
          else Inr \<lparr>tc_name = name, tc_ddl = ddl, tc_glob = glob, tc_strict = rt_strict raw, tc_on_file = command\<rparr>))))"

definition load_config_str ::
  "(rstr \<Rightarrow> rstr + raw_config) \<Rightarrow> (rstr \<Rightarrow> rstr) \<Rightarrow> rstr \<Rightarrow> config_error + config"
where
  "load_config_str toml debug content =
     (case toml content of
        Inl msg \<Rightarrow> Inl (Config_Toml msg)
      | Inr raw \<Rightarrow>
          let d = (case rc_dirsql raw of None \<Rightarrow> raw_dirsql_default | Some d \<Rightarrow> d) in
          if rd_hook_timeout d \<noteq> None then Inl Removed_Hook_Timeout
          else (case collect_results parse_extension (or_empty (rd_extension d)) of
              Inl e \<Rightarrow> Inl e
            | Inr extensions \<Rightarrow>
                (case collect_results (parse_function debug) (or_empty (rd_function d)) of
                   Inl e \<Rightarrow> Inl e
                 | Inr funs \<Rightarrow>
                     (case collect_results parse_table (or_empty (rc_table raw)) of
                        Inl e \<Rightarrow> Inl e
                      | Inr tables \<Rightarrow>
                          Inr \<lparr>co_ignore = or_empty (rd_ignore d), co_tables = tables, co_extensions = extensions,
                            co_functions = funs\<rparr>))))"

text \<open>\<open>read\<close> is \<open>read_to_string\<close>.\<close>

definition load_config ::
  "(rstr \<Rightarrow> rstr + rstr) \<Rightarrow> (rstr \<Rightarrow> rstr + raw_config) \<Rightarrow> (rstr \<Rightarrow> rstr) \<Rightarrow> rstr \<Rightarrow> config_error + config"
where
  "load_config read toml debug path =
     (case read path of Inl e \<Rightarrow> Inl (Config_Io e) | Inr content \<Rightarrow> load_config_str toml debug content)"

section \<open>Several configurations\<close>

text \<open>The inner loops: a name already declared anywhere is an error naming both sources.\<close>

fun declare_each ::
  "('a \<Rightarrow> rstr) \<Rightarrow> (rstr \<Rightarrow> config_source \<Rightarrow> config_source \<Rightarrow> config_error) \<Rightarrow> config_source \<Rightarrow> 'a list \<Rightarrow>
   (rstr \<rightharpoonup> config_source) \<Rightarrow> config_error + (rstr \<rightharpoonup> config_source)"
where
  "declare_each name_of clash source [] m = Inr m"
| "declare_each name_of clash source (x # xs) m =
     (case m (name_of x) of
        Some prior \<Rightarrow> Inl (clash (name_of x) prior source)
      | None \<Rightarrow> declare_each name_of clash source xs (m(name_of x \<mapsto> source)))"

fun merge_configs ::
  "(config_source \<times> config) list \<Rightarrow> (rstr \<rightharpoonup> config_source) \<Rightarrow> (rstr \<rightharpoonup> config_source) \<Rightarrow> config \<Rightarrow> config_error + config"
where
  "merge_configs [] ts fs acc = Inr acc"
| "merge_configs ((source, c) # rest) ts fs acc =
     (case declare_each tc_name Config_Duplicate_Table source (co_tables c) ts of
        Inl e \<Rightarrow> Inl e
      | Inr ts' \<Rightarrow>
          (case declare_each fs_name Duplicate_Function source (co_functions c) fs of
             Inl e \<Rightarrow> Inl e
           | Inr fs' \<Rightarrow>
               merge_configs rest ts' fs'
                 \<lparr>co_ignore = co_ignore acc @ co_ignore c, co_tables = co_tables acc @ co_tables c,
                  co_extensions = co_extensions acc @ co_extensions c, co_functions = co_functions acc @ co_functions c\<rparr>))"

definition combine_configs :: "(config_source \<times> config) list \<Rightarrow> config_error + config" where
  "combine_configs configs =
     (case configs of
        [] \<Rightarrow> Inl No_Configs
      | [(_, c)] \<Rightarrow> Inr c
      | _ \<Rightarrow>
          merge_configs configs Map.empty Map.empty
            \<lparr>co_ignore = [], co_tables = [], co_extensions = [], co_functions = []\<rparr>)"

section \<open>Extensions by package\<close>

datatype plan_entry = Literal rstr "rstr option" | Package rstr rstr "rstr option"

datatype select_error = Not_Found rstr "rstr list" "rstr list" | Ambiguous rstr "rstr list"

fun select_error_text :: "select_error \<Rightarrow> rstr" where
  "select_error_text (Not_Found name sfxs dirs) =
     ascii ''no loadable extension file ('' @ join (ascii '' / '') (map (\<lambda>s. c_star # s) sfxs) @
     ascii '') found in package '' @ [c_squote] @ name @ [c_squote] @ ascii '' (searched '' @ join (ascii '', '') dirs @ ascii '')''"
| "select_error_text (Ambiguous name found) =
     ascii ''multiple loadable extension files found in package '' @ [c_squote] @ name @ [c_squote] @ ascii '': '' @
     join (ascii '', '') found @ ascii ''; disambiguate with a literal path''"

definition is_bare_name :: "rstr \<Rightarrow> rstr list \<Rightarrow> bool" where
  "is_bare_name path sfxs \<longleftrightarrow>
     \<not> (c_slash \<in> set path \<or> c_backslash \<in> set path) \<and> \<not> list_ex (\<lambda>s. strip_end s path \<noteq> None) sfxs"

definition planned_entry :: "rstr list \<Rightarrow> rstr \<Rightarrow> extension_spec \<Rightarrow> plan_entry" where
  "planned_entry sfxs base es =
     (if is_bare_name (es_path es) sfxs
      then Package (es_path es) (path_join base (es_path es)) (es_entrypoint es)
      else Literal (path_join base (es_path es)) (es_entrypoint es))"

text \<open>A source is a path and its contents, if it could be read.\<close>

definition loaded_extensions ::
  "(rstr \<Rightarrow> config_error + config) \<Rightarrow> (rstr \<times> rstr option) list \<Rightarrow> (rstr \<times> extension_spec list) list"
where
  "loaded_extensions load sources =
     concat (map (\<lambda>(path, contents).
       case contents of
         None \<Rightarrow> []
       | Some content \<Rightarrow>
           (case load content of
              Inl e \<Rightarrow> []
            | Inr c \<Rightarrow> (case parent path of None \<Rightarrow> [] | Some base \<Rightarrow> [(base, co_extensions c)]))) sources)"

definition plan_config_extensions ::
  "(rstr \<Rightarrow> config_error + config) \<Rightarrow> (rstr \<times> rstr option) list \<Rightarrow> rstr list \<Rightarrow> plan_entry list option"
where
  "plan_config_extensions load sources sfxs =
     (let loaded = loaded_extensions load sources in
      if \<not> list_ex (\<lambda>es. is_bare_name (es_path es) sfxs) (concat (map snd loaded)) then None
      else Some (concat (map (\<lambda>(base, ess). map (planned_entry sfxs base) ess) loaded)))"

definition plan_extension_path :: "rstr \<Rightarrow> rstr \<Rightarrow> bool \<Rightarrow> rstr list \<Rightarrow> plan_entry" where
  "plan_extension_path path base resolve_relative sfxs =
     (if is_bare_name path sfxs then Package path (path_join base path) None
      else Literal (if resolve_relative then path_join base path else path) None)"

text \<open>\<open>rank\<close> is the order of \<open>PathBuf\<close>, which is also its equality; \<open>to_str\<close> fails on a path that is not UTF-8.\<close>

fun dedup_by :: "('a \<Rightarrow> 'k) \<Rightarrow> 'a list \<Rightarrow> 'a list" where
  "dedup_by rank (x # y # xs) = (if rank x = rank y then dedup_by rank (x # xs) else x # dedup_by rank (y # xs))"
| "dedup_by rank xs = xs"

definition is_loadable :: "(rstr \<Rightarrow> rstr option) \<Rightarrow> rstr list \<Rightarrow> rstr \<Rightarrow> bool" where
  "is_loadable to_str sfxs candidate \<longleftrightarrow>
     (case to_str candidate of None \<Rightarrow> False | Some path \<Rightarrow> list_ex (\<lambda>s. strip_end s path \<noteq> None) sfxs)"

definition select_loadable ::
  "(rstr \<Rightarrow> 'k :: linorder) \<Rightarrow> (rstr \<Rightarrow> rstr option) \<Rightarrow> rstr \<Rightarrow> rstr list \<Rightarrow> rstr list \<Rightarrow> rstr list \<Rightarrow> select_error + rstr"
where
  "select_loadable rank to_str name dirs candidates sfxs =
     (case dedup_by rank (sort_key rank (filter (is_loadable to_str sfxs) candidates)) of
        [] \<Rightarrow> Inl (Not_Found name sfxs dirs)
      | [p] \<Rightarrow> Inr p
      | ps \<Rightarrow> Inl (Ambiguous name ps))"

section \<open>The files a command line names\<close>

definition default_config_path :: rstr where
  "default_config_path = ascii ''./.dirsql.toml''"

fun named_configs :: "rstr list \<Rightarrow> rstr list" where
  "named_configs [] = []"
| "named_configs (arg # args) =
     (if arg = ascii ''--config'' \<or> arg = ascii ''-c''
      then (case args of [] \<Rightarrow> [[]] | path # rest \<Rightarrow> path # named_configs rest)
      else (case strip_prefix (ascii ''--config='') arg of
          Some path \<Rightarrow> path # named_configs args
        | None \<Rightarrow>
            (case strip_prefix (ascii ''-c'') arg of
               Some path \<Rightarrow> (case strip_prefix [c_equals] path of Some p \<Rightarrow> p | None \<Rightarrow> path) # named_configs args
             | None \<Rightarrow> named_configs args)))"

definition config_paths_from_argv :: "rstr list \<Rightarrow> rstr list" where
  "config_paths_from_argv argv =
     (if named_configs argv = [] then [default_config_path] else named_configs argv)"

section \<open>A configuration that loads is usable\<close>

text \<open>What the rest of the program relies on.\<close>

definition usable_function :: "function_spec \<Rightarrow> bool" where
  "usable_function f \<longleftrightarrow>
     is_valid_function_name (fs_name f) \<and> fs_args f \<noteq> [] \<and> distinct (fs_args f) \<and> list_all (\<lambda>n. n \<le> 127) (fs_args f) \<and>
     trim (fs_command f) \<noteq> [] \<and> fs_timeout f \<noteq> Some 0 \<and> fs_batch f \<noteq> Some 0"

definition usable_table :: "table_config \<Rightarrow> bool" where
  "usable_table t \<longleftrightarrow> trim (tc_name t) \<noteq> [] \<and> trim (tc_on_file t) \<noteq> []"

definition usable :: "config \<Rightarrow> bool" where
  "usable c \<longleftrightarrow>
     list_all usable_table (co_tables c) \<and> list_all usable_function (co_functions c) \<and>
     list_all (\<lambda>x. es_path x \<noteq> []) (co_extensions c)"

lemma collect_results_all:
  "collect_results f xs = Inr ys \<Longrightarrow> (\<And>x y. f x = Inr y \<Longrightarrow> P y) \<Longrightarrow> list_all P ys"
proof (induction xs arbitrary: ys)
  case (Cons x xs)
  then obtain y zs where "f x = Inr y" "collect_results f xs = Inr zs" "ys = y # zs"
    by (cases "f x"; cases "collect_results f xs") auto
  then show ?case using Cons by auto
qed simp

lemma parse_arities_usable:
  "parse_arities name seen ns = Inr arities \<Longrightarrow> distinct seen \<Longrightarrow> list_all (\<lambda>n. n \<le> 127) seen \<Longrightarrow>
   distinct arities \<and> list_all (\<lambda>n. n \<le> 127) arities \<and> length arities = length seen + length ns"
proof (induction ns arbitrary: seen)
  case (Cons n ns)
  then have "parse_arities name (nat n # seen) ns = Inr arities" "distinct (nat n # seen)" "list_all (\<lambda>n. n \<le> 127) (nat n # seen)"
    by (auto split: if_splits)
  from Cons.IH [OF this] show ?case by simp
qed (auto simp: list_all_iff)

lemma optional_Inr: "optional f x = Inr y \<longleftrightarrow> (case x of None \<Rightarrow> y = None | Some v \<Rightarrow> \<exists>w. f v = Inr w \<and> y = Some w)"
  by (cases x) (auto simp: optional_def map_sum_def split: sum.splits)

lemma parse_function_timeout_pos: "parse_function_timeout debug name raw = Inr ms \<Longrightarrow> 0 < ms"
  by (auto simp: parse_function_timeout_def Let_def split: raw_timeout.splits option.splits if_splits prod.splits)

lemma parse_batch_pos: "parse_batch name v = Inr n \<Longrightarrow> 0 < n"
  by (auto simp: parse_batch_def split: option.splits if_splits)

lemma parse_function_usable:
  assumes "parse_function debug raw = Inr f"
  shows "usable_function f"
proof -
  obtain name command raw_args arities timeout batch where p:
    "is_valid_function_name name" "trim command \<noteq> []" "raw_args \<noteq> []" "parse_arities name [] raw_args = Inr arities"
    "optional (parse_function_timeout debug name) (rf_timeout raw) = Inr timeout" "optional (parse_batch name) (rf_batch raw) = Inr batch"
    "f = \<lparr>fs_name = name, fs_args = arities, fs_command = command, fs_deterministic = (rf_deterministic raw = Some True),
       fs_timeout = timeout, fs_batch = batch\<rparr>"
    using assms by (auto simp: parse_function_def split: option.splits if_splits sum.splits)
  have "timeout \<noteq> Some 0" "batch \<noteq> Some 0"
    using p(5,6) parse_function_timeout_pos parse_batch_pos by (fastforce simp: optional_Inr split: option.splits)+
  then show ?thesis using p(1,2,3,7) parse_arities_usable [OF p(4)] by (auto simp: usable_function_def)
qed

text \<open>C31: A configuration that loads has only tables with a name and a command, functions with a name SQL can call, arities
  that are distinct and at most 127, a command, and a timeout and batch above zero where they are given, and
  extensions with a path.\<close>

theorem loaded_config_usable:
  assumes "load_config_str toml debug content = Inr c"
  shows "usable c"
proof -
  obtain raw where raw: "toml content = Inr raw"
    using assms by (auto simp: load_config_str_def split: sum.splits)
  define d where "d = (case rc_dirsql raw of None \<Rightarrow> raw_dirsql_default | Some d \<Rightarrow> d)"
  have step: "load_config_str toml debug content =
      (if rd_hook_timeout d \<noteq> None then Inl Removed_Hook_Timeout
       else (case collect_results parse_extension (or_empty (rd_extension d)) of
           Inl e \<Rightarrow> Inl e
         | Inr extensions \<Rightarrow>
             (case collect_results (parse_function debug) (or_empty (rd_function d)) of
                Inl e \<Rightarrow> Inl e
              | Inr fs \<Rightarrow>
                  (case collect_results parse_table (or_empty (rc_table raw)) of
                     Inl e \<Rightarrow> Inl e
                   | Inr tables \<Rightarrow> Inr \<lparr>co_ignore = or_empty (rd_ignore d), co_tables = tables, co_extensions = extensions, co_functions = fs\<rparr>))))"
    by (simp only: load_config_str_def raw sum.case Let_def d_def)
  obtain xs fs ts where l: "collect_results parse_extension (or_empty (rd_extension d)) = Inr xs"
    "collect_results (parse_function debug) (or_empty (rd_function d)) = Inr fs"
    "collect_results parse_table (or_empty (rc_table raw)) = Inr ts"
    "co_tables c = ts" "co_functions c = fs" "co_extensions c = xs"
  proof -
    have "rd_hook_timeout d = None" using assms unfolding step by (simp split: if_splits)
    note assms [unfolded step if_not_P [OF not_not [THEN iffD2, OF this]]]
    then show thesis
      by (elim case_sum_InrE) (rule that, auto)
  qed
  have "usable_table t" if "parse_table raw = Inr t" for raw t
    using that by (auto simp: parse_table_def usable_table_def split: option.splits if_splits)
  moreover have "es_path x \<noteq> []" if "parse_extension raw = Inr x" for raw x
    using that by (auto simp: parse_extension_def split: option.splits if_splits)
  ultimately have "list_all usable_table ts" "list_all (\<lambda>x. es_path x \<noteq> []) xs"
    by (blast intro: collect_results_all [OF l(3)] collect_results_all [OF l(1)])+
  moreover have "list_all usable_function fs" by (rule collect_results_all [OF l(2) parse_function_usable])
  ultimately show ?thesis by (simp add: usable_def l(4,5,6))
qed

text \<open>A configuration of one table and one function.\<close>

definition small_raw :: raw_config where
  "small_raw =
     \<lparr>rc_dirsql = Some \<lparr>rd_ignore = None, rd_extension = None,
        rd_function = Some [\<lparr>rf_name = Some [102], rf_args = Some [1, 2], rf_command = Some [119], rf_deterministic = None,
          rf_timeout = Some (Secs 5), rf_batch = Some \<lparr>tv_integer = Some 8, tv_text = [56]\<rparr>\<rparr>],
        rd_hook_timeout = None\<rparr>,
      rc_table = Some [\<lparr>rt_name = Some [116], rt_ddl = Some [], rt_glob = Some [c_star], rt_strict = None, rt_on_file = Some [99]\<rparr>]\<rparr>"

definition small_config :: config where
  "small_config =
     \<lparr>co_ignore = [],
      co_tables = [\<lparr>tc_name = [116], tc_ddl = [], tc_glob = [c_star], tc_strict = None, tc_on_file = [99]\<rparr>],
      co_extensions = [],
      co_functions = [\<lparr>fs_name = [102], fs_args = [1, 2], fs_command = [119], fs_deterministic = False, fs_timeout = Some 5000,
        fs_batch = Some 8\<rparr>]\<rparr>"

lemma small_config_loads: "load_config_str (\<lambda>_. Inr small_raw) id [] = Inr small_config"
  by (simp add: load_config_str_def small_raw_def small_config_def or_empty_def parse_function_def is_valid_function_name_def
      parse_function_timeout_def parse_batch_def optional_def parse_table_def trim_def trim_start_def trim_end_def char_defs)

theorem loaded_config_usable_witness: "usable small_config \<and> fs_timeout (hd (co_functions small_config)) = Some 5000"
  using loaded_config_usable [OF small_config_loads] by (simp add: small_config_def)

section \<open>What is combined\<close>

lemma declare_each_Inr:
  "declare_each name_of clash source xs m = Inr m' \<longleftrightarrow>
     distinct (map name_of xs) \<and> name_of ` set xs \<inter> dom m = {} \<and> m' = m ++ (\<lambda>n. if n \<in> name_of ` set xs then Some source else None)"
proof (induction xs arbitrary: m)
  case (Cons x xs)
  show ?case
  proof (cases "m (name_of x)")
    case None
    have "m(name_of x \<mapsto> source) ++ (\<lambda>n. if n \<in> name_of ` set xs then Some source else None) =
        m ++ (\<lambda>n. if n \<in> name_of ` set (x # xs) then Some source else None)"
      by (auto simp: map_add_def fun_eq_iff split: option.splits)
    then show ?thesis
      by (simp add: None Cons.IH del: fun_upd_apply) (use None in auto)
  qed (auto simp: domIff)
qed (auto simp: map_add_def fun_eq_iff)

definition all_names :: "('c \<Rightarrow> 'a list) \<Rightarrow> ('a \<Rightarrow> rstr) \<Rightarrow> (config_source \<times> 'c) list \<Rightarrow> rstr list" where
  "all_names part name_of configs = map name_of (concat (map (part \<circ> snd) configs))"

definition appended :: "config \<Rightarrow> (config_source \<times> config) list \<Rightarrow> config" where
  "appended acc configs =
     \<lparr>co_ignore = co_ignore acc @ concat (map (co_ignore \<circ> snd) configs),
      co_tables = co_tables acc @ concat (map (co_tables \<circ> snd) configs),
      co_extensions = co_extensions acc @ concat (map (co_extensions \<circ> snd) configs),
      co_functions = co_functions acc @ concat (map (co_functions \<circ> snd) configs)\<rparr>"

lemma merge_configs_Inr:
  "merge_configs configs ts fs acc = Inr c \<longleftrightarrow>
     distinct (all_names co_tables tc_name configs) \<and> set (all_names co_tables tc_name configs) \<inter> dom ts = {} \<and>
     distinct (all_names co_functions fs_name configs) \<and> set (all_names co_functions fs_name configs) \<inter> dom fs = {} \<and>
     c = appended acc configs"
proof (induction configs arbitrary: ts fs acc)
  case (Cons sc configs)
  obtain source d where sc: "sc = (source, d)" by fastforce
  have dom: "dom (m ++ (\<lambda>n. if n \<in> N then Some source else None)) = dom m \<union> N" for m :: "rstr \<rightharpoonup> config_source" and N
    by (auto simp: map_add_def split: if_splits)
  show ?case
  proof (cases "declare_each tc_name Config_Duplicate_Table source (co_tables d) ts")
    case t: (Inr ts')
    show ?thesis
    proof (cases "declare_each fs_name Duplicate_Function source (co_functions d) fs")
      case f: (Inr fs')
      have "dom ts' = dom ts \<union> tc_name ` set (co_tables d)" "dom fs' = dom fs \<union> fs_name ` set (co_functions d)"
        using t f dom by (simp_all add: declare_each_Inr)
      then have IH: "merge_configs configs ts' fs' acc' = Inr c \<longleftrightarrow>
          distinct (all_names co_tables tc_name configs) \<and>
          set (all_names co_tables tc_name configs) \<inter> (dom ts \<union> tc_name ` set (co_tables d)) = {} \<and>
          distinct (all_names co_functions fs_name configs) \<and>
          set (all_names co_functions fs_name configs) \<inter> (dom fs \<union> fs_name ` set (co_functions d)) = {} \<and> c = appended acc' configs" for acc'
        by (simp only: Cons.IH)
      have new: "distinct (map tc_name (co_tables d)) \<and> tc_name ` set (co_tables d) \<inter> dom ts = {}"
        "distinct (map fs_name (co_functions d)) \<and> fs_name ` set (co_functions d) \<inter> dom fs = {}"
        using t f by (simp_all add: declare_each_Inr)
      have names: "all_names co_tables tc_name (sc # configs) = map tc_name (co_tables d) @ all_names co_tables tc_name configs"
        "all_names co_functions fs_name (sc # configs) = map fs_name (co_functions d) @ all_names co_functions fs_name configs"
        by (simp_all add: all_names_def sc)
      have "merge_configs (sc # configs) ts fs acc = merge_configs configs ts' fs'
          \<lparr>co_ignore = co_ignore acc @ co_ignore d, co_tables = co_tables acc @ co_tables d,
           co_extensions = co_extensions acc @ co_extensions d, co_functions = co_functions acc @ co_functions d\<rparr>"
        by (simp add: sc t f)
      moreover have "appended acc (sc # configs) = appended
          \<lparr>co_ignore = co_ignore acc @ co_ignore d, co_tables = co_tables acc @ co_tables d,
           co_extensions = co_extensions acc @ co_extensions d, co_functions = co_functions acc @ co_functions d\<rparr> configs"
        by (simp add: appended_def sc)
      ultimately show ?thesis using new by (simp only: IH names distinct_append set_append set_map) auto
    next
      case f: (Inl e)
      have "\<not> (distinct (map fs_name (co_functions d)) \<and> fs_name ` set (co_functions d) \<inter> dom fs = {})"
        using f declare_each_Inr [of fs_name Duplicate_Function source "co_functions d" fs] by auto
      then show ?thesis using t f by (auto simp: sc all_names_def)
    qed
  next
    case t: (Inl e)
    have "\<not> (distinct (map tc_name (co_tables d)) \<and> tc_name ` set (co_tables d) \<inter> dom ts = {})"
      using t declare_each_Inr [of tc_name Config_Duplicate_Table source "co_tables d" ts] by auto
    then show ?thesis using t by (auto simp: sc all_names_def)
  qed
qed (auto simp: all_names_def appended_def)

text \<open>C33: Configurations combine exactly when no table name and no function name is declared twice among them, and the
  combination is their entries in order; one configuration alone is taken as it is.\<close>

theorem combine_configs_appends:
  "combine_configs configs = Inr c \<longleftrightarrow>
     (case configs of
        [] \<Rightarrow> False
      | [(_, only)] \<Rightarrow> c = only
      | _ \<Rightarrow> distinct (all_names co_tables tc_name configs) \<and> distinct (all_names co_functions fs_name configs) \<and>
          c = appended \<lparr>co_ignore = [], co_tables = [], co_extensions = [], co_functions = []\<rparr> configs)"
proof (cases configs)
  case (Cons sc rest)
  show ?thesis
  proof (cases rest)
    case Nil
    then show ?thesis using Cons by (auto simp: combine_configs_def split: prod.splits)
  next
    case (Cons b bs)
    then have "combine_configs configs = merge_configs configs Map.empty Map.empty
        \<lparr>co_ignore = [], co_tables = [], co_extensions = [], co_functions = []\<rparr>"
      using \<open>configs = sc # rest\<close> by (simp add: combine_configs_def split: prod.splits)
    then show ?thesis using Cons \<open>configs = sc # rest\<close> by (simp add: merge_configs_Inr split: prod.splits)
  qed
qed (simp add: combine_configs_def)

section \<open>The one file to load\<close>

lemma dedup_by_ranks: "rank ` set (dedup_by rank xs) = rank ` set xs \<and> set (dedup_by rank xs) \<subseteq> set xs"
  by (induction rank xs rule: dedup_by.induct) auto

text \<open>A file is selected only where every loadable candidate is that file.\<close>

lemma select_loadable_only:
  assumes "select_loadable rank to_str name dirs candidates sfxs = Inr p"
  shows "p \<in> set candidates" "is_loadable to_str sfxs p"
    "list_all (\<lambda>q. is_loadable to_str sfxs q \<longrightarrow> rank q = rank p) candidates"
proof -
  let ?found = "filter (is_loadable to_str sfxs) candidates"
  have d: "dedup_by rank (sort_key rank ?found) = [p]"
    using assms by (auto simp: select_loadable_def split: list.splits)
  have ranks: "rank ` set ?found = {rank p}" "p \<in> set ?found"
    using dedup_by_ranks [of rank "sort_key rank ?found"] unfolding d by auto
  then show "p \<in> set candidates" "is_loadable to_str sfxs p" by auto
  show "list_all (\<lambda>q. is_loadable to_str sfxs q \<longrightarrow> rank q = rank p) candidates"
    using ranks(1) by (auto simp: list_all_iff image_def)
qed

text \<open>No entry is lost where the launcher takes the extensions over, and it does so exactly when some entry names a
  package.\<close>

lemma plan_config_extensions_all:
  "plan_config_extensions load sources sfxs = Some plan \<Longrightarrow>
     length plan = length (concat (map snd (loaded_extensions load sources))) \<and>
     (\<exists>name shadow entry. Package name shadow entry \<in> set plan)"
proof -
  assume "plan_config_extensions load sources sfxs = Some plan"
  then have plan: "list_ex (\<lambda>es. is_bare_name (es_path es) sfxs) (concat (map snd (loaded_extensions load sources)))"
    "plan = concat (map (\<lambda>(base, ess). map (planned_entry sfxs base) ess) (loaded_extensions load sources))"
    by (auto simp: plan_config_extensions_def Let_def split: if_splits)
  have "length plan = length (concat (map snd (loaded_extensions load sources)))"
    by (simp add: plan(2) length_concat o_def split_beta)
  moreover obtain base ess es where "(base, ess) \<in> set (loaded_extensions load sources)" "es \<in> set ess" "is_bare_name (es_path es) sfxs"
    using plan(1) by (auto simp: list_ex_iff)
  then have "Package (es_path es) (path_join base (es_path es)) (es_entrypoint es) \<in> set plan"
    unfolding plan(2) by (auto simp: planned_entry_def intro!: bexI [of _ "(base, ess)"] image_eqI [of _ _ es])
  ultimately show ?thesis by blast
qed

end
