(* ===== verification/Builder.thy ===== *)
theory Builder
  imports Config Ingest Path_Table On_File Query_Prepare
begin

text \<open>
  The builder of \<open>packages/rust/src/lib.rs\<close>: what its methods set, and \<open>resolve\<close>, which reads the configuration
  files and makes the inputs of a build. The working directory, \<open>std::path::absolute\<close> and the loading of a file are
  parameters, and so is \<open>run_on_files\<close>, the command run as a hook. A duration is counted in milliseconds.
\<close>

section \<open>The builder\<close>

record builder =
  bu_root :: "rstr option"
  bu_tables :: "table_decl list"
  bu_ignore :: "rstr list"
  bu_extensions :: "extension_spec list"
  bu_config_paths :: "rstr list"
  bu_suppress_config_extensions :: bool
  bu_persist :: bool
  bu_persist_path :: "rstr option"
  bu_poll_interval :: "nat option"
  bu_path_table_parser :: "rstr option"
  bu_no_ignore :: bool

definition builder_default :: builder where
  "builder_default =
     \<lparr>bu_root = None, bu_tables = [], bu_ignore = [], bu_extensions = [], bu_config_paths = [],
      bu_suppress_config_extensions = False, bu_persist = False, bu_persist_path = None, bu_poll_interval = None,
      bu_path_table_parser = None, bu_no_ignore = False\<rparr>"

definition with_root :: "rstr \<Rightarrow> builder \<Rightarrow> builder" where
  "with_root root b = b\<lparr>bu_root := Some root\<rparr>"

definition with_tables :: "table_decl list \<Rightarrow> builder \<Rightarrow> builder" where
  "with_tables tables b = b\<lparr>bu_tables := tables\<rparr>"

definition with_table :: "table_decl \<Rightarrow> builder \<Rightarrow> builder" where
  "with_table table b = b\<lparr>bu_tables := bu_tables b @ [table]\<rparr>"

definition with_ignore :: "rstr list \<Rightarrow> builder \<Rightarrow> builder" where
  "with_ignore ignore b = b\<lparr>bu_ignore := ignore\<rparr>"

definition with_extension :: "extension_spec \<Rightarrow> builder \<Rightarrow> builder" where
  "with_extension x b = b\<lparr>bu_extensions := bu_extensions b @ [x]\<rparr>"

definition with_extensions :: "extension_spec list \<Rightarrow> builder \<Rightarrow> builder" where
  "with_extensions xs b = b\<lparr>bu_extensions := xs\<rparr>"

definition with_config :: "rstr \<Rightarrow> builder \<Rightarrow> builder" where
  "with_config path b = b\<lparr>bu_config_paths := bu_config_paths b @ [path]\<rparr>"

definition with_suppress :: "bool \<Rightarrow> builder \<Rightarrow> builder" where
  "with_suppress suppress b = b\<lparr>bu_suppress_config_extensions := suppress\<rparr>"

definition with_persist :: "rstr option \<Rightarrow> builder \<Rightarrow> builder" where
  "with_persist path b =
     (let b = b\<lparr>bu_persist := True\<rparr> in case path of None \<Rightarrow> b | Some p \<Rightarrow> b\<lparr>bu_persist_path := Some p\<rparr>)"

definition with_poll_interval :: "nat \<Rightarrow> builder \<Rightarrow> builder" where
  "with_poll_interval ms b = b\<lparr>bu_poll_interval := Some ms\<rparr>"

definition with_parser :: "rstr \<Rightarrow> builder \<Rightarrow> builder" where
  "with_parser command b = b\<lparr>bu_path_table_parser := Some command\<rparr>"

definition with_no_ignore :: "bool \<Rightarrow> builder \<Rightarrow> builder" where
  "with_no_ignore no_ignore b = b\<lparr>bu_no_ignore := no_ignore\<rparr>"

section \<open>What it resolves to\<close>

record resolved_function =
  rn_name :: rstr
  rn_args :: "nat list"
  rn_command :: rstr
  rn_deterministic :: bool
  rn_timeout :: nat
  rn_batch :: "nat option"
  rn_cwd :: rstr

record resolved_inputs = resolved_build +
  rv_extensions :: "extension_spec list"
  rv_functions :: "resolved_function list"
  rv_persist_path :: "rstr option"
  rv_poll_interval :: nat
  rv_hint_legacy :: bool
  rv_parser :: "rstr option"

datatype builder_error =
  Of_Config config_error
| Of_Io rstr
| Of_Core db_error
| Path_Placeholder rstr

record builder_env =
  ev_current_dir :: "rstr + rstr"
  ev_absolute :: "rstr \<Rightarrow> rstr + rstr"
  ev_load :: "rstr \<Rightarrow> config_error + config"
  ev_syntax :: path_syntax
  ev_home :: "rstr option"
  ev_debug :: "rstr \<Rightarrow> rstr"
  ev_run_on_files :: "rstr \<Rightarrow> rstr \<Rightarrow> rstr \<Rightarrow> hook"

definition default_poll_interval :: nat where
  "default_poll_interval = 200"

definition default_function_timeout :: nat where
  "default_function_timeout = 30 * 1000"

definition is_configless :: "rstr list \<Rightarrow> table_decl list \<Rightarrow> bool" where
  "is_configless config_paths tables \<longleftrightarrow> config_paths = [] \<and> tables = []"

definition resolved_function_of :: "rstr \<Rightarrow> function_spec \<Rightarrow> resolved_function" where
  "resolved_function_of cfg_dir f =
     \<lparr>rn_name = fs_name f, rn_args = fs_args f, rn_command = fs_command f, rn_deterministic = fs_deterministic f,
      rn_timeout = (case fs_timeout f of None \<Rightarrow> default_function_timeout | Some ms \<Rightarrow> ms), rn_batch = fs_batch f, rn_cwd = cfg_dir\<rparr>"

fun resolve_functions ::
  "function_spec list \<Rightarrow> rstr \<Rightarrow> rstr \<Rightarrow> (rstr \<rightharpoonup> rstr) \<Rightarrow> resolved_function list \<Rightarrow>
   config_error + (rstr \<rightharpoonup> rstr) \<times> resolved_function list"
where
  "resolve_functions [] cfg_path cfg_dir sources out = Inr (sources, out)"
| "resolve_functions (f # fs) cfg_path cfg_dir sources out =
     (case sources (fs_name f) of
        Some prior \<Rightarrow> Inl (Duplicate_Function (fs_name f) (From_Path prior) (From_Path cfg_path))
      | None \<Rightarrow>
          resolve_functions fs cfg_path cfg_dir (sources(fs_name f \<mapsto> cfg_path)) (out @ [resolved_function_of cfg_dir f]))"

definition table_from_config :: "builder_env \<Rightarrow> config \<Rightarrow> rstr \<Rightarrow> table_config \<Rightarrow> builder_error + table_decl" where
  "table_from_config ev cfg config_dir tc =
     (case path_placeholder_rejection (tc_on_file tc) of
        Some message \<Rightarrow> Inl (Path_Placeholder message)
      | None \<Rightarrow>
          (case config_anchor_as (ev_syntax ev) (tc_glob tc) config_dir (ev_home ev) of
             None \<Rightarrow> Inl (Of_Core (db_error.Path_Table (no_home_path_table (ev_debug ev) (tc_glob tc))))
           | Some (anchor, glob) \<Rightarrow>
               Inr \<lparr>td_name = tc_name tc, td_ddl = tc_ddl tc, td_glob = glob, td_strict = (tc_strict tc = Some True),
                 td_hook = ev_run_on_files ev (tc_on_file tc) config_dir anchor, td_anchor = Some anchor,
                 td_ignore = co_ignore cfg, td_warn_when_empty = True\<rparr>))"

definition build_tables_from_config :: "builder_env \<Rightarrow> config \<Rightarrow> rstr \<Rightarrow> builder_error + table_decl list" where
  "build_tables_from_config ev cfg config_dir = collect_results (table_from_config ev cfg config_dir) (co_tables cfg)"

text \<open>The first loop: the files in order, each loaded, with its directory, and its functions declared.\<close>

fun load_entries ::
  "builder_env \<Rightarrow> rstr list \<Rightarrow> (rstr \<rightharpoonup> rstr) \<Rightarrow> resolved_function list \<Rightarrow>
   builder_error + (config \<times> rstr) list \<times> resolved_function list"
where
  "load_entries ev [] sources out = Inr ([], out)"
| "load_entries ev (path # paths) sources out =
     (case ev_load ev path of
        Inl e \<Rightarrow> Inl (Of_Config e)
      | Inr cfg \<Rightarrow>
          (case ev_absolute ev path of
             Inl e \<Rightarrow> Inl (Of_Io e)
           | Inr absolute \<Rightarrow>
               let cfg_dir = (case parent absolute of None \<Rightarrow> ascii ''.'' | Some d \<Rightarrow> d) in
               (case resolve_functions (co_functions cfg) path cfg_dir sources out of
                  Inl e \<Rightarrow> Inl (Of_Config e)
                | Inr (sources', out') \<Rightarrow>
                    map_sum id (apfst ((#) (cfg, cfg_dir))) (load_entries ev paths sources' out'))))"

text \<open>The second: their tables and their extensions, by absolute path.\<close>

definition config_extensions :: "config \<Rightarrow> rstr \<Rightarrow> extension_spec list" where
  "config_extensions cfg cfg_dir = map (\<lambda>x. x\<lparr>es_path := path_join cfg_dir (es_path x)\<rparr>) (co_extensions cfg)"

fun merge_entries ::
  "builder_env \<Rightarrow> bool \<Rightarrow> (config \<times> rstr) list \<Rightarrow> table_decl list \<Rightarrow> extension_spec list \<Rightarrow>
   builder_error + table_decl list \<times> extension_spec list"
where
  "merge_entries ev suppress [] tables extensions = Inr (tables, extensions)"
| "merge_entries ev suppress ((cfg, cfg_dir) # entries) tables extensions =
     (case build_tables_from_config ev cfg cfg_dir of
        Inl e \<Rightarrow> Inl e
      | Inr ts \<Rightarrow>
          merge_entries ev suppress entries (tables @ ts)
            (if suppress then extensions else extensions @ config_extensions cfg cfg_dir))"

definition resolve :: "builder_env \<Rightarrow> builder \<Rightarrow> builder_error + resolved_inputs" where
  "resolve ev b =
     (case (case bu_root b of Some explicit \<Rightarrow> ev_absolute ev explicit | None \<Rightarrow> ev_current_dir ev) of
        Inl e \<Rightarrow> Inl (Of_Io e)
      | Inr root \<Rightarrow>
     (case load_entries ev (bu_config_paths b) Map.empty [] of
        Inl e \<Rightarrow> Inl e
      | Inr (entries, fs) \<Rightarrow>
     (case merge_entries ev (bu_suppress_config_extensions b) entries (bu_tables b) (bu_extensions b) of
        Inl e \<Rightarrow> Inl e
      | Inr (tables, extensions) \<Rightarrow>
     (case Option.bind (bu_path_table_parser b) path_placeholder_rejection of
        Some message \<Rightarrow> Inl (Path_Placeholder message)
      | None \<Rightarrow>
          Inr \<lparr>rs_root = root, rs_tables = tables, rs_ignore = bu_ignore b, rs_persist = bu_persist b,
            rs_no_ignore = bu_no_ignore b, rv_extensions = extensions, rv_functions = fs,
            rv_persist_path = bu_persist_path b,
            rv_poll_interval = (case bu_poll_interval b of None \<Rightarrow> default_poll_interval | Some ms \<Rightarrow> ms),
            rv_hint_legacy = is_configless (bu_config_paths b) tables, rv_parser = bu_path_table_parser b\<rparr>))))"

text \<open>\<open>configure_db_paths\<close>: what the connection of a build is told of path-tables.\<close>

definition configure_db_paths :: "resolved_inputs \<Rightarrow> settings \<Rightarrow> settings" where
  "configure_db_paths rv se =
     \<lparr>se_root = Some (rs_root rv), se_hint_legacy = rv_hint_legacy rv, se_ignore = se_ignore se @ rs_ignore rv,
      se_gitignore = (\<not> rs_no_ignore rv), se_parser = (case rv_parser rv of None \<Rightarrow> se_parser se | Some command \<Rightarrow> Some command)\<rparr>"

section \<open>What resolve reads\<close>

text \<open>A configuration file read: its path, what it holds and the directory it is in.\<close>

record read_config =
  rg_path :: rstr
  rg_config :: config
  rg_dir :: rstr

definition reads_config :: "builder_env \<Rightarrow> read_config \<Rightarrow> bool" where
  "reads_config ev rg \<longleftrightarrow>
     ev_load ev (rg_path rg) = Inr (rg_config rg) \<and>
     (\<exists>absolute. ev_absolute ev (rg_path rg) = Inr absolute \<and>
       rg_dir rg = (case parent absolute of None \<Rightarrow> ascii ''.'' | Some d \<Rightarrow> d))"

lemma resolve_functions_Inr:
  assumes "resolve_functions fs cfg_path cfg_dir sources out = Inr (sources', out')"
  shows "out' = out @ map (resolved_function_of cfg_dir) fs \<and> distinct (map fs_name fs) \<and> fs_name ` set fs \<inter> dom sources = {} \<and>
    dom sources' = dom sources \<union> fs_name ` set fs"
  using assms
proof (induction fs arbitrary: sources out)
  case (Cons f fs)
  then have new: "sources (fs_name f) = None"
    and rest: "resolve_functions fs cfg_path cfg_dir (sources(fs_name f \<mapsto> cfg_path)) (out @ [resolved_function_of cfg_dir f]) = Inr (sources', out')"
    by (auto split: option.splits)
  from Cons.IH [OF rest] new show ?case by auto
qed simp

lemma load_entries_Inr:
  assumes "load_entries ev paths sources out = Inr (entries, out')"
  shows "\<exists>rgs. map rg_path rgs = paths \<and> list_all (reads_config ev) rgs \<and> entries = map (\<lambda>rg. (rg_config rg, rg_dir rg)) rgs \<and>
    out' = out @ concat (map (\<lambda>rg. map (resolved_function_of (rg_dir rg)) (co_functions (rg_config rg))) rgs) \<and>
    distinct (map fs_name (concat (map (co_functions \<circ> rg_config) rgs))) \<and>
    fs_name ` set (concat (map (co_functions \<circ> rg_config) rgs)) \<inter> dom sources = {}"
  using assms
proof (induction paths arbitrary: sources out entries)
  case (Cons path paths)
  obtain cfg where cfg: "ev_load ev path = Inr cfg" using Cons.prems by (cases "ev_load ev path") auto
  obtain ab where ab: "ev_absolute ev path = Inr ab" using Cons.prems cfg by (cases "ev_absolute ev path") auto
  define dir where "dir = (case parent ab of None \<Rightarrow> ascii ''.'' | Some d \<Rightarrow> d)"
  obtain sources1 out1 where r: "resolve_functions (co_functions cfg) path dir sources out = Inr (sources1, out1)"
    using Cons.prems cfg ab by (cases "resolve_functions (co_functions cfg) path dir sources out") (auto simp: dir_def [symmetric] Let_def)
  obtain entries1 where rest: "load_entries ev paths sources1 out1 = Inr (entries1, out')" "entries = (cfg, dir) # entries1"
    using Cons.prems cfg ab r by (cases "load_entries ev paths sources1 out1") (auto simp: dir_def [symmetric] Let_def)
  obtain rgs where rgs: "map rg_path rgs = paths" "list_all (reads_config ev) rgs"
    "entries1 = map (\<lambda>rg. (rg_config rg, rg_dir rg)) rgs"
    "out' = out1 @ concat (map (\<lambda>rg. map (resolved_function_of (rg_dir rg)) (co_functions (rg_config rg))) rgs)"
    "distinct (map fs_name (concat (map (co_functions \<circ> rg_config) rgs)))"
    "fs_name ` set (concat (map (co_functions \<circ> rg_config) rgs)) \<inter> dom sources1 = {}"
    using Cons.IH [OF rest(1)] by blast
  note f = resolve_functions_Inr [OF r]
  let ?rg = "\<lparr>rg_path = path, rg_config = cfg, rg_dir = dir\<rparr>"
  have "reads_config ev ?rg" using cfg ab by (simp add: reads_config_def dir_def)
  moreover have "fs_name ` set (concat (map (co_functions \<circ> rg_config) (?rg # rgs))) \<inter> dom sources = {}"
    using f rgs(6) by auto
  moreover have "distinct (map fs_name (concat (map (co_functions \<circ> rg_config) (?rg # rgs))))"
    using f rgs(5,6) by auto
  ultimately show ?case using rgs(1-4) rest(2) f by (intro exI [of _ "?rg # rgs"]) (simp add: o_def)
qed (auto intro!: exI [of _ "[]"])

lemma merge_entries_Inr:
  assumes "merge_entries ev suppress entries tables extensions = Inr (tables', extensions')"
  shows "\<exists>tss. list_all2 (\<lambda>(cfg, dir) ts. build_tables_from_config ev cfg dir = Inr ts) entries tss \<and> tables' = tables @ concat tss \<and>
    extensions' = extensions @ (if suppress then [] else concat (map (\<lambda>(cfg, dir). config_extensions cfg dir) entries))"
  using assms
proof (induction entries arbitrary: tables extensions)
  case (Cons e entries)
  obtain cfg dir where e: "e = (cfg, dir)" by fastforce
  obtain ts where ts: "build_tables_from_config ev cfg dir = Inr ts"
    using Cons.prems e by (cases "build_tables_from_config ev cfg dir") auto
  obtain tss where "list_all2 (\<lambda>(cfg, dir) ts. build_tables_from_config ev cfg dir = Inr ts) entries tss"
    "tables' = (tables @ ts) @ concat tss"
    "extensions' = (if suppress then extensions else extensions @ config_extensions cfg dir) @
       (if suppress then [] else concat (map (\<lambda>(cfg, dir). config_extensions cfg dir) entries))"
    using Cons.IH Cons.prems e ts by fastforce
  then show ?case using e ts by (intro exI [of _ "ts # tss"]) simp
qed auto

text \<open>C32: A builder that resolves has read its configuration files in order: the tables are the given ones and then each
  file's, made from its own directory, the functions are each file's, run from its own directory and no name declared
  twice, and the extensions are the given ones and then, unless they are suppressed, each file's. The root is the
  one given or the working directory, whatever the files are.\<close>

theorem resolve_reads_configs:
  assumes "resolve ev b = Inr rv"
  shows "\<exists>rgs tss. map rg_path rgs = bu_config_paths b \<and> list_all (reads_config ev) rgs \<and>
    list_all2 (\<lambda>rg ts. build_tables_from_config ev (rg_config rg) (rg_dir rg) = Inr ts) rgs tss \<and>
    rs_tables rv = bu_tables b @ concat tss \<and>
    rv_functions rv = concat (map (\<lambda>rg. map (resolved_function_of (rg_dir rg)) (co_functions (rg_config rg))) rgs) \<and>
    distinct (map rn_name (rv_functions rv)) \<and>
    rv_extensions rv = bu_extensions b @
      (if bu_suppress_config_extensions b then [] else concat (map (\<lambda>rg. config_extensions (rg_config rg) (rg_dir rg)) rgs)) \<and>
    (case bu_root b of Some explicit \<Rightarrow> ev_absolute ev explicit | None \<Rightarrow> ev_current_dir ev) = Inr (rs_root rv)"
proof -
  obtain root where root: "(case bu_root b of Some explicit \<Rightarrow> ev_absolute ev explicit | None \<Rightarrow> ev_current_dir ev) = Inr root"
    using assms by (auto simp: resolve_def split: sum.splits)
  obtain entries fs where l: "load_entries ev (bu_config_paths b) Map.empty [] = Inr (entries, fs)"
    using assms by (auto simp: resolve_def root split: sum.splits)
  obtain tables xs where m: "merge_entries ev (bu_suppress_config_extensions b) entries (bu_tables b) (bu_extensions b) = Inr (tables, xs)"
    using assms by (auto simp: resolve_def root l split: sum.splits)
  have rv: "rs_tables rv = tables" "rv_functions rv = fs" "rv_extensions rv = xs" "rs_root rv = root"
    using assms by (auto simp: resolve_def root l m split: option.splits)
  obtain rgs where rgs: "map rg_path rgs = bu_config_paths b" "list_all (reads_config ev) rgs"
    "entries = map (\<lambda>rg. (rg_config rg, rg_dir rg)) rgs"
    "fs = concat (map (\<lambda>rg. map (resolved_function_of (rg_dir rg)) (co_functions (rg_config rg))) rgs)"
    "distinct (map fs_name (concat (map (co_functions \<circ> rg_config) rgs)))"
    using load_entries_Inr [OF l] by auto
  obtain tss where tss: "list_all2 (\<lambda>rg ts. build_tables_from_config ev (rg_config rg) (rg_dir rg) = Inr ts) rgs tss"
    "tables = bu_tables b @ concat tss"
    "xs = bu_extensions b @ (if bu_suppress_config_extensions b then [] else concat (map (\<lambda>rg. config_extensions (rg_config rg) (rg_dir rg)) rgs))"
    using merge_entries_Inr [OF m] rgs(3) by (auto simp: list_all2_map1 o_def)
  have "map rn_name fs = map fs_name (concat (map (co_functions \<circ> rg_config) rgs))"
    by (simp add: rgs(4) map_concat o_def resolved_function_of_def)
  then show ?thesis using root rgs tss rv by (intro exI [of _ rgs] exI [of _ tss]) simp
qed

text \<open>A builder given one configuration file.\<close>

definition small_env :: builder_env where
  "small_env =
     \<lparr>ev_current_dir = Inr [c_slash], ev_absolute = (\<lambda>p. Inr (c_slash # p)), ev_load = (\<lambda>_. Inr small_config),
      ev_syntax = unix_syntax \<lparr>tp_components = (\<lambda>_. []), tp_push = path_join, tp_file_name = (\<lambda>_. None), tp_parent = (\<lambda>_. None), tp_has_root = (\<lambda>_. False)\<rparr>,
      ev_home = None, ev_debug = id, ev_run_on_files = (\<lambda>_ _ _. Per_File (\<lambda>_ _. Inr []))\<rparr>"

definition small_inputs :: resolved_inputs where
  "small_inputs =
     \<lparr>rs_root = [c_slash],
      rs_tables = [\<lparr>td_name = [116], td_ddl = [], td_glob = [c_star], td_strict = False, td_hook = Per_File (\<lambda>_ _. Inr []),
        td_anchor = Some [c_slash], td_ignore = [], td_warn_when_empty = True\<rparr>],
      rs_ignore = [], rs_persist = False, rs_no_ignore = False, rv_extensions = [],
      rv_functions = [\<lparr>rn_name = [102], rn_args = [1, 2], rn_command = [119], rn_deterministic = False, rn_timeout = 5000,
        rn_batch = Some 8, rn_cwd = [c_slash]\<rparr>],
      rv_persist_path = None, rv_poll_interval = 200, rv_hint_legacy = False, rv_parser = None\<rparr>"

lemma small_resolves: "resolve small_env (with_config [99] builder_default) = Inr small_inputs"
proof -
  have p: "parent [c_slash, 99] = Some [c_slash]" by code_simp
  have t: "build_tables_from_config small_env small_config [c_slash] = Inr (rs_tables small_inputs)"
    by (simp add: build_tables_from_config_def table_from_config_def small_env_def small_config_def small_inputs_def config_anchor_as_def
        absolute_target_def unix_syntax_def strip_prefix_def path_placeholder_rejection_def contains_def path_placeholder_def)
  have l: "load_entries small_env [[99]] Map.empty [] = Inr ([(small_config, [c_slash])], rv_functions small_inputs)"
    by (simp add: small_env_def small_config_def small_inputs_def p resolved_function_of_def Let_def)
  have m: "merge_entries small_env False [(small_config, [c_slash])] [] [] = Inr (rs_tables small_inputs, [])"
    by (simp add: t) (simp add: config_extensions_def small_config_def)
  have "ev_current_dir small_env = Inr [c_slash]" by (simp add: small_env_def)
  with l m show ?thesis
    by (simp add: resolve_def with_config_def builder_default_def)
      (simp add: small_inputs_def is_configless_def default_poll_interval_def)
qed

theorem resolve_reads_configs_witness:
  "distinct (map rn_name (rv_functions small_inputs)) \<and> map td_name (rs_tables small_inputs) = [[116]]"
  using resolve_reads_configs [OF small_resolves] by (auto simp: small_inputs_def)

section \<open>Where the code is not what its comments say\<close>

text \<open>The name of a function declared twice is refused only where the two spellings agree in case, which SQLite
  folds: the second declaration takes the place of the first.\<close>

lemma resolve_functions_folds_no_case:
  "let f = \<lparr>fs_name = ascii ''score'', fs_args = [1], fs_command = ascii ''a'', fs_deterministic = False, fs_timeout = None, fs_batch = None\<rparr>;
       g = f\<lparr>fs_name := ascii ''SCORE'', fs_command := ascii ''b''\<rparr> in
     eq_ignore_ascii_case (fs_name f) (fs_name g) \<and>
     isl (resolve_functions [f, f] (ascii ''c'') [] Map.empty []) \<and>
     resolve_functions [f, g] (ascii ''c'') [] Map.empty [] =
       Inr ([ascii ''score'' \<mapsto> ascii ''c'', ascii ''SCORE'' \<mapsto> ascii ''c''], map (resolved_function_of []) [f, g])"
  by (simp add: eq_ignore_ascii_case_def to_ascii_lowercase_def is_ascii_uppercase_def fun_upd_twist)

text \<open>A configured glob that is the root directory has no anchor, and is told that \<open>~\<close> has no home, although the home
  is known.\<close>

lemma root_glob_blames_home:
  assumes "tp_components ops [c_slash] = [\<lparr>cp_kind = Root_Comp, cp_text = [c_slash]\<rparr>]" "tp_file_name ops (normalize (unix_syntax ops) [c_slash]) = None"
    "split_at_first_glob (unix_syntax ops) (normalize (unix_syntax ops) [c_slash]) = (normalize (unix_syntax ops) [c_slash], [])"
  shows "config_anchor_as (unix_syntax ops) [c_slash] dir (Some home) = None"
  using assms by (simp add: config_anchor_as_def absolute_target_def unix_syntax_def strip_prefix_def)

end
