(* ===== verification/Command_Line.thy ===== *)
theory Command_Line
  imports Result_Table Builder
begin

text \<open>
  How the command line runs statements: \<open>packages/rust/src/cli/run.rs\<close>, the one-shot query and the index it builds
  from its flags, and \<open>cli/repl.rs\<close>, the session that reads statements until their end. The parsing of flags, the
  line editor and the terminal are libraries: a session is the entries read, each an error or what it ended with,
  and a sink takes what is written or fails.
\<close>

section \<open>Formats\<close>

datatype row_format = Auto | As_Table | As_Json

definition format_resolve :: "row_format \<Rightarrow> bool \<Rightarrow> row_format" where
  "format_resolve fmt stdout_is_terminal =
     (case fmt of Auto \<Rightarrow> if stdout_is_terminal then As_Table else As_Json | settled \<Rightarrow> settled)"

definition render_rows :: "json_lib \<Rightarrow> jvalue \<Rightarrow> row_format \<Rightarrow> bytes" where
  "render_rows lib v fmt =
     (case fmt of
        As_Table \<Rightarrow> utf8 (render_table lib (case v of J_Array vs \<Rightarrow> vs | _ \<Rightarrow> []))
      | _ \<Rightarrow> jtext lib v @ [c_nl])"

text \<open>The body of a request: the string that is written.\<close>

definition query_body :: "json_lib \<Rightarrow> rstr \<Rightarrow> rstr" where
  "query_body lib sql = from_utf8_lossy (jtext lib (J_Object [(ascii ''sql'', J_String sql)]))"

section \<open>The index of a command\<close>

definition resolve_on_file :: "rstr list \<Rightarrow> rstr + rstr option" where
  "resolve_on_file occurrences =
     (case occurrences of
        [] \<Rightarrow> Inr None
      | [command] \<Rightarrow>
          if trim command = [] then Inl (ascii ''--on-file needs a non-empty command'') else Inr (Some command)
      | _ \<Rightarrow> Inl (ascii ''--on-file may be given at most once; it applies to every path-table in the query. For per-table parsers, define tables in a config file with an `on-file` key and pass it with -c.''))"

record config_args =
  ca_config :: "rstr list"
  ca_extension :: "rstr list"
  ca_persist :: "rstr option option"
  ca_no_ignore :: bool

definition apply_index_flags :: "config_args \<Rightarrow> builder \<Rightarrow> builder" where
  "apply_index_flags ca b =
     with_no_ignore (ca_no_ignore ca) (case ca_persist ca of None \<Rightarrow> b | Some path \<Rightarrow> with_persist path b)"

definition parse_extension_specs :: "rstr list \<Rightarrow> extension_spec list" where
  "parse_extension_specs specs =
     map (\<lambda>spec. case split_once (ascii ''::'') spec of
        Some (path, entrypoint) \<Rightarrow> \<lparr>es_path = path, es_entrypoint = Some entrypoint\<rparr>
      | None \<Rightarrow> \<lparr>es_path = spec, es_entrypoint = None\<rparr>) specs"

definition attach_parser :: "rstr option \<Rightarrow> builder \<Rightarrow> builder" where
  "attach_parser parser b = (case parser of None \<Rightarrow> b | Some command \<Rightarrow> with_parser command b)"

definition built_state :: "rstr \<Rightarrow> rstr + 'd \<Rightarrow> 'd app_state" where
  "built_state failed outcome = (case outcome of Inr d \<Rightarrow> Ready d | Inl e \<Rightarrow> Not_Ready (failed @ e))"

definition load_configless_state ::
  "(rstr \<Rightarrow> rstr + rstr) \<Rightarrow> (builder \<Rightarrow> rstr + 'd) \<Rightarrow> config_args \<Rightarrow> rstr option \<Rightarrow> 'd app_state"
where
  "load_configless_state canonicalize build ca parser =
     (case canonicalize (ascii ''.'') of
        Inl e \<Rightarrow> Not_Ready (ascii ''failed to resolve current directory: '' @ e)
      | Inr root \<Rightarrow>
          built_state (ascii ''failed to build the index: '') (build
            (attach_parser parser
              (with_extensions (parse_extension_specs (ca_extension ca)) (apply_index_flags ca (with_root root builder_default))))))"

text \<open>The loop over the files named, each made absolute.\<close>

fun name_configs :: "(rstr \<Rightarrow> rstr + rstr) \<Rightarrow> rstr list \<Rightarrow> builder \<Rightarrow> rstr + builder" where
  "name_configs canonicalize [] b = Inr b"
| "name_configs canonicalize (path # paths) b =
     (case canonicalize path of
        Inl e \<Rightarrow> Inl (ascii ''failed to resolve '' @ path @ ascii '': '' @ e)
      | Inr resolved \<Rightarrow> name_configs canonicalize paths (with_config resolved b))"

definition load_state ::
  "(rstr \<Rightarrow> rstr + rstr) \<Rightarrow> (builder \<Rightarrow> rstr + 'd) \<Rightarrow> config_args \<Rightarrow> rstr option \<Rightarrow> 'd app_state"
where
  "load_state canonicalize build ca parser =
     (if ca_config ca = [] then load_configless_state canonicalize build ca parser
      else case name_configs canonicalize (ca_config ca) builder_default of
        Inl reason \<Rightarrow> Not_Ready reason
      | Inr b \<Rightarrow>
          let b' = (if ca_extension ca \<noteq> []
                then with_suppress True (with_extensions (parse_extension_specs (ca_extension ca)) b) else b) in
          built_state (ascii ''failed to load config: '') (build (attach_parser parser (apply_index_flags ca b'))))"

section \<open>One statement\<close>

text \<open>What is printed of a query: its rows are written as they come unless they are laid out as a table.\<close>

definition printed_query :: "('d, 'r) pipeline \<Rightarrow> row_format \<Rightarrow> 'd app_state \<Rightarrow> rstr \<Rightarrow> query_failure + bytes" where
  "printed_query pl fmt state sql =
     (case fmt of
        As_Table \<Rightarrow> map_sum id (\<lambda>v. render_rows (pl_json pl) v fmt) (execute_query pl state (query_body (pl_json pl) sql))
      | _ \<Rightarrow> execute_query_json pl state (query_body (pl_json pl) sql))"

record query_args =
  qa_sql :: rstr
  qa_on_file :: "rstr list"
  qa_format :: row_format
  qa_common :: config_args

record ('d, 'r) command_env =
  ce_canonicalize :: "rstr \<Rightarrow> rstr + rstr"
  ce_build :: "builder \<Rightarrow> rstr + 'd"
  ce_without_fresh_reads :: "'d \<Rightarrow> 'd"
  ce_stdout_is_terminal :: bool
  ce_debug :: "nat \<Rightarrow> rstr"
  ce_pipeline :: "('d, 'r) pipeline"

definition without_fresh_reads :: "('d \<Rightarrow> 'd) \<Rightarrow> 'd app_state \<Rightarrow> 'd app_state" where
  "without_fresh_reads f state = (case state of Ready d \<Rightarrow> Ready (f d) | Not_Ready reason \<Rightarrow> Not_Ready reason)"

text \<open>The exit code, what stdout is given and what stderr is.\<close>

definition run_query :: "('d, 'r) command_env \<Rightarrow> query_args \<Rightarrow> nat \<times> bytes \<times> rstr list" where
  "run_query ce qa =
     (case resolve_on_file (qa_on_file qa) of
        Inl message \<Rightarrow> (1, [], [ascii ''dirsql query: '' @ message])
      | Inr parser \<Rightarrow>
          let state = without_fresh_reads (ce_without_fresh_reads ce)
                (load_state (ce_canonicalize ce) (ce_build ce) (qa_common qa) parser) in
          (case printed_query (ce_pipeline ce) (format_resolve (qa_format qa) (ce_stdout_is_terminal ce)) state (qa_sql qa) of
             Inr txt \<Rightarrow> (0, txt, [])
           | Inl failure \<Rightarrow> (1, [], [ascii ''dirsql query: '' @ failure_message (ce_debug ce) failure])))"

section \<open>A session\<close>

datatype entry = Statement rstr | Cancelled | Ended

definition is_exit_word :: "rstr \<Rightarrow> bool" where
  "is_exit_word l \<longleftrightarrow> eq_ignore_ascii_case l (ascii ''exit'') \<or> eq_ignore_ascii_case l (ascii ''quit'')"

text \<open>When the editor hands a text over; \<open>complete\<close> is \<open>sqlite3_complete\<close>, which takes no text with a NUL.\<close>

definition sql_is_complete :: "(rstr \<Rightarrow> bool) \<Rightarrow> rstr \<Rightarrow> bool" where
  "sql_is_complete complete sql \<longleftrightarrow> 0 \<in> set sql \<or> complete sql"

definition is_submittable :: "(rstr \<Rightarrow> bool) \<Rightarrow> rstr \<Rightarrow> bool" where
  "is_submittable complete buffer \<longleftrightarrow>
     trim buffer = [] \<or> is_exit_word (trim buffer) \<or> sql_is_complete complete buffer"

definition banner :: "rstr \<Rightarrow> rstr" where
  "banner version =
     ascii ''dirsql '' @ version @ ascii '' '' @ [8212] @ ascii '' this directory is a database.'' @ [c_nl, c_nl] @
     ascii ''  SELECT basename, size FROM '' @ [c_squote] @ ascii ''./'' @ [c_squote] @ ascii '' ORDER BY size DESC LIMIT 5;'' @ [c_nl] @
     ascii ''  SELECT path FROM '' @ [c_squote] @ ascii ''./**/*.md'' @ [c_squote] @ ascii '' WHERE content LIKE '' @ [c_squote] @
     ascii ''%TODO%'' @ [c_squote, c_semi, c_nl, c_nl] @ ascii ''`exit`, `quit`, or Ctrl-D to leave.'' @ [c_nl, c_nl]"

text \<open>Writing may fail; what stderr makes of a line is not looked at. The statements run are kept in order.\<close>

record 'o repl_state =
  sn_out :: 'o
  sn_err :: "rstr list"
  sn_ran :: "rstr list"

record 'o sink =
  sk_write :: "'o \<Rightarrow> bytes \<Rightarrow> 'o option"
  sk_flush :: "'o \<Rightarrow> 'o option"

text \<open>The loop, until it returns a code or breaks. \<open>run\<close> answers the n-th statement. A reader past its entries has
  ended.\<close>

fun session_loop ::
  "(nat \<Rightarrow> rstr \<Rightarrow> query_failure + jvalue) \<Rightarrow> (query_failure \<Rightarrow> rstr) \<Rightarrow> 'o sink \<Rightarrow> (jvalue \<Rightarrow> bytes) \<Rightarrow>
   (rstr + entry) list \<Rightarrow> 'o repl_state \<Rightarrow> nat option \<times> 'o repl_state"
where
  "session_loop run message sk show_rows [] ss = (None, ss)"
| "session_loop run message sk show_rows (Inl e # entries) ss =
     (Some 1, ss\<lparr>sn_err := sn_err ss @ [ascii ''dirsql: failed to read input: '' @ e]\<rparr>)"
| "session_loop run message sk show_rows (Inr Ended # entries) ss = (None, ss)"
| "session_loop run message sk show_rows (Inr Cancelled # entries) ss = session_loop run message sk show_rows entries ss"
| "session_loop run message sk show_rows (Inr (Statement s) # entries) ss =
     (let sql = trim s in
      if sql = [] then session_loop run message sk show_rows entries ss
      else if is_exit_word sql then (None, ss)
      else
        let ss' = ss\<lparr>sn_ran := sn_ran ss @ [sql]\<rparr> in
        (case run (length (sn_ran ss)) sql of
           Inr v \<Rightarrow>
             (case sk_write sk (sn_out ss) (show_rows v) of
                None \<Rightarrow> (Some 0, ss')
              | Some out \<Rightarrow> session_loop run message sk show_rows entries (ss'\<lparr>sn_out := out\<rparr>))
         | Inl failure \<Rightarrow>
             session_loop run message sk show_rows entries
               (ss'\<lparr>sn_err := sn_err ss @ [ascii ''dirsql: '' @ message failure]\<rparr>)))"

definition repl_loop ::
  "(nat \<Rightarrow> rstr \<Rightarrow> query_failure + jvalue) \<Rightarrow> (query_failure \<Rightarrow> rstr) \<Rightarrow> 'o sink \<Rightarrow> (jvalue \<Rightarrow> bytes) \<Rightarrow> rstr \<Rightarrow> bool \<Rightarrow>
   (rstr + entry) list \<Rightarrow> 'o repl_state \<Rightarrow> nat \<times> 'o repl_state"
where
  "repl_loop run message sk show_rows version interactive entries ss =
     (case (if interactive then Option.bind (sk_write sk (sn_out ss) (utf8 (banner version))) (sk_flush sk) else Some (sn_out ss)) of
        None \<Rightarrow> (1, ss)
      | Some out \<Rightarrow>
          (case session_loop run message sk show_rows entries (ss\<lparr>sn_out := out\<rparr>) of
             (Some code, ss') \<Rightarrow> (code, ss')
           | (None, ss') \<Rightarrow>
               (0, if interactive
                   then (case sk_write sk (sn_out ss') [c_nl] of None \<Rightarrow> ss' | Some out' \<Rightarrow> ss'\<lparr>sn_out := out'\<rparr>) else ss')))"

text \<open>The index is followed between statements, so the n-th runs over a pipeline of its own.\<close>

definition run_repl ::
  "(nat \<Rightarrow> ('d, 'r) pipeline) \<Rightarrow> (nat \<Rightarrow> rstr) \<Rightarrow> 'd app_state \<Rightarrow> row_format \<Rightarrow> 'o sink \<Rightarrow> json_lib \<Rightarrow> rstr \<Rightarrow> bool \<Rightarrow>
   (rstr + entry) list \<Rightarrow> 'o repl_state \<Rightarrow> nat \<times> 'o repl_state"
where
  "run_repl pls debug state fmt sk lib version interactive entries ss =
     (case state of
        Not_Ready reason \<Rightarrow> (1, ss\<lparr>sn_err := sn_err ss @ [ascii ''dirsql: '' @ reason]\<rparr>)
      | Ready d \<Rightarrow>
          repl_loop (\<lambda>n sql. execute_query (pls n) state (query_body lib sql)) (failure_message debug) sk
            (\<lambda>v. render_rows lib v fmt) version interactive entries ss)"

section \<open>What a session does\<close>

text \<open>The statements a session is asked to run: the trimmed ones that are not blank, up to an exit word or the end.\<close>

fun asked_of :: "(rstr + entry) list \<Rightarrow> rstr list" where
  "asked_of [] = []"
| "asked_of (Inl e # entries) = []"
| "asked_of (Inr Ended # entries) = []"
| "asked_of (Inr Cancelled # entries) = asked_of entries"
| "asked_of (Inr (Statement s) # entries) =
     (if trim s = [] then asked_of entries else if is_exit_word (trim s) then [] else trim s # asked_of entries)"

definition append_sink :: "bytes sink" where
  "append_sink = \<lparr>sk_write = (\<lambda>out bs. Some (out @ bs)), sk_flush = Some\<rparr>"

lemma sink_simps: "sk_write append_sink = (\<lambda>out bs. Some (out @ bs))" "sk_flush append_sink = Some"
  by (simp_all add: append_sink_def)

text \<open>The answers to the statements from the n-th on, and what they print and report.\<close>

definition answers_from :: "(nat \<Rightarrow> rstr \<Rightarrow> query_failure + jvalue) \<Rightarrow> nat \<Rightarrow> rstr list \<Rightarrow> (query_failure + jvalue) list" where
  "answers_from run n sqls = map (\<lambda>(i, sql). run i sql) (enumerate n sqls)"

definition shown :: "(jvalue \<Rightarrow> bytes) \<Rightarrow> (query_failure + jvalue) list \<Rightarrow> bytes" where
  "shown show_rows rs = concat (map (\<lambda>r. case r of Inr v \<Rightarrow> show_rows v | Inl _ \<Rightarrow> []) rs)"

definition reported :: "(query_failure \<Rightarrow> rstr) \<Rightarrow> (query_failure + jvalue) list \<Rightarrow> rstr list" where
  "reported message rs = concat (map (\<lambda>r. case r of Inr _ \<Rightarrow> [] | Inl f \<Rightarrow> [ascii ''dirsql: '' @ message f]) rs)"

lemma answers_from_simps [simp]:
  "answers_from run n [] = []" "answers_from run n (sql # sqls) = run n sql # answers_from run (Suc n) sqls"
  "shown show_rows [] = []" "shown show_rows (Inr v # rs) = show_rows v @ shown show_rows rs"
  "shown show_rows (Inl f # rs) = shown show_rows rs"
  "reported message [] = []" "reported message (Inr v # rs) = reported message rs"
  "reported message (Inl f # rs) = (ascii ''dirsql: '' @ message f) # reported message rs"
  by (simp_all add: answers_from_def shown_def reported_def del: ascii_Cons)

lemma session_loop_answers:
  assumes "list_all (\<lambda>e. \<not> isl e) entries"
  shows "session_loop run message append_sink show_rows entries ss =
    (None, ss\<lparr>sn_ran := sn_ran ss @ asked_of entries,
      sn_out := sn_out ss @ shown show_rows (answers_from run (length (sn_ran ss)) (asked_of entries)),
      sn_err := sn_err ss @ reported message (answers_from run (length (sn_ran ss)) (asked_of entries))\<rparr>)"
  using assms
proof (induction entries arbitrary: ss rule: asked_of.induct)
  case (5 s entries)
  show ?case
  proof (cases "trim s = [] \<or> is_exit_word (trim s)")
    case False
    show ?thesis
    proof (cases "run (length (sn_ran ss)) (trim s)")
      case (Inl f)
      then show ?thesis using 5 False by (simp add: Let_def del: ascii_Cons)
    next
      case (Inr v)
      then show ?thesis using 5 False by (simp add: Let_def append_sink_def)
    qed
  qed (use 5 in auto)
qed simp_all

lemma session_runs_each:
  assumes "list_all (\<lambda>e. \<not> isl e) entries"
  shows "run_repl pls debug (Ready d) fmt append_sink lib version interactive entries \<lparr>sn_out = [], sn_err = [], sn_ran = []\<rparr> =
    (let answers = answers_from (\<lambda>n sql. execute_query (pls n) (Ready d) (query_body lib sql)) 0 (asked_of entries) in
     (0, \<lparr>sn_out = (if interactive then utf8 (banner version) else []) @ shown (\<lambda>v. render_rows lib v fmt) answers @
            (if interactive then [c_nl] else []),
          sn_err = reported (failure_message debug) answers, sn_ran = asked_of entries\<rparr>))"
  using session_loop_answers [OF assms]
  by (simp add: run_repl_def repl_loop_def Let_def sink_simps)

text \<open>C35: A session over a ready index answers every statement it is asked, in order: a statement that fails is reported
  and the next is run, blank lines and abandoned ones are passed over, an exit word ends it, and it ends with
  code 0.\<close>

theorem session_answers_each:
  assumes "list_all (\<lambda>e. \<not> isl e) entries"
  shows "run_repl pls debug (Ready d) fmt append_sink lib version interactive entries \<lparr>sn_out = [], sn_err = [], sn_ran = []\<rparr> =
    (let answers = answers_from (\<lambda>n sql. execute_query (pls n) (Ready d) (query_body lib sql)) 0 (asked_of entries) in
     (0, \<lparr>sn_out = (if interactive then utf8 (banner version) else []) @ shown (\<lambda>v. render_rows lib v fmt) answers @
            (if interactive then [c_nl] else []),
          sn_err = reported (failure_message debug) answers, sn_ran = asked_of entries\<rparr>))"
  using assms by (rule session_runs_each)

lemma trim_trim: "trim (trim s) = trim s"
proof (cases "trim s = []")
  case False
  then have start: "trim_start s \<noteq> []" by (auto simp: trim_def trim_end_def)
  then have hd: "\<not> is_whitespace (hd (trim_start s))" by (simp add: trim_start_def hd_dropWhile)
  obtain t where t: "trim_start s = trim s @ t"
    unfolding trim_def trim_end_def by (metis append_take_drop_id dropWhile_eq_drop rev_append rev_rev_ident)
  then have "hd (trim s) = hd (trim_start s)" using False by simp
  moreover have "\<not> is_whitespace (last (trim s))"
    using False by (simp add: trim_def trim_end_def last_rev hd_dropWhile)
  ultimately show ?thesis using False hd by (intro trim_id) simp_all
next
  case True
  then show ?thesis by (simp only: True) (simp add: trim_def trim_start_def trim_end_def)
qed

lemma execute_query_trimmed:
  assumes "pl_body pl (query_body (pl_json pl) sql) = Inr (Some sql)"
    and "pl_body pl (query_body (pl_json pl) (trim sql)) = Inr (Some (trim sql))"
  shows "execute_query pl state (query_body (pl_json pl) (trim sql)) = execute_query pl state (query_body (pl_json pl) sql)"
  using assms by (simp add: execute_query_def parse_sql_body_def trim_trim)

text \<open>C34: A statement given on the command line and the same line piped into a session print the same text or report
  the same failure, although the one writes its rows as they come and the other prints the collected result.\<close>

theorem one_shot_as_session:
  assumes "steps_well (pl_engine pl) (pl_stepping pl) (pl_held pl)" "plain_verbatim (pl_json pl)"
    and "pl_body pl (query_body (pl_json pl) sql) = Inr (Some sql)"
    and "pl_body pl (query_body (pl_json pl) (trim sql)) = Inr (Some (trim sql))"
    and "trim sql \<noteq> []" "\<not> is_exit_word (trim sql)"
  shows "run_repl (\<lambda>_. pl) debug (Ready d) fmt append_sink (pl_json pl) version False [Inr (Statement sql)]
      \<lparr>sn_out = [], sn_err = [], sn_ran = []\<rparr> =
    (0, case printed_query pl fmt (Ready d) sql of
          Inr txt \<Rightarrow> \<lparr>sn_out = txt, sn_err = [], sn_ran = [trim sql]\<rparr>
        | Inl f \<Rightarrow> \<lparr>sn_out = [], sn_err = [ascii ''dirsql: '' @ failure_message debug f], sn_ran = [trim sql]\<rparr>)"
proof -
  have "printed_query pl fmt (Ready d) sql =
      map_sum id (\<lambda>v. render_rows (pl_json pl) v fmt) (execute_query pl (Ready d) (query_body (pl_json pl) sql))"
    unfolding printed_query_def query_json_written [OF assms(1,2)] by (cases fmt) (simp_all add: render_rows_def)
  moreover have "asked_of [Inr (Statement sql)] = [trim sql]" "list_all (\<lambda>e. \<not> isl e) [Inr (Statement sql)]"
    using assms(5,6) by simp_all
  ultimately show ?thesis
    by (cases "execute_query pl (Ready d) (query_body (pl_json pl) sql)")
      (simp_all add: session_runs_each execute_query_trimmed [OF assms(3,4)] Let_def del: ascii_Cons asked_of.simps)
qed

section \<open>The index a command builds\<close>

lemma name_configs_Inr:
  assumes "name_configs canonicalize paths b = Inr b'"
  shows "\<exists>resolved. list_all2 (\<lambda>path r. canonicalize path = Inr r) paths resolved \<and>
    b' = b\<lparr>bu_config_paths := bu_config_paths b @ resolved\<rparr>"
  using assms
proof (induction paths arbitrary: b)
  case (Cons path paths)
  then obtain r where r: "canonicalize path = Inr r" by (cases "canonicalize path") auto
  obtain resolved where "list_all2 (\<lambda>path r. canonicalize path = Inr r) paths resolved"
    "b' = (with_config r b)\<lparr>bu_config_paths := bu_config_paths (with_config r b) @ resolved\<rparr>"
    using Cons r by fastforce
  then show ?case using r by (intro exI [of _ "r # resolved"]) (simp add: with_config_def)
qed simp

lemma flagged_fields:
  "bu_root (apply_index_flags ca b) = bu_root b" "bu_extensions (apply_index_flags ca b) = bu_extensions b"
  "bu_config_paths (apply_index_flags ca b) = bu_config_paths b"
  "bu_suppress_config_extensions (apply_index_flags ca b) = bu_suppress_config_extensions b"
  "bu_path_table_parser (apply_index_flags ca b) = bu_path_table_parser b"
  "bu_no_ignore (apply_index_flags ca b) = ca_no_ignore ca"
  "bu_persist (apply_index_flags ca b) = (bu_persist b \<or> ca_persist ca \<noteq> None)"
  by (auto simp: apply_index_flags_def with_no_ignore_def with_persist_def Let_def split: option.splits)

lemma parsed_fields:
  "bu_root (attach_parser parser b) = bu_root b" "bu_extensions (attach_parser parser b) = bu_extensions b"
  "bu_config_paths (attach_parser parser b) = bu_config_paths b"
  "bu_suppress_config_extensions (attach_parser parser b) = bu_suppress_config_extensions b"
  "bu_path_table_parser (attach_parser parser b) = (if parser = None then bu_path_table_parser b else parser)"
  "bu_no_ignore (attach_parser parser b) = bu_no_ignore b" "bu_persist (attach_parser parser b) = bu_persist b"
  by (auto simp: attach_parser_def with_parser_def split: option.splits)

lemmas builder_fields = flagged_fields parsed_fields with_extensions_def with_suppress_def with_root_def builder_default_def

lemma built_state_Ready: "built_state failed outcome = Ready d \<longleftrightarrow> outcome = Inr d"
  by (simp add: built_state_def split: sum.splits)

text \<open>The builder a command is given, with files named and without.\<close>

lemma load_state_builds:
  assumes "load_state canonicalize build ca parser = Ready d"
  shows "\<exists>b. build b = Inr d \<and> bu_path_table_parser b = parser \<and> bu_no_ignore b = ca_no_ignore ca \<and>
    bu_persist b = (ca_persist ca \<noteq> None) \<and> bu_extensions b = parse_extension_specs (ca_extension ca) \<and>
    list_all2 (\<lambda>path r. canonicalize path = Inr r) (ca_config ca) (bu_config_paths b) \<and>
    bu_suppress_config_extensions b = (ca_config ca \<noteq> [] \<and> ca_extension ca \<noteq> []) \<and>
    (bu_root b \<noteq> None \<longleftrightarrow> ca_config ca = [])"
proof (cases "ca_config ca = []")
  case True
  then obtain root where root: "canonicalize (ascii ''.'') = Inr root"
    using assms by (cases "canonicalize (ascii ''.'')") (auto simp: load_state_def load_configless_state_def)
  let ?b = "attach_parser parser
    (with_extensions (parse_extension_specs (ca_extension ca)) (apply_index_flags ca (with_root root builder_default)))"
  have "build ?b = Inr d"
    using assms True root by (simp add: load_state_def load_configless_state_def built_state_Ready del: ascii_Cons)
  then show ?thesis using True by (intro exI [of _ ?b]) (simp add: builder_fields)
next
  case False
  then obtain b0 where b0: "name_configs canonicalize (ca_config ca) builder_default = Inr b0"
    using assms by (cases "name_configs canonicalize (ca_config ca) builder_default") (auto simp: load_state_def)
  obtain resolved where resolved: "list_all2 (\<lambda>path r. canonicalize path = Inr r) (ca_config ca) resolved"
    "b0 = builder_default\<lparr>bu_config_paths := resolved\<rparr>"
    using name_configs_Inr [OF b0] by (auto simp: builder_default_def)
  let ?b = "attach_parser parser (apply_index_flags ca (if ca_extension ca \<noteq> []
    then with_suppress True (with_extensions (parse_extension_specs (ca_extension ca)) b0) else b0))"
  have "build ?b = Inr d"
    using assms False b0 by (simp add: load_state_def built_state_Ready Let_def)
  then show ?thesis using False resolved
    by (intro exI [of _ ?b]) (auto simp: builder_fields parse_extension_specs_def)
qed

section \<open>A session over the small connection\<close>

text \<open>The \<open>sql\<close> field of a body that \<open>plain_lib\<close> wrote.\<close>

definition plain_body :: "rstr \<Rightarrow> rstr + rstr option" where
  "plain_body body = Inr (Some (take (length body - 10) (drop 8 body)))"

definition asked_pipeline :: "(unit, unit) pipeline" where
  "asked_pipeline = small_pipeline\<lparr>pl_body := plain_body\<rparr>"

lemma plain_body_read: "plain_body (query_body plain_lib (ascii ''q'')) = Inr (Some (ascii ''q''))"
  by code_simp

lemma typed_lines:
  "trim [c_nl] = []" "trim (ascii '' q'') = ascii ''q''" "trim (ascii ''q'') = ascii ''q''" "trim (ascii ''EXIT'') = ascii ''EXIT''"
  by (simp_all add: trim_def trim_start_def trim_end_def is_whitespace_def)

lemma exit_words: "is_exit_word (ascii ''EXIT'')" "\<not> is_exit_word (ascii ''q'')"
  by (simp_all add: is_exit_word_def eq_ignore_ascii_case_def char_defs)

lemma asked_executed:
  "execute_query asked_pipeline (Ready ()) (query_body plain_lib (ascii ''q'')) =
    Inr (J_Array [J_Object [(ascii ''path'', J_String [97])]])"
proof -
  have "ascii ''q'' \<noteq> []" by simp
  then show ?thesis
    by (simp add: execute_query_def asked_pipeline_def small_pipeline_def parse_sql_body_def plain_body_read require_ready_def index_query_def
        answered_def small_selected result_to_json_def ordered_row_to_json_def typed_lines del: ascii_Cons)
qed

theorem session_answers_each_witness:
  "run_repl (\<lambda>_. asked_pipeline) show_nat (Ready ()) As_Json append_sink plain_lib [] False
      [Inr (Statement [c_nl]), Inr (Statement (ascii '' q'')), Inr Cancelled, Inr (Statement (ascii ''EXIT'')), Inr (Statement (ascii ''q''))]
      \<lparr>sn_out = [], sn_err = [], sn_ran = []\<rparr> =
    (0, \<lparr>sn_out = jtext plain_lib (J_Array [J_Object [(ascii ''path'', J_String [97])]]) @ [c_nl], sn_err = [], sn_ran = [ascii ''q'']\<rparr>)"
proof -
  let ?entries = "[Inr (Statement [c_nl]), Inr (Statement (ascii '' q'')), Inr Cancelled, Inr (Statement (ascii ''EXIT'')),
    Inr (Statement (ascii ''q''))] :: (rstr + entry) list"
  have "ascii ''q'' \<noteq> []" "ascii ''EXIT'' \<noteq> []" by simp_all
  then have asked: "asked_of ?entries = [ascii ''q'']" by (simp add: typed_lines exit_words del: ascii_Cons)
  have "list_all (\<lambda>e. \<not> isl e) ?entries" by simp
  from session_answers_each [OF this, of "\<lambda>_. asked_pipeline" show_nat "()" As_Json plain_lib "[]" False]
  show ?thesis unfolding asked by (simp add: asked_executed render_rows_def Let_def del: ascii_Cons jtext.simps)
qed

theorem one_shot_as_session_witness:
  "printed_query asked_pipeline As_Json (Ready ()) (ascii ''q'') = Inr (jtext plain_lib (J_Array [J_Object [(ascii ''path'', J_String [97])]]) @ [c_nl])"
proof -
  have blank: "ascii ''q'' \<noteq> []" "\<not> is_exit_word (ascii ''q'')" by (simp, simp only: exit_words not_False_eq_True)
  have json: "pl_json asked_pipeline = plain_lib" by (simp add: asked_pipeline_def small_pipeline_def)
  have "steps_well (pl_engine asked_pipeline) (pl_stepping asked_pipeline) (pl_held asked_pipeline)" "plain_verbatim (pl_json asked_pipeline)"
    "pl_body asked_pipeline (query_body (pl_json asked_pipeline) (ascii ''q'')) = Inr (Some (ascii ''q''))"
    by (simp_all add: asked_pipeline_def small_pipeline_def small_well plain_body_read plain_verbatim_def plain_lib_def [THEN arg_cong, of jl_string] del: ascii_Cons)
  note one = one_shot_as_session [OF this(1-3), unfolded typed_lines(3), OF this(3) blank, of show_nat "()" As_Json "[]", unfolded json]
  have "run_repl (\<lambda>_. asked_pipeline) show_nat (Ready ()) As_Json append_sink plain_lib [] False [Inr (Statement (ascii ''q''))]
      \<lparr>sn_out = [], sn_err = [], sn_ran = []\<rparr> =
    (0, \<lparr>sn_out = jtext plain_lib (J_Array [J_Object [(ascii ''path'', J_String [97])]]) @ [c_nl], sn_err = [], sn_ran = [ascii ''q'']\<rparr>)"
    by (subst session_runs_each) (simp_all add: asked_executed typed_lines blank render_rows_def Let_def del: ascii_Cons jtext.simps)
  then show ?thesis using one
    by (cases "printed_query asked_pipeline As_Json (Ready ()) (ascii ''q'')") (simp_all del: ascii_Cons jtext.simps)
qed

end
